(* ===== verification/Prelude.thy ===== *)
theory Prelude
  imports Main "HOL-Library.Word"
begin

unbundle bit_operations_syntax

section \<open>Shared vocabulary of the development\<close>

text \<open>
  What every component theory uses: bytes and C integer conversions, the values that cross the
  boundary between Lua and C, the host operations of the Lua virtual machine the C code calls
  (they are parameters: the record \<open>lua_rt\<close>), and generic facts on lists.

  A byte is a \<open>char\<close>, a byte array or Lua string a \<open>string\<close>, so that literals of the source read
  as they do there. Widths are explicit: \<open>uint16_t\<close>, \<open>uint32_t\<close> and \<open>uint64_t\<close> are words.
\<close>

named_theorems model_defs \<open>definitions a component's proofs unfold together\<close>
named_theorems inv_intros \<open>an operation keeps its component's invariant\<close>

type_synonym bytes = string

subsection \<open>C integers\<close>

text \<open>Conversion of a mathematical integer to a signed \<open>int\<close> (32 bits).\<close>

definition int32 :: "int \<Rightarrow> int" where
  "int32 x = signed_take_bit 31 x"

lemma int32_id [simp]:
  assumes "- (2 ^ 31) \<le> x" "x < 2 ^ 31"
  shows "int32 x = x"
  using assms by (simp add: int32_def signed_take_bit_int_eq_self)

lemma int32_range: "- (2 ^ 31) \<le> int32 x \<and> int32 x < 2 ^ 31"
  unfolding int32_def
  using signed_take_bit_int_greater_eq_minus_exp [of 31 x] signed_take_bit_int_less_exp [of 31 x] by blast

lemma int32_int32_add: "int32 (int32 x + y) = int32 (x + y)"
proof -
  have "signed_take_bit 31 (signed_take_bit 31 x + y) =
      signed_take_bit 31 (signed_take_bit 31 (signed_take_bit 31 x) + signed_take_bit 31 y)"
    by (rule signed_take_bit_add [symmetric])
  also have "\<dots> = signed_take_bit 31 (signed_take_bit 31 x + signed_take_bit 31 y)" by simp
  also have "\<dots> = signed_take_bit 31 (x + y)" by (rule signed_take_bit_add)
  finally show ?thesis by (simp add: int32_def)
qed

text \<open>Signed arithmetic is undefined outside its range: the two ranges the code uses.\<close>

definition in_int32 :: "int \<Rightarrow> bool" where
  "in_int32 x \<longleftrightarrow> - (2 ^ 31) \<le> x \<and> x < 2 ^ 31"

definition in_int64 :: "int \<Rightarrow> bool" where
  "in_int64 x \<longleftrightarrow> - (2 ^ 63) \<le> x \<and> x < 2 ^ 63"

lemma bit_of_char_nat: "bit (of_char c :: nat) n \<Longrightarrow> n < 8"
proof (rule ccontr)
  assume b: "bit (of_char c :: nat) n" and "\<not> n < 8"
  then have "(2 :: nat) ^ 8 \<le> 2 ^ n" by (intro power_increasing) simp_all
  then have "(of_char c :: nat) < 2 ^ n" using less_le_trans [OF nat_of_char_less_256] by simp
  with b show False by (simp add: bit_iff_odd)
qed

lemma bit_of_char_word:
  "bit (of_char c :: 'a::len word) n \<longleftrightarrow> n < LENGTH('a) \<and> bit (of_char c :: nat) n"
proof -
  have "(of_char c :: 'a word) = word_of_nat (of_char c)"
    by (rule of_nat_of_char [symmetric])
  then show ?thesis by (simp add: bit_of_nat_iff)
qed

lemma and_or_0: "(x :: nat) AND (a OR b) = 0 \<longleftrightarrow> x AND a = 0 \<and> x AND b = 0"
  by (auto simp: bit_eq_iff bit_simps)

lemma unat_word_of_nat: "n < 2 ^ LENGTH('a::len) \<Longrightarrow> unat (word_of_nat n :: 'a word) = n"
  by (simp add: unsigned_of_nat take_bit_nat_eq_self)

text \<open>The return codes of nginx functions.\<close>

datatype ngx_rc = NGX_OK | NGX_ERROR | NGX_AGAIN | NGX_BUSY | NGX_DONE | NGX_DECLINED

text \<open>Reading one byte through a pointer into a buffer; \<open>None\<close> is an access outside the buffer.\<close>

definition rd :: "bytes \<Rightarrow> int \<Rightarrow> char option" where
  "rd buf i = (if 0 \<le> i \<and> i < int (length buf) then Some (buf ! nat i) else None)"

lemma rd_nat: "rd buf (int n) = (if n < length buf then Some (buf ! n) else None)"
  by (simp add: rd_def)

lemma rd_SomeD: "rd buf i = Some c \<Longrightarrow> 0 \<le> i \<and> i < int (length buf) \<and> c = buf ! nat i"
  by (auto simp: rd_def split: if_splits)

subsection \<open>Lua values at the C boundary\<close>

text \<open>
  A Lua number is an IEEE 754 double, represented by its 64 bits, which is what
  \<open>ngx_memcpy\<close> copies. A table argument only matters as a shared-dictionary handle: its first
  array slot holds the zone's light userdata (\<open>LTable True\<close>) or not (\<open>LTable False\<close>).
\<close>

type_synonym lua_number = "64 word"

datatype lua_value =
    LNil
  | LBool bool
  | LNumber lua_number
  | LString bytes
  | LTable bool
  | LList "lua_value list"
  | LOther

text \<open>A C function called from Lua returns values or raises an error through \<open>luaL_error\<close>.\<close>

datatype lua_result = LRet "lua_value list" | LErr string

text \<open>
  Conversions and floating-point arithmetic of the Lua virtual machine and the host, which the C
  code calls and does not define: number to string, string to number, double addition, a
  time in seconds to whole milliseconds (\<open>(uint64_t) (x * 1000)\<close>), \<open>luaL_checkinteger\<close> cut to
  32 bits, \<open>luaL_checkint\<close>.
\<close>

record lua_rt =
  rt_tostring :: "lua_number \<Rightarrow> bytes"
  rt_tonumber :: "bytes \<Rightarrow> lua_number option"
  rt_add :: "lua_number \<Rightarrow> lua_number \<Rightarrow> lua_number"
  rt_ms :: "lua_number \<Rightarrow> 64 word"
  rt_u32 :: "lua_number \<Rightarrow> 32 word"
  rt_int :: "lua_number \<Rightarrow> int"

text \<open>One concrete host, for examples on concrete inputs: word arithmetic and no conversions.\<close>

definition demo_rt :: lua_rt where
  "demo_rt = \<lparr>rt_tostring = (\<lambda>_. []), rt_tonumber = (\<lambda>_. None), rt_add = (\<lambda>x y. x + y),
     rt_ms = (\<lambda>x. x), rt_u32 = ucast, rt_int = uint\<rparr>"

text \<open>Comparisons of a double with zero, read off its bits (a NaN is on neither side).\<close>

definition num_is_nan :: "lua_number \<Rightarrow> bool" where
  "num_is_nan x \<longleftrightarrow> unat (x AND mask 63) > 0x7FF0000000000000"

definition num_lt0 :: "lua_number \<Rightarrow> bool" where
  "num_lt0 x \<longleftrightarrow> bit x 63 \<and> x AND mask 63 \<noteq> 0 \<and> \<not> num_is_nan x"

definition num_gt0 :: "lua_number \<Rightarrow> bool" where
  "num_gt0 x \<longleftrightarrow> \<not> bit x 63 \<and> x AND mask 63 \<noteq> 0 \<and> \<not> num_is_nan x"

text \<open>An integer below \<open>2 ^ 53\<close> as a double: sign, biased exponent, mantissa.\<close>

fun ilog2 :: "nat \<Rightarrow> nat" where
  "ilog2 n = (if n < 2 then 0 else Suc (ilog2 (n div 2)))"

declare ilog2.simps [simp del]

definition num_of_int :: "int \<Rightarrow> lua_number" where
  "num_of_int i =
     (if i = 0 then 0
      else let m = nat \<bar>i\<bar>; k = ilog2 m
           in (if i < 0 then push_bit 63 1 else 0)
              OR push_bit 52 (word_of_nat (1023 + k))
              OR push_bit (52 - k) (word_of_nat (m - 2 ^ k)))"

text \<open>
  \<open>luaL_checklstring\<close>: strings pass, numbers are converted, anything else raises an argument
  error.
\<close>

definition check_string :: "lua_rt \<Rightarrow> lua_value \<Rightarrow> bytes option" where
  "check_string rt v = (case v of LString s \<Rightarrow> Some s | LNumber x \<Rightarrow> Some (rt_tostring rt x) | _ \<Rightarrow> None)"

text \<open>\<open>luaL_checknumber\<close>: numbers pass, numeric strings are converted.\<close>

definition check_number :: "lua_rt \<Rightarrow> lua_value \<Rightarrow> lua_number option" where
  "check_number rt v = (case v of LNumber x \<Rightarrow> Some x | LString s \<Rightarrow> rt_tonumber rt s | _ \<Rightarrow> None)"

lemma check_string_simps [simp]:
  "check_string rt (LString s) = Some s"
  "check_string rt (LNumber x) = Some (rt_tostring rt x)"
  "check_string rt LNil = None"
  "check_string rt (LBool b) = None"
  by (simp_all add: check_string_def)

lemma check_number_simps [simp]:
  "check_number rt (LNumber x) = Some x"
  "check_number rt (LString s) = rt_tonumber rt s"
  "check_number rt LNil = None"
  by (simp_all add: check_number_def)

subsection \<open>Lists\<close>

lemma filter_neq_id [simp]: "x \<notin> set xs \<Longrightarrow> filter (\<lambda>y. y \<noteq> x) xs = xs"
  by (induction xs) auto

lemma map_of_filter_key:
  "map_of (filter (\<lambda>e. fst e \<noteq> k) xs) = (map_of xs)(k := None)"
  by (induction xs) auto

lemma map_of_move_to_front:
  assumes "map_of xs k = Some v"
  shows "map_of ((k, v) # filter (\<lambda>e. fst e \<noteq> k) xs) = map_of xs"
  using assms by (auto simp: map_of_filter_key)

end
