(* ===== verification/Redis_Slot.thy ===== *)
theory Redis_Slot
  imports Prelude
begin

section \<open>Hash slots of keys (ngx\_stream\_lua\_redis.c)\<close>

text \<open>
  The CRC16 of a key and the slot it selects, with the \<open>{...}\<close> hash-tag rule, and the Lua
  function \<open>ngx.redis_slot\<close>. The specification side is the bitwise CRC-16/XMODEM that the
  comment of the source names (polynomial \<open>0x1021\<close>, initial value 0, no reflection) and a
  declarative hash tag.
\<close>

subsection \<open>The code\<close>

definition crc16tab :: "16 word list" where
  "crc16tab =
  [0x0000, 0x1021, 0x2042, 0x3063, 0x4084, 0x50a5, 0x60c6, 0x70e7,
   0x8108, 0x9129, 0xa14a, 0xb16b, 0xc18c, 0xd1ad, 0xe1ce, 0xf1ef,
   0x1231, 0x0210, 0x3273, 0x2252, 0x52b5, 0x4294, 0x72f7, 0x62d6,
   0x9339, 0x8318, 0xb37b, 0xa35a, 0xd3bd, 0xc39c, 0xf3ff, 0xe3de,
   0x2462, 0x3443, 0x0420, 0x1401, 0x64e6, 0x74c7, 0x44a4, 0x5485,
   0xa56a, 0xb54b, 0x8528, 0x9509, 0xe5ee, 0xf5cf, 0xc5ac, 0xd58d,
   0x3653, 0x2672, 0x1611, 0x0630, 0x76d7, 0x66f6, 0x5695, 0x46b4,
   0xb75b, 0xa77a, 0x9719, 0x8738, 0xf7df, 0xe7fe, 0xd79d, 0xc7bc,
   0x48c4, 0x58e5, 0x6886, 0x78a7, 0x0840, 0x1861, 0x2802, 0x3823,
   0xc9cc, 0xd9ed, 0xe98e, 0xf9af, 0x8948, 0x9969, 0xa90a, 0xb92b,
   0x5af5, 0x4ad4, 0x7ab7, 0x6a96, 0x1a71, 0x0a50, 0x3a33, 0x2a12,
   0xdbfd, 0xcbdc, 0xfbbf, 0xeb9e, 0x9b79, 0x8b58, 0xbb3b, 0xab1a,
   0x6ca6, 0x7c87, 0x4ce4, 0x5cc5, 0x2c22, 0x3c03, 0x0c60, 0x1c41,
   0xedae, 0xfd8f, 0xcdec, 0xddcd, 0xad2a, 0xbd0b, 0x8d68, 0x9d49,
   0x7e97, 0x6eb6, 0x5ed5, 0x4ef4, 0x3e13, 0x2e32, 0x1e51, 0x0e70,
   0xff9f, 0xefbe, 0xdfdd, 0xcffc, 0xbf1b, 0xaf3a, 0x9f59, 0x8f78,
   0x9188, 0x81a9, 0xb1ca, 0xa1eb, 0xd10c, 0xc12d, 0xf14e, 0xe16f,
   0x1080, 0x00a1, 0x30c2, 0x20e3, 0x5004, 0x4025, 0x7046, 0x6067,
   0x83b9, 0x9398, 0xa3fb, 0xb3da, 0xc33d, 0xd31c, 0xe37f, 0xf35e,
   0x02b1, 0x1290, 0x22f3, 0x32d2, 0x4235, 0x5214, 0x6277, 0x7256,
   0xb5ea, 0xa5cb, 0x95a8, 0x8589, 0xf56e, 0xe54f, 0xd52c, 0xc50d,
   0x34e2, 0x24c3, 0x14a0, 0x0481, 0x7466, 0x6447, 0x5424, 0x4405,
   0xa7db, 0xb7fa, 0x8799, 0x97b8, 0xe75f, 0xf77e, 0xc71d, 0xd73c,
   0x26d3, 0x36f2, 0x0691, 0x16b0, 0x6657, 0x7676, 0x4615, 0x5634,
   0xd94c, 0xc96d, 0xf90e, 0xe92f, 0x99c8, 0x89e9, 0xb98a, 0xa9ab,
   0x5844, 0x4865, 0x7806, 0x6827, 0x18c0, 0x08e1, 0x3882, 0x28a3,
   0xcb7d, 0xdb5c, 0xeb3f, 0xfb1e, 0x8bf9, 0x9bd8, 0xabbb, 0xbb9a,
   0x4a75, 0x5a54, 0x6a37, 0x7a16, 0x0af1, 0x1ad0, 0x2ab3, 0x3a92,
   0xfd2e, 0xed0f, 0xdd6c, 0xcd4d, 0xbdaa, 0xad8b, 0x9de8, 0x8dc9,
   0x7c26, 0x6c07, 0x5c64, 0x4c45, 0x3ca2, 0x2c83, 0x1ce0, 0x0cc1,
   0xef1f, 0xff3e, 0xcf5d, 0xdf7c, 0xaf9b, 0xbfba, 0x8fd9, 0x9ff8,
   0x6e17, 0x7e36, 0x4e55, 0x5e74, 0x2e93, 0x3eb2, 0x0ed1, 0x1ef0]"

text \<open>
  One iteration of the loop of \<open>crc16\<close>: the arithmetic is done on \<open>int\<close> (32 bits) after the
  usual promotions, the byte is a signed \<open>char\<close>, and the assignment cuts to \<open>uint16_t\<close>.
\<close>

definition crc16_index :: "16 word \<Rightarrow> char \<Rightarrow> nat" where
  "crc16_index crc c =
     unat ((drop_bit 8 (ucast crc :: 32 word) XOR scast (of_char c :: 8 word)) AND 0x00FF)"

definition crc16_step :: "16 word \<Rightarrow> char \<Rightarrow> 16 word" where
  "crc16_step crc c =
     ucast (push_bit 8 (ucast crc :: 32 word) XOR ucast (crc16tab ! crc16_index crc c))"

fun crc16_loop :: "16 word \<Rightarrow> bytes \<Rightarrow> 16 word" where
  "crc16_loop crc [] = crc"
| "crc16_loop crc (c # buf) = crc16_loop (crc16_step crc c) buf"

definition crc16 :: "bytes \<Rightarrow> 16 word" where
  "crc16 buf = crc16_loop 0 buf"

text \<open>The search loops \<open>for (s = ...; s < keylen; s++) if (key[s] == c) break;\<close>.\<close>

function scan_char :: "char \<Rightarrow> bytes \<Rightarrow> nat \<Rightarrow> nat" where
  "scan_char c key s = (if s < length key \<and> key ! s \<noteq> c then scan_char c key (Suc s) else s)"
  by pat_completeness auto
termination
  by (relation "measure (\<lambda>(c, key, s). length key - s)") auto

declare scan_char.simps [simp del]

definition key_hash_slot :: "bytes \<Rightarrow> 32 word" where
  "key_hash_slot key =
     (let keylen = length key;
          s = scan_char CHR ''{'' key 0
      in if s = keylen then ucast (crc16 key) AND 0x3FFF
         else let e = scan_char CHR ''}'' key (s + 1)
              in if e = keylen \<or> e = s + 1 then ucast (crc16 key) AND 0x3FFF
                 else ucast (crc16 (take (e - s - 1) (drop (s + 1) key))) AND 0x3FFF)"

text \<open>\<open>ngx.redis_slot\<close>, over the values on the Lua stack.\<close>

definition ngx_redis_slot :: "lua_rt \<Rightarrow> lua_value list \<Rightarrow> lua_result" where
  "ngx_redis_slot rt args =
     (case args of
        [a] \<Rightarrow>
          (if a = LNil then LRet [LString []]
           else case check_string rt a of
                  None \<Rightarrow> LErr ''bad argument''
                | Some p \<Rightarrow> LRet [LNumber (num_of_int (uint (key_hash_slot p)))])
      | _ \<Rightarrow> LErr ''expecting one argument'')"

subsection \<open>Specification\<close>

text \<open>One bit of polynomial division by \<open>x^16 + x^12 + x^5 + 1\<close>.\<close>

definition crc_bit :: "16 word \<Rightarrow> 16 word" where
  "crc_bit x = (if bit x 15 then push_bit 1 x XOR 0x1021 else push_bit 1 x)"

definition crc_byte :: "16 word \<Rightarrow> char \<Rightarrow> 16 word" where
  "crc_byte crc c = (crc_bit ^^ 8) (crc XOR push_bit 8 (of_char c))"

definition crc16_xmodem :: "bytes \<Rightarrow> 16 word" where
  "crc16_xmodem buf = fold (\<lambda>c crc. crc_byte crc c) buf 0"

text \<open>What is hashed: the bytes between the first brace and the first closing brace after it.\<close>

definition hash_tag :: "bytes \<Rightarrow> bytes" where
  "hash_tag key =
     (let rest = tl (dropWhile (\<lambda>c. c \<noteq> CHR ''{'') key);
          tag = takeWhile (\<lambda>c. c \<noteq> CHR ''}'') rest
      in if CHR ''{'' \<in> set key \<and> CHR ''}'' \<in> set rest \<and> tag \<noteq> [] then tag else key)"

subsection \<open>The division step is linear\<close>

lemma crc_bit_xor: "crc_bit (x XOR y) = crc_bit x XOR crc_bit y"
  by (rule bit_word_eqI) (auto simp: crc_bit_def bit_simps)

lemma crc_bits_xor: "(crc_bit ^^ n) (x XOR y) = (crc_bit ^^ n) x XOR (crc_bit ^^ n) y"
  by (induction n) (simp_all add: crc_bit_xor)

text \<open>A value whose set bits are all low shifts out without a reduction.\<close>

lemma crc_bits_low:
  assumes "n \<le> 8"
  shows "(crc_bit ^^ n) (x AND mask 8) = push_bit n (x AND mask 8)"
  using assms
proof (induction n)
  case 0
  then show ?case by simp
next
  case (Suc n)
  have "\<not> bit (push_bit n (x AND mask 8)) 15"
    using Suc.prems by (auto simp: bit_simps)
  with Suc show ?case by (simp add: crc_bit_def)
qed

subsection \<open>The table holds eight division steps of its index\<close>

fun crc_dbl :: "16 word list \<Rightarrow> 16 word list" where
  "crc_dbl [] = []"
| "crc_dbl (t # ts) = crc_bit t # (crc_bit t XOR 0x1021) # crc_dbl ts"

lemma length_crc_dbl [simp]: "length (crc_dbl ts) = 2 * length ts"
  by (induction ts) simp_all

lemma nth_crc_dbl:
  "i < length ts \<Longrightarrow> crc_dbl ts ! (2 * i) = crc_bit (ts ! i)
     \<and> crc_dbl ts ! Suc (2 * i) = crc_bit (ts ! i) XOR 0x1021"
proof (induction ts arbitrary: i)
  case (Cons t ts)
  then show ?case by (cases i) simp_all
qed simp

lemma length_crc16tab [simp]: "length crc16tab = 256"
  by (simp add: crc16tab_def)

lemma crc16tab_0: "crc16tab ! 0 = 0"
  by (simp add: crc16tab_def)

lemma crc16tab_dbl: "crc16tab = crc_dbl (take 128 crc16tab)"
  by (simp add: crc16tab_def crc_bit_def)

lemma crc16tab_nth_dbl:
  assumes "i < 128"
  shows "crc16tab ! (2 * i) = crc_bit (crc16tab ! i)"
    and "crc16tab ! Suc (2 * i) = crc_bit (crc16tab ! i) XOR 0x1021"
proof -
  have "i < length (take 128 crc16tab)" using assms by simp
  from nth_crc_dbl [OF this]
  show "crc16tab ! (2 * i) = crc_bit (crc16tab ! i)"
    and "crc16tab ! Suc (2 * i) = crc_bit (crc16tab ! i) XOR 0x1021"
    using assms by (simp_all flip: crc16tab_dbl)
qed

text \<open>The same recursion for the division steps, so the two agree on every index.\<close>

lemma crc_index_dbl:
  assumes "i < 128"
  shows "(crc_bit ^^ 8) (push_bit 8 (word_of_nat (2 * i))) =
           crc_bit ((crc_bit ^^ 8) (push_bit 8 (word_of_nat i)))"
proof -
  have eq: "push_bit 8 (word_of_nat i :: 16 word) = word_of_nat (256 * i)"
    by (simp add: push_bit_eq_mult)
  have "unat (word_of_nat (256 * i) :: 16 word) = 256 * i"
    using assms by (simp add: unsigned_of_nat take_bit_nat_eq_self del: of_nat_mult)
  then have "\<not> bit (unat (word_of_nat (256 * i) :: 16 word)) 15"
    using assms by (simp add: bit_iff_odd)
  then have "\<not> bit (word_of_nat (256 * i) :: 16 word) 15"
    by (simp add: bit_unsigned_iff)
  then have "push_bit 8 (word_of_nat (2 * i) :: 16 word) = crc_bit (push_bit 8 (word_of_nat i))"
    unfolding eq by (simp add: crc_bit_def push_bit_eq_mult)
  then show ?thesis by (simp add: funpow_swap1)
qed

lemma crc_index_1: "(crc_bit ^^ 8) 256 = 0x1021"
proof -
  have 8: "(8 :: nat) = Suc (Suc (Suc (Suc (Suc (Suc (Suc (Suc 0)))))))" by simp
  show ?thesis unfolding 8 by (simp add: crc_bit_def)
qed

lemma crc16tab_nth:
  "i < 256 \<Longrightarrow> crc16tab ! i = (crc_bit ^^ 8) (push_bit 8 (word_of_nat i))"
proof (induction i rule: less_induct)
  case (less i)
  show ?case
  proof (cases "i = 0")
    case True
    have "(crc_bit ^^ 8) 0 = 0" using crc_bits_low [of 8 0] by simp
    with True show ?thesis by (simp add: crc16tab_0)
  next
    case False
    define j where "j = i div 2"
    have j: "j < 128" "j < i" using less.prems False by (auto simp: j_def)
    with less.IH have IH: "crc16tab ! j = (crc_bit ^^ 8) (push_bit 8 (word_of_nat j))" by simp
    show ?thesis
    proof (cases "even i")
      case True
      then have "i = 2 * j" by (simp add: j_def)
      then show ?thesis using crc16tab_nth_dbl(1) [OF j(1)] crc_index_dbl [OF j(1)] IH by simp
    next
      case odd: False
      then have i: "i = Suc (2 * j)" by (simp add: j_def)
      have "push_bit 8 (word_of_nat i :: 16 word) = push_bit 8 (word_of_nat (2 * j)) XOR push_bit 8 1"
      proof -
        have "(word_of_nat i :: 16 word) = word_of_nat (2 * j) XOR 1"
          by (simp add: i xor_one_eq)
        then show ?thesis by simp
      qed
      then show ?thesis
        using crc16tab_nth_dbl(2) [OF j(1)] crc_index_dbl [OF j(1)] IH
        by (simp add: i crc_bits_xor crc_index_1)
    qed
  qed
qed

subsection \<open>The table-driven step is the bitwise step\<close>

definition crc_hi :: "16 word \<Rightarrow> char \<Rightarrow> 16 word" where
  "crc_hi crc c = drop_bit 8 crc XOR of_char c"

lemma crc_hi_low: "bit (crc_hi crc c) n \<Longrightarrow> n < 8"
  using bit_imp_le_length [of crc "8 + n"]
  by (auto simp: crc_hi_def bit_simps bit_of_char_word dest: bit_of_char_nat)

lemma crc_hi_small: "unat (crc_hi crc c) < 256"
proof -
  have "crc_hi crc c = take_bit 8 (crc_hi crc c)"
    by (rule bit_word_eqI) (auto simp: bit_take_bit_iff dest: crc_hi_low)
  then have "unat (crc_hi crc c) = take_bit 8 (unat (crc_hi crc c))"
    by (metis unsigned_take_bit_eq)
  also have "\<dots> < 2 ^ 8" by (rule take_bit_nat_less_exp)
  finally show ?thesis by simp
qed

lemma crc16_index_eq: "crc16_index crc c = unat (crc_hi crc c)"
proof -
  have "(drop_bit 8 (ucast crc :: 32 word) XOR scast (of_char c :: 8 word)) AND mask 8 =
          (ucast (crc_hi crc c) :: 32 word)"
  proof (rule bit_word_eqI)
    fix n
    assume "n < LENGTH(32)"
    show "bit ((drop_bit 8 (ucast crc :: 32 word) XOR scast (of_char c :: 8 word)) AND mask 8) n =
            bit (ucast (crc_hi crc c) :: 32 word) n"
    proof (cases "n < 8")
      case True
      then have "min 7 n = n" by simp
      with True show ?thesis by (auto simp: crc_hi_def bit_simps bit_of_char_word)
    next
      case False
      then show ?thesis by (auto simp: bit_simps dest: crc_hi_low)
    qed
  qed
  moreover have "(0xFF :: 32 word) = mask 8" by (simp add: mask_eq_exp_minus_1)
  ultimately show ?thesis
    using crc_hi_small [of crc c] by (simp add: crc16_index_def unsigned_ucast_eq take_bit_nat_eq_self)
qed

lemma crc16_step_eq: "crc16_step crc c = crc_byte crc c"
proof -
  have split: "crc XOR push_bit 8 (of_char c) = push_bit 8 (crc_hi crc c) XOR (crc AND mask 8)"
    by (rule bit_word_eqI) (auto simp: crc_hi_def bit_simps)
  have tab: "crc16tab ! crc16_index crc c = (crc_bit ^^ 8) (push_bit 8 (crc_hi crc c))"
    by (simp add: crc16_index_eq crc16tab_nth crc_hi_small)
  have "crc_byte crc c = (crc_bit ^^ 8) (push_bit 8 (crc_hi crc c)) XOR push_bit 8 (crc AND mask 8)"
    by (simp add: crc_byte_def split crc_bits_xor crc_bits_low)
  also have "push_bit 8 (crc AND mask 8) = push_bit 8 crc"
    by (rule bit_word_eqI) (auto simp: bit_simps)
  finally have byte: "crc_byte crc c = crc16tab ! crc16_index crc c XOR push_bit 8 crc"
    by (simp add: tab)
  show ?thesis
    unfolding byte crc16_step_def by (rule bit_word_eqI) (auto simp: bit_simps)
qed

lemma crc16_loop_eq: "crc16_loop crc buf = fold (\<lambda>c crc. crc_byte crc c) buf crc"
  by (induction buf arbitrary: crc) (simp_all add: crc16_step_eq)

subsection \<open>The search loops\<close>

lemma scan_char_bounds: "s \<le> length key \<Longrightarrow> s \<le> scan_char c key s \<and> scan_char c key s \<le> length key"
proof (induction c key s rule: scan_char.induct)
  case (1 c key s)
  then show ?case by (subst (1 2) scan_char.simps) force
qed

lemma scan_char_eq:
  "s \<le> length key \<Longrightarrow> scan_char c key s = s + length (takeWhile (\<lambda>x. x \<noteq> c) (drop s key))"
proof (induction c key s rule: scan_char.induct)
  case (1 c key s)
  show ?case
  proof (cases "s < length key")
    case True
    then have "drop s key = key ! s # drop (Suc s) key" by (simp add: Cons_nth_drop_Suc)
    with 1 True show ?thesis by (subst scan_char.simps) auto
  next
    case False
    with 1 show ?thesis by (subst scan_char.simps) simp
  qed
qed

lemma length_takeWhile_all: "length (takeWhile P xs) = length xs \<longleftrightarrow> (\<forall>x \<in> set xs. P x)"
  by (metis takeWhile_eq_all_conv takeWhile_eq_take take_all_iff order_refl)

lemma dropWhile_eq_drop_takeWhile: "dropWhile P xs = drop (length (takeWhile P xs)) xs"
  by (metis append_eq_conv_conj takeWhile_dropWhile_id)

lemma key_hash_slot_eq: "key_hash_slot key = ucast (crc16 (hash_tag key)) AND 0x3FFF"
proof -
  define s where "s = length (takeWhile (\<lambda>c. c \<noteq> CHR ''{'') key)"
  define rest where "rest = drop (Suc s) key"
  define tag where "tag = takeWhile (\<lambda>c. c \<noteq> CHR ''}'') rest"
  have s: "scan_char CHR ''{'' key 0 = s" by (simp add: scan_char_eq s_def)
  have s_le: "s \<le> length key" by (simp add: s_def length_takeWhile_le)
  have brace: "s = length key \<longleftrightarrow> CHR ''{'' \<notin> set key"
    by (auto simp: s_def length_takeWhile_all)
  have rest_eq: "rest = tl (dropWhile (\<lambda>c. c \<noteq> CHR ''{'') key)"
    by (simp add: rest_def s_def dropWhile_eq_drop_takeWhile drop_Suc tl_drop)
  show ?thesis
  proof (cases "s = length key")
    case True
    then show ?thesis
      using brace by (simp add: key_hash_slot_def s hash_tag_def Let_def)
  next
    case False
    with s_le have e: "scan_char CHR ''}'' key (s + 1) = s + 1 + length tag"
      by (simp add: scan_char_eq tag_def rest_def)
    have len: "length rest = length key - (s + 1)" by (simp add: rest_def)
    have "length tag = length rest \<longleftrightarrow> CHR ''}'' \<notin> set rest"
      unfolding tag_def by (auto simp: length_takeWhile_all)
    then have close: "s + 1 + length tag = length key \<longleftrightarrow> CHR ''}'' \<notin> set rest"
      using len False s_le by linarith
    have "take (length tag) rest = tag"
      by (simp add: tag_def takeWhile_eq_take [symmetric])
    then show ?thesis
      using False brace close e
      by (auto simp: key_hash_slot_def s hash_tag_def Let_def rest_eq [symmetric]
          rest_def [symmetric] tag_def [symmetric])
  qed
qed

lemma hash_tag_tagged:
  assumes "CHR ''{'' \<notin> set pre" "CHR ''}'' \<notin> set tag" "tag \<noteq> []"
  shows "hash_tag (pre @ CHR ''{'' # tag @ CHR ''}'' # post) = tag"
proof -
  have "dropWhile (\<lambda>c. c \<noteq> CHR ''{'') (pre @ CHR ''{'' # tag @ CHR ''}'' # post) =
          CHR ''{'' # tag @ CHR ''}'' # post"
    using assms(1) by (simp add: dropWhile_append3 dropWhile_append)
  moreover have "takeWhile (\<lambda>c. c \<noteq> CHR ''}'') (tag @ CHR ''}'' # post) = tag"
    using assms(2) by (simp add: takeWhile_append)
  ultimately show ?thesis using assms(3) by (simp add: hash_tag_def Let_def)
qed

lemma slot_bound: "unat (w AND 0x3FFF :: 32 word) < 16384"
proof -
  have "(0x3FFF :: 32 word) = mask 14" by (simp add: mask_eq_exp_minus_1)
  then have "w AND 0x3FFF = take_bit 14 w" by (simp add: take_bit_eq_mask)
  then have "unat (w AND 0x3FFF) = take_bit 14 (unat w)" by (simp add: unsigned_take_bit_eq)
  also have "\<dots> < 2 ^ 14" by (rule take_bit_nat_less_exp)
  finally show ?thesis by simp
qed

subsection \<open>Properties\<close>

text \<open>
  C39: the table-driven \<open>crc16\<close> computes the CRC-16/XMODEM that its comment specifies, bit by bit,
  for every byte string.
\<close>

theorem crc16_is_xmodem: "crc16 buf = crc16_xmodem buf"
  by (simp add: crc16_def crc16_xmodem_def crc16_loop_eq)

text \<open>The check value in the comment above the table.\<close>

lemma crc16_check_value: "crc16 ''123456789'' = 0x31C3"
  by code_simp

text \<open>
  C17: the slot of a key is the low 14 bits of the XMODEM CRC of its hash tag (the bytes between
  the first opening brace and the next closing brace when both exist and the tag is not empty,
  the whole key otherwise), so it is always one of the 16384 slots.
\<close>

theorem key_hash_slot_spec:
  "key_hash_slot key = ucast (crc16_xmodem (hash_tag key)) AND 0x3FFF \<and> unat (key_hash_slot key) < 16384"
  by (simp add: key_hash_slot_eq slot_bound crc16_def crc16_xmodem_def crc16_loop_eq)

text \<open>
  Keys with the same non-empty hash tag fall into the same slot, that of the tag as a key,
  whatever surrounds the tag.
\<close>

theorem slot_of_tagged_key:
  assumes "CHR ''{'' \<notin> set pre" "CHR ''}'' \<notin> set tag" "tag \<noteq> []" "CHR ''{'' \<notin> set tag"
  shows "key_hash_slot (pre @ CHR ''{'' # tag @ CHR ''}'' # post) = key_hash_slot tag"
proof -
  have "hash_tag tag = tag" using assms(4) by (simp add: hash_tag_def)
  then show ?thesis using assms by (simp add: key_hash_slot_eq hash_tag_tagged)
qed

end
