(* ===== verification/Redis_Parser.thy ===== *)
theory Redis_Parser
  imports Prelude
begin

section \<open>The reply decoder (ngx\_stream\_lua\_redis\_parser.c)\<close>

text \<open>
  The decoder behind \<open>ngx.redis_decode\<close>. A pointer into the reply is an integer index into the
  buffer \<open>buf\<close>; \<open>lim\<close> is the C variable \<open>last\<close>, one past the end. Every C function here returns an option: \<open>None\<close> is
  undefined behaviour (a read outside the buffer, or signed overflow), \<open>Some\<close> is what the
  function returns. The pair a helper returns is the C result \<open>dst\<close> (\<open>None\<close> for \<open>NULL\<close>) and
  the \<open>*dst_len\<close> it stores.
\<close>

subsection \<open>The code\<close>

abbreviation CR :: char where "CR \<equiv> CHR 0x0D"
abbreviation LF :: char where "LF \<equiv> CHR 0x0A"

datatype reply_type =
  BAD_REPLY | STATUS_REPLY | ERROR_REPLY | INTEGER_REPLY | BULK_REPLY | MULTI_BULK_REPLY

text \<open>\<open>*p < '0' || *p > '9'\<close>, on bytes.\<close>

definition is_digit :: "char \<Rightarrow> bool" where
  "is_digit c \<longleftrightarrow> 48 \<le> (of_char c :: int) \<and> (of_char c :: int) \<le> 57"

definition digit_val :: "char \<Rightarrow> int" where
  "digit_val c = of_char c - 48"

type_synonym c_slice = "int option \<times> int"

abbreviation invalid :: "c_slice option" where
  "invalid \<equiv> Some (None, -2)"

function parse_line_loop :: "bytes \<Rightarrow> int \<Rightarrow> int \<Rightarrow> int \<Rightarrow> bool \<Rightarrow> c_slice option" where
  "parse_line_loop buf src p lim seen_cr =
     (if p = lim then invalid
      else case rd buf p of
             None \<Rightarrow> None
           | Some c \<Rightarrow>
               (if c = CR then parse_line_loop buf src (p + 1) lim True
                else if seen_cr then
                  (if c = LF then Some (Some src, int32 (p - src - 1))
                   else parse_line_loop buf src (p + 1) lim False)
                else parse_line_loop buf src (p + 1) lim seen_cr))"
  by pat_completeness auto
termination
  by (relation "measure (\<lambda>(buf, src, p, lim, s). nat (int (length buf) - p))")
    (auto dest!: rd_SomeD)

declare parse_line_loop.simps [simp del]

definition parse_line :: "bytes \<Rightarrow> int \<Rightarrow> int \<Rightarrow> c_slice option" where
  "parse_line buf src lim = parse_line_loop buf src src lim False"

text \<open>
  The digit loops of \<open>parse_bulk\<close>. The inner option is the jump to \<open>invalid\<close>. \<open>bulk_skip\<close> skips
  the digits after a minus sign; \<open>bulk_size\<close> accumulates \<open>ssize_t size\<close>.
\<close>

function bulk_skip :: "bytes \<Rightarrow> int \<Rightarrow> int \<Rightarrow> int option option" where
  "bulk_skip buf p lim =
     (case rd buf p of
        None \<Rightarrow> None
      | Some c \<Rightarrow>
          (if c = CR then Some (Some p)
           else if \<not> is_digit c then Some None
           else if p + 1 \<ge> lim then Some None
           else bulk_skip buf (p + 1) lim))"
  by pat_completeness auto
termination
  by (relation "measure (\<lambda>(buf, p, lim). nat (int (length buf) - p))") (auto dest!: rd_SomeD)

function bulk_size :: "bytes \<Rightarrow> int \<Rightarrow> int \<Rightarrow> int \<Rightarrow> (int \<times> int) option option" where
  "bulk_size buf p lim sz =
     (case rd buf p of
        None \<Rightarrow> None
      | Some c \<Rightarrow>
          (if c = CR then Some (Some (p, sz))
           else if \<not> is_digit c then Some None
           else if \<not> in_int64 (sz * 10) \<or> \<not> in_int64 (sz * 10 + digit_val c) then None
           else if p + 1 \<ge> lim then Some None
           else bulk_size buf (p + 1) lim (sz * 10 + digit_val c)))"
  by pat_completeness auto
termination
  by (relation "measure (\<lambda>(buf, p, lim, sz). nat (int (length buf) - p))")
    (auto dest!: rd_SomeD)

declare bulk_skip.simps [simp del] bulk_size.simps [simp del]

text \<open>
  \<open>tmp_len\<close> is computed in \<open>size_t\<close> (because of \<open>sizeof\<close>) and converted back to \<open>ssize_t\<close>, so it
  wraps at 64 bits.
\<close>

definition parse_bulk :: "bytes \<Rightarrow> int \<Rightarrow> int \<Rightarrow> c_slice option" where
  "parse_bulk buf src lim =
     (if src \<ge> lim then invalid
      else case rd buf src of
        None \<Rightarrow> None
      | Some c \<Rightarrow>
        (if c = CHR ''-'' then
           (if src + 1 \<ge> lim then invalid
            else case bulk_skip buf (src + 1) lim of
              None \<Rightarrow> None
            | Some None \<Rightarrow> invalid
            | Some (Some p) \<Rightarrow>
                (if lim - p < 2 then invalid
                 else case rd buf (p + 1) of
                   None \<Rightarrow> None
                 | Some d \<Rightarrow> if d \<noteq> LF then invalid else Some (Some (p + 2 - 2), -1)))
         else case bulk_size buf src lim 0 of
           None \<Rightarrow> None
         | Some None \<Rightarrow> invalid
         | Some (Some (p, sz)) \<Rightarrow>
             (if p + 1 \<ge> lim then invalid
              else case rd buf (p + 1) of
                None \<Rightarrow> None
              | Some d \<Rightarrow>
                  (if d \<noteq> LF then invalid
                   else let dst = p + 2; tmp_len = signed_take_bit 63 (sz + 2)
                     in if lim - dst < tmp_len then invalid
                        else case rd buf (dst + sz) of
                          None \<Rightarrow> None
                        | Some e1 \<Rightarrow>
                            (if e1 \<noteq> CR then invalid
                             else case rd buf (dst + sz + 1) of
                               None \<Rightarrow> None
                             | Some e2 \<Rightarrow>
                                 if e2 \<noteq> LF then invalid
                                 else Some (Some dst, int32 sz))))))"

text \<open>The count of a multi-bulk reply, an \<open>int\<close>.\<close>

function skip_to_cr :: "bytes \<Rightarrow> int \<Rightarrow> int \<Rightarrow> int option option" where
  "skip_to_cr buf p lim =
     (case rd buf p of
        None \<Rightarrow> None
      | Some c \<Rightarrow>
          (if c = CR then Some (Some p)
           else if p + 1 \<ge> lim then Some None
           else skip_to_cr buf (p + 1) lim))"
  by pat_completeness auto
termination
  by (relation "measure (\<lambda>(buf, p, lim). nat (int (length buf) - p))") (auto dest!: rd_SomeD)

function mb_count :: "bytes \<Rightarrow> int \<Rightarrow> int \<Rightarrow> int \<Rightarrow> (int \<times> int) option option" where
  "mb_count buf p lim count =
     (case rd buf p of
        None \<Rightarrow> None
      | Some c \<Rightarrow>
          (if c = CR then Some (Some (p, count))
           else if c = CHR ''-'' then
             (if p + 1 \<ge> lim then Some None
              else case rd buf (p + 1) of
                None \<Rightarrow> None
              | Some d \<Rightarrow>
                  (if \<not> is_digit d then Some None
                   else case skip_to_cr buf (p + 1) lim of
                     None \<Rightarrow> None
                   | Some None \<Rightarrow> Some None
                   | Some (Some q) \<Rightarrow> Some (Some (q, -1))))
           else if \<not> is_digit c then Some None
           else if \<not> in_int32 (count * 10) \<or> \<not> in_int32 (count * 10 + digit_val c) then None
           else if p + 1 \<ge> lim then Some None
           else mb_count buf (p + 1) lim (count * 10 + digit_val c)))"
  by pat_completeness auto
termination
  by (relation "measure (\<lambda>(buf, p, lim, count). nat (int (length buf) - p))")
    (auto dest!: rd_SomeD)

declare skip_to_cr.simps [simp del] mb_count.simps [simp del]

text \<open>\<open>lua_pushlstring (L, dst, dst_len)\<close> copies \<open>dst_len\<close> bytes from \<open>dst\<close>.\<close>

definition slice :: "bytes \<Rightarrow> int \<Rightarrow> int \<Rightarrow> bytes option" where
  "slice buf dst n =
     (if 0 \<le> dst \<and> 0 \<le> n \<and> dst + n \<le> int (length buf)
      then Some (take (nat n) (drop (nat dst) buf)) else None)"

text \<open>One element of a multi-bulk reply: the value pushed and the pointer after it.\<close>

definition mb_elem :: "bytes \<Rightarrow> int \<Rightarrow> int \<Rightarrow> (int \<times> lua_value) option option" where
  "mb_elem buf p lim =
     (if p \<ge> lim then Some None
      else case rd buf p of
        None \<Rightarrow> None
      | Some c \<Rightarrow>
          (let r = (if c = CHR ''+'' \<or> c = CHR ''-'' \<or> c = CHR '':'' then parse_line buf (p + 1) lim
                    else if c = CHR ''$'' then parse_bulk buf (p + 1) lim
                    else invalid)
           in case r of
                None \<Rightarrow> None
              | Some (dst, dst_len) \<Rightarrow>
                  (if dst_len = -2 then Some None
                   else case dst of
                     None \<Rightarrow> None
                   | Some d \<Rightarrow>
                       (if dst_len = -1 then Some (Some (d + 2, LNil))
                        else case slice buf d dst_len of
                          None \<Rightarrow> None
                        | Some s \<Rightarrow> Some (Some (d + dst_len + 2, LString s))))))"

text \<open>The loop \<open>for (i = 1; i <= count; i++)\<close>, over the number of elements left.\<close>

fun mb_elems :: "bytes \<Rightarrow> int \<Rightarrow> int \<Rightarrow> nat \<Rightarrow> lua_value list \<Rightarrow> (int \<times> lua_value list) option option" where
  "mb_elems buf p lim 0 acc = Some (Some (p, rev acc))"
| "mb_elems buf p lim (Suc n) acc =
     (case mb_elem buf p lim of
        None \<Rightarrow> None
      | Some None \<Rightarrow> Some None
      | Some (Some (q, v)) \<Rightarrow> mb_elems buf q lim n (v # acc))"

definition parse_multi_bulk :: "bytes \<Rightarrow> int \<Rightarrow> int \<Rightarrow> (int \<times> lua_value) option option" where
  "parse_multi_bulk buf src lim =
     (if src \<ge> lim then Some None
      else case mb_count buf src lim 0 of
        None \<Rightarrow> None
      | Some None \<Rightarrow> Some None
      | Some (Some (p, count)) \<Rightarrow>
          (if p + 1 \<ge> lim then Some None
           else case rd buf (p + 1) of
             None \<Rightarrow> None
           | Some d \<Rightarrow>
               (if d \<noteq> LF then Some None
                else if count = -1 then Some (Some (p + 2, LNil))
                else case mb_elems buf (p + 2) lim (nat count) [] of
                  None \<Rightarrow> None
                | Some None \<Rightarrow> Some None
                | Some (Some (q, vs)) \<Rightarrow> Some (Some (q, LList vs)))))"

text \<open>
  \<open>ngx_stream_lua_redis_parse\<close>: the new \<open>*src\<close>, the value and the reply type. The three line
  replies share their error handling up to the message.
\<close>

definition parse_line_reply ::
  "bytes \<Rightarrow> int \<Rightarrow> int \<Rightarrow> string \<Rightarrow> (bytes \<Rightarrow> lua_value) \<Rightarrow> reply_type \<Rightarrow> (int \<times> lua_value \<times> reply_type) option" where
  "parse_line_reply buf src lim err push ty =
     (case parse_line buf (src + 1) lim of
        None \<Rightarrow> None
      | Some (dst, dst_len) \<Rightarrow>
          (if dst_len = -2 then Some (src, LString err, BAD_REPLY)
           else case dst of
             None \<Rightarrow> None
           | Some d \<Rightarrow>
               (case slice buf d dst_len of
                  None \<Rightarrow> None
                | Some s \<Rightarrow> Some (src + (dst_len + 1 + 2), push s, ty))))"

definition redis_parse :: "lua_rt \<Rightarrow> bytes \<Rightarrow> int \<Rightarrow> nat \<Rightarrow> (int \<times> lua_value \<times> reply_type) option" where
  "redis_parse rt buf src len =
     (if len = 0 then Some (src, LString ''empty reply'', BAD_REPLY)
      else let lim = src + int len in
      case rd buf src of
        None \<Rightarrow> None
      | Some c \<Rightarrow>
        (if c = CHR ''+'' then
           parse_line_reply buf src lim ''bad status reply'' LString STATUS_REPLY
         else if c = CHR ''-'' then
           parse_line_reply buf src lim ''bad error reply'' LString ERROR_REPLY
         else if c = CHR '':'' then
           parse_line_reply buf src lim ''bad integer reply''
             (\<lambda>s. LNumber (case rt_tonumber rt s of Some x \<Rightarrow> x | None \<Rightarrow> 0)) INTEGER_REPLY
         else if c = CHR ''$'' then
           (case parse_bulk buf (src + 1) lim of
              None \<Rightarrow> None
            | Some (dst, dst_len) \<Rightarrow>
                (if dst_len = -2 then Some (src, LString ''bad bulk reply'', BAD_REPLY)
                 else case dst of
                   None \<Rightarrow> None
                 | Some d \<Rightarrow>
                     (if dst_len = -1 then Some (d + 2, LNil, BULK_REPLY)
                      else case slice buf d dst_len of
                        None \<Rightarrow> None
                      | Some s \<Rightarrow> Some (d + dst_len + 2, LString s, BULK_REPLY))))
         else if c = CHR ''*'' then
           (case parse_multi_bulk buf (src + 1) lim of
              None \<Rightarrow> None
            | Some None \<Rightarrow> Some (src, LString ''bad multi bulk reply'', BAD_REPLY)
            | Some (Some (p, v)) \<Rightarrow> Some (p, v, MULTI_BULK_REPLY))
         else Some (src, LString ''invalid reply'', BAD_REPLY)))"

text \<open>The number \<open>ngx.BAD_REPLY\<close> and so on, that Lua sees.\<close>

fun reply_code :: "reply_type \<Rightarrow> int" where
  "reply_code BAD_REPLY = 0"
| "reply_code STATUS_REPLY = 1"
| "reply_code ERROR_REPLY = 2"
| "reply_code INTEGER_REPLY = 3"
| "reply_code BULK_REPLY = 4"
| "reply_code MULTI_BULK_REPLY = 5"

text \<open>\<open>ngx.redis_decode\<close>: the whole Lua string, from its first byte.\<close>

definition ngx_redis_decode :: "lua_rt \<Rightarrow> lua_value list \<Rightarrow> lua_result option" where
  "ngx_redis_decode rt args =
     (case args of
        [a] \<Rightarrow>
          (case check_string rt a of
             None \<Rightarrow> Some (LErr ''bad argument'')
           | Some p \<Rightarrow>
               map_option (\<lambda>(_, v, ty). LRet [v, LNumber (num_of_int (reply_code ty))])
                 (redis_parse rt p 0 (length p)))
      | _ \<Rightarrow> Some (LErr ''expecting one arguments''))"

subsection \<open>Reading along a suffix of the buffer\<close>

lemma rd_drop: "drop p buf = c # cs \<Longrightarrow> rd buf (int p) = Some c"
  by (metis Cons_nth_drop_Suc drop_all list.sel(1) list.distinct(1) not_le rd_nat)

lemma drop_Suc_of: "drop p buf = c # cs \<Longrightarrow> drop (Suc p) buf = cs"
  by (metis drop_Suc list.sel(3) tl_drop)

lemma drop_len: "drop p buf = xs \<Longrightarrow> p \<le> length buf \<Longrightarrow> length buf = p + length xs"
  by auto

lemma drop_Cons_le: "drop p buf = c # cs \<Longrightarrow> length buf = Suc (p + length cs)"
  by (metis drop_all drop_len length_Cons add_Suc_right list.distinct(1) nat_le_linear)

lemmas suffix_rd = rd_drop drop_Suc_of drop_Cons_le

subsection \<open>Lines: the first CRLF\<close>

text \<open>The specification of the scan: the offset of the first CR LF pair.\<close>

fun first_crlf :: "bytes \<Rightarrow> nat option" where
  "first_crlf (c # d # cs) =
     (if c = CR \<and> d = LF then Some 0 else map_option Suc (first_crlf (d # cs)))"
| "first_crlf _ = None"

lemma first_crlf_Cons: "c \<noteq> CR \<Longrightarrow> first_crlf (c # cs) = map_option Suc (first_crlf cs)"
  by (cases cs) simp_all

lemma first_crlf_append:
  "first_crlf s = None \<Longrightarrow> first_crlf (s @ CR # LF # cs) = Some (length s)"
proof (induction s rule: first_crlf.induct)
  case (1 c d cs)
  then show ?case by (auto split: if_splits)
qed (auto simp: first_crlf_Cons)

lemma first_crlf_bound: "first_crlf xs = Some k \<Longrightarrow> k + 2 \<le> length xs"
  by (induction xs arbitrary: k rule: first_crlf.induct) (fastforce split: if_splits)+

lemma parse_line_loop_eq:
  assumes "p \<le> length buf"
  shows "parse_line_loop buf src (int p) (int (length buf)) seen =
    (case first_crlf (if seen then CR # drop p buf else drop p buf) of
       None \<Rightarrow> invalid
     | Some k \<Rightarrow> Some (Some src, int32 (int p - of_bool seen + int k - src)))"
  using assms
proof (induction "drop p buf" arbitrary: p seen)
  case Nil
  then show ?case by (subst parse_line_loop.simps) simp
next
  case (Cons c cs)
  note d = Cons.hyps(2) [symmetric]
  have len: "length buf = Suc (p + length cs)" by (rule drop_Cons_le [OF d])
  have cs: "cs = drop (Suc p) buf" using d by (rule drop_Suc_of [symmetric])
  have le: "Suc p \<le> length buf" using len by simp
  have IH: "\<And>seen. parse_line_loop buf src (int p + 1) (int (length buf)) seen =
    (case first_crlf (if seen then CR # cs else cs) of
       None \<Rightarrow> invalid
     | Some k \<Rightarrow> Some (Some src, int32 (int (Suc p) - of_bool seen + int k - src)))"
    using Cons.hyps(1) [OF cs le] by (simp only: cs [symmetric] of_nat_Suc add.commute [of 1])
  have "int p \<noteq> int (length buf)" using len by simp
  then have step: "parse_line_loop buf src (int p) (int (length buf)) seen =
    (if c = CR then parse_line_loop buf src (int p + 1) (int (length buf)) True
     else if seen then
       (if c = LF then Some (Some src, int32 (int p - src - 1))
        else parse_line_loop buf src (int p + 1) (int (length buf)) False)
     else parse_line_loop buf src (int p + 1) (int (length buf)) seen)"
    by (subst parse_line_loop.simps) (simp add: rd_drop [OF d])
  show ?case
    unfolding d step IH
    by (auto simp: first_crlf_Cons algebra_simps split: option.splits)
qed

lemma parse_line_eq:
  assumes "p \<le> length buf" "length buf < 2 ^ 31"
  shows "parse_line buf (int p) (int (length buf)) =
    (case first_crlf (drop p buf) of
       None \<Rightarrow> invalid
     | Some k \<Rightarrow> Some (Some (int p), int k))"
proof -
  have "k < 2 ^ 31" if "first_crlf (drop p buf) = Some k" for k
    using first_crlf_bound [OF that] assms by simp
  then show ?thesis
    using assms by (auto simp: parse_line_def parse_line_loop_eq split: option.splits)
qed

subsection \<open>Numbers and bulks: what is accepted\<close>

definition dec_val :: "int \<Rightarrow> bytes \<Rightarrow> int" where
  "dec_val s ds = foldl (\<lambda>s c. s * 10 + digit_val c) s ds"

lemma dec_val_simps [simp]:
  "dec_val s [] = s"
  "dec_val s (c # ds) = dec_val (s * 10 + digit_val c) ds"
  by (simp_all add: dec_val_def)

lemma digit_val_range: "is_digit c \<Longrightarrow> 0 \<le> digit_val c \<and> digit_val c \<le> 9"
  by (simp add: is_digit_def digit_val_def)

lemma digit_not_special: "is_digit c \<Longrightarrow> c \<noteq> CR \<and> c \<noteq> CHR ''-''"
  by (auto simp: is_digit_def)

lemma dec_val_ge: "0 \<le> s \<Longrightarrow> \<forall>c \<in> set ds. is_digit c \<Longrightarrow> s \<le> dec_val s ds"
proof (induction ds arbitrary: s)
  case (Cons c ds)
  then have "s * 10 + digit_val c \<le> dec_val (s * 10 + digit_val c) ds"
    using digit_val_range by simp
  then show ?case using Cons.prems digit_val_range [of c] by simp
qed simp

lemma bulk_size_digits:
  assumes "drop p buf = ds @ CR # rest" "\<forall>c \<in> set ds. is_digit c" "0 \<le> sz" "dec_val sz ds < 2 ^ 63"
  shows "bulk_size buf (int p) (int (length buf)) sz = Some (Some (int (p + length ds), dec_val sz ds))"
  using assms
proof (induction ds arbitrary: p sz)
  case Nil
  then show ?case by (subst bulk_size.simps) (simp add: rd_drop)
next
  case (Cons c ds)
  have c: "is_digit c" and ds: "\<forall>c \<in> set ds. is_digit c" using Cons.prems by simp_all
  define sz' where "sz' = sz * 10 + digit_val c"
  have sz': "0 \<le> sz'" "sz * 10 \<le> sz'" "sz' < 2 ^ 63"
    using Cons.prems digit_val_range [OF c] dec_val_ge [OF _ ds, of sz'] by (simp_all add: sz'_def)
  have d: "drop p buf = c # ds @ CR # rest" using Cons.prems(1) by simp
  have "length buf = Suc (p + length (ds @ CR # rest))" by (rule drop_Cons_le [OF d])
  then have "\<not> int p + 1 \<ge> int (length buf)" by simp
  then have "bulk_size buf (int p) (int (length buf)) sz = bulk_size buf (int (Suc p)) (int (length buf)) sz'"
    using c digit_not_special [OF c] sz' Cons.prems(3)
    by (subst bulk_size.simps) (simp add: rd_drop [OF d] in_int64_def sz'_def add.commute)
  also have "\<dots> = Some (Some (int (Suc p + length ds), dec_val sz' ds))"
    using Cons.prems(4) sz' by (intro Cons.IH) (simp_all add: drop_Suc_of [OF d] ds sz'_def)
  finally show ?case by (simp add: sz'_def)
qed

lemma bulk_skip_digits:
  assumes "drop p buf = ds @ CR # rest" "\<forall>c \<in> set ds. is_digit c"
  shows "bulk_skip buf (int p) (int (length buf)) = Some (Some (int (p + length ds)))"
  using assms
proof (induction ds arbitrary: p)
  case Nil
  then show ?case by (subst bulk_skip.simps) (simp add: rd_drop)
next
  case (Cons c ds)
  have c: "is_digit c" using Cons.prems by simp
  have d: "drop p buf = c # ds @ CR # rest" using Cons.prems(1) by simp
  have "length buf = Suc (p + length (ds @ CR # rest))" by (rule drop_Cons_le [OF d])
  then have "\<not> int p + 1 \<ge> int (length buf)" by simp
  then have "bulk_skip buf (int p) (int (length buf)) = bulk_skip buf (int (Suc p)) (int (length buf))"
    using c digit_not_special [OF c]
    by (subst bulk_skip.simps) (simp add: rd_drop [OF d] add.commute)
  also have "\<dots> = Some (Some (int (Suc p + length ds)))"
    using Cons.prems by (intro Cons.IH) (simp_all add: drop_Suc_of [OF d])
  finally show ?case by simp
qed

lemma rd_at:
  assumes "drop p buf = xs @ c # ys"
  shows "rd buf (int (p + length xs)) = Some c"
proof (rule rd_drop)
  have "drop (p + length xs) buf = drop (length xs) (drop p buf)" by (simp add: add.commute)
  with assms show "drop (p + length xs) buf = c # ys" by simp
qed

lemma parse_bulk_data:
  assumes d: "drop p buf = ds @ CR # LF # data @ CR # LF # rest"
    and ds: "ds \<noteq> []" "\<forall>c \<in> set ds. is_digit c" "dec_val 0 ds = int (length data)"
    and len: "length buf < 2 ^ 31"
  shows "parse_bulk buf (int p) (int (length buf)) =
           Some (Some (int (p + length ds + 2)), int (length data))"
proof -
  obtain c ds' where c: "ds = c # ds'" using ds(1) by (cases ds) auto
  have hd: "rd buf (int p) = Some c" using d c by (auto intro: rd_drop)
  have n: "length buf = p + length ds + length data + 4 + length rest"
    using drop_Cons_le [of p buf c] d c by auto
  have size: "bulk_size buf (int p) (int (length buf)) 0 = Some (Some (int (p + length ds), int (length data)))"
    using bulk_size_digits [OF d ds(2)] ds(3) n len by simp
  have lf: "rd buf (int (p + length ds) + 1) = Some LF"
    using rd_at [of p buf "ds @ [CR]" LF] d by (simp add: add.commute)
  have cr2: "rd buf (int (p + length ds) + 2 + int (length data)) = Some CR"
    using rd_at [of p buf "ds @ CR # LF # data" CR] d by (simp add: algebra_simps)
  have lf2: "rd buf (int (p + length ds) + 2 + int (length data) + 1) = Some LF"
    using rd_at [of p buf "ds @ CR # LF # data @ [CR]" LF] d by (simp add: algebra_simps)
  have tmp: "signed_take_bit 63 (int (length data) + 2) = int (length data) + 2"
    using n len by (intro signed_take_bit_int_eq_self) simp_all
  have "c \<noteq> CHR ''-''" using ds(2) c digit_not_special by auto
  then show ?thesis
    unfolding parse_bulk_def hd size using lf cr2 lf2 tmp n len
    by (simp add: Let_def)
qed

lemma parse_bulk_null:
  assumes d: "drop p buf = CHR ''-'' # ds @ CR # LF # rest" and ds: "\<forall>c \<in> set ds. is_digit c"
  shows "parse_bulk buf (int p) (int (length buf)) = Some (Some (int (p + 1 + length ds)), -1)"
proof -
  have hd: "rd buf (int p) = Some CHR ''-''" by (rule rd_drop [OF d])
  have n: "length buf = p + length ds + 3 + length rest" using drop_Cons_le [OF d] by simp
  have skip: "bulk_skip buf (int p + 1) (int (length buf)) = Some (Some (int (p + 1 + length ds)))"
    using bulk_skip_digits [OF drop_Suc_of [OF d] ds] by (simp add: add.commute)
  have lf: "rd buf (int (p + 1 + length ds) + 1) = Some LF"
    using rd_at [of p buf "CHR ''-'' # ds @ [CR]" LF] d by (simp add: algebra_simps)
  show ?thesis
    unfolding parse_bulk_def hd using skip lf n by simp
qed

subsection \<open>Short numbers keep the decoder inside the buffer\<close>

text \<open>No run of more than nine digits: then neither \<open>int\<close> nor \<open>ssize_t\<close> can overflow.\<close>

definition short_numbers :: "bytes \<Rightarrow> bool" where
  "short_numbers buf \<longleftrightarrow> (\<forall>p \<le> length buf. length (takeWhile is_digit (drop p buf)) \<le> 9)"

lemma pow10_step:
  assumes "0 \<le> sz" "sz < 10 ^ k" "is_digit c"
  shows "sz * 10 + digit_val c < 10 ^ Suc k" "0 \<le> sz * 10 + digit_val c" "sz * 10 < 10 ^ Suc k"
  using assms digit_val_range [of c] by simp_all

lemma pow10_int:
  assumes "k \<le> 9" "(x :: int) < 10 ^ k"
  shows "x < 10 ^ 9"
proof -
  have "(10 :: int) ^ k \<le> 10 ^ 9" using assms by (intro power_increasing) simp_all
  with assms show ?thesis by linarith
qed

lemma bulk_size_safe:
  assumes "p < length buf" "0 \<le> sz" "sz < 10 ^ k" "k + length (takeWhile is_digit (drop p buf)) \<le> 9"
  shows "\<exists>r. bulk_size buf (int p) (int (length buf)) sz = Some r \<and>
    (\<forall>q s. r = Some (q, s) \<longrightarrow> int p \<le> q \<and> q < int (length buf) \<and> 0 \<le> s \<and> s < 10 ^ 9)"
  using assms
proof (induction "length buf - p" arbitrary: p sz k)
  case (Suc n)
  obtain c where c: "rd buf (int p) = Some c" "drop p buf = c # drop (Suc p) buf"
    using Suc.prems(1) by (auto simp: rd_nat Cons_nth_drop_Suc)
  show ?case
  proof (cases "is_digit c")
    case False
    have "k \<le> 9" using Suc.prems(4) by simp
    then have "sz < 10 ^ 9" using Suc.prems(3) by (rule pow10_int)
    with False Suc.prems show ?thesis by (subst bulk_size.simps) (auto simp: c(1))
  next
    case True
    define sz' where "sz' = sz * 10 + digit_val c"
    note step = pow10_step [OF Suc.prems(2,3) True, folded sz'_def]
    have k: "Suc k + length (takeWhile is_digit (drop (Suc p) buf)) \<le> 9"
      using Suc.prems(4) True unfolding c(2) by simp
    then have small: "sz' < 10 ^ 9" "sz * 10 < 10 ^ 9"
      using step pow10_int [of "Suc k"] by auto
    have unf: "bulk_size buf (int p) (int (length buf)) sz =
        (if int p + 1 \<ge> int (length buf) then Some None
         else bulk_size buf (int (Suc p)) (int (length buf)) sz')"
      using True digit_not_special [OF True] small step Suc.prems(2)
      by (subst bulk_size.simps) (simp add: c(1) in_int64_def sz'_def add.commute)
    show ?thesis
    proof (cases "Suc p < length buf")
      case True
      with Suc.hyps(1) [of "Suc p" sz' "Suc k"] Suc.hyps(2) step k
      show ?thesis unfolding unf by fastforce
    next
      case False
      then show ?thesis unfolding unf by simp
    qed
  qed
qed simp

lemma bulk_skip_safe:
  assumes "p < length buf"
  shows "\<exists>r. bulk_skip buf (int p) (int (length buf)) = Some r \<and>
    (\<forall>q. r = Some q \<longrightarrow> int p \<le> q \<and> q < int (length buf))"
  using assms
proof (induction "length buf - p" arbitrary: p)
  case (Suc n)
  obtain c where c: "rd buf (int p) = Some c" using Suc.prems by (auto simp: rd_nat)
  show ?case
  proof (cases "Suc p < length buf")
    case True
    then have "\<not> int (length buf) \<le> int p + 1" by simp
    with Suc.hyps(1) [of "Suc p"] Suc.hyps(2) True Suc.prems show ?thesis
      by (subst bulk_skip.simps) (fastforce simp: c add.commute)
  next
    case False
    with Suc.prems show ?thesis by (subst bulk_skip.simps) (auto simp: c)
  qed
qed simp

text \<open>What a caller may rely on about a returned slice.\<close>

definition slice_ok :: "bytes \<Rightarrow> int \<Rightarrow> c_slice \<Rightarrow> bool" where
  "slice_ok buf p r \<longleftrightarrow>
     snd r = -2 \<or>
     (\<exists>d. fst r = Some d \<and> p \<le> d \<and>
       ((snd r = -1 \<and> d + 2 \<le> int (length buf)) \<or> (0 \<le> snd r \<and> d + snd r + 2 \<le> int (length buf))))"

lemma parse_line_safe:
  assumes "p \<le> length buf" "length buf < 2 ^ 31"
  shows "\<exists>r. parse_line buf (int p) (int (length buf)) = Some r \<and> slice_ok buf (int p) r"
proof (cases "first_crlf (drop p buf)")
  case (Some k)
  have "k + 2 + p \<le> length buf" using first_crlf_bound [OF Some] assms by simp
  with Some assms show ?thesis by (auto simp: parse_line_eq slice_ok_def)
next
  case None
  with assms show ?thesis by (auto simp: parse_line_eq slice_ok_def)
qed

lemma rd_inside: "0 \<le> i \<Longrightarrow> i < int (length buf) \<Longrightarrow> rd buf i = Some (buf ! nat i)"
  by (simp add: rd_def)

lemma parse_bulk_safe:
  assumes "p \<le> length buf" "length buf < 2 ^ 31" "short_numbers buf"
  shows "\<exists>r. parse_bulk buf (int p) (int (length buf)) = Some r \<and> slice_ok buf (int p) r"
proof (cases "p < length buf")
  case False
  then show ?thesis by (simp add: parse_bulk_def slice_ok_def)
next
  case True
  define c where "c = buf ! p"
  have c: "rd buf (int p) = Some c" using True by (simp add: rd_nat c_def)
  show ?thesis
  proof (cases "c = CHR ''-''")
    case minus: True
    show ?thesis
    proof (cases "Suc p < length buf")
      case True
      then obtain r where r: "bulk_skip buf (int p + 1) (int (length buf)) = Some r"
        "\<forall>q. r = Some q \<longrightarrow> int p + 1 \<le> q \<and> q < int (length buf)"
        using bulk_skip_safe [OF True] by (auto simp: add.commute)
      then show ?thesis
        using minus True
        by (cases r) (auto simp: parse_bulk_def c slice_ok_def rd_inside c_def)
    next
      case False
      with True minus show ?thesis by (simp add: parse_bulk_def c slice_ok_def)
    qed
  next
    case False
    have "0 + length (takeWhile is_digit (drop p buf)) \<le> 9"
      using assms by (simp add: short_numbers_def)
    then obtain r where r: "bulk_size buf (int p) (int (length buf)) 0 = Some r"
      "\<forall>q s. r = Some (q, s) \<longrightarrow> int p \<le> q \<and> q < int (length buf) \<and> 0 \<le> s \<and> s < 10 ^ 9"
      using bulk_size_safe [OF True, of 0 0] by auto
    show ?thesis
    proof (cases r)
      case None
      with True False r show ?thesis by (simp add: parse_bulk_def c slice_ok_def)
    next
      case (Some qs)
      obtain q s where qs: "qs = (q, s)" by (cases qs)
      have b: "int p \<le> q" "q < int (length buf)" "0 \<le> s" "s < 10 ^ 9"
        using r(2) Some qs by auto
      then have "signed_take_bit 63 (s + 2) = s + 2"
        by (intro signed_take_bit_int_eq_self) simp_all
      with True False r b Some qs show ?thesis
        by (auto simp: parse_bulk_def c slice_ok_def rd_inside c_def Let_def)
    qed
  qed
qed

lemma skip_to_cr_safe:
  assumes "p < length buf"
  shows "\<exists>r. skip_to_cr buf (int p) (int (length buf)) = Some r \<and>
    (\<forall>q. r = Some q \<longrightarrow> int p \<le> q \<and> q < int (length buf))"
  using assms
proof (induction "length buf - p" arbitrary: p)
  case (Suc n)
  obtain c where c: "rd buf (int p) = Some c" using Suc.prems by (auto simp: rd_nat)
  show ?case
  proof (cases "Suc p < length buf")
    case True
    then have "\<not> int (length buf) \<le> int p + 1" by simp
    with Suc.hyps(1) [of "Suc p"] Suc.hyps(2) True Suc.prems show ?thesis
      by (subst skip_to_cr.simps) (fastforce simp: c add.commute)
  next
    case False
    with Suc.prems show ?thesis by (subst skip_to_cr.simps) (auto simp: c)
  qed
qed simp

lemma mb_count_safe:
  assumes "p < length buf" "0 \<le> n" "n < 10 ^ k" "k + length (takeWhile is_digit (drop p buf)) \<le> 9"
  shows "\<exists>r. mb_count buf (int p) (int (length buf)) n = Some r \<and>
    (\<forall>q s. r = Some (q, s) \<longrightarrow> int p \<le> q \<and> q < int (length buf) \<and> -1 \<le> s \<and> s < 10 ^ 9)"
  using assms
proof (induction "length buf - p" arbitrary: p n k)
  case (Suc m)
  define c where "c = buf ! p"
  have c: "rd buf (int p) = Some c" "drop p buf = c # drop (Suc p) buf"
    using Suc.prems(1) by (simp_all add: rd_nat c_def Cons_nth_drop_Suc)
  show ?case
  proof (cases "is_digit c")
    case False
    have "k \<le> 9" using Suc.prems(4) by simp
    then have n: "n < 10 ^ 9" using Suc.prems(3) by (rule pow10_int)
    show ?thesis
    proof (cases "c = CHR ''-'' \<and> Suc p < length buf")
      case True
      then obtain r where r: "skip_to_cr buf (int p + 1) (int (length buf)) = Some r"
        "\<forall>q. r = Some q \<longrightarrow> int p + 1 \<le> q \<and> q < int (length buf)"
        using skip_to_cr_safe [of "Suc p" buf] by (auto simp: add.commute)
      then show ?thesis using True
        by (subst mb_count.simps, cases r) (auto simp: c(1) rd_inside)
    next
      case no: False
      with False n Suc.prems show ?thesis by (subst mb_count.simps) (auto simp: c(1))
    qed
  next
    case True
    define n' where "n' = n * 10 + digit_val c"
    note step = pow10_step [OF Suc.prems(2,3) True, folded n'_def]
    have k: "Suc k + length (takeWhile is_digit (drop (Suc p) buf)) \<le> 9"
      using Suc.prems(4) True unfolding c(2) by simp
    then have small: "n' < 10 ^ 9" "n * 10 < 10 ^ 9"
      using step pow10_int [of "Suc k"] by auto
    have unf: "mb_count buf (int p) (int (length buf)) n =
        (if int p + 1 \<ge> int (length buf) then Some None
         else mb_count buf (int (Suc p)) (int (length buf)) n')"
      using True digit_not_special [OF True] small step Suc.prems(2)
      by (subst mb_count.simps) (simp add: c(1) in_int32_def n'_def add.commute)
    show ?thesis
    proof (cases "Suc p < length buf")
      case True
      with Suc.hyps(1) [of "Suc p" n' "Suc k"] Suc.hyps(2) step k
      show ?thesis unfolding unf by fastforce
    next
      case False
      then show ?thesis unfolding unf by simp
    qed
  qed
qed simp

lemma slice_inside:
  "0 \<le> d \<Longrightarrow> 0 \<le> n \<Longrightarrow> d + n \<le> int (length buf) \<Longrightarrow> slice buf d n = Some (take (nat n) (drop (nat d) buf))"
  by (simp add: slice_def)

lemma mb_elem_safe:
  assumes "p \<le> length buf" "length buf < 2 ^ 31" "short_numbers buf"
  shows "\<exists>r. mb_elem buf (int p) (int (length buf)) = Some r \<and>
    (\<forall>q v. r = Some (q, v) \<longrightarrow> int p < q \<and> q \<le> int (length buf))"
proof (cases "p < length buf")
  case False
  then show ?thesis by (simp add: mb_elem_def)
next
  case True
  define c where "c = buf ! p"
  have c: "rd buf (int p) = Some c" using True by (simp add: rd_nat c_def)
  define e where "e = (if c = CHR ''+'' \<or> c = CHR ''-'' \<or> c = CHR '':'' then parse_line buf (int p + 1) (int (length buf))
                    else if c = CHR ''$'' then parse_bulk buf (int p + 1) (int (length buf))
                    else invalid)"
  have "\<exists>r. e = Some r \<and> slice_ok buf (int p + 1) r"
    using parse_line_safe [of "Suc p" buf] parse_bulk_safe [of "Suc p" buf] True assms
    by (auto simp: e_def slice_ok_def add.commute)
  then obtain d n where e: "e = Some (d, n)" "slice_ok buf (int p + 1) (d, n)" by auto
  show ?thesis
    using True e unfolding mb_elem_def c
    by (auto simp: e_def [symmetric] slice_ok_def slice_inside Let_def split del: if_split split: if_splits)
qed

lemma mb_elems_safe:
  assumes "p \<le> length buf" "length buf < 2 ^ 31" "short_numbers buf"
  shows "\<exists>r. mb_elems buf (int p) (int (length buf)) n acc = Some r \<and>
    (\<forall>q vs. r = Some (q, vs) \<longrightarrow> int p \<le> q \<and> q \<le> int (length buf))"
  using assms(1)
proof (induction n arbitrary: p acc)
  case (Suc n)
  obtain r where r: "mb_elem buf (int p) (int (length buf)) = Some r"
    "\<forall>q v. r = Some (q, v) \<longrightarrow> int p < q \<and> q \<le> int (length buf)"
    using mb_elem_safe [OF Suc.prems assms(2,3)] by auto
  show ?case
  proof (cases r)
    case (Some qv)
    obtain q v where qv: "qv = (q, v)" by (cases qv)
    with r Some have q: "int p < q" "q \<le> int (length buf)" by auto
    then have "0 \<le> q" by simp
    then obtain q' where q': "q = int q'" by (rule nonneg_int_cases)
    with q Suc.IH [of q' "v # acc"] r Some qv show ?thesis by fastforce
  qed (simp add: r)
qed simp

lemma parse_multi_bulk_safe:
  assumes "p \<le> length buf" "length buf < 2 ^ 31" "short_numbers buf"
  shows "\<exists>r. parse_multi_bulk buf (int p) (int (length buf)) = Some r \<and>
    (\<forall>q v. r = Some (q, v) \<longrightarrow> int p < q \<and> q \<le> int (length buf))"
proof (cases "p < length buf")
  case False
  then show ?thesis by (simp add: parse_multi_bulk_def)
next
  case True
  have "0 + length (takeWhile is_digit (drop p buf)) \<le> 9" using assms by (simp add: short_numbers_def)
  then obtain r where r: "mb_count buf (int p) (int (length buf)) 0 = Some r"
    "\<forall>q s. r = Some (q, s) \<longrightarrow> int p \<le> q \<and> q < int (length buf) \<and> -1 \<le> s \<and> s < 10 ^ 9"
    using mb_count_safe [OF True, of 0 0] by auto
  show ?thesis
  proof (cases r)
    case None
    with r True show ?thesis by (simp add: parse_multi_bulk_def)
  next
    case (Some qs)
    obtain q s where qs: "qs = (q, s)" by (cases qs)
    have q: "int p \<le> q" "q < int (length buf)" using r(2) Some qs by auto
    then have "0 \<le> q" by simp
    then obtain q' where q': "q = int q'" by (rule nonneg_int_cases)
    show ?thesis
    proof (cases "q + 1 < int (length buf)")
      case False
      with r True Some qs show ?thesis by (simp add: parse_multi_bulk_def)
    next
      case inside: True
      then have "q' + 2 \<le> length buf" by (simp add: q')
      then obtain e where "mb_elems buf (q + 2) (int (length buf)) (nat s) [] = Some e"
        "\<forall>q2 vs. e = Some (q2, vs) \<longrightarrow> q + 2 \<le> q2 \<and> q2 \<le> int (length buf)"
        using mb_elems_safe [of "q' + 2" buf "nat s" "[]"] assms by (auto simp: q' add.commute)
      with r True Some qs q inside show ?thesis
        by (cases e) (auto simp: parse_multi_bulk_def rd_inside)
    qed
  qed
qed

lemma parse_line_reply_safe:
  assumes "buf \<noteq> []" "length buf < 2 ^ 31"
  shows "\<exists>q v t. parse_line_reply buf 0 (int (length buf)) err push ty = Some (q, v, t) \<and>
    (t = BAD_REPLY \<and> q = 0 \<or> t = ty \<and> 0 < q \<and> q \<le> int (length buf))"
proof -
  have "Suc 0 \<le> length buf" using assms by (cases buf) auto
  then have "\<exists>r. parse_line buf 1 (int (length buf)) = Some r \<and> slice_ok buf 1 r \<and> snd r \<noteq> -1"
    using parse_line_eq [of 1 buf] parse_line_safe [of 1 buf] assms
    by (auto split: option.splits)
  then obtain d n where r: "parse_line buf 1 (int (length buf)) = Some (d, n)" "slice_ok buf 1 (d, n)" "n \<noteq> -1"
    by auto
  moreover have "fst (d, n) = Some 1 \<or> n = -2"
    using r(1) parse_line_eq [of 1 buf] \<open>Suc 0 \<le> length buf\<close> assms by (auto split: option.splits)
  ultimately show ?thesis
    by (auto simp: parse_line_reply_def slice_ok_def slice_inside)
qed

subsection \<open>Properties\<close>

text \<open>
  The line scan returns the bytes up to the first CR LF pair, and fails exactly when there
  is none.
\<close>

theorem parse_line_finds_first_crlf:
  assumes "p \<le> length buf" "length buf < 2 ^ 31"
  shows "parse_line buf (int p) (int (length buf)) =
    (case first_crlf (drop p buf) of
       None \<Rightarrow> Some (None, -2)
     | Some k \<Rightarrow> Some (Some (int p), int k))"
  by (rule parse_line_eq [OF assms])

text \<open>
  C22: on a reply of less than 2 GB in which no number has more than nine digits, the decoder
  never reads outside the reply and never overflows a signed integer, whatever the bytes are;
  it leaves \<open>*src\<close> alone on a bad reply and otherwise moves it forward, inside the reply.
\<close>

theorem redis_parse_memory_safe:
  assumes "length buf < 2 ^ 31" "short_numbers buf"
  shows "\<exists>q v ty. redis_parse rt buf 0 (length buf) = Some (q, v, ty) \<and>
    (ty = BAD_REPLY \<and> q = 0 \<or> ty \<noteq> BAD_REPLY \<and> 0 < q \<and> q \<le> int (length buf))"
proof (cases buf)
  case Nil
  then show ?thesis by (simp add: redis_parse_def)
next
  case (Cons c cs)
  then have ne: "buf \<noteq> []" and one: "Suc 0 \<le> length buf" by auto
  have c: "rd buf 0 = Some c" using Cons by (simp add: rd_def)
  have unf: "length buf \<noteq> 0" using ne by simp
  note line = parse_line_reply_safe [OF ne assms(1)]
  obtain d n where r: "parse_bulk buf 1 (int (length buf)) = Some (d, n)" "slice_ok buf 1 (d, n)"
    using parse_bulk_safe [of 1 buf] one assms by auto
  obtain m where m: "parse_multi_bulk buf 1 (int (length buf)) = Some m"
    "\<forall>q v. m = Some (q, v) \<longrightarrow> 1 < q \<and> q \<le> int (length buf)"
    using parse_multi_bulk_safe [of 1 buf] one assms by auto
  consider "c = CHR ''+''" | "c = CHR ''-''" | "c = CHR '':''" | "c = CHR ''$''" | "c = CHR ''*''"
    | "c \<notin> {CHR ''+'', CHR ''-'', CHR '':'', CHR ''$'', CHR ''*''}" by blast
  then show ?thesis
  proof cases
    case 1
    with line [of "''bad status reply''" LString STATUS_REPLY] show ?thesis
      unfolding redis_parse_def using unf by (auto simp: c)
  next
    case 2
    with line [of "''bad error reply''" LString ERROR_REPLY] show ?thesis
      unfolding redis_parse_def using unf by (auto simp: c)
  next
    case 3
    with line [of "''bad integer reply''"
        "\<lambda>s. LNumber (case rt_tonumber rt s of Some x \<Rightarrow> x | None \<Rightarrow> 0)" INTEGER_REPLY]
    show ?thesis unfolding redis_parse_def using unf by (auto simp: c)
  next
    case 4
    with r show ?thesis
      unfolding redis_parse_def using unf by (auto simp: c slice_ok_def slice_inside)
  next
    case 5
    with m show ?thesis
      unfolding redis_parse_def using unf by (cases m) (auto simp: c)
  next
    case 6
    then show ?thesis unfolding redis_parse_def using unf by (simp add: c)
  qed
qed

theorem redis_parse_memory_safe_witness:
  "\<exists>q v ty. redis_parse demo_rt (''$3'' @ [CR, LF] @ ''ab'') 0 (length (''$3'' @ [CR, LF] @ ''ab'')) =
      Some (q, v, ty) \<and>
    (ty = BAD_REPLY \<and> q = 0 \<or> ty \<noteq> BAD_REPLY \<and> 0 < q \<and> q \<le> int (length (''$3'' @ [CR, LF] @ ''ab'')))"
proof (rule redis_parse_memory_safe)
  show "short_numbers (''$3'' @ [CR, LF] @ ''ab'')"
    unfolding short_numbers_def
    by (auto intro: order_trans [OF length_takeWhile_le])
qed simp

text \<open>
  A bulk length of \<open>2 ^ 63 - 1\<close> makes the decoder read outside the reply: the length check
  \<open>len < tmp_len\<close> is done on \<open>size + 2\<close> converted to a signed 64-bit value, which is negative.
\<close>

theorem redis_parse_huge_bulk_reads_outside:
  "redis_parse rt (''$9223372036854775807'' @ [CR, LF] @ ''x'' @ [CR, LF]) 0 25 = None"
proof -
  let ?buf = "''$9223372036854775807'' @ [CR, LF] @ ''x'' @ [CR, LF]"
  have size: "bulk_size ?buf 1 25 0 = Some (Some (20, 2 ^ 63 - 1))"
    using bulk_size_digits [of 1 ?buf "''9223372036854775807''" "[LF] @ ''x'' @ [CR, LF]" 0]
    by (simp add: is_digit_def digit_val_def)
  have tmp: "signed_take_bit 63 (2 ^ 63 - 1 + 2 :: int) = - (2 ^ 63) + 1"
    by (simp add: signed_take_bit_eq_take_bit_shift take_bit_int_def)
  show ?thesis
    using size tmp by (simp add: redis_parse_def parse_bulk_def rd_def Let_def)
qed

end
