(* ===== verification/Redis_Proto.thy ===== *)
theory Redis_Proto
  imports Redis_Parser
begin

section \<open>The wire encoder of the proxy (plugin/module/lhlh\_redis\_proto.lua)\<close>

text \<open>
  \<open>encode\<close> builds the requests to the cluster and the replies to clients; the fragments it puts
  in a table are concatenated by \<open>sock:send\<close>, so the model is the concatenation. The decoder it
  is checked against is the C one of \<open>Redis_Parser\<close>.
\<close>

subsection \<open>The code\<close>

text \<open>A length or a count, which is below \<open>10 ^ 14\<close>, is written by Lua in decimal without an exponent.\<close>

definition digit_char :: "nat \<Rightarrow> char" where
  "digit_char d = char_of (48 + d)"

fun dec_nat :: "nat \<Rightarrow> bytes" where
  "dec_nat n = (if n < 10 then [digit_char n] else dec_nat (n div 10) @ [digit_char (n mod 10)])"

declare dec_nat.simps [simp del]

datatype reply =
    Status bytes
  | Error bytes
  | Integer lua_number
  | Bulk "bytes option"
  | Multi "bytes option list"

definition encode_bulk :: "bytes option \<Rightarrow> bytes" where
  "encode_bulk arg =
     (case arg of
        None \<Rightarrow> ''$-1'' @ [CR, LF]
      | Some s \<Rightarrow> ''$'' @ dec_nat (length s) @ [CR, LF] @ s @ [CR, LF])"

text \<open>The number of an integer reply is a Lua number, and its text the one that \<open>tostring\<close> makes.\<close>

fun encode :: "lua_rt \<Rightarrow> reply \<Rightarrow> bytes" where
  "encode rt (Bulk arg) = encode_bulk arg"
| "encode rt (Status s) = ''+'' @ s @ [CR, LF]"
| "encode rt (Multi args) = ''*'' @ dec_nat (length args) @ [CR, LF] @ concat (map encode_bulk args)"
| "encode rt (Integer x) = '':'' @ rt_tostring rt x @ [CR, LF]"
| "encode rt (Error s) = ''-'' @ s @ [CR, LF]"

subsection \<open>What the decoder is expected to return\<close>

definition bulk_value :: "bytes option \<Rightarrow> lua_value" where
  "bulk_value arg = (case arg of None \<Rightarrow> LNil | Some s \<Rightarrow> LString s)"

fun reply_value :: "reply \<Rightarrow> lua_value" where
  "reply_value (Bulk arg) = bulk_value arg"
| "reply_value (Status s) = LString s"
| "reply_value (Multi args) = LList (map bulk_value args)"
| "reply_value (Integer x) = LNumber x"
| "reply_value (Error s) = LString s"

fun reply_kind :: "reply \<Rightarrow> reply_type" where
  "reply_kind (Bulk _) = BULK_REPLY"
| "reply_kind (Status _) = STATUS_REPLY"
| "reply_kind (Multi _) = MULTI_BULK_REPLY"
| "reply_kind (Integer _) = INTEGER_REPLY"
| "reply_kind (Error _) = ERROR_REPLY"

text \<open>
  Status and error texts may not contain the line terminator, and the text of a number has to be read back as this number. Lua writes fourteen digits of a number: an integer below
  \<open>10 ^ 14\<close> is read back, but \<open>10 ^ 14 + 1\<close> is written as \<open>1e+14\<close>.
\<close>

fun encodable :: "lua_rt \<Rightarrow> reply \<Rightarrow> bool" where
  "encodable rt (Status s) = (first_crlf s = None)"
| "encodable rt (Error s) = (first_crlf s = None)"
| "encodable rt (Integer x) = (first_crlf (rt_tostring rt x) = None \<and> rt_tonumber rt (rt_tostring rt x) = Some x)"
| "encodable rt _ = True"

subsection \<open>Decimal numbers read back\<close>

lemma of_char_digit_char: "d < 10 \<Longrightarrow> (of_char (digit_char d) :: nat) = 48 + d"
  by (simp add: digit_char_def)

lemma int_of_char: "(of_char c :: int) = int (of_char c)"
  by (rule of_nat_of_char [symmetric])

lemma digit_char [simp]: "d < 10 \<Longrightarrow> is_digit (digit_char d)" "d < 10 \<Longrightarrow> digit_val (digit_char d) = int d"
  by (simp_all only: is_digit_def digit_val_def int_of_char of_char_digit_char) simp_all

lemma dec_nat_digits: "c \<in> set (dec_nat n) \<Longrightarrow> is_digit c"
proof (induction n rule: dec_nat.induct)
  case (1 n)
  then show ?case by (subst (asm) (2) dec_nat.simps) (auto split: if_splits)
qed

lemma dec_nat_ne [simp]: "dec_nat n \<noteq> []"
  by (subst dec_nat.simps) simp

lemma dec_val_append: "dec_val s (xs @ ys) = dec_val (dec_val s xs) ys"
  by (simp add: dec_val_def)

lemma dec_val_dec_nat [simp]: "dec_val 0 (dec_nat n) = int n"
proof (induction n rule: dec_nat.induct)
  case (1 n)
  then show ?case
    by (subst dec_nat.simps) (auto simp: dec_val_append zmod_int zdiv_int)
qed

subsection \<open>Bulks and arrays of bulks read back\<close>

lemma mb_count_digits:
  assumes "drop p buf = ds @ CR # rest" "\<forall>c \<in> set ds. is_digit c" "0 \<le> n" "dec_val n ds < 2 ^ 31"
  shows "mb_count buf (int p) (int (length buf)) n = Some (Some (int (p + length ds), dec_val n ds))"
  using assms
proof (induction ds arbitrary: p n)
  case Nil
  then show ?case by (subst mb_count.simps) (simp add: rd_drop)
next
  case (Cons c ds)
  have c: "is_digit c" and ds: "\<forall>c \<in> set ds. is_digit c" using Cons.prems by simp_all
  define n' where "n' = n * 10 + digit_val c"
  have n': "0 \<le> n'" "n * 10 \<le> n'" "n' < 2 ^ 31"
    using Cons.prems digit_val_range [OF c] dec_val_ge [OF _ ds, of n'] by (simp_all add: n'_def)
  have d: "drop p buf = c # ds @ CR # rest" using Cons.prems(1) by simp
  have "length buf = Suc (p + length (ds @ CR # rest))" by (rule drop_Cons_le [OF d])
  then have "\<not> int p + 1 \<ge> int (length buf)" by simp
  then have "mb_count buf (int p) (int (length buf)) n = mb_count buf (int (Suc p)) (int (length buf)) n'"
    using c digit_not_special [OF c] n' Cons.prems(3)
    by (subst mb_count.simps) (simp add: rd_drop [OF d] in_int32_def n'_def add.commute)
  also have "\<dots> = Some (Some (int (Suc p + length ds), dec_val n' ds))"
    using Cons.prems(4) n' by (intro Cons.IH) (simp_all add: drop_Suc_of [OF d] ds n'_def)
  finally show ?case by (simp add: n'_def)
qed

lemma slice_prefix:
  assumes "drop e buf = s @ rest" "e \<le> length buf"
  shows "slice buf (int e) (int (length s)) = Some s"
proof -
  have "length buf = e + length (s @ rest)" by (rule drop_len [OF assms])
  then have "e + length s \<le> length buf" by simp
  then show ?thesis using assms(1) by (simp add: slice_def)
qed

lemma parse_bulk_encoded:
  assumes d: "drop p buf = encode_bulk a @ rest" and len: "length buf < 2 ^ 31"
  shows "\<exists>e. rd buf (int p) = Some CHR ''$'' \<and> parse_bulk buf (int p + 1) (int (length buf)) = Some (Some e, case a of None \<Rightarrow> -1 | Some s \<Rightarrow> int (length s))
     \<and> (case a of None \<Rightarrow> e + 2 = int (p + length (encode_bulk a))
        | Some s \<Rightarrow> slice buf e (int (length s)) = Some s \<and> e + int (length s) + 2 = int (p + length (encode_bulk a)))"
proof (cases a)
  case None
  then have d': "drop p buf = CHR ''$'' # CHR ''-'' # ''1'' @ CR # LF # rest"
    using d by (simp add: encode_bulk_def)
  show ?thesis
    using rd_drop [OF d'] parse_bulk_null [OF drop_Suc_of [OF d']] None
    by (simp add: encode_bulk_def is_digit_def add.commute)
next
  case (Some s)
  let ?ds = "dec_nat (length s)"
  have d': "drop p buf = CHR ''$'' # ?ds @ CR # LF # s @ CR # LF # rest"
    using d Some by (simp add: encode_bulk_def)
  have bulk: "parse_bulk buf (int (Suc p)) (int (length buf)) =
      Some (Some (int (Suc p + length ?ds + 2)), int (length s))"
    by (rule parse_bulk_data [OF drop_Suc_of [OF d']]) (use len in \<open>auto dest: dec_nat_digits\<close>)
  have "drop (Suc p + length ?ds + 2) buf = drop (length ?ds + 2) (drop (Suc p) buf)"
    by (simp add: add.commute add.left_commute)
  also have "\<dots> = s @ CR # LF # rest" by (simp add: drop_Suc_of [OF d'])
  finally have "slice buf (int (Suc p + length ?ds + 2)) (int (length s)) = Some s"
    using drop_Cons_le [OF d'] by (intro slice_prefix) simp_all
  with rd_drop [OF d'] bulk Some show ?thesis
    by (simp add: encode_bulk_def algebra_simps)
qed

lemma mb_elem_encoded:
  assumes d: "drop p buf = encode_bulk a @ rest" and len: "length buf < 2 ^ 31"
  shows "mb_elem buf (int p) (int (length buf)) = Some (Some (int (p + length (encode_bulk a)), bulk_value a))"
proof -
  have "p < length buf"
  proof (rule ccontr)
    assume "\<not> p < length buf"
    with d show False by (simp add: encode_bulk_def split: option.splits)
  qed
  with parse_bulk_encoded [OF assms] show ?thesis
    by (cases a) (auto simp: mb_elem_def bulk_value_def)
qed

lemma mb_elems_encoded:
  assumes "drop p buf = concat (map encode_bulk xs) @ rest" "length buf < 2 ^ 31"
  shows "mb_elems buf (int p) (int (length buf)) (length xs) acc =
     Some (Some (int (p + length (concat (map encode_bulk xs))), rev acc @ map bulk_value xs))"
  using assms(1)
proof (induction xs arbitrary: p acc)
  case (Cons a xs)
  have d: "drop p buf = encode_bulk a @ (concat (map encode_bulk xs) @ rest)"
    using Cons.prems by simp
  have "drop (p + length (encode_bulk a)) buf = drop (length (encode_bulk a)) (drop p buf)"
    by (simp add: add.commute)
  also have "\<dots> = concat (map encode_bulk xs) @ rest" by (simp add: d)
  finally have "drop (p + length (encode_bulk a)) buf = concat (map encode_bulk xs) @ rest" .
  from Cons.IH [OF this, of "bulk_value a # acc"] mb_elem_encoded [OF d assms(2)]
  show ?case by (simp add: add.assoc)
qed simp

lemma parse_multi_bulk_encoded:
  assumes d: "drop p buf = dec_nat (length xs) @ [CR, LF] @ concat (map encode_bulk xs) @ rest"
    and len: "length buf < 2 ^ 31" and n: "length xs < 2 ^ 31"
  shows "parse_multi_bulk buf (int p) (int (length buf)) =
    Some (Some (int (p + length (dec_nat (length xs)) + 2 + length (concat (map encode_bulk xs))),
      LList (map bulk_value xs)))"
proof -
  let ?ds = "dec_nat (length xs)"
  have count: "mb_count buf (int p) (int (length buf)) 0 = Some (Some (int (p + length ?ds), int (length xs)))"
    using mb_count_digits [of p buf ?ds "LF # concat (map encode_bulk xs) @ rest" 0] d n
    by (auto dest: dec_nat_digits)
  have lf: "rd buf (int (p + length ?ds) + 1) = Some LF"
    using rd_at [of p buf "?ds @ [CR]" LF] d by (simp add: algebra_simps)
  have "drop (p + length ?ds + 2) buf = drop (length ?ds + 2) (drop p buf)"
    by (simp add: add.commute add.left_commute)
  also have "\<dots> = concat (map encode_bulk xs) @ rest" by (simp add: d)
  finally have dr: "drop (p + length ?ds + 2) buf = concat (map encode_bulk xs) @ rest" .
  have "p + length ?ds + 2 \<le> length buf"
  proof -
    have "length (drop p buf) \<ge> length ?ds + 2" by (simp add: d)
    then show ?thesis by simp
  qed
  moreover have "0 < length ?ds" by simp
  ultimately show ?thesis
    using count lf mb_elems_encoded [OF dr len, of "[]"]
    by (simp add: parse_multi_bulk_def algebra_simps)
qed

subsection \<open>Property\<close>

lemma parse_line_reply_encoded:
  assumes buf: "buf = c # s @ CR # LF # rest" and s: "first_crlf s = None" and len: "length buf < 2 ^ 31"
  shows "parse_line_reply buf 0 (int (length buf)) err push ty = Some (int (length s) + 3, push s, ty)"
proof -
  have "parse_line buf 1 (int (length buf)) = Some (Some 1, int (length s))"
    using parse_line_eq [of 1 buf] len by (simp add: buf first_crlf_append [OF s])
  moreover have "slice buf 1 (int (length s)) = Some s"
    by (subst slice_inside) (simp_all add: buf)
  ultimately show ?thesis by (simp add: parse_line_reply_def algebra_simps)
qed

text \<open>
  C16: Whatever reply the proxy encodes, followed by any further bytes, the C decoder returns that reply's value and type and leaves its pointer exactly after the encoding, as long as
  a status or an error is a single line, Lua's text of a number is read back as this number, and the buffer is shorter than $2^{31}$ bytes.
\<close>

theorem redis_parse_encode:
  assumes "encodable rt r" "length (encode rt r @ rest) < 2 ^ 31"
  shows "redis_parse rt (encode rt r @ rest) 0 (length (encode rt r @ rest)) = Some (int (length (encode rt r)), reply_value r, reply_kind r)"
proof (cases r)
  case (Status s)
  let ?buf = "encode rt r @ rest"
  have "parse_line_reply ?buf 0 (int (length ?buf)) ''bad status reply'' LString STATUS_REPLY =
      Some (int (length s) + 3, LString s, STATUS_REPLY)"
    using assms Status by (intro parse_line_reply_encoded [where c = "CHR ''+''" and rest = rest]) simp_all
  with Status show ?thesis by (simp add: redis_parse_def rd_def)
next
  case (Error s)
  let ?buf = "encode rt r @ rest"
  have "parse_line_reply ?buf 0 (int (length ?buf)) ''bad error reply'' LString ERROR_REPLY =
      Some (int (length s) + 3, LString s, ERROR_REPLY)"
    using assms Error by (intro parse_line_reply_encoded [where c = "CHR ''-''" and rest = rest]) simp_all
  with Error show ?thesis by (simp add: redis_parse_def rd_def)
next
  case (Integer x)
  let ?buf = "encode rt r @ rest"
  have x: "first_crlf (rt_tostring rt x) = None" "rt_tonumber rt (rt_tostring rt x) = Some x" using assms(1) Integer by auto
  have "parse_line_reply ?buf 0 (int (length ?buf)) ''bad integer reply''
      (\<lambda>s. LNumber (case rt_tonumber rt s of Some x \<Rightarrow> x | None \<Rightarrow> 0)) INTEGER_REPLY =
      Some (int (length (rt_tostring rt x)) + 3, LNumber (case rt_tonumber rt (rt_tostring rt x) of Some x \<Rightarrow> x | None \<Rightarrow> 0), INTEGER_REPLY)"
    using assms(2) Integer x(1) by (intro parse_line_reply_encoded [where c = "CHR '':''" and rest = rest]) simp_all
  with Integer x(2) show ?thesis by (simp add: redis_parse_def rd_def)
next
  case (Bulk a)
  let ?buf = "encode rt r @ rest"
  have "drop 0 ?buf = encode_bulk a @ rest" by (simp add: Bulk)
  from parse_bulk_encoded [OF this assms(2)] Bulk show ?thesis
    by (cases a) (auto simp: redis_parse_def encode_bulk_def bulk_value_def)
next
  case (Multi xs)
  let ?buf = "encode rt r @ rest"
  have d: "drop 1 ?buf = dec_nat (length xs) @ [CR, LF] @ concat (map encode_bulk xs) @ rest"
    by (simp add: Multi)
  have "length xs \<le> length (concat (map encode_bulk xs))"
    by (induction xs) (auto simp: encode_bulk_def split: option.splits)
  then have "length xs < 2 ^ 31" using assms(2) by (simp add: Multi)
  from parse_multi_bulk_encoded [OF d assms(2) this] Multi show ?thesis
    by (simp add: redis_parse_def rd_def)
qed

text \<open>A host that writes and reads the number 7.\<close>

definition seven_rt :: lua_rt where
  "seven_rt = demo_rt\<lparr>rt_tostring := (\<lambda>x. if x = num_of_int 7 then ''7'' else ''nan''), rt_tonumber := (\<lambda>s. if s = ''7'' then Some (num_of_int 7) else None)\<rparr>"

theorem redis_parse_encode_witness:
  "encodable seven_rt (Integer (num_of_int 7)) \<and>
   redis_parse seven_rt ('':7'' @ [CR, LF] @ ''x'') 0 (length ('':7'' @ [CR, LF] @ ''x'')) = Some (4, LNumber (num_of_int 7), INTEGER_REPLY) \<and>
   redis_parse demo_rt (encode demo_rt (Multi [Some ''ab'', None]) @ ''x'') 0 (length (encode demo_rt (Multi [Some ''ab'', None]) @ ''x'')) =
     Some (int (length (encode demo_rt (Multi [Some ''ab'', None]))), LList [LString ''ab'', LNil], MULTI_BULK_REPLY)"
proof -
  have i: "encodable seven_rt (Integer (num_of_int 7))" "rt_tostring seven_rt (num_of_int 7) = ''7''"
    by (simp_all add: seven_rt_def)
  have m: "length (encode demo_rt (Multi [Some ''ab'', None]) @ ''x'') < 2 ^ 31" by (simp add: encode_bulk_def dec_nat.simps)
  show ?thesis using i(1) redis_parse_encode [OF i(1), of "''x''"] redis_parse_encode [OF _ m] by (simp add: i(2) bulk_value_def)
qed

end
