(* ===== verification/Rbtree.thy ===== *)
theory Rbtree
  imports Prelude "HOL-Library.Monad_Syntax"
begin

section \<open>Red-black trees (bundle/nginx-1.11.2/src/core/ngx\_rbtree.c)\<close>

text \<open>
  The tree the shared dictionary indexes its nodes with. A C node with its \<open>parent\<close> pointer is a
  position in the tree: the subtree at the node and the path up to the root, one frame per
  ancestor. Moving \<open>node = node->parent\<close> is moving one frame up. The payload is whatever
  identifies a node. Dereferencing a \<open>NULL\<close> parent or the sentinel's children is \<open>None\<close>.
\<close>

subsection \<open>Trees and positions\<close>

datatype color = Red | Black

datatype 'a rbt = Sentinel | Nd color "'a rbt" 'a "'a rbt"

fun tcol :: "'a rbt \<Rightarrow> color" where
  "tcol Sentinel = Black"
| "tcol (Nd c _ _ _) = c"

abbreviation is_red :: "'a rbt \<Rightarrow> bool" where "is_red t \<equiv> tcol t = Red"
abbreviation is_black :: "'a rbt \<Rightarrow> bool" where "is_black t \<equiv> tcol t = Black"

fun paint :: "color \<Rightarrow> 'a rbt \<Rightarrow> 'a rbt" where
  "paint c Sentinel = Sentinel"
| "paint c (Nd _ l x r) = Nd c l x r"

datatype 'a frame = InLeft (fcol: color) (fval: 'a) (sib: "'a rbt")
  | InRight (fcol: color) (sib: "'a rbt") (fval: 'a)

type_synonym 'a path = "'a frame list"

fun plug1 :: "'a rbt \<Rightarrow> 'a frame \<Rightarrow> 'a rbt" where
  "plug1 t (InLeft c x r) = Nd c t x r"
| "plug1 t (InRight c l x) = Nd c l x t"

fun plug :: "'a rbt \<Rightarrow> 'a path \<Rightarrow> 'a rbt" where
  "plug t [] = t"
| "plug t (f # p) = plug (plug1 t f) p"

subsection \<open>Rotations\<close>

fun left_rotate :: "'a rbt \<Rightarrow> 'a rbt option" where
  "left_rotate (Nd c a x (Nd d b y e)) = Some (Nd d (Nd c a x b) y e)"
| "left_rotate _ = None"

fun right_rotate :: "'a rbt \<Rightarrow> 'a rbt option" where
  "right_rotate (Nd c (Nd d a x b) y e) = Some (Nd d a x (Nd c b y e))"
| "right_rotate _ = None"

subsection \<open>Insertion\<close>

text \<open>The descent of the tree's \<open>insert\<close> callback; \<open>goes_left y\<close> compares the new node with \<open>y\<close>.\<close>

fun insert_pos :: "('a \<Rightarrow> bool) \<Rightarrow> 'a rbt \<Rightarrow> 'a path \<Rightarrow> 'a path" where
  "insert_pos goes_left Sentinel p = p"
| "insert_pos goes_left (Nd c l y r) p =
     (if goes_left y then insert_pos goes_left l (InLeft c y r # p)
      else insert_pos goes_left r (InRight c l y # p))"

text \<open>
  The re-balancing loop at \<open>node\<close> (the subtree \<open>t\<close>), then \<open>ngx_rbt_black(*root)\<close>. After the
  rotations of the black-uncle case the parent is black, so the loop ends.
\<close>

fun insert_fixup :: "'a rbt \<Rightarrow> 'a path \<Rightarrow> 'a rbt option" where
  "insert_fixup t [] = Some (paint Black t)"
| "insert_fixup t [p] = (if fcol p = Red then None else Some (paint Black (plug t [p])))"
| "insert_fixup t (p # g # path) =
     (if fcol p = Black then Some (paint Black (plug t (p # g # path)))
      else case g of
        InLeft gc gx temp \<Rightarrow>
          (if is_red temp then
             insert_fixup (Nd Red (paint Black (plug1 t p)) gx (paint Black temp)) path
           else do {
             parent \<leftarrow> (case p of InRight _ _ _ \<Rightarrow> left_rotate (plug1 t p) | _ \<Rightarrow> Some (plug1 t p));
             tp \<leftarrow> right_rotate (Nd Red (paint Black parent) gx temp);
             Some (paint Black (plug tp path))
           })
      | InRight gc temp gx \<Rightarrow>
          (if is_red temp then
             insert_fixup (Nd Red (paint Black temp) gx (paint Black (plug1 t p))) path
           else do {
             parent \<leftarrow> (case p of InLeft _ _ _ \<Rightarrow> right_rotate (plug1 t p) | _ \<Rightarrow> Some (plug1 t p));
             tp \<leftarrow> left_rotate (Nd Red temp gx (paint Black parent));
             Some (paint Black (plug tp path))
           }))"

definition rbtree_insert :: "('a \<Rightarrow> bool) \<Rightarrow> 'a \<Rightarrow> 'a rbt \<Rightarrow> 'a rbt option" where
  "rbtree_insert goes_left x t =
     (if t = Sentinel then Some (Nd Black Sentinel x Sentinel)
      else insert_fixup (Nd Red Sentinel x Sentinel) (insert_pos goes_left t []))"

subsection \<open>Deletion\<close>

text \<open>The position of a node the caller holds a pointer to.\<close>

fun locate :: "'a \<Rightarrow> 'a rbt \<Rightarrow> 'a path \<Rightarrow> ('a rbt \<times> 'a path) option" where
  "locate x Sentinel p = None"
| "locate x (Nd c l y r) p =
     (if x = y then Some (Nd c l y r, p)
      else case locate x l (InLeft c y r # p) of
             Some q \<Rightarrow> Some q
           | None \<Rightarrow> locate x r (InRight c l y # p))"

text \<open>\<open>ngx_rbtree_min\<close>: down the left spine.\<close>

fun rbtree_min :: "'a rbt \<Rightarrow> 'a path \<Rightarrow> 'a rbt \<times> 'a path" where
  "rbtree_min Sentinel p = (Sentinel, p)"
| "rbtree_min (Nd c l x r) p =
     (if l = Sentinel then (Nd c l x r, p) else rbtree_min l (InLeft c x r # p))"

text \<open>
  The delete fixup at \<open>temp\<close>. A red sibling is rotated above the parent first; then the new
  sibling is recoloured or rotated.
\<close>

definition sibling_left :: "color \<Rightarrow> 'a \<Rightarrow> 'a rbt \<Rightarrow> 'a path \<Rightarrow> color \<times> 'a rbt \<times> 'a path" where
  "sibling_left pc px w path =
     (case w of Nd Red wl wx wr \<Rightarrow> (Red, wl, InLeft Black wx wr # path) | _ \<Rightarrow> (pc, w, path))"

definition sibling_right :: "color \<Rightarrow> 'a \<Rightarrow> 'a rbt \<Rightarrow> 'a path \<Rightarrow> color \<times> 'a rbt \<times> 'a path" where
  "sibling_right pc px w path =
     (case w of Nd Red wl wx wr \<Rightarrow> (Red, wr, InRight Black wl wx # path) | _ \<Rightarrow> (pc, w, path))"

function delete_fixup :: "'a rbt \<Rightarrow> 'a path \<Rightarrow> 'a rbt option" where
  "delete_fixup temp [] = Some (paint Black temp)"
| "delete_fixup temp (p # path) =
     (if is_red temp then Some (plug (paint Black temp) (p # path))
      else case p of
        InLeft pc0 px w0 \<Rightarrow>
          (case sibling_left pc0 px w0 path of (pc, w, path') \<Rightarrow>
           (case w of
              Sentinel \<Rightarrow> None
            | Nd wc wl wx wr \<Rightarrow>
                (if is_black wl \<and> is_black wr then
                   delete_fixup (Nd pc temp px (Nd Red wl wx wr)) path'
                 else do {
                   w' \<leftarrow> (if is_black wr then right_rotate (Nd Red (paint Black wl) wx wr)
                          else Some w);
                   tp \<leftarrow> (case w' of
                             Sentinel \<Rightarrow> None
                           | Nd _ l x r \<Rightarrow> left_rotate (Nd Black temp px (Nd pc l x (paint Black r))));
                   Some (paint Black (plug tp path'))
                 })))
      | InRight pc0 w0 px \<Rightarrow>
          (case sibling_right pc0 px w0 path of (pc, w, path') \<Rightarrow>
           (case w of
              Sentinel \<Rightarrow> None
            | Nd wc wl wx wr \<Rightarrow>
                (if is_black wl \<and> is_black wr then
                   delete_fixup (Nd pc (Nd Red wl wx wr) px temp) path'
                 else do {
                   w' \<leftarrow> (if is_black wl then left_rotate (Nd Red wl wx (paint Black wr))
                          else Some w);
                   tp \<leftarrow> (case w' of
                             Sentinel \<Rightarrow> None
                           | Nd _ l x r \<Rightarrow> right_rotate (Nd Black (Nd pc (paint Black l) x r) px temp));
                   Some (paint Black (plug tp path'))
                 }))))"
  by pat_completeness auto
termination
  by (relation "measure (\<lambda>(temp, p). 2 * length p + (if is_red temp then 0 else 1))")
    (auto simp: sibling_left_def sibling_right_def split: rbt.splits color.splits if_splits)

text \<open>Unlinking \<open>subst\<close>, of color \<open>c\<close>, whose place \<open>temp\<close> takes.\<close>

definition delete_splice :: "color \<Rightarrow> 'a rbt \<Rightarrow> 'a path \<Rightarrow> 'a rbt option" where
  "delete_splice c temp path =
     (if path = [] then Some (paint Black temp)
      else if c = Red then Some (plug temp path)
      else delete_fixup temp path)"

definition rbtree_delete :: "'a \<Rightarrow> 'a rbt \<Rightarrow> 'a rbt option" where
  "rbtree_delete x t =
     (case locate x t [] of
        Some (Nd c l _ r, path) \<Rightarrow>
          (if l = Sentinel then delete_splice c r path
           else if r = Sentinel then delete_splice c l path
           else case rbtree_min r [] of
                  (Nd sc sl y sr, mpath) \<Rightarrow>
                    delete_splice sc (if sl \<noteq> Sentinel then sl else sr) (mpath @ InRight c l y # path)
                | _ \<Rightarrow> None)
      | _ \<Rightarrow> None)"

subsection \<open>In-order contents\<close>

fun inorder :: "'a rbt \<Rightarrow> 'a list" where
  "inorder Sentinel = []"
| "inorder (Nd _ l x r) = inorder l @ x # inorder r"

fun before :: "'a path \<Rightarrow> 'a list" where
  "before [] = []"
| "before (InLeft _ _ _ # p) = before p"
| "before (InRight _ l x # p) = before p @ inorder l @ [x]"

fun after :: "'a path \<Rightarrow> 'a list" where
  "after [] = []"
| "after (InLeft _ x r # p) = x # inorder r @ after p"
| "after (InRight _ _ _ # p) = after p"

lemma inorder_paint [simp]: "inorder (paint c t) = inorder t"
  by (cases t) auto

lemma tcol_paint_Black [simp]: "tcol (paint Black t) = Black"
  by (cases t) auto

lemma paint_same [simp]: "paint (tcol t) t = t"
  by (cases t) auto

lemma inorder_plug [simp]: "inorder (plug t p) = before p @ inorder t @ after p"
  by (induction p arbitrary: t rule: before.induct) auto

lemma before_append [simp]: "before (p @ q) = before q @ before p"
  by (induction p rule: before.induct) auto

lemma after_append [simp]: "after (p @ q) = after p @ after q"
  by (induction p rule: after.induct) auto

lemma inorder_plug1: "inorder (plug1 t f) = before [f] @ inorder t @ after [f]"
  by (cases f) auto

lemma left_rotate_SomeD: "left_rotate t = Some u \<Longrightarrow> inorder u = inorder t"
  by (cases t rule: left_rotate.cases) auto

lemma right_rotate_SomeD: "right_rotate t = Some u \<Longrightarrow> inorder u = inorder t"
  by (cases t rule: right_rotate.cases) auto

subsection \<open>The balance invariant\<close>

text \<open>
  No red node has a red child and every path down has the same number of black nodes. The
  height is the one along the left spine; the invariant says that the choice does not matter.
\<close>

fun bheight :: "'a rbt \<Rightarrow> nat" where
  "bheight Sentinel = 0"
| "bheight (Nd c l _ _) = (if c = Black then Suc (bheight l) else bheight l)"

fun rb_inv :: "'a rbt \<Rightarrow> bool" where
  "rb_inv Sentinel = True"
| "rb_inv (Nd c l _ r) \<longleftrightarrow>
     rb_inv l \<and> rb_inv r \<and> bheight l = bheight r \<and> (c = Red \<longrightarrow> is_black l \<and> is_black r)"

definition rb_tree :: "'a rbt \<Rightarrow> bool" where
  "rb_tree t \<longleftrightarrow> rb_inv t \<and> is_black t"

text \<open>The same condition read from a position upwards: what a subtree of color \<open>c\<close> and height
  \<open>n\<close> may be plugged into.\<close>

fun compat :: "color \<Rightarrow> 'a path \<Rightarrow> bool" where
  "compat Black p = True"
| "compat Red [] = False"
| "compat Red (f # _) \<longleftrightarrow> fcol f = Black"

fun path_inv :: "'a path \<Rightarrow> nat \<Rightarrow> bool" where
  "path_inv [] n = True"
| "path_inv (f # p) n \<longleftrightarrow>
     rb_inv (sib f) \<and> bheight (sib f) = n \<and> (fcol f = Red \<longrightarrow> is_black (sib f)) \<and> compat (fcol f) p \<and>
     path_inv p (if fcol f = Black then Suc n else n)"

lemma compat_below_Black [simp]: "fcol f = Black \<Longrightarrow> compat c (f # p)"
  by (cases c) auto

lemma not_Red [simp]: "c \<noteq> Red \<longleftrightarrow> c = Black" "c \<noteq> Black \<longleftrightarrow> c = Red"
  by (cases c; simp)+

lemma rb_tree_plug:
  "rb_tree (plug t p) \<longleftrightarrow> rb_inv t \<and> path_inv p (bheight t) \<and> compat (tcol t) p"
proof (induction p arbitrary: t)
  case Nil
  then show ?case by (cases "tcol t") (auto simp: rb_tree_def)
next
  case (Cons f p)
  show ?case
    by (cases f; cases "tcol t"; cases "fcol f") (auto simp: Cons.IH)
qed

lemma rb_inv_paint_Black [simp]: "rb_inv t \<Longrightarrow> rb_inv (paint Black t)"
  by (cases t) auto

lemma rb_tree_paint_Black: "rb_inv t \<Longrightarrow> rb_tree (paint Black t)"
  by (simp add: rb_tree_def)

lemma paint_Black_rb_tree [simp]: "rb_tree t \<Longrightarrow> paint Black t = t"
  unfolding rb_tree_def by (metis paint_same)

lemma is_redE: "is_red t \<Longrightarrow> \<exists>l x r. t = Nd Red l x r"
  by (cases t) auto

lemma bheight_pos: "bheight t = Suc n \<Longrightarrow> \<exists>c l x r. t = Nd c l x r"
  by (cases t) auto

subsection \<open>Insertion keeps the invariant\<close>

text \<open>The loop invariant: \<open>node\<close> is red, its subtree is balanced and only the edge to its parent
  may be red-red.\<close>

lemma insert_fixup_inorder:
  "insert_fixup t path = Some u \<Longrightarrow> inorder u = before path @ inorder t @ after path"
proof (induction t path arbitrary: u rule: insert_fixup.induct)
  case (3 t p g path)
  then show ?case
    by (cases p; cases g)
      (auto split: if_splits bind_splits dest!: left_rotate_SomeD right_rotate_SomeD)
qed (auto simp: inorder_plug1 split: if_splits)

lemma insert_fixup_ok:
  assumes "is_red t" "rb_inv t" "path_inv path (bheight t)"
  shows "\<exists>u. insert_fixup t path = Some u \<and> rb_tree u"
  using assms
proof (induction t path rule: insert_fixup.induct)
  case (1 t)
  then show ?case by (simp add: rb_tree_paint_Black)
next
  case (2 t p)
  then have "fcol p = Black" by (cases "fcol p") auto
  with 2 have "rb_tree (plug t [p])" by (simp only: rb_tree_plug) simp
  with \<open>fcol p = Black\<close> show ?case by simp
next
  case (3 t p g path)
  show ?case
  proof (cases "fcol p")
    case Black
    with 3 have "rb_tree (plug t (p # g # path))" by (simp only: rb_tree_plug) simp
    with Black show ?thesis by simp
  next
    case Red
    then have gb: "fcol g = Black" using 3 by simp
    obtain a x b where t: "t = Nd Red a x b" using is_redE 3 by blast
    show ?thesis
    proof (cases "is_red (sib g)")
      case True
      then obtain l y r where s: "sib g = Nd Red l y r" using is_redE by blast
      show ?thesis
        using 3 Red gb t s by (cases p; cases g) auto
    next
      case False
      show ?thesis
        using 3(3-5) Red gb t False
        by (cases p; cases g) (auto simp: rb_tree_plug)
    qed
  qed
qed

lemma insert_pos_path:
  assumes "rb_inv t" "path_inv p (bheight t)" "compat (tcol t) p"
  shows "path_inv (insert_pos gl t p) 0"
  using assms
  by (induction gl t p rule: insert_pos.induct) (auto split: if_splits)

lemma insert_pos_inorder:
  "before (insert_pos gl t p) @ after (insert_pos gl t p) = before p @ inorder t @ after p"
  by (induction gl t p rule: insert_pos.induct) auto

lemma insert_pos_nonempty: "t \<noteq> Sentinel \<Longrightarrow> insert_pos gl t p \<noteq> []"
  by (induction gl t p rule: insert_pos.induct) (auto split: if_splits, metis insert_pos.simps(1) list.distinct(1), metis insert_pos.simps(1) list.distinct(1))

theorem rbtree_insert_rb_tree:
  assumes "rb_tree t"
  shows "\<exists>u. rbtree_insert gl x t = Some u \<and> rb_tree u"
proof (cases "t = Sentinel")
  case True
  then show ?thesis by (simp add: rbtree_insert_def rb_tree_def)
next
  case False
  have "path_inv (insert_pos gl t []) 0"
    using assms by (auto simp: rb_tree_def intro: insert_pos_path)
  then show ?thesis
    using False insert_fixup_ok [of "Nd Red Sentinel x Sentinel" "insert_pos gl t []"]
    by (simp add: rbtree_insert_def)
qed

lemma rbtree_insert_inorder:
  assumes "rbtree_insert gl x t = Some u"
  shows "\<exists>xs ys. inorder t = xs @ ys \<and> inorder u = xs @ x # ys \<and>
           xs = before (insert_pos gl t []) \<and> ys = after (insert_pos gl t [])"
  using assms insert_pos_inorder [of gl t "[]"]
  by (auto simp: rbtree_insert_def dest!: insert_fixup_inorder split: if_splits)

subsection \<open>Deletion keeps the invariant\<close>

text \<open>The loop invariant of the delete fixup: the subtree at \<open>temp\<close> is one black node short of
  what its place needs, and is balanced once its root is painted black.\<close>

lemma sibling_left_inorder:
  assumes "sibling_left pc px w path = (c, v, q)"
  shows "before q @ inorder (Nd c t px v) @ after q = before path @ inorder (Nd pc t px w) @ after path"
  using assms by (auto simp: sibling_left_def split: rbt.splits color.splits)

lemma sibling_right_inorder:
  assumes "sibling_right pc px w path = (c, v, q)"
  shows "before q @ inorder (Nd c v px t) @ after q = before path @ inorder (Nd pc w px t) @ after path"
  using assms by (auto simp: sibling_right_def split: rbt.splits color.splits)

lemma sibling_left_black:
  assumes "path_inv (InLeft pc px w # path) (Suc n)"
  obtains c wl wx wr q where "sibling_left pc px w path = (c, Nd Black wl wx wr, q)"
    "path_inv (InLeft c px (Nd Black wl wx wr) # q) (Suc n)"
proof (cases "tcol w")
  case Red
  then obtain l x r where w: "w = Nd Red l x r" using is_redE by blast
  with assms have "bheight l = Suc n" "is_black l" by auto
  with w assms obtain wl wx wr where "l = Nd Black wl wx wr" by (cases l) auto
  with w assms show ?thesis
    by (intro that [of Red wl wx wr "InLeft Black x r # path"]) (auto simp: sibling_left_def)
next
  case Black
  with assms obtain wl wx wr where "w = Nd Black wl wx wr" by (cases w) auto
  with assms show ?thesis by (intro that [of pc wl wx wr path]) (auto simp: sibling_left_def)
qed

lemma sibling_right_black:
  assumes "path_inv (InRight pc w px # path) (Suc n)"
  obtains c wl wx wr q where "sibling_right pc px w path = (c, Nd Black wl wx wr, q)"
    "path_inv (InRight c (Nd Black wl wx wr) px # q) (Suc n)"
proof (cases "tcol w")
  case Red
  then obtain l x r where w: "w = Nd Red l x r" using is_redE by blast
  with assms have "bheight r = Suc n" "is_black r" by auto
  with w assms obtain wl wx wr where "r = Nd Black wl wx wr" by (cases r) auto
  with w assms show ?thesis
    by (intro that [of Red wl wx wr "InRight Black l x # path"]) (auto simp: sibling_right_def)
next
  case Black
  with assms obtain wl wx wr where "w = Nd Black wl wx wr" by (cases w) auto
  with assms show ?thesis by (intro that [of pc wl wx wr path]) (auto simp: sibling_right_def)
qed

lemma delete_fixup_left_rotates:
  assumes sl: "sibling_left pc px w path = (c, Nd Black wl wx wr, q)"
    and temp: "is_black temp" "rb_inv temp"
    and q: "path_inv (InLeft c px (Nd Black wl wx wr) # q) (Suc (bheight temp))"
    and red: "\<not> (is_black wl \<and> is_black wr)"
  shows "\<exists>u. delete_fixup temp (InLeft pc px w # path) = Some u \<and> rb_tree u"
proof (cases "tcol wr")
  case Red
  then obtain a y b where wr: "wr = Nd Red a y b" using is_redE by blast
  have "rb_tree (plug (Nd c (Nd Black temp px wl) wx (Nd Black a y b)) q)"
    unfolding rb_tree_plug using temp q by (cases c) (auto simp: wr)
  then show ?thesis using sl temp by (simp add: wr)
next
  case Black
  with red obtain a y b where wl: "wl = Nd Red a y b" using is_redE by (metis not_Red(2))
  have "rb_tree (plug (Nd c (Nd Black temp px a) y (Nd Black b wx wr)) q)"
    unfolding rb_tree_plug using temp q Black by (cases c) (auto simp: wl)
  then show ?thesis using sl temp Black by (simp add: wl)
qed

lemma delete_fixup_right_rotates:
  assumes sr: "sibling_right pc px w path = (c, Nd Black wl wx wr, q)"
    and temp: "is_black temp" "rb_inv temp"
    and q: "path_inv (InRight c (Nd Black wl wx wr) px # q) (Suc (bheight temp))"
    and red: "\<not> (is_black wl \<and> is_black wr)"
  shows "\<exists>u. delete_fixup temp (InRight pc w px # path) = Some u \<and> rb_tree u"
proof (cases "tcol wl")
  case Red
  then obtain a y b where wl: "wl = Nd Red a y b" using is_redE by blast
  have "rb_tree (plug (Nd c (Nd Black a y b) wx (Nd Black wr px temp)) q)"
    unfolding rb_tree_plug using temp q by (cases c) (auto simp: wl)
  then show ?thesis using sr temp by (simp add: wl)
next
  case Black
  with red obtain a y b where wr: "wr = Nd Red a y b" using is_redE by (metis not_Red(2))
  have "rb_tree (plug (Nd c (Nd Black wl wx a) y (Nd Black b px temp)) q)"
    unfolding rb_tree_plug using temp q Black by (cases c) (auto simp: wr)
  then show ?thesis using sr temp Black by (simp add: wr)
qed

lemma delete_fixup_ok:
  assumes "rb_inv (paint Black temp)" "path_inv path (Suc (bheight temp))"
  shows "\<exists>u. delete_fixup temp path = Some u \<and> rb_tree u"
  using assms
proof (induction temp path rule: delete_fixup.induct)
  case (1 temp)
  then show ?case by (simp add: rb_tree_def)
next
  case (2 temp p path)
  show ?case
  proof (cases "tcol temp")
    case Red
    then obtain l x r where "temp = Nd Red l x r" using is_redE by blast
    with 2(3-) have "rb_tree (plug (paint Black temp) (p # path))"
      by (simp only: rb_tree_plug) simp
    with Red show ?thesis by simp
  next
    case Black
    then have temp: "rb_inv temp" using 2(3) by (metis paint_same)
    show ?thesis
    proof (cases p)
      case p: (InLeft pc px w)
      obtain c wl wx wr q where
        sl: "sibling_left pc px w path = (c, Nd Black wl wx wr, q)"
        and q: "path_inv (InLeft c px (Nd Black wl wx wr) # q) (Suc (bheight temp))"
        by (rule sibling_left_black [OF 2(4) [unfolded p]])
      show ?thesis
      proof (cases "is_black wl \<and> is_black wr")
        case True
        have "\<exists>u. delete_fixup (Nd c temp px (Nd Red wl wx wr)) q = Some u \<and> rb_tree u"
          by (rule 2(1) [OF _ p sl [symmetric] refl refl]) (use Black True temp q in auto)
        with p sl Black True show ?thesis by simp
      next
        case False
        then show ?thesis
          unfolding p using delete_fixup_left_rotates [OF sl Black temp q] by blast
      qed
    next
      case p: (InRight pc w px)
      obtain c wl wx wr q where
        sr: "sibling_right pc px w path = (c, Nd Black wl wx wr, q)"
        and q: "path_inv (InRight c (Nd Black wl wx wr) px # q) (Suc (bheight temp))"
        by (rule sibling_right_black [OF 2(4) [unfolded p]])
      show ?thesis
      proof (cases "is_black wl \<and> is_black wr")
        case True
        have "\<exists>u. delete_fixup (Nd c (Nd Red wl wx wr) px temp) q = Some u \<and> rb_tree u"
          by (rule 2(2) [OF _ p sr [symmetric] refl refl]) (use Black True temp q in auto)
        with p sr Black True show ?thesis by simp
      next
        case False
        then show ?thesis
          unfolding p using delete_fixup_right_rotates [OF sr Black temp q] by blast
      qed
    qed
  qed
qed

lemma delete_fixup_inorder:
  "delete_fixup temp path = Some u \<Longrightarrow> inorder u = before path @ inorder temp @ after path"
proof (induction temp path arbitrary: u rule: delete_fixup.induct)
  case (2 temp p path)
  show ?case
  proof (cases p)
    case p: (InLeft pc px w)
    obtain c v q where sl: "sibling_left pc px w path = (c, v, q)" by (cases "sibling_left pc px w path") auto
    have eq: "before path @ inorder temp @ px # inorder w @ after path
              = before q @ inorder temp @ px # inorder v @ after q"
      using sibling_left_inorder [OF sl, of temp] by simp
    show ?thesis
      using 2(3) 2(1) [OF _ p sl [symmetric] refl]
      by (auto simp: p sl eq split: if_splits rbt.splits bind_splits
               dest!: left_rotate_SomeD right_rotate_SomeD)
  next
    case p: (InRight pc w px)
    obtain c v q where sr: "sibling_right pc px w path = (c, v, q)" by (cases "sibling_right pc px w path") auto
    have eq: "before path @ inorder w @ px # inorder temp @ after path
              = before q @ inorder v @ px # inorder temp @ after q"
      using sibling_right_inorder [OF sr, of temp] by simp
    show ?thesis
      using 2(3) 2(2) [OF _ p sr [symmetric] refl]
      by (auto simp: p sr eq split: if_splits rbt.splits bind_splits
               dest!: left_rotate_SomeD right_rotate_SomeD)
  qed
qed auto

lemma plug_append [simp]: "plug t (p @ q) = plug (plug t p) q"
  by (induction p arbitrary: t) auto

lemma compat_relabel: "compat e (p @ InRight c l x # q) = compat e (p @ InRight c l y # q)"
  by (cases p; cases e) auto

lemma path_inv_relabel:
  "path_inv (p @ InRight c l x # q) n = path_inv (p @ InRight c l y # q) n"
proof (induction p arbitrary: n)
  case (Cons f p)
  show ?case
    using compat_relabel [of "fcol f" p c l x q y] Cons.IH by simp
qed simp

lemma delete_splice_inorder:
  "delete_splice c temp path = Some u \<Longrightarrow> inorder u = before path @ inorder temp @ after path"
  by (auto simp: delete_splice_def dest!: delete_fixup_inorder split: if_splits)

lemma delete_splice_ok:
  assumes "rb_inv (Nd c a x b)" "path_inv path (bheight (Nd c a x b))"
    and "a = Sentinel \<and> temp = b \<or> b = Sentinel \<and> temp = a"
  shows "\<exists>u. delete_splice c temp path = Some u \<and> rb_tree u"
proof (cases "path = []")
  case True
  with assms show ?thesis by (auto simp: delete_splice_def intro: rb_tree_paint_Black)
next
  case False
  show ?thesis
  proof (cases c)
    case Red
    with assms have "temp = Sentinel" by (cases temp) (auto split: if_splits)
    moreover from this Red assms have "rb_tree (plug Sentinel path)"
      unfolding rb_tree_plug by auto
    ultimately show ?thesis using Red False by (simp add: delete_splice_def)
  next
    case Black
    with assms have "rb_inv temp" "path_inv path (Suc (bheight temp))" by auto
    with Black False show ?thesis by (simp add: delete_splice_def delete_fixup_ok)
  qed
qed

subsection \<open>Finding the node to unlink\<close>

lemma locate_SomeD:
  "locate x t p = Some (u, q) \<Longrightarrow> plug u q = plug t p \<and> (\<exists>c l r. u = Nd c l x r)"
  by (induction x t p arbitrary: u q rule: locate.induct) (auto split: if_splits option.splits)

lemma locate_None_iff: "locate x t p = None \<longleftrightarrow> x \<notin> set (inorder t)"
  by (induction x t p rule: locate.induct) (auto split: option.splits)

lemma rbtree_min_spine:
  assumes "t \<noteq> Sentinel"
  shows "\<exists>c y r q. rbtree_min t p = (Nd c Sentinel y r, q) \<and> plug (Nd c Sentinel y r) q = plug t p
           \<and> before q = before p"
  using assms by (induction t p rule: rbtree_min.induct) auto

theorem rbtree_delete_ok:
  assumes "rb_tree t" "x \<in> set (inorder t)"
  shows "\<exists>u xs ys. rbtree_delete x t = Some u \<and> rb_tree u \<and>
           inorder t = xs @ x # ys \<and> inorder u = xs @ ys"
proof -
  obtain v path where "locate x t [] = Some (v, path)"
    using assms(2) locate_None_iff [of x t "[]"] by (cases "locate x t []") auto
  moreover from this obtain c l r where v: "v = Nd c l x r" and t: "plug (Nd c l x r) path = t"
    using locate_SomeD by fastforce
  ultimately have loc: "locate x t [] = Some (Nd c l x r, path)" by simp
  have inv: "rb_inv (Nd c l x r)" "path_inv path (bheight (Nd c l x r))" "compat c path"
    using assms(1) unfolding t [symmetric] rb_tree_plug by auto
  have ord: "inorder t = before path @ inorder l @ x # inorder r @ after path"
    unfolding t [symmetric] by simp
  consider (one) temp where "l = Sentinel \<and> temp = r \<or> r = Sentinel \<and> temp = l"
      "rbtree_delete x t = delete_splice c temp path"
    | (two) "l \<noteq> Sentinel" "r \<noteq> Sentinel"
    using loc by (cases "l = Sentinel"; cases "r = Sentinel") (auto simp: rbtree_delete_def)
  then show ?thesis
  proof cases
    case one
    then obtain u where u: "delete_splice c temp path = Some u" "rb_tree u"
      using delete_splice_ok [OF inv(1,2)] by blast
    from u(1) have "inorder u = before path @ inorder temp @ after path"
      by (rule delete_splice_inorder)
    with u one ord show ?thesis
      by (intro exI [of _ u] exI [of _ "before path @ inorder l"] exI [of _ "inorder r @ after path"]) auto
  next
    case two
    obtain sc y sr q where m: "rbtree_min r [] = (Nd sc Sentinel y sr, q)"
      and r: "plug (Nd sc Sentinel y sr) q = r" and bq: "before q = []"
      using rbtree_min_spine [OF two(2), of "[]"] by auto
    let ?path = "q @ InRight c l y # path"
    have del: "rbtree_delete x t = delete_splice sc sr ?path"
      using loc two m by (simp add: rbtree_delete_def)
    have "rb_tree (plug (Nd sc Sentinel y sr) (q @ InRight c l x # path))"
      using assms(1) t r by simp
    then have "rb_inv (Nd sc Sentinel y sr)" "path_inv ?path (bheight (Nd sc Sentinel y sr))"
      unfolding rb_tree_plug using path_inv_relabel [of q c l x path _ y] by auto
    from delete_splice_ok [OF this, of sr]
    obtain u where u: "delete_splice sc sr ?path = Some u" "rb_tree u" by auto
    from u(1) have "inorder u = before path @ inorder l @ y # inorder sr @ after q @ after path"
      using delete_splice_inorder [OF u(1)] bq by simp
    moreover have "inorder r = y # inorder sr @ after q" using bq unfolding r [symmetric] by simp
    ultimately show ?thesis using u del ord
      by (intro exI [of _ u] exI [of _ "before path @ inorder l"] exI [of _ "inorder r @ after path"]) auto
  qed
qed

subsection \<open>Searching\<close>

text \<open>The search loop of the tree's clients: \<open>cmp y\<close> is the sign of the comparison of the sought
  key with node \<open>y\<close>.\<close>

fun rbtree_find :: "('a \<Rightarrow> int) \<Rightarrow> 'a rbt \<Rightarrow> 'a option" where
  "rbtree_find cmp Sentinel = None"
| "rbtree_find cmp (Nd _ l y r) =
     (if cmp y < 0 then rbtree_find cmp l
      else if cmp y > 0 then rbtree_find cmp r
      else Some y)"

lemma find_append: "List.find P (xs @ ys) = (case List.find P xs of None \<Rightarrow> List.find P ys | Some x \<Rightarrow> Some x)"
  by (induction xs) auto

lemma rbtree_find_list:
  assumes "sorted_wrt (\<lambda>y z. cmp y \<le> 0 \<longrightarrow> cmp z < (0 :: int)) (inorder t)"
  shows "rbtree_find cmp t = List.find (\<lambda>y. cmp y = 0) (inorder t)"
  using assms
proof (induction t)
  case (Nd c l y r)
  have "List.find (\<lambda>y. cmp y = 0) (inorder r) = None" if "cmp y \<le> 0"
    using Nd.prems that by (force simp: find_None_iff sorted_wrt_append)
  moreover have "List.find (\<lambda>y. cmp y = 0) (inorder l) = None" if "\<not> cmp y < 0"
    using Nd.prems that by (force simp: find_None_iff sorted_wrt_append)
  ultimately show ?case
    using Nd by (auto simp: find_append sorted_wrt_append split: option.splits)
qed simp

text \<open>The descent ends between the nodes that stay left and those that stay right.\<close>

lemma insert_pos_split:
  assumes "sorted_wrt (\<lambda>y z. gl y \<longrightarrow> gl z) (inorder t)"
  shows "before (insert_pos gl t p) = before p @ filter (\<lambda>y. \<not> gl y) (inorder t) \<and>
         after (insert_pos gl t p) = filter gl (inorder t) @ after p"
  using assms
proof (induction gl t p rule: insert_pos.induct)
  case (2 gl c l y r p)
  have r: "filter gl (inorder r) = inorder r" "filter (\<lambda>y. \<not> gl y) (inorder r) = []" if "gl y"
    using "2.prems" that by (auto simp: sorted_wrt_append filter_empty_conv filter_id_conv)
  have l: "filter gl (inorder l) = []" "filter (\<lambda>y. \<not> gl y) (inorder l) = inorder l" if "\<not> gl y"
    using "2.prems" that by (auto simp: sorted_wrt_append filter_empty_conv filter_id_conv)
  show ?case using 2 r l by (cases "gl y") (auto simp: sorted_wrt_append)
qed auto

subsection \<open>The contract of an ordered index\<close>

text \<open>
  What a client may rely on: insertion puts the node between those on its left and those on its
  right, deletion takes out exactly the node, search finds the node that compares equal. The
  client's view, a set of nodes ordered by a key, follows.
\<close>

definition sorted_by :: "('a \<Rightarrow> 'k::linorder) \<Rightarrow> 'a list \<Rightarrow> bool" where
  "sorted_by k xs \<longleftrightarrow> sorted_wrt (<) (map k xs)"

lemma sorted_by_wrt: "sorted_by k xs \<longleftrightarrow> sorted_wrt (\<lambda>y z. k y < k z) xs"
  by (simp add: sorted_by_def sorted_wrt_map)

lemma sorted_by_inj:
  assumes "sorted_by k xs" "a \<in> set xs" "b \<in> set xs" "k a = k b"
  shows "a = b"
  using assms by (metis sorted_by_def distinct_map inj_onD strict_sorted_iff)

lemma sorted_by_distinct: "sorted_by k xs \<Longrightarrow> distinct xs"
  by (metis sorted_by_def distinct_map strict_sorted_iff)

lemma sorted_by_cong: "(\<And>x. x \<in> set xs \<Longrightarrow> k x = k' x) \<Longrightarrow> sorted_by k xs = sorted_by k' xs"
  by (simp add: sorted_by_def cong: map_cong)

locale ordered_index =
  fixes ins :: "('a \<Rightarrow> bool) \<Rightarrow> 'a \<Rightarrow> 't \<Rightarrow> 't option"
    and del :: "'a \<Rightarrow> 't \<Rightarrow> 't option"
    and find :: "('a \<Rightarrow> int) \<Rightarrow> 't \<Rightarrow> 'a option"
    and content :: "'t \<Rightarrow> 'a list"
    and ok :: "'t \<Rightarrow> bool"
  assumes ins_law: "ok t \<Longrightarrow> sorted_wrt (\<lambda>y z. gl y \<longrightarrow> gl z) (content t) \<Longrightarrow>
      \<exists>u. ins gl x t = Some u \<and> ok u \<and>
          content u = filter (\<lambda>y. \<not> gl y) (content t) @ x # filter gl (content t)"
    and del_law: "ok t \<Longrightarrow> distinct (content t) \<Longrightarrow> x \<in> set (content t) \<Longrightarrow>
      \<exists>u. del x t = Some u \<and> ok u \<and> content u = filter (\<lambda>y. y \<noteq> x) (content t)"
    and find_law: "sorted_wrt (\<lambda>y z. cmp y \<le> 0 \<longrightarrow> cmp z < 0) (content t) \<Longrightarrow>
      find cmp t = List.find (\<lambda>y. cmp y = 0) (content t)"
begin

lemma ordered_insert:
  assumes "ok t" "sorted_by k (content t)" "k x \<notin> k ` set (content t)"
  shows "\<exists>u. ins (\<lambda>y. k x < k y) x t = Some u \<and> ok u \<and> sorted_by k (content u) \<and>
             set (content u) = insert x (set (content t))"
proof -
  have srt: "sorted_wrt (\<lambda>y z. k y < k z) (content t)"
    using assms(2) by (simp add: sorted_by_wrt)
  then have mono: "sorted_wrt (\<lambda>y z. k x < k y \<longrightarrow> k x < k z) (content t)"
    by (rule sorted_wrt_mono_rel [rotated]) auto
  obtain u where u: "ins (\<lambda>y. k x < k y) x t = Some u" "ok u"
    "content u = filter (\<lambda>y. \<not> k x < k y) (content t) @ x # filter (\<lambda>y. k x < k y) (content t)"
    using ins_law [OF \<open>ok t\<close> mono] by blast
  have "k y < k x" if "y \<in> set (content t)" "\<not> k x < k y" for y
    using that assms(3) by (metis image_eqI linorder_cases)
  then have "sorted_wrt (\<lambda>y z. k y < k z) (content u)"
    unfolding u(3) using srt by (fastforce simp: sorted_wrt_append sorted_wrt_filter)
  then show ?thesis using u by (auto simp: sorted_by_wrt)
qed

lemma ordered_delete:
  assumes "ok t" "sorted_by k (content t)" "x \<in> set (content t)"
  shows "\<exists>u. del x t = Some u \<and> ok u \<and> sorted_by k (content u) \<and> set (content u) = set (content t) - {x}"
proof -
  obtain u where "del x t = Some u" "ok u" "content u = filter (\<lambda>y. y \<noteq> x) (content t)"
    using del_law [OF assms(1) sorted_by_distinct [OF assms(2)] assms(3)] by auto
  then show ?thesis using assms by (auto simp: sorted_by_wrt sorted_wrt_filter)
qed

lemma ordered_find:
  assumes t: "sorted_by k (content t)"
    and cmp: "\<And>y. y \<in> set (content t) \<Longrightarrow> cmp y < (0 :: int) \<longleftrightarrow> v < k y"
      "\<And>y. y \<in> set (content t) \<Longrightarrow> cmp y = 0 \<longleftrightarrow> k y = v"
  shows ordered_find_Some: "find cmp t = Some a \<longleftrightarrow> a \<in> set (content t) \<and> k a = v"
    and ordered_find_None: "find cmp t = None \<longleftrightarrow> v \<notin> k ` set (content t)"
proof -
  have "sorted_wrt (\<lambda>y z. k y < k z) (content t)" using t by (simp add: sorted_by_wrt)
  then have "sorted_wrt (\<lambda>y z. cmp y \<le> 0 \<longrightarrow> cmp z < 0) (content t)"
    by (rule sorted_wrt_mono_rel [rotated]) (use cmp in \<open>force simp: le_less\<close>)
  then have f: "find cmp t = List.find (\<lambda>y. cmp y = 0) (content t)" by (rule find_law)
  have found: "b \<in> set (content t) \<and> k b = v" if "find cmp t = Some b" for b
    using that cmp(2) unfolding f by (auto simp: find_Some_iff)
  show none: "find cmp t = None \<longleftrightarrow> v \<notin> k ` set (content t)"
    unfolding f using cmp(2) by (auto simp: find_None_iff)
  show "find cmp t = Some a \<longleftrightarrow> a \<in> set (content t) \<and> k a = v"
  proof
    assume a: "a \<in> set (content t) \<and> k a = v"
    then obtain b where "find cmp t = Some b" using none by auto
    then show "find cmp t = Some a" using a found sorted_by_inj [OF t] by metis
  qed (rule found)
qed

end

interpretation rbt: ordered_index rbtree_insert rbtree_delete rbtree_find inorder rb_tree
proof
  fix t :: "'a rbt" and gl x
  assume t: "rb_tree t" "sorted_wrt (\<lambda>y z. gl y \<longrightarrow> gl z) (inorder t)"
  from rbtree_insert_rb_tree [OF t(1), of gl x]
  obtain u where u: "rbtree_insert gl x t = Some u" "rb_tree u" by (elim exE conjE)
  then show "\<exists>u. rbtree_insert gl x t = Some u \<and> rb_tree u \<and>
      inorder u = filter (\<lambda>y. \<not> gl y) (inorder t) @ x # filter gl (inorder t)"
    using rbtree_insert_inorder [OF u(1)] insert_pos_split [OF t(2), of "[]"] by auto
next
  fix t :: "'a rbt" and x
  assume t: "rb_tree t" "distinct (inorder t)" "x \<in> set (inorder t)"
  from rbtree_delete_ok [OF t(1,3)] obtain u xs ys where
    u: "rbtree_delete x t = Some u" "rb_tree u" "inorder t = xs @ x # ys" "inorder u = xs @ ys"
    by blast
  with t have "filter (\<lambda>y. y \<noteq> x) (inorder t) = xs @ ys" by auto
  with u show "\<exists>u. rbtree_delete x t = Some u \<and> rb_tree u \<and> inorder u = filter (\<lambda>y. y \<noteq> x) (inorder t)"
    by metis
qed (rule rbtree_find_list)

subsection \<open>Properties of the tree\<close>

fun height :: "'a rbt \<Rightarrow> nat" where
  "height Sentinel = 0"
| "height (Nd _ l _ r) = Suc (max (height l) (height r))"

lemma bheight_size: "rb_inv t \<Longrightarrow> 2 ^ bheight t \<le> length (inorder t) + 1"
  by (induction t) auto

lemma height_bheight:
  "rb_inv t \<Longrightarrow> height t \<le> 2 * bheight t + (if is_red t then 1 else 0)"
proof (induction t)
  case (Nd c l x r)
  then show ?case by (cases c; cases "tcol l"; cases "tcol r") auto
qed simp

text \<open>
  C28: on a valid tree whose nodes are ordered by a key, inserting a node with a new key returns
  (no rotation ever follows a missing node), gives a valid red-black tree again, ordered by the
  same key, and its nodes are the old ones and the new one.
\<close>

theorem rbtree_insert_correct:
  assumes "rb_tree t" "sorted_by k (inorder t)" "k x \<notin> k ` set (inorder t)"
  shows "\<exists>u. rbtree_insert (\<lambda>y. k x < k y) x t = Some u \<and> rb_tree u \<and> sorted_by k (inorder u) \<and>
             set (inorder u) = insert x (set (inorder t))"
  using assms by (rule rbt.ordered_insert)

theorem rbtree_insert_correct_witness:
  "\<exists>u. rbtree_insert (\<lambda>y. (2 :: nat) < y) 2
         (Nd Black (Nd Red Sentinel 1 Sentinel) (3 :: nat) (Nd Red Sentinel 4 Sentinel)) = Some u
     \<and> rb_tree u \<and> sorted_by (\<lambda>y. y) (inorder u) \<and> set (inorder u) = insert 2 {1, 3, 4}"
  using rbtree_insert_correct [of "Nd Black (Nd Red Sentinel 1 Sentinel) (3 :: nat) (Nd Red Sentinel 4 Sentinel)"
      "\<lambda>y. y" 2]
  by (simp add: rb_tree_def sorted_by_def)

text \<open>
  C29: deleting any node of a valid tree returns (the fixup loop never dereferences the sentinel's
  children), gives a valid red-black tree, and removes that node and no other from the order.
\<close>

theorem rbtree_delete_correct:
  assumes "rb_tree t" "x \<in> set (inorder t)"
  shows "\<exists>u xs ys. rbtree_delete x t = Some u \<and> rb_tree u \<and>
           inorder t = xs @ x # ys \<and> inorder u = xs @ ys"
  using assms by (rule rbtree_delete_ok)

theorem rbtree_delete_correct_witness:
  "\<exists>u xs ys. rbtree_delete (3 :: nat)
       (Nd Black (Nd Black Sentinel 1 Sentinel) 3 (Nd Black Sentinel 4 Sentinel)) = Some u
     \<and> rb_tree u \<and> [1, 3, 4] = xs @ 3 # ys \<and> inorder u = xs @ ys"
  using rbtree_delete_correct [of "Nd Black (Nd Black Sentinel 1 Sentinel) 3 (Nd Black Sentinel 4 Sentinel)" "3 :: nat"]
  by (simp add: rb_tree_def)

text \<open>
  A search of a valid tree with \<open>n\<close> nodes takes at most \<open>2 * log2 (n + 1)\<close> steps: the height
  of the tree is bounded.
\<close>

theorem rbtree_height_log:
  assumes "rb_tree t"
  shows "height t \<le> 2 * bheight t \<and> 2 ^ bheight t \<le> length (inorder t) + 1"
  using assms height_bheight [of t] bheight_size [of t] by (auto simp: rb_tree_def)

end
