(* ===== verification/Shdict_Key.thy ===== *)
theory Shdict_Key
  imports Prelude "HOL-Library.List_Lexorder" "HOL-Library.Char_ord" "HOL-Library.Product_Lexorder"
begin

section \<open>Keys of the shared dictionary: hash and order\<close>

text \<open>
  \<open>ngx_crc32_short\<close> (ngx\_crc32.h, with the nibble table of ngx\_crc32.c) hashes a key,
  \<open>ngx_memn2cmp\<close> (ngx\_string.c) orders keys of equal hash. The hash is shown to be CRC-32 and
  the comparison to be the lexicographic order of byte strings.
\<close>

subsection \<open>The hash\<close>

definition ngx_crc32_table16 :: "32 word list" where
  "ngx_crc32_table16 = [
    0x00000000, 0x1db71064, 0x3b6e20c8, 0x26d930ac,
    0x76dc4190, 0x6b6b51f4, 0x4db26158, 0x5005713c,
    0xedb88320, 0xf00f9344, 0xd6d6a3e8, 0xcb61b38c,
    0x9b64c2b0, 0x86d3d2d4, 0xa00ae278, 0xbdbdf21c]"

definition crc32_byte :: "32 word \<Rightarrow> char \<Rightarrow> 32 word" where
  "crc32_byte crc c =
     (let c = (of_char c :: 32 word);
          crc = ngx_crc32_table16 ! unat ((crc XOR (c AND 0xf)) AND 0xf) XOR drop_bit 4 crc
      in ngx_crc32_table16 ! unat ((crc XOR drop_bit 4 c) AND 0xf) XOR drop_bit 4 crc)"

fun crc32_loop :: "32 word \<Rightarrow> bytes \<Rightarrow> 32 word" where
  "crc32_loop crc [] = crc"
| "crc32_loop crc (c # p) = crc32_loop (crc32_byte crc c) p"

definition ngx_crc32_short :: "bytes \<Rightarrow> 32 word" where
  "ngx_crc32_short p = crc32_loop 0xffffffff p XOR 0xffffffff"

text \<open>The reference: reflected polynomial division by \<open>0xEDB88320\<close>, bit by bit.\<close>

definition crc32_bit :: "32 word \<Rightarrow> 32 word" where
  "crc32_bit x = (if bit x 0 then drop_bit 1 x XOR 0xEDB88320 else drop_bit 1 x)"

definition crc32_ref :: "bytes \<Rightarrow> 32 word" where
  "crc32_ref p = fold (\<lambda>c crc. (crc32_bit ^^ 8) (crc XOR of_char c)) p (NOT 0) XOR NOT 0"

lemma crc32_bit_xor: "crc32_bit (x XOR y) = crc32_bit x XOR crc32_bit y"
  by (rule bit_word_eqI) (auto simp: crc32_bit_def bit_simps)

lemma crc32_bits_xor: "(crc32_bit ^^ n) (x XOR y) = (crc32_bit ^^ n) x XOR (crc32_bit ^^ n) y"
  by (induction n) (simp_all add: crc32_bit_xor)

lemma crc32_bits_high:
  assumes "\<And>i. i < n \<Longrightarrow> \<not> bit x i"
  shows "(crc32_bit ^^ n) x = drop_bit n x"
  using assms
proof (induction n arbitrary: x)
  case (Suc n)
  have b: "crc32_bit x = drop_bit 1 x" using Suc.prems [of 0] by (simp add: crc32_bit_def)
  have "(crc32_bit ^^ n) (drop_bit 1 x) = drop_bit n (drop_bit 1 x)"
    by (rule Suc.IH) (use Suc.prems in \<open>auto simp: bit_simps\<close>)
  then show ?case by (simp add: funpow_swap1 b)
qed simp

lemma crc32_table_map: "ngx_crc32_table16 = map (\<lambda>n. (crc32_bit ^^ 4) (word_of_nat n)) [0..<16]"
proof -
  have 4: "(crc32_bit ^^ 4) x = crc32_bit (crc32_bit (crc32_bit (crc32_bit x)))" for x
    by (simp add: numeral_eq_Suc)
  show ?thesis
    unfolding 4 by (simp add: ngx_crc32_table16_def upt_conv_Cons crc32_bit_def)
qed

lemma crc32_table_nth: "n < 16 \<Longrightarrow> ngx_crc32_table16 ! n = (crc32_bit ^^ 4) (word_of_nat n)"
  by (simp add: crc32_table_map)

lemma nibble_mask: "(0xf :: 32 word) = mask 4"
  by (simp add: mask_eq_exp_minus_1)

lemma and_15_small: "unat ((x :: 32 word) AND 0xf) < 16"
proof -
  have "x AND 0xf = take_bit 4 x" by (simp add: take_bit_eq_mask mask_eq_exp_minus_1)
  then have "unat (x AND 0xf) = take_bit 4 (unat x)" by (simp add: unsigned_take_bit_eq)
  then show ?thesis using take_bit_nat_less_exp [of 4 "unat x"] by simp
qed

text \<open>One lookup is four bits of the division.\<close>

lemma crc32_nibble: "ngx_crc32_table16 ! unat (x AND 0xf) XOR drop_bit 4 x = (crc32_bit ^^ 4) x"
proof -
  have "(crc32_bit ^^ 4) x = (crc32_bit ^^ 4) ((x AND 0xf) XOR (x AND NOT 0xf))"
    by (rule arg_cong [of _ _ "crc32_bit ^^ 4"], rule bit_word_eqI) (auto simp: bit_simps)
  also have "\<dots> = (crc32_bit ^^ 4) (x AND 0xf) XOR drop_bit 4 (x AND NOT 0xf)"
  proof -
    have "(crc32_bit ^^ 4) (x AND NOT 0xf) = drop_bit 4 (x AND NOT 0xf)"
      unfolding nibble_mask by (intro crc32_bits_high) (simp add: bit_simps)
    then show ?thesis by (simp add: crc32_bits_xor)
  qed
  also have "(crc32_bit ^^ 4) (x AND 0xf) = ngx_crc32_table16 ! unat (x AND 0xf)"
    using crc32_table_nth [OF and_15_small, of x] by simp
  also have "drop_bit 4 (x AND NOT 0xf) = drop_bit 4 x"
    unfolding nibble_mask by (intro bit_word_eqI) (auto simp: bit_simps dest: bit_imp_le_length)
  finally show ?thesis by simp
qed

lemma crc32_byte_eq: "crc32_byte crc c = (crc32_bit ^^ 8) (crc XOR of_char c)"
proof -
  define v :: "32 word" where "v = of_char c"
  have v: "bit v n \<Longrightarrow> n < 8" for n
    by (auto simp: v_def bit_of_char_word dest: bit_of_char_nat)
  define x where "x = crc XOR (v AND 0xf)"
  define y where "y = (crc32_bit ^^ 4) x XOR drop_bit 4 v"
  have "drop_bit 4 crc = drop_bit 4 x"
    unfolding x_def nibble_mask by (rule bit_word_eqI) (auto simp: bit_simps)
  then have 1: "ngx_crc32_table16 ! unat (x AND 0xf) XOR drop_bit 4 crc = (crc32_bit ^^ 4) x"
    by (simp add: crc32_nibble)
  have "drop_bit 4 ((crc32_bit ^^ 4) x) = drop_bit 4 y"
    unfolding y_def by (rule bit_word_eqI) (auto simp: bit_simps dest: v)
  then have "ngx_crc32_table16 ! unat (y AND 0xf) XOR drop_bit 4 ((crc32_bit ^^ 4) x) = (crc32_bit ^^ 4) y"
    by (simp add: crc32_nibble)
  then have "crc32_byte crc c = (crc32_bit ^^ 4) y"
    unfolding crc32_byte_def Let_def v_def [symmetric] x_def [symmetric] 1 y_def [symmetric] .
  also have "drop_bit 4 v = (crc32_bit ^^ 4) (v AND NOT 0xf)"
  proof -
    have "drop_bit 4 (v AND NOT 0xf) = drop_bit 4 v"
      unfolding nibble_mask by (intro bit_word_eqI) (auto simp: bit_simps dest: bit_imp_le_length)
    moreover have "(crc32_bit ^^ 4) (v AND NOT 0xf) = drop_bit 4 (v AND NOT 0xf)"
      unfolding nibble_mask by (intro crc32_bits_high) (simp add: bit_simps)
    ultimately show ?thesis by simp
  qed
  then have "y = (crc32_bit ^^ 4) (x XOR (v AND NOT 0xf))"
    by (simp add: y_def crc32_bits_xor)
  also have "x XOR (v AND NOT 0xf) = crc XOR v"
    unfolding x_def by (rule bit_word_eqI) (auto simp: bit_simps)
  also have "(crc32_bit ^^ 4) ((crc32_bit ^^ 4) (crc XOR v)) = (crc32_bit ^^ 8) (crc XOR v)"
    by (simp flip: funpow_add [unfolded o_def fun_eq_iff, rule_format])
  finally show ?thesis by (simp add: v_def)
qed

lemma crc32_loop_fold: "crc32_loop crc p = fold (\<lambda>c crc. (crc32_bit ^^ 8) (crc XOR of_char c)) p crc"
  by (induction p arbitrary: crc) (simp_all add: crc32_byte_eq)

subsection \<open>The order of keys\<close>

fun ngx_memcmp :: "bytes \<Rightarrow> bytes \<Rightarrow> nat \<Rightarrow> int" where
  "ngx_memcmp s1 s2 0 = 0"
| "ngx_memcmp (a # s1) (b # s2) (Suc n) =
     (if a = b then ngx_memcmp s1 s2 n else if (of_char a :: nat) < of_char b then -1 else 1)"
| "ngx_memcmp s1 s2 (Suc n) = 0"

definition ngx_memn2cmp :: "bytes \<Rightarrow> bytes \<Rightarrow> int" where
  "ngx_memn2cmp s1 s2 =
     (let n1 = length s1; n2 = length s2;
          (n, z) = (if n1 \<le> n2 then (n1, -1) else (n2, 1));
          m = ngx_memcmp s1 s2 n
      in if m \<noteq> 0 \<or> n1 = n2 then m else z)"

lemma ngx_memn2cmp_simps [simp]:
  "ngx_memn2cmp [] [] = 0"
  "ngx_memn2cmp [] (b # t) = -1"
  "ngx_memn2cmp (a # s) [] = 1"
  "ngx_memn2cmp (a # s) (b # t) =
     (if a = b then ngx_memn2cmp s t else if (of_char a :: nat) < of_char b then -1 else 1)"
  by (auto simp: ngx_memn2cmp_def Let_def)

lemma ngx_memn2cmp_eq_0 [simp]: "ngx_memn2cmp s t = 0 \<longleftrightarrow> s = t"
  by (induction s t rule: list_induct2') auto

lemma ngx_memn2cmp_neg [simp]: "ngx_memn2cmp s t < 0 \<longleftrightarrow> s < t"
  by (induction s t rule: list_induct2') (auto simp: less_char_def)

subsection \<open>Properties\<close>

text \<open>
  \<open>ngx_crc32_short\<close> with its sixteen-entry table computes the standard CRC-32 of the bytes.
\<close>

theorem ngx_crc32_short_is_crc32: "ngx_crc32_short p = crc32_ref p"
proof -
  have "(0xffffffff :: 32 word) = NOT 0" by simp
  then show ?thesis unfolding ngx_crc32_short_def crc32_ref_def crc32_loop_fold by (simp only:)
qed

text \<open>
  \<open>ngx_memn2cmp\<close> is a three-way comparison for the lexicographic order of byte strings: zero
  exactly on equal strings, negative exactly when the first is smaller, and antisymmetric.
\<close>

theorem ngx_memn2cmp_lexicographic:
  "(ngx_memn2cmp s t < 0 \<longleftrightarrow> s < t) \<and> (ngx_memn2cmp s t = 0 \<longleftrightarrow> s = t) \<and>
   (ngx_memn2cmp s t > 0 \<longleftrightarrow> t < s)"
proof -
  have "ngx_memn2cmp s t > 0 \<longleftrightarrow> \<not> ngx_memn2cmp s t < 0 \<and> ngx_memn2cmp s t \<noteq> 0" by linarith
  then show ?thesis by (simp, metis linorder_neqE order_less_asym)
qed

end
