(* ===== verification/Shdict.thy ===== *)
theory Shdict
  imports Rbtree Shdict_Key
begin

section \<open>The shared dictionary (ngx\_stream\_lua\_shdict.c): the zone and its internal operations\<close>

text \<open>
  A zone keeps its nodes in a red-black tree ordered by hash and key and in a queue, most recently
  used first. A node is a block of shared memory: \<open>mem\<close> maps the live blocks to their contents.
  The slab allocator (ngx\_slab.c) is a parameter: it decides from the pool whether a request
  succeeds. Blocks are named by a counter, so a freed name is not used again.

  Every handler runs between \<open>ngx_shmtx_lock\<close> and \<open>ngx_shmtx_unlock\<close>, so it is one atomic step of
  the zone. \<open>None\<close> is a dereference of a pointer that is not a live node.
\<close>

subsection \<open>State\<close>

record node =
  n_hash :: "32 word"
  key_len :: "16 word"
  expires :: "64 word"
  value_type :: "8 word"
  value_len :: "32 word"
  user_flags :: "32 word"
  node_data :: bytes

record 'p shctx =
  rbtree :: "nat rbt"
  queue :: "nat list"
  mem :: "nat \<rightharpoonup> node"
  next_block :: nat
  shpool :: 'p

text \<open>What a handler reads from its environment: the allocator and the cached time in
  milliseconds.\<close>

record 'p shenv =
  slab_alloc :: "'p \<Rightarrow> nat \<Rightarrow> nat \<Rightarrow> 'p option"
  slab_free :: "'p \<Rightarrow> nat \<Rightarrow> 'p"
  now :: "64 word"

definition node_key :: "node \<Rightarrow> bytes" where
  "node_key sd = take (unat (key_len sd)) (node_data sd)"

definition node_val :: "node \<Rightarrow> bytes" where
  "node_val sd = take (unat (value_len sd)) (drop (unat (key_len sd)) (node_data sd))"

text \<open>\<open>ngx_queue_remove\<close> unlinks the node, wherever it is.\<close>

definition queue_remove :: "nat \<Rightarrow> nat list \<Rightarrow> nat list" where
  "queue_remove a q = filter (\<lambda>b. b \<noteq> a) q"

definition init_zone :: "'p \<Rightarrow> 'p shctx" where
  "init_zone p = \<lparr>rbtree = Sentinel, queue = [], mem = Map.empty, next_block = 0, shpool = p\<rparr>"

subsection \<open>Index\<close>

definition rbtree_insert_value :: "(nat \<rightharpoonup> node) \<Rightarrow> nat \<Rightarrow> nat \<Rightarrow> bool" where
  "rbtree_insert_value m nd temp =
     (let sdn = the (m nd); sdnt = the (m temp)
      in if n_hash sdn < n_hash sdnt then True
         else if n_hash sdn > n_hash sdnt then False
         else ngx_memn2cmp (node_key sdn) (node_key sdnt) < 0)"

definition lookup_cmp :: "(nat \<rightharpoonup> node) \<Rightarrow> 32 word \<Rightarrow> bytes \<Rightarrow> nat \<Rightarrow> int" where
  "lookup_cmp m hash kdata nd =
     (let sd = the (m nd)
      in if hash < n_hash sd then -1
         else if hash > n_hash sd then 1
         else ngx_memn2cmp kdata (node_key sd))"

definition has_expired :: "64 word \<Rightarrow> node \<Rightarrow> bool" where
  "has_expired t sd \<longleftrightarrow> expires sd \<noteq> 0 \<and> sint (expires sd - t) < 0"

definition shdict_lookup ::
  "'p shenv \<Rightarrow> 'p shctx \<Rightarrow> 32 word \<Rightarrow> bytes \<Rightarrow> ngx_rc \<times> nat option \<times> 'p shctx" where
  "shdict_lookup env s hash kdata =
     (case rbtree_find (lookup_cmp (mem s) hash kdata) (rbtree s) of
        None \<Rightarrow> (NGX_DECLINED, None, s)
      | Some a \<Rightarrow>
          (let s' = s\<lparr>queue := a # queue_remove a (queue s)\<rparr>
           in if has_expired (now env) (the (mem s a)) then (NGX_DONE, Some a, s')
              else (NGX_OK, Some a, s')))"

subsection \<open>Unlinking and eviction\<close>

text \<open>\<open>ngx_queue_remove\<close>, \<open>ngx_rbtree_delete\<close>, \<open>ngx_slab_free_locked\<close>: the sequence every removal
  goes through.\<close>

definition free_node :: "'p shenv \<Rightarrow> nat \<Rightarrow> 'p shctx \<Rightarrow> 'p shctx option" where
  "free_node env a s = do {
     t \<leftarrow> rbtree_delete a (rbtree s);
     Some (s\<lparr>queue := queue_remove a (queue s), rbtree := t, mem := (mem s)(a := None),
             shpool := slab_free env (shpool s) a\<rparr>)
   }"

function shdict_expire :: "'p shenv \<Rightarrow> nat \<Rightarrow> nat \<Rightarrow> 'p shctx \<Rightarrow> (nat \<times> 'p shctx) option" where
  "shdict_expire env n freed s =
     (if \<not> n < 3 then Some (freed, s)
      else if queue s = [] then Some (freed, s)
      else let a = last (queue s); sd = the (mem s a)
           in if n \<noteq> 0 \<and> (expires sd = 0 \<or> sint (expires sd - now env) > 0) then Some (freed, s)
              else case free_node env a s of
                     None \<Rightarrow> None
                   | Some s' \<Rightarrow> shdict_expire env (n + 1) (freed + 1) s')"
  by pat_completeness auto
termination by (relation "measure (\<lambda>(env, n, freed, s). 3 - n)") auto

declare shdict_expire.simps [simp del]

subsection \<open>Storing\<close>

text \<open>The fields a store writes, the same when a block is reused and when it is new.\<close>

definition write_node :: "32 word \<Rightarrow> bytes \<Rightarrow> nat \<Rightarrow> bytes \<Rightarrow> 64 word \<Rightarrow> 32 word \<Rightarrow> node" where
  "write_node hash key vtype v exp uflags =
     \<lparr>n_hash = hash, key_len = word_of_nat (length key), expires = exp,
      value_type = word_of_nat vtype, value_len = word_of_nat (length v),
      user_flags = uflags, node_data = key @ v\<rparr>"

definition reuse_node :: "nat \<Rightarrow> bytes \<Rightarrow> nat \<Rightarrow> bytes \<Rightarrow> 64 word \<Rightarrow> 32 word \<Rightarrow> 'p shctx \<Rightarrow> 'p shctx" where
  "reuse_node a key vtype v exp uflags s =
     (let sd = the (mem s a)
      in s\<lparr>queue := a # queue_remove a (queue s),
           mem := (mem s)(a \<mapsto> write_node (n_hash sd) key vtype v exp uflags)\<rparr>)"

text \<open>The size is computed in an \<open>int\<close> and passed as a \<open>size_t\<close>; the two headers take 32 and 44
  bytes.\<close>

definition node_size :: "bytes \<Rightarrow> bytes \<Rightarrow> nat" where
  "node_size key v = unat (word_of_int (int32 (int (32 + 44 + length key + length v))) :: 64 word)"

definition alloc_node :: "'p shenv \<Rightarrow> nat \<Rightarrow> 'p shctx \<Rightarrow> (nat \<times> 'p shctx) option" where
  "alloc_node env n s =
     (case slab_alloc env (shpool s) (next_block s) n of
        None \<Rightarrow> None
      | Some p \<Rightarrow> Some (next_block s, s\<lparr>shpool := p, next_block := next_block s + 1\<rparr>))"

text \<open>Up to 30 rounds of eviction; the flag tells whether any entry was evicted.\<close>

fun evict_alloc ::
  "'p shenv \<Rightarrow> nat \<Rightarrow> nat \<Rightarrow> bool \<Rightarrow> 'p shctx \<Rightarrow> (nat option \<times> bool \<times> 'p shctx) option" where
  "evict_alloc env n 0 forcible s = Some (None, forcible, s)"
| "evict_alloc env n (Suc i) forcible s =
     (case shdict_expire env 0 0 s of
        None \<Rightarrow> None
      | Some (freed, s') \<Rightarrow>
          (if freed = 0 then Some (None, forcible, s')
           else case alloc_node env n s' of
                  Some (a, s'') \<Rightarrow> Some (Some a, True, s'')
                | None \<Rightarrow> evict_alloc env n i True s'))"

definition link_node :: "nat \<Rightarrow> node \<Rightarrow> 'p shctx \<Rightarrow> 'p shctx option" where
  "link_node a sd s =
     (let m = (mem s)(a \<mapsto> sd)
      in do {
        t \<leftarrow> rbtree_insert (rbtree_insert_value m a) a (rbtree s);
        Some (s\<lparr>mem := m, rbtree := t, queue := a # queue s\<rparr>)
      })"

subsection \<open>Invariant and abstraction\<close>

definition node_ord :: "node \<Rightarrow> 32 word \<times> bytes" where
  "node_ord sd = (n_hash sd, node_key sd)"

text \<open>A node as a store leaves it: the hash of its key, exactly the bytes of key and value, and a
  size that fits the type tag (\<open>LUA_TBOOLEAN\<close> 1, \<open>LUA_TNUMBER\<close> 3, \<open>LUA_TSTRING\<close> 4).\<close>

definition node_wf :: "node \<Rightarrow> bool" where
  "node_wf sd \<longleftrightarrow>
     n_hash sd = ngx_crc32_short (node_key sd) \<and>
     length (node_data sd) = unat (key_len sd) + unat (value_len sd) \<and>
     (value_type sd = 1 \<and> value_len sd = 1 \<or> value_type sd = 3 \<and> value_len sd = 8 \<or> value_type sd = 4)"

definition shd_inv :: "'p shctx \<Rightarrow> bool" where
  "shd_inv s \<longleftrightarrow>
     rb_tree (rbtree s) \<and> sorted_by (\<lambda>a. node_ord (the (mem s a))) (inorder (rbtree s)) \<and>
     set (inorder (rbtree s)) = dom (mem s) \<and>
     distinct (queue s) \<and> set (queue s) = dom (mem s) \<and>
     (\<forall>a sd. mem s a = Some sd \<longrightarrow> a < next_block s \<and> node_wf sd)"

text \<open>What the zone means: its nodes, most recently used first. Tree, addresses and allocator are
  gone.\<close>

definition nodes :: "'p shctx \<Rightarrow> node list" where
  "nodes s = map (\<lambda>a. the (mem s a)) (queue s)"

lemma shd_invD:
  assumes "shd_inv s"
  shows "rb_tree (rbtree s)" "sorted_by (\<lambda>a. node_ord (the (mem s a))) (inorder (rbtree s))"
    "set (inorder (rbtree s)) = dom (mem s)" "distinct (queue s)" "set (queue s) = dom (mem s)"
    "\<And>a. a \<in> dom (mem s) \<Longrightarrow> a < next_block s" "\<And>a. a \<in> dom (mem s) \<Longrightarrow> node_wf (the (mem s a))"
  using assms by (auto simp: shd_inv_def)

lemma live_nodes_wf: "shd_inv s \<Longrightarrow> sd \<in> set (nodes s) \<Longrightarrow> node_wf sd"
  by (auto simp: nodes_def shd_inv_def)

lemma init_zone_inv [simp]: "shd_inv (init_zone p)"
  by (simp add: shd_inv_def init_zone_def rb_tree_def sorted_by_def)

lemma nodes_init_zone [simp]: "nodes (init_zone p) = []"
  by (simp add: nodes_def init_zone_def)

text \<open>Two live blocks with the same key are the same block.\<close>

lemma key_inj:
  assumes "shd_inv s" "a \<in> dom (mem s)" "b \<in> dom (mem s)"
    "node_key (the (mem s a)) = node_key (the (mem s b))"
  shows "a = b"
proof -
  have "node_ord (the (mem s a)) = node_ord (the (mem s b))"
    using shd_invD(7) [OF assms(1)] assms by (simp add: node_ord_def node_wf_def)
  then show ?thesis
    using sorted_by_inj [OF shd_invD(2) [OF assms(1)]] shd_invD(3) [OF assms(1)] assms by simp
qed

lemma nodes_distinct_keys: "shd_inv s \<Longrightarrow> distinct (map node_key (nodes s))"
  unfolding nodes_def map_map
  by (auto simp: distinct_map shd_invD intro!: inj_onI dest: key_inj)

lemma queue_remove_set [simp]: "set (queue_remove a q) = set q - {a}"
  by (auto simp: queue_remove_def)

lemma queue_remove_distinct [simp]: "distinct q \<Longrightarrow> distinct (queue_remove a q)"
  by (simp add: queue_remove_def)

text \<open>Moving a live node to the head of the queue changes nothing but the order.\<close>

lemma touch_inv: "shd_inv s \<Longrightarrow> a \<in> dom (mem s) \<Longrightarrow> shd_inv (s\<lparr>queue := a # queue_remove a (queue s)\<rparr>)"
  by (auto simp: shd_inv_def)

subsection \<open>The dictionary as a list of nodes\<close>

definition n_find :: "bytes \<Rightarrow> node list \<Rightarrow> node option" where
  "n_find k xs = List.find (\<lambda>sd. node_key sd = k) xs"

definition n_remove :: "bytes \<Rightarrow> node list \<Rightarrow> node list" where
  "n_remove k xs = filter (\<lambda>sd. node_key sd \<noteq> k) xs"

definition n_touch :: "bytes \<Rightarrow> node list \<Rightarrow> node list" where
  "n_touch k xs = (case n_find k xs of None \<Rightarrow> xs | Some sd \<Rightarrow> sd # n_remove k xs)"

lemma n_find_SomeD: "n_find k xs = Some sd \<Longrightarrow> sd \<in> set xs \<and> node_key sd = k"
  by (auto simp: n_find_def find_Some_iff)

lemma n_find_None: "n_find k xs = None \<longleftrightarrow> k \<notin> node_key ` set xs"
  by (auto simp: n_find_def find_None_iff)

lemma n_find_distinct:
  assumes "distinct (map node_key xs)"
  shows "n_find k xs = Some sd \<longleftrightarrow> sd \<in> set xs \<and> node_key sd = k"
  using assms unfolding n_find_def by (induction xs) auto

lemma n_find_Cons: "n_find k (sd # xs) = (if node_key sd = k then Some sd else n_find k xs)"
  by (simp add: n_find_def)

lemma n_find_remove: "n_find k (n_remove k' xs) = (if k = k' then None else n_find k xs)"
  unfolding n_find_def n_remove_def by (induction xs) auto

lemma n_find_touch [simp]: "n_find k (n_touch k' xs) = n_find k xs"
  unfolding n_touch_def
  by (cases "n_find k' xs") (auto simp: n_find_Cons n_find_remove dest: n_find_SomeD)

lemma n_remove_absent: "n_find k xs = None \<Longrightarrow> n_remove k xs = xs"
  by (auto simp: n_find_def n_remove_def find_None_iff filter_id_conv)

lemma n_remove_touch [simp]: "n_remove k (n_touch k xs) = n_remove k xs"
  by (auto simp: n_touch_def n_remove_def split: option.splits dest: n_find_SomeD)

lemma n_remove_remove [simp]: "n_remove k (n_remove k xs) = n_remove k xs"
  by (simp add: n_remove_def)

lemma nodes_remove:
  assumes "shd_inv s" "a \<in> dom (mem s)"
  shows "map (\<lambda>b. the (mem s b)) (queue_remove a (queue s)) = n_remove (node_key (the (mem s a))) (nodes s)"
  unfolding nodes_def n_remove_def queue_remove_def filter_map o_def
  by (rule arg_cong [of _ _ "map _"], rule filter_cong [OF refl])
    (use assms shd_invD(5) [OF assms(1)] key_inj [OF assms(1)] in \<open>metis\<close>)

subsection \<open>Lookup\<close>

lemma lookup_cmp_sign:
  "lookup_cmp m hash k a < 0 \<longleftrightarrow> (hash, k) < node_ord (the (m a))"
  "lookup_cmp m hash k a = 0 \<longleftrightarrow> node_ord (the (m a)) = (hash, k)"
  by (auto simp: lookup_cmp_def node_ord_def Let_def)

lemma find_node:
  assumes "shd_inv s"
  shows "rbtree_find (lookup_cmp (mem s) (ngx_crc32_short k) k) (rbtree s) = Some a \<longleftrightarrow>
           a \<in> dom (mem s) \<and> node_key (the (mem s a)) = k"
proof -
  have "rbtree_find (lookup_cmp (mem s) (ngx_crc32_short k) k) (rbtree s) = Some a \<longleftrightarrow>
      a \<in> set (inorder (rbtree s)) \<and> node_ord (the (mem s a)) = (ngx_crc32_short k, k)"
    by (rule rbt.ordered_find_Some [OF shd_invD(2) [OF assms]]) (rule lookup_cmp_sign)+
  then show ?thesis using shd_invD(3,7) [OF assms] by (auto simp: node_ord_def node_wf_def)
qed

text \<open>Lookup finds the node of the key if there is one, tells whether it has expired, and makes it
  the most recently used.\<close>

lemma nodes_touch:
  assumes "shd_inv s" "a \<in> dom (mem s)" "node_key (the (mem s a)) = k"
  shows "n_find k (nodes s) = Some (the (mem s a))"
    and "nodes (s\<lparr>queue := a # queue_remove a (queue s)\<rparr>) = n_touch k (nodes s)"
proof -
  show f: "n_find k (nodes s) = Some (the (mem s a))"
    using assms shd_invD(5) [OF assms(1)] n_find_distinct [OF nodes_distinct_keys [OF assms(1)]]
    by (auto simp: nodes_def)
  show "nodes (s\<lparr>queue := a # queue_remove a (queue s)\<rparr>) = n_touch k (nodes s)"
    using nodes_remove [OF assms(1,2)] by (simp add: n_touch_def f [unfolded nodes_def] nodes_def assms(3))
qed

lemma nodes_missing:
  assumes "shd_inv s" "\<And>a. a \<in> dom (mem s) \<Longrightarrow> node_key (the (mem s a)) \<noteq> k"
  shows "n_find k (nodes s) = None"
  using assms shd_invD(5) [OF assms(1)] by (auto simp: n_find_None nodes_def)

lemma shdict_lookup_refine:
  assumes "shd_inv s"
  obtains (missing) "shdict_lookup env s (ngx_crc32_short k) k = (NGX_DECLINED, None, s)"
      "n_find k (nodes s) = None"
    | (present) a s' where
      "shdict_lookup env s (ngx_crc32_short k) k =
         (if has_expired (now env) (the (mem s a)) then NGX_DONE else NGX_OK, Some a, s')"
      "shd_inv s'" "nodes s' = n_touch k (nodes s)" "mem s' = mem s" "shpool s' = shpool s"
      "a \<in> dom (mem s)" "node_key (the (mem s a)) = k" "n_find k (nodes s) = Some (the (mem s a))"
proof (cases "rbtree_find (lookup_cmp (mem s) (ngx_crc32_short k) k) (rbtree s)")
  case None
  then have "n_find k (nodes s) = None"
    using nodes_missing [OF assms] find_node [OF assms] by (metis option.distinct(1))
  with None show ?thesis by (intro missing) (simp_all add: shdict_lookup_def)
next
  case (Some a)
  then have a: "a \<in> dom (mem s)" "node_key (the (mem s a)) = k" using find_node [OF assms] by auto
  show ?thesis
    by (rule present [of a "s\<lparr>queue := a # queue_remove a (queue s)\<rparr>"])
      (use Some a nodes_touch [OF assms a] touch_inv [OF assms a(1)] in \<open>auto simp: shdict_lookup_def\<close>)
qed

subsection \<open>Unlinking a node\<close>

lemma free_node_refine:
  assumes "shd_inv s" "a \<in> dom (mem s)"
  obtains s' where "free_node env a s = Some s'" "shd_inv s'"
    "nodes s' = n_remove (node_key (the (mem s a))) (nodes s)" "mem s' = (mem s)(a := None)"
    "queue s' = queue_remove a (queue s)"
proof -
  obtain t where t: "rbtree_delete a (rbtree s) = Some t" "rb_tree t"
    "sorted_by (\<lambda>a. node_ord (the (mem s a))) (inorder t)"
    "set (inorder t) = set (inorder (rbtree s)) - {a}"
    using rbt.ordered_delete [OF shd_invD(1,2) [OF assms(1)], of a] assms shd_invD(3) [OF assms(1)]
    by auto
  define s' where "s' = s\<lparr>queue := queue_remove a (queue s), rbtree := t, mem := (mem s)(a := None),
             shpool := slab_free env (shpool s) a\<rparr>"
  have "sorted_by (\<lambda>b. node_ord (the (((mem s)(a := None)) b))) (inorder t)"
    using t(3,4) by (subst sorted_by_cong [where k' = "\<lambda>a. node_ord (the (mem s a))"]) auto
  then have "shd_inv s'"
    using assms(1) t by (auto simp: shd_inv_def s'_def)
  moreover have "nodes s' = n_remove (node_key (the (mem s a))) (nodes s)"
    unfolding nodes_remove [OF assms, symmetric] by (auto simp: nodes_def s'_def)
  ultimately show ?thesis
    using t(1) by (intro that [of s']) (simp_all add: free_node_def s'_def)
qed

subsection \<open>Eviction\<close>

text \<open>The list view of \<open>shdict_expire\<close>: drop from the least recently used end, at most three
  nodes, the first of them without asking when \<open>n = 0\<close>.\<close>

fun n_expire :: "64 word \<Rightarrow> nat \<Rightarrow> node list \<Rightarrow> node list" where
  "n_expire t n xs =
     (if \<not> n < 3 \<or> xs = [] then xs
      else if n \<noteq> 0 \<and> (expires (last xs) = 0 \<or> sint (expires (last xs) - t) > 0) then xs
      else n_expire t (n + 1) (butlast xs))"

declare n_expire.simps [simp del]

lemma n_remove_last:
  "distinct (map node_key xs) \<Longrightarrow> xs \<noteq> [] \<Longrightarrow> n_remove (node_key (last xs)) xs = butlast xs"
proof (induction xs rule: rev_induct)
  case (snoc x xs)
  then have "filter (\<lambda>sd. node_key sd \<noteq> node_key x) xs = xs"
    by (simp add: filter_id_conv) (metis image_eqI)
  then show ?case by (simp add: n_remove_def)
qed simp

lemma nodes_last: "queue s \<noteq> [] \<Longrightarrow> last (nodes s) = the (mem s (last (queue s)))"
  by (simp add: nodes_def last_map)

lemma nodes_empty [simp]: "nodes s = [] \<longleftrightarrow> queue s = []"
  by (simp add: nodes_def)

lemma shdict_expire_refine:
  assumes "shd_inv s"
  shows "\<exists>k s'. shdict_expire env n freed s = Some (freed + k, s') \<and> shd_inv s' \<and>
           nodes s' = n_expire (now env) n (nodes s) \<and> length (nodes s) = length (nodes s') + k"
  using assms
proof (induction env n freed s rule: shdict_expire.induct)
  case (1 env n freed s)
  let ?a = "last (queue s)"
  show ?case
  proof (cases "\<not> n < 3 \<or> queue s = [] \<or>
      n \<noteq> 0 \<and> (expires (the (mem s ?a)) = 0 \<or> sint (expires (the (mem s ?a)) - now env) > 0)")
    case True
    then have "shdict_expire env n freed s = Some (freed + 0, s)" "n_expire (now env) n (nodes s) = nodes s"
      by (auto simp: shdict_expire.simps [of env n] n_expire.simps [of _ n] Let_def nodes_last)
    with 1(2) show ?thesis by fastforce
  next
    case False
    then have "?a \<in> dom (mem s)" using shd_invD(5) [OF 1(2)] last_in_set by blast
    then obtain s1 where s1: "free_node env ?a s = Some s1" "shd_inv s1"
      "nodes s1 = n_remove (node_key (the (mem s ?a))) (nodes s)"
      using free_node_refine [OF 1(2)] by blast
    then have b: "nodes s1 = butlast (nodes s)"
      using n_remove_last [OF nodes_distinct_keys [OF 1(2)]] False nodes_last [of s] by simp
    obtain k s' where s': "shdict_expire env (n + 1) (freed + 1) s1 = Some (freed + 1 + k, s')"
      "shd_inv s'" "nodes s' = n_expire (now env) (n + 1) (nodes s1)" "length (nodes s1) = length (nodes s') + k"
      using 1(1) [of ?a, OF _ _ refl refl _ s1(1,2)] False by auto
    have "length (nodes s) = Suc (length (nodes s1))" using b False by (simp add: nodes_def)
    then have len: "length (nodes s) = length (nodes s') + Suc k" using s'(4) by simp
    have "shdict_expire env n freed s = Some (freed + Suc k, s')"
      using False s1(1) s'(1) by (auto simp: shdict_expire.simps [of env n] Let_def)
    moreover have "n_expire (now env) n (nodes s) = n_expire (now env) (n + 1) (nodes s1)"
      using False b by (auto simp: n_expire.simps [of _ n] nodes_last)
    ultimately show ?thesis using len s' by metis
  qed
qed

subsection \<open>Reusing, allocating and linking nodes\<close>

text \<open>What a caller may store: a key the length field can hold and a value whose size fits its
  type.\<close>

definition storable :: "bytes \<Rightarrow> nat \<Rightarrow> bytes \<Rightarrow> bool" where
  "storable k vtype v \<longleftrightarrow> length k \<le> 65535 \<and> length v < 2 ^ 32 \<and>
     (vtype = 1 \<and> length v = 1 \<or> vtype = 3 \<and> length v = 8 \<or> vtype = 4)"

lemma write_node_sel [simp]:
  "n_hash (write_node h k ty v e u) = h" "expires (write_node h k ty v e u) = e"
  "user_flags (write_node h k ty v e u) = u" "value_type (write_node h k ty v e u) = word_of_nat ty"
  "node_data (write_node h k ty v e u) = k @ v"
  by (simp_all add: write_node_def)

lemma write_node_lens:
  assumes "storable k ty v"
  shows "unat (key_len (write_node h k ty v e u)) = length k"
    "unat (value_len (write_node h k ty v e u)) = length v"
    "value_len (write_node h k ty v e u) = word_of_nat (length v)"
  using assms by (simp_all add: write_node_def storable_def unat_word_of_nat)

lemma write_node_key: "storable k ty v \<Longrightarrow> node_key (write_node h k ty v e u) = k"
  by (simp add: node_key_def write_node_lens)

lemma write_node_val: "storable k ty v \<Longrightarrow> node_val (write_node h k ty v e u) = v"
  by (simp add: node_val_def write_node_lens(1,2))

lemma write_node_wf:
  assumes "storable k ty v"
  shows "node_wf (write_node (ngx_crc32_short k) k ty v e u)"
  using assms write_node_lens [OF assms] write_node_key [OF assms]
  by (auto simp: node_wf_def storable_def)

lemma reuse_node_refine:
  assumes "shd_inv s" "a \<in> dom (mem s)" "node_key (the (mem s a)) = k" "storable k ty v"
  shows "shd_inv (reuse_node a k ty v e u s)"
    and "nodes (reuse_node a k ty v e u s) = write_node (ngx_crc32_short k) k ty v e u # n_remove k (nodes s)"
proof -
  let ?sd = "write_node (ngx_crc32_short k) k ty v e u"
  have h: "n_hash (the (mem s a)) = ngx_crc32_short k"
    using shd_invD(7) [OF assms(1,2)] assms(3) by (simp add: node_wf_def)
  have ord: "node_ord (the (mem s a)) = node_ord ?sd"
    using h assms(3) write_node_key [OF assms(4)] by (simp add: node_ord_def)
  have "sorted_by (\<lambda>b. node_ord (the (((mem s)(a \<mapsto> ?sd)) b))) (inorder (rbtree s))"
    using shd_invD(2) [OF assms(1)] ord
    by (subst sorted_by_cong [where k' = "\<lambda>a. node_ord (the (mem s a))"]) auto
  then show "shd_inv (reuse_node a k ty v e u s)"
    using assms(1,2) write_node_wf [OF assms(4)] by (auto simp: shd_inv_def reuse_node_def h Let_def)
  have "map (\<lambda>b. the (((mem s)(a \<mapsto> ?sd)) b)) (queue_remove a (queue s)) = n_remove k (nodes s)"
    unfolding assms(3) [symmetric] nodes_remove [OF assms(1,2), symmetric]
    by (rule map_cong) (auto simp: queue_remove_def)
  then show "nodes (reuse_node a k ty v e u s) = ?sd # n_remove k (nodes s)"
    by (simp add: reuse_node_def nodes_def h Let_def)
qed

lemma alloc_node_refine:
  assumes "shd_inv s" "alloc_node env n s = Some (a, s')"
  shows "shd_inv s'" "nodes s' = nodes s" "a \<notin> dom (mem s')" "a < next_block s'"
proof -
  have s': "a = next_block s" "mem s' = mem s" "queue s' = queue s" "rbtree s' = rbtree s"
    "next_block s' = Suc (next_block s)"
    using assms(2) by (auto simp: alloc_node_def split: option.splits)
  show "shd_inv s'" "nodes s' = nodes s" "a < next_block s'"
    using assms(1) by (auto simp: shd_inv_def nodes_def s' less_Suc_eq)
  show "a \<notin> dom (mem s')" using shd_invD(6) [OF assms(1), of a] by (auto simp: s')
qed

lemma insert_value_less:
  "rbtree_insert_value m a b \<longleftrightarrow> node_ord (the (m a)) < node_ord (the (m b))"
  by (auto simp: rbtree_insert_value_def node_ord_def Let_def)

lemma link_node_refine:
  assumes "shd_inv s" "a \<notin> dom (mem s)" "a < next_block s" "node_wf sd"
    "n_find (node_key sd) (nodes s) = None"
  obtains s' where "link_node a sd s = Some s'" "shd_inv s'" "nodes s' = sd # nodes s"
proof -
  let ?m = "(mem s)(a \<mapsto> sd)"
  let ?k = "\<lambda>b. node_ord (the (?m b))"
  have in_tree: "b \<in> set (inorder (rbtree s)) \<longleftrightarrow> b \<in> dom (mem s)" for b
    using shd_invD(3) [OF assms(1)] by simp
  have srt: "sorted_by ?k (inorder (rbtree s))"
    using shd_invD(2) [OF assms(1)] assms(2) in_tree
    by (subst sorted_by_cong [where k' = "\<lambda>a. node_ord (the (mem s a))"]) auto
  have key: "node_key (the (mem s b)) \<noteq> node_key sd" if "b \<in> dom (mem s)" for b
  proof -
    have "the (mem s b) \<in> set (nodes s)" using that shd_invD(5) [OF assms(1)] by (simp add: nodes_def)
    then show ?thesis using assms(5) unfolding n_find_None by (metis imageI)
  qed
  have ne: "?k a \<noteq> ?k b" if "b \<in> dom (mem s)" for b
    using that assms(2) key [OF that] by (cases "b = a") (auto simp: node_ord_def)
  have new: "?k a \<notin> ?k ` set (inorder (rbtree s))"
  proof
    assume "?k a \<in> ?k ` set (inorder (rbtree s))"
    then obtain b where "?k a = ?k b" "b \<in> dom (mem s)"
      unfolding shd_invD(3) [OF assms(1)] by (rule imageE)
    with ne [of b] show False by argo
  qed
  obtain t where t: "rbtree_insert (\<lambda>y. ?k a < ?k y) a (rbtree s) = Some t" "rb_tree t"
    "sorted_by ?k (inorder t)" "set (inorder t) = insert a (set (inorder (rbtree s)))"
    using rbt.ordered_insert [OF shd_invD(1) [OF assms(1)] srt new] by (elim exE conjE)
  have gl: "rbtree_insert_value ?m a = (\<lambda>y. ?k a < ?k y)"
    by (rule ext) (simp add: insert_value_less)
  define s' where "s' = s\<lparr>mem := ?m, rbtree := t, queue := a # queue s\<rparr>"
  have "link_node a sd s = Some s'"
    using t(1) by (simp add: link_node_def s'_def gl)
  moreover have "shd_inv s'"
    using assms(2-4) t(2-) shd_invD(3-5) [OF assms(1)] assms(1)
    unfolding shd_inv_def s'_def by (simp split: if_splits)
  moreover have "a \<notin> set (queue s)" using assms(2) shd_invD(5) [OF assms(1)] by simp
  then have "nodes s' = sd # nodes s" by (auto simp: nodes_def s'_def)
  ultimately show ?thesis by (rule that)
qed

subsection \<open>Forced eviction\<close>

text \<open>The list view of \<open>r\<close> rounds of forced eviction: only least recently used nodes go.\<close>

definition n_evict :: "64 word \<Rightarrow> nat \<Rightarrow> node list \<Rightarrow> node list" where
  "n_evict t r = n_expire t 0 ^^ r"

lemma n_expire_prefix: "\<exists>ys. xs = n_expire t n xs @ ys"
proof (induction t n xs rule: n_expire.induct)
  case (1 t n xs)
  show ?case
  proof (cases "\<not> n < 3 \<or> xs = [] \<or> n \<noteq> 0 \<and> (expires (last xs) = 0 \<or> sint (expires (last xs) - t) > 0)")
    case True
    then show ?thesis by (auto simp: n_expire.simps [of t n])
  next
    case False
    then obtain ys where "butlast xs = n_expire t (n + 1) (butlast xs) @ ys" using 1 by auto
    moreover have "n_expire t n xs = n_expire t (n + 1) (butlast xs)"
      using False by (auto simp: n_expire.simps [of t n])
    moreover have "xs = butlast xs @ [last xs]" using False by simp
    ultimately show ?thesis by (metis append.assoc)
  qed
qed

lemma n_evict_prefix: "\<exists>ys. xs = n_evict t r xs @ ys"
proof (induction r arbitrary: xs)
  case (Suc r)
  obtain ys where "xs = n_expire t 0 xs @ ys" using n_expire_prefix by blast
  moreover obtain zs where "n_expire t 0 xs = n_evict t r (n_expire t 0 xs) @ zs" using Suc by blast
  moreover have "n_evict t (Suc r) xs = n_evict t r (n_expire t 0 xs)"
    by (simp add: n_evict_def funpow_swap1)
  ultimately show ?case by (metis append.assoc)
qed (simp add: n_evict_def)

text \<open>A forced round on a non-empty list frees at least one node.\<close>

lemma n_expire_0_shrinks:
  assumes "xs \<noteq> []"
  shows "length (n_expire t 0 xs) < length xs"
proof -
  obtain ys where "butlast xs = n_expire t 1 (butlast xs) @ ys" using n_expire_prefix by blast
  then have "length (n_expire t 1 (butlast xs)) \<le> length (butlast xs)" by (metis length_append le_add1)
  then show ?thesis using assms by (cases xs rule: rev_cases) (simp_all add: n_expire.simps [of t 0])
qed

lemma evict_alloc_refine:
  assumes "shd_inv s"
  shows "\<exists>r res f s'. evict_alloc env n i forcible s = Some (res, f, s') \<and> shd_inv s' \<and> r \<le> i \<and>
           nodes s' = n_evict (now env) r (nodes s) \<and> (f \<longleftrightarrow> forcible \<or> nodes s' \<noteq> nodes s) \<and>
           (case res of None \<Rightarrow> r = i \<or> nodes s' = [] | Some a \<Rightarrow> a \<notin> dom (mem s') \<and> a < next_block s')"
  using assms
proof (induction i arbitrary: s forcible)
  case 0
  then show ?case by (simp add: n_evict_def)
next
  case (Suc i)
  obtain k s1 where s1: "shdict_expire env 0 0 s = Some (k, s1)" "shd_inv s1"
    "nodes s1 = n_expire (now env) 0 (nodes s)" "length (nodes s) = length (nodes s1) + k"
    using shdict_expire_refine [OF Suc.prems, of env 0 0] by auto
  show ?case
  proof (cases "k = 0")
    case True
    then have "nodes s = []" using n_expire_0_shrinks [of "nodes s" "now env"] s1 by fastforce
    then have "nodes s1 = []" using True s1(4) by (metis add_0_right length_0_conv)
    then show ?thesis using True s1 \<open>nodes s = []\<close>
      by (intro exI [of _ 0] exI [of _ None] exI [of _ forcible] exI [of _ s1]) (simp add: n_evict_def nodes_def)
  next
    case False
    have ne: "nodes s1 \<noteq> nodes s" using False s1(4) by auto
    show ?thesis
    proof (cases "alloc_node env n s1")
      case (Some p)
      obtain a s2 where p: "p = (a, s2)" by fastforce
      show ?thesis
        by (intro exI [of _ 1] exI [of _ "Some a"] exI [of _ True] exI [of _ s2])
          (use Some p s1 False ne alloc_node_refine [OF s1(2)] in \<open>auto simp: n_evict_def\<close>)
    next
      case None
      obtain r res f s' where IH: "evict_alloc env n i True s1 = Some (res, f, s')" "shd_inv s'" "r \<le> i"
        "nodes s' = n_evict (now env) r (nodes s1)" "f"
        "case res of None \<Rightarrow> r = i \<or> nodes s' = [] | Some a \<Rightarrow> a \<notin> dom (mem s') \<and> a < next_block s'"
        using Suc.IH [OF s1(2), of True] by auto
      have "length (nodes s') \<le> length (nodes s1)"
        using n_evict_prefix [of "nodes s1" "now env" r] IH(4) by (metis length_append le_add1)
      then have "nodes s' \<noteq> nodes s" using False s1(4) by auto
      moreover have "n_evict (now env) (Suc r) (nodes s) = n_evict (now env) r (nodes s1)"
        by (simp add: n_evict_def funpow_swap1 s1(3))
      ultimately show ?thesis
        by (intro exI [of _ "Suc r"] exI [of _ res] exI [of _ f] exI [of _ s'])
          (use None s1 False IH in \<open>auto split: option.splits\<close>)
    qed
  qed
qed

end
