(* ===== verification/Shdict_Api.thy ===== *)
theory Shdict_Api
  imports Shdict
begin

section \<open>The shared dictionary's Lua and FFI functions (ngx\_stream\_lua\_shdict.c)\<close>

text \<open>
  Each function takes the Lua stack (its arguments) or the C arguments, checks them and runs the
  critical section on the zone. Error messages are the source's format strings. A Lua number is
  stored as the eight bytes of the double, least significant first.
\<close>

subsection \<open>Values in a node\<close>

definition SHDICT_ADD :: nat where "SHDICT_ADD = 1"
definition SHDICT_REPLACE :: nat where "SHDICT_REPLACE = 2"
definition SHDICT_SAFE_STORE :: nat where "SHDICT_SAFE_STORE = 4"

definition LUA_TNIL :: nat where "LUA_TNIL = 0"
definition LUA_TBOOLEAN :: nat where "LUA_TBOOLEAN = 1"
definition LUA_TNUMBER :: nat where "LUA_TNUMBER = 3"
definition LUA_TSTRING :: nat where "LUA_TSTRING = 4"

lemmas lua_type_defs = LUA_TNIL_def LUA_TBOOLEAN_def LUA_TNUMBER_def LUA_TSTRING_def
lemmas flag_defs = SHDICT_ADD_def SHDICT_REPLACE_def SHDICT_SAFE_STORE_def

fun le_bytes :: "nat \<Rightarrow> nat \<Rightarrow> bytes" where
  "le_bytes 0 x = []"
| "le_bytes (Suc n) x = char_of x # le_bytes n (x div 256)"

fun le_nat :: "bytes \<Rightarrow> nat" where
  "le_nat [] = 0"
| "le_nat (c # cs) = of_char c + 256 * le_nat cs"

definition num_bytes :: "lua_number \<Rightarrow> bytes" where
  "num_bytes x = le_bytes 8 (unat x)"

definition bytes_num :: "bytes \<Rightarrow> lua_number" where
  "bytes_num v = word_of_nat (le_nat v)"

subsection \<open>Arguments\<close>

definition is_table :: "lua_value \<Rightarrow> bool" where
  "is_table v \<longleftrightarrow> (case v of LTable _ \<Rightarrow> True | LList _ \<Rightarrow> True | _ \<Rightarrow> False)"

text \<open>\<open>shdict_get_zone\<close>: the light userdata in the table's first slot, if there is one.\<close>

definition has_zone :: "lua_value \<Rightarrow> bool" where
  "has_zone v \<longleftrightarrow> v = LTable True"

definition check_key :: "lua_rt \<Rightarrow> lua_value \<Rightarrow> lua_result + bytes" where
  "check_key rt v =
     (if v = LNil then Inl (LRet [LNil, LString ''nil key''])
      else case check_string rt v of
        None \<Rightarrow> Inl (LErr ''bad argument'')
      | Some key \<Rightarrow>
          (if length key = 0 then Inl (LRet [LNil, LString ''empty key''])
           else if length key > 65535 then Inl (LRet [LNil, LString ''key too long''])
           else Inr key))"

text \<open>The switch on the type of the value: its tag and its bytes, no bytes for \<open>nil\<close>.\<close>

definition check_value :: "nat \<Rightarrow> lua_value \<Rightarrow> lua_result + nat \<times> bytes option" where
  "check_value flags v =
     (case v of
        LString b \<Rightarrow> Inr (LUA_TSTRING, Some b)
      | LNumber x \<Rightarrow> Inr (LUA_TNUMBER, Some (num_bytes x))
      | LBool b \<Rightarrow> Inr (LUA_TBOOLEAN, Some [if b then CHR 0x01 else CHR 0x00])
      | LNil \<Rightarrow>
          (if flags AND (SHDICT_ADD OR SHDICT_REPLACE) \<noteq> 0
           then Inl (LRet [LNil, LString ''attempt to add or replace nil values''])
           else Inr (LUA_TNIL, None))
      | _ \<Rightarrow> Inl (LRet [LNil, LString ''bad value type'']))"

subsection \<open>get and get\_stale\<close>

text \<open>The value of a node, or the error for a node whose size does not fit its tag.\<close>

definition node_value :: "node \<Rightarrow> string + lua_value" where
  "node_value sd =
     (let v = node_val sd; len = unat (value_len sd) in
      if value_type sd = word_of_nat LUA_TSTRING then Inr (LString v)
      else if value_type sd = word_of_nat LUA_TNUMBER then
        (if len \<noteq> 8 then Inl ''bad lua number value size found for key %s in shared_dict %s: %lu''
         else Inr (LNumber (bytes_num v)))
      else if value_type sd = word_of_nat LUA_TBOOLEAN then
        (if len \<noteq> 1 then Inl ''bad lua boolean value size found for key %s in shared_dict %s: %lu''
         else Inr (LBool (v \<noteq> [CHR 0x00])))
      else Inl ''bad value type found for key %s in shared_dict %s: %d'')"

definition flags_value :: "32 word \<Rightarrow> lua_value" where
  "flags_value f = (if f \<noteq> 0 then LNumber (num_of_int (uint f)) else LNil)"

definition shdict_get_helper ::
  "lua_rt \<Rightarrow> 'p shenv \<Rightarrow> bool \<Rightarrow> lua_value list \<Rightarrow> 'p shctx \<Rightarrow> (lua_result \<times> 'p shctx) option" where
  "shdict_get_helper rt env get_stale args s =
     (case args of
        [z, k] \<Rightarrow>
          (if \<not> is_table z then Some (LErr ''bad \"zone\" argument'', s)
           else if \<not> has_zone z then Some (LErr ''bad \"zone\" argument'', s)
           else case check_key rt k of
             Inl r \<Rightarrow> Some (r, s)
           | Inr key \<Rightarrow> do {
               (_, s1) \<leftarrow> (if \<not> get_stale then shdict_expire env 1 0 s else Some (0, s));
               (case shdict_lookup env s1 (ngx_crc32_short key) key of
                  (rc, p, s2) \<Rightarrow>
                    (if rc = NGX_DECLINED \<or> rc = NGX_DONE \<and> \<not> get_stale then Some (LRet [LNil], s2)
                     else do {
                       sd \<leftarrow> p \<bind> mem s2;
                       Some (case node_value sd of
                               Inl e \<Rightarrow> LErr e
                             | Inr v \<Rightarrow>
                                 (if get_stale then
                                    LRet [v, flags_value (user_flags sd), LBool (rc = NGX_DONE)]
                                  else if user_flags sd \<noteq> 0 then LRet [v, flags_value (user_flags sd)]
                                  else LRet [v]), s2)
                     }))
             })
      | _ \<Rightarrow> Some (LErr ''expecting exactly two arguments, but only seen %d'', s))"

definition shdict_get :: "lua_rt \<Rightarrow> 'p shenv \<Rightarrow> lua_value list \<Rightarrow> 'p shctx \<Rightarrow> (lua_result \<times> 'p shctx) option" where
  "shdict_get rt env = shdict_get_helper rt env False"

definition shdict_get_stale :: "lua_rt \<Rightarrow> 'p shenv \<Rightarrow> lua_value list \<Rightarrow> 'p shctx \<Rightarrow> (lua_result \<times> 'p shctx) option" where
  "shdict_get_stale rt env = shdict_get_helper rt env True"

subsection \<open>The store operations\<close>

text \<open>Where the critical section of a store ends.\<close>

datatype store_rc = Stored | NotFound | Exists | NoMemory

text \<open>The block at label \<open>insert\<close>.\<close>

definition store_insert ::
  "'p shenv \<Rightarrow> nat \<Rightarrow> bytes \<Rightarrow> nat \<Rightarrow> bytes option \<Rightarrow> 64 word \<Rightarrow> 32 word \<Rightarrow> 'p shctx
   \<Rightarrow> (store_rc \<times> bool \<times> 'p shctx) option" where
  "store_insert env flags key vtype vdata exp uflags s =
     (case vdata of
        None \<Rightarrow> Some (Stored, False, s)
      | Some v \<Rightarrow>
          (let n = node_size key v;
               sd = write_node (ngx_crc32_short key) key vtype v exp uflags
           in case alloc_node env n s of
                Some (a, s') \<Rightarrow> do {
                  s'' \<leftarrow> link_node a sd s';
                  Some (Stored, False, s'')
                }
              | None \<Rightarrow>
                  (if flags AND SHDICT_SAFE_STORE \<noteq> 0 then Some (NoMemory, False, s)
                   else do {
                     (res, forcible, s') \<leftarrow> evict_alloc env n 30 False s;
                     (case res of
                        None \<Rightarrow> Some (NoMemory, forcible, s')
                      | Some a \<Rightarrow> do {
                          s'' \<leftarrow> link_node a sd s';
                          Some (Stored, forcible, s'')
                        })
                   })))"

text \<open>The block at label \<open>remove\<close>, which falls through to \<open>insert\<close>.\<close>

definition store_remove ::
  "'p shenv \<Rightarrow> nat \<Rightarrow> nat \<Rightarrow> bytes \<Rightarrow> nat \<Rightarrow> bytes option \<Rightarrow> 64 word \<Rightarrow> 32 word \<Rightarrow> 'p shctx
   \<Rightarrow> (store_rc \<times> bool \<times> 'p shctx) option" where
  "store_remove env a flags key vtype vdata exp uflags s = do {
     s' \<leftarrow> free_node env a s;
     store_insert env flags key vtype vdata exp uflags s'
   }"

text \<open>The block at label \<open>replace\<close>, which falls through to \<open>remove\<close> when the size differs.\<close>

definition store_replace ::
  "'p shenv \<Rightarrow> nat \<Rightarrow> nat \<Rightarrow> bytes \<Rightarrow> nat \<Rightarrow> bytes option \<Rightarrow> 64 word \<Rightarrow> 32 word \<Rightarrow> 'p shctx
   \<Rightarrow> (store_rc \<times> bool \<times> 'p shctx) option" where
  "store_replace env a flags key vtype vdata exp uflags s = do {
     sd \<leftarrow> mem s a;
     (case vdata of
        Some v \<Rightarrow>
          (if length v = unat (value_len sd) then Some (Stored, False, reuse_node a key vtype v exp uflags s)
           else store_remove env a flags key vtype vdata exp uflags s)
      | None \<Rightarrow> store_remove env a flags key vtype vdata exp uflags s)
   }"

text \<open>The critical section, from the lock to the unlock.\<close>

definition shdict_store ::
  "'p shenv \<Rightarrow> nat \<Rightarrow> bytes \<Rightarrow> nat \<Rightarrow> bytes option \<Rightarrow> 64 word \<Rightarrow> 32 word \<Rightarrow> 'p shctx
   \<Rightarrow> (store_rc \<times> bool \<times> 'p shctx) option" where
  "shdict_store env flags key vtype vdata exp uflags s = do {
     (_, s1) \<leftarrow> shdict_expire env 1 0 s;
     (case shdict_lookup env s1 (ngx_crc32_short key) key of
        (rc, p, s2) \<Rightarrow>
          (if flags AND SHDICT_REPLACE \<noteq> 0 then
             (if rc = NGX_DECLINED \<or> rc = NGX_DONE then Some (NotFound, False, s2)
              else do { a \<leftarrow> p; store_replace env a flags key vtype vdata exp uflags s2 })
           else if flags AND SHDICT_ADD \<noteq> 0 then
             (if rc = NGX_OK then Some (Exists, False, s2)
              else if rc = NGX_DONE then do { a \<leftarrow> p; store_replace env a flags key vtype vdata exp uflags s2 }
              else store_insert env flags key vtype vdata exp uflags s2)
           else if rc = NGX_OK \<or> rc = NGX_DONE then do {
             a \<leftarrow> p;
             (if vtype = LUA_TNIL then store_remove env a flags key vtype vdata exp uflags s2
              else store_replace env a flags key vtype vdata exp uflags s2)
           }
           else store_insert env flags key vtype vdata exp uflags s2))
   }"

definition store_result :: "nat \<Rightarrow> store_rc \<Rightarrow> bool \<Rightarrow> lua_result" where
  "store_result flags rc forcible =
     (case rc of
        Stored \<Rightarrow> LRet [LBool True, LNil, LBool forcible]
      | NotFound \<Rightarrow> LRet [LBool False, LString ''not found'', LBool forcible]
      | Exists \<Rightarrow> LRet [LBool False, LString ''exists'', LBool forcible]
      | NoMemory \<Rightarrow>
          (if flags AND SHDICT_SAFE_STORE \<noteq> 0 then LRet [LBool False, LString ''no memory'']
           else LRet [LBool False, LString ''no memory'', LBool forcible]))"

text \<open>The optional arguments: the expiry time in seconds, negative ones as zero, and the flags.\<close>

definition check_exptime :: "lua_rt \<Rightarrow> 'p shenv \<Rightarrow> lua_value list \<Rightarrow> 64 word option" where
  "check_exptime rt env opts =
     (case opts of
        [] \<Rightarrow> Some 0
      | x # _ \<Rightarrow>
          (case check_number rt x of
             None \<Rightarrow> None
           | Some e \<Rightarrow>
               (let exptime = (if num_lt0 e then 0 else e)
                in Some (if num_gt0 exptime then now env + rt_ms rt exptime else 0))))"

definition check_flags :: "lua_rt \<Rightarrow> lua_value list \<Rightarrow> 32 word option" where
  "check_flags rt opts =
     (case opts of [_, f] \<Rightarrow> map_option (rt_u32 rt) (check_number rt f) | _ \<Rightarrow> Some 0)"

definition shdict_set_helper ::
  "lua_rt \<Rightarrow> 'p shenv \<Rightarrow> nat \<Rightarrow> lua_value list \<Rightarrow> 'p shctx \<Rightarrow> (lua_result \<times> 'p shctx) option" where
  "shdict_set_helper rt env flags args s =
     (case args of
        z # k # v # opts \<Rightarrow>
          (if length opts > 2 then Some (LErr ''expecting 3, 4 or 5 arguments, but only seen %d'', s)
           else if \<not> is_table z then Some (LErr ''bad \"zone\" argument'', s)
           else if \<not> has_zone z then Some (LErr ''bad \"zone\" argument'', s)
           else case check_key rt k of
             Inl r \<Rightarrow> Some (r, s)
           | Inr key \<Rightarrow>
               (case check_value flags v of
                  Inl r \<Rightarrow> Some (r, s)
                | Inr (vtype, vdata) \<Rightarrow>
                    (case check_exptime rt env opts of
                       None \<Rightarrow> Some (LErr ''bad argument'', s)
                     | Some exp \<Rightarrow>
                         (case check_flags rt opts of
                            None \<Rightarrow> Some (LErr ''bad argument'', s)
                          | Some uflags \<Rightarrow> do {
                              (rc, forcible, s') \<leftarrow> shdict_store env flags key vtype vdata exp uflags s;
                              Some (store_result flags rc forcible, s')
                            }))))
      | _ \<Rightarrow> Some (LErr ''expecting 3, 4 or 5 arguments, but only seen %d'', s))"

definition shdict_set :: "lua_rt \<Rightarrow> 'p shenv \<Rightarrow> lua_value list \<Rightarrow> 'p shctx \<Rightarrow> (lua_result \<times> 'p shctx) option" where
  "shdict_set rt env = shdict_set_helper rt env 0"

definition shdict_safe_set :: "lua_rt \<Rightarrow> 'p shenv \<Rightarrow> lua_value list \<Rightarrow> 'p shctx \<Rightarrow> (lua_result \<times> 'p shctx) option" where
  "shdict_safe_set rt env = shdict_set_helper rt env SHDICT_SAFE_STORE"

definition shdict_add :: "lua_rt \<Rightarrow> 'p shenv \<Rightarrow> lua_value list \<Rightarrow> 'p shctx \<Rightarrow> (lua_result \<times> 'p shctx) option" where
  "shdict_add rt env = shdict_set_helper rt env SHDICT_ADD"

definition shdict_safe_add :: "lua_rt \<Rightarrow> 'p shenv \<Rightarrow> lua_value list \<Rightarrow> 'p shctx \<Rightarrow> (lua_result \<times> 'p shctx) option" where
  "shdict_safe_add rt env = shdict_set_helper rt env (SHDICT_ADD OR SHDICT_SAFE_STORE)"

definition shdict_replace :: "lua_rt \<Rightarrow> 'p shenv \<Rightarrow> lua_value list \<Rightarrow> 'p shctx \<Rightarrow> (lua_result \<times> 'p shctx) option" where
  "shdict_replace rt env = shdict_set_helper rt env SHDICT_REPLACE"

definition shdict_delete :: "lua_rt \<Rightarrow> 'p shenv \<Rightarrow> lua_value list \<Rightarrow> 'p shctx \<Rightarrow> (lua_result \<times> 'p shctx) option" where
  "shdict_delete rt env args s =
     (if length args \<noteq> 2 then Some (LErr ''expecting 2 arguments, but only seen %d'', s)
      else shdict_set_helper rt env 0 (args @ [LNil]) s)"

subsection \<open>incr\<close>

text \<open>The number is read and written at \<open>data + key.len\<close>.\<close>

definition write_number :: "nat \<Rightarrow> lua_number \<Rightarrow> node \<Rightarrow> node" where
  "write_number off x sd =
     sd\<lparr>node_data := take off (node_data sd) @ num_bytes x @ drop (off + 8) (node_data sd)\<rparr>"

definition incr_node ::
  "lua_rt \<Rightarrow> 'p shenv \<Rightarrow> bytes \<Rightarrow> lua_number \<Rightarrow> 'p shctx \<Rightarrow> ((string + lua_number) \<times> 'p shctx) option" where
  "incr_node rt env key x s = do {
     (_, s1) \<leftarrow> shdict_expire env 1 0 s;
     (case shdict_lookup env s1 (ngx_crc32_short key) key of
        (rc, p, s2) \<Rightarrow>
          (if rc = NGX_DECLINED \<or> rc = NGX_DONE then Some (Inl ''not found'', s2)
           else do {
             a \<leftarrow> p;
             sd \<leftarrow> mem s2 a;
             (if value_type sd \<noteq> word_of_nat LUA_TNUMBER \<or> unat (value_len sd) \<noteq> 8
              then Some (Inl ''not a number'', s2)
              else
                (let num = rt_add rt (bytes_num (take 8 (drop (length key) (node_data sd)))) x
                 in Some (Inr num,
                      s2\<lparr>queue := a # queue_remove a (queue s2),
                         mem := (mem s2)(a \<mapsto> write_number (length key) num sd)\<rparr>)))
           }))
   }"

definition shdict_incr :: "lua_rt \<Rightarrow> 'p shenv \<Rightarrow> lua_value list \<Rightarrow> 'p shctx \<Rightarrow> (lua_result \<times> 'p shctx) option" where
  "shdict_incr rt env args s =
     (case args of
        [z, k, v] \<Rightarrow>
          (if \<not> is_table z then Some (LErr ''bad \"zone\" argument'', s)
           else if \<not> has_zone z then Some (LErr ''bad user data for the ngx_shm_zone_t pointer'', s)
           else case check_key rt k of
             Inl r \<Rightarrow> Some (r, s)
           | Inr key \<Rightarrow>
               (case check_number rt v of
                  None \<Rightarrow> Some (LErr ''bad argument'', s)
                | Some x \<Rightarrow> do {
                    (r, s') \<leftarrow> incr_node rt env key x s;
                    Some (case r of
                            Inl e \<Rightarrow> LRet [LNil, LString e]
                          | Inr num \<Rightarrow> LRet [LNumber num, LNil], s')
                  }))
      | _ \<Rightarrow> Some (LErr ''expecting 3 arguments, but only seen %d'', s))"

subsection \<open>Flushing and listing\<close>

text \<open>The first argument of the functions below: \<open>luaL_checktype\<close>, then the userdata.\<close>

definition check_zone :: "lua_value \<Rightarrow> lua_result option" where
  "check_zone z =
     (if \<not> is_table z then Some (LErr ''table expected'')
      else if \<not> has_zone z then Some (LErr ''bad user data for the ngx_shm_zone_t pointer'')
      else None)"

text \<open>The loop over the queue from its head: every node expires at time 1.\<close>

definition expire_all :: "'p shctx \<Rightarrow> 'p shctx" where
  "expire_all s =
     s\<lparr>mem := fold (\<lambda>a m. m(a := map_option (\<lambda>sd. sd\<lparr>expires := 1\<rparr>) (m a))) (queue s) (mem s)\<rparr>"

definition shdict_flush_all :: "'p shenv \<Rightarrow> lua_value list \<Rightarrow> 'p shctx \<Rightarrow> (lua_result \<times> 'p shctx) option" where
  "shdict_flush_all env args s =
     (case args of
        [z] \<Rightarrow>
          (case check_zone z of
             Some e \<Rightarrow> Some (e, s)
           | None \<Rightarrow> do {
               (_, s') \<leftarrow> shdict_expire env 0 0 (expire_all s);
               Some (LRet [], s')
             })
      | _ \<Rightarrow> Some (LErr ''expecting 1 argument, but seen %d'', s))"

text \<open>The loop over the queue from its tail; \<open>prev\<close> is read before the node is freed, so the loop
  visits the nodes of the queue as it was.\<close>

fun flush_expired_loop ::
  "'p shenv \<Rightarrow> int \<Rightarrow> int \<Rightarrow> nat list \<Rightarrow> 'p shctx \<Rightarrow> (int \<times> 'p shctx) option" where
  "flush_expired_loop env attempts freed [] s = Some (freed, s)"
| "flush_expired_loop env attempts freed (a # q) s = do {
     sd \<leftarrow> mem s a;
     (if expires sd \<noteq> 0 \<and> expires sd \<le> now env then do {
        s' \<leftarrow> free_node env a s;
        (if attempts \<noteq> 0 \<and> freed + 1 = attempts then Some (freed + 1, s')
         else flush_expired_loop env attempts (freed + 1) q s')
      }
      else flush_expired_loop env attempts freed q s)
   }"

text \<open>The optional second argument.\<close>

definition check_attempts :: "lua_rt \<Rightarrow> int \<Rightarrow> lua_value list \<Rightarrow> int option" where
  "check_attempts rt dflt opts =
     (case opts of [] \<Rightarrow> Some dflt | x # _ \<Rightarrow> map_option (rt_int rt) (check_number rt x))"

definition shdict_flush_expired ::
  "lua_rt \<Rightarrow> 'p shenv \<Rightarrow> lua_value list \<Rightarrow> 'p shctx \<Rightarrow> (lua_result \<times> 'p shctx) option" where
  "shdict_flush_expired rt env args s =
     (case args of
        z # opts \<Rightarrow>
          (if length opts > 1 then Some (LErr ''expecting 1 or 2 argument(s), but saw %d'', s)
           else case check_zone z of
             Some e \<Rightarrow> Some (e, s)
           | None \<Rightarrow>
               (case check_attempts rt 0 opts of
                  None \<Rightarrow> Some (LErr ''bad argument'', s)
                | Some attempts \<Rightarrow>
                    (if queue s = [] then Some (LRet [LNumber (num_of_int 0)], s)
                     else do {
                       (freed, s') \<leftarrow> flush_expired_loop env attempts 0 (rev (queue s)) s;
                       Some (LRet [LNumber (num_of_int freed)], s')
                     })))
      | _ \<Rightarrow> Some (LErr ''expecting 1 or 2 argument(s), but saw %d'', s))"

text \<open>The two passes of \<open>get_keys\<close>: the first counts, to size the table, the second fills it.\<close>

fun count_keys :: "'p shenv \<Rightarrow> 'p shctx \<Rightarrow> int \<Rightarrow> int \<Rightarrow> nat list \<Rightarrow> int option" where
  "count_keys env s attempts tot [] = Some tot"
| "count_keys env s attempts tot (a # q) = do {
     sd \<leftarrow> mem s a;
     (if expires sd = 0 \<or> expires sd > now env then
        (if attempts \<noteq> 0 \<and> tot + 1 = attempts then Some (tot + 1)
         else count_keys env s attempts (tot + 1) q)
      else count_keys env s attempts tot q)
   }"

fun collect_keys :: "'p shenv \<Rightarrow> 'p shctx \<Rightarrow> int \<Rightarrow> int \<Rightarrow> nat list \<Rightarrow> lua_value list option" where
  "collect_keys env s attempts tot [] = Some []"
| "collect_keys env s attempts tot (a # q) = do {
     sd \<leftarrow> mem s a;
     (if expires sd = 0 \<or> expires sd > now env then
        (if attempts \<noteq> 0 \<and> tot + 1 = attempts then Some [LString (node_key sd)]
         else map_option (\<lambda>ks. LString (node_key sd) # ks) (collect_keys env s attempts (tot + 1) q))
      else collect_keys env s attempts tot q)
   }"

definition shdict_get_keys ::
  "lua_rt \<Rightarrow> 'p shenv \<Rightarrow> lua_value list \<Rightarrow> 'p shctx \<Rightarrow> (lua_result \<times> 'p shctx) option" where
  "shdict_get_keys rt env args s =
     (case args of
        z # opts \<Rightarrow>
          (if length opts > 1 then Some (LErr ''expecting 1 or 2 argument(s), but saw %d'', s)
           else case check_zone z of
             Some e \<Rightarrow> Some (e, s)
           | None \<Rightarrow>
               (case check_attempts rt 1024 opts of
                  None \<Rightarrow> Some (LErr ''bad argument'', s)
                | Some attempts \<Rightarrow>
                    (if queue s = [] then Some (LRet [LList []], s)
                     else do {
                       _ \<leftarrow> count_keys env s attempts 0 (rev (queue s));
                       ks \<leftarrow> collect_keys env s attempts 0 (rev (queue s));
                       Some (LRet [LList ks], s)
                     })))
      | _ \<Rightarrow> Some (LErr ''expecting 1 or 2 argument(s), but saw %d'', s))"

subsection \<open>Finding a zone by name\<close>

text \<open>The shared memory list of the cycle: parts of zones, searched in order. After moving to a later
  part the source reads its first zone at once; \<open>None\<close> is that read of an empty part.\<close>

definition strncmp_eq :: "bytes \<Rightarrow> bytes \<Rightarrow> nat \<Rightarrow> bool" where
  "strncmp_eq a b n \<longleftrightarrow>
     takeWhile (\<lambda>c. c \<noteq> CHR 0x00) (take n a) = takeWhile (\<lambda>c. c \<noteq> CHR 0x00) (take n b)"

fun find_in_part :: "bytes \<Rightarrow> (bytes \<times> 'z) list \<Rightarrow> 'z option" where
  "find_in_part nm [] = None"
| "find_in_part nm ((zn, z) # zs) =
     (if length zn = length nm \<and> strncmp_eq zn nm (length nm) then Some z else find_in_part nm zs)"

fun find_zone_next :: "bytes \<Rightarrow> (bytes \<times> 'z) list list \<Rightarrow> 'z option option" where
  "find_zone_next nm [] = Some None"
| "find_zone_next nm ([] # parts) = None"
| "find_zone_next nm (part # parts) =
     (case find_in_part nm part of Some z \<Rightarrow> Some (Some z) | None \<Rightarrow> find_zone_next nm parts)"

definition find_zone :: "bytes \<Rightarrow> (bytes \<times> 'z) list \<Rightarrow> (bytes \<times> 'z) list list \<Rightarrow> 'z option option" where
  "find_zone nm part parts =
     (case find_in_part nm part of Some z \<Rightarrow> Some (Some z) | None \<Rightarrow> find_zone_next nm parts)"

subsection \<open>The FFI functions\<close>

text \<open>\<open>num_value ? 1 : 0\<close>: true for every double but the two zeros.\<close>

definition num_true :: "lua_number \<Rightarrow> bool" where
  "num_true x \<longleftrightarrow> x AND mask 63 \<noteq> 0"

definition ffi_value :: "nat \<Rightarrow> nat \<Rightarrow> bytes option \<Rightarrow> lua_number \<Rightarrow> string + bytes option" where
  "ffi_value op vtype buf x =
     (if vtype = LUA_TSTRING then Inr buf
      else if vtype = LUA_TNUMBER then Inr (Some (num_bytes x))
      else if vtype = LUA_TBOOLEAN then Inr (Some [if num_true x then CHR 0x01 else CHR 0x00])
      else if vtype = LUA_TNIL then
        (if op AND (SHDICT_ADD OR SHDICT_REPLACE) \<noteq> 0 then Inl ''attempt to add or replace nil values''
         else Inr None)
      else Inl ''unsupported value type'')"

text \<open>The result: the return code, \<open>*errmsg\<close> if it was set, \<open>*forcible\<close> if it was set, the zone.\<close>

definition ffi_shdict_store ::
  "'p shenv \<Rightarrow> 'p shctx option \<Rightarrow> nat \<Rightarrow> bytes \<Rightarrow> nat \<Rightarrow> bytes option \<Rightarrow> lua_number \<Rightarrow> int \<Rightarrow> int
   \<Rightarrow> (ngx_rc \<times> string option \<times> bool option \<times> 'p shctx option) option" where
  "ffi_shdict_store env zone op key vtype buf x exptime uflags =
     (case zone of
        None \<Rightarrow> Some (NGX_ERROR, None, None, None)
      | Some s \<Rightarrow>
          (case ffi_value op vtype buf x of
             Inl e \<Rightarrow> Some (NGX_ERROR, Some e, Some False, Some s)
           | Inr vdata \<Rightarrow> do {
               (rc, forcible, s') \<leftarrow>
                 shdict_store env op key vtype vdata
                   (if exptime > 0 then now env + word_of_int exptime else 0) (word_of_int uflags) s;
               Some (case rc of
                       Stored \<Rightarrow> (NGX_OK, None, Some forcible, Some s')
                     | NotFound \<Rightarrow> (NGX_DECLINED, Some ''not found'', Some forcible, Some s')
                     | Exists \<Rightarrow> (NGX_DECLINED, Some ''exists'', Some forcible, Some s')
                     | NoMemory \<Rightarrow> (NGX_ERROR, Some ''no memory'', Some forcible, Some s'))
             }))"

text \<open>What \<open>ffi_shdict_get\<close> writes through its pointers: the type with the value, the flags, and
  \<open>*is_stale\<close> when stale values are asked for. \<open>cap\<close> is the caller's buffer size on entry,
  \<open>malloc_ok\<close> tells whether \<open>malloc\<close> succeeds.\<close>

datatype ffi_got = GotNil | GotString bytes | GotNumber lua_number | GotBoolean bytes

definition ffi_node_value :: "node \<Rightarrow> nat \<Rightarrow> bool \<Rightarrow> ffi_got option" where
  "ffi_node_value sd cap malloc_ok =
     (let v = node_val sd; len = unat (value_len sd) in
      if cap < len \<and> value_type sd = word_of_nat LUA_TBOOLEAN then None
      else if cap < len \<and> value_type sd = word_of_nat LUA_TSTRING \<and> \<not> malloc_ok then None
      else if value_type sd = word_of_nat LUA_TSTRING then Some (GotString v)
      else if value_type sd = word_of_nat LUA_TNUMBER then
        (if len \<noteq> 8 then None else Some (GotNumber (bytes_num v)))
      else if value_type sd = word_of_nat LUA_TBOOLEAN then
        (if len \<noteq> 1 then None else Some (GotBoolean v))
      else None)"

definition ffi_shdict_get ::
  "'p shenv \<Rightarrow> 'p shctx option \<Rightarrow> bytes \<Rightarrow> nat \<Rightarrow> bool \<Rightarrow> bool
   \<Rightarrow> (ngx_rc \<times> (ffi_got \<times> 32 word option \<times> bool option) option \<times> 'p shctx option) option" where
  "ffi_shdict_get env zone key cap malloc_ok get_stale =
     (case zone of
        None \<Rightarrow> Some (NGX_ERROR, None, None)
      | Some s \<Rightarrow> do {
          (_, s1) \<leftarrow> (if \<not> get_stale then shdict_expire env 1 0 s else Some (0, s));
          (case shdict_lookup env s1 (ngx_crc32_short key) key of
             (rc, p, s2) \<Rightarrow>
               (if rc = NGX_DECLINED \<or> rc = NGX_DONE \<and> \<not> get_stale
                then Some (NGX_OK, Some (GotNil, None, None), Some s2)
                else do {
                  sd \<leftarrow> p \<bind> mem s2;
                  Some (case ffi_node_value sd cap malloc_ok of
                          None \<Rightarrow> (NGX_ERROR, None, Some s2)
                        | Some v \<Rightarrow>
                            (NGX_OK, Some (v, Some (user_flags sd),
                               if get_stale then Some (rc = NGX_DONE) else None), Some s2))
                }))
        })"

definition ffi_shdict_incr ::
  "lua_rt \<Rightarrow> 'p shenv \<Rightarrow> 'p shctx \<Rightarrow> bytes \<Rightarrow> lua_number \<Rightarrow> (ngx_rc \<times> (string + lua_number) \<times> 'p shctx) option" where
  "ffi_shdict_incr rt env s key x = do {
     (r, s') \<leftarrow> incr_node rt env key x s;
     Some (case r of Inl e \<Rightarrow> NGX_ERROR | Inr _ \<Rightarrow> NGX_OK, r, s')
   }"

definition ffi_shdict_flush_all :: "'p shenv \<Rightarrow> 'p shctx \<Rightarrow> (ngx_rc \<times> 'p shctx) option" where
  "ffi_shdict_flush_all env s = do {
     (_, s') \<leftarrow> shdict_expire env 0 0 (expire_all s);
     Some (NGX_OK, s')
   }"

subsection \<open>Stored numbers\<close>

lemma le_nat_le_bytes: "le_nat (le_bytes n x) = x mod 256 ^ n"
proof (induction n arbitrary: x)
  case (Suc n)
  have "le_nat (le_bytes (Suc n) x) = x mod 256 + 256 * (x div 256 mod 256 ^ n)"
    using Suc by simp
  also have "\<dots> = x mod (256 * 256 ^ n)" by (simp add: mod_mult2_eq)
  finally show ?case by simp
qed simp

lemma length_le_bytes [simp]: "length (le_bytes n x) = n"
  by (induction n arbitrary: x) auto

lemma length_num_bytes [simp]: "length (num_bytes x) = 8"
  by (simp add: num_bytes_def)

lemma bytes_num_bytes [simp]: "bytes_num (num_bytes x) = x"
proof -
  have "unat x < 256 ^ 8" using unsigned_less [of x] by simp
  then show ?thesis by (simp add: bytes_num_def num_bytes_def le_nat_le_bytes)
qed

end
