(* ===== verification/Shdict_Props.thy ===== *)
theory Shdict_Props
  imports Shdict_Api
begin

section \<open>Correctness of the shared dictionary\<close>

text \<open>
  The functions of ngx\_stream\_lua\_shdict.c refine operations on a list of nodes with distinct
  keys, most recently used first (\<open>nodes\<close>). The lemmas give each function's result and effect on
  that list; the properties read them as statements about keys and values.
\<close>

subsection \<open>Live entries\<close>

text \<open>An entry whose time to live is over, as the eviction loop sees it; lookup keeps serving it
  for the last millisecond (\<open>has_expired\<close>).\<close>

definition dead :: "64 word \<Rightarrow> node \<Rightarrow> bool" where
  "dead t sd \<longleftrightarrow> expires sd \<noteq> 0 \<and> sint (expires sd - t) \<le> 0"

definition live :: "64 word \<Rightarrow> bytes \<Rightarrow> node list \<Rightarrow> node option" where
  "live t k xs = (case n_find k xs of None \<Rightarrow> None | Some sd \<Rightarrow> if dead t sd then None else Some sd)"

lemma has_expired_dead: "has_expired t sd \<Longrightarrow> dead t sd"
  by (auto simp: has_expired_def dead_def)

lemma live_SomeD: "live t k xs = Some sd \<Longrightarrow> n_find k xs = Some sd \<and> \<not> dead t sd"
  by (auto simp: live_def split: option.splits if_splits)

lemma live_touch [simp]: "live t k (n_touch k' xs) = live t k xs"
  by (simp add: live_def)

lemma live_remove: "live t k (n_remove k' xs) = (if k = k' then None else live t k xs)"
  by (simp add: live_def n_find_remove)

lemma live_Cons: "live t k (sd # xs) = (if node_key sd = k then (if dead t sd then None else Some sd) else live t k xs)"
  by (simp add: live_def n_find_Cons)

lemma n_find_append: "n_find k (xs @ ys) = (case n_find k xs of None \<Rightarrow> n_find k ys | Some sd \<Rightarrow> Some sd)"
  unfolding n_find_def by (rule find_append)

text \<open>Background expiry (\<open>n = 1\<close>) only ever drops dead entries.\<close>

lemma n_expire_keeps_live:
  "n \<noteq> 0 \<Longrightarrow> live t k (n_expire t n xs) = live t k xs"
proof (induction t n xs rule: n_expire.induct)
  case (1 t n xs)
  show ?case
  proof (cases "\<not> n < 3 \<or> xs = [] \<or> n \<noteq> 0 \<and> (expires (last xs) = 0 \<or> sint (expires (last xs) - t) > 0)")
    case True
    then show ?thesis by (auto simp: n_expire.simps [of t n])
  next
    case False
    then have dl: "dead t (last xs)" using 1(2) by (auto simp: dead_def)
    have "xs = butlast xs @ [last xs]" using False by simp
    then have "live t k xs = live t k (butlast xs @ [last xs])" by simp
    also have "\<dots> = live t k (butlast xs)"
      unfolding live_def n_find_append using dl by (auto simp: n_find_def split: option.splits)
    also have "\<dots> = live t k (n_expire t (n + 1) (butlast xs))" using 1 False by auto
    finally show ?thesis using False by (auto simp: n_expire.simps [of t n])
  qed
qed

lemma n_find_expire:
  assumes "distinct (map node_key xs)" "n_find k (n_expire t n xs) = Some sd"
  shows "n_find k xs = Some sd"
proof -
  obtain ys where "xs = n_expire t n xs @ ys" using n_expire_prefix by blast
  then show ?thesis using assms by (metis n_find_append option.simps(5))
qed

subsection \<open>The critical section of a store\<close>

text \<open>What an insertion into a list \<open>xs\<close> without the key does: \<open>r\<close> rounds of eviction, then the
  new entry is in front unless memory ran out.\<close>

definition insert_post ::
  "'p shenv \<Rightarrow> nat \<Rightarrow> node \<Rightarrow> node list \<Rightarrow> store_rc \<Rightarrow> bool \<Rightarrow> node list \<Rightarrow> nat \<Rightarrow> bool" where
  "insert_post env flags new xs rc f ys r \<longleftrightarrow>
     (rc = Stored \<and> ys = new # n_evict (now env) r xs \<or>
      rc = NoMemory \<and> ys = n_evict (now env) r xs \<and>
        (flags AND SHDICT_SAFE_STORE = 0 \<longrightarrow> r = 30 \<or> ys = [])) \<and>
     (f \<longleftrightarrow> n_evict (now env) r xs \<noteq> xs) \<and>
     r \<le> 30 \<and> (flags AND SHDICT_SAFE_STORE \<noteq> 0 \<longrightarrow> r = 0)"

lemma n_evict_0 [simp]: "n_evict t 0 xs = xs"
  by (simp add: n_evict_def)

lemma store_insert_refine:
  assumes "shd_inv s" "n_find k (nodes s) = None" "storable k ty v"
  shows "\<exists>rc f s' r. store_insert env flags k ty (Some v) e u s = Some (rc, f, s') \<and> shd_inv s' \<and>
    insert_post env flags (write_node (ngx_crc32_short k) k ty v e u) (nodes s) rc f (nodes s') r"
proof -
  let ?sd = "write_node (ngx_crc32_short k) k ty v e u"
  note wf = write_node_wf [OF assms(3), of e u] and key = write_node_key [OF assms(3), of "ngx_crc32_short k" e u]
  show ?thesis
  proof (cases "alloc_node env (node_size k v) s")
    case (Some p)
    obtain a s1 where p: "p = (a, s1)" by fastforce
    note al = alloc_node_refine [OF assms(1) Some [unfolded p]]
    have "n_find (node_key ?sd) (nodes s1) = None" using assms(2) key al(2) by simp
    from link_node_refine [OF al(1,3,4) wf this] obtain s' where
      "link_node a ?sd s1 = Some s'" "shd_inv s'" "nodes s' = ?sd # nodes s1" .
    then show ?thesis
      by (intro exI [of _ Stored] exI [of _ False] exI [of _ s'] exI [of _ 0])
        (auto simp: store_insert_def Some p al(2) insert_post_def)
  next
    case None
    show ?thesis
    proof (cases "flags AND SHDICT_SAFE_STORE = 0")
      case False
      then show ?thesis
        using None assms(1) by (auto simp: store_insert_def insert_post_def)
    next
      case True
      obtain r res f s1 where ev: "evict_alloc env (node_size k v) 30 False s = Some (res, f, s1)" "shd_inv s1" "r \<le> 30"
        "nodes s1 = n_evict (now env) r (nodes s)" "f \<longleftrightarrow> nodes s1 \<noteq> nodes s"
        "case res of None \<Rightarrow> r = 30 \<or> nodes s1 = [] | Some a \<Rightarrow> a \<notin> dom (mem s1) \<and> a < next_block s1"
        using evict_alloc_refine [OF assms(1), of env "node_size k v" 30 False] by auto
      show ?thesis
      proof (cases res)
        case None
        then show ?thesis
          using ev True \<open>alloc_node _ _ _ = None\<close>
          by (intro exI [of _ NoMemory] exI [of _ f] exI [of _ s1] exI [of _ r])
            (auto simp: store_insert_def insert_post_def)
      next
        case (Some a)
        obtain ys where "nodes s = nodes s1 @ ys" using n_evict_prefix [of "nodes s" "now env" r] ev(4) by auto
        then have "n_find (node_key ?sd) (nodes s1) = None"
          using assms(2) key by (auto simp: n_find_append split: option.splits)
        moreover have "a \<notin> dom (mem s1)" "a < next_block s1" using ev(6) Some by auto
        ultimately obtain s' where "link_node a ?sd s1 = Some s'" "shd_inv s'" "nodes s' = ?sd # nodes s1"
          using link_node_refine [OF ev(2) _ _ wf] by blast
        then show ?thesis
          using ev True \<open>alloc_node _ _ _ = None\<close> Some
          by (intro exI [of _ Stored] exI [of _ f] exI [of _ s'] exI [of _ r])
            (auto simp: store_insert_def insert_post_def)
      qed
    qed
  qed
qed

lemma n_remove_find_None [simp]: "n_find k (n_remove k xs) = None"
  by (simp add: n_find_remove)

lemma store_replace_refine:
  assumes s: "shd_inv s" "a \<in> dom (mem s)" "node_key (the (mem s a)) = k" "storable k ty v"
  shows "\<exists>rc f s' r. store_replace env a flags k ty (Some v) e u s = Some (rc, f, s') \<and> shd_inv s' \<and>
    insert_post env flags (write_node (ngx_crc32_short k) k ty v e u) (n_remove k (nodes s)) rc f (nodes s') r"
proof -
  obtain sd where sd: "mem s a = Some sd" using s(2) by blast
  show ?thesis
  proof (cases "length v = unat (value_len sd)")
    case True
    then show ?thesis
      using reuse_node_refine [OF s, of e u] sd
      by (intro exI [of _ Stored] exI [of _ False] exI [of _ "reuse_node a k ty v e u s"] exI [of _ 0])
        (auto simp: store_replace_def insert_post_def)
  next
    case False
    obtain s1 where s1: "free_node env a s = Some s1" "shd_inv s1" "nodes s1 = n_remove k (nodes s)"
      using free_node_refine [OF s(1,2)] s(3) by metis
    then have "n_find k (nodes s1) = None" by simp
    from store_insert_refine [OF s1(2) this s(4), of env flags e u] show ?thesis
      using False sd s1(1,3) by (simp add: store_replace_def store_remove_def)
  qed
qed

text \<open>Which stores go ahead, given whether an unexpired entry is there.\<close>

definition accepts :: "nat \<Rightarrow> bool \<Rightarrow> bool" where
  "accepts flags present =
     (if flags AND SHDICT_REPLACE \<noteq> 0 then present
      else if flags AND SHDICT_ADD \<noteq> 0 then \<not> present
      else True)"

definition present :: "64 word \<Rightarrow> bytes \<Rightarrow> node list \<Rightarrow> bool" where
  "present t k xs \<longleftrightarrow> (case n_find k xs of None \<Rightarrow> False | Some sd \<Rightarrow> \<not> has_expired t sd)"

text \<open>The list after the background expiry every operation starts with.\<close>

definition pruned :: "64 word \<Rightarrow> node list \<Rightarrow> node list" where
  "pruned t xs = n_expire t 1 xs"

lemma live_pruned [simp]: "live t k (pruned t xs) = live t k xs"
  by (simp add: pruned_def n_expire_keeps_live)

lemma pruned_prefix: "\<exists>ys. xs = pruned t xs @ ys"
  by (simp only: pruned_def n_expire_prefix)

lemma pruned_Nil [simp]: "pruned t [] = []"
  by (simp add: pruned_def n_expire.simps)

lemma expire_1_refine:
  assumes "shd_inv s"
  shows "\<exists>k s'. shdict_expire env 1 0 s = Some (k, s') \<and> shd_inv s' \<and> nodes s' = pruned (now env) (nodes s)"
  using shdict_expire_refine [OF assms, of env 1 0] by (auto simp: pruned_def)

text \<open>What a store of a value does to the list: it is refused, or the old entry of the key is gone
  and the new one is inserted.\<close>

definition store_post ::
  "'p shenv \<Rightarrow> nat \<Rightarrow> bytes \<Rightarrow> node \<Rightarrow> node list \<Rightarrow> store_rc \<Rightarrow> bool \<Rightarrow> node list \<Rightarrow> nat \<Rightarrow> bool" where
  "store_post env flags k new xs rc f ys r \<longleftrightarrow>
     (if accepts flags (present (now env) k xs) then insert_post env flags new (n_remove k xs) rc f ys r
      else rc = (if flags AND SHDICT_REPLACE \<noteq> 0 then NotFound else Exists) \<and> \<not> f \<and> ys = n_touch k xs)"

lemma shdict_store_refine:
  assumes inv: "shd_inv s" and st: "storable k ty v"
  shows "\<exists>rc f s' r. shdict_store env flags k ty (Some v) e u s = Some (rc, f, s') \<and> shd_inv s' \<and>
    store_post env flags k (write_node (ngx_crc32_short k) k ty v e u) (pruned (now env) (nodes s)) rc f (nodes s') r"
proof -
  let ?t = "now env" and ?new = "write_node (ngx_crc32_short k) k ty v e u"
  let ?xs = "pruned ?t (nodes s)"
  have ty: "ty \<noteq> LUA_TNIL" using st by (auto simp: storable_def lua_type_defs)
  obtain k0 s1 where s1: "shdict_expire env 1 0 s = Some (k0, s1)" "shd_inv s1" "nodes s1 = ?xs"
    using expire_1_refine [OF inv, of env] by auto
  from s1(2) show ?thesis
  proof (cases rule: shdict_lookup_refine [of s1 env k])
    case missing
    have np: "present ?t k ?xs = False" using missing(2) s1(3) by (simp add: present_def)
    obtain rc f s' r where
      si: "store_insert env flags k ty (Some v) e u s1 = Some (rc, f, s')" "shd_inv s'"
      "insert_post env flags ?new (nodes s1) rc f (nodes s') r"
      using store_insert_refine [OF s1(2) missing(2) st, of env flags e u] by auto
    show ?thesis
    proof (cases "flags AND SHDICT_REPLACE = 0")
      case True
      then have "shdict_store env flags k ty (Some v) e u s = Some (rc, f, s')"
        using s1(1) missing(1) si(1) by (simp add: shdict_store_def)
      moreover have "store_post env flags k ?new ?xs rc f (nodes s') r"
        using si(3) True np n_remove_absent [OF missing(2)] s1(3) by (simp add: store_post_def accepts_def)
      ultimately show ?thesis using si(2) by auto
    next
      case False
      then have "shdict_store env flags k ty (Some v) e u s = Some (NotFound, False, s1)"
        using s1(1) missing(1) by (simp add: shdict_store_def)
      moreover have "store_post env flags k ?new ?xs NotFound False (nodes s1) 0"
        using False np missing(2) s1(3) by (simp add: store_post_def accepts_def n_touch_def)
      ultimately show ?thesis using s1(2) by auto
    qed
  next
    case (present a s2)
    let ?ok = "\<not> has_expired ?t (the (mem s1 a))"
    have pr: "Shdict_Props.present ?t k ?xs = ?ok" using present(8) s1(3) by (simp add: present_def)
    have a2: "a \<in> dom (mem s2)" "node_key (the (mem s2 a)) = k" using present by simp_all
    have rm: "n_remove k (nodes s2) = n_remove k ?xs" using present(3) s1(3) by simp
    obtain rc f s' r where
      sr: "store_replace env a flags k ty (Some v) e u s2 = Some (rc, f, s')" "shd_inv s'"
      "insert_post env flags ?new (n_remove k ?xs) rc f (nodes s') r"
      using store_replace_refine [OF present(2) a2 st, of env flags e u] rm by auto
    show ?thesis
    proof (cases "accepts flags ?ok")
      case True
      then have "shdict_store env flags k ty (Some v) e u s = Some (rc, f, s')"
        using s1(1) present(1) sr(1) ty by (auto simp: shdict_store_def accepts_def split: if_splits)
      moreover have "store_post env flags k ?new ?xs rc f (nodes s') r"
        using sr(3) True pr by (simp add: store_post_def)
      ultimately show ?thesis using sr(2) by auto
    next
      case False
      let ?rc = "if flags AND SHDICT_REPLACE \<noteq> 0 then NotFound else Exists"
      have "shdict_store env flags k ty (Some v) e u s = Some (?rc, False, s2)"
        using False s1(1) present(1) by (auto simp: shdict_store_def accepts_def split: if_splits)
      moreover have "store_post env flags k ?new ?xs ?rc False (nodes s2) 0"
        using False pr present(3) s1(3) by (simp add: store_post_def)
      ultimately show ?thesis using present(2) by blast
    qed
  qed
qed

text \<open>Storing \<open>nil\<close> removes the entry.\<close>

lemma shdict_store_nil_refine:
  assumes inv: "shd_inv s" and fl: "flags AND SHDICT_REPLACE = 0" "flags AND SHDICT_ADD = 0"
  shows "\<exists>s'. shdict_store env flags k LUA_TNIL None e u s = Some (Stored, False, s') \<and> shd_inv s' \<and>
    nodes s' = n_remove k (pruned (now env) (nodes s))"
proof -
  obtain k0 s1 where s1: "shdict_expire env 1 0 s = Some (k0, s1)" "shd_inv s1"
    "nodes s1 = pruned (now env) (nodes s)"
    using expire_1_refine [OF inv, of env] by auto
  from s1(2) show ?thesis
  proof (cases rule: shdict_lookup_refine [of s1 env k])
    case missing
    then show ?thesis
      using s1 fl n_remove_absent [OF missing(2)] by (auto simp: shdict_store_def store_insert_def)
  next
    case (present a s2)
    have "a \<in> dom (mem s2)" using present by simp
    then obtain s3 where "free_node env a s2 = Some s3" "shd_inv s3" "nodes s3 = n_remove k (nodes s2)"
      using free_node_refine [OF present(2)] present(4,7) by metis
    then show ?thesis
      using s1 fl present(1,3) by (auto simp: shdict_store_def store_insert_def store_remove_def)
  qed
qed

subsection \<open>Values round trip through a node\<close>

definition is_value :: "lua_value \<Rightarrow> bool" where
  "is_value v \<longleftrightarrow> (case v of LString b \<Rightarrow> length b < 2 ^ 32 | LNumber _ \<Rightarrow> True | LBool _ \<Rightarrow> True | _ \<Rightarrow> False)"

text \<open>The bytes and tag a value is stored as.\<close>

definition value_tag :: "lua_value \<Rightarrow> nat" where
  "value_tag v = (case v of LString _ \<Rightarrow> LUA_TSTRING | LNumber _ \<Rightarrow> LUA_TNUMBER | _ \<Rightarrow> LUA_TBOOLEAN)"

definition value_bytes :: "lua_value \<Rightarrow> bytes" where
  "value_bytes v =
     (case v of LString b \<Rightarrow> b | LNumber x \<Rightarrow> num_bytes x | LBool True \<Rightarrow> [CHR 0x01] | _ \<Rightarrow> [CHR 0x00])"

lemma check_value_is_value:
  "is_value v \<Longrightarrow> check_value flags v = Inr (value_tag v, Some (value_bytes v))"
  by (auto simp: is_value_def check_value_def value_tag_def value_bytes_def split: lua_value.splits)

lemma storable_value: "length k \<le> 65535 \<Longrightarrow> is_value v \<Longrightarrow> storable k (value_tag v) (value_bytes v)"
  by (auto simp: is_value_def storable_def value_tag_def value_bytes_def lua_type_defs
      split: lua_value.splits bool.splits)

lemma node_value_write:
  assumes "storable k (value_tag v) (value_bytes v)" "is_value v"
  shows "node_value (write_node h k (value_tag v) (value_bytes v) e u) = Inr v"
  using write_node_val [OF assms(1), of h e u] write_node_lens(2) [OF assms(1), of h e u] assms(2)
  by (auto simp: node_value_def is_value_def value_tag_def value_bytes_def lua_type_defs Let_def
      split: lua_value.splits bool.splits)

text \<open>A well-formed node always has a value: the size errors of \<open>get\<close> do not occur.\<close>

lemma node_value_wf: "node_wf sd \<Longrightarrow> \<exists>v. node_value sd = Inr v"
  by (auto simp: node_wf_def node_value_def lua_type_defs Let_def)

lemma live_wf: "shd_inv s \<Longrightarrow> mem s a = Some sd \<Longrightarrow> node_wf sd"
  by (auto simp: shd_inv_def)

subsection \<open>get\<close>

definition get_result :: "bool \<Rightarrow> node \<Rightarrow> bool \<Rightarrow> lua_value \<Rightarrow> lua_result" where
  "get_result get_stale sd stale v =
     (if get_stale then LRet [v, flags_value (user_flags sd), LBool stale]
      else if user_flags sd \<noteq> 0 then LRet [v, flags_value (user_flags sd)]
      else LRet [v])"

lemma shdict_get_helper_refine:
  fixes env :: "'p shenv" and get_stale :: bool
  assumes inv: "shd_inv s" and key: "check_key rt kv = Inr k"
  defines "xs \<equiv> if get_stale then nodes s else pruned (now env) (nodes s)"
  shows "\<exists>s'. shd_inv s' \<and> nodes s' = n_touch k xs \<and>
     shdict_get_helper rt env get_stale [LTable True, kv] s =
       Some (case n_find k xs of
               None \<Rightarrow> LRet [LNil]
             | Some sd \<Rightarrow>
                 (if has_expired (now env) sd \<and> \<not> get_stale then LRet [LNil]
                  else get_result get_stale sd (has_expired (now env) sd) (projr (node_value sd))), s')"
proof -
  obtain k0 s1 where s1: "(if \<not> get_stale then shdict_expire env 1 0 s else Some (0, s)) = Some (k0, s1)"
    "shd_inv s1" "nodes s1 = xs"
    using expire_1_refine [OF inv, of env] inv by (cases get_stale) (auto simp: xs_def)
  from s1(2) show ?thesis
  proof (cases rule: shdict_lookup_refine [of s1 env k])
    case missing
    then show ?thesis
      using s1 key by (auto simp: shdict_get_helper_def is_table_def has_zone_def n_touch_def)
  next
    case (present a s2)
    obtain sd where sd: "mem s1 a = Some sd" using present(6) by blast
    obtain v where v: "node_value sd = Inr v" using node_value_wf [OF live_wf [OF s1(2) sd]] by blast
    show ?thesis
      by (rule exI [of _ s2])
        (use present(1-5,8) s1 key sd v in
          \<open>auto simp: shdict_get_helper_def is_table_def has_zone_def get_result_def\<close>)
  qed
qed

subsection \<open>incr\<close>

lemma write_number_sel [simp]:
  "n_hash (write_number off x sd) = n_hash sd" "expires (write_number off x sd) = expires sd"
  "key_len (write_number off x sd) = key_len sd" "value_len (write_number off x sd) = value_len sd"
  "value_type (write_number off x sd) = value_type sd" "user_flags (write_number off x sd) = user_flags sd"
  by (simp_all add: write_number_def)

lemma write_number_node:
  assumes "node_wf sd" "value_len sd = 8" "length k = unat (key_len sd)"
  shows "node_key (write_number (length k) x sd) = node_key sd"
    "node_val (write_number (length k) x sd) = num_bytes x" "node_wf (write_number (length k) x sd)"
proof -
  have len: "length (node_data sd) = length k + 8"
    using assms by (simp add: node_wf_def)
  then show key: "node_key (write_number (length k) x sd) = node_key sd"
    using assms(3) by (simp add: node_key_def) (simp add: write_number_def)
  show "node_val (write_number (length k) x sd) = num_bytes x"
    using len assms(2,3) by (simp add: node_val_def) (simp add: write_number_def)
  show "node_wf (write_number (length k) x sd)"
    using assms(1) len key by (simp add: node_wf_def) (simp add: write_number_def)
qed

lemma node_key_length: "node_wf sd \<Longrightarrow> length (node_key sd) = unat (key_len sd)"
  by (simp add: node_wf_def node_key_def)

text \<open>Overwriting a live node in place, keeping its key and hash, and moving it to the front.\<close>

lemma update_node_refine:
  assumes "shd_inv s" "mem s a = Some sd" "n_hash sd' = n_hash sd" "node_key sd' = node_key sd" "node_wf sd'"
  defines "s' \<equiv> s\<lparr>queue := a # queue_remove a (queue s), mem := (mem s)(a \<mapsto> sd')\<rparr>"
  shows "shd_inv s'" "nodes s' = sd' # n_remove (node_key sd) (nodes s)"
proof -
  have "sorted_by (\<lambda>b. node_ord (the (((mem s)(a \<mapsto> sd')) b))) (inorder (rbtree s))"
    using shd_invD(2) [OF assms(1)] assms(2-4)
    by (subst sorted_by_cong [where k' = "\<lambda>a. node_ord (the (mem s a))"]) (auto simp: node_ord_def)
  then show "shd_inv s'" using assms(1,2,5) by (auto simp: shd_inv_def s'_def)
  have a: "a \<in> dom (mem s)" using assms(2) by blast
  have "map (\<lambda>b. the (((mem s)(a \<mapsto> sd')) b)) (queue_remove a (queue s)) = map (\<lambda>b. the (mem s b)) (queue_remove a (queue s))"
    by (rule map_cong) (auto simp: queue_remove_def)
  then show "nodes s' = sd' # n_remove (node_key sd) (nodes s)"
    using nodes_remove [OF assms(1) a] assms(2) by (simp add: s'_def nodes_def)
qed

text \<open>Whether an unexpired number is stored under the key.\<close>

definition number_at :: "64 word \<Rightarrow> bytes \<Rightarrow> node list \<Rightarrow> lua_number option" where
  "number_at t k xs =
     (case n_find k xs of
        None \<Rightarrow> None
      | Some sd \<Rightarrow>
          (if has_expired t sd then None
           else case node_value sd of Inr (LNumber x) \<Rightarrow> Some x | _ \<Rightarrow> None))"

lemma incr_node_refine:
  assumes inv: "shd_inv s"
  shows "\<exists>r s'. incr_node rt env k x s = Some (r, s') \<and> shd_inv s' \<and>
    (let xs = pruned (now env) (nodes s) in
     case number_at (now env) k xs of
       None \<Rightarrow> r = Inl (if present (now env) k xs then ''not a number'' else ''not found'') \<and> nodes s' = n_touch k xs
     | Some y \<Rightarrow>
         r = Inr (rt_add rt y x) \<and>
         (\<exists>sd. n_find k xs = Some sd \<and>
            nodes s' = write_number (length k) (rt_add rt y x) sd # n_remove k xs))"
proof -
  let ?xs = "pruned (now env) (nodes s)"
  obtain k0 s1 where s1: "shdict_expire env 1 0 s = Some (k0, s1)" "shd_inv s1" "nodes s1 = ?xs"
    using expire_1_refine [OF inv, of env] by auto
  from s1(2) show ?thesis
  proof (cases rule: shdict_lookup_refine [of s1 env k])
    case missing
    then have "incr_node rt env k x s = Some (Inl ''not found'', s1)" using s1(1) by (simp add: incr_node_def)
    then show ?thesis
      using s1 missing(2) by (simp add: number_at_def present_def n_touch_def)
  next
    case (present a s2)
    obtain sd where sd: "mem s1 a = Some sd" using present(6) by blast
    have k: "node_key sd = k" "n_find k ?xs = Some sd" using present(7,8) sd s1(3) by simp_all
    have wf: "node_wf sd" by (rule live_wf [OF s1(2) sd])
    have lk: "length k = unat (key_len sd)" using node_key_length [OF wf] k(1) by simp
    consider (expired) "has_expired (now env) sd"
      | (other) "\<not> has_expired (now env) sd" "value_type sd \<noteq> 3 \<or> value_len sd \<noteq> 8"
      | (num) "\<not> has_expired (now env) sd" "value_type sd = 3" "value_len sd = 8" by blast
    then show ?thesis
    proof cases
      case expired
      then have "incr_node rt env k x s = Some (Inl ''not found'', s2)"
        using s1(1) present(1) sd by (simp add: incr_node_def)
      then show ?thesis
        using present(2,3) expired k s1(3) by (simp add: number_at_def present_def)
    next
      case other
      have len8: "unat (value_len sd) = 8 \<longleftrightarrow> value_len sd = 8"
        using word_unat_eq_iff [of "value_len sd" 8] by simp
      have "incr_node rt env k x s = Some (Inl ''not a number'', s2)"
        using s1(1) present(1,4) sd other len8 by (auto simp: incr_node_def lua_type_defs)
      moreover have "number_at (now env) k ?xs = None"
        using other k wf by (auto simp: number_at_def node_value_def node_wf_def lua_type_defs Let_def)
      ultimately show ?thesis
        using present(2,3) other(1) k s1(3) by (simp add: present_def)
    next
      case num
      define y where "y = bytes_num (node_val sd)"
      let ?sd = "write_number (length k) (rt_add rt y x) sd"
      have v: "take 8 (drop (length k) (node_data sd)) = node_val sd"
        using num(3) lk by (simp add: node_val_def)
      note wn = write_number_node [OF wf num(3) lk]
      let ?s' = "s2\<lparr>queue := a # queue_remove a (queue s2), mem := (mem s2)(a \<mapsto> ?sd)\<rparr>"
      have "incr_node rt env k x s = Some (Inr (rt_add rt y x), ?s')"
        using s1(1) present(1,4) sd num by (simp add: incr_node_def lua_type_defs v y_def Let_def)
      moreover have "number_at (now env) k ?xs = Some y"
        using num k by (simp add: number_at_def node_value_def lua_type_defs y_def Let_def)
      moreover have "mem s2 a = Some sd" using present(4) sd by simp
      note upd = update_node_refine [OF present(2) this, of ?sd]
      have "shd_inv ?s'" "nodes ?s' = ?sd # n_remove k (nodes s2)"
        using upd wn k(1) by simp_all
      ultimately show ?thesis
        using k(2) present(3) s1(3) by (auto simp: Let_def)
    qed
  qed
qed

subsection \<open>Flushing\<close>

lemma expires_update [simp]:
  "node_key (sd\<lparr>expires := e\<rparr>) = node_key sd" "node_ord (sd\<lparr>expires := e\<rparr>) = node_ord sd"
  "node_wf (sd\<lparr>expires := e\<rparr>) = node_wf sd"
  by (simp_all add: node_key_def node_ord_def node_wf_def)

lemma fold_update:
  "distinct q \<Longrightarrow> fold (\<lambda>a m. m(a := map_option f (m a))) q m b = (if b \<in> set q then map_option f (m b) else m b)"
  by (induction q arbitrary: m) auto

lemma expire_all_mem:
  assumes "shd_inv s"
  shows "mem (expire_all s) = (\<lambda>a. map_option (\<lambda>sd. sd\<lparr>expires := 1\<rparr>) (mem s a))"
proof
  fix a
  show "mem (expire_all s) a = map_option (\<lambda>sd. sd\<lparr>expires := 1\<rparr>) (mem s a)"
    using shd_invD(4,5) [OF assms] by (cases "mem s a") (auto simp: expire_all_def fold_update)
qed

lemma expire_all_sel [simp]:
  "queue (expire_all s) = queue s" "rbtree (expire_all s) = rbtree s" "next_block (expire_all s) = next_block s"
  by (simp_all add: expire_all_def)

lemma expire_all_refine:
  assumes "shd_inv s"
  shows "shd_inv (expire_all s)" "nodes (expire_all s) = map (\<lambda>sd. sd\<lparr>expires := 1\<rparr>) (nodes s)"
proof -
  have the_map: "the (map_option f (mem s a)) = f (the (mem s a))" if "a \<in> dom (mem s)" for a and f :: "node \<Rightarrow> node"
    using that by auto
  have "sorted_by (\<lambda>a. node_ord (the (map_option (\<lambda>sd. sd\<lparr>expires := 1\<rparr>) (mem s a)))) (inorder (rbtree s))"
    using shd_invD(2,3) [OF assms]
    by (subst sorted_by_cong [where k' = "\<lambda>a. node_ord (the (mem s a))"]) (auto simp: the_map)
  then show "shd_inv (expire_all s)"
    using assms by (auto simp: shd_inv_def expire_all_mem [OF assms] dom_def)
  show "nodes (expire_all s) = map (\<lambda>sd. sd\<lparr>expires := 1\<rparr>) (nodes s)"
    using shd_invD(5) [OF assms] by (auto simp: nodes_def expire_all_mem [OF assms] the_map)
qed

text \<open>Which nodes \<open>flush_expired\<close> takes.\<close>

definition stale :: "64 word \<Rightarrow> node \<Rightarrow> bool" where
  "stale t sd \<longleftrightarrow> expires sd \<noteq> 0 \<and> expires sd \<le> t"

definition limited :: "int \<Rightarrow> int \<Rightarrow> 'a list \<Rightarrow> 'a list" where
  "limited attempts done xs = (if attempts > 0 then take (nat (attempts - done)) xs else xs)"

lemma limited_Nil [simp]: "limited attempts n [] = []"
  by (simp add: limited_def)

lemma limited_Cons:
  assumes "attempts > 0 \<longrightarrow> n < attempts" "0 \<le> n"
  shows "limited attempts n (x # xs) =
    (if attempts \<noteq> 0 \<and> n + 1 = attempts then [x] else x # limited attempts (n + 1) xs)"
proof (cases "attempts > 0")
  case True
  then obtain m where "nat (attempts - n) = Suc m" "nat (attempts - (n + 1)) = m"
    using assms by (metis Suc_nat_eq_nat_zadd1 add.commute diff_add_cancel diff_diff_add diff_ge_0_iff_ge zle_add1_eq_le)
  then show ?thesis using True by (auto simp: limited_def)
next
  case False
  then show ?thesis using assms by (auto simp: limited_def)
qed

lemma flush_expired_loop_refine:
  assumes "shd_inv s" "distinct q" "set q \<subseteq> dom (mem s)" "0 \<le> freed" "attempts > 0 \<longrightarrow> freed < attempts"
  shows "\<exists>s'. flush_expired_loop env attempts freed q s =
      Some (freed + int (length (limited attempts freed (filter (\<lambda>a. stale (now env) (the (mem s a))) q))), s') \<and>
    shd_inv s' \<and>
    mem s' = mem s |` (- set (limited attempts freed (filter (\<lambda>a. stale (now env) (the (mem s a))) q))) \<and>
    queue s' = filter (\<lambda>a. a \<notin> set (limited attempts freed (filter (\<lambda>a. stale (now env) (the (mem s a))) q))) (queue s)"
  using assms
proof (induction q arbitrary: s freed)
  case Nil
  then show ?case by simp
next
  case (Cons a q)
  obtain sd where sd: "mem s a = Some sd" using Cons.prems(3) by auto
  show ?case
  proof (cases "stale (now env) sd")
    case False
    then show ?thesis using Cons sd by (auto simp: stale_def)
  next
    case True
    obtain s1 where s1: "free_node env a s = Some s1" "shd_inv s1" "mem s1 = (mem s)(a := None)"
      "queue s1 = queue_remove a (queue s)"
      using free_node_refine [OF Cons.prems(1), of a env] sd by (metis domI)
    have same: "filter (\<lambda>b. stale (now env) (the (mem s1 b))) q = filter (\<lambda>b. stale (now env) (the (mem s b))) q"
      using Cons.prems(2) s1(3) by (intro filter_cong) auto
    let ?V = "limited attempts (freed + 1) (filter (\<lambda>b. stale (now env) (the (mem s b))) q)"
    show ?thesis
    proof (cases "attempts \<noteq> 0 \<and> freed + 1 = attempts")
      case last: True
      then show ?thesis
        using Cons.prems(4,5) sd True s1
        by (auto simp: stale_def limited_Cons queue_remove_def restrict_map_def fun_eq_iff)
    next
      case False
      have pre: "distinct q" "set q \<subseteq> dom (mem s1)" "0 \<le> freed + 1" "attempts > 0 \<longrightarrow> freed + 1 < attempts"
        using Cons.prems(2-5) s1(3) False by auto
      obtain s' where s': "flush_expired_loop env attempts (freed + 1) q s1 = Some (freed + 1 + int (length ?V), s')"
        "shd_inv s'" "mem s' = mem s1 |` (- set ?V)" "queue s' = filter (\<lambda>a. a \<notin> set ?V) (queue s1)"
        using Cons.IH [OF s1(2) pre, unfolded same] by (elim exE conjE)
      have lim: "limited attempts freed (filter (\<lambda>b. stale (now env) (the (mem s b))) (a # q)) = a # ?V"
        using limited_Cons [OF Cons.prems(5,4)] False sd True by simp
      have "mem s' = mem s |` (- set (a # ?V))"
        using s'(3) s1(3) by (auto simp: restrict_map_def fun_eq_iff)
      moreover have "queue s' = filter (\<lambda>b. b \<notin> set (a # ?V)) (queue s)"
        using s'(4) s1(4) by (auto simp: queue_remove_def intro: filter_cong)
      ultimately show ?thesis
        unfolding lim using sd True s1(1) s'(1,2) False by (auto simp: stale_def)
    qed
  qed
qed

lemma keys_loops_refine:
  assumes "set q \<subseteq> dom (mem s)" "0 \<le> tot" "attempts > 0 \<longrightarrow> tot < attempts"
  shows "count_keys env s attempts tot q =
      Some (tot + int (length (limited attempts tot (filter (\<lambda>a. \<not> stale (now env) (the (mem s a))) q)))) \<and>
    collect_keys env s attempts tot q =
      Some (map (\<lambda>a. LString (node_key (the (mem s a))))
        (limited attempts tot (filter (\<lambda>a. \<not> stale (now env) (the (mem s a))) q)))"
  using assms
proof (induction q arbitrary: tot)
  case (Cons a q)
  obtain sd where sd: "mem s a = Some sd" using Cons.prems(1) by auto
  have un: "(expires sd = 0 \<or> expires sd > now env) \<longleftrightarrow> \<not> stale (now env) sd"
    by (auto simp: stale_def)
  show ?case
  proof (cases "stale (now env) sd")
    case True
    then show ?thesis using Cons sd un by simp
  next
    case False
    then show ?thesis
      using Cons.IH [of "tot + 1"] Cons.prems sd un by (auto simp: limited_Cons)
  qed
qed simp

subsection \<open>Every function of the API\<close>

datatype shd_call =
    Get "lua_value list"
  | GetStale "lua_value list"
  | Store nat "lua_value list"
  | Delete "lua_value list"
  | Incr "lua_value list"
  | FlushAll "lua_value list"
  | FlushExpired "lua_value list"
  | GetKeys "lua_value list"

text \<open>\<open>Store\<close> carries the flags of \<open>set\<close>, \<open>safe_set\<close>, \<open>add\<close>, \<open>safe_add\<close> and \<open>replace\<close>.\<close>

fun shd_run :: "lua_rt \<Rightarrow> 'p shenv \<Rightarrow> shd_call \<Rightarrow> 'p shctx \<Rightarrow> (lua_result \<times> 'p shctx) option" where
  "shd_run rt env (Get args) s = shdict_get rt env args s"
| "shd_run rt env (GetStale args) s = shdict_get_stale rt env args s"
| "shd_run rt env (Store flags args) s = shdict_set_helper rt env flags args s"
| "shd_run rt env (Delete args) s = shdict_delete rt env args s"
| "shd_run rt env (Incr args) s = shdict_incr rt env args s"
| "shd_run rt env (FlushAll args) s = shdict_flush_all env args s"
| "shd_run rt env (FlushExpired args) s = shdict_flush_expired rt env args s"
| "shd_run rt env (GetKeys args) s = shdict_get_keys rt env args s"

text \<open>The Lua machine's own limit on strings, which the 32-bit length field needs.\<close>

definition sized :: "lua_value list \<Rightarrow> bool" where
  "sized args \<longleftrightarrow> (\<forall>b. LString b \<in> set args \<longrightarrow> length b < 2 ^ 32)"

fun call_args :: "shd_call \<Rightarrow> lua_value list" where
  "call_args (Get args) = args"
| "call_args (GetStale args) = args"
| "call_args (Store _ args) = args"
| "call_args (Delete args) = args"
| "call_args (Incr args) = args"
| "call_args (FlushAll args) = args"
| "call_args (FlushExpired args) = args"
| "call_args (GetKeys args) = args"

lemma check_key_Inr: "check_key rt v = Inr k \<Longrightarrow> 0 < length k \<and> length k \<le> 65535"
  by (auto simp: check_key_def split: if_splits option.splits)

lemma get_helper_ok:
  assumes "shd_inv s"
  shows "\<exists>r s'. shdict_get_helper rt env st args s = Some (r, s') \<and> shd_inv s'"
proof (cases "\<exists>kv k. args = [LTable True, kv] \<and> check_key rt kv = Inr k")
  case True
  then show ?thesis using shdict_get_helper_refine [OF assms] by blast
next
  case False
  then show ?thesis
    using assms by (auto simp: shdict_get_helper_def has_zone_def split: list.splits sum.splits)
qed

lemma set_helper_ok:
  assumes "shd_inv s" "sized args"
  shows "\<exists>r s'. shdict_set_helper rt env flags args s = Some (r, s') \<and> shd_inv s'"
proof (cases "\<exists>z k v opts key ty vd e u. args = z # k # v # opts \<and> \<not> length opts > 2 \<and> has_zone z \<and> is_table z \<and>
    check_key rt k = Inr key \<and> check_value flags v = Inr (ty, vd) \<and> check_exptime rt env opts = Some e \<and>
    check_flags rt opts = Some u")
  case True
  then obtain z k v opts key ty vd e u where a: "args = z # k # v # opts" "\<not> length opts > 2" "has_zone z" "is_table z"
    "check_key rt k = Inr key" "check_value flags v = Inr (ty, vd)" "check_exptime rt env opts = Some e"
    "check_flags rt opts = Some u" by blast
  have "\<exists>rc f s'. shdict_store env flags key ty vd e u s = Some (rc, f, s') \<and> shd_inv s'"
  proof (cases vd)
    case None
    then have "ty = LUA_TNIL" "flags AND SHDICT_REPLACE = 0" "flags AND SHDICT_ADD = 0"
      using a(6) by (auto simp: check_value_def and_or_0 split: lua_value.splits if_splits)
    then show ?thesis using shdict_store_nil_refine [OF assms(1)] None by blast
  next
    case (Some b)
    then have "is_value v" "ty = value_tag v" "b = value_bytes v"
      using a(1,6) assms(2) by (auto simp: check_value_def is_value_def sized_def value_tag_def value_bytes_def
          split: lua_value.splits if_splits)
    then have "storable key ty b" using storable_value check_key_Inr [OF a(5)] by auto
    then show ?thesis using shdict_store_refine [OF assms(1)] Some by blast
  qed
  then show ?thesis using a by (auto simp: shdict_set_helper_def)
next
  case False
  then show ?thesis
    using assms by (auto simp: shdict_set_helper_def split: list.splits sum.splits option.splits)
qed

lemma delete_ok:
  assumes "shd_inv s" "sized args"
  shows "\<exists>r s'. shdict_delete rt env args s = Some (r, s') \<and> shd_inv s'"
  using assms set_helper_ok [OF assms(1), of "args @ [LNil]"] by (auto simp: shdict_delete_def sized_def)

lemma incr_ok:
  assumes "shd_inv s"
  shows "\<exists>r s'. shdict_incr rt env args s = Some (r, s') \<and> shd_inv s'"
proof (cases "\<exists>z kv v k x. args = [z, kv, v] \<and> is_table z \<and> has_zone z \<and> check_key rt kv = Inr k \<and> check_number rt v = Some x")
  case True
  then obtain z kv v k x where a: "args = [z, kv, v]" "is_table z" "has_zone z" "check_key rt kv = Inr k"
    "check_number rt v = Some x" by blast
  obtain r s' where "incr_node rt env k x s = Some (r, s')" "shd_inv s'"
    using incr_node_refine [OF assms] by blast
  with a show ?thesis by (simp add: shdict_incr_def)
next
  case False
  then show ?thesis
    using assms by (auto simp: shdict_incr_def split: list.splits sum.splits option.splits)
qed

lemma flush_all_zone:
  assumes "shd_inv s"
  shows "\<exists>s'. shdict_flush_all env [LTable True] s = Some (LRet [], s') \<and> shd_inv s' \<and>
     nodes s' = n_expire (now env) 0 (map (\<lambda>sd. sd\<lparr>expires := 1\<rparr>) (nodes s))"
  using shdict_expire_refine [OF expire_all_refine(1) [OF assms], of env 0 0] expire_all_refine(2) [OF assms]
  by (auto simp: shdict_flush_all_def check_zone_def is_table_def has_zone_def)

lemma flush_all_ok:
  assumes "shd_inv s"
  shows "\<exists>r s'. shdict_flush_all env args s = Some (r, s') \<and> shd_inv s'"
proof (cases "args = [LTable True]")
  case True
  then show ?thesis using flush_all_zone [OF assms] by blast
next
  case False
  then show ?thesis
    using assms by (auto simp: shdict_flush_all_def check_zone_def has_zone_def split: list.splits)
qed

lemma limited_map: "limited n m (map f xs) = map f (limited n m xs)"
  by (simp add: limited_def take_map)

lemma set_limited: "set (limited n m xs) \<subseteq> set xs"
  by (auto simp: limited_def dest: in_set_takeD)

lemma filter_nodes: "filter P (rev (nodes s)) = map (\<lambda>a. the (mem s a)) (filter (\<lambda>a. P (the (mem s a))) (rev (queue s)))"
  by (simp add: nodes_def rev_map filter_map o_def)

text \<open>Removing blocks from the queue and the memory is removing their nodes from the list.\<close>

lemma nodes_restrict:
  assumes "shd_inv s" "mem s' = mem s |` (- set V)" "queue s' = filter (\<lambda>a. a \<notin> set V) (queue s)"
    "set V \<subseteq> set (queue s)"
  shows "nodes s' = filter (\<lambda>sd. sd \<notin> set (map (\<lambda>a. the (mem s a)) V)) (nodes s)"
proof -
  have inj: "a \<in> set V \<longleftrightarrow> the (mem s a) \<in> (\<lambda>a. the (mem s a)) ` set V" if "a \<in> set (queue s)" for a
  proof
    assume "the (mem s a) \<in> (\<lambda>a. the (mem s a)) ` set V"
    then obtain b where b: "the (mem s a) = the (mem s b)" "b \<in> set V" by (rule imageE)
    then have "a = b"
      using key_inj [OF assms(1), of a b] that assms(4) shd_invD(5) [OF assms(1)] by auto
    with b show "a \<in> set V" by simp
  qed (rule imageI)
  have "nodes s' = map (\<lambda>a. the (mem s a)) (filter (\<lambda>a. a \<notin> set V) (queue s))"
    unfolding nodes_def assms(2,3) by (rule map_cong) (auto simp: restrict_map_def)
  also have "\<dots> = filter (\<lambda>sd. sd \<notin> set (map (\<lambda>a. the (mem s a)) V)) (nodes s)"
    unfolding nodes_def filter_map o_def using inj by (auto cong: filter_cong)
  finally show ?thesis .
qed

definition flushed :: "64 word \<Rightarrow> int \<Rightarrow> node list \<Rightarrow> node list" where
  "flushed t attempts xs = limited attempts 0 (filter (stale t) (rev xs))"

lemma zone_checks [simp]:
  "check_zone (LTable True) = None" "is_table (LTable True)" "has_zone (LTable True)"
  by (simp_all add: check_zone_def is_table_def has_zone_def)

lemma flush_expired_zone:
  assumes "shd_inv s" "check_attempts rt 0 opts = Some attempts" "length opts \<le> 1"
  shows "\<exists>s'. shdict_flush_expired rt env (LTable True # opts) s =
      Some (LRet [LNumber (num_of_int (int (length (flushed (now env) attempts (nodes s)))))], s') \<and> shd_inv s' \<and>
      nodes s' = filter (\<lambda>sd. sd \<notin> set (flushed (now env) attempts (nodes s))) (nodes s)"
proof -
  let ?V = "limited attempts 0 (filter (\<lambda>a. stale (now env) (the (mem s a))) (rev (queue s)))"
  have V: "flushed (now env) attempts (nodes s) = map (\<lambda>a. the (mem s a)) ?V"
    by (simp add: flushed_def filter_nodes limited_map)
  show ?thesis
  proof (cases "queue s = []")
    case True
    then show ?thesis using assms by (auto simp: shdict_flush_expired_def flushed_def nodes_def)
  next
    case False
    have "distinct (rev (queue s))" "set (rev (queue s)) \<subseteq> dom (mem s)" "(0 :: int) \<le> 0" "attempts > 0 \<longrightarrow> 0 < attempts"
      using shd_invD(4,5) [OF assms(1)] by auto
    from flush_expired_loop_refine [OF assms(1) this, of env] obtain s' where s':
      "flush_expired_loop env attempts 0 (rev (queue s)) s = Some (0 + int (length ?V), s')" "shd_inv s'"
      "mem s' = mem s |` (- set ?V)" "queue s' = filter (\<lambda>a. a \<notin> set ?V) (queue s)" by (elim exE conjE)
    have "set ?V \<subseteq> set (queue s)" using set_limited by fastforce
    from nodes_restrict [OF assms(1) s'(3,4) this] show ?thesis
      using s'(1,2) assms(2,3) False unfolding V by (simp add: shdict_flush_expired_def)
  qed
qed

lemma flush_expired_ok:
  assumes "shd_inv s"
  shows "\<exists>r s'. shdict_flush_expired rt env args s = Some (r, s') \<and> shd_inv s'"
proof (cases "\<exists>opts n. args = LTable True # opts \<and> length opts \<le> 1 \<and> check_attempts rt 0 opts = Some n")
  case True
  then show ?thesis using flush_expired_zone [OF assms] by blast
next
  case False
  then show ?thesis
    using assms by (auto simp: shdict_flush_expired_def check_zone_def has_zone_def not_le split: list.splits option.splits)
qed

definition listed :: "64 word \<Rightarrow> int \<Rightarrow> node list \<Rightarrow> node list" where
  "listed t attempts xs = limited attempts 0 (filter (\<lambda>sd. \<not> stale t sd) (rev xs))"

lemma get_keys_zone:
  assumes "shd_inv s" "check_attempts rt 1024 opts = Some attempts" "length opts \<le> 1"
  shows "shdict_get_keys rt env (LTable True # opts) s =
      Some (LRet [LList (map (\<lambda>sd. LString (node_key sd)) (listed (now env) attempts (nodes s)))], s)"
proof (cases "queue s = []")
  case True
  then show ?thesis using assms by (auto simp: shdict_get_keys_def listed_def nodes_def)
next
  case False
  have "set (rev (queue s)) \<subseteq> dom (mem s)" "(0 :: int) \<le> 0" "attempts > 0 \<longrightarrow> 0 < attempts"
    using shd_invD(5) [OF assms(1)] by auto
  note loops = keys_loops_refine [OF this, of env]
  show ?thesis
    using False assms(2,3) loops
    by (simp add: shdict_get_keys_def listed_def filter_nodes limited_map o_def)
qed

lemma get_keys_ok:
  assumes "shd_inv s"
  shows "\<exists>r. shdict_get_keys rt env args s = Some (r, s)"
proof (cases "\<exists>opts n. args = LTable True # opts \<and> length opts \<le> 1 \<and> check_attempts rt 1024 opts = Some n")
  case True
  then show ?thesis using get_keys_zone [OF assms] by blast
next
  case False
  then show ?thesis
    by (auto simp: shdict_get_keys_def check_zone_def has_zone_def not_le split: list.splits option.splits)
qed

lemma shd_run_ok:
  assumes "shd_inv s" "sized (call_args c)"
  shows "\<exists>r s'. shd_run rt env c s = Some (r, s') \<and> shd_inv s'"
proof (cases c)
  case (Store f args)
  then show ?thesis using set_helper_ok [OF assms(1), of args] assms(2) by simp
next
  case (Delete args)
  then show ?thesis using delete_ok [OF assms(1), of args] assms(2) by simp
next
  case (Incr args)
  then show ?thesis using incr_ok [OF assms(1)] by simp
next
  case (FlushAll args)
  then show ?thesis using flush_all_ok [OF assms(1)] by simp
next
  case (FlushExpired args)
  then show ?thesis using flush_expired_ok [OF assms(1)] by simp
next
  case (GetKeys args)
  then show ?thesis using get_keys_ok [OF assms(1), of rt env args] assms(1) by auto
qed (simp_all add: shdict_get_def shdict_get_stale_def get_helper_ok [OF assms(1)])

subsection \<open>Sequences of calls\<close>

inductive shd_reach :: "'p shctx \<Rightarrow> bool" where
  init: "shd_reach (init_zone p)"
| call: "shd_reach s \<Longrightarrow> sized (call_args c) \<Longrightarrow> shd_run rt env c s = Some (r, s') \<Longrightarrow> shd_reach s'"

lemma shd_reach_inv: "shd_reach s \<Longrightarrow> shd_inv s"
proof (induction rule: shd_reach.induct)
  case (call s c rt env r s')
  then show ?case using shd_run_ok [of s c rt env] by auto
qed simp

text \<open>A concrete environment for examples: memory never runs out.\<close>

definition demo_env :: "64 word \<Rightarrow> unit shenv" where
  "demo_env t = \<lparr>slab_alloc = (\<lambda>p a n. Some p), slab_free = (\<lambda>p a. p), now = t\<rparr>"

lemma now_demo_env [simp]: "now (demo_env t) = t"
  by (simp add: demo_env_def)

lemma demo_store:
  assumes "length k \<le> 65535"
  shows "\<exists>s. shdict_store (demo_env t) 0 k ty (Some v) e u (init_zone ()) = Some (Stored, False, s)"
  by (simp add: shdict_store_def shdict_expire.simps shdict_lookup_def init_zone_def store_insert_def
      alloc_node_def demo_env_def link_node_def rbtree_insert_def Let_def)

lemma check_key_string: "0 < length k \<Longrightarrow> length k \<le> 65535 \<Longrightarrow> check_key rt (LString k) = Inr k"
  by (simp add: check_key_def)

text \<open>How \<open>set_helper\<close> ends once its arguments are accepted.\<close>

lemma set_helper_store:
  assumes "check_key rt kv = Inr k" "is_value v" "length opts \<le> 2" "check_exptime rt env opts = Some e"
    "check_flags rt opts = Some u"
  shows "shdict_set_helper rt env flags (LTable True # kv # v # opts) s =
     map_option (\<lambda>(rc, f, s'). (store_result flags rc f, s'))
       (shdict_store env flags k (value_tag v) (Some (value_bytes v)) e u s)"
  using assms check_value_is_value [OF assms(2), of flags]
  by (cases "shdict_store env flags k (value_tag v) (Some (value_bytes v)) e u s")
    (auto simp: shdict_set_helper_def)

lemma store_result_True: "store_result flags rc f = LRet [LBool True, LNil, LBool g] \<longleftrightarrow> rc = Stored \<and> f = g"
  by (auto simp: store_result_def split: store_rc.splits)

text \<open>After a successful store the new node heads the list.\<close>

lemma stored_head:
  assumes "shd_inv s" "storable k ty b" "shdict_store env flags k ty (Some b) e u s = Some (Stored, f, s')"
  shows "shd_inv s'" "n_find k (nodes s') = Some (write_node (ngx_crc32_short k) k ty b e u)"
proof -
  obtain r where "shd_inv s'" and
    "store_post env flags k (write_node (ngx_crc32_short k) k ty b e u) (pruned (now env) (nodes s)) Stored f (nodes s') r"
    using shdict_store_refine [OF assms(1,2), of env flags e u] assms(3) by auto
  then show "shd_inv s'" "n_find k (nodes s') = Some (write_node (ngx_crc32_short k) k ty b e u)"
    by (auto simp: store_post_def insert_post_def n_find_Cons write_node_key [OF assms(2)] split: if_splits)
qed

lemma get_key_result:
  assumes "shd_inv s" "check_key rt kv = Inr k" "n_find k (nodes s) = Some sd" "\<not> dead (now env) sd"
  shows "\<exists>s'. shd_inv s' \<and>
    shdict_get rt env [LTable True, kv] s = Some (get_result False sd False (projr (node_value sd)), s')"
proof -
  have "live (now env) k (nodes s) = Some sd" using assms(3,4) by (simp add: live_def)
  then have "live (now env) k (pruned (now env) (nodes s)) = Some sd" by simp
  then have "n_find k (pruned (now env) (nodes s)) = Some sd" by (rule live_SomeD [THEN conjunct1])
  then show ?thesis
    using shdict_get_helper_refine [OF assms(1,2), where get_stale = False and env = env] assms(4) has_expired_dead
    by (auto simp: shdict_get_def)
qed

subsection \<open>Properties\<close>

text \<open>
  C1: whatever sequence of calls with whatever arguments, clocks and allocator decisions led to a
  zone, the next call returns without following a dangling pointer, and leaves a zone whose tree
  is a valid red-black tree ordered by hash and key, whose queue and tree hold the same live
  blocks, and whose nodes are well formed.
\<close>

theorem shdict_calls_safe:
  assumes "shd_reach s" "sized (call_args c)"
  shows "\<exists>r s'. shd_run rt env c s = Some (r, s') \<and> shd_inv s'"
  by (rule shd_run_ok [OF shd_reach_inv [OF assms(1)] assms(2)])

theorem shdict_calls_safe_witness:
  "\<exists>r s'. shd_run demo_rt (demo_env 5) (Get [LTable True, LString ''a'']) (init_zone ()) = Some (r, s') \<and> shd_inv s'"
  by (rule shdict_calls_safe) (simp_all add: shd_reach.init sized_def)

text \<open>
  C15: \<open>set\<close> (and \<open>add\<close>, \<open>replace\<close> and the safe variants) that reports success makes \<open>get\<close> of the
  same key return that very value, string, number or boolean, with its flags, at any later time
  before the expiry.
\<close>

theorem set_then_get:
  assumes "shd_inv s" "check_key rt kv = Inr k" "is_value v" "length opts \<le> 2"
    and "check_exptime rt env opts = Some e" "check_flags rt opts = Some u"
    and "shdict_set_helper rt env flags (LTable True # kv # v # opts) s =
           Some (LRet [LBool True, LNil, LBool f], s1)"
    and "e = 0 \<or> sint (e - now env') > 0"
  shows "\<exists>s2. shdict_get rt env' [LTable True, kv] s1 =
    Some (LRet (if u \<noteq> 0 then [v, flags_value u] else [v]), s2)"
proof -
  have st: "storable k (value_tag v) (value_bytes v)"
    using check_key_Inr [OF assms(2)] assms(3) by (simp add: storable_value)
  let ?sd = "write_node (ngx_crc32_short k) k (value_tag v) (value_bytes v) e u"
  have "shdict_store env flags k (value_tag v) (Some (value_bytes v)) e u s = Some (Stored, f, s1)"
    using assms(7) set_helper_store [OF assms(2-6), of flags s] by (auto simp: store_result_True)
  note h = stored_head [OF assms(1) st this]
  have "\<not> dead (now env') ?sd" using assms(8) by (auto simp: dead_def)
  from get_key_result [OF h(1) assms(2) h(2) this] show ?thesis
    using node_value_write [OF st assms(3)] by (auto simp: get_result_def)
qed

theorem set_then_get_witness:
  "\<exists>s1 s2. shdict_set_helper demo_rt (demo_env 5) 0 [LTable True, LString ''a'', LString ''x''] (init_zone ()) =
       Some (LRet [LBool True, LNil, LBool False], s1) \<and>
     shdict_get demo_rt (demo_env 9) [LTable True, LString ''a''] s1 = Some (LRet [LString ''x''], s2)"
proof -
  have args: "check_key demo_rt (LString ''a'') = Inr ''a''" "is_value (LString ''x'')" "length [] \<le> 2"
    "check_exptime demo_rt (demo_env 5) [] = Some 0" "check_flags demo_rt [] = Some 0"
    by (simp_all add: check_key_string is_value_def check_exptime_def check_flags_def)
  obtain s1 where "shdict_store (demo_env 5) 0 ''a'' (value_tag (LString ''x'')) (Some (value_bytes (LString ''x''))) 0 0
      (init_zone ()) = Some (Stored, False, s1)"
    using demo_store by fastforce
  then have "shdict_set_helper demo_rt (demo_env 5) 0 (LTable True # LString ''a'' # LString ''x'' # []) (init_zone ()) =
       Some (LRet [LBool True, LNil, LBool False], s1)"
    using set_helper_store [OF args, of 0 "init_zone ()"] by (simp add: store_result_def)
  then show ?thesis
    using set_then_get [OF init_zone_inv args, of 0 "()" False s1 "demo_env 9"] by auto
qed

text \<open>
  C14: what a store of a value does, on every branch. It starts from the list without the dead
  entries the background expiry drops. \<open>replace\<close> without an unexpired entry and \<open>add\<close> with one are
  refused and only touch the entry. Otherwise the old entry of the key goes, at most 30 rounds of
  eviction run (none for a safe store), and either the new entry is in front or memory ran out;
  the \<open>forcible\<close> flag tells exactly whether other entries were evicted.
\<close>

theorem shdict_store_spec:
  assumes "shd_inv s" "storable k ty v"
  shows "\<exists>rc f s' r. shdict_store env flags k ty (Some v) e u s = Some (rc, f, s') \<and> shd_inv s' \<and>
    store_post env flags k (write_node (ngx_crc32_short k) k ty v e u) (pruned (now env) (nodes s)) rc f (nodes s') r"
  by (rule shdict_store_refine [OF assms])

theorem shdict_store_spec_witness:
  "\<exists>rc f s' r. shdict_store (demo_env 5) SHDICT_ADD ''a'' 4 (Some ''x'') 0 0 (init_zone ()) = Some (rc, f, s') \<and> shd_inv s' \<and>
    store_post (demo_env 5) SHDICT_ADD ''a'' (write_node (ngx_crc32_short ''a'') ''a'' 4 ''x'' 0 0)
      (pruned 5 (nodes (init_zone ()))) rc f (nodes s') r"
  using shdict_store_spec [of "init_zone ()" "''a''" 4 "''x''" "demo_env 5" SHDICT_ADD 0 0] by (simp add: storable_def)

text \<open>
  A store that does not report \<open>forcible\<close> leaves every other live entry alone, whether it
  succeeds, is refused or runs out of memory.
\<close>

theorem store_keeps_other_keys:
  assumes "shd_inv s" "storable k ty v" "shdict_store env flags k ty (Some v) e u s = Some (rc, False, s')" "k' \<noteq> k"
  shows "live (now env) k' (nodes s') = live (now env) k' (nodes s)"
proof -
  let ?xs = "pruned (now env) (nodes s)"
  obtain r where "store_post env flags k (write_node (ngx_crc32_short k) k ty v e u) ?xs rc False (nodes s') r"
    using shdict_store_refine [OF assms(1,2), of env flags e u] assms(3) by auto
  then have "live (now env) k' (nodes s') = live (now env) k' ?xs"
    using assms(4) write_node_key [OF assms(2)]
    by (auto simp: store_post_def insert_post_def live_Cons live_remove split: if_splits)
  then show ?thesis by simp
qed

text \<open>
  A store that runs out of memory has lost the old value of the key: the entry is unlinked
  before the allocation, and nothing puts it back, also for \<open>safe_set\<close>.
\<close>

theorem no_memory_loses_old_value:
  assumes "shd_inv s" "storable k ty v" "shdict_store env flags k ty (Some v) e u s = Some (NoMemory, f, s')"
  shows "n_find k (nodes s') = None"
proof -
  let ?xs = "pruned (now env) (nodes s)"
  obtain r where "store_post env flags k (write_node (ngx_crc32_short k) k ty v e u) ?xs NoMemory f (nodes s') r"
    using shdict_store_refine [OF assms(1,2), of env flags e u] assms(3) by auto
  then have "nodes s' = n_evict (now env) r (n_remove k ?xs)"
    by (auto simp: store_post_def insert_post_def split: if_splits)
  moreover obtain ys where "n_remove k ?xs = n_evict (now env) r (n_remove k ?xs) @ ys" using n_evict_prefix by blast
  ultimately show ?thesis by (metis n_find_append n_remove_find_None option.case_eq_if option.distinct(1))
qed

text \<open>
  \<open>delete\<close> always reports success, removes the key and no other live entry, and a following
  \<open>get\<close> returns nil.
\<close>

theorem delete_then_get:
  assumes "shd_inv s" "check_key rt kv = Inr k"
  shows "\<exists>s1. shdict_delete rt env [LTable True, kv] s = Some (LRet [LBool True, LNil, LBool False], s1) \<and>
     (\<exists>s2. shdict_get rt env' [LTable True, kv] s1 = Some (LRet [LNil], s2)) \<and>
     (\<forall>k'. live (now env) k' (nodes s1) = (if k' = k then None else live (now env) k' (nodes s)))"
proof -
  obtain s1 where s1: "shdict_store env 0 k LUA_TNIL None 0 0 s = Some (Stored, False, s1)" "shd_inv s1"
    "nodes s1 = n_remove k (pruned (now env) (nodes s))"
    using shdict_store_nil_refine [OF assms(1), of 0 env k 0 0] by auto
  have "shdict_delete rt env [LTable True, kv] s = Some (LRet [LBool True, LNil, LBool False], s1)"
    using s1(1) assms(2)
    by (simp add: shdict_delete_def shdict_set_helper_def check_value_def check_exptime_def check_flags_def store_result_def)
  moreover have "n_find k (pruned (now env') (nodes s1)) = None"
    using pruned_prefix [of "nodes s1" "now env'"] s1(3) n_remove_find_None
    by (metis n_find_append option.case_eq_if option.distinct(1))
  then have "\<exists>s2. shdict_get rt env' [LTable True, kv] s1 = Some (LRet [LNil], s2)"
    using shdict_get_helper_refine [OF s1(2) assms(2), where get_stale = False and env = env'] by (auto simp: shdict_get_def)
  moreover have "live (now env) k' (nodes s1) = (if k' = k then None else live (now env) k' (nodes s))" for k'
    by (simp add: s1(3) live_remove)
  ultimately show ?thesis by blast
qed

text \<open>
  \<open>incr\<close> of a key that holds an unexpired number returns the sum computed by the host's
  addition, and a \<open>get\<close> that still finds the entry alive returns that sum; flags and expiry of the
  entry and every other live entry are unchanged. Without such a number it changes no value and
  says why.
\<close>

theorem incr_spec:
  assumes "shd_inv s" "check_key rt kv = Inr k" "check_number rt nv = Some x"
  shows "\<exists>s'. shd_inv s' \<and>
    (let xs = pruned (now env) (nodes s) in
     case number_at (now env) k xs of
       None \<Rightarrow>
         shdict_incr rt env [LTable True, kv, nv] s =
           Some (LRet [LNil, LString (if present (now env) k xs then ''not a number'' else ''not found'')], s') \<and>
         nodes s' = n_touch k xs
     | Some y \<Rightarrow>
         shdict_incr rt env [LTable True, kv, nv] s = Some (LRet [LNumber (rt_add rt y x), LNil], s') \<and>
         (\<exists>sd sd'. n_find k xs = Some sd \<and> n_find k (nodes s') = Some sd' \<and>
            node_value sd' = Inr (LNumber (rt_add rt y x)) \<and>
            expires sd' = expires sd \<and> user_flags sd' = user_flags sd) \<and>
         (\<forall>k'. k' \<noteq> k \<longrightarrow> live (now env) k' (nodes s') = live (now env) k' (nodes s)))"
proof -
  let ?xs = "pruned (now env) (nodes s)"
  obtain r s' where i: "incr_node rt env k x s = Some (r, s')" "shd_inv s'"
    "case number_at (now env) k ?xs of
       None \<Rightarrow> r = Inl (if present (now env) k ?xs then ''not a number'' else ''not found'') \<and> nodes s' = n_touch k ?xs
     | Some y \<Rightarrow> r = Inr (rt_add rt y x) \<and>
         (\<exists>sd. n_find k ?xs = Some sd \<and> nodes s' = write_number (length k) (rt_add rt y x) sd # n_remove k ?xs)"
    using incr_node_refine [OF assms(1), of rt env k x] by (auto simp: Let_def)
  have call: "shdict_incr rt env [LTable True, kv, nv] s =
      Some (case r of Inl e \<Rightarrow> LRet [LNil, LString e] | Inr num \<Rightarrow> LRet [LNumber num, LNil], s')"
    using assms(2,3) i(1) by (simp add: shdict_incr_def)
  show ?thesis
  proof (cases "number_at (now env) k ?xs")
    case None
    then show ?thesis using i(2,3) call by (auto simp: Let_def)
  next
    case (Some y)
    then obtain sd where sd: "r = Inr (rt_add rt y x)" "n_find k ?xs = Some sd"
      "nodes s' = write_number (length k) (rt_add rt y x) sd # n_remove k ?xs" using i(3) by auto
    obtain k0 s1 where "shdict_expire env 1 0 s = Some (k0, s1)" "shd_inv s1" "nodes s1 = ?xs"
      using expire_1_refine [OF assms(1), of env] by auto
    then have wf: "node_wf sd" and key: "node_key sd = k"
      using live_nodes_wf [of s1 sd] n_find_SomeD [OF sd(2)] by auto
    have num: "value_type sd = 3" "value_len sd = 8"
      using Some sd(2) wf by (auto simp: number_at_def node_value_def node_wf_def lua_type_defs Let_def split: if_splits)
    note wn = write_number_node [OF wf num(2), of k "rt_add rt y x"]
    have lk: "length k = unat (key_len sd)" using node_key_length [OF wf] key by simp
    have f: "n_find k (nodes s') = Some (write_number (length k) (rt_add rt y x) sd)"
      using sd(3) wn(1) [OF lk] key by (simp add: n_find_Cons)
    have v: "node_value (write_number (length k) (rt_add rt y x) sd) = Inr (LNumber (rt_add rt y x))"
      using num wn(2) [OF lk] by (simp add: node_value_def lua_type_defs Let_def)
    have "live (now env) k' (nodes s') = live (now env) k' (nodes s)" if "k' \<noteq> k" for k'
      using that sd(3) wn(1) [OF lk] key by (simp add: live_Cons live_remove)
    then show ?thesis using Some i(2) call sd(1,2) f v by (auto simp: Let_def)
  qed
qed

text \<open>
  After \<open>flush_all\<close>, \<open>get\<close> returns nil for every key, at every time at which time 1 has
  passed; the entries stay allocated until they are evicted.
\<close>

theorem flush_all_then_get:
  assumes "shd_inv s" "check_key rt kv = Inr k" "sint (1 - now env') < 0"
  shows "\<exists>s1. shdict_flush_all env [LTable True] s = Some (LRet [], s1) \<and>
     (\<exists>s2. shdict_get rt env' [LTable True, kv] s1 = Some (LRet [LNil], s2))"
proof -
  obtain s1 where s1: "shdict_flush_all env [LTable True] s = Some (LRet [], s1)" "shd_inv s1"
    "nodes s1 = n_expire (now env) 0 (map (\<lambda>sd. sd\<lparr>expires := 1\<rparr>) (nodes s))"
    using flush_all_zone [OF assms(1)] by blast
  have gone: "expires sd = 1" if "n_find k (pruned (now env') (nodes s1)) = Some sd" for sd
  proof -
    have "sd \<in> set (pruned (now env') (nodes s1))" using n_find_SomeD [OF that] by blast
    moreover obtain ys where "nodes s1 = pruned (now env') (nodes s1) @ ys" using pruned_prefix by blast
    moreover obtain zs where "map (\<lambda>sd. sd\<lparr>expires := 1\<rparr>) (nodes s) = nodes s1 @ zs"
      using n_expire_prefix s1(3) by metis
    ultimately have "sd \<in> set (map (\<lambda>sd. sd\<lparr>expires := 1\<rparr>) (nodes s))" by (metis UnCI set_append)
    then show ?thesis by auto
  qed
  have "\<exists>s2. shdict_get rt env' [LTable True, kv] s1 = Some (LRet [LNil], s2)"
    using shdict_get_helper_refine [OF s1(2) assms(2), where get_stale = False and env = env'] gone assms(3)
    by (auto simp: shdict_get_def has_expired_def split: option.splits)
  with s1(1) show ?thesis by blast
qed

text \<open>
  \<open>flush_expired\<close> removes, from the least recently used end, the entries whose expiry time has
  come, as many as asked for or all of them, and no other entry; it returns how many it removed.
\<close>

theorem flush_expired_spec:
  assumes "shd_inv s" "check_attempts rt 0 opts = Some attempts" "length opts \<le> 1"
  shows "\<exists>s'. shdict_flush_expired rt env (LTable True # opts) s =
      Some (LRet [LNumber (num_of_int (int (length (flushed (now env) attempts (nodes s)))))], s') \<and> shd_inv s' \<and>
      nodes s' = filter (\<lambda>sd. sd \<notin> set (flushed (now env) attempts (nodes s))) (nodes s) \<and>
      (attempts \<le> 0 \<longrightarrow> nodes s' = filter (\<lambda>sd. \<not> stale (now env) sd) (nodes s)) \<and>
      (0 < attempts \<longrightarrow> int (length (flushed (now env) attempts (nodes s))) \<le> attempts)"
proof -
  let ?V = "flushed (now env) attempts (nodes s)"
  obtain s' where s': "shdict_flush_expired rt env (LTable True # opts) s = Some (LRet [LNumber (num_of_int (int (length ?V)))], s')"
    "shd_inv s'" "nodes s' = filter (\<lambda>sd. sd \<notin> set ?V) (nodes s)"
    using flush_expired_zone [OF assms] by blast
  have "set ?V = {sd \<in> set (nodes s). stale (now env) sd}" if "attempts \<le> 0"
    using that by (auto simp: flushed_def limited_def)
  then have "nodes s' = filter (\<lambda>sd. \<not> stale (now env) sd) (nodes s)" if "attempts \<le> 0"
    using that s'(3) by (auto intro: filter_cong)
  moreover have "int (length ?V) \<le> attempts" if "0 < attempts"
    using that by (simp add: flushed_def limited_def)
  ultimately show ?thesis using s' by blast
qed

text \<open>
  \<open>get_keys\<close> lists the keys of the entries that have not expired, least recently used first,
  without repetition, at most \<open>attempts\<close> of them (1024 by default, all of them for 0), and leaves
  the zone as it is; its counting pass computes exactly the size of the table it then fills.
\<close>

theorem get_keys_spec:
  assumes "shd_inv s" "check_attempts rt 1024 opts = Some attempts" "length opts \<le> 1"
  shows "shdict_get_keys rt env (LTable True # opts) s =
      Some (LRet [LList (map (\<lambda>sd. LString (node_key sd)) (listed (now env) attempts (nodes s)))], s) \<and>
      distinct (map node_key (listed (now env) attempts (nodes s))) \<and>
      count_keys env s attempts 0 (rev (queue s)) = Some (int (length (listed (now env) attempts (nodes s)))) \<and>
      (0 < attempts \<longrightarrow> int (length (listed (now env) attempts (nodes s))) \<le> attempts) \<and>
      (attempts = 0 \<longrightarrow> set (listed (now env) attempts (nodes s)) = {sd \<in> set (nodes s). \<not> stale (now env) sd})"
proof -
  have "distinct (map node_key (filter (\<lambda>sd. \<not> stale (now env) sd) (rev (nodes s))))"
    using nodes_distinct_keys [OF assms(1)] by (intro distinct_map_filter) (simp flip: rev_map)
  then have "distinct (map node_key (listed (now env) attempts (nodes s)))"
    by (auto simp: listed_def limited_def simp flip: take_map intro: distinct_take)
  moreover have "set (rev (queue s)) \<subseteq> dom (mem s)" using shd_invD(5) [OF assms(1)] by simp
  then have "count_keys env s attempts 0 (rev (queue s)) = Some (int (length (listed (now env) attempts (nodes s))))"
    using keys_loops_refine [of "rev (queue s)" s 0 attempts env] by (simp add: listed_def filter_nodes limited_map)
  ultimately show ?thesis
    using get_keys_zone [OF assms] by (auto simp: listed_def limited_def)
qed

text \<open>
  The FFI store and the Lua store are the same operation: given the same key and value, an
  expiry that means the same time and the same flags, they leave the same zone, and the FFI
  function's code, message and flag are those the Lua function pushes.
\<close>

definition ffi_of_store :: "store_rc \<Rightarrow> ngx_rc \<times> string option" where
  "ffi_of_store rc =
     (case rc of Stored \<Rightarrow> (NGX_OK, None) | NotFound \<Rightarrow> (NGX_DECLINED, Some ''not found'')
      | Exists \<Rightarrow> (NGX_DECLINED, Some ''exists'') | NoMemory \<Rightarrow> (NGX_ERROR, Some ''no memory''))"

theorem ffi_store_is_lua_store:
  assumes "shd_inv s" "check_key rt kv = Inr k" "is_value v" "length opts \<le> 2"
    and "check_exptime rt env opts = Some (if exptime > 0 then now env + word_of_int exptime else 0)"
    and "check_flags rt opts = Some (word_of_int uflags)"
    and "ffi_value flags (value_tag v) buf x = Inr (Some (value_bytes v))"
  shows "\<exists>rc f s'. shdict_set_helper rt env flags (LTable True # kv # v # opts) s = Some (store_result flags rc f, s') \<and>
     ffi_shdict_store env (Some s) flags k (value_tag v) buf x exptime uflags =
       Some (fst (ffi_of_store rc), snd (ffi_of_store rc), Some f, Some s')"
proof -
  have "storable k (value_tag v) (value_bytes v)"
    using check_key_Inr [OF assms(2)] assms(3) by (simp add: storable_value)
  then obtain rc f s' where st: "shdict_store env flags k (value_tag v) (Some (value_bytes v))
      (if exptime > 0 then now env + word_of_int exptime else 0) (word_of_int uflags) s = Some (rc, f, s')"
    using shdict_store_refine [OF assms(1)] by blast
  then show ?thesis
    using set_helper_store [OF assms(2-6), of flags s] assms(7)
    by (intro exI [of _ rc] exI [of _ f] exI [of _ s'])
      (auto simp: ffi_shdict_store_def ffi_of_store_def split: store_rc.splits)
qed

end
