(* ===== verification/Semaphore_Mm.thy ===== *)
theory Semaphore_Mm
  imports Prelude
begin

section \<open>The semaphore pool (ngx\_stream\_lua\_semaphore.c)\<close>

text \<open>
  Semaphores are allocated in blocks of \<open>num_per_block\<close>. A semaphore is named by its block and its
  place there; \<open>free_queue\<close> chains the unused ones. A block on the older half of the epochs is
  returned to the system when nothing in it is used and the load is at most one half. The counters
  are \<open>ngx_uint_t\<close>; the invariant shows that the subtractions never go below zero, so integers
  model them. \<open>None\<close> is a dereference of a block that was freed.
\<close>

subsection \<open>State and operations\<close>

type_synonym sem_id = "nat \<times> nat"

record mm_block =
  b_used :: int
  b_epoch :: int

record sem_mm =
  free_queue :: "sem_id list"
  total_sems :: int
  used_sems :: int
  num_per_block :: nat
  cur_epoch :: int
  blocks :: "nat \<rightharpoonup> mm_block"
  next_blk :: nat

definition init_mm :: "nat \<Rightarrow> sem_mm" where
  "init_mm n = \<lparr>free_queue = [], total_sems = 0, used_sems = 0, num_per_block = n, cur_epoch = 0,
     blocks = Map.empty, next_blk = 0\<rparr>"

text \<open>The semaphores of a block, in memory order.\<close>

definition block_sems :: "sem_mm \<Rightarrow> nat \<Rightarrow> sem_id list" where
  "block_sems mm b = map (\<lambda>i. (b, i)) [0..<num_per_block mm]"

text \<open>\<open>alloc_semaphore\<close>; \<open>sys_ok\<close> tells whether \<open>ngx_alloc\<close> succeeds. The inner option is \<open>NULL\<close>.\<close>

definition alloc_semaphore :: "bool \<Rightarrow> sem_mm \<Rightarrow> (sem_id option \<times> sem_mm) option" where
  "alloc_semaphore sys_ok mm =
     (case free_queue mm of
        sem # q \<Rightarrow>
          (case blocks mm (fst sem) of
             None \<Rightarrow> None
           | Some blk \<Rightarrow>
               Some (Some sem, mm\<lparr>free_queue := q, blocks := (blocks mm)(fst sem \<mapsto> blk\<lparr>b_used := b_used blk + 1\<rparr>),
                                  used_sems := used_sems mm + 1\<rparr>))
      | [] \<Rightarrow>
          (if \<not> sys_ok then Some (None, mm)
           else
             (let b = next_blk mm; epoch = cur_epoch mm + 1
              in Some (Some (b, 0),
                   mm\<lparr>cur_epoch := epoch, total_sems := total_sems mm + int (num_per_block mm),
                      used_sems := used_sems mm + 1,
                      blocks := (blocks mm)(b \<mapsto> \<lparr>b_used = 1, b_epoch = epoch\<rparr>),
                      next_blk := b + 1,
                      free_queue := free_queue mm @ tl (block_sems mm b)\<rparr>))))"

definition mid_epoch :: "sem_mm \<Rightarrow> int" where
  "mid_epoch mm = cur_epoch mm - (total_sems mm div int (num_per_block mm)) div 2"

definition free_semaphore :: "sem_id \<Rightarrow> sem_mm \<Rightarrow> sem_mm option" where
  "free_semaphore sem mm =
     (case blocks mm (fst sem) of
        None \<Rightarrow> None
      | Some blk \<Rightarrow>
          (let blk = blk\<lparr>b_used := b_used blk - 1\<rparr>;
               mm = mm\<lparr>used_sems := used_sems mm - 1, blocks := (blocks mm)(fst sem \<mapsto> blk)\<rparr>;
               mid = mid_epoch mm;
               mm = (if b_epoch blk < mid then mm\<lparr>free_queue := free_queue mm @ [sem]\<rparr>
                     else mm\<lparr>free_queue := sem # free_queue mm\<rparr>)
           in if b_used blk = 0 \<and> used_sems mm \<le> total_sems mm div 2 \<and> b_epoch blk < mid
              then Some (mm\<lparr>free_queue := filter (\<lambda>x. x \<notin> set (block_sems mm (fst sem))) (free_queue mm),
                            total_sems := total_sems mm - int (num_per_block mm),
                            blocks := (blocks mm)(fst sem := None)\<rparr>)
              else Some mm))"

text \<open>The cleanup at exit: blocks are freed from the head of the queue until one is in use. A head
  that is not among its block's semaphores would be a dangling chain.\<close>

function cleanup_semaphore_mm :: "sem_mm \<Rightarrow> sem_mm option" where
  "cleanup_semaphore_mm mm =
     (case free_queue mm of
        [] \<Rightarrow> Some mm
      | sem # q \<Rightarrow>
          (case blocks mm (fst sem) of
             None \<Rightarrow> None
           | Some blk \<Rightarrow>
               (if b_used blk = 0 then
                  (let q' = filter (\<lambda>x. x \<notin> set (block_sems mm (fst sem))) (free_queue mm)
                   in if length q' < length (free_queue mm)
                      then cleanup_semaphore_mm (mm\<lparr>free_queue := q', blocks := (blocks mm)(fst sem := None)\<rparr>)
                      else None)
                else Some mm)))"
  by pat_completeness auto
termination by (relation "measure (\<lambda>mm. length (free_queue mm))") auto

declare cleanup_semaphore_mm.simps [simp del]

subsection \<open>Invariant\<close>

definition free_in :: "sem_mm \<Rightarrow> nat \<Rightarrow> sem_id list" where
  "free_in mm b = filter (\<lambda>x. fst x = b) (free_queue mm)"

text \<open>The queue holds distinct semaphores of live blocks and each block's counter agrees with it;
  the pool's counters agree with both.\<close>

definition mm_core :: "sem_mm \<Rightarrow> bool" where
  "mm_core mm \<longleftrightarrow>
     0 < num_per_block mm \<and> finite (dom (blocks mm)) \<and> distinct (free_queue mm) \<and>
     set (free_queue mm) \<subseteq> dom (blocks mm) \<times> {0..<num_per_block mm} \<and>
     (\<forall>b blk. blocks mm b = Some blk \<longrightarrow>
        b_used blk = int (num_per_block mm) - int (length (free_in mm b)) \<and> b < next_blk mm \<and> b_epoch blk \<le> cur_epoch mm)"

definition mm_inv :: "sem_mm \<Rightarrow> bool" where
  "mm_inv mm \<longleftrightarrow>
     mm_core mm \<and>
     total_sems mm = int (num_per_block mm) * int (card (dom (blocks mm))) \<and>
     used_sems mm = total_sems mm - int (length (free_queue mm)) \<and>
     int (card (dom (blocks mm))) \<le> cur_epoch mm"

text \<open>A semaphore the program holds: in a live block and not on the free queue.\<close>

definition in_use :: "sem_mm \<Rightarrow> sem_id \<Rightarrow> bool" where
  "in_use mm sem \<longleftrightarrow> fst sem \<in> dom (blocks mm) \<and> snd sem < num_per_block mm \<and> sem \<notin> set (free_queue mm)"

lemma mm_coreD:
  assumes "mm_core mm"
  shows "0 < num_per_block mm" "finite (dom (blocks mm))" "distinct (free_queue mm)"
    "set (free_queue mm) \<subseteq> dom (blocks mm) \<times> {0..<num_per_block mm}"
    "\<And>b blk. blocks mm b = Some blk \<Longrightarrow> b_used blk = int (num_per_block mm) - int (length (free_in mm b))"
    "\<And>b blk. blocks mm b = Some blk \<Longrightarrow> b < next_blk mm" "\<And>b blk. blocks mm b = Some blk \<Longrightarrow> b_epoch blk \<le> cur_epoch mm"
  using assms unfolding mm_core_def by blast+

lemma mm_coreI:
  assumes "0 < num_per_block mm" "finite (dom (blocks mm))" "distinct (free_queue mm)"
    "set (free_queue mm) \<subseteq> dom (blocks mm) \<times> {0..<num_per_block mm}"
    "\<And>b blk. blocks mm b = Some blk \<Longrightarrow>
      b_used blk = int (num_per_block mm) - int (length (free_in mm b)) \<and> b < next_blk mm \<and> b_epoch blk \<le> cur_epoch mm"
  shows "mm_core mm"
  using assms unfolding mm_core_def by blast

lemma mm_invD:
  assumes "mm_inv mm"
  shows "mm_core mm" "total_sems mm = int (num_per_block mm) * int (card (dom (blocks mm)))"
    "used_sems mm = total_sems mm - int (length (free_queue mm))" "int (card (dom (blocks mm))) \<le> cur_epoch mm"
  using assms unfolding mm_inv_def by blast+

lemma set_block_sems: "set (block_sems mm b) = {b} \<times> {0..<num_per_block mm}"
  by (auto simp: block_sems_def)

lemma length_block_sems [simp]: "length (block_sems mm b) = num_per_block mm"
  by (simp add: block_sems_def)

lemma distinct_block_sems: "distinct (block_sems mm b)"
  by (simp add: block_sems_def distinct_map inj_on_def)

lemma free_in_subset: "mm_core mm \<Longrightarrow> set (free_in mm b) \<subseteq> set (block_sems mm b)"
  using mm_coreD(4) by (fastforce simp: free_in_def set_block_sems)

lemma length_free_in:
  assumes "mm_core mm"
  shows "length (free_in mm b) \<le> num_per_block mm"
proof -
  have "distinct (free_in mm b)" using mm_coreD(3) [OF assms] by (simp add: free_in_def)
  then have "length (free_in mm b) = card (set (free_in mm b))" by (simp add: distinct_card)
  also have "\<dots> \<le> card (set (block_sems mm b))" by (rule card_mono) (auto intro: free_in_subset [OF assms, THEN subsetD])
  also have "\<dots> = num_per_block mm" by (simp add: set_block_sems card_cartesian_product)
  finally show ?thesis .
qed

text \<open>A block none of whose semaphores is counted as used is all on the free queue.\<close>

lemma unused_block_free:
  assumes "mm_core mm" "blocks mm b = Some blk" "b_used blk = 0"
  shows "set (block_sems mm b) \<subseteq> set (free_queue mm)"
proof -
  have len: "length (free_in mm b) = num_per_block mm" using mm_coreD(5) [OF assms(1,2)] assms(3) by simp
  have "distinct (free_in mm b)" using mm_coreD(3) [OF assms(1)] by (simp add: free_in_def)
  then have "card (set (free_in mm b)) = card (set (block_sems mm b))"
    using len distinct_block_sems [of mm b] by (simp add: distinct_card)
  then have "set (free_in mm b) = set (block_sems mm b)"
    using free_in_subset [OF assms(1)] by (intro card_subset_eq) auto
  then show ?thesis by (auto simp: free_in_def)
qed

lemma length_free_queue:
  assumes "mm_core mm"
  shows "length (free_queue mm) \<le> num_per_block mm * card (dom (blocks mm))"
proof -
  have "length (free_queue mm) = card (set (free_queue mm))" using mm_coreD(3) [OF assms] by (simp add: distinct_card)
  also have "\<dots> \<le> card (dom (blocks mm) \<times> {0..<num_per_block mm})"
    using mm_coreD(2,4) [OF assms] by (intro card_mono) auto
  finally show ?thesis by (simp add: card_cartesian_product mult.commute)
qed

lemma init_mm_inv: "0 < n \<Longrightarrow> mm_inv (init_mm n)"
  by (simp add: mm_inv_def mm_core_def init_mm_def)

text \<open>The subtractions of the source stay at or above zero.\<close>

lemma mm_counters_nonneg:
  assumes "mm_inv mm"
  shows "0 \<le> used_sems mm" "0 \<le> mid_epoch mm" "blocks mm b = Some blk \<Longrightarrow> 0 \<le> b_used blk"
proof -
  have "int (length (free_queue mm)) \<le> int (num_per_block mm * card (dom (blocks mm)))"
    using length_free_queue [OF mm_invD(1) [OF assms]] by (simp only: of_nat_le_iff)
  then show "0 \<le> used_sems mm" using mm_invD(2,3) [OF assms] by simp
  have "total_sems mm div int (num_per_block mm) = int (card (dom (blocks mm)))"
    using mm_coreD(1) [OF mm_invD(1) [OF assms]] mm_invD(2) [OF assms] by simp
  then show "0 \<le> mid_epoch mm" using mm_invD(4) [OF assms] by (simp add: mid_epoch_def)
  show "blocks mm b = Some blk \<Longrightarrow> 0 \<le> b_used blk"
    using mm_coreD(5) [OF mm_invD(1) [OF assms]] length_free_in [OF mm_invD(1) [OF assms], of b] by simp
qed

subsection \<open>Operations keep the invariant\<close>

lemma alloc_new_block:
  assumes "mm_inv mm" "free_queue mm = []"
  shows "\<exists>mm'. alloc_semaphore True mm = Some (Some (next_blk mm, 0), mm') \<and> mm_inv mm' \<and>
     (\<forall>x. in_use mm' x \<longleftrightarrow> x = (next_blk mm, 0) \<or> in_use mm x)"
proof -
  let ?b = "next_blk mm"
  note core = mm_invD(1) [OF assms(1)]
  define mm' where "mm' = snd (the (alloc_semaphore True mm))"
  have call: "alloc_semaphore True mm = Some (Some (?b, 0), mm')"
    using assms(2) by (simp add: mm'_def alloc_semaphore_def Let_def)
  have b: "blocks mm ?b = None" using mm_coreD(6) [OF core] by (metis less_irrefl not_Some_eq)
  have sel: "num_per_block mm' = num_per_block mm" "free_queue mm' = tl (block_sems mm ?b)"
    "blocks mm' = (blocks mm)(?b \<mapsto> \<lparr>b_used = 1, b_epoch = cur_epoch mm + 1\<rparr>)" "next_blk mm' = ?b + 1"
    "cur_epoch mm' = cur_epoch mm + 1" "total_sems mm' = total_sems mm + int (num_per_block mm)"
    "used_sems mm' = used_sems mm + 1"
    using assms(2) by (simp_all add: mm'_def alloc_semaphore_def Let_def)
  have split: "block_sems mm ?b = (?b, 0) # tl (block_sems mm ?b)"
    using mm_coreD(1) [OF core] by (simp add: block_sems_def upt_conv_Cons)
  have tl_set: "set (tl (block_sems mm ?b)) = {?b} \<times> {0..<num_per_block mm} - {(?b, 0)}"
    using split distinct_block_sems [of mm ?b] set_block_sems [of mm ?b] by (metis Diff_insert_absorb distinct.simps(2) list.simps(15))
  have fin: "free_in mm' c = (if c = ?b then tl (block_sems mm ?b) else [])" for c
  proof -
    have "\<forall>x \<in> set (tl (block_sems mm ?b)). fst x = ?b" unfolding tl_set by auto
    then show ?thesis by (simp add: free_in_def sel filter_id_conv filter_empty_conv)
  qed
  have each: "b_used blk = int (num_per_block mm') - int (length (free_in mm' c)) \<and> c < next_blk mm' \<and> b_epoch blk \<le> cur_epoch mm'"
    if "blocks mm' c = Some blk" for c blk
  proof (cases "c = ?b")
    case True
    then have "blk = \<lparr>b_used = 1, b_epoch = cur_epoch mm + 1\<rparr>" using that by (simp add: sel)
    then show ?thesis using True mm_coreD(1) [OF core] by (simp add: sel fin)
  next
    case False
    then have "blocks mm c = Some blk" using that by (simp add: sel)
    moreover have "free_in mm c = []" using assms(2) by (simp add: free_in_def)
    ultimately show ?thesis using mm_coreD(5-7) [OF core, of c blk] False by (simp add: sel fin)
  qed
  have "set (free_queue mm') \<subseteq> dom (blocks mm') \<times> {0..<num_per_block mm'}"
    using tl_set by (auto simp: sel)
  then have "mm_core mm'"
    using mm_coreD(1,2) [OF core] distinct_tl [OF distinct_block_sems [of mm ?b]]
    by (intro mm_coreI each) (simp_all add: sel)
  moreover have "card (dom (blocks mm')) = Suc (card (dom (blocks mm)))"
    using b mm_coreD(2) [OF core] by (simp add: sel card_insert_if domIff)
  ultimately have "mm_inv mm'"
    using mm_invD(2-4) [OF assms(1)] assms(2) mm_coreD(1) [OF core]
    by (auto simp: mm_inv_def sel algebra_simps)
  moreover have "in_use mm' x \<longleftrightarrow> x = (?b, 0) \<or> in_use mm x" for x
    unfolding in_use_def sel tl_set using b mm_coreD(1) [OF core] assms(2) by (cases x) auto
  ultimately show ?thesis using call by blast
qed

lemma alloc_from_queue:
  assumes "mm_inv mm" "free_queue mm = sem # q"
  shows "\<exists>mm'. alloc_semaphore sys_ok mm = Some (Some sem, mm') \<and> mm_inv mm' \<and>
     (\<forall>x. in_use mm' x \<longleftrightarrow> x = sem \<or> in_use mm x)"
proof -
  note core = mm_invD(1) [OF assms(1)]
  obtain blk where blk: "blocks mm (fst sem) = Some blk" "snd sem < num_per_block mm"
    using mm_coreD(4) [OF core] assms(2) by fastforce
  define mm' where "mm' = mm\<lparr>free_queue := q, blocks := (blocks mm)(fst sem \<mapsto> blk\<lparr>b_used := b_used blk + 1\<rparr>),
                                  used_sems := used_sems mm + 1\<rparr>"
  have call: "alloc_semaphore sys_ok mm = Some (Some sem, mm')"
    using assms(2) blk by (simp add: alloc_semaphore_def mm'_def)
  have fin: "free_in mm b = (if b = fst sem then sem # free_in mm' b else free_in mm' b)" for b
    using assms(2) by (simp add: free_in_def mm'_def)
  have dm: "dom (blocks mm') = dom (blocks mm)" using blk by (auto simp: mm'_def)
  have sel: "num_per_block mm' = num_per_block mm" "next_blk mm' = next_blk mm" "cur_epoch mm' = cur_epoch mm"
    "blocks mm' = (blocks mm)(fst sem \<mapsto> blk\<lparr>b_used := b_used blk + 1\<rparr>)"
    by (simp_all add: mm'_def)
  have each: "b_used blk' = int (num_per_block mm') - int (length (free_in mm' b)) \<and> b < next_blk mm' \<and> b_epoch blk' \<le> cur_epoch mm'"
    if "blocks mm' b = Some blk'" for b blk'
  proof (cases "b = fst sem")
    case True
    then have "blk' = blk\<lparr>b_used := b_used blk + 1\<rparr>" using that by (simp add: sel)
    then show ?thesis using mm_coreD(5-7) [OF core blk(1)] fin [of b] True by (simp add: sel)
  next
    case False
    then have "blocks mm b = Some blk'" using that by (simp add: sel)
    from mm_coreD(5-7) [OF core this] show ?thesis using fin [of b] False by (simp add: sel)
  qed
  have "mm_core mm'"
    by (rule mm_coreI [OF _ _ _ _ each]) (use mm_coreD(1-4) [OF core] assms(2) dm in \<open>simp_all add: mm'_def\<close>)
  then have "mm_inv mm'"
    using mm_invD(2-4) [OF assms(1)] assms(2) unfolding mm_inv_def dm by (simp add: mm'_def)
  moreover have "in_use mm' x \<longleftrightarrow> x = sem \<or> in_use mm x" for x
    using mm_coreD(3) [OF core] assms(2) blk unfolding in_use_def dm by (auto simp: mm'_def)
  ultimately show ?thesis using call by blast
qed

lemma length_filter_split: "length (filter P xs) + length (filter (\<lambda>x. \<not> P x) xs) = length xs"
  by (induction xs) auto

text \<open>Taking a fully unused block out of the pool.\<close>

lemma drop_block_core:
  assumes "mm_core mm" "blocks mm b = Some blk"
    and "blocks mm' = (blocks mm)(b := None)" "free_queue mm' = filter (\<lambda>x. x \<notin> set (block_sems mm b)) (free_queue mm)"
      "num_per_block mm' = num_per_block mm" "next_blk mm' = next_blk mm" "cur_epoch mm' = cur_epoch mm"
  shows "mm_core mm'"
proof -
  have fq: "x \<in> set (free_queue mm) \<Longrightarrow> x \<in> set (block_sems mm b) \<longleftrightarrow> fst x = b" for x
    using mm_coreD(4) [OF assms(1)] by (auto simp: set_block_sems)
  have q: "free_queue mm' = filter (\<lambda>x. fst x \<noteq> b) (free_queue mm)"
    unfolding assms(4) using fq by (auto intro: filter_cong)
  have fin: "free_in mm' c = free_in mm c" if "c \<noteq> b" for c
    using that unfolding free_in_def q by (auto intro: filter_cong)
  show ?thesis
  proof (rule mm_coreI)
    show "set (free_queue mm') \<subseteq> dom (blocks mm') \<times> {0..<num_per_block mm'}"
      using mm_coreD(4) [OF assms(1)] unfolding q assms(3,5) by fastforce
  next
    fix c blk'
    assume c: "blocks mm' c = Some blk'"
    then have "c \<noteq> b" "blocks mm c = Some blk'" unfolding assms(3) by (auto split: if_splits)
    with mm_coreD(5-7) [OF assms(1) this(2)] fin [of c]
    show "b_used blk' = int (num_per_block mm') - int (length (free_in mm' c)) \<and> c < next_blk mm' \<and> b_epoch blk' \<le> cur_epoch mm'"
      unfolding assms(5-7) by simp
  qed (use mm_coreD(1-3) [OF assms(1)] in \<open>simp_all add: assms(3,5) q\<close>)
qed

lemma drop_block_in_use:
  assumes "mm_core mm" "blocks mm b = Some blk" "b_used blk = 0"
    and "blocks mm' = (blocks mm)(b := None)" "free_queue mm' = filter (\<lambda>x. x \<notin> set (block_sems mm b)) (free_queue mm)"
      "num_per_block mm' = num_per_block mm"
  shows "in_use mm' x \<longleftrightarrow> in_use mm x"
proof -
  have "x \<in> set (block_sems mm b) \<longrightarrow> x \<in> set (free_queue mm)"
    using unused_block_free [OF assms(1-3)] by blast
  then show ?thesis
    unfolding in_use_def assms(4-6) using assms(2) by (cases x) (auto simp: set_block_sems)
qed

lemma length_drop_block:
  assumes "mm_core mm" "blocks mm b = Some blk" "b_used blk = 0"
  shows "length (free_queue mm) = length (filter (\<lambda>x. x \<notin> set (block_sems mm b)) (free_queue mm)) + num_per_block mm"
proof -
  have "filter (\<lambda>x. x \<in> set (block_sems mm b)) (free_queue mm) = free_in mm b"
    unfolding free_in_def using mm_coreD(4) [OF assms(1)] by (auto simp: set_block_sems intro!: filter_cong)
  then have "length (filter (\<lambda>x. x \<in> set (block_sems mm b)) (free_queue mm)) = num_per_block mm"
    using mm_coreD(5) [OF assms(1,2)] assms(3) by simp
  then show ?thesis
    using length_filter_split [of "\<lambda>x. x \<in> set (block_sems mm b)" "free_queue mm"] by simp
qed

text \<open>The first half of \<open>free_semaphore\<close>: the semaphore goes back on the queue, at either end.\<close>

lemma requeue_inv:
  assumes "mm_inv mm" "in_use mm sem" "blocks mm (fst sem) = Some blk"
    and "q = sem # free_queue mm \<or> q = free_queue mm @ [sem]"
  defines "mm' \<equiv> mm\<lparr>used_sems := used_sems mm - 1, blocks := (blocks mm)(fst sem \<mapsto> blk\<lparr>b_used := b_used blk - 1\<rparr>),
      free_queue := q\<rparr>"
  shows "mm_inv mm'" "in_use mm' x \<longleftrightarrow> x \<noteq> sem \<and> in_use mm x"
proof -
  note core = mm_invD(1) [OF assms(1)]
  have dm: "dom (blocks mm') = dom (blocks mm)" using assms(3) by (auto simp: mm'_def)
  have sel: "num_per_block mm' = num_per_block mm" "next_blk mm' = next_blk mm" "cur_epoch mm' = cur_epoch mm"
    "free_queue mm' = q" "blocks mm' = (blocks mm)(fst sem \<mapsto> blk\<lparr>b_used := b_used blk - 1\<rparr>)"
    by (simp_all add: mm'_def)
  have q: "length q = Suc (length (free_queue mm))" "set q = insert sem (set (free_queue mm))" "distinct q"
    using assms(2,4) mm_coreD(3) [OF core] by (auto simp: in_use_def)
  have fin: "length (free_in mm' b) = length (free_in mm b) + (if b = fst sem then 1 else 0)" for b
    using assms(4) by (auto simp: free_in_def sel)
  have each: "b_used blk' = int (num_per_block mm') - int (length (free_in mm' b)) \<and> b < next_blk mm' \<and> b_epoch blk' \<le> cur_epoch mm'"
    if "blocks mm' b = Some blk'" for b blk'
  proof (cases "b = fst sem")
    case True
    then have "blk' = blk\<lparr>b_used := b_used blk - 1\<rparr>" using that by (simp add: sel)
    then show ?thesis using mm_coreD(5-7) [OF core assms(3)] fin [of b] True by (simp add: sel)
  next
    case False
    then have "blocks mm b = Some blk'" using that by (simp add: sel)
    from mm_coreD(5-7) [OF core this] show ?thesis using fin [of b] False by (simp add: sel)
  qed
  have "set q \<subseteq> dom (blocks mm) \<times> {0..<num_per_block mm}"
    using q(2) mm_coreD(4) [OF core] assms(2) by (cases sem) (auto simp: in_use_def)
  then have "mm_core mm'"
    by (intro mm_coreI each) (use mm_coreD(1,2) [OF core] q(3) dm in \<open>simp_all add: sel\<close>)
  then show "mm_inv mm'"
    using mm_invD(2-4) [OF assms(1)] q(1) unfolding mm_inv_def dm by (simp add: mm'_def)
  show "in_use mm' x \<longleftrightarrow> x \<noteq> sem \<and> in_use mm x"
    unfolding in_use_def dm sel(1,4) q(2) by auto
qed

lemma free_semaphore_ok:
  assumes "mm_inv mm" "in_use mm sem"
  shows "\<exists>mm'. free_semaphore sem mm = Some mm' \<and> mm_inv mm' \<and> (\<forall>x. in_use mm' x \<longleftrightarrow> x \<noteq> sem \<and> in_use mm x)"
proof -
  obtain blk where blk: "blocks mm (fst sem) = Some blk" using assms(2) by (auto simp: in_use_def)
  define blk1 where "blk1 = blk\<lparr>b_used := b_used blk - 1\<rparr>"
  define mm0 where "mm0 = mm\<lparr>used_sems := used_sems mm - 1, blocks := (blocks mm)(fst sem \<mapsto> blk1)\<rparr>"
  define q where "q = (if b_epoch blk1 < mid_epoch mm0 then free_queue mm @ [sem] else sem # free_queue mm)"
  define mm1 where "mm1 = mm0\<lparr>free_queue := q\<rparr>"
  have q: "q = sem # free_queue mm \<or> q = free_queue mm @ [sem]" by (simp add: q_def)
  note rq = requeue_inv [OF assms blk q, folded blk1_def, folded mm0_def, folded mm1_def]
  have call: "free_semaphore sem mm =
     (if b_used blk1 = 0 \<and> used_sems mm1 \<le> total_sems mm1 div 2 \<and> b_epoch blk1 < mid_epoch mm0
      then Some (mm1\<lparr>free_queue := filter (\<lambda>x. x \<notin> set (block_sems mm1 (fst sem))) (free_queue mm1),
                     total_sems := total_sems mm1 - int (num_per_block mm1),
                     blocks := (blocks mm1)(fst sem := None)\<rparr>)
      else Some mm1)"
  proof -
    have "(if b_epoch blk1 < mid_epoch mm0 then mm0\<lparr>free_queue := free_queue mm0 @ [sem]\<rparr>
           else mm0\<lparr>free_queue := sem # free_queue mm0\<rparr>) = mm1"
      by (simp add: mm1_def q_def mm0_def)
    then show ?thesis
      unfolding free_semaphore_def blk option.case Let_def blk1_def [symmetric] mm0_def [symmetric] by (simp only:)
  qed
  show ?thesis
  proof (cases "b_used blk1 = 0 \<and> used_sems mm1 \<le> total_sems mm1 div 2 \<and> b_epoch blk1 < mid_epoch mm0")
    case False
    then show ?thesis using call rq by auto
  next
    case True
    define mm2 where "mm2 = mm1\<lparr>free_queue := filter (\<lambda>x. x \<notin> set (block_sems mm1 (fst sem))) (free_queue mm1),
        total_sems := total_sems mm1 - int (num_per_block mm1), blocks := (blocks mm1)(fst sem := None)\<rparr>"
    note core = mm_invD(1) [OF rq(1)]
    have b1: "blocks mm1 (fst sem) = Some blk1" by (simp add: mm1_def mm0_def)
    have sel: "blocks mm2 = (blocks mm1)(fst sem := None)"
      "free_queue mm2 = filter (\<lambda>x. x \<notin> set (block_sems mm1 (fst sem))) (free_queue mm1)"
      "num_per_block mm2 = num_per_block mm1" "next_blk mm2 = next_blk mm1" "cur_epoch mm2 = cur_epoch mm1"
      "total_sems mm2 = total_sems mm1 - int (num_per_block mm1)" "used_sems mm2 = used_sems mm1"
      by (simp_all add: mm2_def)
    have core2: "mm_core mm2" by (rule drop_block_core [OF core b1 sel(1-5)])
    have card: "card (dom (blocks mm1)) = Suc (card (dom (blocks mm2)))"
      using b1 card.remove [OF mm_coreD(2) [OF core], of "fst sem"] unfolding sel(1) by (simp add: domI)
    have "length (free_queue mm1) = length (free_queue mm2) + num_per_block mm1"
      using length_drop_block [OF core b1] True unfolding sel(2) by blast
    then have "mm_inv mm2"
      using mm_invD(2-4) [OF rq(1)] core2 card unfolding mm_inv_def sel(3-7) by (simp add: algebra_simps)
    moreover have "in_use mm2 x \<longleftrightarrow> in_use mm1 x" for x
      by (rule drop_block_in_use [OF core b1 _ sel(1-3)]) (use True in simp)
    ultimately show ?thesis using call True rq(2) unfolding mm2_def by auto
  qed
qed

lemma all_free_block:
  assumes "mm_core mm" "\<And>x. \<not> in_use mm x" "blocks mm b = Some blk"
  shows "b_used blk = 0"
proof -
  have "(b, i) \<in> set (free_queue mm)" if "i < num_per_block mm" for i
    using assms(2) [of "(b, i)"] assms(3) that by (auto simp: in_use_def)
  then have "set (block_sems mm b) \<subseteq> set (free_in mm b)"
    by (auto simp: set_block_sems free_in_def)
  then have "card (set (block_sems mm b)) \<le> card (set (free_in mm b))" by (rule card_mono [rotated]) simp
  also have "\<dots> \<le> length (free_in mm b)" by (rule card_length)
  finally have "num_per_block mm \<le> length (free_in mm b)"
    by (simp add: set_block_sems card_cartesian_product)
  then show ?thesis using mm_coreD(5) [OF assms(1,3)] length_free_in [OF assms(1), of b] by simp
qed

lemma cleanup_ok:
  assumes "mm_core mm"
  shows "\<exists>mm'. cleanup_semaphore_mm mm = Some mm' \<and> mm_core mm' \<and> (\<forall>x. in_use mm' x \<longleftrightarrow> in_use mm x) \<and>
     ((\<forall>x. \<not> in_use mm x) \<longrightarrow> blocks mm' = Map.empty)"
  using assms
proof (induction "length (free_queue mm)" arbitrary: mm rule: less_induct)
  case less
  note core = less.prems
  show ?case
  proof (cases "free_queue mm")
    case Nil
    have "blocks mm b = None" if "\<forall>x. \<not> in_use mm x" for b
      using that [rule_format, of "(b, 0)"] mm_coreD(1) [OF core] Nil by (auto simp: in_use_def)
    then show ?thesis using core Nil by (auto simp: cleanup_semaphore_mm.simps [of mm])
  next
    case (Cons sem q)
    obtain blk where blk: "blocks mm (fst sem) = Some blk" using mm_coreD(4) [OF core] Cons by auto
    show ?thesis
    proof (cases "b_used blk = 0")
      case False
      then have "\<not> (\<forall>x. \<not> in_use mm x)" using all_free_block [OF core _ blk] by blast
      then show ?thesis using core Cons blk False by (auto simp: cleanup_semaphore_mm.simps [of mm])
    next
      case True
      define mm' where "mm' = mm\<lparr>free_queue := filter (\<lambda>x. x \<notin> set (block_sems mm (fst sem))) (free_queue mm),
          blocks := (blocks mm)(fst sem := None)\<rparr>"
      have sel: "blocks mm' = (blocks mm)(fst sem := None)"
        "free_queue mm' = filter (\<lambda>x. x \<notin> set (block_sems mm (fst sem))) (free_queue mm)"
        "num_per_block mm' = num_per_block mm" "next_blk mm' = next_blk mm" "cur_epoch mm' = cur_epoch mm"
        by (simp_all add: mm'_def)
      have core': "mm_core mm'" by (rule drop_block_core [OF core blk sel])
      have len: "length (free_queue mm') < length (free_queue mm)"
        using length_drop_block [OF core blk True] mm_coreD(1) [OF core] unfolding sel(2) by linarith
      have "cleanup_semaphore_mm mm = cleanup_semaphore_mm mm'"
        using blk True len [unfolded sel(2)]
        by (simp add: cleanup_semaphore_mm.simps [of mm] Let_def mm'_def Cons)
      moreover have "in_use mm' x \<longleftrightarrow> in_use mm x" for x
        by (rule drop_block_in_use [OF core blk True sel(1-3)])
      ultimately show ?thesis using less.hyps [OF len core'] by auto
    qed
  qed
qed

lemma head_not_in_use: "free_queue mm = sem # q \<Longrightarrow> \<not> in_use mm sem"
  by (simp add: in_use_def)

lemma next_block_not_in_use: "mm_core mm \<Longrightarrow> \<not> in_use mm (next_blk mm, i)"
  using mm_coreD(6) by (fastforce simp: in_use_def)

subsection \<open>Properties\<close>

text \<open>
  Allocating a semaphore gives one that nobody holds, and changes nothing for the semaphores
  that are held; it fails only when the queue is empty and the system has no memory. The pool's
  counters stay consistent.
\<close>

theorem alloc_semaphore_fresh:
  assumes "mm_inv mm"
  shows "\<exists>r mm'. alloc_semaphore sys_ok mm = Some (r, mm') \<and> mm_inv mm' \<and>
     (case r of None \<Rightarrow> mm' = mm \<and> \<not> sys_ok \<and> free_queue mm = []
      | Some sem \<Rightarrow> \<not> in_use mm sem \<and> (\<forall>x. in_use mm' x \<longleftrightarrow> x = sem \<or> in_use mm x))"
proof (cases "free_queue mm")
  case Nil
  show ?thesis
  proof (cases sys_ok)
    case True
    obtain mm' where mm': "alloc_semaphore True mm = Some (Some (next_blk mm, 0), mm')" "mm_inv mm'"
      "\<forall>x. in_use mm' x \<longleftrightarrow> x = (next_blk mm, 0) \<or> in_use mm x"
      using alloc_new_block [OF assms Nil] by blast
    show ?thesis
      by (rule exI [of _ "Some (next_blk mm, 0)"], rule exI [of _ mm'])
        (use mm' True next_block_not_in_use [OF mm_invD(1) [OF assms]] in simp)
  next
    case False
    then show ?thesis using assms Nil by (auto simp: alloc_semaphore_def)
  qed
next
  case (Cons sem q)
  obtain mm' where mm': "alloc_semaphore sys_ok mm = Some (Some sem, mm')" "mm_inv mm'"
    "\<forall>x. in_use mm' x \<longleftrightarrow> x = sem \<or> in_use mm x"
    using alloc_from_queue [OF assms Cons] by blast
  show ?thesis
    by (rule exI [of _ "Some sem"], rule exI [of _ mm']) (use mm' head_not_in_use [OF Cons] in simp)
qed

text \<open>
  Giving back a held semaphore returns, releases that semaphore only, and keeps the pool
  consistent, also when it gives a whole block back to the system: no held semaphore lies in a
  block that is freed.
\<close>

theorem free_semaphore_safe:
  assumes "mm_inv mm" "in_use mm sem"
  shows "\<exists>mm'. free_semaphore sem mm = Some mm' \<and> mm_inv mm' \<and> (\<forall>x. in_use mm' x \<longleftrightarrow> x \<noteq> sem \<and> in_use mm x)"
  using assms by (rule free_semaphore_ok)

text \<open>
  The cleanup at exit terminates, frees no block that holds a semaphore in use, and frees
  every block when none is in use.
\<close>

theorem cleanup_mm_releases_all:
  assumes "mm_core mm"
  shows "\<exists>mm'. cleanup_semaphore_mm mm = Some mm' \<and> (\<forall>x. in_use mm' x \<longleftrightarrow> in_use mm x) \<and>
     ((\<forall>x. \<not> in_use mm x) \<longrightarrow> blocks mm' = Map.empty)"
  using cleanup_ok [OF assms] by blast

end
