(* ===== verification/Semaphore.thy ===== *)
theory Semaphore
  imports Semaphore_Mm "HOL-Library.Sublist"
begin

section \<open>Semaphores (ngx\_stream\_lua\_semaphore.c)\<close>

text \<open>
  One semaphore and the coroutine contexts that wait on it. A coroutine is named by a number; of
  its context only what this file touches is kept: the sleep timer and the cleanup handler. The
  posted event is a flag: posting an event that is posted already does nothing. Resuming a
  coroutine runs Lua code, which may call these functions again; it is the parameter \<open>resume\<close> of
  the handler, which takes the semaphore and the rest of the worker to their new states, and an interleaving of steps in the transition system below.
\<close>

subsection \<open>State\<close>

record co_ctx =
  timer_set :: bool
  has_cleanup :: bool

record sem_state =
  wait_queue :: "nat list"
  resource_count :: int
  wait_count :: "32 word"
  event_posted :: bool
  co :: "nat \<Rightarrow> co_ctx"

datatype wait_status = SEMAPHORE_WAIT_SUCC | SEMAPHORE_WAIT_TIMEOUT

subsection \<open>Operations\<close>

definition set_co :: "nat \<Rightarrow> co_ctx \<Rightarrow> sem_state \<Rightarrow> sem_state" where
  "set_co c x s = s\<lparr>co := (co s)(c := x)\<rparr>"

text \<open>What \<open>semaphore_new\<close> writes into a fresh semaphore.\<close>

definition init_sem :: "int \<Rightarrow> (nat \<Rightarrow> co_ctx) \<Rightarrow> sem_state" where
  "init_sem n cos = \<lparr>wait_queue = [], resource_count = n, wait_count = 0, event_posted = False, co = cos\<rparr>"

definition ffi_semaphore_new ::
  "bool \<Rightarrow> int \<Rightarrow> (nat \<Rightarrow> co_ctx) \<Rightarrow> sem_mm
   \<Rightarrow> (ngx_rc \<times> string option \<times> (sem_id \<times> sem_state) option \<times> sem_mm) option" where
  "ffi_semaphore_new sys_ok n cos mm =
     (case alloc_semaphore sys_ok mm of
        None \<Rightarrow> None
      | Some (None, mm') \<Rightarrow> Some (NGX_ERROR, Some ''no memory'', None, mm')
      | Some (Some sem, mm') \<Rightarrow> Some (NGX_OK, None, Some (sem, init_sem n cos), mm'))"

text \<open>The addition is on an \<open>int\<close>; the wrap-around is written out.\<close>

definition ffi_semaphore_post :: "int \<Rightarrow> sem_state \<Rightarrow> ngx_rc \<times> sem_state" where
  "ffi_semaphore_post n s =
     (let s = s\<lparr>resource_count := int32 (resource_count s + n)\<rparr>
      in (NGX_OK, if wait_queue s \<noteq> [] then s\<lparr>event_posted := True\<rparr> else s))"

text \<open>\<open>ctx_found\<close> and \<open>ctx_ok\<close> are the outcomes of the two context checks.\<close>

definition ffi_semaphore_wait ::
  "bool \<Rightarrow> bool \<Rightarrow> int \<Rightarrow> nat \<Rightarrow> sem_state \<Rightarrow> ngx_rc \<times> sem_state" where
  "ffi_semaphore_wait ctx_found ctx_ok wait_ms c s =
     (if \<not> ctx_found then (NGX_ERROR, s)
      else if \<not> ctx_ok then (NGX_ERROR, s)
      else if wait_queue s = [] \<and> resource_count s > 0 then
        (NGX_OK, s\<lparr>resource_count := resource_count s - 1\<rparr>)
      else if wait_ms = 0 then (NGX_DECLINED, s)
      else
        (NGX_AGAIN,
         set_co c \<lparr>timer_set = True, has_cleanup = True\<rparr>
           (s\<lparr>wait_count := wait_count s + 1, wait_queue := wait_queue s @ [c]\<rparr>)))"

text \<open>An \<open>int\<close> minus an \<open>unsigned\<close>, returned as an \<open>int\<close>.\<close>

definition ffi_semaphore_count :: "sem_state \<Rightarrow> int" where
  "ffi_semaphore_count s = int32 (resource_count s - uint (wait_count s))"

definition unqueue :: "nat \<Rightarrow> sem_state \<Rightarrow> sem_state" where
  "unqueue c s = s\<lparr>wait_queue := filter (\<lambda>d. d \<noteq> c) (wait_queue s), wait_count := wait_count s - 1\<rparr>"

definition semaphore_cleanup :: "nat \<Rightarrow> sem_state \<Rightarrow> sem_state" where
  "semaphore_cleanup c s = unqueue c (set_co c \<lparr>timer_set = False, has_cleanup = False\<rparr> s)"

text \<open>One round of the handler's loop, up to the resume: the coroutine to resume and the state.\<close>

definition handler_iter :: "sem_state \<Rightarrow> (nat \<times> sem_state) option" where
  "handler_iter s =
     (case wait_queue s of
        [] \<Rightarrow> None
      | c # q \<Rightarrow>
          (if resource_count s > 0 then
             Some (c, set_co c \<lparr>timer_set = False, has_cleanup = False\<rparr>
                        (s\<lparr>wait_queue := q, wait_count := wait_count s - 1,
                           resource_count := resource_count s - 1\<rparr>))
           else None))"

partial_function (option) semaphore_handler ::
  "(nat \<Rightarrow> wait_status \<Rightarrow> sem_state \<times> 'w \<Rightarrow> sem_state \<times> 'w) \<Rightarrow> sem_state \<times> 'w \<Rightarrow> (sem_state \<times> 'w) option" where
  "semaphore_handler resume s =
     (case handler_iter (fst s) of
        None \<Rightarrow> Some s
      | Some (c, s') \<Rightarrow> semaphore_handler resume (resume c SEMAPHORE_WAIT_SUCC (s', snd s)))"

text \<open>The timer module clears \<open>timer_set\<close> before it calls the handler.\<close>

definition timeout_unqueue :: "nat \<Rightarrow> sem_state \<Rightarrow> sem_state" where
  "timeout_unqueue c s = unqueue c (set_co c \<lparr>timer_set = False, has_cleanup = False\<rparr> s)"

definition semaphore_timeout_handler ::
  "(nat \<Rightarrow> wait_status \<Rightarrow> sem_state \<times> 'w \<Rightarrow> sem_state \<times> 'w) \<Rightarrow> nat \<Rightarrow> sem_state \<times> 'w \<Rightarrow> sem_state \<times> 'w" where
  "semaphore_timeout_handler resume c s = resume c SEMAPHORE_WAIT_TIMEOUT (timeout_unqueue c (fst s), snd s)"

text \<open>What a resumed coroutine gets, and what happens after it ran.\<close>

definition resume_values :: "wait_status \<Rightarrow> lua_value list" where
  "resume_values st =
     (case st of SEMAPHORE_WAIT_SUCC \<Rightarrow> [LBool True, LNil] | SEMAPHORE_WAIT_TIMEOUT \<Rightarrow> [LBool False, LString ''timeout''])"

datatype after_run = RunPosted | FinalizeRunPosted | FinalizeDone ngx_rc | ReturnRc ngx_rc

definition semaphore_resume :: "wait_status \<Rightarrow> ngx_rc \<Rightarrow> bool \<Rightarrow> lua_value list \<times> after_run" where
  "semaphore_resume st rc entered_content =
     (resume_values st,
      if rc = NGX_AGAIN then RunPosted
      else if rc = NGX_DONE then FinalizeRunPosted
      else if entered_content then FinalizeDone rc
      else ReturnRc rc)"

definition ffi_semaphore_gc :: "sem_id option \<Rightarrow> sem_mm \<Rightarrow> sem_mm option" where
  "ffi_semaphore_gc sem mm = (case sem of None \<Rightarrow> Some mm | Some x \<Rightarrow> free_semaphore x mm)"

subsection \<open>Transitions\<close>

text \<open>The state with a flag for a running handler; while a resumed coroutine runs, any function may
  be called. A coroutine that waits does not run, so it does not call \<open>wait\<close>.\<close>

datatype sem_event =
    Post int
  | Waited nat ngx_rc
  | Started
  | Granted nat
  | Finished
  | TimedOut nat
  | Cleaned nat

inductive sem_step :: "sem_state \<times> bool \<Rightarrow> sem_event \<Rightarrow> sem_state \<times> bool \<Rightarrow> bool" where
  post: "sem_step (s, h) (Post n) (snd (ffi_semaphore_post n s), h)"
| wait: "c \<notin> set (wait_queue s) \<Longrightarrow> ffi_semaphore_wait True True ms c s = (rc, s') \<Longrightarrow>
    sem_step (s, h) (Waited c rc) (s', h)"
| start: "event_posted s \<Longrightarrow> sem_step (s, False) Started (s\<lparr>event_posted := False\<rparr>, True)"
| grant: "handler_iter s = Some (c, s') \<Longrightarrow> sem_step (s, True) (Granted c) (s', True)"
| finish: "handler_iter s = None \<Longrightarrow> sem_step (s, True) Finished (s, False)"
| timeout: "c \<in> set (wait_queue s) \<Longrightarrow> timer_set (co s c) \<Longrightarrow>
    sem_step (s, h) (TimedOut c) (timeout_unqueue c s, h)"
| cleanup: "c \<in> set (wait_queue s) \<Longrightarrow> has_cleanup (co s c) \<Longrightarrow>
    sem_step (s, h) (Cleaned c) (semaphore_cleanup c s, h)"

inductive_cases sem_stepE: "sem_step x e y"

inductive sem_run :: "sem_state \<times> bool \<Rightarrow> sem_event list \<Rightarrow> sem_state \<times> bool \<Rightarrow> bool" where
  refl: "sem_run x [] x"
| step: "sem_run x tr y \<Longrightarrow> sem_step y e z \<Longrightarrow> sem_run x (tr @ [e]) z"

subsection \<open>Invariant\<close>

text \<open>The last conjunct: resources never lie idle while coroutines wait, unless the handler is
  about to run or running.\<close>

definition sem_inv :: "sem_state \<times> bool \<Rightarrow> bool" where
  "sem_inv x \<longleftrightarrow> (case x of (s, h) \<Rightarrow>
     distinct (wait_queue s) \<and> wait_count s = word_of_nat (length (wait_queue s)) \<and>
     (\<forall>c \<in> set (wait_queue s). timer_set (co s c) \<and> has_cleanup (co s c)) \<and>
     (wait_queue s \<noteq> [] \<and> resource_count s > 0 \<longrightarrow> event_posted s \<or> h))"

lemmas sem_op_defs = ffi_semaphore_post_def ffi_semaphore_wait_def handler_iter_def timeout_unqueue_def
  semaphore_cleanup_def unqueue_def set_co_def

lemma filter_length:
  assumes "distinct xs" "c \<in> set xs"
  shows "length xs = Suc (length (filter (\<lambda>d. d \<noteq> c) xs))"
  using assms by (induction xs) auto

lemma filter_wait_count:
  assumes "distinct xs" "c \<in> set xs" "w = word_of_nat (length xs)"
  shows "w - 1 = (word_of_nat (length (filter (\<lambda>d. d \<noteq> c) xs)) :: 32 word)"
  using assms filter_length [OF assms(1,2)] by simp

lemma init_sem_inv: "sem_inv (init_sem n cos, False)"
  by (simp add: sem_inv_def init_sem_def)

lemma sem_step_inv: "sem_step x e y \<Longrightarrow> sem_inv x \<Longrightarrow> sem_inv y"
proof (induction rule: sem_step.induct)
  case (post s h n)
  then show ?case by (auto simp: sem_inv_def sem_op_defs Let_def)
next
  case (wait c s ms rc s' h)
  then show ?case by (auto simp: sem_inv_def sem_op_defs split: if_splits)
next
  case (start s)
  then show ?case by (auto simp: sem_inv_def)
next
  case (grant s c s')
  then show ?case by (auto simp: sem_inv_def sem_op_defs split: list.splits if_splits)
next
  case (finish s)
  then show ?case by (auto simp: sem_inv_def sem_op_defs split: list.splits if_splits)
next
  case (timeout c s h)
  then show ?case using filter_wait_count [of "wait_queue s" c "wait_count s"]
    by (auto simp: sem_inv_def sem_op_defs)
next
  case (cleanup c s h)
  then show ?case using filter_wait_count [of "wait_queue s" c "wait_count s"]
    by (auto simp: sem_inv_def sem_op_defs)
qed

lemma sem_run_inv: "sem_run x tr y \<Longrightarrow> sem_inv x \<Longrightarrow> sem_inv y"
  by (induction rule: sem_run.induct) (auto intro: sem_step_inv)

text \<open>What a run did to the resources: posts minus acquisitions.\<close>

fun balance :: "sem_event list \<Rightarrow> int" where
  "balance [] = 0"
| "balance (e # tr) =
     (case e of Post n \<Rightarrow> n | Granted _ \<Rightarrow> - 1 | Waited _ rc \<Rightarrow> (if rc = NGX_OK then - 1 else 0) | _ \<Rightarrow> 0) + balance tr"

lemma balance_append [simp]: "balance (tr @ tr') = balance tr + balance tr'"
  by (induction tr) auto

lemma sem_step_resource:
  assumes "sem_step (s, h) e (s', h')" "resource_count s = int32 x"
  shows "resource_count s' = int32 (x + balance [e])"
proof -
  have dec: "int32 x - 1 = int32 (x - 1)" if "int32 x > 0"
  proof -
    have "int32 (x - 1) = int32 (int32 x - 1)" using int32_int32_add [of x "- 1"] by simp
    also have "\<dots> = int32 x - 1" using that int32_range [of x] by (intro int32_id) auto
    finally show ?thesis by simp
  qed
  from assms show ?thesis
    by (cases rule: sem_step.cases) (auto simp: sem_op_defs Let_def int32_int32_add dec split: if_splits list.splits)
qed

lemma sem_run_resource:
  assumes "sem_run x tr y" "resource_count (fst x) = int32 n"
  shows "resource_count (fst y) = int32 (n + balance tr)"
  using assms
proof (induction rule: sem_run.induct)
  case (step x tr y e z)
  then show ?case
    using sem_step_resource [of "fst y" "snd y" e "fst z" "snd z" "n + balance tr"] by (simp add: add.assoc)
qed simp

subsection \<open>The handler's loop\<close>

lemma handler_iter_Some:
  "handler_iter s = Some (c, s') \<Longrightarrow>
     wait_queue s = c # wait_queue s' \<and> resource_count s > 0 \<and> resource_count s' = resource_count s - 1"
  by (auto simp: handler_iter_def set_co_def split: list.splits if_splits)

lemma handler_iter_None: "handler_iter s = None \<longleftrightarrow> wait_queue s = [] \<or> resource_count s \<le> 0"
  by (auto simp: handler_iter_def split: list.splits)

text \<open>
  When resumed coroutines at most wait again, the loop ends after at most as many rounds as there are resources, having resumed the waiters from the front of the queue. The calls of
  \<open>resume\<close> are seen in any record \<open>resumed\<close> of the worker that grows with each of them.
\<close>

lemma semaphore_handler_drains:
  assumes queue: "\<And>c st x w. \<exists>q. wait_queue (fst (resume c st (x, w))) = wait_queue x @ q"
    and count: "\<And>c st x w. resource_count (fst (resume c st (x, w))) \<le> resource_count x"
    and seen: "\<And>c st x w. resumed (snd (resume c st (x, w))) = resumed w @ [(c, st)]"
  shows "\<exists>n q s' w'. semaphore_handler resume (s, w) = Some (s', w') \<and> n \<le> nat (resource_count s) \<and> n \<le> length (wait_queue s @ q) \<and>
     resumed w' = resumed w @ map (\<lambda>c. (c, SEMAPHORE_WAIT_SUCC)) (take n (wait_queue s @ q)) \<and> wait_queue s' = drop n (wait_queue s @ q) \<and>
     (wait_queue s' = [] \<or> resource_count s' \<le> 0)"
proof (induction "nat (resource_count s)" arbitrary: s w rule: less_induct)
  case less
  show ?case
  proof (cases "handler_iter s")
    case None
    then have "semaphore_handler resume (s, w) = Some (s, w)" by (simp add: semaphore_handler.simps)
    with None show ?thesis by (intro exI [of _ 0] exI [of _ "[]"]) (auto simp: handler_iter_None)
  next
    case (Some p)
    obtain c s1 where p: "p = (c, s1)" by fastforce
    note it = handler_iter_Some [OF Some [unfolded p]]
    obtain s2 w2 where r: "resume c SEMAPHORE_WAIT_SUCC (s1, w) = (s2, w2)" by fastforce
    obtain q0 where q0: "wait_queue s2 = wait_queue s1 @ q0" using queue [of c SEMAPHORE_WAIT_SUCC s1 w] r by auto
    have w2: "resumed w2 = resumed w @ [(c, SEMAPHORE_WAIT_SUCC)]" using seen [of c SEMAPHORE_WAIT_SUCC s1 w] r by simp
    have fewer: "nat (resource_count s2) < nat (resource_count s)" using count [of c SEMAPHORE_WAIT_SUCC s1 w] r it by simp
    obtain n q s' w' where IH: "semaphore_handler resume (s2, w2) = Some (s', w')" "n \<le> nat (resource_count s2)" "n \<le> length (wait_queue s2 @ q)"
      "resumed w' = resumed w2 @ map (\<lambda>c. (c, SEMAPHORE_WAIT_SUCC)) (take n (wait_queue s2 @ q))" "wait_queue s' = drop n (wait_queue s2 @ q)"
      "wait_queue s' = [] \<or> resource_count s' \<le> 0"
      using less [OF fewer] by blast
    have e: "wait_queue s @ q0 @ q = c # wait_queue s2 @ q" using it q0 by simp
    have h: "semaphore_handler resume (s, w) = Some (s', w')" using Some p r IH(1) by (simp add: semaphore_handler.simps [of resume "(s, w)"])
    have "Suc n \<le> nat (resource_count s)" using IH(2) fewer by linarith
    moreover have "resumed w' = resumed w @ map (\<lambda>c. (c, SEMAPHORE_WAIT_SUCC)) (take (Suc n) (wait_queue s @ q0 @ q))" unfolding e by (simp add: IH(4) w2)
    moreover have "Suc n \<le> length (wait_queue s @ q0 @ q)" "wait_queue s' = drop (Suc n) (wait_queue s @ q0 @ q)" unfolding e using IH(3,5) by simp_all
    ultimately show ?thesis using h IH(6) by blast
  qed
qed

subsection \<open>Properties\<close>

text \<open>
  C23: in every interleaving of posts, waits, timeouts, cleanups and handler rounds, the wait
  count is the number of waiters, every waiter has its timer and cleanup handler set, and no wakeup
  is lost: if coroutines wait while resources are available, the event that serves them is posted
  or its handler is running.
\<close>

theorem semaphore_no_lost_wakeup:
  assumes "sem_run (init_sem n cos, False) tr (s, h)"
  shows "distinct (wait_queue s) \<and> wait_count s = word_of_nat (length (wait_queue s)) \<and>
     (\<forall>c \<in> set (wait_queue s). timer_set (co s c) \<and> has_cleanup (co s c)) \<and>
     (wait_queue s \<noteq> [] \<and> resource_count s > 0 \<longrightarrow> event_posted s \<or> h)"
  using sem_run_inv [OF assms init_sem_inv] by (simp add: sem_inv_def)

lemma demo_wait_step:
  "sem_step (init_sem 0 cos, False) (Waited 7 NGX_AGAIN) (snd (ffi_semaphore_wait True True 5 7 (init_sem 0 cos)), False)"
  by (rule sem_step.wait [where ms = 5]) (simp_all add: init_sem_def ffi_semaphore_wait_def)

lemma demo_wait_run:
  "sem_run (init_sem 0 cos, False) [Waited 7 NGX_AGAIN] (snd (ffi_semaphore_wait True True 5 7 (init_sem 0 cos)), False)"
  using sem_run.step [OF sem_run.refl demo_wait_step] by simp

theorem semaphore_no_lost_wakeup_witness:
  "\<exists>s. sem_run (init_sem 0 (\<lambda>_. \<lparr>timer_set = False, has_cleanup = False\<rparr>), False) [Waited 7 NGX_AGAIN] (s, False) \<and>
     wait_count s = word_of_nat (length (wait_queue s))"
  using semaphore_no_lost_wakeup [OF demo_wait_run] demo_wait_run by blast

text \<open>
  C31: service is first come, first served: a grant goes to the oldest waiter, a wait succeeds at
  once only when nobody waits, new waiters queue at the end, and nothing else reorders the queue.
\<close>

theorem semaphore_fifo:
  assumes "sem_step (s, h) e (s', h')"
  shows "(\<forall>c. e = Granted c \<longrightarrow> wait_queue s = c # wait_queue s') \<and>
     (\<forall>c. e = Waited c NGX_OK \<longrightarrow> wait_queue s = [] \<and> resource_count s > 0) \<and>
     (\<forall>c. e = Waited c NGX_AGAIN \<longrightarrow> wait_queue s' = wait_queue s @ [c]) \<and>
     ((\<forall>c. e \<noteq> Waited c NGX_AGAIN) \<longrightarrow> subseq (wait_queue s') (wait_queue s))"
  using assms
proof (cases rule: sem_step.cases)
  case (grant c)
  then have "wait_queue s = c # wait_queue s'" using handler_iter_Some by blast
  with grant show ?thesis by auto
qed (auto simp: sem_op_defs Let_def split: if_splits)

theorem semaphore_fifo_witness:
  "\<exists>s'. sem_step (init_sem 0 (\<lambda>_. \<lparr>timer_set = False, has_cleanup = False\<rparr>), False) (Waited 7 NGX_AGAIN) (s', False) \<and>
     wait_queue s' = wait_queue (init_sem 0 (\<lambda>_. \<lparr>timer_set = False, has_cleanup = False\<rparr>)) @ [7]"
  using semaphore_fifo [OF demo_wait_step] demo_wait_step by blast

text \<open>
  Resources are conserved: after any run, the count is the initial number plus what was posted
  minus one for every wait that succeeded, at once or by a grant; timeouts and cleanups neither
  create nor lose any. The equation is modulo the width of an \<open>int\<close>.
\<close>

theorem semaphore_conserves_resources:
  assumes "sem_run (init_sem (int32 n) cos, False) tr (s, h)"
  shows "resource_count s = int32 (n + balance tr)"
  using sem_run_resource [OF assms, of n] by (simp add: init_sem_def)

text \<open>
  C40: The handler's loop ends when the coroutines that it resumes at most wait again, that is, only append to the queue and post nothing. It has then resumed waiters with success, at
  most as many as there were resources, from the front of the queue on, one call of \<open>resume\<close> for each waiter that left the queue; and nobody waits any more, or no resource is left.
\<close>

theorem semaphore_handler_serves:
  assumes "\<And>c st x w. \<exists>q. wait_queue (fst (resume c st (x, w))) = wait_queue x @ q"
    and "\<And>c st x w. resource_count (fst (resume c st (x, w))) \<le> resource_count x"
    and "\<And>c st x w. resumed (snd (resume c st (x, w))) = resumed w @ [(c, st)]"
  shows "\<exists>n q s' w'. semaphore_handler resume (s, w) = Some (s', w') \<and> n \<le> nat (resource_count s) \<and> n \<le> length (wait_queue s @ q) \<and>
     resumed w' = resumed w @ map (\<lambda>c. (c, SEMAPHORE_WAIT_SUCC)) (take n (wait_queue s @ q)) \<and> wait_queue s' = drop n (wait_queue s @ q) \<and>
     (wait_queue s' = [] \<or> resource_count s' \<le> 0)"
  using assms by (rule semaphore_handler_drains)

text \<open>Coroutines that wait again as soon as they are resumed.\<close>

definition wait_again :: "nat \<Rightarrow> wait_status \<Rightarrow> sem_state \<times> (nat \<times> wait_status) list \<Rightarrow> sem_state \<times> (nat \<times> wait_status) list" where
  "wait_again c st y = (snd (ffi_semaphore_wait True True 5 c (fst y)), snd y @ [(c, st)])"

theorem semaphore_handler_serves_witness:
  "\<exists>n q s' w'. semaphore_handler wait_again
       (\<lparr>wait_queue = [3, 5], resource_count = 1, wait_count = 2, event_posted = False, co = \<lambda>_. \<lparr>timer_set = True, has_cleanup = True\<rparr>\<rparr>, []) = Some (s', w') \<and>
     n \<le> 1 \<and> n \<le> length ([3, 5] @ q) \<and> w' = map (\<lambda>c. (c, SEMAPHORE_WAIT_SUCC)) (take n ([3, 5] @ q)) \<and> wait_queue s' = drop n ([3, 5] @ q) \<and>
     (wait_queue s' = [] \<or> resource_count s' \<le> 0)"
  using semaphore_handler_serves [of wait_again "\<lambda>w. w"
      "\<lparr>wait_queue = [3, 5], resource_count = 1, wait_count = 2, event_posted = False, co = \<lambda>_. \<lparr>timer_set = True, has_cleanup = True\<rparr>\<rparr>" "[]"]
  by (auto simp: wait_again_def ffi_semaphore_wait_def set_co_def)

end
