(* ===== verification/Uri.thy ===== *)
theory Uri
  imports Prelude
begin

section \<open>URI escaping and SQL quoting (ngx\_stream\_lua\_util.c, ngx\_stream\_lua\_string.c)\<close>

text \<open>
  The escape and unescape routines and the Lua functions around them. A routine called with
  \<open>dst = NULL\<close> counts; called with a buffer it writes, and the model returns the bytes written.
\<close>

subsection \<open>Escape tables\<close>

definition uri_table :: "32 word list" where
  "uri_table = [0xffffffff, 0xfc00886d, 0x78000000, 0xa8000000, 0xffffffff, 0xffffffff, 0xffffffff, 0xffffffff]"

definition args_table :: "32 word list" where
  "args_table = [0xffffffff, 0x80000829, 0x00000000, 0x80000000, 0xffffffff, 0xffffffff, 0xffffffff, 0xffffffff]"

definition html_table :: "32 word list" where
  "html_table = [0xffffffff, 0x000000ad, 0x00000000, 0x80000000, 0xffffffff, 0xffffffff, 0xffffffff, 0xffffffff]"

definition refresh_table :: "32 word list" where
  "refresh_table = [0xffffffff, 0x00000085, 0x00000000, 0x80000000, 0xffffffff, 0xffffffff, 0xffffffff, 0xffffffff]"

definition memcached_table :: "32 word list" where
  "memcached_table = [0xffffffff, 0x00000021, 0x00000000, 0x00000000, 0x00000000, 0x00000000, 0x00000000, 0x00000000]"

definition escape_map :: "32 word list list" where
  "escape_map = [uri_table, args_table, html_table, refresh_table, memcached_table, memcached_table]"

text \<open>\<open>map[type]\<close>: \<open>None\<close> is an index past the end of the array.\<close>

definition escape_of :: "nat \<Rightarrow> 32 word list option" where
  "escape_of ty = (if ty < length escape_map then Some (escape_map ! ty) else None)"

definition NGX_ESCAPE_URI :: nat where "NGX_ESCAPE_URI = 0"

definition code :: "char \<Rightarrow> nat" where "code c = of_char c"

definition is_escaped :: "32 word list \<Rightarrow> char \<Rightarrow> bool" where
  "is_escaped escape c = bit (escape ! (code c div 32)) (code c mod 32)"

subsection \<open>Escaping\<close>

definition hex :: "nat \<Rightarrow> char" where
  "hex n = ''0123456789ABCDEF'' ! n"

fun escape_count :: "32 word list \<Rightarrow> bytes \<Rightarrow> nat" where
  "escape_count escape [] = 0"
| "escape_count escape (c # src) = (if is_escaped escape c then 1 else 0) + escape_count escape src"

fun escape_write :: "32 word list \<Rightarrow> bytes \<Rightarrow> bytes" where
  "escape_write escape [] = []"
| "escape_write escape (c # src) =
     (if is_escaped escape c then [CHR 0x25, hex (code c div 16), hex (code c mod 16)] else [c]) @ escape_write escape src"

text \<open>\<open>escape_uri\<close> with \<open>NULL\<close>: the number of bytes to escape; with a buffer: the bytes written.\<close>

definition escape_uri_count :: "bytes \<Rightarrow> nat \<Rightarrow> nat option" where
  "escape_uri_count src ty = map_option (\<lambda>e. escape_count e src) (escape_of ty)"

definition escape_uri :: "bytes \<Rightarrow> nat \<Rightarrow> bytes option" where
  "escape_uri src ty = map_option (\<lambda>e. escape_write e src) (escape_of ty)"

subsection \<open>Unescaping\<close>

definition NGX_UNESCAPE_URI :: nat where "NGX_UNESCAPE_URI = 1"
definition NGX_UNESCAPE_REDIRECT :: nat where "NGX_UNESCAPE_REDIRECT = 2"
definition NGX_UNESCAPE_URI_COMPONENT :: nat where "NGX_UNESCAPE_URI_COMPONENT = 0"

lemmas unescape_types = NGX_UNESCAPE_URI_def NGX_UNESCAPE_REDIRECT_def NGX_UNESCAPE_URI_COMPONENT_def

datatype unescape_state = SwUsual | SwQuoted | SwQuotedSecond nat char

text \<open>The two tests for a hexadecimal digit: a decimal one, or a letter of either case.\<close>

definition dec_digit :: "char \<Rightarrow> nat option" where
  "dec_digit ch = (if code CHR ''0'' \<le> code ch \<and> code ch \<le> code CHR ''9'' then Some (code ch - code CHR ''0'') else None)"

definition hex_letter :: "char \<Rightarrow> nat option" where
  "hex_letter ch =
     (let c = code ch OR 0x20
      in if code CHR ''a'' \<le> c \<and> c \<le> code CHR ''f'' then Some (c - code CHR ''a'' + 10) else None)"

text \<open>The bytes written and the source left at \<open>done\<close>. \<open>*(s - 2)\<close> is the first digit.\<close>

fun unescape_loop :: "nat \<Rightarrow> unescape_state \<Rightarrow> bytes \<Rightarrow> bytes \<times> bytes" where
  "unescape_loop ty st [] = ([], [])"
| "unescape_loop ty SwUsual (ch # s) =
     (if ch = CHR ''?'' \<and> ty AND (NGX_UNESCAPE_URI OR NGX_UNESCAPE_REDIRECT) \<noteq> 0 then ([ch], s)
      else if ch = CHR 0x25 then unescape_loop ty SwQuoted s
      else if ch = CHR ''+'' then (case unescape_loop ty SwUsual s of (d, r) \<Rightarrow> (CHR '' '' # d, r))
      else (case unescape_loop ty SwUsual s of (d, r) \<Rightarrow> (ch # d, r)))"
| "unescape_loop ty SwQuoted (ch # s) =
     (case dec_digit ch of
        Some v \<Rightarrow> unescape_loop ty (SwQuotedSecond v ch) s
      | None \<Rightarrow>
          (case hex_letter ch of
             Some v \<Rightarrow> unescape_loop ty (SwQuotedSecond v ch) s
           | None \<Rightarrow> (case unescape_loop ty SwUsual s of (d, r) \<Rightarrow> (ch # d, r))))"
| "unescape_loop ty (SwQuotedSecond decoded first) (ch # s) =
     (case dec_digit ch of
        Some v \<Rightarrow>
          (let c = char_of (16 * decoded + v)
           in if ty AND NGX_UNESCAPE_REDIRECT \<noteq> 0 then
                (if code c > 0x25 \<and> code c < 0x7f
                 then (case unescape_loop ty SwUsual s of (d, r) \<Rightarrow> (c # d, r))
                 else (case unescape_loop ty SwUsual s of (d, r) \<Rightarrow> (CHR 0x25 # first # ch # d, r)))
              else (case unescape_loop ty SwUsual s of (d, r) \<Rightarrow> (c # d, r)))
      | None \<Rightarrow>
          (case hex_letter ch of
             Some v \<Rightarrow>
               (let c = char_of (16 * decoded + v)
                in if ty AND NGX_UNESCAPE_URI \<noteq> 0 then
                     (if c = CHR ''?'' then ([c], s)
                      else (case unescape_loop ty SwUsual s of (d, r) \<Rightarrow> (c # d, r)))
                   else if ty AND NGX_UNESCAPE_REDIRECT \<noteq> 0 then
                     (if c = CHR ''?'' then ([c], s)
                      else if code c > 0x25 \<and> code c < 0x7f
                      then (case unescape_loop ty SwUsual s of (d, r) \<Rightarrow> (c # d, r))
                      else (case unescape_loop ty SwUsual s of (d, r) \<Rightarrow> (CHR 0x25 # first # ch # d, r)))
                   else (case unescape_loop ty SwUsual s of (d, r) \<Rightarrow> (c # d, r)))
           | None \<Rightarrow> unescape_loop ty SwUsual s))"

definition unescape_uri :: "bytes \<Rightarrow> nat \<Rightarrow> bytes \<times> bytes" where
  "unescape_uri src ty = unescape_loop ty SwUsual src"

subsection \<open>The Lua functions\<close>

definition ngx_escape_uri :: "lua_rt \<Rightarrow> lua_value list \<Rightarrow> lua_result option" where
  "ngx_escape_uri rt args =
     (case args of
        [v] \<Rightarrow>
          (if v = LNil then Some (LRet [LString ''''])
           else case check_string rt v of
             None \<Rightarrow> Some (LErr ''bad argument'')
           | Some src \<Rightarrow>
               (if length src = 0 then Some (LRet [LString src])
                else
                  (case (escape_uri_count src NGX_ESCAPE_URI, escape_uri src NGX_ESCAPE_URI) of
                     (Some n, Some dst) \<Rightarrow>
                       (if 2 * n = 0 then Some (LRet [LString src])
                        else if length dst = 2 * n + length src then Some (LRet [LString dst])
                        else None)
                   | _ \<Rightarrow> None)))
      | _ \<Rightarrow> Some (LErr ''expecting one argument''))"

definition ngx_unescape_uri :: "lua_rt \<Rightarrow> lua_value list \<Rightarrow> lua_result option" where
  "ngx_unescape_uri rt args =
     (case args of
        [v] \<Rightarrow>
          (if v = LNil then Some (LRet [LString ''''])
           else case check_string rt v of
             None \<Rightarrow> Some (LErr ''bad argument'')
           | Some src \<Rightarrow>
               (let dst = fst (unescape_uri src NGX_UNESCAPE_URI_COMPONENT)
                in if length dst \<le> length src then Some (LRet [LString dst]) else None))
      | _ \<Rightarrow> Some (LErr ''expecting one argument''))"

subsection \<open>SQL quoting\<close>

text \<open>The letter after the backslash for a byte that is escaped.\<close>

definition sql_letter :: "char \<Rightarrow> char option" where
  "sql_letter c =
     (if code c AND 0x80 = 0 then
        (if c = CHR 0x00 then Some (CHR ''0'')
         else if c = CHR 0x08 then Some (CHR ''b'')
         else if c = CHR 0x0A then Some (CHR ''n'')
         else if c = CHR 0x0D then Some (CHR ''r'')
         else if c = CHR 0x09 then Some (CHR ''t'')
         else if c = CHR 0x1A then Some (CHR ''Z'')
         else if c = CHR 0x5C then Some (CHR 0x5C)
         else if c = CHR 0x27 then Some (CHR 0x27)
         else if c = CHR 0x22 then Some (CHR 0x22)
         else None)
      else None)"

fun escape_sql_count :: "bytes \<Rightarrow> nat" where
  "escape_sql_count [] = 0"
| "escape_sql_count (c # src) = (if sql_letter c \<noteq> None then 1 else 0) + escape_sql_count src"

fun escape_sql_str :: "bytes \<Rightarrow> bytes" where
  "escape_sql_str [] = []"
| "escape_sql_str (c # src) =
     (case sql_letter c of Some l \<Rightarrow> CHR 0x5C # l # escape_sql_str src | None \<Rightarrow> c # escape_sql_str src)"

text \<open>\<open>None\<close> is the source's early \<open>return NGX_ERROR\<close> when the buffer is not filled exactly.\<close>

definition quote_sql_str :: "bytes \<Rightarrow> bytes option" where
  "quote_sql_str src =
     (if length src = 0 then Some [CHR 0x27, CHR 0x27]
      else
        (let n = escape_sql_count src;
             dlen = 2 + length src + n;
             p = CHR 0x27 # (if n = 0 then src else escape_sql_str src) @ [CHR 0x27]
         in if length p \<noteq> dlen then None else Some p))"

definition ngx_quote_sql_str :: "lua_rt \<Rightarrow> lua_value list \<Rightarrow> lua_result option" where
  "ngx_quote_sql_str rt args =
     (case args of
        [v] \<Rightarrow>
          (case check_string rt v of
             None \<Rightarrow> Some (LErr ''bad argument'')
           | Some src \<Rightarrow> map_option (\<lambda>q. LRet [LString q]) (quote_sql_str src))
      | _ \<Rightarrow> Some (LErr ''expecting one argument''))"

text \<open>How a quoted string is read back: a backslash takes the next byte, an unescaped quote ends
  it.\<close>

fun read_sql :: "bytes \<Rightarrow> bytes option" where
  "read_sql [] = None"
| "read_sql (c # s) =
     (if c = CHR 0x27 then (if s = [] then Some [] else None)
      else if c = CHR 0x5C then
        (case s of
           [] \<Rightarrow> None
         | l # s' \<Rightarrow>
             (case read_sql s' of
                None \<Rightarrow> None
              | Some r \<Rightarrow>
                  Some ((if l = CHR ''0'' then CHR 0x00 else if l = CHR ''b'' then CHR 0x08
                         else if l = CHR ''n'' then CHR 0x0A else if l = CHR ''r'' then CHR 0x0D
                         else if l = CHR ''t'' then CHR 0x09 else if l = CHR ''Z'' then CHR 0x1A else l) # r)))
      else map_option (\<lambda>r. c # r) (read_sql s))"

subsection \<open>Lemmas\<close>

lemma code_less [simp]: "code c < 256"
  by (simp add: code_def)

lemma char_of_code [simp]: "char_of (code c) = c"
  by (simp add: code_def)

lemma escape_write_length: "length (escape_write e src) = length src + 2 * escape_count e src"
  by (induction src) auto

lemma escape_count_0: "escape_count e src = 0 \<Longrightarrow> escape_write e src = src"
  by (induction src) (auto split: if_splits)

lemma escape_of_uri [simp]: "escape_of NGX_ESCAPE_URI = Some uri_table"
  by (simp add: escape_of_def escape_map_def NGX_ESCAPE_URI_def)

lemma uri_escapes_special:
  "is_escaped uri_table (CHR 0x25)" "is_escaped uri_table (CHR ''+'')" "is_escaped uri_table (CHR ''?'')"
  "is_escaped uri_table (CHR ''='')" "is_escaped uri_table (CHR ''&'')"
  by (simp_all add: is_escaped_def uri_table_def code_def)

text \<open>A digit written by \<open>hex\<close> is read back by the two tests.\<close>

lemma hex_read:
  assumes "n < 16"
  shows "dec_digit (hex n) = Some n \<or> dec_digit (hex n) = None \<and> hex_letter (hex n) = Some n"
proof -
  have "n \<in> {0, 1, 2, 3, 4, 5, 6, 7, 8, 9, 10, 11, 12, 13, 14, 15}" using assms by simp presburger
  then show ?thesis by (elim insertE emptyE) (simp_all add: hex_def dec_digit_def hex_letter_def code_def)
qed

lemma unescape_escaped:
  "unescape_loop 0 SwUsual (CHR 0x25 # hex (code c div 16) # hex (code c mod 16) # s) =
     (case unescape_loop 0 SwUsual s of (d, r) \<Rightarrow> (c # d, r))"
proof -
  have "code c div 16 < 16" by (simp add: less_mult_imp_div_less)
  note hi = hex_read [OF this] and lo = hex_read [of "code c mod 16"]
  have "char_of (16 * (code c div 16) + code c mod 16) = c" by simp
  then show ?thesis using hi lo by auto
qed

lemma unescape_plain:
  "\<not> is_escaped uri_table c \<Longrightarrow>
     unescape_loop 0 SwUsual (c # s) = (case unescape_loop 0 SwUsual s of (d, r) \<Rightarrow> (c # d, r))"
  using uri_escapes_special by (auto split: prod.splits)

lemma unescape_escape: "unescape_loop 0 SwUsual (escape_write uri_table src) = (src, [])"
proof (induction src)
  case (Cons c src)
  then show ?case
    using unescape_escaped [of c "escape_write uri_table src"] unescape_plain [of c "escape_write uri_table src"]
    by (cases "is_escaped uri_table c") auto
qed simp

lemma unescape_length:
  "length (fst (unescape_loop ty st src)) + length (snd (unescape_loop ty st src)) \<le>
     length src + (case st of SwUsual \<Rightarrow> 0 | SwQuoted \<Rightarrow> 1 | SwQuotedSecond _ _ \<Rightarrow> 2)"
proof (induction src arbitrary: st)
  case (Cons ch s)
  obtain d r where u: "unescape_loop ty SwUsual s = (d, r)" by fastforce
  then have len: "length d + length r \<le> length s" using Cons [of SwUsual] by simp
  have second: "length (fst (unescape_loop ty (SwQuotedSecond v c) s)) + length (snd (unescape_loop ty (SwQuotedSecond v c) s))
      \<le> length s + 2" for v c
    using Cons [of "SwQuotedSecond v c"] by simp
  show ?case
  proof (cases st)
    case SwUsual
    then show ?thesis using u len Cons [of SwQuoted] by simp
  next
    case SwQuoted
    then show ?thesis using u len second by (auto split: option.splits)
  next
    case (SwQuotedSecond v c)
    then show ?thesis using u len by (simp add: Let_def split: option.splits)
  qed
qed simp

lemma escape_sql_length: "length (escape_sql_str src) = length src + escape_sql_count src"
  by (induction src) (auto split: option.splits)

lemma escape_sql_count_0: "escape_sql_count src = 0 \<Longrightarrow> escape_sql_str src = src"
  by (induction src) (auto split: if_splits option.splits)

lemma sql_letter_special: "sql_letter (CHR 0x27) = Some (CHR 0x27)" "sql_letter (CHR 0x5C) = Some (CHR 0x5C)"
  by (simp_all add: sql_letter_def code_def)

lemma read_escape_sql: "read_sql (escape_sql_str src @ [CHR 0x27]) = Some src"
proof (induction src)
  case (Cons c src)
  show ?case
  proof (cases "sql_letter c")
    case None
    then have "c \<noteq> CHR 0x27" "c \<noteq> CHR 0x5C" using sql_letter_special by auto
    with None Cons show ?thesis by simp
  next
    case (Some l)
    then show ?thesis using Cons by (auto simp: sql_letter_def split: if_splits)
  qed
qed simp

subsection \<open>Properties\<close>

text \<open>
  C32: \<open>ngx.escape_uri\<close> and \<open>ngx.unescape_uri\<close> return for every string, fill exactly the buffer
  they allocate (the counting pass and the writing pass agree, unescaping never grows), and
  unescaping gives back what was escaped.
\<close>

theorem escape_uri_roundtrip:
  "\<exists>dst. ngx_escape_uri rt [LString src] = Some (LRet [LString dst]) \<and>
     ngx_unescape_uri rt [LString dst] = Some (LRet [LString src])"
proof -
  let ?dst = "escape_write uri_table src"
  have "ngx_escape_uri rt [LString src] = Some (LRet [LString ?dst])"
    using escape_count_0 [of uri_table src] escape_write_length [of uri_table src]
    by (auto simp: ngx_escape_uri_def escape_uri_count_def escape_uri_def)
  moreover have "ngx_unescape_uri rt [LString ?dst] = Some (LRet [LString src])"
    using unescape_escape [of src] escape_write_length [of uri_table src]
    by (simp add: ngx_unescape_uri_def unescape_uri_def unescape_types)
  ultimately show ?thesis by blast
qed

text \<open>
  \<open>ngx.quote_sql_str\<close> always fills its buffer exactly, and what is between the quotes reads
  back as the original string: no byte of it can end the quoted string early.
\<close>

theorem quote_sql_str_roundtrip:
  "\<exists>q. ngx_quote_sql_str rt [LString src] = Some (LRet [LString (CHR 0x27 # q)]) \<and> read_sql q = Some src"
proof -
  have "quote_sql_str src = Some (CHR 0x27 # escape_sql_str src @ [CHR 0x27])"
    using escape_sql_length [of src] escape_sql_count_0 [of src] by (auto simp: quote_sql_str_def Let_def)
  then show ?thesis using read_escape_sql [of src] by (simp add: ngx_quote_sql_str_def)
qed

end
