(* ===== verification/Args.thy ===== *)
theory Args
  imports Uri
begin

section \<open>Query arguments (ngx\_stream\_lua\_args.c, ngx\_stream\_lua\_util.c)\<close>

text \<open>
  Encoding a Lua table as a query string and decoding a query string into a table. The table to
  encode is the list of its entries in the order \<open>lua_next\<close> visits them, the same in both passes;
  a nested table is the list of its values. A decoded table is the list of its entries.
\<close>

subsection \<open>Encoding: the counting pass\<close>

definition uri_extra :: "bytes \<Rightarrow> nat" where
  "uri_extra b = 2 * escape_count uri_table b"

text \<open>The accumulators \<open>len\<close>, \<open>total_escape\<close> and \<open>n\<close>.\<close>

type_synonym arg_acc = "nat \<times> nat \<times> nat"

fun count_items :: "lua_rt \<Rightarrow> bytes \<Rightarrow> nat \<Rightarrow> lua_value list \<Rightarrow> arg_acc \<Rightarrow> string + arg_acc" where
  "count_items rt key i [] acc = Inr acc"
| "count_items rt key i (v # vs) (len, total_escape, n) =
     (case v of
        LBool False \<Rightarrow> count_items rt key i vs (len, total_escape, n)
      | LBool True \<Rightarrow>
          count_items rt key (i + 1) vs
            (len + length key, total_escape + (if i > 0 then uri_extra key else 0), n + 1)
      | _ \<Rightarrow>
          (case check_string rt v of
             None \<Rightarrow> Inl ''attempt to use %s as query arg value''
           | Some b \<Rightarrow>
               count_items rt key (i + 1) vs
                 (len + length key + length b + 1,
                  total_escape + uri_extra b + (if i > 0 then uri_extra key else 0), n + 1)))"

fun count_args :: "lua_rt \<Rightarrow> (lua_value \<times> lua_value) list \<Rightarrow> arg_acc \<Rightarrow> string + arg_acc" where
  "count_args rt [] acc = Inr acc"
| "count_args rt ((k, v) # t) (len, total_escape, n) =
     (case k of
        LString key \<Rightarrow>
          (let total_escape = total_escape + uri_extra key
           in case v of
                LString b \<Rightarrow> count_args rt t (len + length key + length b + 1, total_escape + uri_extra b, n + 1)
              | LNumber x \<Rightarrow>
                  (let b = rt_tostring rt x
                   in count_args rt t (len + length key + length b + 1, total_escape + uri_extra b, n + 1))
              | LBool True \<Rightarrow> count_args rt t (len + length key, total_escape, n + 1)
              | LBool False \<Rightarrow> count_args rt t (len, total_escape, n)
              | LList vs \<Rightarrow>
                  (case count_items rt key 0 vs (len, total_escape, n) of
                     Inl e \<Rightarrow> Inl e
                   | Inr acc \<Rightarrow> count_args rt t acc)
              | _ \<Rightarrow> Inl ''attempt to use %s as query arg value'')
      | _ \<Rightarrow> Inl ''attempt to use a non-string key in the args option table'')"

subsection \<open>Encoding: the writing pass\<close>

text \<open>\<open>esc\<close> is the test of \<open>total_escape\<close>: escape everything or copy everything.\<close>

definition put :: "bool \<Rightarrow> bytes \<Rightarrow> bytes" where
  "put esc b = (if esc then escape_write uri_table b else b)"

definition put_sep :: "nat \<Rightarrow> nat \<Rightarrow> bytes" where
  "put_sep i n = (if int i \<noteq> int n - 1 then ''&'' else [])"

fun write_items :: "lua_rt \<Rightarrow> bool \<Rightarrow> nat \<Rightarrow> bytes \<Rightarrow> lua_value list \<Rightarrow> nat \<times> bytes \<Rightarrow> nat \<times> bytes" where
  "write_items rt esc n key [] (i, p) = (i, p)"
| "write_items rt esc n key (v # vs) (i, p) =
     (case v of
        LBool False \<Rightarrow> write_items rt esc n key vs (i, p)
      | LBool True \<Rightarrow> write_items rt esc n key vs (i + 1, p @ put esc key @ put_sep i n)
      | _ \<Rightarrow>
          (case check_string rt v of
             None \<Rightarrow> write_items rt esc n key vs (i, p)
           | Some b \<Rightarrow> write_items rt esc n key vs (i + 1, p @ put esc key @ ''='' @ put esc b @ put_sep i n)))"

fun write_args :: "lua_rt \<Rightarrow> bool \<Rightarrow> nat \<Rightarrow> (lua_value \<times> lua_value) list \<Rightarrow> nat \<times> bytes \<Rightarrow> string + nat \<times> bytes" where
  "write_args rt esc n [] (i, p) = Inr (i, p)"
| "write_args rt esc n ((k, v) # t) (i, p) =
     (case check_string rt k of
        None \<Rightarrow> Inl ''should not reach here''
      | Some key \<Rightarrow>
          (case v of
             LString b \<Rightarrow> write_args rt esc n t (i + 1, p @ put esc key @ ''='' @ put esc b @ put_sep i n)
           | LNumber x \<Rightarrow>
               write_args rt esc n t (i + 1, p @ put esc key @ ''='' @ put esc (rt_tostring rt x) @ put_sep i n)
           | LBool True \<Rightarrow> write_args rt esc n t (i + 1, p @ put esc key @ put_sep i n)
           | LBool False \<Rightarrow> write_args rt esc n t (i, p)
           | LList vs \<Rightarrow> write_args rt esc n t (write_items rt esc n key vs (i, p))
           | _ \<Rightarrow> Inl ''should not reach here''))"

text \<open>\<open>process_args_option\<close> with a pool that has memory; \<open>None\<close> is a write past the buffer.\<close>

definition process_args_option :: "lua_rt \<Rightarrow> (lua_value \<times> lua_value) list \<Rightarrow> (string + bytes) option" where
  "process_args_option rt t =
     (case count_args rt t (0, 0, 0) of
        Inl e \<Rightarrow> Some (Inl e)
      | Inr (len, total_escape, n) \<Rightarrow>
          (let len = len + total_escape;
               len = (if n > 1 then len + (n - 1) else len)
           in case write_args rt (total_escape \<noteq> 0) n t (0, []) of
                Inl e \<Rightarrow> Some (Inl e)
              | Inr (_, p) \<Rightarrow>
                  (if length p > len then None
                   else if length p \<noteq> len then Some (Inl ''buffer error: %d != %d'')
                   else Some (Inr p))))"

subsection \<open>Decoding\<close>

type_synonym arg_table = "(bytes \<times> lua_value) list"

definition set_multi_value_table :: "bytes \<Rightarrow> lua_value \<Rightarrow> arg_table \<Rightarrow> arg_table" where
  "set_multi_value_table k v t =
     (case map_of t k of
        None \<Rightarrow> t @ [(k, v)]
      | Some old \<Rightarrow>
          map (\<lambda>(k', w). if k' = k
                 then (k', case old of LList xs \<Rightarrow> LList (xs @ [v]) | _ \<Rightarrow> LList [old, v])
                 else (k', w)) t)"

text \<open>Saving a pair at its end: a token is the value of the pending key, or a key of its own.\<close>

definition unesc :: "bytes \<Rightarrow> bytes" where
  "unesc seg = fst (unescape_uri seg NGX_UNESCAPE_URI_COMPONENT)"

definition save_pair :: "bytes option \<Rightarrow> bytes \<Rightarrow> arg_table \<Rightarrow> arg_table" where
  "save_pair pending seg t =
     (let (k, v) = (case pending of Some key \<Rightarrow> (key, LString (unesc seg)) | None \<Rightarrow> (unesc seg, LBool True))
      in if length k = 0 then t else set_multi_value_table k v t)"

text \<open>The loop: \<open>seg\<close> is the text between \<open>q\<close> and \<open>p\<close>, \<open>pending\<close> the key on the stack while
  \<open>parsing_value\<close>.\<close>

fun parse_args_loop :: "int \<Rightarrow> int \<Rightarrow> bytes \<Rightarrow> bytes option \<Rightarrow> bytes \<Rightarrow> arg_table \<Rightarrow> arg_table" where
  "parse_args_loop max_args count seg pending [] t =
     (if seg \<noteq> [] \<or> pending \<noteq> None then save_pair pending seg t else t)"
| "parse_args_loop max_args count seg pending (c # p) t =
     (if c = CHR ''='' \<and> pending = None then parse_args_loop max_args count [] (Some (unesc seg)) p t
      else if c = CHR ''&'' then
        (let t = save_pair pending seg t
         in if max_args > 0 \<and> count + 1 = max_args then t
            else parse_args_loop max_args (if max_args > 0 then count + 1 else count) [] None p t)
      else parse_args_loop max_args count (seg @ [c]) pending p t)"

definition parse_args :: "bytes \<Rightarrow> int \<Rightarrow> arg_table" where
  "parse_args buf max_args = parse_args_loop max_args 0 [] None buf []"

subsection \<open>The Lua functions\<close>

text \<open>An argument of \<open>encode_args\<close> is a table with its entries or (\<open>None\<close>) no table.\<close>

definition ngx_encode_args :: "lua_rt \<Rightarrow> (lua_value \<times> lua_value) list option list \<Rightarrow> (string + bytes) option" where
  "ngx_encode_args rt args =
     (case args of
        [Some t] \<Rightarrow> process_args_option rt t
      | [None] \<Rightarrow> Some (Inl ''bad argument'')
      | _ \<Rightarrow> Some (Inl ''expecting 1 argument but seen %d''))"

definition NGX_STREAM_LUA_MAX_ARGS :: int where "NGX_STREAM_LUA_MAX_ARGS = 100"

definition ngx_decode_args :: "lua_rt \<Rightarrow> lua_value list \<Rightarrow> string + arg_table" where
  "ngx_decode_args rt args =
     (if length args \<noteq> 1 \<and> length args \<noteq> 2 then Inl ''expecting 1 or 2 arguments but seen %d''
      else case check_string rt (args ! 0) of
             None \<Rightarrow> Inl ''bad argument''
           | Some buf \<Rightarrow>
               (if length args = 2 then
                  (case check_number rt (args ! 1) of
                     None \<Rightarrow> Inl ''bad argument''
                   | Some x \<Rightarrow> Inr (parse_args buf (rt_int rt x)))
                else Inr (parse_args buf NGX_STREAM_LUA_MAX_ARGS)))"

subsection \<open>What is encoded\<close>

text \<open>The pairs of a table in order: a key with a value, or a key alone for \<open>true\<close>.\<close>

definition item_pairs :: "lua_rt \<Rightarrow> bytes \<Rightarrow> lua_value \<Rightarrow> (bytes \<times> bytes option) list" where
  "item_pairs rt key v =
     (case v of
        LBool b \<Rightarrow> (if b then [(key, None)] else [])
      | _ \<Rightarrow> (case check_string rt v of Some b \<Rightarrow> [(key, Some b)] | None \<Rightarrow> []))"

definition value_pairs :: "lua_rt \<Rightarrow> bytes \<Rightarrow> lua_value \<Rightarrow> (bytes \<times> bytes option) list" where
  "value_pairs rt key v = (case v of LList vs \<Rightarrow> concat (map (item_pairs rt key) vs) | _ \<Rightarrow> item_pairs rt key v)"

fun key_bytes :: "lua_value \<Rightarrow> bytes" where
  "key_bytes (LString key) = key"
| "key_bytes _ = []"

definition pairs :: "lua_rt \<Rightarrow> (lua_value \<times> lua_value) list \<Rightarrow> (bytes \<times> bytes option) list" where
  "pairs rt t = concat (map (\<lambda>(k, v). value_pairs rt (key_bytes k) v) t)"

definition scalar :: "lua_value \<Rightarrow> bool" where
  "scalar v \<longleftrightarrow> (case v of LString _ \<Rightarrow> True | LNumber _ \<Rightarrow> True | LBool _ \<Rightarrow> True | _ \<Rightarrow> False)"

definition encodable_args :: "(lua_value \<times> lua_value) list \<Rightarrow> bool" where
  "encodable_args t \<longleftrightarrow>
     (\<forall>(k, v) \<in> set t. (\<exists>key. k = LString key) \<and>
        (scalar v \<or> (\<exists>vs. v = LList vs \<and> (\<forall>x \<in> set vs. scalar x))))"

fun pair_text :: "bool \<Rightarrow> bytes \<times> bytes option \<Rightarrow> bytes" where
  "pair_text esc (k, None) = put esc k"
| "pair_text esc (k, Some b) = put esc k @ ''='' @ put esc b"

fun plain_len :: "bytes \<times> bytes option \<Rightarrow> nat" where
  "plain_len (k, None) = length k"
| "plain_len (k, Some b) = length k + length b + 1"

fun pair_extra :: "bytes \<times> bytes option \<Rightarrow> nat" where
  "pair_extra (k, None) = uri_extra k"
| "pair_extra (k, Some b) = uri_extra k + uri_extra b"

text \<open>Escapes counted for keys that are then not written.\<close>

definition wasted :: "lua_rt \<Rightarrow> (lua_value \<times> lua_value) list \<Rightarrow> nat" where
  "wasted rt t = sum_list (map (\<lambda>(k, v). if value_pairs rt (key_bytes k) v = [] then uri_extra (key_bytes k) else 0) t)"

fun join :: "bytes list \<Rightarrow> bytes" where
  "join [] = []"
| "join [x] = x"
| "join (x # y # xs) = x @ ''&'' @ join (y # xs)"

subsection \<open>The counting pass\<close>

lemma count_items_eq:
  assumes "\<forall>x \<in> set vs. scalar x"
  shows "count_items rt key i vs (len, te, n) =
    (let ps = concat (map (item_pairs rt key) vs)
     in Inr (len + sum_list (map plain_len ps),
             te + sum_list (map pair_extra ps) - (if i = 0 \<and> ps \<noteq> [] then uri_extra key else 0),
             n + length ps))"
  using assms
proof (induction vs arbitrary: i len te n)
  case (Cons v vs)
  then show ?case
    by (cases v) (auto simp: scalar_def item_pairs_def Let_def split: bool.splits)
qed simp

lemma count_args_eq:
  assumes "encodable_args t"
  shows "count_args rt t (len, te, n) =
    Inr (len + sum_list (map plain_len (pairs rt t)),
         te + sum_list (map pair_extra (pairs rt t)) + wasted rt t,
         n + length (pairs rt t))"
  using assms
proof (induction t arbitrary: len te n)
  case Nil
  then show ?case by (simp add: pairs_def wasted_def)
next
  case (Cons kv t)
  obtain key v where kv: "kv = (LString key, v)" using Cons.prems by (auto simp: encodable_args_def)
  have t: "encodable_args t" using Cons.prems by (simp add: encodable_args_def)
  have v: "scalar v \<or> (\<exists>vs. v = LList vs \<and> (\<forall>x \<in> set vs. scalar x))"
    using Cons.prems kv by (simp add: encodable_args_def)
  show ?case
  proof (cases "\<exists>vs. v = LList vs")
    case True
    then obtain vs where vs: "v = LList vs" "\<forall>x \<in> set vs. scalar x" using v by (auto simp: scalar_def)
    then show ?thesis
      using Cons.IH [OF t] kv count_items_eq [OF vs(2), of rt key 0]
      by (auto simp: pairs_def wasted_def value_pairs_def Let_def)
  next
    case False
    then have "scalar v" using v by blast
    then show ?thesis
      using Cons.IH [OF t] kv
      by (cases v) (auto simp: scalar_def pairs_def wasted_def value_pairs_def item_pairs_def Let_def split: bool.splits)
  qed
qed

subsection \<open>The writing pass\<close>

fun write_pairs :: "bool \<Rightarrow> nat \<Rightarrow> nat \<Rightarrow> (bytes \<times> bytes option) list \<Rightarrow> bytes" where
  "write_pairs esc n i [] = []"
| "write_pairs esc n i (x # xs) = pair_text esc x @ put_sep i n @ write_pairs esc n (i + 1) xs"

lemma write_pairs_append:
  "write_pairs esc n i (xs @ ys) = write_pairs esc n i xs @ write_pairs esc n (i + length xs) ys"
  by (induction xs arbitrary: i) auto

lemma write_items_eq:
  assumes "\<forall>x \<in> set vs. scalar x"
  shows "write_items rt esc n key vs (i, p) =
    (i + length (concat (map (item_pairs rt key) vs)), p @ write_pairs esc n i (concat (map (item_pairs rt key) vs)))"
  using assms
proof (induction vs arbitrary: i p)
  case (Cons v vs)
  then show ?case by (cases v) (auto simp: scalar_def item_pairs_def split: bool.splits)
qed simp

lemma write_args_eq:
  assumes "encodable_args t"
  shows "write_args rt esc n t (i, p) = Inr (i + length (pairs rt t), p @ write_pairs esc n i (pairs rt t))"
  using assms
proof (induction t arbitrary: i p)
  case Nil
  then show ?case by (simp add: pairs_def)
next
  case (Cons kv t)
  obtain key v where kv: "kv = (LString key, v)" using Cons.prems by (auto simp: encodable_args_def)
  have t: "encodable_args t" using Cons.prems by (simp add: encodable_args_def)
  have v: "scalar v \<or> (\<exists>vs. v = LList vs \<and> (\<forall>x \<in> set vs. scalar x))"
    using Cons.prems kv by (simp add: encodable_args_def)
  show ?case
  proof (cases "\<exists>vs. v = LList vs")
    case True
    then obtain vs where vs: "v = LList vs" "\<forall>x \<in> set vs. scalar x" using v by (auto simp: scalar_def)
    then show ?thesis
      using Cons.IH [OF t] kv write_items_eq [OF vs(2)]
      by (simp add: pairs_def value_pairs_def write_pairs_append)
  next
    case False
    then have "scalar v" using v by blast
    then show ?thesis
      using Cons.IH [OF t] kv
      by (cases v) (auto simp: scalar_def pairs_def value_pairs_def item_pairs_def split: bool.splits)
  qed
qed

lemma write_pairs_join: "write_pairs esc (i + length xs) i xs = join (map (pair_text esc) xs)"
proof (induction xs arbitrary: i)
  case (Cons x xs)
  show ?case
  proof (cases xs)
    case Nil
    then show ?thesis by (simp add: put_sep_def)
  next
    case (Cons y ys)
    then show ?thesis using Cons.IH [of "Suc i"] by (simp add: put_sep_def)
  qed
qed simp

lemma put_length: "length (put True b) = length b + uri_extra b"
  by (simp add: put_def uri_extra_def escape_write_length)

lemma pair_text_length: "length (pair_text True x) = plain_len x + pair_extra x"
  by (cases x rule: plain_len.cases) (simp_all add: put_length)

lemma join_length: "length (join xs) = sum_list (map length xs) + (length xs - 1)"
  by (induction xs rule: join.induct) auto

lemma pair_text_plain: "pair_extra x = 0 \<Longrightarrow> pair_text False x = pair_text True x"
  by (cases x rule: plain_len.cases) (auto simp: put_def uri_extra_def escape_count_0)

lemma sum_list_pair_text:
  "sum_list (map (length \<circ> pair_text True) ps) = sum_list (map plain_len ps) + sum_list (map pair_extra ps)"
  by (induction ps) (auto simp: pair_text_length)

text \<open>Whether everything is escaped or everything is copied, the text is the escaped one.\<close>

lemma map_pair_text:
  assumes "te \<noteq> 0 \<or> sum_list (map pair_extra ps) = 0"
  shows "map (pair_text (te \<noteq> 0)) ps = map (pair_text True) ps"
proof (cases "te = 0")
  case True
  then have "\<forall>x \<in> set ps. pair_extra x = 0" using assms by auto
  then show ?thesis using True pair_text_plain by auto
qed simp

lemma process_args_eq:
  assumes "encodable_args t"
  shows "process_args_option rt t =
    Some (if wasted rt t = 0 then Inr (join (map (pair_text True) (pairs rt t))) else Inl ''buffer error: %d != %d'')"
proof -
  define ps where "ps = pairs rt t"
  define te where "te = sum_list (map pair_extra ps) + wasted rt t"
  let ?out = "join (map (pair_text True) ps)"
  have m: "map (pair_text (te \<noteq> 0)) ps = map (pair_text True) ps"
    by (rule map_pair_text) (auto simp: te_def)
  have w: "write_args rt (te \<noteq> 0) (length ps) t (0, []) = Inr (length ps, ?out)"
    unfolding write_args_eq [OF assms] ps_def [symmetric]
    using write_pairs_join [of "te \<noteq> 0" 0 ps, unfolded m] by simp
  have l: "length ?out = sum_list (map plain_len ps) + sum_list (map pair_extra ps) + (length ps - 1)"
    using sum_list_pair_text [of ps] by (simp add: join_length)
  have c: "count_args rt t (0, 0, 0) = Inr (sum_list (map plain_len ps), te, length ps)"
    using count_args_eq [OF assms, of rt 0 0 0] by (simp add: ps_def te_def)
  show ?thesis
    unfolding process_args_option_def c sum.case prod.case Let_def w ps_def [symmetric]
    using l by (auto simp: te_def)
qed

subsection \<open>Decoding what was encoded\<close>

text \<open>A pair read back, and the tables that can be read back: distinct non-empty keys, each with a
  string, \<open>true\<close>, or at least two of these.\<close>

fun saved :: "bytes \<times> bytes option \<Rightarrow> arg_table \<Rightarrow> arg_table" where
  "saved (k, None) t = set_multi_value_table k (LBool True) t"
| "saved (k, Some b) t = set_multi_value_table k (LString b) t"

definition readable_item :: "lua_value \<Rightarrow> bool" where
  "readable_item v \<longleftrightarrow> (case v of LString _ \<Rightarrow> True | LBool b \<Rightarrow> b | _ \<Rightarrow> False)"

definition readable :: "lua_value \<Rightarrow> bool" where
  "readable v \<longleftrightarrow> (case v of LList vs \<Rightarrow> length vs \<ge> 2 \<and> list_all readable_item vs | _ \<Rightarrow> readable_item v)"

definition decodable_args :: "arg_table \<Rightarrow> bool" where
  "decodable_args t \<longleftrightarrow> distinct (map fst t) \<and> list_all (\<lambda>(k, v). k \<noteq> [] \<and> readable v) t"

abbreviation entries :: "arg_table \<Rightarrow> (lua_value \<times> lua_value) list" where
  "entries \<equiv> map (\<lambda>(k, v). (LString k, v))"

lemma hex_no_sep:
  assumes "n < 16"
  shows "hex n \<noteq> CHR ''='' \<and> hex n \<noteq> CHR ''&''"
proof -
  have "n \<in> {0, 1, 2, 3, 4, 5, 6, 7, 8, 9, 10, 11, 12, 13, 14, 15}" using assms by simp presburger
  then show ?thesis by (auto simp: hex_def)
qed

lemma escape_write_no_sep: "x \<in> set (escape_write uri_table b) \<Longrightarrow> x \<noteq> CHR ''='' \<and> x \<noteq> CHR ''&''"
proof (induction b)
  case (Cons c b)
  have "code c div 16 < 16" "code c mod 16 < 16" by (simp_all add: less_mult_imp_div_less)
  then show ?case
    using Cons hex_no_sep uri_escapes_special by (auto split: if_splits)
qed simp

lemma parse_segment:
  assumes "\<forall>x \<in> set xs. x \<noteq> CHR ''='' \<and> x \<noteq> CHR ''&''"
  shows "parse_args_loop m c seg pending (xs @ rest) t = parse_args_loop m c (seg @ xs) pending rest t"
  using assms by (induction xs arbitrary: seg) auto

lemma unesc_put: "unesc (put True b) = b"
  using unescape_escape [of b] by (simp add: unesc_def put_def unescape_uri_def NGX_UNESCAPE_URI_COMPONENT_def)

lemma put_segment: "parse_args_loop m c seg pending (put True b @ rest) t = parse_args_loop m c (seg @ put True b) pending rest t"
  by (rule parse_segment) (auto simp: put_def dest: escape_write_no_sep)

text \<open>A key that is not empty is not empty once escaped.\<close>

lemma put_eq_Nil [simp]: "put True b = [] \<longleftrightarrow> b = []"
  using put_length [of b] by (auto simp: put_def)

lemma parse_pair_last:
  assumes "fst x \<noteq> []"
  shows "parse_args_loop m c [] None (pair_text True x) t = saved x t"
  using assms put_segment [of m c "[]" None _ "[]"] put_segment [of m c "[]" "Some _" _ "[]"]
  by (cases x rule: plain_len.cases) (simp_all add: put_segment unesc_put save_pair_def)

lemma parse_pair_next:
  assumes "fst x \<noteq> []" "m \<le> 0 \<or> c + 1 < m"
  shows "parse_args_loop m c [] None (pair_text True x @ CHR ''&'' # rest) t =
    parse_args_loop m (if m > 0 then c + 1 else c) [] None rest (saved x t)"
  using assms by (cases x rule: plain_len.cases) (auto simp: put_segment unesc_put save_pair_def Let_def)

lemma parse_join:
  assumes "\<forall>x \<in> set ps. fst x \<noteq> []" "m \<le> 0 \<or> c + int (length ps) \<le> m"
  shows "parse_args_loop m c [] None (join (map (pair_text True) ps)) t = fold saved ps t"
  using assms
proof (induction ps arbitrary: c t rule: induct_list012)
  case 1
  then show ?case by simp
next
  case (2 x)
  then show ?case using parse_pair_last [of x m c t] by simp
next
  case (3 x y ps)
  have "m \<le> 0 \<or> c + 1 < m" using 3(4) by auto
  then show ?case
    using 3 parse_pair_next [of x m c "join (map (pair_text True) (y # ps))" t]
    by (simp del: parse_args_loop.simps split: if_splits)
qed

text \<open>Saving a list of values under a fresh key gathers them in order.\<close>

lemma set_multi_new: "k \<notin> fst ` set T \<Longrightarrow> set_multi_value_table k v T = T @ [(k, v)]"
  by (auto simp: set_multi_value_table_def map_of_eq_None_iff split: option.splits)

lemma map_other_keys: "k \<notin> fst ` set T \<Longrightarrow> map (\<lambda>(k', w). if k' = k then (k', f w) else (k', w)) T = T"
  by (induction T) auto

lemma set_multi_again:
  assumes "k \<notin> fst ` set T"
  shows "set_multi_value_table k v (T @ [(k, w)]) =
    T @ [(k, case w of LList xs \<Rightarrow> LList (xs @ [v]) | _ \<Rightarrow> LList [w, v])]"
proof -
  have "map_of (T @ [(k, w)]) k = Some w" using assms by (simp add: map_add_def map_of_eq_None_iff [THEN iffD2])
  then show ?thesis
    unfolding set_multi_value_table_def using map_other_keys [OF assms] by simp
qed

lemma saved_item:
  assumes "readable_item v"
  shows "fold saved (item_pairs rt k v) T = set_multi_value_table k v T"
  using assms by (cases v) (auto simp: readable_item_def item_pairs_def)

lemma saved_items:
  assumes "list_all readable_item vs" "k \<notin> fst ` set T"
  shows "fold saved (concat (map (item_pairs rt k) vs)) (T @ [(k, LList xs)]) = T @ [(k, LList (xs @ vs))]"
  using assms by (induction vs arbitrary: xs) (auto simp: saved_item set_multi_again)

lemma readable_item_not_list: "readable_item v \<Longrightarrow> v \<noteq> LList xs"
  by (auto simp: readable_item_def)

lemma saved_value:
  assumes "readable v" "k \<notin> fst ` set T"
  shows "fold saved (value_pairs rt k v) T = T @ [(k, v)]"
proof (cases "\<exists>vs. v = LList vs")
  case True
  then obtain a b vs where v: "v = LList (a # b # vs)" "readable_item a" "readable_item b" "list_all readable_item vs"
    using assms(1) by (auto simp: readable_def Suc_le_length_iff numeral_2_eq_2)
  have "(case a of LList xs \<Rightarrow> LList (xs @ [b]) | _ \<Rightarrow> LList [a, b]) = LList [a, b]"
    using readable_item_not_list [OF v(2)] by (cases a) auto
  then show ?thesis
    using v assms(2) saved_items [OF v(4) assms(2), of rt "[a, b]"]
    by (simp add: value_pairs_def saved_item set_multi_new set_multi_again)
next
  case False
  then have "readable_item v" "value_pairs rt k v = item_pairs rt k v"
    using assms(1) by (auto simp: readable_def value_pairs_def split: lua_value.splits)
  then show ?thesis by (simp add: saved_item set_multi_new [OF assms(2)])
qed

lemma saved_table:
  assumes "decodable_args t" "fst ` set t \<inter> fst ` set T = {}"
  shows "fold saved (pairs rt (entries t)) T = T @ t"
  using assms
proof (induction t arbitrary: T)
  case (Cons kv t)
  obtain k v where kv: "kv = (k, v)" by fastforce
  have d: "decodable_args t" "k \<notin> fst ` set t" "readable v" using Cons.prems kv by (auto simp: decodable_args_def)
  have k: "k \<notin> fst ` set T" using Cons.prems(2) kv by auto
  have "fold saved (pairs rt (entries t)) (T @ [(k, v)]) = (T @ [(k, v)]) @ t"
    by (rule Cons.IH [OF d(1)]) (use Cons.prems(2) kv d(2) in auto)
  then show ?case using saved_value [OF d(3) k, of rt] kv by (simp add: pairs_def)
qed (simp add: pairs_def)

lemma item_pairs_nonempty: "readable_item v \<Longrightarrow> item_pairs rt k v \<noteq> []"
  by (cases v) (auto simp: readable_item_def item_pairs_def)

lemma value_pairs_nonempty:
  assumes "readable v" shows "value_pairs rt k v \<noteq> []"
proof (cases v)
  case (LList vs)
  then obtain a us where "vs = a # us" "readable_item a" using assms by (cases vs) (auto simp: readable_def)
  then show ?thesis using LList item_pairs_nonempty [of a rt k] by (simp add: value_pairs_def)
qed (use assms item_pairs_nonempty [of v rt k] in \<open>auto simp: readable_def value_pairs_def\<close>)

lemma readable_item_scalar: "readable_item v \<Longrightarrow> scalar v"
  by (cases v) (auto simp: readable_item_def scalar_def)

lemma readable_scalar: "readable v \<Longrightarrow> scalar v \<or> (\<exists>vs. v = LList vs \<and> (\<forall>x \<in> set vs. scalar x))"
  by (cases v) (auto simp: readable_def list_all_iff readable_item_scalar)

lemma decodable_encodable: "decodable_args t \<Longrightarrow> encodable_args (entries t)"
  using readable_scalar by (auto simp: decodable_args_def encodable_args_def list_all_iff)

lemma decodable_wasted: "decodable_args t \<Longrightarrow> wasted rt (entries t) = 0"
  by (auto simp: decodable_args_def wasted_def list_all_iff value_pairs_nonempty)

lemma item_pairs_key: "x \<in> set (item_pairs rt k v) \<Longrightarrow> fst x = k"
  by (cases v) (auto simp: item_pairs_def check_string_def split: if_splits)

lemma value_pairs_key: "x \<in> set (value_pairs rt k v) \<Longrightarrow> fst x = k"
  by (cases v) (auto simp: value_pairs_def dest: item_pairs_key)

lemma decodable_keys: "decodable_args t \<Longrightarrow> x \<in> set (pairs rt (entries t)) \<Longrightarrow> fst x \<noteq> []"
  by (auto simp: decodable_args_def pairs_def list_all_iff dest!: value_pairs_key)

subsection \<open>The properties\<close>

text \<open>
  On a table with string keys whose values are strings, numbers, booleans or lists of these,
  \<open>encode_args\<close> never writes past its buffer. It returns the escaped pairs joined by
  \<open>&\<close>, unless a key that needs escaping has nothing to write: then it raises
  \<open>buffer error\<close>.
\<close>

theorem encode_args_spec:
  assumes "encodable_args t"
  shows "ngx_encode_args rt [Some t] =
    Some (if wasted rt t = 0 then Inr (join (map (pair_text True) (pairs rt t))) else Inl ''buffer error: %d != %d'')"
  using process_args_eq [OF assms] by (simp add: ngx_encode_args_def)

text \<open>
  \<open>encode_args\<close> of a table whose only entry is \<open>false\<close> under a key with a blank raises
  \<open>buffer error\<close>: the counting pass adds the escape of the key, the writing pass skips the entry.
\<close>

theorem encode_args_false_key_fails:
  "ngx_encode_args rt [Some [(LString ''a b'', LBool False)]] = Some (Inl ''buffer error: %d != %d'')"
  by (simp add: ngx_encode_args_def process_args_option_def uri_extra_def is_escaped_def uri_table_def code_def Let_def)

text \<open>
  C30: a table with distinct non-empty keys, each with a string, \<open>true\<close> or a list of at least two
  of these, and at most a hundred pairs in all, is encoded without error, and \<open>decode_args\<close> gives
  back that table.
\<close>

theorem decode_encode_args:
  assumes "decodable_args t" "length (pairs rt (entries t)) \<le> 100"
  shows "\<exists>buf. ngx_encode_args rt [Some (entries t)] = Some (Inr buf) \<and> ngx_decode_args rt [LString buf] = Inr t"
proof -
  let ?buf = "join (map (pair_text True) (pairs rt (entries t)))"
  have "ngx_encode_args rt [Some (entries t)] = Some (Inr ?buf)"
    using process_args_eq [OF decodable_encodable [OF assms(1)], of rt] decodable_wasted [OF assms(1), of rt]
    by (simp add: ngx_encode_args_def)
  moreover have "parse_args ?buf NGX_STREAM_LUA_MAX_ARGS = t"
    using parse_join [of "pairs rt (entries t)" 100 0 "[]"] decodable_keys [OF assms(1)] assms(2)
      saved_table [OF assms(1), of "[]" rt]
    by (simp add: parse_args_def NGX_STREAM_LUA_MAX_ARGS_def)
  ultimately show ?thesis by (simp add: ngx_decode_args_def)
qed

theorem decode_encode_args_witness:
  "\<exists>buf. ngx_encode_args demo_rt [Some (entries [(''a b'', LString ''1&2''), (''k'', LList [LBool True, LString ''x''])])] =
       Some (Inr buf) \<and>
     ngx_decode_args demo_rt [LString buf] = Inr [(''a b'', LString ''1&2''), (''k'', LList [LBool True, LString ''x''])]"
  by (rule decode_encode_args)
    (simp_all add: decodable_args_def readable_def readable_item_def pairs_def value_pairs_def item_pairs_def)

end
