(* ===== verification/Script.thy ===== *)
theory Script
  imports Prelude
begin

section \<open>Replacement templates (ngx\_stream\_lua\_script.c)\<close>

text \<open>
  The replacement of \<open>ngx.re.sub\<close> is compiled into two programs, one that adds up the length of the result and one that writes it. A program is an
  array of machine words, here \<open>cell\<close>s of eight bytes: pointers to functions, numbers and text.
\<close>

subsection \<open>Programs\<close>

datatype script_fn = Copy_Len | Copy_Code | Capture_Len | Capture_Code

datatype cell = Fn script_fn | Num "64 word" | Text bytes | Null_Code

record script_compile =
  lengths :: "cell list"
  vals :: "cell list"
  variables :: nat
  pushes :: nat

datatype script_error = Missing_Bracket bytes | Invalid_Variable | Named_Capture bytes | No_Memory

type_synonym script_result = "script_error + script_compile"

text \<open>The padding of a text to whole cells.\<close>

definition pad8 :: "nat \<Rightarrow> nat" where
  "pad8 n = (n + 7) div 8"

fun text_cells :: "bytes \<Rightarrow> cell list" where
  "text_cells [] = []"
| "text_cells (c # cs) = Text (take 8 (c # cs)) # text_cells (drop 8 (c # cs))"

text \<open>\<open>ngx_array_push_n\<close>: the \<open>n\<close>-th allocation of a compilation may fail.\<close>

definition add_length :: "(nat \<Rightarrow> bool) \<Rightarrow> cell list \<Rightarrow> script_compile \<Rightarrow> script_result" where
  "add_length mem cs sc = (if mem (pushes sc) then Inr (sc\<lparr>lengths := lengths sc @ cs, pushes := pushes sc + 1\<rparr>) else Inl No_Memory)"

definition add_value :: "(nat \<Rightarrow> bool) \<Rightarrow> cell list \<Rightarrow> script_compile \<Rightarrow> script_result" where
  "add_value mem cs sc = (if mem (pushes sc) then Inr (sc\<lparr>vals := vals sc @ cs, pushes := pushes sc + 1\<rparr>) else Inl No_Memory)"

definition add_copy_code :: "(nat \<Rightarrow> bool) \<Rightarrow> bytes \<Rightarrow> script_compile \<Rightarrow> script_result" where
  "add_copy_code mem t sc =
     (let len = word_of_nat (length t)
      in case add_length mem [Fn Copy_Len, Num len] sc of
           Inl e \<Rightarrow> Inl e
         | Inr sc \<Rightarrow> add_value mem ([Fn Copy_Code, Num len] @ text_cells t) sc)"

definition add_capture_code :: "(nat \<Rightarrow> bool) \<Rightarrow> 64 word \<Rightarrow> script_compile \<Rightarrow> script_result" where
  "add_capture_code mem n sc =
     (case add_length mem [Fn Capture_Len, Num (2 * n)] sc of
        Inl e \<Rightarrow> Inl e
      | Inr sc \<Rightarrow> add_value mem [Fn Capture_Code, Num (2 * n)] sc)"

definition script_done :: "(nat \<Rightarrow> bool) \<Rightarrow> script_compile \<Rightarrow> script_result" where
  "script_done mem sc =
     (case add_length mem [Null_Code] sc of Inl e \<Rightarrow> Inl e | Inr sc \<Rightarrow> add_value mem [Null_Code] sc)"

subsection \<open>Compilation\<close>

definition dollar :: char where "dollar = CHR ''$''"

definition is_dec :: "char \<Rightarrow> bool" where
  "is_dec c \<longleftrightarrow> 48 \<le> (of_char c :: nat) \<and> (of_char c :: nat) \<le> 57"

definition is_word :: "char \<Rightarrow> bool" where
  "is_word c \<longleftrightarrow> 65 \<le> (of_char c :: nat) \<and> (of_char c :: nat) \<le> 90 \<or> 97 \<le> (of_char c :: nat) \<and> (of_char c :: nat) \<le> 122 \<or> is_dec c \<or> c = CHR ''_''"

definition num_val :: "char \<Rightarrow> 64 word" where
  "num_val c = word_of_nat (of_char c - 48)"

text \<open>
  The loop over a name from position \<open>i\<close>: the position after it, whether the bracket is still open, the number read, and the length of the name.
\<close>

function name_loop :: "bytes \<Rightarrow> bool \<Rightarrow> bool \<Rightarrow> nat \<Rightarrow> 64 word \<Rightarrow> nat \<Rightarrow> nat \<times> bool \<times> 64 word \<times> nat" where
  "name_loop src num_var bracket i n len =
     (if i \<ge> length src then (i, bracket, n, len)
      else
        (let ch = src ! i
         in if ch = CHR ''}'' \<and> bracket then (i + 1, False, n, len)
            else if num_var then
              (if is_dec ch then name_loop src num_var bracket (i + 1) (n * 10 + num_val ch) (len + 1) else (i, bracket, n, len))
            else if is_word ch then name_loop src num_var bracket (i + 1) n (len + 1)
            else (i, bracket, n, len)))"
  by pat_completeness auto
termination by (relation "measure (\<lambda>(src, num_var, bracket, i, n, len). length src - i)") auto

declare name_loop.simps [simp del]

text \<open>The loop over plain text: the position of the next dollar sign, or the end.\<close>

function text_end :: "bytes \<Rightarrow> nat \<Rightarrow> nat" where
  "text_end src i = (if i \<ge> length src then i else if src ! i = dollar then i else text_end src (i + 1))"
  by pat_completeness auto
termination by (relation "measure (\<lambda>(src, i). length src - i)") auto

declare text_end.simps [simp del]

definition substr :: "bytes \<Rightarrow> nat \<Rightarrow> nat \<Rightarrow> bytes" where
  "substr src i n = take n (drop i src)"

text \<open>A variable after the dollar sign at \<open>i - 1\<close>: the position after it and its number.\<close>

definition scan_variable :: "bytes \<Rightarrow> nat \<Rightarrow> script_error + (nat \<times> 64 word)" where
  "scan_variable src i =
     (let num_var = is_dec (src ! i);
          bracket = (src ! i = CHR ''{'')
      in if bracket \<and> i + 1 = length src then Inl Invalid_Variable
         else
           (let i = (if bracket then i + 1 else i);
                num_var = (num_var \<or> bracket \<and> is_dec (src ! i));
                (j, open, n, len) = name_loop src num_var bracket i 0 0
            in if open then Inl (Missing_Bracket (substr src i len))
               else if len = 0 then Inl Invalid_Variable
               else if \<not> num_var then Inl (Named_Capture (substr src i len))
               else Inr (j, n)))"

lemma name_loop_ge: "name_loop src v b i n len = (j, b', n', len') \<Longrightarrow> i \<le> j"
proof (induction src v b i n len rule: name_loop.induct)
  case (1 src v b i n len)
  from 1(3) show ?case
    by (subst (asm) name_loop.simps) (auto simp: Let_def split: if_splits dest: 1(1,2))
qed

lemma text_end_ge: "i \<le> text_end src i"
  by (induction src i rule: text_end.induct) (subst text_end.simps, auto)

lemma scan_variable_ge: "scan_variable src i = Inr (j, n) \<Longrightarrow> i \<le> j"
  by (auto simp: scan_variable_def Let_def split: if_splits prod.splits dest!: name_loop_ge)

lemma text_end_step: "i < length src \<Longrightarrow> src ! i \<noteq> dollar \<Longrightarrow> i < text_end src i"
  using text_end_ge [of "i + 1" src] by (subst text_end.simps) simp

lemma text_end_less: "\<not> length src \<le> i \<Longrightarrow> src ! i \<noteq> dollar \<Longrightarrow> length src - text_end src i < length src - i"
  using text_end_step [of i src] by (simp add: diff_less_mono2)

function script_loop :: "(nat \<Rightarrow> bool) \<Rightarrow> bytes \<Rightarrow> nat \<Rightarrow> script_compile \<Rightarrow> script_result" where
  "script_loop mem src i sc =
     (if i \<ge> length src then script_done mem sc
      else if src ! i = dollar then
        (if i + 1 = length src then Inl Invalid_Variable
         else if src ! (i + 1) = dollar then
           (case add_copy_code mem (substr src (i + 1) 1) sc of
              Inl e \<Rightarrow> Inl e
            | Inr sc \<Rightarrow> script_loop mem src (i + 2) sc)
         else
           (case scan_variable src (i + 1) of
              Inl e \<Rightarrow> Inl e
            | Inr (j, n) \<Rightarrow>
                (case add_capture_code mem n (sc\<lparr>variables := variables sc + 1\<rparr>) of
                   Inl e \<Rightarrow> Inl e
                 | Inr sc \<Rightarrow> script_loop mem src j sc)))
      else
        (let j = text_end src i
         in case add_copy_code mem (substr src i (j - i)) sc of
              Inl e \<Rightarrow> Inl e
            | Inr sc \<Rightarrow> script_loop mem src j sc))"
  by pat_completeness auto
termination
  by (relation "measure (\<lambda>(mem, src, i, sc). length src - i)")
    (auto dest!: scan_variable_ge simp: text_end_less)

declare script_loop.simps [simp del]

text \<open>A compiled template: the text, and the two programs unless there is no dollar sign in it.\<close>

record complex_value =
  cv_value :: bytes
  cv_code :: "(cell list \<times> cell list) option"

definition compile_complex_value :: "(nat \<Rightarrow> bool) \<Rightarrow> bytes \<Rightarrow> script_error + complex_value" where
  "compile_complex_value mem v =
     (if dollar \<notin> set v then Inr \<lparr>cv_value = v, cv_code = None\<rparr>
      else if \<not> mem 0 \<or> \<not> mem 1 then Inl No_Memory
      else case script_loop mem v 0 \<lparr>lengths = [], vals = [], variables = 0, pushes = 2\<rparr> of
        Inl e \<Rightarrow> Inl e
      | Inr sc \<Rightarrow> Inr \<lparr>cv_value = v, cv_code = Some (lengths sc, vals sc)\<rparr>)"


subsection \<open>Evaluation\<close>

text \<open>A part of the subject; outside of it is \<open>None\<close>. Nothing is read when it is empty.\<close>

definition subject_part :: "bytes \<Rightarrow> int \<Rightarrow> int \<Rightarrow> bytes option" where
  "subject_part subj a b =
     (if a = b then Some []
      else if 0 \<le> a \<and> a \<le> b \<and> b \<le> int (length subj) then Some (take (nat (b - a)) (drop (nat a) subj))
      else None)"

definition code_num :: "cell list \<Rightarrow> nat \<Rightarrow> 64 word option" where
  "code_num code ip = (if ip < length code then (case code ! ip of Num n \<Rightarrow> Some n | _ \<Rightarrow> None) else None)"

definition cap_at :: "int list \<Rightarrow> nat \<Rightarrow> int option" where
  "cap_at cap n = (if n < length cap then Some (cap ! n) else None)"

text \<open>The functions of the program for the length, called with the instruction at \<open>ip\<close>: the next instruction and the length.\<close>

definition copy_len_code :: "cell list \<Rightarrow> nat \<Rightarrow> (nat \<times> 64 word) option" where
  "copy_len_code code ip = map_option (\<lambda>len. (ip + 2, len)) (code_num code (ip + 1))"

definition copy_capture_len_code :: "int list \<Rightarrow> nat \<Rightarrow> cell list \<Rightarrow> nat \<Rightarrow> (nat \<times> 64 word) option" where
  "copy_capture_len_code cap ncaptures code ip =
     (case code_num code (ip + 1) of
        None \<Rightarrow> None
      | Some n \<Rightarrow>
          (if unat n < ncaptures then
             (case (cap_at cap (unat n), cap_at cap (unat n + 1)) of
                (Some a, Some b) \<Rightarrow> Some (ip + 2, word_of_int (b - a))
              | _ \<Rightarrow> None)
           else Some (ip + 2, 0)))"

function run_lengths :: "int list \<Rightarrow> nat \<Rightarrow> cell list \<Rightarrow> nat \<Rightarrow> 64 word \<Rightarrow> 64 word option" where
  "run_lengths cap ncaptures code ip len =
     (if ip \<ge> length code then None
      else case code ! ip of
        Null_Code \<Rightarrow> Some len
      | Fn Copy_Len \<Rightarrow>
          (case copy_len_code code ip of None \<Rightarrow> None | Some (ip', l) \<Rightarrow> run_lengths cap ncaptures code ip' (len + l))
      | Fn Capture_Len \<Rightarrow>
          (case copy_capture_len_code cap ncaptures code ip of None \<Rightarrow> None | Some (ip', l) \<Rightarrow> run_lengths cap ncaptures code ip' (len + l))
      | _ \<Rightarrow> None)"
  by pat_completeness auto
termination
  by (relation "measure (\<lambda>(cap, ncaptures, code, ip, len). length code - ip)")
    (auto simp: copy_len_code_def copy_capture_len_code_def split: option.splits if_splits)

declare run_lengths.simps [simp del]

text \<open>The functions of the program for the text: the next instruction and what is written.\<close>

fun cell_text :: "cell \<Rightarrow> bytes option" where
  "cell_text (Text t) = Some t"
| "cell_text _ = None"

definition code_text :: "cell list \<Rightarrow> nat \<Rightarrow> nat \<Rightarrow> bytes option" where
  "code_text code ip len =
     (let cs = take (pad8 len) (drop ip code)
      in if length cs < pad8 len \<or> list_ex (\<lambda>c. cell_text c = None) cs then None
         else Some (take len (concat (map (the \<circ> cell_text) cs))))"

definition copy_code :: "cell list \<Rightarrow> nat \<Rightarrow> (nat \<times> bytes) option" where
  "copy_code code ip =
     (case code_num code (ip + 1) of
        None \<Rightarrow> None
      | Some len \<Rightarrow> map_option (\<lambda>t. (ip + 2 + pad8 (unat len), t)) (code_text code (ip + 2) (unat len)))"

definition copy_capture_code :: "bytes \<Rightarrow> int list \<Rightarrow> nat \<Rightarrow> cell list \<Rightarrow> nat \<Rightarrow> (nat \<times> bytes) option" where
  "copy_capture_code subj cap ncaptures code ip =
     (case code_num code (ip + 1) of
        None \<Rightarrow> None
      | Some n \<Rightarrow>
          (if unat n < ncaptures then
             (case (cap_at cap (unat n), cap_at cap (unat n + 1)) of
                (Some a, Some b) \<Rightarrow> map_option (\<lambda>t. (ip + 2, t)) (subject_part subj a b)
              | _ \<Rightarrow> None)
           else Some (ip + 2, [])))"

text \<open>The result has room for \<open>room\<close> bytes.\<close>

definition put_text :: "nat \<Rightarrow> bytes \<Rightarrow> bytes \<Rightarrow> bytes option" where
  "put_text room t buf = (if length buf + length t \<le> room then Some (buf @ t) else None)"

function run_values :: "bytes \<Rightarrow> int list \<Rightarrow> nat \<Rightarrow> nat \<Rightarrow> cell list \<Rightarrow> nat \<Rightarrow> bytes \<Rightarrow> bytes option" where
  "run_values subj cap ncaptures room code ip buf =
     (if ip \<ge> length code then None
      else case code ! ip of
        Null_Code \<Rightarrow> Some buf
      | Fn Copy_Code \<Rightarrow>
          (case copy_code code ip of
             None \<Rightarrow> None
           | Some (ip', t) \<Rightarrow> (case put_text room t buf of None \<Rightarrow> None | Some buf \<Rightarrow> run_values subj cap ncaptures room code ip' buf))
      | Fn Capture_Code \<Rightarrow>
          (case copy_capture_code subj cap ncaptures code ip of
             None \<Rightarrow> None
           | Some (ip', t) \<Rightarrow> (case put_text room t buf of None \<Rightarrow> None | Some buf \<Rightarrow> run_values subj cap ncaptures room code ip' buf))
      | _ \<Rightarrow> None)"
  by pat_completeness auto
termination
  by (relation "measure (\<lambda>(subj, cap, ncaptures, room, code, ip, buf). length code - ip)")
    (auto simp: copy_code_def copy_capture_code_def split: option.splits if_splits)

declare run_values.simps [simp del]

text \<open>
  \<open>ngx_stream_lua_complex_value\<close>: whether it succeeds, and what it adds to the Lua buffer: the subject from \<open>offset\<close> to the match, and the
  replacement. \<open>mem\<close> is the allocation of the result.
\<close>

definition eval_complex_value :: "bool \<Rightarrow> bytes \<Rightarrow> int \<Rightarrow> nat \<Rightarrow> int list \<Rightarrow> complex_value \<Rightarrow> (bool \<times> bytes) option" where
  "eval_complex_value mem subj offset count cap val =
     (case cap_at cap 0 of
        None \<Rightarrow> None
      | Some c0 \<Rightarrow>
          (case cv_code val of
             None \<Rightarrow> map_option (\<lambda>t. (True, t @ cv_value val)) (subject_part subj offset c0)
           | Some (ls, vs) \<Rightarrow>
               (case run_lengths cap (count * 2) ls 0 0 of
                  None \<Rightarrow> None
                | Some len \<Rightarrow>
                    (if \<not> mem then Some (False, [])
                     else case run_values subj cap (count * 2) (unat len) vs 0 [] of
                       None \<Rightarrow> None
                     | Some p \<Rightarrow>
                         (if length p < unat len then None
                          else map_option (\<lambda>t. (True, t @ p)) (subject_part subj offset c0))))))"

end
