(* ===== verification/Script_Props.thy ===== *)
theory Script_Props
  imports Script
begin

section \<open>Templates are expanded as they are written\<close>

subsection \<open>What a template means\<close>

text \<open>A template is a list of texts and numbers of captures.\<close>

datatype tpart = Lit bytes | Cap nat

definition decimal :: "bytes \<Rightarrow> nat" where
  "decimal ds = foldl (\<lambda>n d. n * 10 + (of_char d - 48)) 0 ds"

text \<open>What follows a dollar sign.\<close>

definition variable :: "bytes \<Rightarrow> (tpart \<times> bytes) option" where
  "variable cs =
     (case cs of
        [] \<Rightarrow> None
      | c # r \<Rightarrow>
          (if c = dollar then Some (Lit [dollar], r)
           else if c = CHR ''{'' then
             (let ds = takeWhile is_dec r
              in case dropWhile is_dec r of
                   [] \<Rightarrow> None
                 | d # rest \<Rightarrow> (if ds \<noteq> [] \<and> d = CHR ''}'' then Some (Cap (decimal ds), rest) else None))
           else if is_dec c then Some (Cap (decimal (takeWhile is_dec cs)), dropWhile is_dec cs)
           else None))"

lemma variable_shorter: "variable cs = Some (p, r) \<Longrightarrow> length r < length cs"
proof (cases cs)
  case (Cons c xs)
  assume a: "variable cs = Some (p, r)"
  define ys where "ys = dropWhile is_dec xs"
  have "length ys \<le> length xs" unfolding ys_def by (rule length_dropWhile_le)
  then show ?thesis using a Cons by (cases ys) (auto simp: variable_def Let_def ys_def [symmetric] split: if_splits)
qed (simp add: variable_def)

function parse_template :: "bytes \<Rightarrow> tpart list option" where
  "parse_template [] = Some []"
| "parse_template (c # cs) =
     (if c \<noteq> dollar then map_option (\<lambda>ps. Lit (takeWhile (\<lambda>x. x \<noteq> dollar) (c # cs)) # ps) (parse_template (dropWhile (\<lambda>x. x \<noteq> dollar) cs))
      else case variable cs of
        None \<Rightarrow> None
      | Some (p, r) \<Rightarrow> map_option (\<lambda>ps. p # ps) (parse_template r))"
  by pat_completeness auto
termination
  by (relation "measure length") (auto dest: variable_shorter simp: le_imp_less_Suc length_dropWhile_le)

subsection \<open>The programs of a template\<close>

fun len_cells :: "tpart \<Rightarrow> cell list" where
  "len_cells (Lit t) = [Fn Copy_Len, Num (word_of_nat (length t))]"
| "len_cells (Cap n) = [Fn Capture_Len, Num (2 * word_of_nat n)]"

fun val_cells :: "tpart \<Rightarrow> cell list" where
  "val_cells (Lit t) = [Fn Copy_Code, Num (word_of_nat (length t))] @ text_cells t"
| "val_cells (Cap n) = [Fn Capture_Code, Num (2 * word_of_nat n)]"

definition emits :: "tpart list \<Rightarrow> script_compile \<Rightarrow> script_compile \<Rightarrow> bool" where
  "emits ps sc sc' \<longleftrightarrow> lengths sc' = lengths sc @ concat (map len_cells ps) @ [Null_Code] \<and> vals sc' = vals sc @ concat (map val_cells ps) @ [Null_Code]"

text \<open>One instruction.\<close>

definition emits1 :: "tpart \<Rightarrow> script_compile \<Rightarrow> script_compile \<Rightarrow> bool" where
  "emits1 p sc sc' \<longleftrightarrow> lengths sc' = lengths sc @ len_cells p \<and> vals sc' = vals sc @ val_cells p"

lemma add_copy_code_emits: "add_copy_code mem t sc = Inr sc' \<Longrightarrow> emits1 (Lit t) sc sc'"
  by (auto simp: add_copy_code_def add_length_def add_value_def emits1_def Let_def split: if_splits)

lemma add_capture_code_emits: "add_capture_code mem (word_of_nat n) (sc\<lparr>variables := v\<rparr>) = Inr sc' \<Longrightarrow> emits1 (Cap n) sc sc'"
  by (auto simp: add_capture_code_def add_length_def add_value_def emits1_def split: if_splits)

lemma script_done_emits: "script_done mem sc = Inr sc' \<Longrightarrow> emits [] sc sc'"
  by (auto simp: script_done_def add_length_def add_value_def emits_def split: if_splits)

lemma emits_Cons: "emits1 p sc sc1 \<Longrightarrow> emits ps sc1 sc' \<Longrightarrow> emits (p # ps) sc sc'"
  by (simp add: emits_def emits1_def)

lemma codes_complete:
  assumes "\<And>k. mem k"
  shows "\<exists>sc'. add_copy_code mem t sc = Inr sc'" "\<exists>sc'. add_capture_code mem n sc = Inr sc'" "\<exists>sc'. script_done mem sc = Inr sc'"
  using assms by (simp_all add: add_copy_code_def add_capture_code_def script_done_def add_length_def add_value_def Let_def)

subsection \<open>The scanner\<close>

lemma text_end_drop: "text_end src i = i + length (takeWhile (\<lambda>x. x \<noteq> dollar) (drop i src))"
proof (induction src i rule: text_end.induct)
  case (1 src i)
  show ?case
  proof (cases "i < length src")
    case True
    then have "drop i src = src ! i # drop (Suc i) src" by (rule Cons_nth_drop_Suc [symmetric])
    then show ?thesis using 1 True by (subst text_end.simps) simp
  qed (subst text_end.simps, simp)
qed

text \<open>Digits.\<close>

lemma name_loop_num:
  "name_loop src True b i n len =
     (let ds = takeWhile is_dec (drop i src); j = i + length ds; n' = foldl (\<lambda>n d. n * 10 + num_val d) n ds
      in if j < length src \<and> src ! j = CHR ''}'' \<and> b then (j + 1, False, n', len + length ds) else (j, b, n', len + length ds))"
proof (induction src True b i n len rule: name_loop.induct)
  case (1 src b i n len)
  show ?case
  proof (cases "i < length src")
    case True
    then have d: "drop i src = src ! i # drop (Suc i) src" by (rule Cons_nth_drop_Suc [symmetric])
    have "\<not> is_dec (CHR ''}'')" by (simp add: is_dec_def)
    then show ?thesis using 1 True d by (subst name_loop.simps) (auto simp: Let_def)
  qed (subst name_loop.simps, simp)
qed

lemma decimal_word: "foldl (\<lambda>n d. n * 10 + num_val d) (word_of_nat m) ds = (word_of_nat (foldl (\<lambda>n d. n * 10 + (of_char d - 48)) m ds) :: 64 word)"
proof (induction ds arbitrary: m)
  case (Cons d ds)
  have "word_of_nat m * 10 + num_val d = (word_of_nat (m * 10 + (of_char d - 48)) :: 64 word)" by (simp add: num_val_def)
  then show ?case using Cons by (simp only: foldl.simps)
qed simp

lemma name_loop_decimal: "foldl (\<lambda>n d. n * 10 + num_val d) 0 ds = (word_of_nat (decimal ds) :: 64 word)"
  using decimal_word [of 0 ds] by (simp add: decimal_def)


lemma drop_after_takeWhile: "drop (i + length (takeWhile P (drop i xs))) xs = dropWhile P (drop i xs)"
  by (metis add.commute append_eq_conv_conj drop_drop takeWhile_dropWhile_id)

text \<open>The scan of a variable is the one of the specification.\<close>

definition scan_ok :: "bytes \<Rightarrow> nat \<Rightarrow> bool" where
  "scan_ok src i \<longleftrightarrow> (case variable (drop i src) of
     None \<Rightarrow> (\<exists>e. scan_variable src i = Inl e)
   | Some (p, r) \<Rightarrow> (\<exists>j n. p = Cap n \<and> scan_variable src i = Inr (j, word_of_nat n) \<and> j \<le> length src \<and> r = drop j src))"

lemma scan_bare:
  assumes i: "i < length src" "src ! i \<noteq> dollar" "src ! i \<noteq> CHR ''{''"
  shows "scan_ok src i"
proof (cases "is_dec (src ! i)")
  case True
  have d: "drop i src = src ! i # drop (Suc i) src" using i(1) by (rule Cons_nth_drop_Suc [symmetric])
  let ?ds = "takeWhile is_dec (drop i src)"
  have ds: "?ds \<noteq> []" using True d by simp
  have j: "i + length ?ds \<le> length src" using length_takeWhile_le [of is_dec "drop i src"] i(1) by simp
  have v: "variable (drop i src) = Some (Cap (decimal ?ds), drop (i + length ?ds) src)"
    using i(2,3) True unfolding drop_after_takeWhile by (subst (1 2 3) d) (simp add: variable_def)
  have "scan_variable src i = Inr (i + length ?ds, word_of_nat (decimal ?ds))"
    using i(3) True ds by (simp add: scan_variable_def Let_def name_loop_num name_loop_decimal)
  then show ?thesis using v j by (simp add: scan_ok_def)
next
  case False
  have "drop i src = src ! i # drop (Suc i) src" using i(1) by (rule Cons_nth_drop_Suc [symmetric])
  then have "variable (drop i src) = None" using i(2,3) False by (simp add: variable_def)
  moreover have "\<exists>e. scan_variable src i = Inl e" using i(3) False by (auto simp: scan_variable_def Let_def split: prod.splits)
  ultimately show ?thesis by (simp add: scan_ok_def)
qed

lemma scan_bracket:
  assumes i: "i < length src" "src ! i = CHR ''{''"
  shows "scan_ok src i"
proof -
  have d: "drop i src = src ! i # drop (i + 1) src" using i(1) Cons_nth_drop_Suc [of i src] by simp
  have b: "CHR ''{'' \<noteq> dollar" "\<not> is_dec (CHR ''{'')" by (simp_all add: dollar_def is_dec_def)
  let ?r = "drop (i + 1) src"
  let ?ds = "takeWhile is_dec ?r" and ?j = "i + 1 + length (takeWhile is_dec ?r)"
  have v: "variable (drop i src) = (case drop ?j src of [] \<Rightarrow> None | x # rest \<Rightarrow> if ?ds \<noteq> [] \<and> x = CHR ''}'' then Some (Cap (decimal ?ds), rest) else None)"
    unfolding drop_after_takeWhile d using i(2) b(1) by (simp add: variable_def Let_def del: One_nat_def)
  show ?thesis
  proof (cases "i + 1 < length src \<and> is_dec (src ! (i + 1))")
    case True
    have r: "?r = src ! (i + 1) # drop (i + 2) src" using True Cons_nth_drop_Suc [of "i + 1" src] by simp
    then have ds: "?ds \<noteq> []" using True by simp
    have s: "scan_variable src i = (if ?j < length src \<and> src ! ?j = CHR ''}'' then Inr (?j + 1, word_of_nat (decimal ?ds)) else Inl (Missing_Bracket (substr src (i + 1) (length ?ds))))"
      using True i(2) b ds by (auto simp: scan_variable_def Let_def name_loop_num name_loop_decimal)
    show ?thesis
    proof (cases "?j < length src")
      case J: True
      then have "drop ?j src = src ! ?j # drop (?j + 1) src" using Cons_nth_drop_Suc [of ?j src] by simp
      then show ?thesis using s v J ds by (cases "src ! ?j = CHR ''}''") (auto simp: scan_ok_def)
    next
      case False
      then have "drop ?j src = []" by simp
      then show ?thesis using s v False by (simp add: scan_ok_def)
    qed
  next
    case False
    have "?ds = []"
    proof (cases "i + 1 < length src")
      case True
      then have "?r = src ! (i + 1) # drop (i + 2) src" using Cons_nth_drop_Suc [of "i + 1" src] by simp
      then show ?thesis using False True by simp
    qed simp
    then have "variable (drop i src) = None" unfolding v by (simp add: is_dec_def split: list.split del: One_nat_def)
    moreover have "\<exists>e. scan_variable src i = Inl e" using i False b(2) by (auto simp: scan_variable_def Let_def split: prod.splits)
    ultimately show ?thesis by (simp add: scan_ok_def)
  qed
qed

lemma scan_variable_spec: "i < length src \<Longrightarrow> src ! i \<noteq> dollar \<Longrightarrow> scan_ok src i"
  using scan_bare scan_bracket by blast


subsection \<open>Compilation\<close>

lemma parse_text:
  assumes "i < length src" "src ! i \<noteq> dollar"
  shows "parse_template (drop i src) = map_option (Cons (Lit (substr src i (text_end src i - i)))) (parse_template (drop (text_end src i) src))"
proof -
  have d: "drop i src = src ! i # drop (Suc i) src" using assms(1) by (rule Cons_nth_drop_Suc [symmetric])
  have "substr src i (text_end src i - i) = takeWhile (\<lambda>x. x \<noteq> dollar) (drop i src)" by (simp add: substr_def text_end_drop takeWhile_eq_take [symmetric])
  moreover have "drop (text_end src i) src = dropWhile (\<lambda>x. x \<noteq> dollar) (drop i src)" unfolding text_end_drop by (rule drop_after_takeWhile)
  ultimately show ?thesis using assms(2) by (simp add: d)
qed

lemma parse_variable:
  assumes "i < length src" "src ! i = dollar"
  shows "parse_template (drop i src) = (case variable (drop (i + 1) src) of None \<Rightarrow> None | Some (p, r) \<Rightarrow> map_option (Cons p) (parse_template r))"
  using assms Cons_nth_drop_Suc [of i src, symmetric] by simp

lemma script_loop_sound:
  "script_loop mem src i sc = Inr sc' \<Longrightarrow> \<exists>ps. parse_template (drop i src) = Some ps \<and> emits ps sc sc'"
proof (induction mem src i sc rule: script_loop.induct)
  case (1 mem src i sc)
  show ?case
  proof (cases "i < length src")
    case False
    then show ?thesis using 1(4) by (subst (asm) script_loop.simps) (simp add: script_done_emits)
  next
    case i: True
    show ?thesis
    proof (cases "src ! i = dollar")
      case False
      obtain sc1 where sc1: "add_copy_code mem (substr src i (text_end src i - i)) sc = Inr sc1" "script_loop mem src (text_end src i) sc1 = Inr sc'"
        using 1(4) i False by (subst (asm) script_loop.simps) (auto simp: Let_def split: sum.splits)
      obtain ps where "parse_template (drop (text_end src i) src) = Some ps" "emits ps sc1 sc'"
        using 1(3) [OF _ False refl sc1] i by auto
      then show ?thesis using parse_text [OF i False] emits_Cons [OF add_copy_code_emits [OF sc1(1)]] by simp
    next
      case dol: True
      have i1: "i + 1 < length src" using 1(4) i dol by (subst (asm) script_loop.simps) (auto split: if_splits)
      then have d1: "drop (i + 1) src = src ! (i + 1) # drop (i + 2) src" using Cons_nth_drop_Suc [of "i + 1" src] by simp
      show ?thesis
      proof (cases "src ! (i + 1) = dollar")
        case True
        have t: "substr src (i + 1) 1 = [dollar]" using d1 True by (simp add: substr_def)
        obtain sc1 where sc1: "add_copy_code mem [dollar] sc = Inr sc1" "script_loop mem src (i + 2) sc1 = Inr sc'"
          using 1(4) i dol i1 True t by (subst (asm) script_loop.simps) (auto split: sum.splits)
        obtain ps where ps: "parse_template (drop (i + 2) src) = Some ps" "emits ps sc1 sc'"
          using 1(1) [OF _ dol _ True _ sc1(2)] i i1 sc1(1) t by auto
        have "variable (drop (i + 1) src) = Some (Lit [dollar], drop (i + 2) src)" unfolding d1 using True by (simp add: variable_def)
        then show ?thesis using parse_variable [OF i dol] ps emits_Cons [OF add_copy_code_emits [OF sc1(1)]] by simp
      next
        case False
        obtain j n sc1 where sc1: "scan_variable src (i + 1) = Inr (j, n)" "add_capture_code mem n (sc\<lparr>variables := variables sc + 1\<rparr>) = Inr sc1"
          "script_loop mem src j sc1 = Inr sc'"
          using 1(4) i dol i1 False by (subst (asm) script_loop.simps) (auto split: sum.splits prod.splits)
        obtain ps where ps: "parse_template (drop j src) = Some ps" "emits ps sc1 sc'"
          using 1(2) [OF _ dol _ False sc1(1) refl sc1(2,3)] i i1 by auto
        obtain m where "n = word_of_nat m" "variable (drop (i + 1) src) = Some (Cap m, drop j src)"
          using scan_variable_spec [OF i1 False] sc1(1) by (auto simp: scan_ok_def split: option.splits)
        then show ?thesis using parse_variable [OF i dol] ps emits_Cons [OF add_capture_code_emits] sc1(2) by simp
      qed
    qed
  qed
qed


lemma script_loop_complete:
  assumes mem: "\<And>k. mem k" and ps: "parse_template (drop i src) = Some ps"
  shows "\<exists>sc'. script_loop mem src i sc = Inr sc'"
  using ps
proof (induction "length src - i" arbitrary: i sc ps rule: less_induct)
  case less
  show ?case
  proof (cases "i < length src")
    case False
    then show ?thesis using codes_complete(3) [of mem, OF mem] by (subst script_loop.simps) simp
  next
    case i: True
    show ?thesis
    proof (cases "src ! i = dollar")
      case False
      obtain ps1 where ps1: "parse_template (drop (text_end src i) src) = Some ps1" using less(2) parse_text [OF i False] by auto
      obtain sc1 where sc1: "add_copy_code mem (substr src i (text_end src i - i)) sc = Inr sc1" using codes_complete(1) [of mem, OF mem] by blast
      have "length src - text_end src i < length src - i" using text_end_less [of src i] i False by simp
      then show ?thesis using less(1) [OF _ ps1, of sc1] i False sc1 by (subst script_loop.simps) (simp add: Let_def)
    next
      case dol: True
      obtain p r ps1 where v: "variable (drop (i + 1) src) = Some (p, r)" "parse_template r = Some ps1"
        using less(2) parse_variable [OF i dol] by (auto split: option.splits)
      then have i1: "i + 1 < length src" by (cases "i + 1 < length src") (simp_all add: variable_def)
      then have d1: "drop (i + 1) src = src ! (i + 1) # drop (i + 2) src" using Cons_nth_drop_Suc [of "i + 1" src] by simp
      show ?thesis
      proof (cases "src ! (i + 1) = dollar")
        case True
        obtain sc1 where sc1: "add_copy_code mem (substr src (i + 1) 1) sc = Inr sc1" using codes_complete(1) [of mem, OF mem] by blast
        have "r = drop (i + 2) src" using v(1) True unfolding d1 by (simp add: variable_def)
        then show ?thesis using less(1) [of "i + 2" ps1 sc1] v(2) i i1 dol True sc1 by (subst script_loop.simps) simp
      next
        case False
        obtain j n where j: "scan_variable src (i + 1) = Inr (j, n)" "r = drop j src"
          using scan_variable_spec [OF i1 False] v(1) by (auto simp: scan_ok_def)
        obtain sc1 where sc1: "add_capture_code mem n (sc\<lparr>variables := variables sc + 1\<rparr>) = Inr sc1" using codes_complete(2) [of mem, OF mem] by blast
        have "length src - j < length src - i" using scan_variable_ge [OF j(1)] i by simp
        then show ?thesis using less(1) [of j ps1 sc1] v(2) j i i1 dol False sc1 by (subst script_loop.simps) simp
      qed
    qed
  qed
qed

subsection \<open>Evaluation\<close>

text \<open>The expansion of a part of a template.\<close>

fun expand :: "bytes \<Rightarrow> int list \<Rightarrow> nat \<Rightarrow> tpart \<Rightarrow> bytes" where
  "expand subj cap count (Lit t) = t"
| "expand subj cap count (Cap n) = (if n < count then the (subject_part subj (cap ! (2 * n)) (cap ! (2 * n + 1))) else [])"

text \<open>What \<open>pcre_exec\<close> leaves: a pair of positions of the subject, or of $-1$, for each of the captures.\<close>

definition caps_ok :: "bytes \<Rightarrow> int list \<Rightarrow> nat \<Rightarrow> bool" where
  "caps_ok subj cap count \<longleftrightarrow> 2 * count \<le> length cap \<and>
     (\<forall>i < count. cap ! (2 * i) = -1 \<and> cap ! (2 * i + 1) = -1 \<or> 0 \<le> cap ! (2 * i) \<and> cap ! (2 * i) \<le> cap ! (2 * i + 1) \<and> cap ! (2 * i + 1) \<le> int (length subj))"

lemma caps_part:
  assumes "caps_ok subj cap count" "i < count"
  shows "\<exists>t. subject_part subj (cap ! (2 * i)) (cap ! (2 * i + 1)) = Some t \<and> int (length t) = cap ! (2 * i + 1) - cap ! (2 * i)"
  using assms by (force simp: caps_ok_def subject_part_def)

text \<open>The numbers of captures that the machine word holds.\<close>

fun small :: "tpart \<Rightarrow> bool" where
  "small (Lit t) = True"
| "small (Cap n) = (n < 2 ^ 63)"

lemma unat_small: "n < 2 ^ 64 \<Longrightarrow> unat (word_of_nat n :: 64 word) = n"
  by (simp add: unsigned_of_nat take_bit_nat_eq_self)

lemma small_num:
  assumes "n < 2 ^ 63"
  shows "unat (2 * word_of_nat n :: 64 word) = 2 * n"
proof -
  have "(2 * word_of_nat n :: 64 word) = word_of_nat (2 * n)" by simp
  then show ?thesis using assms by (simp only:) (rule unat_small, simp)
qed

lemma text_cells_concat: "list_all (\<lambda>c. cell_text c \<noteq> None) (text_cells t)" "concat (map (the \<circ> cell_text) (text_cells t)) = t" "length (text_cells t) = pad8 (length t)"
proof (induction t rule: text_cells.induct)
  case (2 c cs)
  have "concat (map (the \<circ> cell_text) (text_cells (c # cs))) = take 8 (c # cs) @ drop 8 (c # cs)" using 2(2) by (simp add: comp_def)
  then show "concat (map (the \<circ> cell_text) (text_cells (c # cs))) = c # cs" by simp
  show "list_all (\<lambda>x. cell_text x \<noteq> None) (text_cells (c # cs))" using 2(1) by simp
  show "length (text_cells (c # cs)) = pad8 (length (c # cs))" using 2(3) by (cases "length cs \<le> 7") (auto simp: pad8_def)
qed (simp_all add: pad8_def)

lemma text_cells_text: "code_text (pre @ text_cells t @ post) (length pre) (length t) = Some t"
proof -
  have "take (pad8 (length t)) (drop (length pre) (pre @ text_cells t @ post)) = text_cells t" using text_cells_concat(3) [of t] by simp
  moreover have "\<not> list_ex (\<lambda>c. cell_text c = None) (text_cells t)" using text_cells_concat(1) [of t] by (auto simp: list_all_iff list_ex_iff)
  ultimately show ?thesis using text_cells_concat(2,3) [of t] by (simp add: code_text_def Let_def)
qed


lemma run_lengths_parts:
  assumes caps: "caps_ok subj cap count"
  shows "list_all small ps \<Longrightarrow> run_lengths cap (count * 2) (pre @ concat (map len_cells ps) @ [Null_Code]) (length pre) len =
    Some (len + word_of_nat (length (concat (map (expand subj cap count) ps))))"
proof (induction ps arbitrary: pre len)
  case Nil
  then show ?case by (subst run_lengths.simps) simp
next
  case (Cons p ps)
  let ?rest = "concat (map len_cells ps) @ [Null_Code]"
  note IH = Cons.IH [of "pre @ len_cells p"]
  show ?case
  proof (cases p)
    case (Lit t)
    then show ?thesis using IH Cons.prems by (subst run_lengths.simps) (simp add: copy_len_code_def code_num_def nth_append add.assoc)
  next
    case (Cap n)
    then have n: "unat (2 * word_of_nat n :: 64 word) = 2 * n" using Cons.prems small_num by simp
    show ?thesis
    proof (cases "n < count")
      case True
      obtain t where t: "subject_part subj (cap ! (2 * n)) (cap ! (2 * n + 1)) = Some t" "int (length t) = cap ! (2 * n + 1) - cap ! (2 * n)"
        using caps_part [OF caps True] by blast
      have w: "word_of_int (cap ! (2 * n + 1) - cap ! (2 * n)) = (word_of_nat (length t) :: 64 word)" using t(2) by (metis of_int_of_nat_eq)
      have "2 * n + 1 < length cap" using caps True by (simp add: caps_ok_def)
      then have "copy_capture_len_code cap (count * 2) (pre @ len_cells p @ ?rest) (length pre) = Some (length pre + 2, word_of_nat (length t))"
        using True n Cap w by (simp add: copy_capture_len_code_def code_num_def nth_append cap_at_def)
      then show ?thesis using IH Cons.prems Cap True t(1) by (subst run_lengths.simps) (simp add: nth_append add.assoc)
    next
      case False
      then have "copy_capture_len_code cap (count * 2) (pre @ len_cells p @ ?rest) (length pre) = Some (length pre + 2, 0)"
        using n Cap by (simp add: copy_capture_len_code_def code_num_def nth_append)
      then show ?thesis using IH Cons.prems Cap False by (subst run_lengths.simps) (simp add: nth_append)
    qed
  qed
qed


lemma run_values_parts:
  assumes caps: "caps_ok subj cap count"
  shows "list_all small ps \<Longrightarrow> length buf + length (concat (map (expand subj cap count) ps)) \<le> room \<Longrightarrow> room < 2 ^ 64 \<Longrightarrow>
    run_values subj cap (count * 2) room (pre @ concat (map val_cells ps) @ [Null_Code]) (length pre) buf = Some (buf @ concat (map (expand subj cap count) ps))"
proof (induction ps arbitrary: pre buf)
  case Nil
  then show ?case by (subst run_values.simps) simp
next
  case (Cons p ps)
  let ?rest = "concat (map val_cells ps) @ [Null_Code]"
  note IH = Cons.IH [of "buf @ expand subj cap count p" "pre @ val_cells p"]
  have put: "put_text room (expand subj cap count p) buf = Some (buf @ expand subj cap count p)" using Cons.prems(2) by (simp add: put_text_def)
  show ?case
  proof (cases p)
    case (Lit t)
    have len: "unat (word_of_nat (length t) :: 64 word) = length t" using Cons.prems(2,3) Lit by (intro unat_small) simp
    have "code_text ((pre @ [Fn Copy_Code, Num (word_of_nat (length t))]) @ text_cells t @ ?rest) (length (pre @ [Fn Copy_Code, Num (word_of_nat (length t))])) (length t) = Some t"
      by (rule text_cells_text)
    then have "copy_code (pre @ val_cells p @ ?rest) (length pre) = Some (length pre + 2 + pad8 (length t), t)"
      using len Lit by (simp add: copy_code_def code_num_def nth_append)
    then show ?thesis using IH Cons.prems Lit put text_cells_concat(3) [of t]
      by (subst run_values.simps) (simp add: nth_append)
  next
    case (Cap n)
    then have n: "unat (2 * word_of_nat n :: 64 word) = 2 * n" using Cons.prems small_num by simp
    have "copy_capture_code subj cap (count * 2) (pre @ val_cells p @ ?rest) (length pre) = Some (length pre + 2, expand subj cap count p)"
    proof (cases "n < count")
      case True
      obtain t where t: "subject_part subj (cap ! (2 * n)) (cap ! (2 * n + 1)) = Some t" using caps_part [OF caps True] by blast
      have "2 * n + 1 < length cap" using caps True by (simp add: caps_ok_def)
      then show ?thesis using True n Cap t by (simp add: copy_capture_code_def code_num_def nth_append cap_at_def)
    qed (use n Cap in \<open>simp add: copy_capture_code_def code_num_def nth_append\<close>)
    then show ?thesis using IH Cons.prems Cap put by (subst run_values.simps) (simp add: nth_append)
  qed
qed

subsection \<open>The whole template\<close>

lemma no_dollar_parse: "dollar \<notin> set v \<Longrightarrow> parse_template v = Some (if v = [] then [] else [Lit v])"
proof (cases v)
  case (Cons c cs)
  assume "dollar \<notin> set v"
  then have t: "takeWhile (\<lambda>x. x \<noteq> dollar) (c # cs) = c # cs" "dropWhile (\<lambda>x. x \<noteq> dollar) cs = []" "c \<noteq> dollar" using Cons by (auto simp: takeWhile_eq_all_conv)
  then have "parse_template (dropWhile (\<lambda>x. x \<noteq> dollar) cs) = Some []" by (simp only: parse_template.simps)
  then show ?thesis using Cons t(1,3) by (simp del: takeWhile.simps)
qed simp

definition expansion :: "bytes \<Rightarrow> int list \<Rightarrow> nat \<Rightarrow> tpart list \<Rightarrow> bytes" where
  "expansion subj cap count ps = concat (map (expand subj cap count) ps)"

lemma compiled_template:
  assumes "compile_complex_value mem v = Inr cv"
  shows "\<exists>ps. parse_template v = Some ps \<and> cv_value cv = v \<and>
    cv_code cv = (if dollar \<in> set v then Some (concat (map len_cells ps) @ [Null_Code], concat (map val_cells ps) @ [Null_Code]) else None)"
proof (cases "dollar \<in> set v")
  case True
  then obtain sc where "script_loop mem v 0 \<lparr>lengths = [], vals = [], variables = 0, pushes = 2\<rparr> = Inr sc" "cv = \<lparr>cv_value = v, cv_code = Some (lengths sc, vals sc)\<rparr>"
    using assms by (auto simp: compile_complex_value_def split: if_splits sum.splits)
  then show ?thesis using True script_loop_sound [of mem v 0] by (fastforce simp: emits_def)
next
  case False
  then show ?thesis using assms no_dollar_parse [OF False] by (auto simp: compile_complex_value_def)
qed

lemma eval_template:
  assumes cv: "compile_complex_value mem v = Inr cv" and ps: "parse_template v = Some ps" "list_all small ps"
    and caps: "caps_ok subj cap count" "0 < count" and size: "length (expansion subj cap count ps) < 2 ^ 64"
  shows "eval_complex_value True subj offset count cap cv = map_option (\<lambda>t. (True, t @ expansion subj cap count ps)) (subject_part subj offset (cap ! 0))"
proof -
  have c0: "cap_at cap 0 = Some (cap ! 0)" using caps by (auto simp: cap_at_def caps_ok_def)
  obtain ps' where c: "parse_template v = Some ps'" "cv_value cv = v"
    "cv_code cv = (if dollar \<in> set v then Some (concat (map len_cells ps') @ [Null_Code], concat (map val_cells ps') @ [Null_Code]) else None)"
    using compiled_template [OF cv] by blast
  have [simp]: "ps' = ps" using c(1) ps(1) by simp
  show ?thesis
  proof (cases "dollar \<in> set v")
    case False
    then have "expansion subj cap count ps = v" using no_dollar_parse ps(1) by (auto simp: expansion_def split: if_splits)
    then show ?thesis using c0 c False by (simp add: eval_complex_value_def)
  next
    case True
    let ?x = "expansion subj cap count ps"
    have l: "run_lengths cap (count * 2) (concat (map len_cells ps) @ [Null_Code]) 0 0 = Some (word_of_nat (length ?x))"
      using run_lengths_parts [OF caps(1) ps(2), of "[]" 0] by (simp add: expansion_def)
    have "run_values subj cap (count * 2) (length ?x) (concat (map val_cells ps) @ [Null_Code]) 0 [] = Some ?x"
      using run_values_parts [OF caps(1) ps(2), of "[]" "length ?x" "[]"] size by (simp add: expansion_def)
    then show ?thesis using c0 c True l unat_small [OF size] by (simp add: eval_complex_value_def)
  qed
qed

text \<open>
  A template is compiled without error, when memory is there, exactly if it is well-formed, and the compiled template expands to the texts and captures that are written in it, after
  the part of the subject before the match: the buffer that the first program sizes is filled exactly by the second one.
\<close>

theorem template_expansion:
  assumes "\<And>k. mem k" "caps_ok subj cap count" "0 < count"
  shows "case parse_template v of
      None \<Rightarrow> (\<exists>e. compile_complex_value mem v = Inl e)
    | Some ps \<Rightarrow> \<exists>cv. compile_complex_value mem v = Inr cv \<and>
        (list_all small ps \<and> length (expansion subj cap count ps) < 2 ^ 64 \<longrightarrow>
          eval_complex_value True subj offset count cap cv = map_option (\<lambda>t. (True, t @ expansion subj cap count ps)) (subject_part subj offset (cap ! 0)))"
proof (cases "parse_template v")
  case None
  then have "\<nexists>cv. compile_complex_value mem v = Inr cv" using compiled_template [of mem v] by auto
  then show ?thesis using None by (cases "compile_complex_value mem v") auto
next
  case (Some ps)
  obtain sc where "script_loop mem v 0 \<lparr>lengths = [], vals = [], variables = 0, pushes = 2\<rparr> = Inr sc"
    using script_loop_complete [of mem 0 v ps] assms(1) Some by auto
  then have "\<exists>cv. compile_complex_value mem v = Inr cv" using assms(1) by (auto simp: compile_complex_value_def)
  then obtain cv where "compile_complex_value mem v = Inr cv" by blast
  then show ?thesis using Some eval_template [OF _ Some _ assms(2,3)] by auto
qed

end
