(* ===== verification/Socket_Pattern.thy ===== *)
theory Socket_Pattern
  imports Prelude "HOL-Library.Sublist"
begin

section \<open>The pattern automaton of receiveuntil (ngx\_stream\_lua\_socket\_tcp.c)\<close>

text \<open>
  \<open>compile_pattern\<close> prepares the recovery edges of a pattern: on state \<open>q\<close> (the first \<open>q\<close> characters of
  the pattern have been read) and a character that does not continue the pattern, an edge gives
  the state of the longest shorter match that the character continues. The theory models the compilation with its
  allocations and proves that the edges are those of the Knuth-Morris-Pratt automaton.
\<close>

subsection \<open>Edges and compilation\<close>

text \<open>An edge of a state; the linked list of a state's edges is a list.\<close>

record dfa_edge =
  chr :: char
  new_state :: nat

text \<open>The array \<open>recovering\<close> (entry \<open>q - 2\<close> holds the edges of state \<open>q\<close>); \<open>None\<close> is \<open>NULL\<close>.\<close>

type_synonym recovery = "dfa_edge list list option"

text \<open>The walk over the edges of a state: an edge with the character is raised to \<open>new\<close>.\<close>

fun raise_edge :: "char \<Rightarrow> nat \<Rightarrow> dfa_edge list \<Rightarrow> dfa_edge list option" where
  "raise_edge c new [] = None"
| "raise_edge c new (e # es) =
     (if chr e = c then Some ((if new_state e < new then e\<lparr>new_state := new\<rparr> else e) # es)
      else map_option ((#) e) (raise_edge c new es))"

text \<open>The \<open>while\<close> loop: the length of the prefix that recurs at \<open>i\<close>, when it ends in a mismatch.\<close>

function prefix_run :: "bytes \<Rightarrow> nat \<Rightarrow> nat \<Rightarrow> nat option" where
  "prefix_run data i prefix_len =
     (if i + prefix_len < length data then
        (if take prefix_len data = take prefix_len (drop i data) then
           (if data ! prefix_len = data ! (i + prefix_len) then prefix_run data i (prefix_len + 1)
            else Some prefix_len)
         else None)
      else None)"
  by pat_completeness auto
termination by (relation "measure (\<lambda>(data, i, p). length data - p)") auto

declare prefix_run.simps [simp del]

text \<open>
  One round of the \<open>for\<close> loop. \<open>ok n\<close> tells whether the \<open>n\<close>-th allocation succeeds; the outer option
  is an index past the array, \<open>Inl\<close> is \<open>NGX_ERROR\<close> with what is built so far.
\<close>

definition compile_edge ::
  "(nat \<Rightarrow> bool) \<Rightarrow> bytes \<Rightarrow> nat \<Rightarrow> nat \<Rightarrow> recovery \<times> nat \<Rightarrow> ((recovery \<times> nat) + (recovery \<times> nat)) option" where
  "compile_edge ok data cur_state to_state = (\<lambda>(rec, n).
     case (case rec of
             Some a \<Rightarrow> Inr (a, n)
           | None \<Rightarrow> (if ok n then Inr (replicate (length data - 2) [], n + 1) else Inl (None, n + 1))) of
       Inl x \<Rightarrow> Some (Inl x)
     | Inr (a, n) \<Rightarrow>
         (if cur_state < 2 \<or> cur_state - 2 \<ge> length a then None
          else
            (let es = a ! (cur_state - 2); c = data ! (to_state - 1)
             in case raise_edge c to_state es of
                  Some es' \<Rightarrow> Some (Inr (Some (a[cur_state - 2 := es']), n))
                | None \<Rightarrow>
                    (if ok n then Some (Inr (Some (a[cur_state - 2 := es @ [\<lparr>chr = c, new_state = to_state\<rparr>]]), n + 1))
                     else Some (Inl (Some a, n + 1))))))"

fun compile_loop ::
  "(nat \<Rightarrow> bool) \<Rightarrow> bytes \<Rightarrow> nat list \<Rightarrow> recovery \<times> nat \<Rightarrow> ((recovery \<times> nat) + (recovery \<times> nat)) option" where
  "compile_loop ok data [] st = Some (Inr st)"
| "compile_loop ok data (i # is) st =
     (case prefix_run data i 1 of
        None \<Rightarrow> compile_loop ok data is st
      | Some prefix_len \<Rightarrow>
          (case compile_edge ok data (i + prefix_len) (prefix_len + 1) st of
             None \<Rightarrow> None
           | Some (Inl x) \<Rightarrow> Some (Inl x)
           | Some (Inr st) \<Rightarrow> compile_loop ok data is st))"

definition compile_pattern :: "(nat \<Rightarrow> bool) \<Rightarrow> bytes \<Rightarrow> (ngx_rc \<times> recovery) option" where
  "compile_pattern ok data =
     (if length data \<le> 2 then Some (NGX_OK, None)
      else case compile_loop ok data [1..<length data] (None, 0) of
             None \<Rightarrow> None
           | Some (Inl (r, _)) \<Rightarrow> Some (NGX_ERROR, r)
           | Some (Inr (r, _)) \<Rightarrow> Some (NGX_OK, r))"

text \<open>The search for an edge while reading.\<close>

fun edge_find :: "char \<Rightarrow> dfa_edge list \<Rightarrow> nat option" where
  "edge_find c [] = None"
| "edge_find c (e # es) = (if chr e = c then Some (new_state e) else edge_find c es)"

definition recover :: "recovery \<Rightarrow> nat \<Rightarrow> char \<Rightarrow> nat option" where
  "recover r state c =
     (case r of Some a \<Rightarrow> (if state \<ge> 2 then edge_find c (a ! (state - 2)) else None) | None \<Rightarrow> None)"

subsection \<open>The edges that are built\<close>

lemma prefix_run_unfold:
  assumes "prefix_run data i p = Some q"
  shows "i + p < length data \<and> take p data = take p (drop i data) \<and>
    (if data ! p = data ! (i + p) then prefix_run data i (p + 1) = Some q else q = p)"
  using assms unfolding prefix_run.simps [of data i p] by (simp split: if_splits)

lemma prefix_run_Some:
  assumes "prefix_run data i p = Some q"
  shows "p \<le> q \<and> i + q < length data \<and> (\<forall>j < q. data ! j = data ! (i + j)) \<and> data ! q \<noteq> data ! (i + q)"
  using assms
proof (induction data i p rule: prefix_run.induct)
  case (1 data i p)
  note u = prefix_run_unfold [OF 1(2)]
  show ?case
  proof (cases "data ! p = data ! (i + p)")
    case True
    then have "prefix_run data i (p + 1) = Some q" using u by simp
    from 1(1) [OF _ _ True this] u
    have "p + 1 \<le> q \<and> i + q < length data \<and> (\<forall>j < q. data ! j = data ! (i + j)) \<and> data ! q \<noteq> data ! (i + q)"
      by blast
    then show ?thesis using le_trans [OF le_add1] by blast
  next
    case False
    have "data ! j = data ! (i + j)" if "j < p" for j
    proof -
      have "i \<le> length data" using u by simp
      then have "take p (drop i data) ! j = data ! (i + j)" using that by simp
      moreover have "take p data ! j = data ! j" using that by simp
      ultimately show ?thesis using u by metis
    qed
    then show ?thesis using u False by simp
  qed
qed

lemma prefix_run_complete:
  assumes "i + q < length data" "\<forall>j < q. data ! j = data ! (i + j)" "data ! q \<noteq> data ! (i + q)" "p \<le> q"
  shows "prefix_run data i p = Some q"
  using assms
proof (induction "q - p" arbitrary: p)
  case 0
  then have "p = q" by simp
  moreover have "take q data = take q (drop i data)" using 0 by (intro nth_equalityI) auto
  ultimately show ?case using 0 by (subst prefix_run.simps) simp
next
  case (Suc d)
  then have "p < q" by simp
  moreover have "take p data = take p (drop i data)" using Suc.prems \<open>p < q\<close> by (intro nth_equalityI) auto
  moreover have "prefix_run data i (p + 1) = Some q" by (rule Suc.hyps) (use Suc \<open>p < q\<close> in auto)
  ultimately show ?case using Suc.prems by (subst prefix_run.simps) simp
qed

lemma edge_find_raise:
  "raise_edge c m es = Some es' \<Longrightarrow>
     edge_find d es' = (if d = c then Some (max m (the (edge_find c es))) else edge_find d es) \<and> edge_find c es \<noteq> None"
  by (induction es arbitrary: es') (auto split: if_splits)

lemma edge_find_raise_None:
  "raise_edge c m es = None \<longleftrightarrow> edge_find c es = None"
  by (induction es) auto

lemma edge_find_append:
  "edge_find d (es @ [e]) = (case edge_find d es of Some x \<Rightarrow> Some x | None \<Rightarrow> if chr e = d then Some (new_state e) else None)"
  by (induction es) auto

text \<open>What the edges of state \<open>q\<close> on \<open>c\<close> are after the rounds \<open>I\<close>: the best of the mismatches at \<open>q\<close>.\<close>

definition cands :: "bytes \<Rightarrow> nat set \<Rightarrow> nat \<Rightarrow> char \<Rightarrow> nat set" where
  "cands data I q c = {p. 1 \<le> p \<and> p < q \<and> q - p \<in> I \<and> prefix_run data (q - p) 1 = Some p \<and> data ! p = c}"

definition best :: "nat set \<Rightarrow> nat option \<Rightarrow> bool" where
  "best S r \<longleftrightarrow> (case r of None \<Rightarrow> S = {} | Some m \<Rightarrow> \<exists>p \<in> S. m = p + 1 \<and> (\<forall>p' \<in> S. p' \<le> p))"

definition edges_ok :: "bytes \<Rightarrow> nat set \<Rightarrow> recovery \<Rightarrow> bool" where
  "edges_ok data I r \<longleftrightarrow>
     (\<forall>a. r = Some a \<longrightarrow> length a = length data - 2) \<and>
     (\<forall>q c. 2 \<le> q \<and> q < length data \<longrightarrow> best (cands data I q c) (recover r q c))"

lemma cands_insert:
  assumes "prefix_run data i 1 = r"
  shows "cands data (insert i I) q c =
    (case r of Some p \<Rightarrow> (if 1 \<le> p \<and> q = i + p \<and> 1 \<le> i \<and> c = data ! p then insert p (cands data I q c) else cands data I q c)
     | None \<Rightarrow> cands data I q c)"
  using assms by (cases r) (auto simp: cands_def)

lemma best_insert:
  "best S r \<Longrightarrow> best (insert p S) (Some (case r of None \<Rightarrow> p + 1 | Some m \<Rightarrow> max (p + 1) m))"
  by (cases r) (fastforce simp: best_def max_def)+

lemma recover_update:
  assumes "2 \<le> q" "q - 2 < length a" "2 \<le> q'"
  shows "recover (Some (a[q - 2 := es])) q' c = (if q' = q then edge_find c es else recover (Some a) q' c)"
  using assms by (auto simp: recover_def nth_list_update)

lemma recover_replicate: "2 \<le> q \<Longrightarrow> q < len \<Longrightarrow> recover (Some (replicate (len - 2) [])) q c = recover None q c"
  by (simp add: recover_def)

text \<open>An edge is added to an array or raised in it.\<close>

lemma edges_ok_add:
  assumes "edges_ok data I (Some a)" "prefix_run data i 1 = Some p" "1 \<le> i"
    "\<And>c. edge_find c es = (if c = data ! p then Some (case recover (Some a) (i + p) c of None \<Rightarrow> p + 1 | Some m \<Rightarrow> max (p + 1) m)
             else recover (Some a) (i + p) c)"
  shows "edges_ok data (insert i I) (Some (a[i + p - 2 := es]))"
proof -
  have p: "1 \<le> p" "i + p < length data" using prefix_run_Some [OF assms(2)] by auto
  have len: "length a = length data - 2" using assms(1) by (simp add: edges_ok_def)
  have "best (cands data (insert i I) q c) (recover (Some (a[i + p - 2 := es])) q c)" if q: "2 \<le> q" "q < length data" for q c
  proof -
    have b: "best (cands data I q c) (recover (Some a) q c)" using assms(1) q by (simp add: edges_ok_def)
    have r: "recover (Some (a[i + p - 2 := es])) q c = (if q = i + p then edge_find c es else recover (Some a) q c)"
      by (rule recover_update) (use p assms(3) len q in auto)
    show ?thesis
      unfolding r cands_insert [OF assms(2)]
      using b best_insert [OF b, of p] assms(3,4) p by (auto split: option.splits)
  qed
  then show ?thesis by (simp add: edges_ok_def len)
qed

lemma compile_edge_ok:
  assumes "edges_ok data I r" "prefix_run data i 1 = Some p" "1 \<le> i"
  shows "\<exists>x. compile_edge ok data (i + p) (p + 1) (r, n) = Some x \<and>
    (\<forall>r' n'. x = Inr (r', n') \<longrightarrow> edges_ok data (insert i I) r') \<and> ((\<forall>k. ok k) \<longrightarrow> (\<exists>y. x = Inr y))"
proof -
  have p: "1 \<le> p" "i + p < length data" using prefix_run_Some [OF assms(2)] by auto
  define a where "a = (case r of Some a \<Rightarrow> a | None \<Rightarrow> replicate (length data - 2) [])"
  have a: "edges_ok data I (Some a)"
    using assms(1) by (cases r) (auto simp: a_def edges_ok_def recover_replicate)
  then have len: "length a = length data - 2" by (simp add: edges_ok_def)
  have rec: "recover (Some a) (i + p) c = edge_find c (a ! (i + p - 2))" for c
    using p assms(3) by (simp add: recover_def)
  have raised: "edges_ok data (insert i I) (Some (a[i + p - 2 := es']))"
    if "raise_edge (data ! p) (p + 1) (a ! (i + p - 2)) = Some es'" for es'
  proof -
    note raise = edge_find_raise [OF that]
    from raise obtain y where "edge_find (data ! p) (a ! (i + p - 2)) = Some y" by auto
    then show ?thesis by (intro edges_ok_add [OF a assms(2,3)]) (simp add: rec raise)
  qed
  have added: "edges_ok data (insert i I) (Some (a[i + p - 2 := (a ! (i + p - 2)) @ [\<lparr>chr = data ! p, new_state = p + 1\<rparr>]]))"
    if "raise_edge (data ! p) (p + 1) (a ! (i + p - 2)) = None"
    by (rule edges_ok_add [OF a assms(2,3)]) (use that in \<open>auto simp: rec edge_find_append edge_find_raise_None split: option.splits\<close>)
  have bound: "\<not> i + p < 2" "\<not> length data - 2 \<le> i + p - 2" using p assms(3) by auto
  show ?thesis
    using raised added len bound
    by (cases r; cases "raise_edge (data ! p) (p + 1) (a ! (i + p - 2))")
      (auto simp: compile_edge_def a_def Let_def)
qed

lemma compile_loop_ok:
  assumes "edges_ok data I r" "\<forall>i \<in> set is. 1 \<le> i"
  shows "\<exists>x. compile_loop ok data is (r, n) = Some x \<and>
    (\<forall>r' n'. x = Inr (r', n') \<longrightarrow> edges_ok data (set is \<union> I) r') \<and> ((\<forall>k. ok k) \<longrightarrow> (\<exists>y. x = Inr y))"
  using assms
proof (induction "is" arbitrary: I r n)
  case (Cons i "is")
  show ?case
  proof (cases "prefix_run data i 1")
    case None
    have "edges_ok data (insert i I) r"
      using Cons.prems(1) None by (simp add: edges_ok_def cands_insert [OF None])
    from Cons.IH [OF this, of n] Cons.prems(2) None show ?thesis by simp
  next
    case (Some p)
    from compile_edge_ok [OF Cons.prems(1) Some, of ok n] Cons.prems(2)
    obtain x where x: "compile_edge ok data (i + p) (p + 1) (r, n) = Some x"
      "\<And>r' n'. x = Inr (r', n') \<Longrightarrow> edges_ok data (insert i I) r'" "(\<forall>k. ok k) \<longrightarrow> (\<exists>y. x = Inr y)" by auto
    show ?thesis
    proof (cases x)
      case (Inl y)
      then show ?thesis using x Some by auto
    next
      case (Inr y)
      obtain r' n' where y: "y = (r', n')" by fastforce
      from Cons.IH [OF x(2) [of r' n'], of n'] Cons.prems(2) Inr y x(1) Some show ?thesis by simp
    qed
  qed
qed simp

text \<open>The prefixes that recur before position \<open>q\<close> and continue with \<open>c\<close>.\<close>

definition borders :: "bytes \<Rightarrow> nat \<Rightarrow> char \<Rightarrow> nat set" where
  "borders pat q c = {p. 1 \<le> p \<and> p < q \<and> suffix (take p pat) (take q pat) \<and> pat ! p = c}"

lemma suffix_iff_drop: "length xs \<le> length ys \<Longrightarrow> suffix xs ys \<longleftrightarrow> xs = drop (length ys - length xs) ys"
  by (auto simp: suffix_def) (metis append_take_drop_id)

lemma suffix_take_nth:
  assumes "p \<le> q" "q \<le> length pat"
  shows "suffix (take p pat) (take q pat) \<longleftrightarrow> (\<forall>j < p. pat ! j = pat ! (q - p + j))"
  using assms by (simp add: suffix_iff_drop list_eq_iff_nth_eq)

lemma cands_borders:
  assumes "q < length pat" "c \<noteq> pat ! q"
  shows "cands pat {1..<length pat} q c = borders pat q c"
proof -
  have "prefix_run pat (q - p) 1 = Some p \<longleftrightarrow> suffix (take p pat) (take q pat)"
    if p: "1 \<le> p" "p < q" "pat ! p = c" for p
  proof
    assume "prefix_run pat (q - p) 1 = Some p"
    then show "suffix (take p pat) (take q pat)"
      using prefix_run_Some p assms suffix_take_nth [of p q pat] by simp
  next
    assume "suffix (take p pat) (take q pat)"
    then show "prefix_run pat (q - p) 1 = Some p"
      using suffix_take_nth [of p q pat] p assms by (intro prefix_run_complete) auto
  qed
  then show ?thesis using assms by (auto simp: cands_def borders_def)
qed

text \<open>The compilation never leaves the array, fails only for lack of memory, and its edges are the
  longest borders.\<close>

lemma recover_short: "q < 2 \<Longrightarrow> recover r q c = None"
  by (simp add: recover_def split: option.splits)

lemma borders_short: "q < 2 \<Longrightarrow> borders pat q c = {}"
  by (auto simp: borders_def)

lemma compile_pattern_best:
  "\<exists>rc r. compile_pattern ok pat = Some (rc, r) \<and>
     (rc = NGX_OK \<longrightarrow> (\<forall>q c. q < length pat \<and> c \<noteq> pat ! q \<longrightarrow> best (borders pat q c) (recover r q c))) \<and>
     (rc \<noteq> NGX_OK \<longrightarrow> rc = NGX_ERROR \<and> (\<exists>n. \<not> ok n))"
proof (cases "length pat \<le> 2")
  case True
  then show ?thesis by (auto simp: compile_pattern_def recover_short borders_short best_def)
next
  case False
  have "edges_ok pat {} None" by (auto simp: edges_ok_def cands_def recover_def best_def)
  from compile_loop_ok [OF this, of "[1..<length pat]" ok 0]
  obtain x where x: "compile_loop ok pat [1..<length pat] (None, 0) = Some x"
    "\<forall>r' n'. x = Inr (r', n') \<longrightarrow> edges_ok pat {1..<length pat} r'" "(\<forall>k. ok k) \<longrightarrow> (\<exists>y. x = Inr y)" by auto
  show ?thesis
  proof (cases x)
    case (Inl y)
    then show ?thesis using x False by (cases y) (auto simp: compile_pattern_def)
  next
    case (Inr y)
    obtain r n where y: "y = (r, n)" by fastforce
    have e: "edges_ok pat {1..<length pat} r" using x(2) Inr y by simp
    have "best (borders pat q c) (recover r q c)" if "q < length pat" "c \<noteq> pat ! q" for q c
    proof (cases "q < 2")
      case True
      then show ?thesis by (simp add: recover_short borders_short best_def)
    next
      case False
      then show ?thesis using e cands_borders [OF that] that(1) unfolding edges_ok_def by (metis not_less)
    qed
    then show ?thesis using x(1) Inr y False by (simp add: compile_pattern_def)
  qed
qed

lemma finite_borders: "finite (borders pat q c)"
  by (rule finite_subset [of _ "{..<q}"]) (auto simp: borders_def)

lemma best_Max:
  assumes "finite S"
  shows "best S r \<longleftrightarrow> r = (if S = {} then None else Some (Max S + 1))"
proof (cases r)
  case None
  then show ?thesis by (simp add: best_def)
next
  case (Some m)
  have "m = Max S + 1" if "p \<in> S" "m = p + 1" "\<forall>p' \<in> S. p' \<le> p" for p
    using that assms by (metis Max_eqI)
  moreover have "Max S \<in> S" "\<forall>p' \<in> S. p' \<le> Max S" if "S \<noteq> {}" using assms that by auto
  ultimately show ?thesis using Some by (auto simp: best_def)
qed

subsection \<open>Scanning\<close>

text \<open>
  \<open>scan pat w st d\<close>: after the text \<open>w\<close>, with \<open>d\<close> still to come, state \<open>st\<close> loses no match: the pattern is
  not in \<open>w\<close>, its first \<open>st\<close> characters end \<open>w\<close>, and a longer beginning of it that ends \<open>w\<close> is not
  continued by \<open>d\<close>.
\<close>

definition scan :: "bytes \<Rightarrow> bytes \<Rightarrow> nat \<Rightarrow> bytes \<Rightarrow> bool" where
  "scan pat w st d \<longleftrightarrow> st < length pat \<and> suffix (take st pat) w \<and> \<not> sublist pat w \<and>
     (\<forall>k. st < k \<and> k < length pat \<and> suffix (take k pat) w \<longrightarrow> (\<exists>c d'. d = c # d' \<and> c \<noteq> pat ! k))"

lemma suffix_take_snoc:
  assumes "k < length pat"
  shows "suffix (take (Suc k) pat) (w @ [c]) \<longleftrightarrow> suffix (take k pat) w \<and> pat ! k = c"
  using assms by (simp add: take_Suc_conv_app_nth) blast

lemma sublist_snoc_iff: "sublist pat (w @ [c]) \<longleftrightarrow> sublist pat w \<or> suffix pat (w @ [c])"
  by (auto simp: sublist_snoc)

lemma suffix_pat_snoc:
  assumes "pat \<noteq> []"
  shows "suffix pat (w @ [c]) \<longleftrightarrow> suffix (take (length pat - 1) pat) w \<and> pat ! (length pat - 1) = c"
  using suffix_take_snoc [of "length pat - 1" pat w c] assms by simp

lemma scan_init: "pat \<noteq> [] \<Longrightarrow> scan pat [] 0 d"
  by (auto simp: scan_def)

text \<open>The character continues the pattern.\<close>

lemma scan_match:
  assumes "scan pat w st (c # d)" "c = pat ! st"
  shows "st + 1 < length pat \<Longrightarrow> scan pat (w @ [c]) (st + 1) d"
    and "st + 1 = length pat \<Longrightarrow> suffix pat (w @ [c])"
proof -
  have s: "suffix (take (Suc st) pat) (w @ [c])" using assms suffix_take_snoc [of st pat w c] by (simp add: scan_def)
  then show "st + 1 = length pat \<Longrightarrow> suffix pat (w @ [c])" by simp
  assume l: "st + 1 < length pat"
  have "\<not> suffix pat (w @ [c])"
  proof
    assume "suffix pat (w @ [c])"
    then have "suffix (take (length pat - 1) pat) w \<and> pat ! (length pat - 1) = c"
      using suffix_pat_snoc [of pat w c] l by (metis list.size(3) not_less_zero)
    moreover have "st < length pat - 1" "length pat - 1 < length pat" using l by auto
    ultimately show False using assms(1) unfolding scan_def by blast
  qed
  moreover have "\<not> suffix (take k pat) (w @ [c])" if "st + 1 < k" "k < length pat" for k
  proof -
    from that obtain j where j: "k = Suc j" "st < j" by (cases k) auto
    have "\<not> (suffix (take j pat) w \<and> pat ! j = c)"
      using assms(1) j that(2) unfolding scan_def by (metis Suc_lessD list.inject)
    then show ?thesis using j that(2) suffix_take_snoc [of j pat w c] by simp
  qed
  moreover have "\<not> sublist pat w" using assms(1) by (simp add: scan_def)
  ultimately show "scan pat (w @ [c]) (st + 1) d"
    using s l unfolding scan_def sublist_snoc_iff by (auto simp del: suffix_snoc)
qed

text \<open>It does not, and an edge or state 0 takes over.\<close>

lemma scan_longer:
  assumes "scan pat w st (c # d)" "c \<noteq> pat ! st" "suffix (take k pat) w" "k < length pat" "pat ! k = c"
  shows "k < st \<and> (k = 0 \<or> k \<in> borders pat st c)"
proof -
  have "k < st" using assms by (cases k st rule: linorder_cases) (auto simp: scan_def)
  moreover have "suffix (take k pat) (take st pat)"
    using assms \<open>k < st\<close> by (intro suffix_length_suffix [OF assms(3)]) (auto simp: scan_def)
  ultimately show ?thesis using assms(5) by (cases k) (auto simp: borders_def)
qed

lemma scan_no_match:
  assumes "scan pat w st (c # d)" "c \<noteq> pat ! st"
  shows "\<not> sublist pat (w @ [c])"
proof -
  have "pat \<noteq> []" using assms by (auto simp: scan_def)
  moreover have "\<not> suffix pat (w @ [c])"
  proof
    assume "suffix pat (w @ [c])"
    then have "suffix (take (length pat - 1) pat) w" "pat ! (length pat - 1) = c"
      using suffix_pat_snoc [OF \<open>pat \<noteq> []\<close>] by auto
    then show False using scan_longer [OF assms, of "length pat - 1"] assms(1) \<open>pat \<noteq> []\<close> by (auto simp: scan_def)
  qed
  ultimately show ?thesis using assms(1) by (simp add: scan_def sublist_snoc_iff)
qed

lemma scan_edge:
  assumes "scan pat w st (c # d)" "c \<noteq> pat ! st" "best (borders pat st c) (Some m)"
  shows "scan pat (w @ [c]) m d \<and> m \<le> st \<and> 2 \<le> m"
proof -
  obtain p where p: "p \<in> borders pat st c" "m = p + 1" "\<forall>p' \<in> borders pat st c. p' \<le> p"
    using assms(3) by (auto simp: best_def)
  have st: "st < length pat" "suffix (take st pat) w" using assms(1) by (auto simp: scan_def)
  have "suffix (take p pat) w" using p(1) st(2) suffix_order.trans by (auto simp: borders_def)
  then have "suffix (take m pat) (w @ [c])"
    using p(1,2) st suffix_take_snoc [of p pat w c] by (auto simp: borders_def)
  moreover have "\<not> suffix (take k pat) (w @ [c])" if "m < k" "k < length pat" for k
  proof -
    from that p(2) obtain j where j: "k = Suc j" "p < j" by (cases k) auto
    then show ?thesis
      using scan_longer [OF assms(1,2), of j] that p(3) suffix_take_snoc [of j pat w c] by fastforce
  qed
  ultimately show ?thesis
    using scan_no_match [OF assms(1,2)] p st by (auto simp: scan_def borders_def)
qed

lemma scan_reset:
  assumes "scan pat w st (c # d)" "c \<noteq> pat ! st" "best (borders pat st c) None"
  shows "scan pat w 0 (c # d)"
  using assms scan_longer [OF assms(1,2)] by (fastforce simp: scan_def best_def)

lemma scan_skip:
  assumes "scan pat w 0 (c # d)" "c \<noteq> pat ! 0"
  shows "scan pat (w @ [c]) 0 d"
proof -
  have "\<not> suffix (take k pat) (w @ [c])" if "0 < k" "k < length pat" for k
  proof -
    from that obtain j where j: "k = Suc j" by (cases k) auto
    then show ?thesis using scan_longer [OF assms, of j] that suffix_take_snoc [of j pat w c] by auto
  qed
  then show ?thesis using assms scan_no_match [OF assms] by (auto simp: scan_def)
qed

subsection \<open>The property\<close>

text \<open>
  C27: compiling a pattern never writes outside the array of recovery points and fails only when an
  allocation fails; otherwise, on every state and every character that does not continue the
  pattern, the edge found leads one past the longest proper border of what was matched that the character
  continues, and there is no edge exactly when there is no such (non-empty) border: the edges are
  those of the Knuth-Morris-Pratt automaton.
\<close>

theorem compile_pattern_kmp:
  "\<exists>rc r. compile_pattern ok pat = Some (rc, r) \<and> (rc \<noteq> NGX_OK \<longrightarrow> rc = NGX_ERROR \<and> (\<exists>n. \<not> ok n)) \<and>
     (rc = NGX_OK \<longrightarrow> (\<forall>q c. q < length pat \<and> c \<noteq> pat ! q \<longrightarrow>
        recover r q c = (if borders pat q c = {} then None else Some (Max (borders pat q c) + 1))))"
  using compile_pattern_best [of ok pat] unfolding best_Max [OF finite_borders] by blast

theorem compile_pattern_kmp_witness:
  "\<exists>r. compile_pattern (\<lambda>_. True) ''aab'' = Some (NGX_OK, r) \<and> recover r 2 CHR ''a'' = Some (Max (borders ''aab'' 2 CHR ''a'') + 1)"
proof -
  have "1 \<in> borders ''aab'' 2 CHR ''a''" by (simp add: borders_def suffix_def take_Cons')
  then have b: "borders ''aab'' 2 CHR ''a'' \<noteq> {}" by auto
  obtain rc r where r: "compile_pattern (\<lambda>_. True) ''aab'' = Some (rc, r)"
    "rc \<noteq> NGX_OK \<longrightarrow> rc = NGX_ERROR \<and> (\<exists>n. \<not> True)"
    "rc = NGX_OK \<longrightarrow> (\<forall>q c. q < length ''aab'' \<and> c \<noteq> ''aab'' ! q \<longrightarrow>
        recover r q c = (if borders ''aab'' q c = {} then None else Some (Max (borders ''aab'' q c) + 1)))"
    using compile_pattern_kmp [of "\<lambda>_. True" "''aab''"] by blast
  have ok: "rc = NGX_OK" using r(2) by blast
  have "recover r 2 CHR ''a'' = Some (Max (borders ''aab'' 2 CHR ''a'') + 1)"
    using r(3) [rule_format, OF ok, of 2 "CHR ''a''"] b by simp
  then show ?thesis using r(1) ok by blast
qed

end
