(* ===== verification/Socket_Buf.thy ===== *)
theory Socket_Buf
  imports Prelude
begin

section \<open>Receive buffers of a TCP cosocket (ngx\_stream\_lua\_socket\_tcp.c)\<close>

text \<open>
  A cosocket reads into the last buffer of a chain. \<open>u->buffer\<close> is a copy of that buffer's header and
  shares its memory: its \<open>pos\<close> and \<open>last\<close> bound the bytes received and not yet read; the header in the
  chain bounds the bytes read for the current call. Offsets count from \<open>start\<close>; \<open>end\<close> is the length of the
  memory. The theory models the buffer operations and the three simple input filters.
\<close>

subsection \<open>State\<close>

record nbuf =
  bm :: bytes
  bpos :: nat
  blast :: nat

record rsock =
  chain :: "nbuf list"
  cur :: nbuf
  have_in :: bool
  upos :: nat
  ulast :: nat
  rlen :: nat
  rest :: nat
  ft_type :: "16 word"
  eof :: bool
  read_waiting :: bool
  read_closed :: bool
  no_close :: bool
  free_bufs :: "nbuf list"
  n_alloc :: nat

text \<open>
  \<open>chain\<close> are the buffers from \<open>bufs_in\<close> up to \<open>buf_in\<close>, \<open>cur\<close> is \<open>buf_in->buf\<close>, \<open>have_in\<close> tells that
  \<open>bufs_in\<close> is not \<open>NULL\<close>, \<open>upos\<close> and \<open>ulast\<close> are those of \<open>u->buffer\<close>, \<open>rlen\<close> is \<open>u->length\<close>, \<open>free_bufs\<close>
  the session's \<open>free_recv_bufs\<close>. The surroundings are parameters: the configured buffer size, what the
  \<open>n\<close>-th request to the pool returns, whether \<open>ngx_handle_read_event\<close> succeeds, the event's \<open>active\<close> flag,
  and whether the downstream read event is active or can be added.
\<close>

record senv =
  buffer_size :: nat
  palloc :: "nat \<Rightarrow> nat \<Rightarrow> bytes option"
  handle_read_ok :: bool
  rev_active :: bool
  raw_downstream :: bool
  check_client_abort :: bool
  downstream_event_ok :: bool

definition FT_ERROR :: "16 word" where "FT_ERROR = 0x0001"
definition FT_TIMEOUT :: "16 word" where "FT_TIMEOUT = 0x0002"
definition FT_CLOSED :: "16 word" where "FT_CLOSED = 0x0004"
definition FT_RESOLVER :: "16 word" where "FT_RESOLVER = 0x0008"
definition FT_BUFTOOSMALL :: "16 word" where "FT_BUFTOOSMALL = 0x0010"
definition FT_NOMEM :: "16 word" where "FT_NOMEM = 0x0020"
definition FT_CLIENTABORT :: "16 word" where "FT_CLIENTABORT = 0x0080"
definition FT_SSL :: "16 word" where "FT_SSL = 0x0100"

lemmas ft_defs = FT_ERROR_def FT_TIMEOUT_def FT_CLOSED_def FT_RESOLVER_def FT_BUFTOOSMALL_def FT_NOMEM_def
  FT_CLIENTABORT_def FT_SSL_def

subsection \<open>Buffer operations\<close>

text \<open>A buffer of at least the given size, from the free list or the pool.\<close>

definition chain_get_free_buf :: "senv \<Rightarrow> nat \<Rightarrow> rsock \<Rightarrow> nbuf option \<times> rsock" where
  "chain_get_free_buf env len s =
     (let fresh = (\<lambda>s.
            if len = 0 then (Some \<lparr>bm = [], bpos = 0, blast = 0\<rparr>, s)
            else (map_option (\<lambda>m. \<lparr>bm = m, bpos = 0, blast = 0\<rparr>) (palloc env (n_alloc s) len), s\<lparr>n_alloc := n_alloc s + 1\<rparr>))
      in case free_bufs s of
           [] \<Rightarrow> fresh s
         | b # fs \<Rightarrow>
             (let s = s\<lparr>free_bufs := fs\<rparr>
              in if bm b \<noteq> [] \<and> length (bm b) \<ge> len then (Some (b\<lparr>bpos := 0, blast := 0\<rparr>), s) else fresh s))"

definition add_input_buffer :: "senv \<Rightarrow> rsock \<Rightarrow> ngx_rc \<times> rsock" where
  "add_input_buffer env s =
     (case chain_get_free_buf env (buffer_size env) s of
        (None, s) \<Rightarrow> (NGX_ERROR, s)
      | (Some b, s) \<Rightarrow> (NGX_OK, s\<lparr>chain := chain s @ [cur s], cur := b, upos := bpos b, ulast := blast b\<rparr>))"

text \<open>A copy of the pattern's prefix goes into a buffer of its own before the last one. The outer
  option is a copy past the new buffer.\<close>

definition insert_buffer :: "senv \<Rightarrow> bytes \<Rightarrow> nat \<Rightarrow> rsock \<Rightarrow> (ngx_rc \<times> rsock) option" where
  "insert_buffer env pat prefix s =
     (let size = (if prefix \<le> buffer_size env then buffer_size env else prefix)
      in case chain_get_free_buf env size s of
           (None, s) \<Rightarrow> Some (NGX_ERROR, s)
         | (Some b, s) \<Rightarrow>
             (if blast b + prefix > length (bm b) \<or> prefix > length pat then None
              else
                (let b = b\<lparr>bm := take (blast b) (bm b) @ take prefix pat @ drop (blast b + prefix) (bm b),
                           blast := blast b + prefix\<rparr>
                 in Some (NGX_OK, s\<lparr>chain := chain s @ [b]\<rparr>))))"

text \<open>\<open>at\<close> is the offset of \<open>pos + len\<close>.\<close>

definition add_pending_data :: "senv \<Rightarrow> nat \<Rightarrow> bytes \<Rightarrow> nat \<Rightarrow> nat \<Rightarrow> rsock \<Rightarrow> (ngx_rc \<times> rsock) option" where
  "add_pending_data env at pat prefix old_state s =
     (if int at - int (blast (cur s)) = int old_state then
        Some (NGX_OK, s\<lparr>cur := (cur s)\<lparr>blast := blast (cur s) + prefix\<rparr>\<rparr>)
      else case insert_buffer env pat prefix s of
             None \<Rightarrow> None
           | Some (rc, s) \<Rightarrow>
               (if rc \<noteq> NGX_OK then Some (NGX_ERROR, s)
                else Some (NGX_OK, s\<lparr>cur := (cur s)\<lparr>bpos := at, blast := at\<rparr>\<rparr>)))"

text \<open>The bytes read are pushed to Lua as one string; the buffers before the last are recycled.\<close>

definition bslice :: "bytes \<Rightarrow> nat \<Rightarrow> nat \<Rightarrow> bytes" where
  "bslice m a b = take (b - a) (drop a m)"

definition content :: "nbuf \<Rightarrow> bytes" where
  "content b = bslice (bm b) (bpos b) (blast b)"

definition push_input_data :: "rsock \<Rightarrow> bytes \<times> rsock" where
  "push_input_data s =
     (let luabuf = concat (map content (chain s)) @ content (cur s);
          s = s\<lparr>free_bufs := chain s @ free_bufs s, chain := []\<rparr>;
          s = (if upos s = ulast s then s\<lparr>upos := 0, ulast := 0\<rparr> else s)
      in (luabuf, if have_in s then s\<lparr>cur := (cur s)\<lparr>bpos := upos s, blast := upos s\<rparr>\<rparr> else s))"

text \<open>The buffers of a closed reading side go back to the free list.\<close>

definition finalize_read_part :: "rsock \<Rightarrow> rsock" where
  "finalize_read_part s =
     (if read_closed s then s
      else
        (let s = s\<lparr>read_closed := True\<rparr>
         in if have_in s then
              s\<lparr>free_bufs := map (\<lambda>b. b\<lparr>bpos := blast b\<rparr>) (chain s @ [cur s]) @ free_bufs s,
                chain := [], cur := \<lparr>bm = [], bpos = 0, blast = 0\<rparr>, have_in := False, upos := 0, ulast := 0\<rparr>
            else s))"

subsection \<open>Input filters\<close>

definition read_chunk :: "unit \<times> rsock \<Rightarrow> nat \<Rightarrow> (ngx_rc \<times> unit \<times> rsock) option" where
  "read_chunk = (\<lambda>(_, s) bytes.
     if bytes = 0 then Some (NGX_ERROR, (), s\<lparr>ft_type := ft_type s OR FT_CLOSED\<rparr>)
     else if bytes \<ge> rest s then
       Some (NGX_OK, (), s\<lparr>cur := (cur s)\<lparr>blast := blast (cur s) + rest s\<rparr>, upos := upos s + rest s, rest := 0\<rparr>)
     else
       Some (NGX_AGAIN, (), s\<lparr>cur := (cur s)\<lparr>blast := blast (cur s) + bytes\<rparr>, upos := upos s + bytes, rest := rest s - bytes\<rparr>))"

definition read_all :: "unit \<times> rsock \<Rightarrow> nat \<Rightarrow> (ngx_rc \<times> unit \<times> rsock) option" where
  "read_all = (\<lambda>(_, s) bytes.
     if bytes = 0 then Some (NGX_OK, (), s)
     else Some (NGX_AGAIN, (), s\<lparr>cur := (cur s)\<lparr>blast := blast (cur s) + bytes\<rparr>, upos := upos s + bytes\<rparr>))"

text \<open>The loop of \<open>read_line\<close> over the memory: the line is compacted in place, without its carriage
  returns. The result tells whether the line ended, the memory, \<open>dst\<close> and \<open>pos\<close>; \<open>None\<close> is an access
  outside the buffer.\<close>

fun line_loop :: "nat \<Rightarrow> bytes \<Rightarrow> nat \<Rightarrow> nat \<Rightarrow> (bool \<times> bytes \<times> nat \<times> nat) option" where
  "line_loop 0 m dst pos = Some (False, m, dst, pos)"
| "line_loop (Suc n) m dst pos =
     (if pos \<ge> length m then None
      else if m ! pos = CHR 0x0A then Some (True, m, dst, pos + 1)
      else if m ! pos = CHR 0x0D then line_loop n m dst (pos + 1)
      else if dst \<ge> length m then None
      else line_loop n (m[dst := m ! pos]) (dst + 1) (pos + 1))"

definition read_line :: "unit \<times> rsock \<Rightarrow> nat \<Rightarrow> (ngx_rc \<times> unit \<times> rsock) option" where
  "read_line = (\<lambda>(_, s) bytes.
     if bytes = 0 then Some (NGX_ERROR, (), s\<lparr>ft_type := ft_type s OR FT_CLOSED\<rparr>)
     else case line_loop bytes (bm (cur s)) (blast (cur s)) (upos s) of
            None \<Rightarrow> None
          | Some (fin, m, dst, pos) \<Rightarrow>
              Some (if fin then NGX_OK else NGX_AGAIN, (),
                s\<lparr>cur := (cur s)\<lparr>bm := m, blast := dst\<rparr>, upos := pos\<rparr>))"

subsection \<open>Abstraction\<close>

text \<open>What has been read for the current call, and what is received and not yet read.\<close>

definition collected :: "rsock \<Rightarrow> bytes" where
  "collected s = concat (map content (chain s)) @ content (cur s)"

definition unread :: "rsock \<Rightarrow> bytes" where
  "unread s = bslice (bm (cur s)) (upos s) (ulast s)"

definition sock_ok :: "rsock \<Rightarrow> bool" where
  "sock_ok s \<longleftrightarrow> have_in s \<and> bpos (cur s) \<le> blast (cur s) \<and> blast (cur s) \<le> upos s \<and> upos s \<le> ulast s \<and>
     ulast s \<le> length (bm (cur s))"

lemma bslice_length [simp]: "b \<le> length m \<Longrightarrow> length (bslice m a b) = b - a"
  by (simp add: bslice_def)

lemma bslice_empty [simp]: "bslice m a a = []"
  by (simp add: bslice_def)

lemma bslice_append: "a \<le> b \<Longrightarrow> b \<le> c \<Longrightarrow> bslice m a c = bslice m a b @ bslice m b c"
proof -
  assume "a \<le> b" "b \<le> c"
  then have "take (c - a) (drop a m) = take (b - a) (drop a m) @ take (c - a - (b - a)) (drop (b - a) (drop a m))"
    using take_add [of "b - a" "c - b" "drop a m"] by simp
  then show ?thesis using \<open>a \<le> b\<close> \<open>b \<le> c\<close> by (simp add: bslice_def)
qed

lemma bslice_nth: "i < b - a \<Longrightarrow> b \<le> length m \<Longrightarrow> bslice m a b ! i = m ! (a + i)"
  by (simp add: bslice_def)

lemma bslice_Cons: "a < b \<Longrightarrow> b \<le> length m \<Longrightarrow> bslice m a b = m ! a # bslice m (Suc a) b"
  by (simp add: bslice_def Cons_nth_drop_Suc [symmetric] Suc_diff_Suc [symmetric])

lemma bslice_snoc: "a \<le> b \<Longrightarrow> b < length m \<Longrightarrow> bslice m a (Suc b) = bslice m a b @ [m ! b]"
  using bslice_append [of a b "Suc b" m] by (simp add: bslice_Cons)

lemma take_bslice: "a + n \<le> b \<Longrightarrow> take n (bslice m a b) = bslice m a (a + n)"
  by (simp add: bslice_def min_def)

lemma drop_bslice: "drop n (bslice m a b) = bslice m (a + n) b"
  by (simp add: bslice_def drop_take add.commute)

lemma bslice_beyond [simp]: "b \<le> a \<Longrightarrow> bslice m a b = []"
  by (simp add: bslice_def)

lemma bslice_update_outside [simp]: "i < a \<or> b \<le> i \<Longrightarrow> bslice (m[i := x]) a b = bslice m a b"
  by (cases "i < a") (auto simp: bslice_def drop_update_swap)

lemma unread_length: "sock_ok s \<Longrightarrow> length (unread s) = ulast s - upos s"
  by (simp add: sock_ok_def unread_def)

lemma sock_ok_unread_Nil: "sock_ok s \<Longrightarrow> unread s = [] \<longleftrightarrow> upos s = ulast s"
  using unread_length [of s] by (auto simp: sock_ok_def)

text \<open>What \<open>recv\<close> leaves in the buffer: \<open>d\<close> after the bytes received before.\<close>

definition received :: "bytes \<Rightarrow> rsock \<Rightarrow> rsock" where
  "received d s =
     s\<lparr>cur := (cur s)\<lparr>bm := take (ulast s) (bm (cur s)) @ d @ drop (ulast s + length d) (bm (cur s))\<rparr>,
       ulast := ulast s + length d\<rparr>"

lemma received_frame [simp]:
  "rlen (received d s) = rlen s" "rest (received d s) = rest s" "upos (received d s) = upos s"
  "blast (cur (received d s)) = blast (cur s)" "bpos (cur (received d s)) = bpos (cur s)" "chain (received d s) = chain s"
  "ft_type (received d s) = ft_type s" "eof (received d s) = eof s" "read_closed (received d s) = read_closed s"
  by (simp_all add: received_def)

lemma bslice_below: "b \<le> n \<Longrightarrow> n \<le> length m \<Longrightarrow> bslice (take n m @ x) a b = bslice m a b"
  by (auto simp: bslice_def min_def drop_take)

lemma bslice_at: "n \<le> length m \<Longrightarrow> bslice (take n m @ d @ r) n (n + length d) = d"
  by (simp add: bslice_def)

lemma received_ok:
  assumes "sock_ok s" "ulast s + length d \<le> length (bm (cur s))"
  shows "sock_ok (received d s)" "unread (received d s) = unread s @ d" "collected (received d s) = collected s"
proof -
  let ?m = "bm (cur s)" and ?m' = "take (ulast s) (bm (cur s)) @ d @ drop (ulast s + length d) (bm (cur s))"
  have k: "ulast s \<le> length ?m" "upos s \<le> ulast s" "blast (cur s) \<le> ulast s" using assms by (auto simp: sock_ok_def)
  show "sock_ok (received d s)" using assms by (auto simp: sock_ok_def received_def)
  have "bslice ?m' (upos s) (ulast s + length d) = bslice ?m' (upos s) (ulast s) @ bslice ?m' (ulast s) (ulast s + length d)"
    using k by (intro bslice_append) auto
  then show "unread (received d s) = unread s @ d"
    using k bslice_below [of "ulast s" "ulast s" ?m] bslice_at [of "ulast s" ?m d]
    by (simp add: unread_def received_def)
  show "collected (received d s) = collected s"
    using k bslice_below [of "blast (cur s)" "ulast s" ?m] by (simp add: collected_def received_def content_def)
qed

text \<open>A fresh buffer is empty and at least as large as asked for.\<close>

definition env_ok :: "senv \<Rightarrow> bool" where
  "env_ok env \<longleftrightarrow> 0 < buffer_size env \<and> (\<forall>k n m. palloc env k n = Some m \<longrightarrow> length m = n)"

lemma upd_free: "\<exists>f' n. s\<lparr>free_bufs := f\<rparr> = s\<lparr>free_bufs := f', n_alloc := n\<rparr>"
  by (rule exI [of _ f], rule exI [of _ "n_alloc s"], cases s) simp

lemma upd_alloc: "\<exists>f n'. s\<lparr>n_alloc := n\<rparr> = s\<lparr>free_bufs := f, n_alloc := n'\<rparr>"
  by (rule exI [of _ "free_bufs s"], rule exI [of _ n], cases s) simp

lemma chain_get_free_buf_frame: "chain_get_free_buf env len s = (r, s') \<Longrightarrow> 0 < len \<Longrightarrow> \<exists>f n. s' = s\<lparr>free_bufs := f, n_alloc := n\<rparr>"
  unfolding chain_get_free_buf_def Let_def
  by (cases "free_bufs s") (auto simp: upd_free upd_alloc split: if_splits)

lemma chain_get_free_buf_ok:
  assumes "env_ok env" "0 < len" "chain_get_free_buf env len s = (Some b, s')"
  shows "len \<le> length (bm b)" "bpos b = 0" "blast b = 0"
  using assms by (auto simp: chain_get_free_buf_def env_ok_def Let_def split: list.splits if_splits)

lemma chain_get_free_buf_none: "chain_get_free_buf env len s = (None, s') \<Longrightarrow> \<exists>k n. palloc env k n = None"
  by (auto simp: chain_get_free_buf_def Let_def split: list.splits if_splits)

lemma add_input_buffer_ok:
  assumes "env_ok env" "sock_ok s" "unread s = []" "add_input_buffer env s = (NGX_OK, s')"
  shows "sock_ok s'" "unread s' = []" "collected s' = collected s" "ulast s' < length (bm (cur s'))"
    "upos s' = 0" "blast (cur s') = 0" "bpos (cur s') = 0"
    "\<exists>b f n. s' = s\<lparr>chain := chain s @ [cur s], cur := b, upos := 0, ulast := 0, free_bufs := f, n_alloc := n\<rparr>"
proof -
  obtain b s1 where b: "chain_get_free_buf env (buffer_size env) s = (Some b, s1)"
    and s': "s' = s1\<lparr>chain := chain s1 @ [cur s1], cur := b, upos := bpos b, ulast := blast b\<rparr>"
    using assms(4) by (auto simp: add_input_buffer_def split: prod.splits option.splits)
  have size: "0 < buffer_size env" using assms(1) by (simp add: env_ok_def)
  note g = chain_get_free_buf_ok [OF assms(1) size b]
  obtain f n where s1: "s1 = s\<lparr>free_bufs := f, n_alloc := n\<rparr>"
    using chain_get_free_buf_frame [OF b size] by blast
  show "\<exists>b f n. s' = s\<lparr>chain := chain s @ [cur s], cur := b, upos := 0, ulast := 0, free_bufs := f, n_alloc := n\<rparr>"
    by (rule exI [of _ b], rule exI [of _ f], rule exI [of _ n]) (simp add: s' s1 g)
  show "sock_ok s'" "unread s' = []" "ulast s' < length (bm (cur s'))" "upos s' = 0" "blast (cur s') = 0" "bpos (cur s') = 0"
    using assms(2) size g(1-3) by (auto simp: s' s1 sock_ok_def unread_def)
  show "collected s' = collected s" by (simp add: s' s1 g collected_def content_def)
qed

subsection \<open>The simple filters\<close>

lemma read_chunk_step:
  assumes "sock_ok s" "blast (cur s) = upos s" "unread s \<noteq> []" "0 < rest s"
  shows "\<exists>s'. read_chunk (c, s) (length (unread s)) = Some (if rest s \<le> length (unread s) then NGX_OK else NGX_AGAIN, (), s') \<and>
    sock_ok s' \<and> blast (cur s') = upos s' \<and> rlen s' = rlen s \<and>
    collected s' = collected s @ take (rest s) (unread s) \<and> unread s' = drop (rest s) (unread s) \<and>
    rest s' = rest s - length (unread s) \<and> ft_type s' = ft_type s \<and> eof s' = eof s \<and> read_closed s' = read_closed s"
proof -
  have k: "bpos (cur s) \<le> upos s" "upos s \<le> ulast s" "ulast s \<le> length (bm (cur s))"
    "length (unread s) = ulast s - upos s"
    using assms unread_length by (auto simp: sock_ok_def)
  let ?n = "min (rest s) (ulast s - upos s)"
  have "bslice (bm (cur s)) (bpos (cur s)) (upos s + ?n) =
      bslice (bm (cur s)) (bpos (cur s)) (upos s) @ bslice (bm (cur s)) (upos s) (upos s + ?n)"
    using k by (intro bslice_append) auto
  moreover have "take (rest s) (unread s) = bslice (bm (cur s)) (upos s) (upos s + ?n)"
    using take_bslice [of "upos s" "rest s" "ulast s" "bm (cur s)"] k
    by (cases "rest s \<le> ulast s - upos s") (auto simp: unread_def min_def)
  ultimately show ?thesis
    using assms k by (auto simp: read_chunk_def min_def collected_def content_def unread_def sock_ok_def drop_bslice)
qed

lemma line_loop_spec:
  assumes "dst \<le> pos" "pos + n \<le> length m" "a \<le> dst"
  shows "\<exists>m' dst' pos'. line_loop n m dst pos = Some (CHR 0x0A \<in> set (bslice m pos (pos + n)), m', dst', pos') \<and>
    dst' \<le> pos' \<and> dst \<le> dst' \<and> pos \<le> pos' \<and> pos' \<le> pos + n \<and> length m' = length m \<and>
    (let d = bslice m pos (pos + n)
     in bslice m' a dst' = bslice m a dst @ filter (\<lambda>x. x \<noteq> CHR 0x0D) (takeWhile (\<lambda>x. x \<noteq> CHR 0x0A) d) \<and>
        pos' = pos + min n (length (takeWhile (\<lambda>x. x \<noteq> CHR 0x0A) d) + 1) \<and>
        (\<forall>e. bslice m' pos' e = bslice m pos' e))"
  using assms
proof (induction n arbitrary: m dst pos)
  case (Suc n)
  have d: "bslice m pos (Suc (pos + n)) = m ! pos # bslice m (Suc pos) (Suc (pos + n))"
    using bslice_Cons [of pos "Suc (pos + n)" m] Suc.prems by simp
  consider "m ! pos = CHR 0x0A" | "m ! pos = CHR 0x0D" | "m ! pos \<noteq> CHR 0x0A" "m ! pos \<noteq> CHR 0x0D" by blast
  then show ?case
  proof cases
    case 1
    then show ?thesis using Suc.prems by (simp add: d)
  next
    case 2
    then show ?thesis using Suc.IH [of dst "Suc pos" m] Suc.prems by (auto simp: d Let_def)
  next
    case 3
    let ?m = "m[dst := m ! pos]"
    have s: "bslice ?m a (Suc dst) = bslice m a dst @ [m ! pos]"
      using Suc.prems bslice_snoc [of a dst ?m] by simp
    have t: "bslice ?m (Suc pos) e = bslice m (Suc pos) e" for e using Suc.prems(1) by simp
    have u: "bslice ?m p e = bslice m p e" if "Suc pos \<le> p" for p e using Suc.prems(1) that by simp
    from Suc.IH [of "Suc dst" "Suc pos" ?m] Suc.prems 3 show ?thesis
      by (auto simp: d s t u Let_def)
  qed
qed (simp add: Let_def)

text \<open>A socket that has received exactly \<open>d\<close>.\<close>

definition demo_sock :: "bytes \<Rightarrow> rsock" where
  "demo_sock d =
     \<lparr>chain = [], cur = \<lparr>bm = d, bpos = 0, blast = 0\<rparr>, have_in = True, upos = 0, ulast = length d, rlen = 0, rest = 0,
      ft_type = 0, eof = False, read_waiting = False, read_closed = False, no_close = False, free_bufs = [], n_alloc = 0\<rparr>"

lemma demo_sock_simps [simp]:
  "sock_ok (demo_sock d)" "unread (demo_sock d) = d" "collected (demo_sock d) = []" "upos (demo_sock d) = 0"
  "blast (cur (demo_sock d)) = 0" "eof (demo_sock d) = False" "have_in (demo_sock d)" "chain (demo_sock d) = []"
  "bpos (cur (demo_sock d)) = 0" "read_waiting (demo_sock d) = False" "read_closed (demo_sock d) = False" "ft_type (demo_sock d) = 0"
  by (simp_all add: demo_sock_def sock_ok_def unread_def collected_def content_def bslice_def)

end
