(* ===== verification/Socket_Redis.thy ===== *)
theory Socket_Redis
  imports Socket_Buf Redis_Proto "HOL-Library.Monad_Syntax"
begin

section \<open>The Redis input filter (ngx\_stream\_lua\_socket\_tcp.c)\<close>

text \<open>
  \<open>receive('*r')\<close> reads a Redis message: after each chunk from the network the filter looks at that
  chunk with \<open>redis_proto_decode\<close> to tell whether the message is complete. The functions walk over the buffer's
  memory with a pointer that \<open>strtol\<close> moves; \<open>None\<close> is an access outside the memory. Lengths are \<open>int\<close>.
\<close>

subsection \<open>strtol with base 0\<close>

definition is_space :: "char \<Rightarrow> bool" where
  "is_space c \<longleftrightarrow> c = CHR '' '' \<or> (9 \<le> (of_char c :: nat) \<and> (of_char c :: nat) \<le> 13)"

definition digit_in :: "int \<Rightarrow> char \<Rightarrow> int option" where
  "digit_in base c =
     (let n = of_char c :: int;
          v = (if 48 \<le> n \<and> n \<le> 57 then n - 48
               else if 97 \<le> n \<and> n \<le> 122 then n - 97 + 10
               else if 65 \<le> n \<and> n \<le> 90 then n - 65 + 10
               else base)
      in if v < base then Some v else None)"

function skip_space :: "bytes \<Rightarrow> int \<Rightarrow> int option" where
  "skip_space m p = (case rd m p of None \<Rightarrow> None | Some c \<Rightarrow> if is_space c then skip_space m (p + 1) else Some p)"
  by pat_completeness auto
termination by (relation "measure (\<lambda>(m, p). nat (int (length m) - p))") (auto simp: rd_def split: if_splits)

function strtol_digits :: "bytes \<Rightarrow> int \<Rightarrow> int \<Rightarrow> int \<Rightarrow> (int \<times> int) option" where
  "strtol_digits m base acc p =
     (case rd m p of
        None \<Rightarrow> None
      | Some c \<Rightarrow>
          (case digit_in base c of
             None \<Rightarrow> Some (acc, p)
           | Some v \<Rightarrow> strtol_digits m base (acc * base + v) (p + 1)))"
  by pat_completeness auto
termination by (relation "measure (\<lambda>(m, base, acc, p). nat (int (length m) - p))") (auto simp: rd_def split: if_splits)

declare skip_space.simps [simp del] strtol_digits.simps [simp del]

text \<open>The value, clamped to a \<open>long\<close>, and the end pointer; without digits the pointer does not move.\<close>

definition strtol :: "bytes \<Rightarrow> int \<Rightarrow> (int \<times> int) option" where
  "strtol m p = do {
     p1 \<leftarrow> skip_space m p;
     c \<leftarrow> rd m p1;
     let (sign, p2) = (if c = CHR ''-'' then (- 1, p1 + 1) else if c = CHR ''+'' then (1, p1 + 1) else (1, p1));
     c2 \<leftarrow> rd m p2;
     (base, p3) \<leftarrow>
       (if c2 = CHR ''0'' then do {
          c3 \<leftarrow> rd m (p2 + 1);
          (if c3 = CHR ''x'' \<or> c3 = CHR ''X'' then do {
             c4 \<leftarrow> rd m (p2 + 2);
             Some (if digit_in 16 c4 \<noteq> None then (16, p2 + 2) else (8, p2))
           } else Some (8, p2))
        } else Some (10, p2));
     (v, p4) \<leftarrow> strtol_digits m base 0 p3;
     Some (if p4 = p3 then (0, p) else (max (- (2 ^ 63)) (min (2 ^ 63 - 1) (sign * v)), p4))
   }"

subsection \<open>The decoder\<close>

text \<open>\<open>uint64_t\<close>: the number of decimal digits.\<close>

function num_digits :: "nat \<Rightarrow> int" where
  "num_digits i = (if i div 10 > 0 then 1 + num_digits (i div 10) else 1)"
  by pat_completeness auto
termination by (relation "measure id") auto

declare num_digits.simps [simp del]

definition redis_get_num_size :: "int \<Rightarrow> int" where
  "redis_get_num_size i = num_digits (nat (i mod 2 ^ 64))"

function redis_line_loop :: "bytes \<Rightarrow> int \<Rightarrow> int \<Rightarrow> bool \<Rightarrow> ngx_rc option" where
  "redis_line_loop m p lim seen_cr =
     (if p \<ge> lim then Some NGX_AGAIN
      else case rd m p of
             None \<Rightarrow> None
           | Some c \<Rightarrow>
               (if c = CHR 0x0D then redis_line_loop m (p + 1) lim True
                else if seen_cr \<and> c = CHR 0x0A then Some NGX_OK
                else redis_line_loop m (p + 1) lim False))"
  by pat_completeness auto
termination by (relation "measure (\<lambda>(m, p, e, _). nat (e - p))") auto

declare redis_line_loop.simps [simp del]

definition redis_parse_line :: "bytes \<Rightarrow> int \<Rightarrow> int \<Rightarrow> ngx_rc option" where
  "redis_parse_line m rdata rdata_len = redis_line_loop m rdata (rdata + rdata_len) False"

definition redis_parse_bulk :: "bytes \<Rightarrow> int \<Rightarrow> int \<Rightarrow> ngx_rc option" where
  "redis_parse_bulk m rdata rdata_len = do {
     (v, ptr) \<leftarrow> strtol m rdata;
     let bulklen = int32 v;
     (if bulklen = - 1 then Some NGX_OK
      else
        (let len = int32 (1 + redis_get_num_size bulklen);
             len = int32 (len + 2);
             len = int32 (len + int32 (bulklen + 2))
         in if len > rdata_len then Some NGX_AGAIN else Some NGX_OK))
   }"

text \<open>The \<open>while\<close> loop over the elements, \<open>n\<close> to go, with the pointer \<open>ptr\<close> and the length \<open>len\<close>.\<close>

fun redis_multi_loop :: "bytes \<Rightarrow> int \<Rightarrow> nat \<Rightarrow> int \<Rightarrow> int \<Rightarrow> ngx_rc option" where
  "redis_multi_loop m rdata_len 0 ptr len = Some NGX_OK"
| "redis_multi_loop m rdata_len (Suc n) ptr len =
     (if len > rdata_len then Some NGX_AGAIN
      else do {
        let len = int32 (len + 1);
        (v, ptr) \<leftarrow> strtol m (ptr + 1);
        let bulklen = int32 v;
        (if bulklen = - 1 then redis_multi_loop m rdata_len n ptr len
         else redis_multi_loop m rdata_len n (ptr + 2 + int32 (bulklen + 2))
                (int32 (int32 (int32 (len + redis_get_num_size bulklen) + 2) + int32 (bulklen + 2))))
      })"

definition redis_parse_multibulk :: "bytes \<Rightarrow> int \<Rightarrow> int \<Rightarrow> ngx_rc option" where
  "redis_parse_multibulk m rdata rdata_len = do {
     (v, ptr) \<leftarrow> strtol m rdata;
     redis_multi_loop m rdata_len (nat (int32 v)) (ptr + 2) 3
   }"

definition redis_proto_decode :: "bytes \<Rightarrow> int \<Rightarrow> int \<Rightarrow> ngx_rc option" where
  "redis_proto_decode m rdata len = do {
     c \<leftarrow> rd m rdata;
     (if c = CHR ''-'' \<or> c = CHR ''+'' \<or> c = CHR '':'' then redis_parse_line m rdata len
      else if c = CHR ''$'' then redis_parse_bulk m (rdata + 1) len
      else if c = CHR ''*'' then redis_parse_multibulk m (rdata + 1) len
      else Some NGX_ERROR)
   }"

text \<open>The filter: at the peer's close it is done, with the \<open>closed\<close> flag set; otherwise all bytes are
  taken, and it is done when the decoder says so.\<close>

definition read_redis :: "unit \<times> rsock \<Rightarrow> nat \<Rightarrow> (ngx_rc \<times> unit \<times> rsock) option" where
  "read_redis = (\<lambda>(_, s) bytes.
     if bytes = 0 then Some (NGX_OK, (), s\<lparr>ft_type := ft_type s OR FT_CLOSED\<rparr>)
     else do {
       rc \<leftarrow> redis_proto_decode (bm (cur s)) (int (upos s)) (int bytes);
       let s = s\<lparr>cur := (cur s)\<lparr>blast := blast (cur s) + bytes\<rparr>, upos := upos s + bytes\<rparr>;
       Some (if rc = NGX_OK then NGX_OK else NGX_AGAIN, (), s)
     })"

subsection \<open>Decimal numbers read back\<close>

lemma digit_in_digit: "is_digit c \<Longrightarrow> digit_in 10 c = Some (digit_val c)"
  by (auto simp: digit_in_def is_digit_def digit_val_def int_of_char)

lemma digit_in_CR: "digit_in 10 CR = None" "digit_in 8 CR = None"
  by (simp_all add: digit_in_def)

lemma digit_not_space: "is_digit c \<Longrightarrow> \<not> is_space c \<and> c \<noteq> CHR ''-'' \<and> c \<noteq> CHR ''+''"
  by (auto simp: is_digit_def is_space_def int_of_char)

lemma strtol_digits_dec:
  assumes "drop p m = ds @ CR # r" "\<forall>c \<in> set ds. is_digit c"
  shows "strtol_digits m 10 acc (int p) = Some (dec_val acc ds, int (p + length ds))"
  using assms
proof (induction ds arbitrary: p acc)
  case Nil
  then show ?case by (subst strtol_digits.simps) (simp add: rd_drop digit_in_CR dec_val_def)
next
  case (Cons d ds)
  have "drop (Suc p) m = ds @ CR # r" using Cons.prems(1) by (metis append_Cons drop_Suc drop_tl list.sel(3))
  from Cons.IH [OF this] Cons.prems show ?case
    by (subst strtol_digits.simps) (simp add: rd_drop digit_in_digit dec_val_def algebra_simps)
qed

lemma dec_nat_hd: "0 < n \<Longrightarrow> \<exists>c cs. dec_nat n = c # cs \<and> is_digit c \<and> c \<noteq> CHR ''0''"
proof (induction n rule: dec_nat.induct)
  case (1 n)
  show ?case
  proof (cases "n < 10")
    case True
    have "digit_val CHR ''0'' = 0" by (simp add: digit_val_def)
    then have "digit_val (digit_char n) \<noteq> digit_val CHR ''0''" using True 1(2) digit_char(2) [OF True] by simp
    then have "digit_char n \<noteq> CHR ''0''" by auto
    then show ?thesis using True by (simp add: dec_nat.simps [of n])
  next
    case False
    then obtain c cs where "dec_nat (n div 10) = c # cs" "is_digit c" "c \<noteq> CHR ''0''" using 1(1) by fastforce
    then show ?thesis using False by (simp add: dec_nat.simps [of n])
  qed
qed

lemma num_digits_dec_nat: "num_digits n = int (length (dec_nat n))"
proof (induction n rule: num_digits.induct)
  case (1 n)
  then show ?case by (subst num_digits.simps, subst dec_nat.simps) auto
qed

text \<open>The number \<open>0\<close> is read as octal, every other as decimal.\<close>

lemma strtol_dec:
  assumes "drop p m = dec_nat n @ CR # r" "n < 2 ^ 63"
  shows "strtol m (int p) = Some (int n, int (p + length (dec_nat n)))"
proof (cases "n = 0")
  case True
  have z: "dec_nat 0 = [CHR ''0'']" using char_of_char [of "CHR ''0''"] by (simp add: dec_nat.simps digit_char_def)
  have d: "drop p m = CHR ''0'' # CR # r" using assms(1) True z by simp
  have d1: "drop (Suc p) m = CR # r" using d by (metis drop_Suc drop_tl list.sel(3))
  have r0: "rd m (int p) = Some CHR ''0''" and r1: "rd m (int p + 1) = Some CR"
    using d rd_drop [of p m] rd_drop [OF d1] by (simp_all add: rd_drop add.commute)
  have "strtol_digits m 8 0 (int p) = Some (0, int p + 1)"
    by (subst strtol_digits.simps, simp add: r0 digit_in_def, subst strtol_digits.simps, simp add: r1 digit_in_CR)
  moreover have "skip_space m (int p) = Some (int p)" by (subst skip_space.simps) (simp add: r0 is_space_def)
  ultimately show ?thesis using True z by (simp add: strtol_def r0 r1)
next
  case False
  then obtain c cs where c: "dec_nat n = c # cs" "is_digit c" "c \<noteq> CHR ''0''" using dec_nat_hd by blast
  have r0: "rd m (int p) = Some c" using assms(1) c rd_drop by simp
  have "skip_space m (int p) = Some (int p)" by (subst skip_space.simps) (simp add: r0 digit_not_space c)
  moreover have "strtol_digits m 10 0 (int p) = Some (int n, int (p + length (dec_nat n)))"
    using strtol_digits_dec [OF assms(1)] dec_nat_digits by simp
  moreover have "int n \<le> 2 ^ 63 - 1" using assms(2) by simp
  ultimately show ?thesis using c digit_not_space [OF c(2)] by (simp add: strtol_def r0)
qed

subsection \<open>When the filter is satisfied\<close>

text \<open>The array loop is content as soon as the length line of the last element is there.\<close>

lemma encode_bulk_length: "length (encode_bulk (Some b)) = 5 + length (dec_nat (length b)) + length b"
  by (simp add: encode_bulk_def)

lemma num_size_nat: "n < 2 ^ 31 \<Longrightarrow> redis_get_num_size (int n) = int (length (dec_nat n))"
  by (simp add: redis_get_num_size_def num_digits_dec_nat)

lemma drop_append_of: "drop p m = xs @ ys \<Longrightarrow> p + length xs \<le> length m \<or> xs = [] \<Longrightarrow> drop (p + length xs) m = ys"
  by (metis add.commute append_eq_conv_conj drop_drop)

lemma multi_loop_elem:
  assumes "drop p m = CHR ''$'' # dec_nat (length b) @ CR # r" "0 \<le> len" "len \<le> L"
    "len + 5 + int (length (dec_nat (length b)) + length b) < 2 ^ 31"
  shows "redis_multi_loop m L (Suc n) (int p) len =
    redis_multi_loop m L n (int (p + length (encode_bulk (Some b)))) (len + int (length (encode_bulk (Some b))))"
proof -
  have "drop (Suc p) m = dec_nat (length b) @ CR # r" using assms(1) by (rule drop_Suc_of)
  moreover have b: "length b < 2 ^ 31" using assms(2,4) by simp
  then have "length b < 2 ^ 63" by simp
  ultimately have st: "strtol m (int p + 1) = Some (int (length b), int (Suc p + length (dec_nat (length b))))"
    using strtol_dec [of "Suc p" m "length b" r] by (simp add: add.commute)
  have i: "int32 (int (length b)) = int (length b)" "int32 (int (length b) + 2) = int (length b) + 2"
    "int32 (len + 1) = len + 1" "int32 (len + 1 + int (length (dec_nat (length b)))) = len + 1 + int (length (dec_nat (length b)))"
    "int32 (len + 1 + int (length (dec_nat (length b))) + 2) = len + 3 + int (length (dec_nat (length b)))"
    "int32 (len + 3 + int (length (dec_nat (length b))) + (int (length b) + 2)) = len + 5 + int (length (dec_nat (length b)) + length b)"
    using assms(2,4) by (simp_all add: algebra_simps)
  show ?thesis
    using assms(3) i num_size_nat [OF b]
    by (simp add: st encode_bulk_length Let_def) (simp add: algebra_simps)
qed

lemma multi_loop_ok:
  assumes "drop p m = concat (map (\<lambda>a. encode_bulk (Some a)) bs) @ CHR ''$'' # dec_nat (length b) @ CR # r"
    "0 \<le> len" "len + int (length (concat (map (\<lambda>a. encode_bulk (Some a)) bs))) \<le> L"
    "len + int (length (concat (map (\<lambda>a. encode_bulk (Some a)) bs)) + length (encode_bulk (Some b))) < 2 ^ 31"
  shows "redis_multi_loop m L (Suc (length bs)) (int p) len = Some NGX_OK"
  using assms
proof (induction bs arbitrary: p len)
  case Nil
  then show ?case using multi_loop_elem [of p m b r len L 0] by (simp add: encode_bulk_length)
next
  case (Cons a bs)
  let ?tail = "concat (map (\<lambda>a. encode_bulk (Some a)) bs) @ CHR ''$'' # dec_nat (length b) @ CR # r"
  have d: "drop p m = encode_bulk (Some a) @ ?tail" using Cons.prems(1) by simp
  then have d2: "drop (p + length (encode_bulk (Some a))) m = ?tail"
    by (metis add.commute append_eq_conv_conj drop_drop)
  have "redis_multi_loop m L (Suc (Suc (length bs))) (int p) len =
    redis_multi_loop m L (Suc (length bs)) (int (p + length (encode_bulk (Some a)))) (len + int (length (encode_bulk (Some a))))"
    by (rule multi_loop_elem) (use Cons.prems d in \<open>auto simp: encode_bulk_def encode_bulk_length\<close>)
  also have "\<dots> = Some NGX_OK" by (rule Cons.IH [OF d2]) (use Cons.prems in auto)
  finally show ?case by simp
qed

lemma read_redis_takes_all:
  assumes "sock_ok s" "blast (cur s) = upos s" "unread s \<noteq> []"
    "redis_proto_decode (bm (cur s)) (int (upos s)) (int (length (unread s))) = Some rc"
  shows "\<exists>s'. read_redis ((), s) (length (unread s)) = Some (if rc = NGX_OK then NGX_OK else NGX_AGAIN, (), s') \<and>
    sock_ok s' \<and> blast (cur s') = upos s' \<and> unread s' = [] \<and> collected s' = collected s @ unread s \<and> eof s' = eof s"
proof -
  have k: "bpos (cur s) \<le> upos s" "upos s \<le> ulast s" "ulast s \<le> length (bm (cur s))"
    "upos s + length (unread s) = ulast s"
    using assms unread_length by (auto simp: sock_ok_def)
  have "bslice (bm (cur s)) (bpos (cur s)) (ulast s) = bslice (bm (cur s)) (bpos (cur s)) (upos s) @ unread s"
    unfolding unread_def using k by (intro bslice_append) auto
  then show ?thesis
    using assms k by (auto simp: read_redis_def collected_def content_def sock_ok_def unread_def [of "s\<lparr>cur := x\<rparr>" for x] Let_def)
      (auto simp: unread_def)
qed

lemma unread_drop: "sock_ok s \<Longrightarrow> \<exists>r. drop (upos s) (bm (cur s)) = unread s @ r"
  by (auto simp: unread_def bslice_def) (metis append_take_drop_id)

text \<open>A chunk that does not begin with a type character is taken and never completes a message.\<close>

lemma read_redis_unmarked:
  assumes "sock_ok s" "blast (cur s) = upos s" "unread s = c # d" "c \<notin> set ''-+:$*''"
  shows "\<exists>s'. read_redis ((), s) (length (unread s)) = Some (NGX_AGAIN, (), s') \<and> collected s' = collected s @ unread s"
proof -
  obtain r where "drop (upos s) (bm (cur s)) = c # d @ r" using unread_drop [OF assms(1)] assms(3) by auto
  then have "redis_proto_decode (bm (cur s)) (int (upos s)) (int (length (unread s))) = Some NGX_ERROR"
    using assms(4) by (simp add: redis_proto_decode_def rd_drop)
  from read_redis_takes_all [OF assms(1,2) _ this] assms(3) show ?thesis by auto
qed

lemma decode_array:
  assumes "drop p m = CHR ''*'' # dec_nat (Suc (length bs)) @ CR # LF #
      concat (map (\<lambda>a. encode_bulk (Some a)) bs) @ CHR ''$'' # dec_nat (length b) @ CR # r"
    "3 + int (length (concat (map (\<lambda>a. encode_bulk (Some a)) bs))) \<le> L"
    "3 + int (length (concat (map (\<lambda>a. encode_bulk (Some a)) bs)) + length (encode_bulk (Some b))) < 2 ^ 31"
    "length bs < 2 ^ 31 - 1"
  shows "redis_proto_decode m (int p) L = Some NGX_OK"
proof -
  define n where "n = Suc (length bs)"
  let ?t = "concat (map (\<lambda>a. encode_bulk (Some a)) bs) @ CHR ''$'' # dec_nat (length b) @ CR # r"
  have d1: "drop (Suc p) m = dec_nat n @ CR # LF # ?t" using assms(1) unfolding n_def by (rule drop_Suc_of)
  have st: "strtol m (int (Suc p)) = Some (int n, int (Suc p + length (dec_nat n)))"
    by (rule strtol_dec [OF d1]) (use assms(4) in \<open>simp add: n_def\<close>)
  have d2: "drop (Suc p + length (dec_nat n) + 2) m = ?t"
  proof -
    have "drop (Suc p + length (dec_nat n)) m = CR # LF # ?t" using d1 by (metis add.commute append_eq_conv_conj drop_drop)
    then show ?thesis by (simp add: drop_Suc_of)
  qed
  have "redis_multi_loop m L n (int (Suc p + length (dec_nat n) + 2)) 3 = Some NGX_OK"
    unfolding n_def by (rule multi_loop_ok [OF d2 [unfolded n_def]]) (use assms(2,3) in auto)
  moreover have "int32 (int n) = int n" using assms(4) by (simp add: n_def)
  ultimately show ?thesis
    using st assms(1) by (simp add: redis_proto_decode_def rd_drop redis_parse_multibulk_def algebra_simps)
qed

subsection \<open>The property\<close>

text \<open>
  C33: the filter of \<open>receive('*r')\<close> takes a command for complete as soon as the chunk reaches the length
  line of its last argument: whole commands are accepted, and so are commands whose last argument
  is cut short by up to all of its bytes.
\<close>

theorem read_redis_accepts:
  assumes "sock_ok s" "blast (cur s) = upos s"
    "unread s @ missing = encode rt (Multi (map Some (bs @ [b])))"
    "length missing \<le> length b + 3" "length (encode rt (Multi (map Some (bs @ [b])))) < 2 ^ 31"
  shows "\<exists>s'. read_redis ((), s) (length (unread s)) = Some (NGX_OK, (), s') \<and> sock_ok s' \<and>
    collected s' = collected s @ unread s \<and> unread s' = []"
proof -
  define front where "front = CHR ''*'' # dec_nat (Suc (length bs)) @ CR # LF #
      concat (map (\<lambda>a. encode_bulk (Some a)) bs) @ CHR ''$'' # dec_nat (length b) @ [CR]"
  have e: "encode rt (Multi (map Some (bs @ [b]))) = front @ LF # b @ [CR, LF]"
    by (simp add: front_def encode_bulk_def comp_def)
  have eq: "unread s @ missing = front @ LF # b @ [CR, LF]" using assms(3) unfolding e .
  have "length front \<le> length (unread s)" using arg_cong [OF eq, of length] assms(4) by simp
  then have "take (length front) (unread s) = front" using arg_cong [OF eq, of "take (length front)"] by simp
  then obtain r where u: "unread s = front @ r" by (metis append_take_drop_id)
  obtain x where "drop (upos s) (bm (cur s)) = unread s @ x" using unread_drop [OF assms(1)] by blast
  then have d: "drop (upos s) (bm (cur s)) = CHR ''*'' # dec_nat (Suc (length bs)) @ CR # LF #
      concat (map (\<lambda>a. encode_bulk (Some a)) bs) @ CHR ''$'' # dec_nat (length b) @ CR # (r @ x)"
    using u by (simp add: front_def)
  have "length (encode rt (Multi (map Some (bs @ [b])))) =
      3 + length (dec_nat (Suc (length bs))) + length (concat (map (\<lambda>a. encode_bulk (Some a)) bs)) + length (encode_bulk (Some b))"
    by (simp add: comp_def)
  then have small: "3 + length (concat (map (\<lambda>a. encode_bulk (Some a)) bs)) + length (encode_bulk (Some b)) < 2 ^ 31"
    using assms(5) by linarith
  have "length bs \<le> length (concat (map (\<lambda>a. encode_bulk (Some a)) bs))" by (induction bs) (auto simp: encode_bulk_length)
  then have n: "length bs < 2 ^ 31 - 1" using small by linarith
  have L: "3 + int (length (concat (map (\<lambda>a. encode_bulk (Some a)) bs))) \<le> int (length (unread s))" using u by (simp add: front_def)
  have "redis_proto_decode (bm (cur s)) (int (upos s)) (int (length (unread s))) = Some NGX_OK"
    by (rule decode_array [OF d L _ n]) (use small in simp)
  moreover have "unread s \<noteq> []" using u by (simp add: front_def)
  ultimately show ?thesis using read_redis_takes_all [OF assms(1,2)] by fastforce
qed

theorem read_redis_accepts_witness:
  "\<exists>s'. read_redis ((), demo_sock (''*1'' @ [CR, LF] @ ''$4'' @ [CR, LF] @ ''PI''))
       (length (''*1'' @ [CR, LF] @ ''$4'' @ [CR, LF] @ ''PI'')) = Some (NGX_OK, (), s') \<and>
     collected s' = ''*1'' @ [CR, LF] @ ''$4'' @ [CR, LF] @ ''PI''"
proof -
  let ?d = "''*1'' @ [CR, LF] @ ''$4'' @ [CR, LF] @ ''PI''"
  have one: "dec_nat (Suc 0) = ''1''" "dec_nat (Suc (Suc (Suc (Suc 0)))) = ''4''"
    using char_of_char [of "CHR ''1''"] char_of_char [of "CHR ''4''"] by (simp_all add: dec_nat.simps digit_char_def)
  have e: "unread (demo_sock ?d) @ ''NG'' @ [CR, LF] = encode demo_rt (Multi (map Some ([] @ [''PING''])))"
    by (simp add: encode_bulk_def one)
  show ?thesis
    using read_redis_accepts [of "demo_sock ?d" "''NG'' @ [CR, LF]" demo_rt "[]" "''PING''"] e
    by (auto simp: encode_bulk_def one)
qed

end
