(* ===== verification/Socket_Read.thy ===== *)
theory Socket_Read
  imports Socket_Redis
begin

section \<open>Reading from a TCP cosocket (ngx\_stream\_lua\_socket\_tcp.c)\<close>

text \<open>
  The read loop \<open>socket_tcp_read\<close> over an input filter, the Lua method \<open>receive\<close>, the read event handler and
  the values they return. What the kernel delivers is a script: each \<open>recv\<close> takes at most the room in the
  buffer from the script's head.
\<close>

subsection \<open>The read loop\<close>

text \<open>\<open>RecvData d ready\<close>: bytes and the event's \<open>ready\<close> flag afterwards; no bytes is the peer's close.\<close>

datatype recv_item = RecvData bytes bool | RecvAgain bool | RecvError bool

datatype recv_out = Got bytes | GotAgain | GotError

fun recv :: "nat \<Rightarrow> recv_item list \<Rightarrow> recv_out \<times> bool \<times> recv_item list" where
  "recv room [] = (GotAgain, False, [])"
| "recv room (RecvAgain ready # io) = (GotAgain, ready, io)"
| "recv room (RecvError ready # io) = (GotError, ready, io)"
| "recv room (RecvData d ready # io) =
     (if length d \<le> room then (Got d, ready, io) else (Got (take room d), True, RecvData (drop room d) ready # io))"

text \<open>The handlers at the end of a read; waking the waiting coroutine makes it take its values.\<close>

definition handle_read_success :: "rsock \<Rightarrow> rsock" where
  "handle_read_success s = s\<lparr>read_waiting := False\<rparr>"

definition handle_read_error :: "16 word \<Rightarrow> rsock \<Rightarrow> rsock" where
  "handle_read_error ft s = s\<lparr>ft_type := ft_type s OR ft, read_waiting := False\<rparr>"

text \<open>
  The \<open>for\<close> loop of \<open>socket_tcp_read\<close>; \<open>did_read\<close> is its local \<open>read\<close>. \<open>None\<close> is an access outside a buffer
  or a loop that does not end.
\<close>

partial_function (option) tcp_read_loop ::
  "senv \<Rightarrow> ('c \<times> rsock \<Rightarrow> nat \<Rightarrow> (ngx_rc \<times> 'c \<times> rsock) option) \<Rightarrow> bool \<Rightarrow> bool \<Rightarrow> recv_item list \<Rightarrow> 'c \<times> rsock
   \<Rightarrow> (ngx_rc \<times> recv_item list \<times> 'c \<times> rsock) option" where
  "tcp_read_loop env filt did_read ready io cs =
     (let c = fst cs; s = snd cs; bytes = ulast s - upos s
      in if bytes \<noteq> 0 \<or> eof s then
           (case filt cs bytes of
              None \<Rightarrow> None
            | Some (rc, c, s) \<Rightarrow>
                (if rc = NGX_OK then
                   (if handle_read_ok env then Some (NGX_OK, io, c, handle_read_success s)
                    else Some (NGX_ERROR, io, c, handle_read_error FT_ERROR s))
                 else if rc = NGX_ERROR then Some (NGX_ERROR, io, c, handle_read_error FT_ERROR s)
                 else tcp_read_loop env filt did_read ready io (c, s)))
         else if did_read \<and> \<not> ready then Some (NGX_AGAIN, io, c, s)
         else
           (let (rc, s) = (if length (bm (cur s)) - ulast s = 0 then add_input_buffer env s else (NGX_OK, s))
            in if rc = NGX_ERROR then Some (NGX_ERROR, io, c, handle_read_error FT_NOMEM s)
               else if rev_active env \<and> \<not> ready then Some (NGX_AGAIN, io, c, s)
               else
                 (case recv (length (bm (cur s)) - ulast s) io of
                    (GotAgain, ready, io) \<Rightarrow> Some (NGX_AGAIN, io, c, s)
                  | (GotError, ready, io) \<Rightarrow> Some (NGX_ERROR, io, c, handle_read_error FT_ERROR s)
                  | (Got d, ready, io) \<Rightarrow>
                      (if d = [] then
                         (if raw_downstream env \<and> check_client_abort env then
                            Some (NGX_ERROR, io, c, handle_read_error FT_CLIENTABORT s)
                          else tcp_read_loop env filt True ready io (c, s\<lparr>eof := True\<rparr>))
                       else tcp_read_loop env filt True ready io (c, received d s)))))"

definition socket_tcp_read ::
  "senv \<Rightarrow> ('c \<times> rsock \<Rightarrow> nat \<Rightarrow> (ngx_rc \<times> 'c \<times> rsock) option) \<Rightarrow> bool \<Rightarrow> recv_item list \<Rightarrow> 'c \<times> rsock
   \<Rightarrow> (ngx_rc \<times> recv_item list \<times> 'c \<times> rsock) option" where
  "socket_tcp_read env filt ready io cs =
     (case tcp_read_loop env filt False ready io cs of
        None \<Rightarrow> None
      | Some (rc, io, c, s) \<Rightarrow>
          (if rc = NGX_AGAIN \<and> \<not> handle_read_ok env then Some (NGX_ERROR, io, c, handle_read_error FT_ERROR s)
           else Some (rc, io, c, s)))"

subsection \<open>The read event handler\<close>

datatype read_event = ReadReady "recv_item list" | ReadTimeout

definition socket_read_handler ::
  "senv \<Rightarrow> ('c \<times> rsock \<Rightarrow> nat \<Rightarrow> (ngx_rc \<times> 'c \<times> rsock) option) \<Rightarrow> read_event \<Rightarrow> recv_item list \<Rightarrow> 'c \<times> rsock
   \<Rightarrow> (ngx_rc \<times> recv_item list \<times> 'c \<times> rsock) option" where
  "socket_read_handler env filt e io cs =
     (case e of
        ReadTimeout \<Rightarrow> Some (NGX_ERROR, io, fst cs, handle_read_error FT_TIMEOUT (snd cs))
      | ReadReady new \<Rightarrow>
          (if have_in (snd cs) then socket_tcp_read env filt True (io @ new) cs
           else Some (NGX_AGAIN, io @ new, cs)))"

text \<open>The events of a socket while a coroutine waits for a read; those after its end are left over.\<close>

fun read_events ::
  "senv \<Rightarrow> ('c \<times> rsock \<Rightarrow> nat \<Rightarrow> (ngx_rc \<times> 'c \<times> rsock) option) \<Rightarrow> read_event list \<Rightarrow> ngx_rc \<times> recv_item list \<times> 'c \<times> rsock
   \<Rightarrow> (ngx_rc \<times> recv_item list \<times> 'c \<times> rsock \<times> read_event list) option" where
  "read_events env filt [] (rc, io, c, s) = Some (rc, io, c, s, [])"
| "read_events env filt (e # es) (rc, io, c, s) =
     (if rc \<noteq> NGX_AGAIN then Some (rc, io, c, s, e # es)
      else case socket_read_handler env filt e io (c, s) of
             None \<Rightarrow> None
           | Some r \<Rightarrow> read_events env filt es r)"

subsection \<open>Return values\<close>

text \<open>\<open>strerror\<close> is the lower-case text of \<open>socket_errno\<close>, if set. For resolver and SSL failures the two
  values are on the stack already.\<close>

definition prepare_error_retvals :: "bytes option \<Rightarrow> 16 word \<Rightarrow> lua_value list" where
  "prepare_error_retvals strerror ft =
     (if ft AND (FT_RESOLVER OR FT_SSL) \<noteq> 0 then []
      else
        [LNil, LString
          (if ft AND FT_TIMEOUT \<noteq> 0 then ''timeout''
           else if ft AND FT_CLOSED \<noteq> 0 then ''closed''
           else if ft AND FT_BUFTOOSMALL \<noteq> 0 then ''buffer too small''
           else if ft AND FT_NOMEM \<noteq> 0 then ''no memory''
           else if ft AND FT_CLIENTABORT \<noteq> 0 then ''client aborted''
           else case strerror of Some msg \<Rightarrow> msg | None \<Rightarrow> ''error'')])"

definition read_error_retval_handler :: "bytes option \<Rightarrow> rsock \<Rightarrow> lua_value list \<times> rsock" where
  "read_error_retval_handler strerror s =
     (let ft = ft_type s;
          s = s\<lparr>ft_type := 0\<rparr>;
          s = (if no_close s then s\<lparr>no_close := False\<rparr> else finalize_read_part s)
      in (prepare_error_retvals strerror ft, s))"

definition receive_retval_handler :: "senv \<Rightarrow> bytes option \<Rightarrow> rsock \<Rightarrow> lua_value list \<times> rsock" where
  "receive_retval_handler env strerror s =
     (if raw_downstream env \<and> check_client_abort env \<and> \<not> downstream_event_ok env then
        ([LNil, LString ''failed to add event''], s)
      else if ft_type s \<noteq> 0 then
        (let s = (if ft_type s AND FT_TIMEOUT \<noteq> 0 then s\<lparr>no_close := True\<rparr> else s)
         in if have_in s then
              (let (d, s) = push_input_data s; (vs, s) = read_error_retval_handler strerror s
               in (vs @ [LString d], s))
            else
              (let (vs, s) = read_error_retval_handler strerror s in (vs @ [LString []], s)))
      else (let (d, s) = push_input_data s in ([LString d], s)))"

subsection \<open>The method receive\<close>

text \<open>The pattern argument selects the filter: \<open>Inl\<close> is an error raised, a number of bytes is \<open>PChunk\<close>.
  \<open>toint\<close> is \<open>lua_tointeger\<close>.\<close>

datatype recv_pattern = PRedis | PLine | PAll | PChunk nat | PEmpty

definition pattern_of :: "lua_rt \<Rightarrow> (lua_number \<Rightarrow> int) \<Rightarrow> lua_value list \<Rightarrow> string + recv_pattern" where
  "pattern_of rt toint args =
     (case args of
        [] \<Rightarrow> Inr PLine
      | v # _ \<Rightarrow>
          (case check_number rt v of
             Some x \<Rightarrow>
               (if toint x < 0 then Inl ''bad pattern argument''
                else if toint x = 0 then Inr PEmpty
                else Inr (PChunk (nat (toint x))))
           | None \<Rightarrow>
               (case v of
                  LString pat \<Rightarrow>
                    (if length pat \<noteq> 2 \<or> pat ! 0 \<noteq> CHR ''*'' then Inl ''bad pattern argument: %s''
                     else if pat ! 1 = CHR ''r'' then Inr PRedis
                     else if pat ! 1 = CHR ''l'' then Inr PLine
                     else if pat ! 1 = CHR ''a'' then Inr PAll
                     else Inl ''bad pattern argument'')
                | _ \<Rightarrow> Inl ''bad pattern argument'')))"

definition filter_of :: "recv_pattern \<Rightarrow> unit \<times> rsock \<Rightarrow> nat \<Rightarrow> (ngx_rc \<times> unit \<times> rsock) option" where
  "filter_of pat =
     (case pat of PRedis \<Rightarrow> read_redis | PLine \<Rightarrow> read_line | PAll \<Rightarrow> read_all | _ \<Rightarrow> read_chunk)"

datatype call_result = CallRet "lua_value list" | CallErr string | CallYield

text \<open>The common end of \<open>receive\<close> and the \<open>receiveuntil\<close> iterator: the first buffer, the read, and the
  values or the yield.\<close>

definition ensure_bufs :: "senv \<Rightarrow> rsock \<Rightarrow> bool \<times> rsock" where
  "ensure_bufs env s =
     (if have_in s then (True, s)
      else case chain_get_free_buf env (buffer_size env) s of
             (None, s) \<Rightarrow> (False, s)
           | (Some b, s) \<Rightarrow>
               (True, s\<lparr>chain := [], cur := b, have_in := True, upos := bpos b, ulast := blast b\<rparr>))"

definition start_read ::
  "senv \<Rightarrow> bytes option \<Rightarrow> ('c \<times> rsock \<Rightarrow> nat \<Rightarrow> (ngx_rc \<times> 'c \<times> rsock) option) \<Rightarrow> bool \<Rightarrow> recv_item list \<Rightarrow> 'c \<times> rsock
   \<Rightarrow> (call_result \<times> recv_item list \<times> 'c \<times> rsock) option" where
  "start_read env strerror filt ready io cs =
     (case ensure_bufs env (snd cs) of
        (False, s) \<Rightarrow> Some (CallErr ''no memory'', io, fst cs, s)
      | (True, s) \<Rightarrow>
          (case socket_tcp_read env filt ready io (fst cs, s\<lparr>read_waiting := False\<rparr>) of
             None \<Rightarrow> None
           | Some (rc, io, c, s) \<Rightarrow>
               (if rc = NGX_AGAIN then Some (CallYield, io, c, s\<lparr>read_waiting := True\<rparr>)
                else (let (vs, s) = receive_retval_handler env strerror s in Some (CallRet vs, io, c, s)))))"

text \<open>A call that yielded goes on with the events of the socket, and takes its values when the read is over.\<close>

definition await_read ::
  "senv \<Rightarrow> bytes option \<Rightarrow> ('c \<times> rsock \<Rightarrow> nat \<Rightarrow> (ngx_rc \<times> 'c \<times> rsock) option) \<Rightarrow> read_event list
   \<Rightarrow> call_result \<times> recv_item list \<times> 'c \<times> rsock \<Rightarrow> (call_result \<times> recv_item list \<times> 'c \<times> rsock \<times> read_event list) option" where
  "await_read env strerror filt es = (\<lambda>(call, io, c, s).
     if call \<noteq> CallYield then Some (call, io, c, s, es)
     else case read_events env filt es (NGX_AGAIN, io, c, s) of
            None \<Rightarrow> None
          | Some (rc, io, c, s, es) \<Rightarrow>
              (if rc = NGX_AGAIN then Some (CallYield, io, c, s, es)
               else (let (vs, s) = receive_retval_handler env strerror s in Some (CallRet vs, io, c, s, es))))"

text \<open>What a method checks of the caller: a running session, a connection, the session that owns it, and
  that it is not connecting.\<close>

record call_ctx =
  has_session :: bool
  connected :: bool
  own_request :: bool
  conn_waiting :: bool

definition tcp_receive ::
  "lua_rt \<Rightarrow> (lua_number \<Rightarrow> int) \<Rightarrow> senv \<Rightarrow> call_ctx \<Rightarrow> bytes option
   \<Rightarrow> lua_value list \<Rightarrow> bool \<Rightarrow> recv_item list \<Rightarrow> rsock
   \<Rightarrow> (call_result \<times> recv_item list \<times> unit \<times> rsock) option" where
  "tcp_receive rt toint env ctx strerror args ready io s =
     (if length args > 1 then Some (CallErr ''expecting 1 or 2 arguments (including the object), but got %d'', io, (), s)
      else if \<not> has_session ctx then Some (CallErr ''no request found'', io, (), s)
      else if \<not> connected ctx \<or> read_closed s then Some (CallRet [LNil, LString ''closed''], io, (), s)
      else if \<not> own_request ctx then Some (CallErr ''bad request'', io, (), s)
      else if conn_waiting ctx then Some (CallRet [LNil, LString ''socket busy connecting''], io, (), s)
      else if read_waiting s then Some (CallRet [LNil, LString ''socket busy reading''], io, (), s)
      else case pattern_of rt toint args of
             Inl e \<Rightarrow> Some (CallErr e, io, (), s)
           | Inr PEmpty \<Rightarrow> Some (CallRet [LString []], io, (), s)
           | Inr pat \<Rightarrow>
               (let n = (case pat of PChunk n \<Rightarrow> n | _ \<Rightarrow> 0)
                in start_read env strerror (filter_of pat) ready io ((), s\<lparr>rlen := n, rest := n\<rparr>)))"

subsection \<open>What a filter promises\<close>

text \<open>The bytes a script still delivers.\<close>

fun io_data :: "recv_item list \<Rightarrow> bytes" where
  "io_data [] = []"
| "io_data (RecvData d _ # io) = d @ io_data io"
| "io_data (_ # io) = io_data io"

fun io_size :: "recv_item list \<Rightarrow> nat" where
  "io_size [] = 0"
| "io_size (RecvData d _ # io) = Suc (length d) + io_size io"
| "io_size (_ # io) = Suc (io_size io)"

text \<open>An error or the peer's close.\<close>

fun fatal :: "recv_item \<Rightarrow> bool" where
  "fatal (RecvData d _) \<longleftrightarrow> d = []"
| "fatal (RecvError _) \<longleftrightarrow> True"
| "fatal (RecvAgain _) \<longleftrightarrow> False"

text \<open>A script that only delivers bytes, with more to read after each.\<close>

fun ready_io :: "recv_item list \<Rightarrow> bool" where
  "ready_io [] = True"
| "ready_io (RecvData d ready # io) \<longleftrightarrow> d \<noteq> [] \<and> ready \<and> ready_io io"
| "ready_io (_ # io) \<longleftrightarrow> False"

text \<open>The scripts of a list of events.\<close>

fun evs_io :: "read_event list \<Rightarrow> recv_item list" where
  "evs_io [] = []"
| "evs_io (ReadReady io # es) = io @ evs_io es"
| "evs_io (ReadTimeout # es) = evs_io es"

lemma io_data_append [simp]: "io_data (xs @ ys) = io_data xs @ io_data ys"
  by (induction xs rule: io_data.induct) auto

lemma ready_io_append [simp]: "ready_io (xs @ ys) \<longleftrightarrow> ready_io xs \<and> ready_io ys"
  by (induction xs rule: ready_io.induct) auto

lemma read_events_again: "read_events env filt es r = Some (NGX_AGAIN, io', c', s', es') \<Longrightarrow> es' = []"
  by (induction es r rule: read_events.induct) (auto split: option.splits if_splits)

lemma read_events_done: "rc \<noteq> NGX_AGAIN \<Longrightarrow> read_events env filt es (rc, io, c, s) = Some (rc, io, c, s, es)"
  by (cases es) auto

text \<open>A socket between two reads, and the bytes it holds.\<close>

definition idle :: "rsock \<Rightarrow> bool" where
  "idle s \<longleftrightarrow> ft_type s = 0 \<and> \<not> eof s \<and> \<not> read_closed s \<and> \<not> read_waiting s \<and>
     (have_in s \<longrightarrow> sock_ok s \<and> chain s = [] \<and> bpos (cur s) = upos s \<and> blast (cur s) = upos s)"

definition calm :: "rsock \<Rightarrow> bool" where
  "calm s \<longleftrightarrow> ft_type s = 0 \<and> \<not> eof s \<and> \<not> read_closed s"

definition pending :: "rsock \<Rightarrow> bytes" where
  "pending s = (if have_in s then unread s else [])"

lemma push_input_data_ok:
  assumes "sock_ok s" "push_input_data s = (d, s')"
  shows "d = collected s" "sock_ok s'" "unread s' = unread s" "chain s' = []" "bpos (cur s') = upos s'"
    "blast (cur s') = upos s'" "eof s' = eof s" "ft_type s' = ft_type s" "read_closed s' = read_closed s"
    "read_waiting s' = read_waiting s" "have_in s'"
  using assms by (auto simp: push_input_data_def collected_def sock_ok_def unread_def Let_def split: if_splits)

lemma ensure_bufs_ok:
  assumes "idle s" "env_ok env" "ensure_bufs env s = (ok, s')"
  shows "ok \<and> idle s' \<and> have_in s' \<and> sock_ok s' \<and> unread s' = pending s \<and> collected s' = [] \<and>
      rlen s' = rlen s \<and> rest s' = rest s
    \<or> \<not> ok \<and> (\<exists>k n. palloc env k n = None)"
proof (cases "have_in s")
  case True
  then show ?thesis
    using assms by (auto simp: ensure_bufs_def idle_def pending_def collected_def content_def)
next
  case False
  obtain r s1 where g: "chain_get_free_buf env (buffer_size env) s = (r, s1)" by fastforce
  have size: "0 < buffer_size env" using assms(2) by (simp add: env_ok_def)
  obtain f n where s1: "s1 = s\<lparr>free_bufs := f, n_alloc := n\<rparr>" using chain_get_free_buf_frame [OF g size] by blast
  show ?thesis
  proof (cases r)
    case None
    then show ?thesis using assms(3) False g chain_get_free_buf_none by (auto simp: ensure_bufs_def)
  next
    case (Some b)
    note b = chain_get_free_buf_ok [OF assms(2) size g [unfolded Some]]
    show ?thesis
      using assms(1,3) False g Some b
      by (auto simp: ensure_bufs_def s1 idle_def sock_ok_def unread_def pending_def collected_def content_def)
  qed
qed

text \<open>
  \<open>going w cs\<close>: the filter has read the text \<open>w\<close> in this call and needs more; \<open>fin w cs\<close>: it has read
  \<open>w\<close> and is done, with the result \<open>res w\<close>; \<open>fin_eof w cs\<close>: it is done at the peer's close. On the bytes at hand it is done after some
  of them or takes all of them. It may fail on them only if \<open>may_fail\<close>. Receiving bytes, adding a
  buffer and the peer's close do not concern it.
\<close>

locale input_filter =
  fixes env :: senv
    and filt :: "'c \<times> rsock \<Rightarrow> nat \<Rightarrow> (ngx_rc \<times> 'c \<times> rsock) option"
    and going :: "bytes \<Rightarrow> 'c \<times> rsock \<Rightarrow> bool"
    and fin :: "bytes \<Rightarrow> 'c \<times> rsock \<Rightarrow> bool"
    and fin_eof :: "bytes \<Rightarrow> 'c \<times> rsock \<Rightarrow> bool"
    and res :: "bytes \<Rightarrow> bytes"
    and may_fail :: bool
  assumes filt_data: "env_ok env \<Longrightarrow> going w (c, s) \<Longrightarrow> sock_ok s \<Longrightarrow> unread s \<noteq> [] \<Longrightarrow>
      \<exists>rc c' s'. filt (c, s) (length (unread s)) = Some (rc, c', s') \<and>
        (rc = NGX_AGAIN \<and> sock_ok s' \<and> unread s' = [] \<and> going (w @ unread s) (c', s')
         \<or> rc = NGX_OK \<and> (\<exists>d. unread s = d @ unread s' \<and> fin (w @ d) (c', s'))
         \<or> rc = NGX_ERROR \<and> may_fail)"
    and filt_eof: "going w (c, s) \<Longrightarrow> sock_ok s \<Longrightarrow> unread s = [] \<Longrightarrow>
      \<exists>rc c' s'. filt (c, s\<lparr>eof := True\<rparr>) 0 = Some (rc, c', s') \<and> (rc = NGX_OK \<and> fin_eof w (c', s') \<and> unread s' = [] \<or> rc = NGX_ERROR)"
    and going_received: "going w (c, s) \<Longrightarrow> sock_ok s \<Longrightarrow> ulast s + length d \<le> length (bm (cur s)) \<Longrightarrow> going w (c, received d s)"
    and going_buffer: "env_ok env \<Longrightarrow> going w (c, s) \<Longrightarrow> sock_ok s \<Longrightarrow> unread s = [] \<Longrightarrow> add_input_buffer env s = (NGX_OK, s') \<Longrightarrow> going w (c, s')"
    and going_calm: "going w (c, s) \<Longrightarrow> calm s"
    and going_flags: "going w (c, s) \<Longrightarrow> going w (c, s\<lparr>read_waiting := b\<rparr>)"
    and fin_res: "fin w (c, s) \<Longrightarrow> sock_ok s \<and> calm s \<and> collected s = res w"
    and fin_flags: "fin w (c, s) \<Longrightarrow> fin w (c, s\<lparr>read_waiting := False\<rparr>)"
    and fin_eof_flags: "fin_eof w (c, s) \<Longrightarrow> fin_eof w (c, s\<lparr>read_waiting := False\<rparr>)"
begin

text \<open>What can make a read fail.\<close>

definition trouble :: "recv_item list \<Rightarrow> bool" where
  "trouble io \<longleftrightarrow> may_fail \<or> \<not> handle_read_ok env \<or> (\<exists>k n. palloc env k n = None) \<or>
     (\<exists>x \<in> set io. fatal x)"

text \<open>The outcome of a read after \<open>w\<close>, with \<open>d\<close> to come; a \<open>live\<close> one takes all there is.\<close>

definition outcome :: "bytes \<Rightarrow> bytes \<Rightarrow> bool \<Rightarrow> bool \<Rightarrow> ngx_rc \<times> recv_item list \<times> 'c \<times> rsock \<Rightarrow> bool" where
  "outcome w d bad live r = (case r of (rc, io, c, s) \<Rightarrow>
     (rc = NGX_OK \<and> (\<exists>w'. (fin w' (c, s) \<or> fin_eof w' (c, s) \<and> bad) \<and> \<not> read_waiting s \<and> w @ d = w' @ unread s @ io_data io)
      \<or> rc = NGX_AGAIN \<and> sock_ok s \<and> unread s = [] \<and> \<not> eof s \<and> (\<exists>w'. going w' (c, s) \<and> w @ d = w' @ io_data io) \<and>
         (live \<longrightarrow> io = []) \<and> (trouble io \<longrightarrow> bad)
      \<or> rc = NGX_ERROR \<and> bad))"

lemma unread_flags [simp]:
  "unread (handle_read_success s) = unread s" "unread (handle_read_error ft s) = unread s"
  by (simp_all add: unread_def handle_read_success_def handle_read_error_def)

lemma loop_eof:
  assumes "going w (c, s)" "sock_ok s" "unread s = []" "bad"
  shows "\<exists>r. tcp_read_loop env filt dr ready io (c, s\<lparr>eof := True\<rparr>) = Some r \<and> outcome w (io_data io) bad live r"
proof -
  obtain rc c' s' where f: "filt (c, s\<lparr>eof := True\<rparr>) 0 = Some (rc, c', s')"
    "rc = NGX_OK \<and> fin_eof w (c', s') \<and> unread s' = [] \<or> rc = NGX_ERROR"
    using filt_eof [OF assms(1-3)] by blast
  have z: "ulast s = upos s" using assms sock_ok_unread_Nil by simp
  show ?thesis
    using f assms(4) fin_eof_flags
    by (subst tcp_read_loop.simps) (auto simp: z outcome_def handle_read_success_def unread_def)
qed

lemma loop_data:
  assumes "env_ok env" "going w (c, s)" "sock_ok s" "unread s \<noteq> []" "\<not> eof s" "may_fail \<or> \<not> handle_read_ok env \<longrightarrow> bad"
    and next_round: "\<And>c' s'. going (w @ unread s) (c', s') \<Longrightarrow> sock_ok s' \<Longrightarrow> unread s' = [] \<Longrightarrow> \<not> eof s' \<Longrightarrow>
      \<exists>r. tcp_read_loop env filt dr ready io (c', s') = Some r \<and> outcome (w @ unread s) (io_data io) bad live r"
  shows "\<exists>r. tcp_read_loop env filt dr ready io (c, s) = Some r \<and> outcome w (unread s @ io_data io) bad live r"
proof -
  obtain rc c' s' where f: "filt (c, s) (length (unread s)) = Some (rc, c', s')"
    and cases: "rc = NGX_AGAIN \<and> sock_ok s' \<and> unread s' = [] \<and> going (w @ unread s) (c', s')
       \<or> rc = NGX_OK \<and> (\<exists>d. unread s = d @ unread s' \<and> fin (w @ d) (c', s')) \<or> rc = NGX_ERROR \<and> may_fail"
    using filt_data [OF assms(1-4)] by blast
  have z: "ulast s - upos s = length (unread s)" "upos s < ulast s"
    using unread_length [OF assms(3)] assms(4) by (simp, metis length_0_conv not_less diff_is_0_eq)
  have step: "tcp_read_loop env filt dr ready io (c, s) =
    (if rc = NGX_OK then
       (if handle_read_ok env then Some (NGX_OK, io, c', handle_read_success s')
        else Some (NGX_ERROR, io, c', handle_read_error FT_ERROR s'))
     else if rc = NGX_ERROR then Some (NGX_ERROR, io, c', handle_read_error FT_ERROR s')
     else tcp_read_loop env filt dr ready io (c', s'))"
    using f(1) by (subst tcp_read_loop.simps) (simp add: z)
  from cases show ?thesis
  proof (elim disjE conjE exE)
    assume "rc = NGX_AGAIN" "sock_ok s'" "unread s' = []" "going (w @ unread s) (c', s')"
    with next_round [of c' s'] going_calm obtain r where
      "tcp_read_loop env filt dr ready io (c', s') = Some r" "outcome (w @ unread s) (io_data io) bad live r" unfolding calm_def by blast
    then show ?thesis using \<open>rc = NGX_AGAIN\<close> by (auto simp: step outcome_def)
  next
    fix d
    assume d: "rc = NGX_OK" "unread s = d @ unread s'" "fin (w @ d) (c', s')"
    then show ?thesis
      using assms(6) fin_flags [OF d(3)]
      by (auto simp: step outcome_def handle_read_success_def unread_def)
  next
    assume "rc = NGX_ERROR" "may_fail"
    then show ?thesis using assms(6) unfolding step outcome_def by simp
  qed
qed

lemma outcome_mono: "outcome w d bad live r \<Longrightarrow> (bad \<longrightarrow> bad') \<Longrightarrow> (live' \<longrightarrow> live) \<Longrightarrow> outcome w d bad' live' r"
  by (auto simp: outcome_def split: prod.splits)

text \<open>One round of \<open>recv\<close>: what it leaves of the script.\<close>

lemma recv_cases:
  assumes "recv room io = (r, ready, io')" "0 < room"
  shows "(r = GotAgain \<longrightarrow> io_data io' = io_data io \<and> (ready_io io \<longrightarrow> io' = []) \<and> (trouble io' \<longrightarrow> trouble io)) \<and> (r = GotError \<longrightarrow> trouble io) \<and>
    (\<forall>d. r = Got d \<longrightarrow> length d \<le> room \<and> io_data io = d @ io_data io' \<and> io_size io' < io_size io \<and>
       (ready_io io \<longrightarrow> ready \<and> ready_io io') \<and> (d = [] \<or> trouble io' \<longrightarrow> trouble io))"
proof (cases io)
  case Nil
  then show ?thesis using assms by auto
next
  case (Cons x io2)
  then show ?thesis using assms by (cases x) (auto simp: trouble_def split: if_splits)
qed

text \<open>The buffer to receive into.\<close>

lemma next_buffer:
  assumes "env_ok env" "going w (c, s)" "sock_ok s" "unread s = []"
    "(if length (bm (cur s)) - ulast s = 0 then add_input_buffer env s else (NGX_OK, s)) = (rc, s')"
  shows "rc = NGX_ERROR \<and> trouble io
    \<or> rc = NGX_OK \<and> going w (c, s') \<and> sock_ok s' \<and> unread s' = [] \<and> eof s' = eof s \<and> ulast s' < length (bm (cur s'))"
proof (cases "length (bm (cur s)) - ulast s = 0")
  case True
  then have a: "add_input_buffer env s = (rc, s')" using assms(5) by simp
  show ?thesis
  proof (cases "rc = NGX_OK")
    case True
    then have a': "add_input_buffer env s = (NGX_OK, s')" using a by simp
    note b = add_input_buffer_ok [OF assms(1,3,4) a']
    have "eof s' = eof s" using b(8) by auto
    then show ?thesis using True going_buffer [OF assms(1-4) a'] b by simp
  next
    case False
    then have "rc = NGX_ERROR" "\<exists>s1. chain_get_free_buf env (buffer_size env) s = (None, s1)"
      using a by (auto simp: add_input_buffer_def split: prod.splits option.splits)
    then show ?thesis using chain_get_free_buf_none by (auto simp: trouble_def)
  qed
next
  case False
  then show ?thesis using assms by auto
qed

lemma loop_ok:
  assumes "env_ok env" "going w (c, s)" "sock_ok s" "unread s = []" "\<not> eof s"
  shows "\<exists>r. tcp_read_loop env filt dr ready io (c, s) = Some r \<and> outcome w (io_data io) (trouble io) (ready \<and> ready_io io) r"
  using assms(2-)
proof (induction "io_size io" arbitrary: w c s dr ready io rule: less_induct)
  case less
  have z: "ulast s = upos s" using less.prems(2,3) sock_ok_unread_Nil by simp
  obtain rc s1 where nb: "(if length (bm (cur s)) - ulast s = 0 then add_input_buffer env s else (NGX_OK, s)) = (rc, s1)"
    by fastforce
  obtain r ready' io' where rv: "recv (length (bm (cur s1)) - ulast s1) io = (r, ready', io')"
    using prod_cases3 by blast
  show ?case
  proof (cases "dr \<and> \<not> ready")
    case True
    then show ?thesis using less.prems by (subst tcp_read_loop.simps) (auto simp: z outcome_def)
  next
    case False
    note F = False
    from next_buffer [OF assms(1) less.prems(1-3) nb, of io] show ?thesis
    proof (elim disjE conjE)
      assume "rc = NGX_ERROR" "trouble io"
      then show ?thesis using F less.prems(4) nb by (subst tcp_read_loop.simps) (auto simp: z outcome_def)
    next
      assume s1: "rc = NGX_OK" "going w (c, s1)" "sock_ok s1" "unread s1 = []" "eof s1 = eof s" "ulast s1 < length (bm (cur s1))"
      have room: "0 < length (bm (cur s1)) - ulast s1" using s1 by simp
      note rc = recv_cases [OF rv room]
      have step: "tcp_read_loop env filt dr ready io (c, s) =
        (if rev_active env \<and> \<not> ready then Some (NGX_AGAIN, io, c, s1)
         else case (r, ready', io') of
                (GotAgain, ready, io) \<Rightarrow> Some (NGX_AGAIN, io, c, s1)
              | (GotError, ready, io) \<Rightarrow> Some (NGX_ERROR, io, c, handle_read_error FT_ERROR s1)
              | (Got d, ready, io) \<Rightarrow>
                  (if d = [] then
                     (if raw_downstream env \<and> check_client_abort env then
                        Some (NGX_ERROR, io, c, handle_read_error FT_CLIENTABORT s1)
                      else tcp_read_loop env filt True ready io (c, s1\<lparr>eof := True\<rparr>))
                   else tcp_read_loop env filt True ready io (c, received d s1)))"
        using F less.prems(4) nb rv s1(1) by (subst tcp_read_loop.simps) (simp add: z)
      show ?thesis
      proof (cases "rev_active env \<and> \<not> ready \<or> r = GotAgain \<or> r = GotError")
        case True
        then show ?thesis using s1 rc less.prems(4) by (auto simp: step outcome_def split: recv_out.splits)
      next
        case False
        then obtain d where d: "r = Got d" by (cases r) auto
        note g = rc [THEN conjunct2, THEN conjunct2, rule_format, OF d]
        show ?thesis
        proof (cases "d = []")
          case True
          then have t: "trouble io" using g by simp
          have "\<exists>r. tcp_read_loop env filt True ready' io' (c, s1\<lparr>eof := True\<rparr>) = Some r \<and> outcome w (io_data io') (trouble io) (ready \<and> ready_io io) r"
            by (rule loop_eof [OF s1(2-4) t])
          then show ?thesis using True g t False d by (auto simp: step outcome_def)
        next
          case nonempty: False
          have fits: "ulast s1 + length d \<le> length (bm (cur s1))" using g s1 by auto
          note rd = received_ok [OF s1(3) fits]
          have u: "unread (received d s1) = d" using rd(2) s1(4) by simp
          have "\<exists>r. tcp_read_loop env filt True ready' io' (c, received d s1) = Some r \<and>
              outcome w (unread (received d s1) @ io_data io') (trouble io) (ready \<and> ready_io io) r"
          proof (rule loop_data [OF assms(1) going_received [OF s1(2,3) fits] rd(1)])
            fix c' s'
            assume "going (w @ unread (received d s1)) (c', s')" "sock_ok s'" "unread s' = []" "\<not> eof s'"
            from less.hyps [OF _ this, of io' True ready'] g obtain r where
              "tcp_read_loop env filt True ready' io' (c', s') = Some r"
              "outcome (w @ unread (received d s1)) (io_data io') (trouble io') (ready' \<and> ready_io io') r" by blast
            then show "\<exists>r. tcp_read_loop env filt True ready' io' (c', s') = Some r \<and>
                outcome (w @ unread (received d s1)) (io_data io') (trouble io) (ready \<and> ready_io io) r"
              using g outcome_mono [of "w @ unread (received d s1)" "io_data io'" "trouble io'" "ready' \<and> ready_io io'" r
                  "trouble io" "ready \<and> ready_io io"] by simp
          qed (use u nonempty s1 less.prems(4) in \<open>auto simp: received_def trouble_def\<close>)
          then show ?thesis using nonempty g u False d by (auto simp: step)
        qed
      qed
    qed
  qed
qed

lemma read_ok:
  assumes "env_ok env" "going w (c, s)" "sock_ok s" "\<not> eof s"
  shows "\<exists>r. socket_tcp_read env filt ready io (c, s) = Some r \<and>
    outcome w (unread s @ io_data io) (trouble io) (ready \<and> ready_io io) r"
proof -
  have "\<exists>r. tcp_read_loop env filt False ready io (c, s) = Some r \<and>
      outcome w (unread s @ io_data io) (trouble io) (ready \<and> ready_io io) r"
  proof (cases "unread s = []")
    case True
    then show ?thesis using loop_ok [OF assms(1,2,3) True assms(4)] by simp
  next
    case False
    show ?thesis
      by (rule loop_data [OF assms(1-3) False assms(4)]) (use loop_ok [OF assms(1)] in \<open>auto simp: trouble_def\<close>)
  qed
  then obtain rc io' c' s' where r: "tcp_read_loop env filt False ready io (c, s) = Some (rc, io', c', s')"
    "outcome w (unread s @ io_data io) (trouble io) (ready \<and> ready_io io) (rc, io', c', s')" by (metis prod_cases4)
  show ?thesis
  proof (cases "rc = NGX_AGAIN \<and> \<not> handle_read_ok env")
    case True
    then have "trouble io" unfolding trouble_def by blast
    then show ?thesis using r(1) True unfolding socket_tcp_read_def outcome_def by simp
  next
    case False
    then show ?thesis using r unfolding socket_tcp_read_def by auto
  qed
qed

text \<open>A read that goes on over several events.\<close>

lemma trouble_append: "trouble (xs @ ys) \<longleftrightarrow> trouble xs \<or> trouble ys"
  unfolding trouble_def by auto

lemma outcome_shift: "outcome w d bad live r \<Longrightarrow> w @ d = w' @ d' \<Longrightarrow> outcome w' d' bad live r"
  unfolding outcome_def by auto

lemma outcome_extend:
  "outcome w d bad live (rc, io, c, s) \<Longrightarrow> rc \<noteq> NGX_AGAIN \<Longrightarrow> outcome w (d @ io_data ys) bad live (rc, io @ ys, c, s)"
  unfolding outcome_def by auto

lemma events_ok:
  assumes "env_ok env" "outcome w d bad live (rc, io, c, s)"
  shows "\<exists>rc' io' c' s' es'. read_events env filt es (rc, io, c, s) = Some (rc', io', c', s', es') \<and>
    outcome w (d @ io_data (evs_io es)) (bad \<or> trouble (evs_io es) \<or> ReadTimeout \<in> set es) (live \<and> ready_io (evs_io es))
      (rc', io' @ evs_io es', c', s')"
  using assms(2)
proof (induction es arbitrary: w d bad live rc io c s)
  case Nil
  then show ?case using outcome_mono [OF Nil] by simp
next
  case (Cons e es)
  let ?bad = "bad \<or> trouble (evs_io (e # es)) \<or> ReadTimeout \<in> set (e # es)" and ?live = "live \<and> ready_io (evs_io (e # es))"
  show ?case
  proof (cases "rc = NGX_AGAIN")
    case False
    have "outcome w (d @ io_data (evs_io (e # es))) ?bad ?live (rc, io @ evs_io (e # es), c, s)"
      by (rule outcome_mono [OF outcome_extend [OF Cons.prems False]]) blast+
    then show ?thesis unfolding read_events_done [OF False] by blast
  next
    case True
    from Cons.prems True obtain w' where w': "going w' (c, s)" "w @ d = w' @ io_data io" "sock_ok s" "unread s = []" "\<not> eof s"
      "live \<longrightarrow> io = []" "trouble io \<longrightarrow> bad" unfolding outcome_def by auto
    show ?thesis
    proof (cases e)
      case ReadTimeout
      have "outcome w (d @ io_data (evs_io (e # es))) ?bad ?live (NGX_ERROR, io @ evs_io es, c, handle_read_error FT_TIMEOUT s)"
        unfolding outcome_def ReadTimeout by simp
      then show ?thesis
        using True ReadTimeout read_events_done [of NGX_ERROR env filt es] by (auto simp: socket_read_handler_def)
    next
      case (ReadReady new)
      have h: "have_in s" using w'(3) by (simp add: sock_ok_def)
      obtain r where r: "socket_tcp_read env filt True (io @ new) (c, s) = Some r"
        "outcome w' (unread s @ io_data (io @ new)) (trouble (io @ new)) (True \<and> ready_io (io @ new)) r"
        using read_ok [OF assms(1) w'(1,3,5), of True "io @ new"] by blast
      obtain rc1 io1 c1 s1 where r1: "r = (rc1, io1, c1, s1)" by (metis prod_cases4)
      obtain rc2 io2 c2 s2 es2 where r2: "read_events env filt es r = Some (rc2, io2, c2, s2, es2)"
        "outcome w' ((unread s @ io_data (io @ new)) @ io_data (evs_io es))
           (trouble (io @ new) \<or> trouble (evs_io es) \<or> ReadTimeout \<in> set es)
           ((True \<and> ready_io (io @ new)) \<and> ready_io (evs_io es)) (rc2, io2 @ evs_io es2, c2, s2)"
        using Cons.IH [OF r(2) [unfolded r1]] unfolding r1 by blast
      have "outcome w (d @ io_data (evs_io (e # es))) ?bad ?live (rc2, io2 @ evs_io es2, c2, s2)"
      proof (rule outcome_shift, rule outcome_mono [OF r2(2)])
        show "w' @ ((unread s @ io_data (io @ new)) @ io_data (evs_io es)) = w @ d @ io_data (evs_io (e # es))"
          using w'(2,4) ReadReady by simp
      qed (use w'(6,7) ReadReady trouble_append in auto)
      then show ?thesis using True ReadReady h r(1) r2(1) by (auto simp: socket_read_handler_def)
    qed
  qed
qed

text \<open>A whole call: the read, its events and the values returned.\<close>

lemma retval_fin:
  assumes "fin w (c, s)" "\<not> (raw_downstream env \<and> check_client_abort env \<and> \<not> downstream_event_ok env)"
    "receive_retval_handler env strerror s = (vs, s')" "\<not> read_waiting s"
  shows "vs = [LString (res w)] \<and> idle s' \<and> pending s' = unread s"
proof -
  obtain d s1 where p: "push_input_data s = (d, s1)" by fastforce
  note f = fin_res [OF assms(1)]
  note q = push_input_data_ok [OF conjunct1 [OF f] p]
  have "vs = [LString d]" "s' = s1" using assms(2,3) f p by (auto simp: receive_retval_handler_def calm_def)
  then show ?thesis using q f assms(4) by (simp add: idle_def pending_def calm_def)
qed

definition answer :: "bytes \<Rightarrow> bool \<Rightarrow> bool \<Rightarrow> call_result \<times> recv_item list \<times> 'c \<times> rsock \<times> read_event list \<Rightarrow> bool" where
  "answer d bad live r = (case r of (call, io, c, s, es) \<Rightarrow>
     (\<exists>w s1. call = CallRet [LString (res w)] \<and> fin w (c, s1) \<and> idle s \<and> d = w @ pending s @ io_data (io @ evs_io es))
     \<or> (\<exists>w s1. call = CallYield \<and> going w (c, s1) \<and> es = [] \<and> d = w @ io_data io \<and> (live \<longrightarrow> io = []))
     \<or> bad)"

lemma answer_done:
  assumes "outcome [] d bad live (rc, io @ evs_io es, c, s)" "rc \<noteq> NGX_AGAIN"
    "\<not> (raw_downstream env \<and> check_client_abort env \<and> \<not> downstream_event_ok env)"
    "receive_retval_handler env strerror s = (vs, s')"
  shows "answer d bad live (CallRet vs, io, c, s', es)"
proof -
  from assms(1,2) have "(\<exists>w. fin w (c, s) \<and> \<not> read_waiting s \<and> d = w @ unread s @ io_data (io @ evs_io es)) \<or> bad"
    unfolding outcome_def by auto
  then show ?thesis
  proof (elim disjE exE conjE)
    fix w assume w: "fin w (c, s)" "\<not> read_waiting s" "d = w @ unread s @ io_data (io @ evs_io es)"
    from retval_fin [OF w(1) assms(3,4) w(2)] w(1,3) show ?thesis unfolding answer_def by auto
  qed (simp add: answer_def)
qed

lemma answer_yield:
  assumes "outcome [] d bad live (NGX_AGAIN, io, c, s)"
  shows "answer d bad live (CallYield, io, c, s, [])"
  using assms unfolding outcome_def answer_def by auto

lemma call_ok:
  assumes "\<And>s1. idle s1 \<Longrightarrow> have_in s1 \<Longrightarrow> sock_ok s1 \<Longrightarrow> collected s1 = [] \<Longrightarrow>
      rlen s1 = rlen s \<Longrightarrow> rest s1 = rest s \<Longrightarrow> going [] (c, s1)"
    "idle s" "env_ok env" "\<not> (raw_downstream env \<and> check_client_abort env \<and> \<not> downstream_event_ok env)"
  shows "\<exists>r. Option.bind (start_read env strerror filt ready io (c, s)) (await_read env strerror filt es) = Some r \<and>
    answer (pending s @ io_data io @ io_data (evs_io es)) (trouble io \<or> trouble (evs_io es) \<or> ReadTimeout \<in> set es)
      (ready \<and> ready_io io \<and> ready_io (evs_io es)) r"
proof -
  obtain ok s1 where e: "ensure_bufs env s = (ok, s1)" by fastforce
  let ?d = "pending s @ io_data io @ io_data (evs_io es)"
  let ?bad = "trouble io \<or> trouble (evs_io es) \<or> ReadTimeout \<in> set es" and ?live = "ready \<and> ready_io io \<and> ready_io (evs_io es)"
  from ensure_bufs_ok [OF assms(2,3) e] show ?thesis
  proof (elim disjE conjE)
    assume "\<not> ok" "\<exists>k n. palloc env k n = None"
    then have "trouble io" unfolding trouble_def by blast
    then show ?thesis using e \<open>\<not> ok\<close> unfolding answer_def by (auto simp: start_read_def await_read_def)
  next
    assume s1: "ok" "idle s1" "have_in s1" "sock_ok s1" "unread s1 = pending s" "collected s1 = []" "rlen s1 = rlen s" "rest s1 = rest s"
    have same: "s1\<lparr>read_waiting := False\<rparr> = s1" using s1(2) by (cases s1) (simp add: idle_def)
    have g: "going [] (c, s1)" by (rule assms(1) [OF s1(2-4,6-8)])
    have ne: "\<not> eof s1" using s1(2) by (simp add: idle_def)
    obtain rc io1 c1 s2 where r: "socket_tcp_read env filt ready io (c, s1) = Some (rc, io1, c1, s2)"
      and o: "outcome [] (unread s1 @ io_data io) (trouble io) (ready \<and> ready_io io) (rc, io1, c1, s2)"
      using read_ok [OF assms(3) g s1(4) ne, of ready io] by (metis prod_cases4)
    show ?thesis
    proof (cases "rc = NGX_AGAIN")
      case False
      obtain vs s3 where v: "receive_retval_handler env strerror s2 = (vs, s3)" by fastforce
      have "outcome [] ?d ?bad ?live (rc, io1 @ evs_io es, c1, s2)"
        using outcome_mono [OF outcome_extend [OF o False, of "evs_io es"], of ?bad ?live] s1(5) by simp
      from answer_done [OF this False assms(4) v] show ?thesis
        using e s1(1) r v False by (simp add: start_read_def await_read_def same)
    next
      case True
      let ?s2 = "s2\<lparr>read_waiting := True\<rparr>"
      have o2: "outcome [] (unread s1 @ io_data io) (trouble io) (ready \<and> ready_io io) (NGX_AGAIN, io1, c1, ?s2)"
        using o True going_flags unfolding outcome_def by (auto simp: sock_ok_def unread_def)
      obtain rc3 io3 c3 s3 es3 where r3: "read_events env filt es (NGX_AGAIN, io1, c1, ?s2) = Some (rc3, io3, c3, s3, es3)"
        and o3: "outcome [] ?d ?bad ?live (rc3, io3 @ evs_io es3, c3, s3)"
        using events_ok [OF assms(3) o2, of es] s1(5) by auto
      obtain vs s4 where v: "receive_retval_handler env strerror s3 = (vs, s4)" by fastforce
      have "answer ?d ?bad ?live (if rc3 = NGX_AGAIN then (CallYield, io3, c3, s3, es3) else (CallRet vs, io3, c3, s4, es3))"
      proof (cases "rc3 = NGX_AGAIN")
        case True
        then have "es3 = []" using read_events_again [OF r3 [unfolded True]] by simp
        then show ?thesis using True answer_yield o3 by simp
      qed (use answer_done [OF o3 _ assms(4) v] in simp)
      then show ?thesis
        using e s1(1) r True r3 v by (auto simp: start_read_def await_read_def same split: if_splits)
    qed
  qed
qed

end

end
