(* ===== verification/Socket_Receive.thy ===== *)
theory Socket_Receive
  imports Socket_Read
begin

section \<open>The method receive of a TCP cosocket: properties\<close>

text \<open>
  The filters of \<open>receive\<close> meet the contract \<open>input_filter\<close>; what a whole call returns, over any
  segmentation of the stream and any number of yields, follows from the contract's lemmas.
\<close>

subsection \<open>The filters meet the contract\<close>

definition chunk_going :: "nat \<Rightarrow> bytes \<Rightarrow> unit \<times> rsock \<Rightarrow> bool" where
  "chunk_going n w = (\<lambda>(_, s). calm s \<and> blast (cur s) = upos s \<and> collected s = w \<and> length w + rest s = n \<and> 0 < rest s)"

definition chunk_fin :: "nat \<Rightarrow> bytes \<Rightarrow> unit \<times> rsock \<Rightarrow> bool" where
  "chunk_fin n w = (\<lambda>(_, s). calm s \<and> sock_ok s \<and> collected s = w \<and> length w = n)"

definition line_going :: "bytes \<Rightarrow> unit \<times> rsock \<Rightarrow> bool" where
  "line_going w = (\<lambda>(_, s). calm s \<and> CHR 0x0A \<notin> set w \<and> collected s = filter (\<lambda>x. x \<noteq> CHR 0x0D) w)"

definition line_fin :: "bytes \<Rightarrow> unit \<times> rsock \<Rightarrow> bool" where
  "line_fin w = (\<lambda>(_, s). calm s \<and> sock_ok s \<and>
     (\<exists>l. w = l @ [CHR 0x0A] \<and> CHR 0x0A \<notin> set l \<and> collected s = filter (\<lambda>x. x \<noteq> CHR 0x0D) l))"

definition no_fin :: "bytes \<Rightarrow> unit \<times> rsock \<Rightarrow> bool" where
  "no_fin _ _ \<longleftrightarrow> False"

lemma calm_received: "calm (received d s) \<longleftrightarrow> calm s"
  by (simp add: calm_def)

lemma calm_buffer:
  assumes "env_ok env" "sock_ok s" "unread s = []" "add_input_buffer env s = (NGX_OK, s')" "calm s"
  shows "calm s' \<and> rlen s' = rlen s \<and> rest s' = rest s"
  using add_input_buffer_ok(8) [OF assms(1-4)] assms(5) by (auto simp: calm_def)

lemma chunk_step:
  assumes "chunk_going n w (c, s)" "sock_ok s" "unread s \<noteq> []"
  shows "\<exists>rc c' s'. read_chunk (c, s) (length (unread s)) = Some (rc, c', s') \<and> sock_ok s' \<and>
    (rc = NGX_AGAIN \<and> unread s' = [] \<and> chunk_going n (w @ unread s) (c', s')
     \<or> rc = NGX_OK \<and> (\<exists>d. unread s = d @ unread s' \<and> chunk_fin n (w @ d) (c', s')) \<or> rc = NGX_ERROR \<and> False)"
proof -
  have g: "blast (cur s) = upos s" "0 < rest s" using assms(1) by (auto simp: chunk_going_def)
  obtain s' where s': "read_chunk (c, s) (length (unread s)) =
      Some (if rest s \<le> length (unread s) then NGX_OK else NGX_AGAIN, (), s')"
    "sock_ok s'" "blast (cur s') = upos s'" "rlen s' = rlen s" "collected s' = collected s @ take (rest s) (unread s)"
    "unread s' = drop (rest s) (unread s)" "rest s' = rest s - length (unread s)"
    "ft_type s' = ft_type s" "eof s' = eof s" "read_closed s' = read_closed s"
    using read_chunk_step [OF assms(2) g(1) assms(3) g(2), of c] by blast
  show ?thesis
  proof (cases "rest s \<le> length (unread s)")
    case True
    have "unread s = take (rest s) (unread s) @ unread s'" using s' by simp
    moreover have "chunk_fin n (w @ take (rest s) (unread s)) ((), s')"
      using assms(1) s' True by (auto simp: chunk_going_def chunk_fin_def calm_def)
    ultimately have "\<exists>d. unread s = d @ unread s' \<and> chunk_fin n (w @ d) ((), s')" by blast
    then show ?thesis using s'(1,2) True by simp
  next
    case False
    then have "chunk_going n (w @ unread s) ((), s')"
      using assms(1) s' by (auto simp: chunk_going_def calm_def)
    then show ?thesis using s' False by simp
  qed
qed

interpretation chunk: input_filter env read_chunk "chunk_going n" "chunk_fin n" no_fin "\<lambda>w. w" False for env n
proof (unfold_locales, goal_cases)
  case (1 w c s)
  then show ?case using chunk_step [of n w c s] by blast
next
  case (2 w c s)
  then show ?case by (simp add: read_chunk_def)
next
  case (3 w c s d)
  then show ?case using received_ok [OF 3(2,3)] by (auto simp: chunk_going_def calm_received)
next
  case (4 w c s s')
  then show ?case
    using add_input_buffer_ok [OF 4(1,3,4,5)] calm_buffer [OF 4(1,3,4,5)] by (auto simp: chunk_going_def)
qed (auto simp: chunk_going_def chunk_fin_def no_fin_def calm_def sock_ok_def collected_def content_def)

lemma takeWhile_split:
  assumes "x \<in> set xs"
  shows "xs = takeWhile (\<lambda>y. y \<noteq> x) xs @ x # drop (Suc (length (takeWhile (\<lambda>y. y \<noteq> x) xs))) xs \<and>
    min (length xs) (Suc (length (takeWhile (\<lambda>y. y \<noteq> x) xs))) = Suc (length (takeWhile (\<lambda>y. y \<noteq> x) xs))"
  using assms by (induction xs) auto

lemma line_step:
  assumes "line_going w (c, s)" "sock_ok s" "unread s \<noteq> []"
  shows "\<exists>rc c' s'. read_line (c, s) (length (unread s)) = Some (rc, c', s') \<and> sock_ok s' \<and>
    (rc = NGX_AGAIN \<and> unread s' = [] \<and> line_going (w @ unread s) (c', s')
     \<or> rc = NGX_OK \<and> (\<exists>d. unread s = d @ unread s' \<and> line_fin (w @ d) (c', s')) \<or> rc = NGX_ERROR \<and> False)"
proof -
  let ?m = "bm (cur s)" and ?n = "length (unread s)" and ?l = "takeWhile (\<lambda>x. x \<noteq> CHR 0x0A) (unread s)"
  have k: "blast (cur s) \<le> upos s" "upos s + ?n \<le> length ?m" "bpos (cur s) \<le> blast (cur s)" "upos s + ?n = ulast s"
    using assms(2) unread_length by (auto simp: sock_ok_def)
  have u: "bslice ?m (upos s) (upos s + ?n) = unread s" using k(4) by (simp add: unread_def)
  obtain m' dst' pos' where l: "line_loop ?n ?m (blast (cur s)) (upos s) = Some (CHR 0x0A \<in> set (unread s), m', dst', pos')"
    "dst' \<le> pos'" "blast (cur s) \<le> dst'" "pos' \<le> ulast s" "length m' = length ?m"
    "bslice m' (bpos (cur s)) dst' = bslice ?m (bpos (cur s)) (blast (cur s)) @ filter (\<lambda>x. x \<noteq> CHR 0x0D) ?l"
    "pos' = upos s + min ?n (length ?l + 1)" "\<forall>e. bslice m' pos' e = bslice ?m pos' e"
    using line_loop_spec [OF k(1,2,3)] unfolding u Let_def unfolding k(4) by (elim exE conjE) (rule that)
  define s' where "s' = s\<lparr>cur := (cur s)\<lparr>bm := m', blast := dst'\<rparr>, upos := pos'\<rparr>"
  have r: "read_line (c, s) ?n = Some (if CHR 0x0A \<in> set (unread s) then NGX_OK else NGX_AGAIN, (), s')"
    using l(1) assms(3) by (simp add: read_line_def s'_def)
  have ok: "sock_ok s'" using assms(2) l(2-5) by (auto simp: s'_def sock_ok_def)
  have c': "collected s' = collected s @ filter (\<lambda>x. x \<noteq> CHR 0x0D) ?l" using l(6) by (simp add: s'_def collected_def content_def)
  have u': "unread s' = drop (min ?n (length ?l + 1)) (unread s)"
    using l(7,8) drop_bslice [of "min ?n (length ?l + 1)" ?m "upos s" "ulast s"] by (simp add: s'_def unread_def)
  have calm: "calm s'" using assms(1) by (simp add: s'_def calm_def line_going_def)
  show ?thesis
  proof (cases "CHR 0x0A \<in> set (unread s)")
    case True
    then have "unread s = (?l @ [CHR 0x0A]) @ unread s'" using takeWhile_split [OF True] u' by simp
    moreover have "line_fin (w @ ?l @ [CHR 0x0A]) ((), s')"
      unfolding line_fin_def prod.case
    proof (intro conjI exI [of _ "w @ ?l"])
      show "CHR 0x0A \<notin> set (w @ ?l)" using assms(1) set_takeWhileD by (fastforce simp: line_going_def)
    qed (use assms(1) c' calm ok in \<open>auto simp: line_going_def\<close>)
    ultimately have "\<exists>d. unread s = d @ unread s' \<and> line_fin (w @ d) ((), s')" by blast
    then show ?thesis using r ok True by simp
  next
    case False
    have lw: "?l = unread s" by (rule takeWhile_eq_all_conv [THEN iffD2]) (use False in blast)
    have "unread s' = []" using u' unfolding lw by simp
    moreover have "line_going (w @ unread s) ((), s')"
      using c' calm False assms(1) unfolding lw by (simp add: line_going_def)
    ultimately show ?thesis using r ok False by simp
  qed
qed

interpretation line: input_filter env read_line line_going line_fin no_fin
    "\<lambda>w. filter (\<lambda>x. x \<noteq> CHR 0x0D) (butlast w)" False for env
proof (unfold_locales, goal_cases)
  case (1 w c s)
  then show ?case using line_step [of w c s] by blast
next
  case (2 w c s)
  then show ?case by (simp add: read_line_def)
next
  case (3 w c s d)
  then show ?case using received_ok [OF 3(2,3)] by (auto simp: line_going_def calm_received)
next
  case (4 w c s s')
  then show ?case
    using add_input_buffer_ok [OF 4(1,3,4,5)] calm_buffer [OF 4(1,3,4,5)] by (auto simp: line_going_def)
qed (auto simp: line_going_def line_fin_def no_fin_def calm_def sock_ok_def collected_def content_def)

subsection \<open>A whole call of receive\<close>

text \<open>The call, the events while it waits, and its values.\<close>

definition receive_to_end ::
  "lua_rt \<Rightarrow> (lua_number \<Rightarrow> int) \<Rightarrow> senv \<Rightarrow> call_ctx \<Rightarrow> bytes option \<Rightarrow> lua_value list \<Rightarrow> bool \<Rightarrow> recv_item list \<Rightarrow> read_event list
   \<Rightarrow> rsock \<Rightarrow> (call_result \<times> recv_item list \<times> unit \<times> rsock \<times> read_event list) option" where
  "receive_to_end rt toint env ctx strerror args ready io es s =
     Option.bind (tcp_receive rt toint env ctx strerror args ready io s)
       (await_read env strerror (case pattern_of rt toint args of Inr pat \<Rightarrow> filter_of pat | Inl _ \<Rightarrow> read_chunk) es)"

text \<open>Nothing fails: events are handled, memory is there, the peer neither closes nor resets, no timeout.\<close>

definition smooth :: "senv \<Rightarrow> recv_item list \<Rightarrow> bool" where
  "smooth env io \<longleftrightarrow> handle_read_ok env \<and> (\<forall>k n. palloc env k n \<noteq> None) \<and>
     list_all (\<lambda>x. \<not> fatal x) io"

lemma smooth_trouble: "smooth env io \<Longrightarrow> \<not> chunk.trouble env io"
  unfolding smooth_def chunk.trouble_def list_all_iff by blast

definition usable :: "senv \<Rightarrow> call_ctx \<Rightarrow> bool" where
  "usable env ctx \<longleftrightarrow> env_ok env \<and> has_session ctx \<and> connected ctx \<and> own_request ctx \<and> \<not> conn_waiting ctx \<and>
     \<not> (raw_downstream env \<and> check_client_abort env \<and> \<not> downstream_event_ok env)"

lemma tcp_receive_start:
  assumes "usable env ctx" "idle s" "length args \<le> 1" "pattern_of rt toint args = Inr pat" "pat \<noteq> PEmpty"
  shows "receive_to_end rt toint env ctx strerror args ready io es s =
    Option.bind (start_read env strerror (filter_of pat) ready io
        ((), s\<lparr>rlen := (case pat of PChunk n \<Rightarrow> n | _ \<Rightarrow> 0), rest := (case pat of PChunk n \<Rightarrow> n | _ \<Rightarrow> 0)\<rparr>))
      (await_read env strerror (filter_of pat) es)"
  using assms by (cases pat) (auto simp: receive_to_end_def tcp_receive_def usable_def idle_def Let_def)

lemma idle_set_rest: "idle s \<Longrightarrow> idle (s\<lparr>rlen := n, rest := k\<rparr>)" "pending (s\<lparr>rlen := n, rest := k\<rparr>) = pending s"
  by (simp_all add: idle_def sock_ok_def pending_def unread_def)

lemma receive_chunk_answer:
  assumes "usable env ctx" "idle s" "check_number rt v = Some x" "toint x = int n" "0 < n"
  shows "\<exists>r. receive_to_end rt toint env ctx strerror [v] ready io es s = Some r \<and>
    chunk.answer n (pending s @ io_data io @ io_data (evs_io es)) (chunk.trouble env io \<or> chunk.trouble env (evs_io es) \<or> ReadTimeout \<in> set es)
      (ready \<and> ready_io io \<and> ready_io (evs_io es)) r"
proof -
  let ?s = "s\<lparr>rlen := n, rest := n\<rparr>"
  have p: "pattern_of rt toint [v] = Inr (PChunk n)" using assms(3-5) by (simp add: pattern_of_def)
  have "filter_of (PChunk n) = read_chunk" by (simp add: filter_of_def)
  then have e: "receive_to_end rt toint env ctx strerror [v] ready io es s =
      Option.bind (start_read env strerror read_chunk ready io ((), ?s)) (await_read env strerror read_chunk es)"
    using tcp_receive_start [OF assms(1,2) _ p] by simp
  have "chunk_going n [] ((), s1)" if "idle s1" "have_in s1" "collected s1 = []" "rlen s1 = rlen ?s" "rest s1 = rest ?s" for s1
    using that assms(5) by (auto simp: chunk_going_def idle_def calm_def)
  then show ?thesis
    using chunk.call_ok [of ?s n "()" env strerror ready io es] idle_set_rest(1) [OF assms(2), of n n] assms(1)
    by (simp add: e usable_def idle_set_rest(2))
qed

lemma receive_line_answer:
  assumes "usable env ctx" "idle s"
  shows "\<exists>r. receive_to_end rt toint env ctx strerror [] ready io es s = Some r \<and>
    line.answer (pending s @ io_data io @ io_data (evs_io es)) (chunk.trouble env io \<or> chunk.trouble env (evs_io es) \<or> ReadTimeout \<in> set es)
      (ready \<and> ready_io io \<and> ready_io (evs_io es)) r"
proof -
  let ?s = "s\<lparr>rlen := 0, rest := 0\<rparr>"
  have p: "pattern_of rt toint [] = Inr PLine" by (simp add: pattern_of_def)
  have "filter_of PLine = read_line" by (simp add: filter_of_def)
  then have e: "receive_to_end rt toint env ctx strerror [] ready io es s =
      Option.bind (start_read env strerror read_line ready io ((), ?s)) (await_read env strerror read_line es)"
    using tcp_receive_start [OF assms(1,2) _ p] by simp
  have "line_going [] ((), s1)" if "idle s1" "collected s1 = []" for s1
    using that by (auto simp: line_going_def idle_def calm_def)
  then show ?thesis
    using line.call_ok [of ?s "()" env strerror ready io es] idle_set_rest(1) [OF assms(2), of 0 0] assms(1)
    by (simp add: e usable_def idle_set_rest(2))
qed

subsection \<open>The properties\<close>

text \<open>
  C18: \<open>receive(n)\<close> is exact for every segmentation of the stream into packets, buffers and events: when
  nothing fails, the call returns the next \<open>n\<close> bytes as one string and leaves the rest unread, with the socket
  ready for the next call; it waits only when fewer than \<open>n\<close> bytes have come (or the event
  loop has not yet reported them).
\<close>

theorem receive_exact:
  assumes "usable env ctx" "idle s" "check_number rt v = Some x" "toint x = int n" "0 < n"
    "smooth env io" "smooth env (evs_io es)" "ReadTimeout \<notin> set es"
    "stream = pending s @ io_data io @ io_data (evs_io es)"
  shows "\<exists>call io' s' es'. receive_to_end rt toint env ctx strerror [v] ready io es s = Some (call, io', (), s', es') \<and>
    (call = CallRet [LString (take n stream)] \<and> n \<le> length stream \<and> idle s' \<and>
       pending s' @ io_data (io' @ evs_io es') = drop n stream
     \<or> call = CallYield \<and> (ready \<and> ready_io io \<and> ready_io (evs_io es) \<longrightarrow> length stream < n))"
proof -
  obtain call io' s' es' where r: "receive_to_end rt toint env ctx strerror [v] ready io es s = Some (call, io', (), s', es')"
    and a: "chunk.answer n stream (chunk.trouble env io \<or> chunk.trouble env (evs_io es) \<or> ReadTimeout \<in> set es)
        (ready \<and> ready_io io \<and> ready_io (evs_io es)) (call, io', (), s', es')"
    using receive_chunk_answer [where toint = toint, OF assms(1-5), of strerror ready io es] assms(9) by auto
  have "(call = CallRet [LString (take n stream)] \<and> n \<le> length stream \<and> idle s' \<and>
       pending s' @ io_data (io' @ evs_io es') = drop n stream
     \<or> call = CallYield \<and> (ready \<and> ready_io io \<and> ready_io (evs_io es) \<longrightarrow> length stream < n))"
    using a assms(6-8) smooth_trouble unfolding chunk.answer_def by (auto simp: chunk_fin_def chunk_going_def)
  then show ?thesis using r by blast
qed

text \<open>
  \<open>receive()\<close> reads a line: when nothing fails it returns the text up to the first line feed, without
  its carriage returns, consumes that line and no more, for every segmentation; it waits only
  when no line feed has come.
\<close>

theorem receive_line:
  assumes "usable env ctx" "idle s" "smooth env io" "smooth env (evs_io es)" "ReadTimeout \<notin> set es"
    "stream = pending s @ io_data io @ io_data (evs_io es)"
  shows "\<exists>call io' s' es'. receive_to_end rt toint env ctx strerror [] ready io es s = Some (call, io', (), s', es') \<and>
    ((\<exists>l. call = CallRet [LString (filter (\<lambda>c. c \<noteq> CHR 0x0D) l)] \<and> CHR 0x0A \<notin> set l \<and> idle s' \<and>
       stream = l @ CHR 0x0A # pending s' @ io_data (io' @ evs_io es'))
     \<or> call = CallYield \<and> (ready \<and> ready_io io \<and> ready_io (evs_io es) \<longrightarrow> CHR 0x0A \<notin> set stream))"
proof -
  obtain call io' s' es' where r: "receive_to_end rt toint env ctx strerror [] ready io es s = Some (call, io', (), s', es')"
    and a: "line.answer stream (chunk.trouble env io \<or> chunk.trouble env (evs_io es) \<or> ReadTimeout \<in> set es)
        (ready \<and> ready_io io \<and> ready_io (evs_io es)) (call, io', (), s', es')"
    using receive_line_answer [OF assms(1,2), of rt toint strerror ready io es] assms(6) by auto
  have "(\<exists>l. call = CallRet [LString (filter (\<lambda>c. c \<noteq> CHR 0x0D) l)] \<and> CHR 0x0A \<notin> set l \<and> idle s' \<and>
       stream = l @ CHR 0x0A # pending s' @ io_data (io' @ evs_io es'))
     \<or> call = CallYield \<and> (ready \<and> ready_io io \<and> ready_io (evs_io es) \<longrightarrow> CHR 0x0A \<notin> set stream)"
    using a assms(3-5) smooth_trouble unfolding line.answer_def by (auto simp: line_fin_def line_going_def)
  then show ?thesis using r by blast
qed

text \<open>Concrete surroundings for examples: buffers of four bytes, a pool that never fails.\<close>

definition demo_senv :: senv where
  "demo_senv = \<lparr>buffer_size = 4, palloc = (\<lambda>_ n. Some (replicate n CHR 0x00)), handle_read_ok = True, rev_active = False,
     raw_downstream = False, check_client_abort = False, downstream_event_ok = True\<rparr>"

definition demo_ctx :: call_ctx where
  "demo_ctx = \<lparr>has_session = True, connected = True, own_request = True, conn_waiting = False\<rparr>"

lemma demo_usable: "usable demo_senv demo_ctx"
  by (simp add: usable_def demo_senv_def demo_ctx_def env_ok_def)

lemma demo_idle: "idle (demo_sock d)"
  by (simp add: idle_def)

lemma demo_pending: "pending (demo_sock d) = d"
  by (simp add: pending_def)

lemma demo_smooth: "smooth demo_senv io \<longleftrightarrow> list_all (\<lambda>x. \<not> fatal x) io"
  by (simp add: smooth_def demo_senv_def)

theorem receive_exact_witness:
  "\<exists>call io' s' es'. receive_to_end demo_rt uint demo_senv demo_ctx None [LNumber 5] True [RecvData ''cd'' True]
       [ReadReady [RecvData ''efghij'' True]] (demo_sock ''ab'') = Some (call, io', (), s', es') \<and>
     call = CallRet [LString ''abcde''] \<and> pending s' @ io_data (io' @ evs_io es') = ''fghij''"
  using receive_exact [of demo_senv demo_ctx "demo_sock ''ab''" demo_rt "LNumber 5" 5 uint 5 "[RecvData ''cd'' True]"
      "[ReadReady [RecvData ''efghij'' True]]" "''abcdefghij''" None True]
  by (auto simp: demo_usable demo_idle demo_pending demo_smooth check_number_def)

end
