(* ===== verification/Socket_Until.thy ===== *)
theory Socket_Until
  imports Socket_Receive Socket_Pattern
begin

section \<open>The method receiveuntil of a TCP cosocket (ngx\_stream\_lua\_socket\_tcp.c)\<close>

text \<open>
  The input filter \<open>read_until\<close> runs the automaton of a compiled pattern over the bytes received and
  collects the text before the pattern. Text that looked like the beginning of the pattern and turned out
  not to be is handed over by \<open>add_pending_data\<close>: in place when it still lies before the current position,
  otherwise as a copy of the pattern's prefix.
\<close>

subsection \<open>The filter\<close>

record compiled_pattern =
  cp_pattern :: bytes
  cp_state :: int
  cp_recovering :: recovery
  cp_inclusive :: bool

text \<open>
  The \<open>while\<close> loop: \<open>i\<close> counts from \<open>b->pos\<close>, \<open>state\<close> is the local copy of \<open>cp->state\<close>. The result has the
  return code and \<open>cp->state\<close>. \<open>size_t\<close> counters wrap.
\<close>

definition fail_read :: "compiled_pattern \<Rightarrow> rsock \<Rightarrow> ngx_rc \<times> int \<times> rsock" where
  "fail_read cp s = (NGX_ERROR, cp_state cp, s\<lparr>ft_type := ft_type s OR FT_ERROR\<rparr>)"

function until_loop ::
  "senv \<Rightarrow> compiled_pattern \<Rightarrow> nat \<Rightarrow> nat \<Rightarrow> nat \<Rightarrow> rsock \<Rightarrow> (ngx_rc \<times> int \<times> rsock) option" where
  "until_loop env cp bytes i state s =
     (let pat = cp_pattern cp; m = bm (cur s)
      in if \<not> i < bytes then Some (NGX_AGAIN, int state, s\<lparr>upos := upos s + i\<rparr>)
         else if upos s + i \<ge> length m \<or> state \<ge> length pat then None
         else if m ! (upos s + i) = pat ! state then
           (if state + 1 = length pat then
              (let s = s\<lparr>upos := upos s + (i + 1)\<rparr>;
                   st = (if rlen s \<noteq> 0 then - 1 else 0)
               in if cp_inclusive cp then
                    (case add_pending_data env (upos s) pat (state + 1) (state + 1) s of
                       None \<Rightarrow> None
                     | Some (rc, s) \<Rightarrow>
                         (if rc \<noteq> NGX_OK then Some (NGX_ERROR, st, s\<lparr>ft_type := ft_type s OR FT_ERROR\<rparr>)
                          else Some (NGX_OK, st, s)))
                  else Some (NGX_OK, st, s))
            else until_loop env cp bytes (i + 1) (state + 1) s)
         else if state = 0 then
           (let s = s\<lparr>cur := (cur s)\<lparr>blast := blast (cur s) + 1\<rparr>\<rparr>
            in if rlen s \<noteq> 0 then
                 (let s = s\<lparr>rest := (if rest s = 0 then 2 ^ 64 - 1 else rest s - 1)\<rparr>
                  in if rest s = 0 then Some (NGX_OK, int state, s\<lparr>upos := upos s + (i + 1)\<rparr>)
                     else until_loop env cp bytes (i + 1) state s)
               else until_loop env cp bytes (i + 1) state s)
         else
           (case recover (cp_recovering cp) state (m ! (upos s + i)) of
              None \<Rightarrow>
                (case add_pending_data env (upos s + i) pat state state s of
                   None \<Rightarrow> None
                 | Some (rc, s) \<Rightarrow>
                     (if rc \<noteq> NGX_OK then Some (fail_read cp s)
                      else if rlen s \<noteq> 0 \<and> rest s \<le> state then
                        Some (NGX_OK, 0, s\<lparr>rest := 0, upos := upos s + i\<rparr>)
                      else until_loop env cp bytes i 0 (if rlen s \<noteq> 0 then s\<lparr>rest := rest s - state\<rparr> else s)))
            | Some nst \<Rightarrow>
                (case add_pending_data env (upos s + i) pat (state + 1 - nst) state s of
                   None \<Rightarrow> None
                 | Some (rc, s) \<Rightarrow>
                     (if rc \<noteq> NGX_OK then Some (fail_read cp s)
                      else if rlen s \<noteq> 0 \<and> rest s \<le> nst then
                        Some (NGX_OK, int nst, s\<lparr>rest := 0, upos := upos s + (i + 1)\<rparr>)
                      else until_loop env cp bytes (i + 1) nst
                             (if rlen s \<noteq> 0 then s\<lparr>rest := rest s - nst\<rparr> else s)))))"
  by pat_completeness auto
termination
  by (relation "measures [\<lambda>(env, cp, bytes, i, state, s). bytes - i, \<lambda>(env, cp, bytes, i, state, s). state]") auto

declare until_loop.simps [simp del]

definition read_until :: "senv \<Rightarrow> compiled_pattern \<times> rsock \<Rightarrow> nat \<Rightarrow> (ngx_rc \<times> compiled_pattern \<times> rsock) option" where
  "read_until env = (\<lambda>(cp, s) bytes.
     if bytes = 0 then Some (NGX_ERROR, cp, s\<lparr>ft_type := ft_type s OR FT_CLOSED\<rparr>)
     else map_option (\<lambda>(rc, st, s). (rc, cp\<lparr>cp_state := st\<rparr>, s)) (until_loop env cp bytes 0 (nat (cp_state cp)) s))"


subsection \<open>The method and its iterator\<close>

text \<open>
  The method compiles the pattern and returns a closure over the pattern and its compilation (\<open>Inr\<close>);
  \<open>field v\<close> is the field \<open>inclusive\<close> of the options table, \<open>ok\<close> tells which allocations succeed.
\<close>

definition inclusive_option :: "(lua_value \<Rightarrow> lua_value) \<Rightarrow> lua_value list \<Rightarrow> string + bool" where
  "inclusive_option field args =
     (if length args < 2 then Inr False
      else case args ! 1 of
             v \<Rightarrow> (if (case v of LTable _ \<Rightarrow> True | LList _ \<Rightarrow> True | _ \<Rightarrow> False) then
                     (case field v of
                        LNil \<Rightarrow> Inr False
                      | LBool b \<Rightarrow> Inr b
                      | _ \<Rightarrow> Inl ''bad \"inclusive\" option value type: %s'')
                   else Inl ''table expected''))"

definition tcp_receiveuntil ::
  "lua_rt \<Rightarrow> (lua_value \<Rightarrow> lua_value) \<Rightarrow> (nat \<Rightarrow> bool) \<Rightarrow> bool \<Rightarrow> lua_value list
   \<Rightarrow> (lua_result + (bytes \<times> compiled_pattern)) option" where
  "tcp_receiveuntil rt field ok session args =
     (if args = [] \<or> length args > 2 then Some (Inl (LErr ''expecting 2 or 3 arguments (including the object), but got %d''))
      else case inclusive_option field args of
             Inl e \<Rightarrow> Some (Inl (LErr e))
           | Inr incl \<Rightarrow>
               (if \<not> session then Some (Inl (LErr ''no request found''))
                else case check_string rt (args ! 0) of
                       None \<Rightarrow> Some (Inl (LErr ''string expected''))
                     | Some pat \<Rightarrow>
                         (if pat = [] then Some (Inl (LRet [LNil, LString ''pattern is empty'']))
                          else case compile_pattern ok pat of
                                 None \<Rightarrow> None
                               | Some (rc, r) \<Rightarrow>
                                   (if rc \<noteq> NGX_OK then Some (Inl (LRet [LNil, LString ''failed to compile pattern'']))
                                    else Some (Inr (pat, \<lparr>cp_pattern = [], cp_state = 0, cp_recovering = r,
                                      cp_inclusive = incl\<rparr>))))))"

text \<open>A call of the iterator, with the number of bytes to return at most (none: up to the pattern).\<close>

definition receiveuntil_iterator ::
  "lua_rt \<Rightarrow> (lua_number \<Rightarrow> int) \<Rightarrow> senv \<Rightarrow> call_ctx \<Rightarrow> bytes option \<Rightarrow> bytes
   \<Rightarrow> lua_value list \<Rightarrow> bool \<Rightarrow> recv_item list \<Rightarrow> compiled_pattern \<times> rsock
   \<Rightarrow> (call_result \<times> recv_item list \<times> compiled_pattern \<times> rsock) option" where
  "receiveuntil_iterator rt toint env ctx strerror pat args ready io = (\<lambda>(cp, s).
     if length args > 1 then Some (CallErr ''expecting 0 or 1 arguments, but seen %d'', io, cp, s)
     else case (case args of [] \<Rightarrow> Some 0 | v # _ \<Rightarrow> map_option toint (check_number rt v)) of
            None \<Rightarrow> Some (CallErr ''number expected'', io, cp, s)
          | Some n \<Rightarrow>
              (let bytes = (if n < 0 then 0 else nat n)
               in if \<not> connected ctx \<or> read_closed s then Some (CallRet [LNil, LString ''closed''], io, cp, s)
                  else if \<not> has_session ctx then Some (CallErr ''no request found'', io, cp, s)
                  else if \<not> own_request ctx then Some (CallErr ''bad request'', io, cp, s)
                  else if conn_waiting ctx then Some (CallRet [LNil, LString ''socket busy connecting''], io, cp, s)
                  else if read_waiting s then Some (CallRet [LNil, LString ''socket busy reading''], io, cp, s)
                  else if cp_state cp = - 1 then Some (CallRet [LNil, LNil, LNil], io, cp\<lparr>cp_state := 0\<rparr>, s)
                  else
                    (let cp = cp\<lparr>cp_pattern := pat\<rparr>
                     in case ensure_bufs env s of
                          (False, s) \<Rightarrow> Some (CallErr ''no memory'', io, cp, s)
                        | (True, s) \<Rightarrow>
                            start_read env strerror (read_until env) ready io (cp, s\<lparr>rlen := bytes, rest := bytes\<rparr>))))"

text \<open>The call of an iterator, the events while it waits, and its values.\<close>

definition until_to_end ::
  "lua_rt \<Rightarrow> (lua_number \<Rightarrow> int) \<Rightarrow> senv \<Rightarrow> call_ctx \<Rightarrow> bytes option \<Rightarrow> bytes
   \<Rightarrow> lua_value list \<Rightarrow> bool \<Rightarrow> recv_item list \<Rightarrow> read_event list \<Rightarrow> compiled_pattern \<times> rsock
   \<Rightarrow> (call_result \<times> recv_item list \<times> compiled_pattern \<times> rsock \<times> read_event list) option" where
  "until_to_end rt toint env ctx strerror pat args ready io es cs =
     Option.bind (receiveuntil_iterator rt toint env ctx strerror pat args ready io cs) (await_read env strerror (read_until env) es)"

subsection \<open>The loop follows the automaton\<close>

text \<open>
  After the text \<open>w\<close> of this call, at offset \<open>p\<close> of the current buffer and in state \<open>st\<close>: what is collected is
  \<open>w\<close> without the \<open>st\<close> characters of the pattern, and these lie between the end of the
  collected text and \<open>p\<close>, unless they began in an earlier buffer.
\<close>

definition until_at :: "bytes \<Rightarrow> bytes \<Rightarrow> nat \<Rightarrow> nat \<Rightarrow> rsock \<Rightarrow> bool" where
  "until_at pat w st p s \<longleftrightarrow> sock_ok (s\<lparr>upos := p\<rparr>) \<and> scan pat w st (bslice (bm (cur s)) p (ulast s)) \<and>
     w = collected s @ take st pat \<and>
     (p - blast (cur s) = st \<and> bslice (bm (cur s)) (blast (cur s)) p = take st pat
      \<or> p - blast (cur s) < st \<and> content (cur s) = [])"

definition edges_of :: "bytes \<Rightarrow> compiled_pattern \<Rightarrow> bool" where
  "edges_of pat cp \<longleftrightarrow> cp_pattern cp = pat \<and>
     (\<forall>q c. q < length pat \<and> c \<noteq> pat ! q \<longrightarrow> best (borders pat q c) (recover (cp_recovering cp) q c))"

lemma edges_ofD:
  assumes "edges_of pat cp"
  shows "cp_pattern cp = pat"
    and "q < length pat \<Longrightarrow> c \<noteq> pat ! q \<Longrightarrow> best (borders pat q c) (recover (cp_recovering cp) q c)"
  using assms by (auto simp: edges_of_def)

text \<open>The fields no step of the loop touches.\<close>

definition same_call :: "rsock \<Rightarrow> rsock \<Rightarrow> bool" where
  "same_call s s' \<longleftrightarrow> ulast s' = ulast s \<and> rlen s' = rlen s \<and> ft_type s' = ft_type s \<and> eof s' = eof s \<and> read_closed s' = read_closed s"

lemma collected_upos [simp]: "collected (s\<lparr>upos := p\<rparr>) = collected s"
  by (simp add: collected_def)

lemma add_pending_ok:
  assumes "env_ok env" "sock_ok (s\<lparr>upos := p\<rparr>)" "pre \<le> old" "old \<le> length pat" "0 < old"
    "p - blast (cur s) = old \<and> bslice (bm (cur s)) (blast (cur s)) p = take old pat \<or> p - blast (cur s) < old \<and> content (cur s) = []"
  shows "\<exists>rc s'. add_pending_data env p pat pre old s = Some (rc, s') \<and>
    (rc = NGX_ERROR \<and> (\<exists>k n. palloc env k n = None)
     \<or> rc = NGX_OK \<and> collected s' = collected s @ take pre pat \<and> sock_ok (s'\<lparr>upos := p\<rparr>) \<and> upos s' = upos s \<and>
        bm (cur s') = bm (cur s) \<and> same_call s s' \<and>
        (p - blast (cur s) = old \<and> bslice (bm (cur s)) (blast (cur s)) p = take old pat \<and> blast (cur s') = blast (cur s) + pre
         \<or> blast (cur s') = p \<and> content (cur s') = []))"
proof -
  have k: "bpos (cur s) \<le> blast (cur s)" "blast (cur s) \<le> p" "p \<le> length (bm (cur s))" "have_in s"
    using assms(2) by (auto simp: sock_ok_def)
  show ?thesis
  proof (cases "p - blast (cur s) = old")
    case True
    then have b: "bslice (bm (cur s)) (blast (cur s)) p = take old pat" using assms(6) by auto
    let ?s = "s\<lparr>cur := (cur s)\<lparr>blast := blast (cur s) + pre\<rparr>\<rparr>"
    have "bslice (bm (cur s)) (blast (cur s)) (blast (cur s) + pre) = take pre (take old pat)"
      unfolding b [symmetric] using True assms(3) k by (subst take_bslice) auto
    then have "collected ?s = collected s @ take pre pat"
      using k assms(3) bslice_append [of "bpos (cur s)" "blast (cur s)" "blast (cur s) + pre" "bm (cur s)"]
      by (simp add: collected_def content_def min_def)
    moreover have "add_pending_data env p pat pre old s = Some (NGX_OK, ?s)"
      using True k by (simp add: add_pending_data_def of_nat_diff [symmetric])
    moreover have "sock_ok (?s\<lparr>upos := p\<rparr>)" using assms(2,3) True by (auto simp: sock_ok_def)
    ultimately show ?thesis using True b by (simp add: same_call_def)
  next
    case False
    then have e: "content (cur s) = []" using assms(6) by simp
    define len where "len = (if pre \<le> buffer_size env then buffer_size env else pre)"
    have len: "0 < len" "pre \<le> len" using assms(1) by (auto simp: len_def env_ok_def)
    obtain r s1 where g: "chain_get_free_buf env len s = (r, s1)" by fastforce
    obtain f n where s1: "s1 = s\<lparr>free_bufs := f, n_alloc := n\<rparr>" using chain_get_free_buf_frame [OF g len(1)] by blast
    have ne: "int p - int (blast (cur s)) \<noteq> int old" using False k by linarith
    show ?thesis
    proof (cases r)
      case None
      then show ?thesis
        using ne g chain_get_free_buf_none [of env len s s1]
        by (simp add: add_pending_data_def insert_buffer_def len_def [symmetric] Let_def)
    next
      case (Some b)
      note b = chain_get_free_buf_ok [OF assms(1) len(1) g [unfolded Some]]
      let ?b = "b\<lparr>bm := take pre pat @ drop pre (bm b), blast := pre\<rparr>"
      let ?s = "s1\<lparr>chain := chain s @ [?b], cur := (cur s)\<lparr>bpos := p, blast := p\<rparr>\<rparr>"
      have "add_pending_data env p pat pre old s = Some (NGX_OK, ?s)"
        using ne g Some b len(2) assms(3,4)
        by (simp add: add_pending_data_def insert_buffer_def len_def [symmetric] Let_def s1)
      moreover have "content ?b = take pre pat" using b(2) assms(3,4) by (simp add: content_def bslice_def)
      moreover have "sock_ok (?s\<lparr>upos := p\<rparr>)" using assms(2) by (simp add: sock_ok_def s1)
      ultimately show ?thesis
        using e by (simp add: same_call_def collected_def s1) (simp add: content_def)
    qed
  qed
qed

lemma until_at_upos [simp]: "until_at pat w st p (s\<lparr>upos := q\<rparr>) = until_at pat w st p s"
  by (simp add: until_at_def)

text \<open>The steps of the automaton keep the correspondence.\<close>

lemma until_at_bounds:
  assumes "until_at pat w st p s"
  shows "st < length pat" "blast (cur s) \<le> p" "bpos (cur s) \<le> blast (cur s)" "p \<le> ulast s" "ulast s \<le> length (bm (cur s))" "have_in s"
  using assms by (auto simp: until_at_def sock_ok_def scan_def)

lemma until_at_head:
  assumes "until_at pat w st p s" "p < ulast s"
  shows "bslice (bm (cur s)) p (ulast s) = bm (cur s) ! p # bslice (bm (cur s)) (Suc p) (ulast s)"
  using until_at_bounds [OF assms(1)] assms(2) by (intro bslice_Cons) auto

lemma gap_match:
  assumes "until_at pat w st p s" "p < ulast s" "bm (cur s) ! p = pat ! st"
  shows "Suc p - blast (cur s) = Suc st \<and> bslice (bm (cur s)) (blast (cur s)) (Suc p) = take (Suc st) pat
    \<or> Suc p - blast (cur s) < Suc st \<and> content (cur s) = []"
  using assms until_at_bounds [OF assms(1)]
  by (auto simp: until_at_def bslice_snoc take_Suc_conv_app_nth)

lemma until_at_match:
  assumes "until_at pat w st p s" "p < ulast s" "bm (cur s) ! p = pat ! st" "Suc st < length pat"
  shows "until_at pat (w @ [bm (cur s) ! p]) (Suc st) (Suc p) s"
proof -
  have "scan pat w st (bm (cur s) ! p # bslice (bm (cur s)) (Suc p) (ulast s))"
    using assms(1) unfolding until_at_def until_at_head [OF assms(1,2)] by blast
  from scan_match(1) [OF this assms(3)] have "scan pat (w @ [bm (cur s) ! p]) (Suc st) (bslice (bm (cur s)) (Suc p) (ulast s))"
    using assms(4) by simp
  moreover have "sock_ok (s\<lparr>upos := Suc p\<rparr>)" using assms(1,2) by (simp add: until_at_def sock_ok_def)
  moreover have "w = collected s @ take st pat" using assms(1) by (simp add: until_at_def)
  ultimately show ?thesis
    using gap_match [OF assms(1-3)] assms(3,4) unfolding until_at_def by (simp add: take_Suc_conv_app_nth)
qed

lemma until_at_skip:
  assumes "until_at pat w 0 p s" "p < ulast s" "bm (cur s) ! p \<noteq> pat ! 0"
  shows "until_at pat (w @ [bm (cur s) ! p]) 0 (Suc p) (s\<lparr>cur := (cur s)\<lparr>blast := blast (cur s) + 1\<rparr>\<rparr>)"
proof -
  note b = until_at_bounds [OF assms(1)]
  have p: "p = blast (cur s)" "w = collected s" using assms(1) b by (auto simp: until_at_def)
  have "scan pat w 0 (bm (cur s) ! p # bslice (bm (cur s)) (Suc p) (ulast s))"
    using assms(1) unfolding until_at_def until_at_head [OF assms(1,2)] by blast
  from scan_skip [OF this assms(3)] have "scan pat (w @ [bm (cur s) ! p]) 0 (bslice (bm (cur s)) (Suc p) (ulast s))" .
  moreover have "content ((cur s)\<lparr>blast := Suc (blast (cur s))\<rparr>) = content (cur s) @ [bm (cur s) ! p]"
    using b assms(2) p(1) by (simp add: content_def bslice_snoc)
  ultimately show ?thesis
    using assms(1,2) p by (simp add: until_at_def sock_ok_def collected_def)
qed

text \<open>A recovery edge: the beginning of what was matched is text, its end is a shorter match.\<close>

lemma take_edge:
  assumes "suffix (take m pat) (x @ take st pat @ [c])" "1 \<le> m" "m \<le> st" "st \<le> length pat"
  shows "take st pat @ [c] = take (st + 1 - m) pat @ take m pat"
proof -
  have "suffix (take m pat) (take st pat @ [c])"
    by (rule suffix_length_suffix [OF assms(1)]) (use assms(3,4) in \<open>simp_all add: suffix_def\<close>)
  then obtain y where y: "take st pat @ [c] = y @ take m pat" by (auto simp: suffix_def)
  have "length y = st + 1 - m" using arg_cong [OF y, of length] assms(3,4) by simp
  moreover have "take (st + 1 - m) (take st pat @ [c]) = take (st + 1 - m) pat" using assms(2-4) by (simp add: min_def)
  ultimately have "y = take (st + 1 - m) pat" unfolding y by simp
  then show ?thesis using y by simp
qed

lemma until_at_edge:
  assumes "until_at pat w st p s" "p < ulast s" "bm (cur s) ! p \<noteq> pat ! st" "best (borders pat st (bm (cur s) ! p)) (Some m)"
    "collected s' = collected s @ take (st + 1 - m) pat" "sock_ok (s'\<lparr>upos := p\<rparr>)" "bm (cur s') = bm (cur s)" "same_call s s'"
    "p - blast (cur s) = st \<and> bslice (bm (cur s)) (blast (cur s)) p = take st pat \<and> blast (cur s') = blast (cur s) + (st + 1 - m)
         \<or> blast (cur s') = p \<and> content (cur s') = []"
  shows "until_at pat (w @ [bm (cur s) ! p]) m (Suc p) s' \<and> 2 \<le> m \<and> m \<le> st"
proof -
  let ?c = "bm (cur s) ! p"
  note b = until_at_bounds [OF assms(1)]
  have "scan pat w st (?c # bslice (bm (cur s)) (Suc p) (ulast s))"
    using assms(1) unfolding until_at_def until_at_head [OF assms(1,2)] by blast
  from scan_edge [OF this assms(3,4)]
  have m: "scan pat (w @ [?c]) m (bslice (bm (cur s)) (Suc p) (ulast s))" "m \<le> st" "2 \<le> m" by auto
  have w: "w = collected s @ take st pat" using assms(1) by (simp add: until_at_def)
  have t: "take st pat @ [?c] = take (st + 1 - m) pat @ take m pat"
    by (rule take_edge [of m pat "collected s"]) (use m b(1) in \<open>auto simp: scan_def w\<close>)
  have "sock_ok (s'\<lparr>upos := Suc p\<rparr>)" using assms(2,6,8) by (simp add: sock_ok_def same_call_def)
  moreover have "w @ [?c] = collected s' @ take m pat" using t by (simp add: w assms(5))
  moreover have "Suc p - blast (cur s') = m \<and> bslice (bm (cur s')) (blast (cur s')) (Suc p) = take m pat
      \<or> Suc p - blast (cur s') < m \<and> content (cur s') = []"
    using assms(9)
  proof (elim disjE conjE)
    assume g: "p - blast (cur s) = st" "bslice (bm (cur s)) (blast (cur s)) p = take st pat" "blast (cur s') = blast (cur s) + (st + 1 - m)"
    have "bslice (bm (cur s)) (blast (cur s)) (Suc p) = take (st + 1 - m) pat @ take m pat"
      using g(2) b(2,5) assms(2) by (simp add: bslice_snoc t)
    then have "drop (st + 1 - m) (bslice (bm (cur s)) (blast (cur s)) (Suc p)) = take m pat" using m b(1) by simp
    moreover have "Suc p - blast (cur s') = m" using g(1,3) m b(2) by linarith
    ultimately show ?thesis using g(3) assms(7) by (simp add: drop_bslice)
  qed (use m in auto)
  ultimately show ?thesis using m assms(7,8) by (simp add: until_at_def same_call_def)
qed

lemma until_at_reset:
  assumes "until_at pat w st p s" "p < ulast s" "bm (cur s) ! p \<noteq> pat ! st" "best (borders pat st (bm (cur s) ! p)) None"
    "collected s' = collected s @ take st pat" "sock_ok (s'\<lparr>upos := p\<rparr>)" "bm (cur s') = bm (cur s)" "same_call s s'"
    "p - blast (cur s) = st \<and> bslice (bm (cur s)) (blast (cur s)) p = take st pat \<and> blast (cur s') = blast (cur s) + st
         \<or> blast (cur s') = p \<and> content (cur s') = []"
  shows "until_at pat w 0 p s'"
proof -
  note b = until_at_bounds [OF assms(1)]
  have "scan pat w st (bm (cur s) ! p # bslice (bm (cur s)) (Suc p) (ulast s))"
    using assms(1) unfolding until_at_def until_at_head [OF assms(1,2)] by blast
  from scan_reset [OF this assms(3,4)] have "scan pat w 0 (bslice (bm (cur s)) p (ulast s))"
    unfolding until_at_head [OF assms(1,2)] .
  moreover have "blast (cur s') = p" using assms(9) b(2) by auto
  ultimately show ?thesis
    using assms(1,5-8) by (simp add: until_at_def same_call_def)
qed


text \<open>The end of the call: the pattern has just been read for the first time.\<close>

definition until_done :: "bytes \<Rightarrow> bool \<Rightarrow> bytes \<Rightarrow> rsock \<Rightarrow> bool" where
  "until_done pat incl w s \<longleftrightarrow> sock_ok s \<and>
     (\<exists>t. w = t @ pat \<and> \<not> sublist pat (butlast w) \<and> collected s = t @ (if incl then pat else []))"

lemma until_done_match:
  assumes "until_at pat w st p s" "p < ulast s" "bm (cur s) ! p = pat ! st" "Suc st = length pat"
  shows "until_done pat False (w @ [bm (cur s) ! p]) (s\<lparr>upos := Suc p\<rparr>)"
proof -
  have s: "\<not> sublist pat w" "w = collected s @ take st pat" using assms(1) by (auto simp: until_at_def scan_def)
  have "take st pat @ [pat ! st] = pat" using assms(4) take_Suc_conv_app_nth [of st pat] by simp
  then have "w @ [bm (cur s) ! p] = collected s @ pat" using s(2) assms(3) by simp
  moreover have "sock_ok (s\<lparr>upos := Suc p\<rparr>)" using assms(1,2) by (simp add: until_at_def sock_ok_def)
  moreover have "\<not> sublist pat (butlast (w @ [bm (cur s) ! p]))" using s(1) by simp
  ultimately show ?thesis unfolding until_done_def by auto
qed

text \<open>The loop, for a call that reads up to the pattern.\<close>

definition until_outcome :: "senv \<Rightarrow> bytes \<Rightarrow> bool \<Rightarrow> bytes \<Rightarrow> bytes \<Rightarrow> rsock \<Rightarrow> ngx_rc \<times> int \<times> rsock \<Rightarrow> bool" where
  "until_outcome env pat incl w d s = (\<lambda>(rc, st', s').
     rc = NGX_AGAIN \<and> same_call s s' \<and> upos s' = ulast s' \<and> (\<exists>n. st' = int n \<and> until_at pat (w @ d) n (upos s') s')
     \<or> rc = NGX_OK \<and> same_call s s' \<and> st' = 0 \<and> (\<exists>d1. d = d1 @ unread s' \<and> until_done pat incl (w @ d1) s')
     \<or> rc = NGX_ERROR \<and> (\<exists>k n. palloc env k n = None))"

lemma same_call_trans: "same_call s s1 \<Longrightarrow> same_call s1 s2 \<Longrightarrow> same_call s s2"
  by (simp add: same_call_def)

lemma until_outcome_step:
  assumes "until_outcome env pat incl (w @ [c]) d s1 r" "same_call s s1"
  shows "until_outcome env pat incl w (c # d) s r"
proof -
  obtain rc st' s' where r: "r = (rc, st', s')" by (cases r)
  have "\<exists>d2. c # d = d2 @ unread s' \<and> until_done pat incl (w @ d2) s'"
    if "d = d1 @ unread s'" "until_done pat incl ((w @ [c]) @ d1) s'" for d1
    by (rule exI [of _ "c # d1"]) (use that in simp)
  then show ?thesis
    using assms same_call_trans [OF assms(2)] unfolding until_outcome_def r by auto
qed

lemma until_outcome_same: "until_outcome env pat incl w d s1 r \<Longrightarrow> same_call s s1 \<Longrightarrow> until_outcome env pat incl w d s r"
  using same_call_trans unfolding until_outcome_def by (auto split: prod.splits)

lemma until_loop_match:
  assumes "env_ok env" "edges_of pat cp" "until_at pat w st (upos s + i) s" "upos s + i < ulast s" "i < n" "rlen s = 0"
    "bm (cur s) ! (upos s + i) = pat ! st" "Suc st = length pat" "upos s + n = ulast s"
  shows "\<exists>r. until_loop env cp n i st s = Some r \<and>
    until_outcome env pat (cp_inclusive cp) w (bslice (bm (cur s)) (upos s + i) (ulast s)) s r"
proof -
  let ?p = "upos s + i" and ?s = "s\<lparr>upos := Suc (upos s + i)\<rparr>"
  note b = until_at_bounds [OF assms(3)]
  have cp: "cp_pattern cp = pat" using assms(2) by (simp add: edges_of_def)
  have dn: "until_done pat False (w @ [bm (cur s) ! ?p]) ?s" by (rule until_done_match [OF assms(3,4,7,8)])
  have u: "bslice (bm (cur s)) ?p (ulast s) = [bm (cur s) ! ?p] @ unread ?s"
    using until_at_head [OF assms(3,4)] by (simp add: unread_def)
  show ?thesis
  proof (cases "cp_inclusive cp")
    case False
    then have "until_loop env cp n i st s = Some (NGX_OK, 0, ?s)"
      using assms(4-8) b cp by (subst until_loop.simps) (simp add: Let_def)
    moreover have "until_outcome env pat False w (bslice (bm (cur s)) ?p (ulast s)) s (NGX_OK, 0, ?s)"
      unfolding until_outcome_def u using dn by (auto simp: same_call_def)
    ultimately show ?thesis using False by simp
  next
    case True
    have ok: "sock_ok (?s\<lparr>upos := Suc ?p\<rparr>)" using dn by (simp add: until_done_def)
    have g: "Suc ?p - blast (cur ?s) = Suc st \<and> bslice (bm (cur ?s)) (blast (cur ?s)) (Suc ?p) = take (Suc st) pat
      \<or> Suc ?p - blast (cur ?s) < Suc st \<and> content (cur ?s) = []"
      using gap_match [OF assms(3,4,7)] by simp
    obtain rc s' where a: "add_pending_data env (Suc ?p) pat (Suc st) (Suc st) ?s = Some (rc, s')"
      and c: "rc = NGX_ERROR \<and> (\<exists>k n. palloc env k n = None)
       \<or> rc = NGX_OK \<and> collected s' = collected ?s @ take (Suc st) pat \<and> sock_ok (s'\<lparr>upos := Suc ?p\<rparr>) \<and> upos s' = upos ?s \<and>
        bm (cur s') = bm (cur ?s) \<and> same_call ?s s'"
      using add_pending_ok [OF assms(1) ok order.refl _ _ g] assms(8) by fastforce
    have e: "until_loop env cp n i st s =
        Some (if rc = NGX_OK then (NGX_OK, 0, s') else (NGX_ERROR, 0, s'\<lparr>ft_type := ft_type s' OR FT_ERROR\<rparr>))"
      using assms(4-8) b cp a True by (subst until_loop.simps) (simp add: Let_def)
    from c show ?thesis
    proof (elim disjE conjE)
      assume "rc = NGX_ERROR" "\<exists>k n. palloc env k n = None"
      then show ?thesis unfolding e until_outcome_def by simp
    next
      assume k: "rc = NGX_OK" "collected s' = collected ?s @ take (Suc st) pat" "sock_ok (s'\<lparr>upos := Suc ?p\<rparr>)"
        "upos s' = upos ?s" "bm (cur s') = bm (cur ?s)" "same_call ?s s'"
      have same: "s'\<lparr>upos := Suc ?p\<rparr> = s'" using k(4) by (cases s') simp
      have "sock_ok s'" using k(3) unfolding same .
      moreover have "unread s' = unread ?s" using k(4-6) by (simp add: unread_def same_call_def)
      moreover have "until_done pat True (w @ [bm (cur s) ! ?p]) s'"
        using dn \<open>sock_ok s'\<close> k(2) unfolding until_done_def assms(8) by (elim conjE exE) (intro conjI exI; simp del: butlast_snoc)
      ultimately have "until_outcome env pat True w (bslice (bm (cur s)) ?p (ulast s)) s (NGX_OK, 0, s')"
        unfolding until_outcome_def u using k(6) by (auto simp: same_call_def)
      then show ?thesis using e k(1) True by simp
    qed
  qed
qed


text \<open>A mismatch after some of the pattern: the pending characters are handed over, or memory is out.\<close>

lemma until_loop_reset:
  assumes "env_ok env" "edges_of pat cp" "until_at pat w st (upos s + i) s" "i < n" "rlen s = 0" "upos s + n = ulast s"
    "bm (cur s) ! (upos s + i) \<noteq> pat ! st" "0 < st" "recover (cp_recovering cp) st (bm (cur s) ! (upos s + i)) = None"
  shows "(\<exists>s'. until_loop env cp n i st s = until_loop env cp n i 0 s' \<and> until_at pat w 0 (upos s + i) s' \<and>
      same_call s s' \<and> upos s' = upos s \<and> bm (cur s') = bm (cur s))
    \<or> (\<exists>st' s'. until_loop env cp n i st s = Some (NGX_ERROR, st', s') \<and> (\<exists>k n. palloc env k n = None))"
proof -
  let ?p = "upos s + i"
  note b = until_at_bounds [OF assms(3)]
  have lt: "?p < ulast s" using assms(4,6) by simp
  have cp: "cp_pattern cp = pat" "best (borders pat st (bm (cur s) ! ?p)) None"
    using edges_ofD(2) [OF assms(2) b(1) assms(7)] edges_ofD(1) [OF assms(2)] unfolding assms(9) by auto
  have gap: "?p - blast (cur s) = st \<and> bslice (bm (cur s)) (blast (cur s)) ?p = take st pat
      \<or> ?p - blast (cur s) < st \<and> content (cur s) = []" and ok: "sock_ok (s\<lparr>upos := ?p\<rparr>)"
    using assms(3) by (auto simp: until_at_def)
  obtain rc s' where a: "add_pending_data env ?p pat st st s = Some (rc, s')"
    and k: "rc = NGX_ERROR \<and> (\<exists>k n. palloc env k n = None)
      \<or> rc = NGX_OK \<and> collected s' = collected s @ take st pat \<and> sock_ok (s'\<lparr>upos := ?p\<rparr>) \<and> upos s' = upos s \<and>
        bm (cur s') = bm (cur s) \<and> same_call s s' \<and>
        (?p - blast (cur s) = st \<and> bslice (bm (cur s)) (blast (cur s)) ?p = take st pat \<and> blast (cur s') = blast (cur s) + st
         \<or> blast (cur s') = ?p \<and> content (cur s') = [])"
    using add_pending_ok [OF assms(1) ok order.refl _ assms(8) gap] b(1) by auto
  have e: "until_loop env cp n i st s = (if rc = NGX_OK then until_loop env cp n i 0 s' else Some (fail_read cp s'))"
    if "rc = NGX_OK \<longrightarrow> rlen s' = 0"
    using assms(4,7-9) lt b cp(1) a that by (subst until_loop.simps) (auto simp: Let_def)
  from k show ?thesis
  proof (rule disjE)
    assume "rc = NGX_ERROR \<and> (\<exists>k n. palloc env k n = None)"
    then show ?thesis using e by (simp add: fail_read_def)
  next
    assume *: "rc = NGX_OK \<and> collected s' = collected s @ take st pat \<and> sock_ok (s'\<lparr>upos := ?p\<rparr>) \<and> upos s' = upos s \<and>
        bm (cur s') = bm (cur s) \<and> same_call s s' \<and>
        (?p - blast (cur s) = st \<and> bslice (bm (cur s)) (blast (cur s)) ?p = take st pat \<and> blast (cur s') = blast (cur s) + st
         \<or> blast (cur s') = ?p \<and> content (cur s') = [])"
    then have "until_at pat w 0 ?p s'" using until_at_reset [OF assms(3) lt assms(7) cp(2), of s'] by blast
    moreover have "rlen s' = 0" using * assms(5) by (simp add: same_call_def)
    ultimately show ?thesis using e * by auto
  qed
qed

lemma until_loop_edge:
  assumes "env_ok env" "edges_of pat cp" "until_at pat w st (upos s + i) s" "i < n" "rlen s = 0" "upos s + n = ulast s"
    "bm (cur s) ! (upos s + i) \<noteq> pat ! st" "0 < st" "recover (cp_recovering cp) st (bm (cur s) ! (upos s + i)) = Some m"
  shows "(\<exists>s'. until_loop env cp n i st s = until_loop env cp n (Suc i) m s' \<and>
      until_at pat (w @ [bm (cur s) ! (upos s + i)]) m (Suc (upos s + i)) s' \<and>
      same_call s s' \<and> upos s' = upos s \<and> bm (cur s') = bm (cur s))
    \<or> (\<exists>st' s'. until_loop env cp n i st s = Some (NGX_ERROR, st', s') \<and> (\<exists>k n. palloc env k n = None))"
proof -
  let ?p = "upos s + i" and ?pre = "st + 1 - m"
  note b = until_at_bounds [OF assms(3)]
  have lt: "?p < ulast s" using assms(4,6) by simp
  have cp: "cp_pattern cp = pat" "best (borders pat st (bm (cur s) ! ?p)) (Some m)"
    using edges_ofD(2) [OF assms(2) b(1) assms(7)] edges_ofD(1) [OF assms(2)] unfolding assms(9) by auto
  have gap: "?p - blast (cur s) = st \<and> bslice (bm (cur s)) (blast (cur s)) ?p = take st pat
      \<or> ?p - blast (cur s) < st \<and> content (cur s) = []" and ok: "sock_ok (s\<lparr>upos := ?p\<rparr>)"
    using assms(3) by (auto simp: until_at_def)
  have pre: "?pre \<le> st" using cp(2) by (auto simp: best_def borders_def)
  obtain rc s' where a: "add_pending_data env ?p pat ?pre st s = Some (rc, s')"
    and k: "rc = NGX_ERROR \<and> (\<exists>k n. palloc env k n = None)
      \<or> rc = NGX_OK \<and> collected s' = collected s @ take ?pre pat \<and> sock_ok (s'\<lparr>upos := ?p\<rparr>) \<and> upos s' = upos s \<and>
        bm (cur s') = bm (cur s) \<and> same_call s s' \<and>
        (?p - blast (cur s) = st \<and> bslice (bm (cur s)) (blast (cur s)) ?p = take st pat \<and> blast (cur s') = blast (cur s) + ?pre
         \<or> blast (cur s') = ?p \<and> content (cur s') = [])"
    using add_pending_ok [OF assms(1) ok pre _ assms(8) gap] b(1) by auto
  have e: "until_loop env cp n i st s = (if rc = NGX_OK then until_loop env cp n (Suc i) m s' else Some (fail_read cp s'))"
    if "rc = NGX_OK \<longrightarrow> rlen s' = 0"
    using assms(4,7-9) lt b cp(1) a that by (subst until_loop.simps) (auto simp: Let_def)
  from k show ?thesis
  proof (rule disjE)
    assume "rc = NGX_ERROR \<and> (\<exists>k n. palloc env k n = None)"
    then show ?thesis using e by (simp add: fail_read_def)
  next
    assume *: "rc = NGX_OK \<and> collected s' = collected s @ take ?pre pat \<and> sock_ok (s'\<lparr>upos := ?p\<rparr>) \<and> upos s' = upos s \<and>
        bm (cur s') = bm (cur s) \<and> same_call s s' \<and>
        (?p - blast (cur s) = st \<and> bslice (bm (cur s)) (blast (cur s)) ?p = take st pat \<and> blast (cur s') = blast (cur s) + ?pre
         \<or> blast (cur s') = ?p \<and> content (cur s') = [])"
    then have "until_at pat (w @ [bm (cur s) ! ?p]) m (Suc ?p) s'" using until_at_edge [OF assms(3) lt assms(7) cp(2), of s'] by blast
    moreover have "rlen s' = 0" using * assms(5) by (simp add: same_call_def)
    ultimately show ?thesis using e * by auto
  qed
qed

lemma until_loop_ok:
  assumes "env_ok env" "edges_of pat cp" "until_at pat w st (upos s + i) s" "rlen s = 0" "upos s + n = ulast s"
  shows "\<exists>r. until_loop env cp n i st s = Some r \<and>
    until_outcome env pat (cp_inclusive cp) w (bslice (bm (cur s)) (upos s + i) (ulast s)) s r"
  using assms(3-5)
proof (induction "2 * (n - i) + (if st = 0 then 0 else 1)" arbitrary: i st w s rule: less_induct)
  case less
  let ?p = "upos s + i" and ?c = "bm (cur s) ! (upos s + i)"
  let ?d = "bslice (bm (cur s)) (upos s + Suc i) (ulast s)"
  let ?out = "\<lambda>w d s r. until_outcome env pat (cp_inclusive cp) w d s r"
  note b = until_at_bounds [OF less.prems(1)]
  have cp: "cp_pattern cp = pat" using assms(2) by (simp add: edges_of_def)
  show ?case
  proof (cases "i < n")
    case False
    then have i: "i = n" using b(4) less.prems(3) by simp
    have "until_loop env cp n i st s = Some (NGX_AGAIN, int st, s\<lparr>upos := ?p\<rparr>)" using False by (subst until_loop.simps) simp
    moreover have "until_at pat w st ?p (s\<lparr>upos := ?p\<rparr>)" using less.prems(1) by simp
    ultimately show ?thesis using i less.prems(3) by (simp add: until_outcome_def same_call_def)
  next
    case True
    then have lt: "?p < ulast s" using less.prems(3) by simp
    have u: "bslice (bm (cur s)) ?p (ulast s) = ?c # ?d" using until_at_head [OF less.prems(1) lt] by simp
    have onward: "\<exists>r. until_loop env cp n (Suc i) st' s' = Some r \<and> ?out w (?c # ?d) s r"
      if "until_at pat (w @ [?c]) st' (Suc ?p) s'" "same_call s s'" "upos s' = upos s" "bm (cur s') = bm (cur s)" for st' s'
    proof -
      have "\<exists>r. until_loop env cp n (Suc i) st' s' = Some r \<and> ?out (w @ [?c]) (bslice (bm (cur s')) (upos s' + Suc i) (ulast s')) s' r"
        using True that less.prems by (intro less.hyps) (auto simp: same_call_def)
      then show ?thesis using that(2-4) until_outcome_step [OF _ that(2)] by (auto simp: same_call_def)
    qed
    consider "?c = pat ! st" "Suc st = length pat" | "?c = pat ! st" "Suc st < length pat" | "?c \<noteq> pat ! st" "st = 0"
      | "?c \<noteq> pat ! st" "0 < st" "recover (cp_recovering cp) st ?c = None"
      | m where "?c \<noteq> pat ! st" "0 < st" "recover (cp_recovering cp) st ?c = Some m"
      using b(1) by (cases "?c = pat ! st"; cases "st = 0"; cases "Suc st = length pat"; cases "recover (cp_recovering cp) st ?c") auto
    then show ?thesis
    proof cases
      case 1
      show ?thesis by (rule until_loop_match [OF assms(1,2) less.prems(1) lt True less.prems(2) 1 less.prems(3)])
    next
      case 2
      have "until_loop env cp n i st s = until_loop env cp n (Suc i) (Suc st) s"
        using True lt b 2 cp by (subst until_loop.simps) (simp add: Let_def)
      then show ?thesis using onward [OF until_at_match [OF less.prems(1) lt 2]] by (simp add: u same_call_def)
    next
      case 3
      let ?s = "s\<lparr>cur := (cur s)\<lparr>blast := blast (cur s) + 1\<rparr>\<rparr>"
      have "until_at pat (w @ [?c]) 0 (Suc ?p) ?s" using until_at_skip [of pat w ?p s] less.prems(1) lt 3 by simp
      moreover have "until_loop env cp n i st s = until_loop env cp n (Suc i) 0 ?s"
        using True lt b 3 cp less.prems(2) by (subst until_loop.simps) (simp add: Let_def)
      ultimately show ?thesis using onward [of 0 ?s] by (simp add: u same_call_def)
    next
      case 4
      from until_loop_reset [OF assms(1,2) less.prems(1) True less.prems(2,3) 4] show ?thesis
      proof (elim disjE exE conjE)
        fix s' assume s': "until_loop env cp n i st s = until_loop env cp n i 0 s'" "until_at pat w 0 ?p s'"
          "same_call s s'" "upos s' = upos s" "bm (cur s') = bm (cur s)"
        have "\<exists>r. until_loop env cp n i 0 s' = Some r \<and> ?out w (bslice (bm (cur s')) (upos s' + i) (ulast s')) s' r"
          using s'(2-4) less.prems(2,3) 4(2) by (intro less.hyps) (auto simp: same_call_def)
        then show ?thesis using s' until_outcome_same [OF _ s'(3)] by (auto simp: same_call_def)
      qed (auto simp: until_outcome_def)
    next
      case (5 m)
      from until_loop_edge [OF assms(1,2) less.prems(1) True less.prems(2,3) 5] show ?thesis
      proof (elim disjE exE conjE)
        fix s' assume s': "until_loop env cp n i st s = until_loop env cp n (Suc i) m s'"
          "until_at pat (w @ [?c]) m (Suc ?p) s'" "same_call s s'" "upos s' = upos s" "bm (cur s') = bm (cur s)"
        then show ?thesis using onward [OF s'(2-5)] by (simp add: u)
      qed (auto simp: until_outcome_def)
    qed
  qed
qed

subsection \<open>The filter meets the contract\<close>

definition until_going :: "bytes \<Rightarrow> bool \<Rightarrow> bytes \<Rightarrow> compiled_pattern \<times> rsock \<Rightarrow> bool" where
  "until_going pat incl w = (\<lambda>(cp, s). edges_of pat cp \<and> cp_inclusive cp = incl \<and> calm s \<and> rlen s = 0 \<and>
     (\<exists>st. cp_state cp = int st \<and> until_at pat w st (upos s) s))"

definition until_fin :: "bytes \<Rightarrow> bool \<Rightarrow> bytes \<Rightarrow> compiled_pattern \<times> rsock \<Rightarrow> bool" where
  "until_fin pat incl w = (\<lambda>(cp, s). calm s \<and> until_done pat incl w s \<and> cp_state cp = 0)"

definition until_never :: "bytes \<Rightarrow> compiled_pattern \<times> rsock \<Rightarrow> bool" where
  "until_never _ _ \<longleftrightarrow> False"

lemma scan_more: "scan pat w st d \<Longrightarrow> scan pat w st (d @ e)"
  unfolding scan_def by fastforce

lemma until_at_received:
  assumes "until_at pat w st (upos s) s" "sock_ok s" "ulast s + length d \<le> length (bm (cur s))"
  shows "until_at pat w st (upos s) (received d s)"
proof -
  note r = received_ok [OF assms(2,3)]
  have "bslice (bm (cur (received d s))) a b = bslice (bm (cur s)) a b" if "b \<le> upos s" for a b
    using that assms(2) unfolding received_def by (simp add: bslice_below sock_ok_def)
  then have "bslice (bm (cur (received d s))) (blast (cur s)) (upos s) = bslice (bm (cur s)) (blast (cur s)) (upos s)"
    "content (cur (received d s)) = content (cur s)"
    using assms(2) by (auto simp: content_def sock_ok_def)
  moreover have "bslice (bm (cur (received d s))) (upos s) (ulast (received d s)) = bslice (bm (cur s)) (upos s) (ulast s) @ d"
    using r(2) by (simp add: unread_def)
  moreover have "sock_ok ((received d s)\<lparr>upos := upos s\<rparr>)" using r(1) by (simp add: sock_ok_def)
  moreover have "scan pat w st (bslice (bm (cur s)) (upos s) (ulast s) @ d)"
    by (rule scan_more) (use assms(1) [unfolded until_at_def] in blast)
  ultimately show ?thesis using assms(1) r(3) unfolding until_at_def by simp
qed

lemma until_at_buffer:
  assumes "until_at pat w st (upos s) s" "env_ok env" "sock_ok s" "unread s = []" "add_input_buffer env s = (NGX_OK, s')"
  shows "until_at pat w st (upos s') s'"
proof -
  note a = add_input_buffer_ok [OF assms(2-5)]
  have "content (cur s') = []" using a(6,7) by (simp add: content_def)
  moreover have "scan pat w st []" "w = collected s @ take st pat" using assms(1,4) by (auto simp: until_at_def unread_def)
  ultimately show ?thesis using a by (auto simp: until_at_def unread_def sock_ok_def)
qed

lemma until_step:
  assumes "env_ok env" "until_going pat incl w (cp, s)" "sock_ok s" "unread s \<noteq> []"
  shows "\<exists>rc cp' s'. read_until env (cp, s) (length (unread s)) = Some (rc, cp', s') \<and>
    (rc = NGX_AGAIN \<and> sock_ok s' \<and> unread s' = [] \<and> until_going pat incl (w @ unread s) (cp', s')
     \<or> rc = NGX_OK \<and> (\<exists>d. unread s = d @ unread s' \<and> until_fin pat incl (w @ d) (cp', s'))
     \<or> rc = NGX_ERROR \<and> (\<exists>k n. palloc env k n = None))"
proof -
  obtain st where g: "edges_of pat cp" "cp_inclusive cp = incl" "calm s" "rlen s = 0" "cp_state cp = int st" "until_at pat w st (upos s) s"
    using assms(2) by (auto simp: until_going_def)
  have n: "upos s + length (unread s) = ulast s" using assms(3) unread_length by (simp add: sock_ok_def)
  obtain rc st' s' where l: "until_loop env cp (length (unread s)) 0 st s = Some (rc, st', s')"
    and o: "until_outcome env pat incl w (unread s) s (rc, st', s')"
    using until_loop_ok [OF assms(1) g(1) _ g(4) n, of w st 0] g(2,6) by (auto simp: unread_def)
  have r: "read_until env (cp, s) (length (unread s)) = Some (rc, cp\<lparr>cp_state := st'\<rparr>, s')"
    using l g(5) assms(4) by (simp add: read_until_def)
  have ok: "sock_ok s1" if "until_at pat w1 n1 (upos s1) s1" for s1 w1 n1 using that by (simp add: until_at_def)
  have cp: "edges_of pat (cp\<lparr>cp_state := x\<rparr>)" for x using g(1) by (simp add: edges_of_def)
  show ?thesis
    using r o g(2-4) ok cp
    by (auto simp: until_outcome_def until_going_def until_fin_def same_call_def calm_def unread_def)
qed

interpretation until: input_filter env "read_until env" "until_going pat incl" "until_fin pat incl" until_never
    "\<lambda>w. take (length w - length pat) w @ (if incl then pat else [])" "\<exists>k n. palloc env k n = None" for env pat incl
proof (unfold_locales, goal_cases)
  case (1 w c s)
  then show ?case by (rule until_step)
next
  case (2 w c s)
  then show ?case by (simp add: read_until_def)
next
  case (3 w c s d)
  then show ?case using until_at_received [OF _ 3(2,3)] by (auto simp: until_going_def calm_received)
next
  case (4 w c s s')
  then show ?case
    using until_at_buffer [OF _ 4(1,3,4,5)] calm_buffer [OF 4(1,3,4,5)] by (auto simp: until_going_def)
next
  case (5 w c s)
  then show ?case by (simp add: until_going_def)
next
  case (6 w c s b)
  then show ?case by (auto simp: until_going_def until_at_def calm_def sock_ok_def collected_def)
next
  case (7 w c s)
  then show ?case by (auto simp: until_fin_def until_done_def)
next
  case (8 w c s)
  then show ?case by (auto simp: until_fin_def until_done_def calm_def sock_ok_def collected_def)
qed (simp add: until_never_def)

subsection \<open>The property\<close>

text \<open>What \<open>receiveuntil\<close> hands to its iterator.\<close>

lemma receiveuntil_closure:
  assumes "tcp_receiveuntil rt field ok session args = Some (Inr (pat, cp))"
  shows "pat \<noteq> []" "cp_state cp = 0" "edges_of pat (cp\<lparr>cp_pattern := pat\<rparr>)"
    "check_string rt (args ! 0) = Some pat" "inclusive_option field args = Inr (cp_inclusive cp)"
proof -
  from assms obtain incl r where c: "inclusive_option field args = Inr incl" "check_string rt (args ! 0) = Some pat" "pat \<noteq> []"
    "compile_pattern ok pat = Some (NGX_OK, r)" "cp = \<lparr>cp_pattern = [], cp_state = 0, cp_recovering = r, cp_inclusive = incl\<rparr>"
    unfolding tcp_receiveuntil_def by (auto split: if_splits sum.splits option.splits)
  then show "pat \<noteq> []" "cp_state cp = 0" "check_string rt (args ! 0) = Some pat" "inclusive_option field args = Inr (cp_inclusive cp)" by simp_all
  show "edges_of pat (cp\<lparr>cp_pattern := pat\<rparr>)"
    using compile_pattern_best [of ok pat] c(4,5) by (auto simp: edges_of_def)
qed

lemma until_answer:
  assumes "usable env ctx" "idle s" "pat \<noteq> []" "cp_state cp = 0" "edges_of pat (cp\<lparr>cp_pattern := pat\<rparr>)"
  shows "\<exists>r. until_to_end rt toint env ctx strerror pat [] ready io es (cp, s) = Some r \<and>
    until.answer pat (cp_inclusive cp) (pending s @ io_data io @ io_data (evs_io es))
      (chunk.trouble env io \<or> chunk.trouble env (evs_io es) \<or> ReadTimeout \<in> set es)
      (ready \<and> ready_io io \<and> ready_io (evs_io es)) r"
proof -
  let ?cp = "cp\<lparr>cp_pattern := pat\<rparr>"
  have tr: "until.trouble env x = chunk.trouble env x" for x unfolding until.trouble_def chunk.trouble_def by blast
  have env: "env_ok env" "\<not> (raw_downstream env \<and> check_client_abort env \<and> \<not> downstream_event_ok env)"
    using assms(1) by (auto simp: usable_def)
  obtain b s1 where e: "ensure_bufs env s = (b, s1)" by fastforce
  have it: "receiveuntil_iterator rt toint env ctx strerror pat [] ready io (cp, s) =
      (if b then start_read env strerror (read_until env) ready io (?cp, s1\<lparr>rlen := 0, rest := 0\<rparr>) else Some (CallErr ''no memory'', io, ?cp, s1))"
    using assms(1,2,4) e by (auto simp: receiveuntil_iterator_def usable_def idle_def Let_def split: bool.splits)
  from ensure_bufs_ok [OF assms(2) env(1) e] show ?thesis
  proof (elim disjE conjE)
    assume "\<not> b" "\<exists>k n. palloc env k n = None"
    then show ?thesis unfolding until_to_end_def it until.answer_def chunk.trouble_def by (auto simp: await_read_def)
  next
    assume s1: "b" "idle s1" "unread s1 = pending s" "have_in s1"
    let ?s = "s1\<lparr>rlen := 0, rest := 0\<rparr>"
    have "until_going pat (cp_inclusive cp) [] (?cp, s2)"
      if "idle s2" "have_in s2" "sock_ok s2" "collected s2 = []" "rlen s2 = rlen ?s" for s2
      using that assms(3-5) scan_init [OF assms(3)]
      by (auto simp: until_going_def idle_def calm_def until_at_def intro!: exI [of _ 0])
    note start = this
    have p: "pending ?s = pending s" using s1(3,4) by (simp add: pending_def unread_def)
    have ok: "idle ?s" using idle_set_rest(1) [OF s1(2)] .
    have "\<exists>r. Option.bind (start_read env strerror (read_until env) ready io (?cp, ?s)) (await_read env strerror (read_until env) es) = Some r \<and>
      until.answer pat (cp_inclusive cp) (pending ?s @ io_data io @ io_data (evs_io es))
        (until.trouble env io \<or> until.trouble env (evs_io es) \<or> ReadTimeout \<in> set es) (ready \<and> ready_io io \<and> ready_io (evs_io es)) r"
      by (rule until.call_ok [OF _ ok env]) (rule start)
    then show ?thesis unfolding tr p until_to_end_def it using s1(1) by (simp only: if_True)
  qed
qed

text \<open>
  C26: the iterator of \<open>receiveuntil\<close> returns the text before the first occurrence of the pattern (with the
  pattern, when asked to include it) and consumes the pattern and no more, for every
  segmentation of the stream into packets, buffers and events; it waits only when the pattern has not come.
\<close>

theorem receiveuntil_first_match:
  assumes "tcp_receiveuntil rt field ok session args = Some (Inr (pat, cp))" "usable env ctx" "idle s"
    "smooth env io" "smooth env (evs_io es)" "ReadTimeout \<notin> set es" "stream = pending s @ io_data io @ io_data (evs_io es)"
  shows "\<exists>call io' cp' s' es'. until_to_end rt toint env ctx strerror pat [] ready io es (cp, s) = Some (call, io', cp', s', es') \<and>
    ((\<exists>text. call = CallRet [LString (text @ (if cp_inclusive cp then pat else []))] \<and>
        stream = text @ pat @ pending s' @ io_data (io' @ evs_io es') \<and> \<not> sublist pat (butlast (text @ pat)) \<and>
        idle s' \<and> cp_state cp' = 0)
     \<or> call = CallYield \<and> (ready \<and> ready_io io \<and> ready_io (evs_io es) \<longrightarrow> \<not> sublist pat stream))"
proof -
  note c = receiveuntil_closure [OF assms(1)]
  obtain call io' cp' s' es' where r: "until_to_end rt toint env ctx strerror pat [] ready io es (cp, s) = Some (call, io', cp', s', es')"
    and a: "until.answer pat (cp_inclusive cp) stream (chunk.trouble env io \<or> chunk.trouble env (evs_io es) \<or> ReadTimeout \<in> set es)
        (ready \<and> ready_io io \<and> ready_io (evs_io es)) (call, io', cp', s', es')"
    using until_answer [OF assms(2,3) c(1-3), of rt toint strerror ready io es] assms(7) by auto
  have "\<not> (chunk.trouble env io \<or> chunk.trouble env (evs_io es) \<or> ReadTimeout \<in> set es)" using assms(4-6) smooth_trouble by blast
  then have "(\<exists>text. call = CallRet [LString (text @ (if cp_inclusive cp then pat else []))] \<and>
        stream = text @ pat @ pending s' @ io_data (io' @ evs_io es') \<and> \<not> sublist pat (butlast (text @ pat)) \<and>
        idle s' \<and> cp_state cp' = 0)
     \<or> call = CallYield \<and> (ready \<and> ready_io io \<and> ready_io (evs_io es) \<longrightarrow> \<not> sublist pat stream)"
    using a unfolding until.answer_def
    by (fastforce simp: until_fin_def until_done_def until_going_def until_at_def scan_def)
  then show ?thesis using r by blast
qed

theorem receiveuntil_first_match_witness:
  "\<exists>cp call io' cp' s' es' text. tcp_receiveuntil demo_rt (\<lambda>_. LNil) (\<lambda>_. True) True [LString ''--x''] = Some (Inr (''--x'', cp)) \<and>
     until_to_end demo_rt uint demo_senv demo_ctx None ''--x'' [] True [RecvData ''b--'' True] [ReadReady [RecvData ''-xyz'' True]]
       (cp, demo_sock ''a'') = Some (call, io', cp', s', es') \<and>
     call = CallRet [LString text] \<and> ''ab---xyz'' = text @ ''--x'' @ pending s' @ io_data (io' @ evs_io es')"
proof -
  obtain rc r where r: "compile_pattern (\<lambda>_. True) ''--x'' = Some (rc, r)" "rc = NGX_OK"
    using compile_pattern_best [of "\<lambda>_. True" "''--x''"] by blast
  define cp where "cp = \<lparr>cp_pattern = [], cp_state = 0, cp_recovering = r, cp_inclusive = False\<rparr>"
  have c: "tcp_receiveuntil demo_rt (\<lambda>_. LNil) (\<lambda>_. True) True [LString ''--x''] = Some (Inr (''--x'', cp))"
    using r by (simp add: tcp_receiveuntil_def inclusive_option_def cp_def)
  have "sublist ''--x'' ''ab---xyz''" by code_simp
  then show ?thesis
    using receiveuntil_first_match [OF c demo_usable demo_idle [of "''a''"], of "[RecvData ''b--'' True]" "[ReadReady [RecvData ''-xyz'' True]]"
        "''ab---xyz''" uint None True] c
    by (auto simp: demo_pending demo_smooth cp_def)
qed

text \<open>
  With a size the iterator may return fewer bytes than asked for although the pattern has not come: following a
  recovery edge takes the new state from \<open>u->rest\<close>, not the number of bytes handed over. Here four
  bytes are asked for before the pattern and two are returned.
\<close>

lemma read_until_short_chunk:
  "compile_pattern (\<lambda>_. True) ''--x'' = Some (NGX_OK, Some [[\<lparr>chr = CHR ''-'', new_state = 2\<rparr>]])"
  "map_option (\<lambda>(rc, cp, s). (rc, collected s))
     (read_until demo_senv (\<lparr>cp_pattern = ''--x'', cp_state = 0, cp_recovering = Some [[\<lparr>chr = CHR ''-'', new_state = 2\<rparr>]],
        cp_inclusive = False\<rparr>, (demo_sock ''--------x'')\<lparr>rlen := 4, rest := 4\<rparr>) 9) = Some (NGX_OK, ''--'')"
  by code_simp+

end
