(* ===== verification/Socket_Pool.thy ===== *)
theory Socket_Pool
  imports Socket_Read
begin

section \<open>The keepalive pool of TCP cosockets (ngx\_stream\_lua\_socket\_tcp.c)\<close>

text \<open>
  Connections that a Lua program gives back with \<open>setkeepalive\<close> wait in a pool for the next \<open>connect\<close> with the
  same key. The theory models the pools of a worker with the socket objects that use them: the registry table
  of pools, their items, the connections with what their \<open>data\<close> points to, and the session cleanups. A
  connection is named by its descriptor. \<open>None\<close> as a result is an access to memory that has been freed or lies outside an
  allocation, or closing a closed connection.
\<close>

subsection \<open>State\<close>

type_synonym conn = "32 word"

record pool_item =
  item_conn :: conn
  item_sockaddr :: bytes
  item_reused :: nat

text \<open>The queues \<open>cache\<close> and \<open>free\<close> hold the numbers of items, head first.\<close>

record spool =
  pkey :: bytes
  active_connections :: "64 word"
  items :: "pool_item list"
  cache :: "nat list"
  free_items :: "nat list"

text \<open>The fields of an upstream structure that \<open>connect\<close>, \<open>setkeepalive\<close>, \<open>close\<close> and the pool use.\<close>

record usock =
  peer_conn :: "conn option"
  peer_sockaddr :: bytes
  reused :: nat
  socket_pool :: "nat option"
  u_cleanup :: "nat option"
  u_session :: nat
  u_read_closed :: bool
  u_write_closed :: bool
  u_conn_waiting :: bool
  u_read_waiting :: bool
  u_write_waiting :: bool
  u_unread :: bool
  u_raw :: bool

text \<open>\<open>c->data\<close>: the upstream of a socket object, or the item of a pool.\<close>

datatype cdata = InUse nat | InPool nat nat

text \<open>
  \<open>registry\<close> is the table of pools, \<open>pmem\<close> the pools that are allocated; \<open>usocks\<close> and \<open>skeys\<close> give the upstream
  and the key of a socket object, \<open>conns\<close> the open connections, \<open>ka_timer\<close> the idle timers, \<open>cleanups\<close> the
  cleanup handlers of the sessions.
\<close>

record pools =
  registry :: "bytes \<Rightarrow> nat option"
  pmem :: "nat \<Rightarrow> spool option"
  next_pool :: nat
  usocks :: "nat \<Rightarrow> usock option"
  skeys :: "nat \<Rightarrow> bytes option"
  conns :: "conn \<Rightarrow> cdata option"
  ka_timer :: "conn \<Rightarrow> int option"
  cleanups :: "nat \<Rightarrow> nat option"
  next_cln :: nat

definition init_pools :: pools where
  "init_pools = \<lparr>registry = Map.empty, pmem = Map.empty, next_pool = 0, usocks = Map.empty, skeys = Map.empty,
     conns = Map.empty, ka_timer = Map.empty, cleanups = Map.empty, next_cln = 0\<rparr>"

text \<open>What a call finds: its session, the configuration, the state of the connection's events, and what the event
  system, the allocators and a \<open>recv\<close> with \<open>MSG_PEEK\<close> answer.\<close>

record penv =
  e_session :: "nat option"
  e_buffered :: bool
  conf_pool_size :: nat
  conf_keepalive_timeout :: int
  conn_broken :: bool
  rev_ready :: bool
  rev_timedout :: bool
  conn_close :: bool
  peek_again :: bool
  read_event_ok :: bool
  udata_ok :: "nat \<Rightarrow> bool"
  cleanup_ok :: bool

definition put_pool :: "nat \<Rightarrow> spool \<Rightarrow> pools \<Rightarrow> pools" where
  "put_pool p sp st = st\<lparr>pmem := (pmem st)(p \<mapsto> sp)\<rparr>"

definition put_sock :: "nat \<Rightarrow> usock \<Rightarrow> pools \<Rightarrow> pools" where
  "put_sock ob u st = st\<lparr>usocks := (usocks st)(ob \<mapsto> u)\<rparr>"

subsection \<open>Closing\<close>

definition close_connection :: "conn \<Rightarrow> pools \<Rightarrow> pools option" where
  "close_connection c st = (if conns st c = None then None else Some (st\<lparr>conns := (conns st)(c := None), ka_timer := (ka_timer st)(c := None)\<rparr>))"

text \<open>The key is passed as a C string: it ends at the first NUL.\<close>

definition free_pool :: "spool \<Rightarrow> pools \<Rightarrow> pools" where
  "free_pool sp st = st\<lparr>registry := (registry st)(takeWhile (\<lambda>x. x \<noteq> CHR 0x00) (pkey sp) := None)\<rparr>"

definition dec_active :: "nat \<Rightarrow> pools \<Rightarrow> pools option" where
  "dec_active p st = do {
     sp \<leftarrow> pmem st p;
     let sp = sp\<lparr>active_connections := active_connections sp - 1\<rparr>;
     let st = put_pool p sp st;
     Some (if active_connections sp = 0 then free_pool sp st else st)
   }"

text \<open>The session's cleanup handlers: registration, and removal through \<open>u->cleanup\<close>.\<close>

definition add_cleanup :: "penv \<Rightarrow> nat \<Rightarrow> pools \<Rightarrow> (bool \<times> pools) option" where
  "add_cleanup env ob st = do {
     u \<leftarrow> usocks st ob;
     Some (if u_cleanup u \<noteq> None then (True, st)
           else if \<not> cleanup_ok env then (False, st)
           else (True, put_sock ob (u\<lparr>u_cleanup := Some (next_cln st)\<rparr>)
                   (st\<lparr>cleanups := (cleanups st)(next_cln st \<mapsto> ob), next_cln := next_cln st + 1\<rparr>)))
   }"

definition tcp_finalize :: "nat \<Rightarrow> pools \<Rightarrow> pools option" where
  "tcp_finalize ob st = do {
     u \<leftarrow> usocks st ob;
     let st = (case u_cleanup u of Some cln \<Rightarrow> st\<lparr>cleanups := (cleanups st)(cln := None)\<rparr> | None \<Rightarrow> st);
     let u = u\<lparr>u_cleanup := None, u_read_closed := True, u_write_closed := True\<rparr>;
     if u_raw u then Some (put_sock ob (u\<lparr>peer_conn := None\<rparr>) st)
     else case peer_conn u of
            None \<Rightarrow> Some (put_sock ob u st)
          | Some c \<Rightarrow> do {
              st \<leftarrow> close_connection c st;
              let st = put_sock ob (u\<lparr>peer_conn := None\<rparr>) st;
              if reused u = 0 then Some st
              else case socket_pool u of None \<Rightarrow> Some st | Some p \<Rightarrow> dec_active p st
            }
   }"

text \<open>The read event of a connection in a pool.\<close>

definition keepalive_close_handler :: "penv \<Rightarrow> conn \<Rightarrow> pools \<Rightarrow> (ngx_rc \<times> pools) option" where
  "keepalive_close_handler env c st =
     (if conns st c = None then None
      else if \<not> conn_close env \<and> \<not> rev_timedout env \<and> peek_again env \<and> read_event_ok env then Some (NGX_OK, st)
      else case conns st c of
             Some (InPool p i) \<Rightarrow> do {
               sp \<leftarrow> pmem st p;
               st \<leftarrow> close_connection c st;
               let sp = sp\<lparr>cache := remove1 i (cache sp), free_items := i # free_items sp\<rparr>;
               st \<leftarrow> dec_active p (put_pool p sp st);
               Some (NGX_DECLINED, st)
             }
           | _ \<Rightarrow> None)"

text \<open>The garbage collector destroys a pool: its connections are closed first.\<close>

fun shutdown_items :: "nat \<Rightarrow> nat list \<Rightarrow> pools \<Rightarrow> pools option" where
  "shutdown_items p [] st = Some st"
| "shutdown_items p (i # is) st = do {
     sp \<leftarrow> pmem st p;
     st \<leftarrow> close_connection (item_conn (items sp ! i)) st;
     shutdown_items p is (put_pool p (sp\<lparr>cache := is, free_items := i # free_items sp\<rparr>) st)
   }"

definition shutdown_pool :: "nat \<Rightarrow> pools \<Rightarrow> pools option" where
  "shutdown_pool p st = do {
     sp \<leftarrow> pmem st p;
     st \<leftarrow> shutdown_items p (cache sp) st;
     sp \<leftarrow> pmem st p;
     Some (put_pool p (sp\<lparr>active_connections := 0\<rparr>) st)
   }"

subsection \<open>Taking a connection from a pool\<close>

definition get_keepalive_peer :: "penv \<Rightarrow> bytes \<Rightarrow> nat \<Rightarrow> pools \<Rightarrow> (ngx_rc \<times> pools) option" where
  "get_keepalive_peer env key ob st =
     (case registry st key of
        None \<Rightarrow> Some (NGX_DECLINED, st)
      | Some p \<Rightarrow> do {
          sp \<leftarrow> pmem st p;
          u \<leftarrow> usocks st ob;
          let u = u\<lparr>socket_pool := Some p\<rparr>;
          case cache sp of
            [] \<Rightarrow> Some (NGX_DECLINED, put_sock ob u st)
          | i # is \<Rightarrow>
              (let it = items sp ! i; c = item_conn it
               in if i \<ge> length (items sp) \<or> conns st c = None then None
                  else do {
                    let st = put_pool p (sp\<lparr>cache := is, free_items := i # free_items sp\<rparr>) st;
                    let st = st\<lparr>conns := (conns st)(c \<mapsto> InUse ob), ka_timer := (ka_timer st)(c := None)\<rparr>;
                    let st = put_sock ob (u\<lparr>peer_conn := Some c, reused := item_reused it + 1\<rparr>) st;
                    (ok, st) \<leftarrow> add_cleanup env ob st;
                    Some (if ok then NGX_OK else NGX_ERROR, st)
                  })
        })"

definition busy :: "penv \<Rightarrow> usock \<Rightarrow> bytes option" where
  "busy env u =
     (if u_conn_waiting u then Some ''socket busy connecting''
      else if u_read_waiting u then Some ''socket busy reading''
      else if u_write_waiting u \<or> u_raw u \<and> e_buffered env then Some ''socket busy writing''
      else None)"

text \<open>
  \<open>connect\<close> up to the pool. \<open>args\<close> are the arguments after the object; \<open>field\<close> gives the field \<open>pool\<close> of the options table.
  \<open>Inl\<close> is an error raised or values returned, \<open>Inr\<close> the pool key and the port.
\<close>

definition pool_option :: "lua_rt \<Rightarrow> (lua_value \<Rightarrow> lua_value) \<Rightarrow> lua_value list \<Rightarrow> string + (bytes option \<times> lua_value list)" where
  "pool_option rt field args =
     (if (case last args of LTable _ \<Rightarrow> True | LList _ \<Rightarrow> True | _ \<Rightarrow> False) then
        (case field (last args) of
           LNumber x \<Rightarrow> Inr (Some (rt_tostring rt x), butlast args)
         | LString b \<Rightarrow> Inr (Some b, butlast args)
         | LNil \<Rightarrow> Inr (None, butlast args)
         | _ \<Rightarrow> Inl ''bad \"pool\" option type: %s'')
      else Inr (None, args))"

text \<open>
  The rest of \<open>connect\<close> parses and resolves the name and opens a connection, which is up to the resolver and the system: the name
  cannot be resolved, or later; the connection is refused, or it is opened with a new descriptor. An open connection is connected at once or
  when an event says so, or it has no memory pool, or its events cannot be handled. The messages of
  failures are theirs. \<open>c->data\<close> is set together with the connection.
\<close>

datatype progress = Connected | Connecting | NoPool | NoEvent bytes

datatype outcome = Unresolved bytes | Resolving | Refused bytes | Opened conn bytes progress

definition handle_conn_error :: "nat \<Rightarrow> pools \<Rightarrow> pools option" where
  "handle_conn_error ob st = do {
     st \<leftarrow> tcp_finalize ob st;
     u \<leftarrow> usocks st ob;
     Some (put_sock ob (u\<lparr>u_conn_waiting := False\<rparr>) st)
   }"

definition connect_fresh :: "penv \<Rightarrow> outcome \<Rightarrow> nat \<Rightarrow> pools \<Rightarrow> (call_result \<times> pools) option" where
  "connect_fresh env fresh ob st =
     (case fresh of
        Unresolved msg \<Rightarrow> Some (CallRet [LNil, LString msg], st)
      | Resolving \<Rightarrow> do { u \<leftarrow> usocks st ob; Some (CallYield, put_sock ob (u\<lparr>u_conn_waiting := True\<rparr>) st) }
      | Refused msg \<Rightarrow> do {
          (ok, st) \<leftarrow> add_cleanup env ob st;
          if \<not> ok then Some (CallRet [LNil, LString ''no memory''], st)
          else do { st \<leftarrow> tcp_finalize ob st; Some (CallRet [LNil, LString msg], st) }
        }
      | Opened c addr prog \<Rightarrow> do {
          u \<leftarrow> usocks st ob;
          let st = put_sock ob (u\<lparr>peer_conn := Some c, peer_sockaddr := addr\<rparr>) (st\<lparr>conns := (conns st)(c \<mapsto> InUse ob)\<rparr>);
          (ok, st) \<leftarrow> add_cleanup env ob st;
          if \<not> ok then Some (CallRet [LNil, LString ''no memory''], st)
          else case prog of
                 Connected \<Rightarrow> Some (CallRet [LNumber (num_of_int 1)], st)
               | Connecting \<Rightarrow> do { u \<leftarrow> usocks st ob; Some (CallYield, put_sock ob (u\<lparr>u_conn_waiting := True\<rparr>) st) }
               | NoPool \<Rightarrow> Some (CallRet [LNil, LString ''no memory''], st)
               | NoEvent msg \<Rightarrow> do { st \<leftarrow> handle_conn_error ob st; Some (CallRet [LNil, LString msg], st) }
        })"

text \<open>The event of a connection that is being established.\<close>

definition connected_handler :: "bool \<Rightarrow> bool \<Rightarrow> bool \<Rightarrow> bool \<Rightarrow> nat \<Rightarrow> pools \<Rightarrow> pools option" where
  "connected_handler timedout test_ok wev_ok rev_ok ob st = do {
     u \<leftarrow> usocks st ob;
     if peer_conn u = None then None
     else if timedout then handle_conn_error ob st
     else if \<not> test_ok then handle_conn_error ob st
     else if \<not> wev_ok then handle_conn_error ob st
     else if \<not> rev_ok then handle_conn_error ob st
     else Some (put_sock ob (u\<lparr>u_conn_waiting := False\<rparr>) st)
   }"

text \<open>The resolver's answer for a \<open>connect\<close> that waits for it.\<close>

definition resolve_done :: "penv \<Rightarrow> outcome \<Rightarrow> nat \<Rightarrow> pools \<Rightarrow> (call_result \<times> pools) option" where
  "resolve_done env fresh ob st = do {
     u \<leftarrow> usocks st ob;
     let st = put_sock ob (u\<lparr>u_conn_waiting := False\<rparr>) st;
     case fresh of
       Unresolved msg \<Rightarrow> do { st \<leftarrow> tcp_finalize ob st; Some (CallRet [LNil, LString msg], st) }
     | _ \<Rightarrow> connect_fresh env fresh ob st
   }"

definition blank_usock :: "nat \<Rightarrow> usock" where
  "blank_usock s = \<lparr>peer_conn = None, peer_sockaddr = [], reused = 0, socket_pool = None, u_cleanup = None, u_session = s,
     u_read_closed = False, u_write_closed = False, u_conn_waiting = False, u_read_waiting = False, u_write_waiting = False,
     u_unread = False, u_raw = False\<rparr>"

definition connect_peer ::
  "penv \<Rightarrow> nat \<Rightarrow> nat \<Rightarrow> bytes \<Rightarrow> outcome \<Rightarrow> pools \<Rightarrow> (call_result \<times> pools) option" where
  "connect_peer env s ob key fresh st = do {
     (rc, st) \<leftarrow> get_keepalive_peer env key ob (put_sock ob (blank_usock s) st);
     if rc = NGX_OK then Some (CallRet [LNumber (num_of_int 1)], st)
     else if rc = NGX_ERROR then Some (CallRet [LNil, LString ''error in get keepalive peer''], st)
     else connect_fresh env fresh ob st
   }"

text \<open>The upstream of an object that was connected before is finalized and used again.\<close>

definition connect_again ::
  "penv \<Rightarrow> nat \<Rightarrow> nat \<Rightarrow> bytes \<Rightarrow> outcome \<Rightarrow> pools \<Rightarrow> (call_result \<times> pools) option" where
  "connect_again env s ob key fresh st =
     (case usocks st ob of
        None \<Rightarrow> connect_peer env s ob key fresh st
      | Some u \<Rightarrow>
          (if u_session u \<noteq> s then Some (CallErr ''bad request'', st)
           else case busy env u of
                  Some msg \<Rightarrow> Some (CallRet [LNil, LString msg], st)
                | None \<Rightarrow>
                    (if u_raw u then Some (CallErr ''attempt to re-connect a request socket'', st)
                     else if peer_conn u = None then connect_peer env s ob key fresh st
                     else do { st \<leftarrow> tcp_finalize ob st; connect_peer env s ob key fresh st })))"

definition tcp_connect ::
  "lua_rt \<Rightarrow> (lua_number \<Rightarrow> int) \<Rightarrow> (lua_value \<Rightarrow> lua_value) \<Rightarrow> penv \<Rightarrow> nat \<Rightarrow> outcome
   \<Rightarrow> lua_value list \<Rightarrow> pools \<Rightarrow> (call_result \<times> pools) option" where
  "tcp_connect rt toint field env ob fresh args st =
     (if args = [] \<or> length args > 3 then
        Some (CallErr ''ngx.socket connect: expecting 2, 3, or 4 arguments (including the object), but seen %d'', st)
      else case (e_session env, check_string rt (args ! 0)) of
        (None, _) \<Rightarrow> Some (CallErr ''no request found'', st)
      | (Some s, None) \<Rightarrow> Some (CallErr ''string expected'', st)
      | (Some s, Some host) \<Rightarrow>
          (case pool_option rt field args of
             Inl e \<Rightarrow> Some (CallErr e, st)
           | Inr (custom, left) \<Rightarrow>
               (let st = (case custom of Some k \<Rightarrow> st\<lparr>skeys := (skeys st)(ob \<mapsto> k)\<rparr> | None \<Rightarrow> st)
                in case (if length left = 2 then map_option (\<lambda>x. int32 (toint x)) (check_number rt (left ! 1)) else Some 0) of
                     None \<Rightarrow> Some (CallErr ''number expected'', st)
                   | Some port \<Rightarrow>
                       (if port < 0 \<or> port > 65536 then Some (CallRet [LNil, LString ''bad port number: %d''], st)
                        else
                          (let key = (case custom of
                                 Some k \<Rightarrow> k
                               | None \<Rightarrow> (if length left = 2 then host @ '':'' @ the (check_string rt (left ! 1)) else host))
                           in connect_again env s ob key fresh (st\<lparr>skeys := (skeys st)(ob \<mapsto> key)\<rparr>))))))"

subsection \<open>Giving a connection to a pool\<close>

text \<open>
  The size of a new pool's memory (\<open>size_t\<close> arithmetic wraps), with the structure sizes of a 64-bit host, and whether
  the items lie inside it.
\<close>

definition key_space :: "nat \<Rightarrow> nat" where
  "key_space n = (n + 1 + 7) div 8 * 8"

definition pool_bytes :: "nat \<Rightarrow> nat \<Rightarrow> nat" where
  "pool_bytes klen n = (56 + key_space klen - 1 + 176 * n) mod 2 ^ 64"

definition items_inside :: "nat \<Rightarrow> nat \<Rightarrow> bool" where
  "items_inside klen n \<longleftrightarrow> 48 + key_space klen + 176 * n \<le> pool_bytes klen n"

definition new_spool :: "bytes \<Rightarrow> nat \<Rightarrow> spool" where
  "new_spool key n = \<lparr>pkey = key, active_connections = 0, items = replicate n \<lparr>item_conn = 0, item_sockaddr = [], item_reused = 0\<rparr>,
     cache = [], free_items = rev [0..<n]\<rparr>"

definition pool_size :: "lua_rt \<Rightarrow> (lua_number \<Rightarrow> int) \<Rightarrow> penv \<Rightarrow> lua_value list \<Rightarrow> nat option" where
  "pool_size rt toint env args =
     (if length args = 2 then map_option (\<lambda>x. nat (toint x mod 2 ^ 64)) (check_number rt (args ! 1)) else Some (conf_pool_size env))"

definition find_pool ::
  "lua_rt \<Rightarrow> (lua_number \<Rightarrow> int) \<Rightarrow> penv \<Rightarrow> bytes \<Rightarrow> lua_value list \<Rightarrow> pools \<Rightarrow> (lua_result + nat \<times> pools) option" where
  "find_pool rt toint env key args st =
     (case registry st key of
        Some p \<Rightarrow> Some (Inr (p, st))
      | None \<Rightarrow>
          (case pool_size rt toint env args of
             None \<Rightarrow> Some (Inl (LErr ''number expected''))
           | Some n \<Rightarrow>
               (if n = 0 then Some (Inl (LRet [LNil, LString ''zero pool size'']))
                else if \<not> udata_ok env (pool_bytes (length key) n) then Some (Inl (LErr ''not enough memory''))
                else if \<not> items_inside (length key) n then None
                else
                  (let p = next_pool st
                   in Some (Inr (p, put_pool p (new_spool key n)
                        (st\<lparr>registry := (registry st)(key \<mapsto> p), next_pool := p + 1\<rparr>)))))))"

text \<open>The item for the connection: a free one, or the one idle for longest, whose connection is closed.\<close>

definition claim_item :: "nat \<Rightarrow> pools \<Rightarrow> (nat \<times> pools) option" where
  "claim_item p st = do {
     sp \<leftarrow> pmem st p;
     case free_items sp of
       i # is \<Rightarrow> Some (i, put_pool p (sp\<lparr>free_items := is\<rparr>) st)
     | [] \<Rightarrow>
         (if cache sp = [] then None
          else
            (let i = last (cache sp)
             in do {
                  st \<leftarrow> close_connection (item_conn (items sp ! i)) st;
                  Some (i, put_pool p (sp\<lparr>cache := butlast (cache sp), active_connections := active_connections sp - 1\<rparr>) st)
                }))
   }"

definition store_conn :: "nat \<Rightarrow> nat \<Rightarrow> conn \<Rightarrow> nat \<Rightarrow> usock \<Rightarrow> pools \<Rightarrow> pools option" where
  "store_conn p i c ob u st = do {
     sp \<leftarrow> pmem st p;
     if i \<ge> length (items sp) then None
     else
       (let sp = sp\<lparr>items := (items sp)[i := (items sp ! i)\<lparr>item_conn := c\<rparr>], cache := i # cache sp,
                    active_connections := (if reused u = 0 then active_connections sp + 1 else active_connections sp)\<rparr>
        in Some (put_sock ob (u\<lparr>peer_conn := None\<rparr>) (put_pool p sp (st\<lparr>ka_timer := (ka_timer st)(c := None)\<rparr>))))
   }"

definition label_conn :: "nat \<Rightarrow> nat \<Rightarrow> conn \<Rightarrow> usock \<Rightarrow> int \<Rightarrow> pools \<Rightarrow> pools option" where
  "label_conn p i c u timeout st = do {
     sp \<leftarrow> pmem st p;
     if i \<ge> length (items sp) then None
     else Some (put_pool p (sp\<lparr>items := (items sp)[i := (items sp ! i)\<lparr>item_sockaddr := peer_sockaddr u, item_reused := reused u\<rparr>]\<rparr>)
            (st\<lparr>conns := (conns st)(c \<mapsto> InPool p i),
                ka_timer := (ka_timer st)(c := (if timeout = 0 then None else Some timeout))\<rparr>))
   }"

definition keep_conn ::
  "lua_rt \<Rightarrow> (lua_number \<Rightarrow> int) \<Rightarrow> penv \<Rightarrow> nat \<Rightarrow> usock \<Rightarrow> conn \<Rightarrow> lua_value list \<Rightarrow> nat \<Rightarrow> pools \<Rightarrow> (lua_result \<times> pools) option" where
  "keep_conn rt toint env ob u c args p st = do {
     (i, st) \<leftarrow> claim_item p st;
     st \<leftarrow> store_conn p i c ob u st;
     case (if args = [] then Some (conf_keepalive_timeout env) else map_option (\<lambda>x. toint x mod 2 ^ 64) (check_number rt (args ! 0))) of
       None \<Rightarrow> Some (LErr ''number expected'', st)
     | Some timeout \<Rightarrow> do {
         st \<leftarrow> label_conn p i c u timeout st;
         (rc, st) \<leftarrow> (if rev_ready env then keepalive_close_handler env c st else Some (NGX_OK, st));
         if rc \<noteq> NGX_OK then Some (LRet [LNil, LString ''connection in dubious state''], st)
         else do {
           st \<leftarrow> tcp_finalize ob st;
           Some (LRet [LNumber (num_of_int 1)], st)
         }
       }
   }"

definition tcp_setkeepalive ::
  "lua_rt \<Rightarrow> (lua_number \<Rightarrow> int) \<Rightarrow> penv \<Rightarrow> nat \<Rightarrow> lua_value list \<Rightarrow> pools \<Rightarrow> (lua_result \<times> pools) option" where
  "tcp_setkeepalive rt toint env ob args st =
     (if length args > 2 then Some (LErr ''expecting 1 to 3 arguments (including the object), but got %d'', st)
      else case skeys st ob of
        None \<Rightarrow> Some (LRet [LNil, LString ''key not found''], st)
      | Some key \<Rightarrow>
     (case usocks st ob of
        None \<Rightarrow> Some (LRet [LNil, LString ''closed''], st)
      | Some u \<Rightarrow>
     (case peer_conn u of
        None \<Rightarrow> Some (LRet [LNil, LString ''closed''], st)
      | Some c \<Rightarrow>
          (if u_read_closed u \<or> u_write_closed u then Some (LRet [LNil, LString ''closed''], st)
           else if e_session env = None then Some (LErr ''no request found'', st)
           else if e_session env \<noteq> Some (u_session u) then Some (LErr ''bad request'', st)
           else case busy env u of
                  Some msg \<Rightarrow> Some (LRet [LNil, LString msg], st)
                | None \<Rightarrow>
                    (if u_unread u then Some (LRet [LNil, LString ''unread data in buffer''], st)
                     else if conn_broken env then Some (LRet [LNil, LString ''invalid connection''], st)
                     else if \<not> read_event_ok env then Some (LRet [LNil, LString ''failed to handle read event''], st)
                     else
                       (case find_pool rt toint env key args st of
                          None \<Rightarrow> None
                        | Some (Inl r) \<Rightarrow> Some (r, st)
                        | Some (Inr (p, st)) \<Rightarrow> keep_conn rt toint env ob u c args p st))))))"

definition tcp_close :: "penv \<Rightarrow> nat \<Rightarrow> pools \<Rightarrow> (lua_result \<times> pools) option" where
  "tcp_close env ob st =
     (case e_session env of
        None \<Rightarrow> Some (LErr ''no request found'', st)
      | Some s \<Rightarrow>
     (case usocks st ob of
        None \<Rightarrow> Some (LRet [LNil, LString ''closed''], st)
      | Some u \<Rightarrow>
          (if peer_conn u = None \<or> u_read_closed u \<and> u_write_closed u then Some (LRet [LNil, LString ''closed''], st)
           else if u_session u \<noteq> s then Some (LErr ''bad request'', st)
           else case busy env u of
                  Some msg \<Rightarrow> Some (LRet [LNil, LString msg], st)
                | None \<Rightarrow>
                    (if u_raw u then Some (LRet [LNil, LString ''attempt to close a request socket''], st)
                     else do { st \<leftarrow> tcp_finalize ob st; Some (LRet [LNumber (num_of_int 1)], st) }))))"

definition tcp_getreusedtimes :: "nat \<Rightarrow> pools \<Rightarrow> lua_result" where
  "tcp_getreusedtimes ob st =
     (case usocks st ob of
        None \<Rightarrow> LRet [LNil, LString ''closed'']
      | Some u \<Rightarrow>
          (if peer_conn u = None \<or> u_read_closed u \<and> u_write_closed u then LRet [LNil, LString ''closed'']
           else LRet [LNumber (num_of_int (int (reused u)))]))"

text \<open>The garbage collector destroys a socket object; a session ends and runs a cleanup handler; an event
  of a connection in use reaches its upstream.\<close>

definition upstream_destroy :: "nat \<Rightarrow> pools \<Rightarrow> pools option" where
  "upstream_destroy ob st = do {
     u \<leftarrow> usocks st ob;
     st \<leftarrow> (if u_cleanup u \<noteq> None then tcp_finalize ob st else Some st);
     Some (st\<lparr>usocks := (usocks st)(ob := None), skeys := (skeys st)(ob := None)\<rparr>)
   }"

definition tcp_cleanup :: "nat \<Rightarrow> pools \<Rightarrow> pools option" where
  "tcp_cleanup cln st = (case cleanups st cln of None \<Rightarrow> Some st | Some ob \<Rightarrow> tcp_finalize ob st)"

definition gc_pool :: "nat \<Rightarrow> pools \<Rightarrow> pools option" where
  "gc_pool p st = do {
     st \<leftarrow> shutdown_pool p st;
     Some (st\<lparr>pmem := (pmem st)(p := None)\<rparr>)
   }"

end
