(* ===== verification/Socket_Pool_Inv.thy ===== *)
theory Socket_Pool_Inv
  imports Socket_Pool
begin

section \<open>The invariant of the keepalive pools\<close>

text \<open>
  Every open connection has one holder, the items of a pool are in its two queues, and the count of active
  connections is exact. The lemmas say what each step of a pool operation does to the parts of the invariant.
\<close>

subsection \<open>Invariant\<close>

text \<open>
  The pool a connection counts for: the one it waits in, or the one it was taken from. The number of active
  connections of a pool is that of its members.
\<close>

definition member_of :: "pools \<Rightarrow> conn \<Rightarrow> nat option" where
  "member_of st c =
     (case conns st c of
        None \<Rightarrow> None
      | Some (InPool p i) \<Rightarrow> Some p
      | Some (InUse ob) \<Rightarrow> (case usocks st ob of Some u \<Rightarrow> (if reused u \<noteq> 0 then socket_pool u else None) | None \<Rightarrow> None))"

definition members :: "pools \<Rightarrow> nat \<Rightarrow> conn set" where
  "members st p = {c. member_of st c = Some p}"

definition registered :: "pools \<Rightarrow> nat \<Rightarrow> bool" where
  "registered st p \<longleftrightarrow> (\<exists>k. registry st k = Some p)"

definition reg_ok :: "pools \<Rightarrow> bool" where
  "reg_ok st \<longleftrightarrow> (\<forall>k p. registry st k = Some p \<longrightarrow> CHR 0x00 \<notin> set k \<and> (\<exists>sp. pmem st p = Some sp \<and> pkey sp = k)) \<and>
     (\<forall>p. pmem st p \<noteq> None \<longrightarrow> p < next_pool st)"

definition wf_ok :: "pools \<Rightarrow> bool" where
  "wf_ok st \<longleftrightarrow> (\<forall>p sp. pmem st p = Some sp \<longrightarrow> distinct (cache sp @ free_items sp) \<and>
     set (cache sp @ free_items sp) = {..<length (items sp)} \<and> items sp \<noteq> [])"

text \<open>Every connection has one holder: an item of a pool's cache or a socket object.\<close>

definition own_ok :: "pools \<Rightarrow> bool" where
  "own_ok st \<longleftrightarrow>
     (\<forall>p sp i. pmem st p = Some sp \<longrightarrow> i \<in> set (cache sp) \<longrightarrow> conns st (item_conn (items sp ! i)) = Some (InPool p i)) \<and>
     (\<forall>c p i. conns st c = Some (InPool p i) \<longrightarrow> pmem st p \<noteq> None) \<and>
     (\<forall>c p i sp. conns st c = Some (InPool p i) \<longrightarrow> pmem st p = Some sp \<longrightarrow> i \<in> set (cache sp) \<and> item_conn (items sp ! i) = c)"

definition use_ok :: "pools \<Rightarrow> bool" where
  "use_ok st \<longleftrightarrow>
     (\<forall>ob u c. usocks st ob = Some u \<longrightarrow> peer_conn u = Some c \<longrightarrow> conns st c = Some (InUse ob) \<and> u_cleanup u \<noteq> None) \<and>
     (\<forall>c ob. conns st c = Some (InUse ob) \<longrightarrow> usocks st ob \<noteq> None) \<and>
     (\<forall>c ob u. conns st c = Some (InUse ob) \<longrightarrow> usocks st ob = Some u \<longrightarrow> peer_conn u = Some c) \<and>
     (\<forall>ob u. usocks st ob = Some u \<longrightarrow> \<not> u_raw u)"

text \<open>A reused connection belongs to a pool in the registry, under the key of its socket object (except for objects
  in \<open>E\<close>).\<close>

definition lend_ok :: "nat set \<Rightarrow> pools \<Rightarrow> bool" where
  "lend_ok E st \<longleftrightarrow> (\<forall>ob u. usocks st ob = Some u \<and> peer_conn u \<noteq> None \<and> reused u \<noteq> 0 \<longrightarrow>
     (\<exists>k p. socket_pool u = Some p \<and> registry st k = Some p \<and> (ob \<in> E \<or> skeys st ob = Some k)))"

text \<open>\<open>X = Some p\<close>: a member of pool \<open>p\<close> has gone and is still counted.\<close>

definition count_ok :: "nat option \<Rightarrow> pools \<Rightarrow> bool" where
  "count_ok X st \<longleftrightarrow>
     (\<forall>p sp. pmem st p = Some sp \<longrightarrow>
        active_connections sp = of_nat (card (members st p) + (if X = Some p then 1 else 0)) \<and>
        (registered st p \<or> members st p = {})) \<and>
     (\<forall>p. X = Some p \<longrightarrow> registered st p)"

definition cln_ok :: "pools \<Rightarrow> bool" where
  "cln_ok st \<longleftrightarrow>
     (\<forall>i ob. cleanups st i = Some ob \<longrightarrow> i < next_cln st \<and> usocks st ob \<noteq> None) \<and>
     (\<forall>i ob u. cleanups st i = Some ob \<longrightarrow> usocks st ob = Some u \<longrightarrow> u_cleanup u = Some i) \<and>
     (\<forall>ob u i. usocks st ob = Some u \<longrightarrow> u_cleanup u = Some i \<longrightarrow> cleanups st i = Some ob)"

definition pinv :: "nat option \<Rightarrow> nat set \<Rightarrow> pools \<Rightarrow> bool" where
  "pinv X E st \<longleftrightarrow> reg_ok st \<and> wf_ok st \<and> own_ok st \<and> use_ok st \<and> lend_ok E st \<and> count_ok X st \<and> cln_ok st"

lemma pinvD:
  assumes "pinv X E st"
  shows "reg_ok st" "wf_ok st" "own_ok st" "use_ok st" "lend_ok E st" "count_ok X st" "cln_ok st"
  using assms by (simp_all add: pinv_def)

text \<open>The parts of the invariant as rules.\<close>

lemma reg_okI:
  assumes "\<And>k p. registry st k = Some p \<Longrightarrow> CHR 0x00 \<notin> set k" "\<And>k p. registry st k = Some p \<Longrightarrow> \<exists>sp. pmem st p = Some sp \<and> pkey sp = k"
    "\<And>p sp. pmem st p = Some sp \<Longrightarrow> p < next_pool st"
  shows "reg_ok st"
  using assms unfolding reg_ok_def by blast

lemma reg_okD:
  assumes "reg_ok st"
  shows "registry st k = Some p \<Longrightarrow> CHR 0x00 \<notin> set k" "registry st k = Some p \<Longrightarrow> \<exists>sp. pmem st p = Some sp \<and> pkey sp = k"
    "pmem st p = Some sp \<Longrightarrow> p < next_pool st" "registry st k = Some p \<Longrightarrow> pmem st p = Some sp \<Longrightarrow> pkey sp = k"
  using assms unfolding reg_ok_def by fastforce+

lemma wf_okD:
  assumes "wf_ok st" "pmem st p = Some sp"
  shows "distinct (cache sp @ free_items sp)" "set (cache sp @ free_items sp) = {..<length (items sp)}" "items sp \<noteq> []"
    "i \<in> set (cache sp) \<Longrightarrow> i < length (items sp)" "i \<in> set (free_items sp) \<Longrightarrow> i < length (items sp)"
proof -
  show d: "distinct (cache sp @ free_items sp)" "set (cache sp @ free_items sp) = {..<length (items sp)}" "items sp \<noteq> []"
    using assms unfolding wf_ok_def by blast+
  have "i \<in> set (cache sp @ free_items sp) \<longleftrightarrow> i < length (items sp)" using d(2) by simp
  then show "i \<in> set (cache sp) \<Longrightarrow> i < length (items sp)" "i \<in> set (free_items sp) \<Longrightarrow> i < length (items sp)" by simp_all
qed

lemma own_okI:
  assumes "\<And>p sp i. pmem st p = Some sp \<Longrightarrow> i \<in> set (cache sp) \<Longrightarrow> conns st (item_conn (items sp ! i)) = Some (InPool p i)"
    "\<And>c p i. conns st c = Some (InPool p i) \<Longrightarrow> pmem st p \<noteq> None"
    "\<And>c p i sp. conns st c = Some (InPool p i) \<Longrightarrow> pmem st p = Some sp \<Longrightarrow> i \<in> set (cache sp) \<and> item_conn (items sp ! i) = c"
  shows "own_ok st"
  using assms unfolding own_ok_def by blast

lemma own_okD:
  assumes "own_ok st"
  shows "pmem st p = Some sp \<Longrightarrow> i \<in> set (cache sp) \<Longrightarrow> conns st (item_conn (items sp ! i)) = Some (InPool p i)"
    "conns st c = Some (InPool p i) \<Longrightarrow> \<exists>sp. pmem st p = Some sp"
    "conns st c = Some (InPool p i) \<Longrightarrow> pmem st p = Some sp \<Longrightarrow> i \<in> set (cache sp) \<and> item_conn (items sp ! i) = c"
  using assms unfolding own_ok_def by blast+

lemma use_okI:
  assumes "\<And>ob u c. usocks st ob = Some u \<Longrightarrow> peer_conn u = Some c \<Longrightarrow> conns st c = Some (InUse ob) \<and> u_cleanup u \<noteq> None"
    "\<And>c ob. conns st c = Some (InUse ob) \<Longrightarrow> usocks st ob \<noteq> None"
    "\<And>c ob u. conns st c = Some (InUse ob) \<Longrightarrow> usocks st ob = Some u \<Longrightarrow> peer_conn u = Some c"
    "\<And>ob u. usocks st ob = Some u \<Longrightarrow> \<not> u_raw u"
  shows "use_ok st"
  using assms unfolding use_ok_def by blast

lemma use_okD:
  assumes "use_ok st"
  shows "usocks st ob = Some u \<Longrightarrow> peer_conn u = Some c \<Longrightarrow> conns st c = Some (InUse ob)"
    "usocks st ob = Some u \<Longrightarrow> peer_conn u = Some c \<Longrightarrow> \<exists>i. u_cleanup u = Some i"
    "conns st c = Some (InUse ob) \<Longrightarrow> \<exists>u. usocks st ob = Some u"
    "conns st c = Some (InUse ob) \<Longrightarrow> usocks st ob = Some u \<Longrightarrow> peer_conn u = Some c"
    "usocks st ob = Some u \<Longrightarrow> \<not> u_raw u"
  using assms unfolding use_ok_def by blast+

lemma lend_okI:
  assumes "\<And>ob u c. usocks st ob = Some u \<Longrightarrow> peer_conn u = Some c \<Longrightarrow> reused u \<noteq> 0 \<Longrightarrow>
     \<exists>k p. socket_pool u = Some p \<and> registry st k = Some p \<and> (ob \<in> E \<or> skeys st ob = Some k)"
  shows "lend_ok E st"
  using assms unfolding lend_ok_def by blast

lemma lend_okD:
  assumes "lend_ok E st" "usocks st ob = Some u" "peer_conn u = Some c" "reused u \<noteq> 0"
  shows "\<exists>k p. socket_pool u = Some p \<and> registry st k = Some p \<and> (ob \<in> E \<or> skeys st ob = Some k)"
  using assms unfolding lend_ok_def by blast

lemma count_okI:
  assumes "\<And>p sp. pmem st p = Some sp \<Longrightarrow> active_connections sp = of_nat (card (members st p) + (if X = Some p then 1 else 0))"
    "\<And>p sp. pmem st p = Some sp \<Longrightarrow> registered st p \<or> members st p = {}" "\<And>p. X = Some p \<Longrightarrow> registered st p"
  shows "count_ok X st"
  using assms unfolding count_ok_def by blast

lemma count_okD:
  assumes "count_ok X st"
  shows "pmem st p = Some sp \<Longrightarrow> active_connections sp = of_nat (card (members st p) + (if X = Some p then 1 else 0))"
    "pmem st p = Some sp \<Longrightarrow> registered st p \<or> members st p = {}" "X = Some p \<Longrightarrow> registered st p"
  using assms unfolding count_ok_def by blast+

lemma cln_okI:
  assumes "\<And>i ob. cleanups st i = Some ob \<Longrightarrow> i < next_cln st"
    "\<And>i ob. cleanups st i = Some ob \<Longrightarrow> usocks st ob \<noteq> None"
    "\<And>i ob u. cleanups st i = Some ob \<Longrightarrow> usocks st ob = Some u \<Longrightarrow> u_cleanup u = Some i"
    "\<And>ob u i. usocks st ob = Some u \<Longrightarrow> u_cleanup u = Some i \<Longrightarrow> cleanups st i = Some ob"
  shows "cln_ok st"
  using assms unfolding cln_ok_def by blast

lemma cln_okD:
  assumes "cln_ok st"
  shows "cleanups st i = Some ob \<Longrightarrow> i < next_cln st" "cleanups st i = Some ob \<Longrightarrow> \<exists>u. usocks st ob = Some u"
    "cleanups st i = Some ob \<Longrightarrow> usocks st ob = Some u \<Longrightarrow> u_cleanup u = Some i"
    "usocks st ob = Some u \<Longrightarrow> u_cleanup u = Some i \<Longrightarrow> cleanups st i = Some ob"
  using assms unfolding cln_ok_def by blast+

text \<open>What each part depends on.\<close>

lemma reg_ok_frame: "reg_ok st \<Longrightarrow> registry st' = registry st \<Longrightarrow> pmem st' = pmem st \<Longrightarrow> next_pool st' = next_pool st \<Longrightarrow> reg_ok st'"
  by (simp only: reg_ok_def)

lemma wf_ok_frame: "wf_ok st \<Longrightarrow> pmem st' = pmem st \<Longrightarrow> wf_ok st'"
  by (simp only: wf_ok_def)

lemma own_ok_frame: "own_ok st \<Longrightarrow> pmem st' = pmem st \<Longrightarrow> conns st' = conns st \<Longrightarrow> own_ok st'"
  by (simp only: own_ok_def)

lemma use_ok_frame: "use_ok st \<Longrightarrow> usocks st' = usocks st \<Longrightarrow> conns st' = conns st \<Longrightarrow> use_ok st'"
  by (simp only: use_ok_def)

lemma lend_ok_frame: "lend_ok E st \<Longrightarrow> usocks st' = usocks st \<Longrightarrow> registry st' = registry st \<Longrightarrow> skeys st' = skeys st \<Longrightarrow> lend_ok E st'"
  by (simp only: lend_ok_def)

lemma count_ok_frame: "count_ok X st \<Longrightarrow> pmem st' = pmem st \<Longrightarrow> members st' = members st \<Longrightarrow> registry st' = registry st \<Longrightarrow> count_ok X st'"
  by (simp only: count_ok_def registered_def)

lemma cln_ok_frame: "cln_ok st \<Longrightarrow> usocks st' = usocks st \<Longrightarrow> cleanups st' = cleanups st \<Longrightarrow> next_cln st' = next_cln st \<Longrightarrow> cln_ok st'"
  by (simp only: cln_ok_def)

lemmas pool_upd [simp] = put_pool_def put_sock_def

lemma pinv_init: "pinv None {} init_pools"
  by (simp add: pinv_def init_pools_def reg_ok_def wf_ok_def own_ok_def use_ok_def lend_ok_def count_ok_def cln_ok_def)

text \<open>Counting the members.\<close>

lemma members_frame: "usocks st' = usocks st \<Longrightarrow> conns st' = conns st \<Longrightarrow> members st' = members st"
  by (rule ext) (simp only: members_def member_of_def)

lemma members_fun_upd:
  assumes "member_of st' = (member_of st)(c := v)"
  shows "members st' p = (if v = Some p then insert c (members st p) else members st p - {c})"
  unfolding members_def assms by auto

lemma card_members_upd:
  assumes "member_of st' = (member_of st)(c := v)"
  shows "card (members st' p) + (if member_of st c = Some p then 1 else 0) = card (members st p) + (if v = Some p then 1 else 0)"
proof -
  have m: "member_of st c = Some p \<longleftrightarrow> c \<in> members st p" by (simp add: members_def)
  show ?thesis
  proof (cases "c \<in> members st p")
    case True
    then have "card (members st p) = Suc (card (members st p - {c}))" by (intro card.remove) auto
    then show ?thesis unfolding members_fun_upd [OF assms] m using True by (auto simp: insert_absorb)
  next
    case False
    then show ?thesis unfolding members_fun_upd [OF assms] m by simp
  qed
qed

lemma card_members_bound: "card (members st p) \<le> 2 ^ 32"
proof -
  have "card (members st p) \<le> card (UNIV :: conn set)" by (rule card_mono) auto
  then show ?thesis by (simp add: card_word)
qed

lemma count_zero: "(of_nat (card (members st p)) :: 64 word) = 0 \<longleftrightarrow> members st p = {}"
proof -
  have "card (members st p) < 2 ^ 64" using card_members_bound [of st p] by simp
  then have "(of_nat (card (members st p)) :: 64 word) = 0 \<longleftrightarrow> card (members st p) = 0"
    unfolding word_of_nat_eq_0_iff using nat_dvd_not_less by auto
  then show ?thesis by simp
qed

text \<open>Nothing of the pools changes when an upstream keeps its connection, its pool and its cleanup.\<close>

lemma pinv_flags:
  assumes "pinv X E st" "usocks st ob = Some u" "peer_conn u' = peer_conn u" "reused u' = reused u" "socket_pool u' = socket_pool u"
    "u_cleanup u' = u_cleanup u" "\<not> u_raw u'"
  shows "pinv X E (put_sock ob u' st)"
proof -
  have "member_of (put_sock ob u' st) = member_of st"
    using assms(2,4,5) by (auto simp: member_of_def fun_eq_iff split: option.splits cdata.splits)
  then have m: "members (put_sock ob u' st) = members st" by (simp add: members_def fun_eq_iff)
  note p = pinvD [OF assms(1)]
  show ?thesis
    unfolding pinv_def
  proof (intro conjI)
    show "reg_ok (put_sock ob u' st)" "wf_ok (put_sock ob u' st)" "own_ok (put_sock ob u' st)"
      using p(1-3) by (simp_all add: reg_ok_def wf_ok_def own_ok_def)
    show "use_ok (put_sock ob u' st)"
      using assms(2) by (intro use_okI) (auto simp: assms(3-7) dest: use_okD [OF p(4)] split: if_splits)
    show "lend_ok E (put_sock ob u' st)"
      using assms(2) by (intro lend_okI) (auto simp: assms(3-5) dest: lend_okD [OF p(5)] split: if_splits)
    show "count_ok X (put_sock ob u' st)" using p(6) unfolding count_ok_def m by (simp add: registered_def)
    show "cln_ok (put_sock ob u' st)"
      using assms(2) by (intro cln_okI) (auto simp: assms(6) dest: cln_okD [OF p(7)] split: if_splits)
  qed
qed

text \<open>Decrementing the count of a pool with a departed member, and freeing the pool with none left.\<close>

lemma members_pool [simp]:
  "member_of (st\<lparr>pmem := f\<rparr>) = member_of st" "members (st\<lparr>pmem := f\<rparr>) = members st"
  "member_of (st\<lparr>registry := g\<rparr>) = member_of st" "members (st\<lparr>registry := g\<rparr>) = members st"
  "member_of (st\<lparr>ka_timer := h\<rparr>) = member_of st" "members (st\<lparr>ka_timer := h\<rparr>) = members st"
  "member_of (st\<lparr>cleanups := k\<rparr>) = member_of st" "members (st\<lparr>cleanups := k\<rparr>) = members st"
  by (simp_all add: member_of_def members_def fun_eq_iff split: option.splits cdata.splits)

lemma reg_ok_pool:
  assumes "reg_ok st" "pmem st p = Some sp" "pkey sp' = pkey sp"
  shows "reg_ok (st\<lparr>pmem := (pmem st)(p \<mapsto> sp')\<rparr>)"
  using assms(2,3) reg_okD(4) [OF assms(1) _ assms(2)]
  by (intro reg_okI) (auto intro: reg_okD(2,3) [OF assms(1)] dest: reg_okD(1) [OF assms(1)] split: if_splits)

lemma own_ok_pool:
  assumes "own_ok st" "pmem st p = Some sp" "cache sp' = cache sp" "items sp' = items sp"
  shows "own_ok (st\<lparr>pmem := (pmem st)(p \<mapsto> sp')\<rparr>)"
  using assms(2-4)
  by (intro own_okI) (auto intro: own_okD(1,2) [OF assms(1)] dest: own_okD(3) [OF assms(1)] split: if_splits)

lemma pinv_dec:
  assumes "pinv (Some p) E st" "pmem st p = Some sp"
  shows "pinv None E (put_pool p (sp\<lparr>active_connections := active_connections sp - 1\<rparr>) st)"
proof -
  note i = pinvD [OF assms(1)]
  let ?st = "put_pool p (sp\<lparr>active_connections := active_connections sp - 1\<rparr>) st"
  show ?thesis
    unfolding pinv_def
  proof (intro conjI)
    show "reg_ok ?st" using reg_ok_pool [OF i(1) assms(2)] by simp
    show "wf_ok ?st" using i(2) assms(2) by (auto simp: wf_ok_def)
    show "own_ok ?st" using own_ok_pool [OF i(3) assms(2)] by simp
    show "use_ok ?st" by (rule use_ok_frame [OF i(4)]) simp_all
    show "lend_ok E ?st" by (rule lend_ok_frame [OF i(5)]) simp_all
    show "count_ok None ?st" using i(6) assms(2) by (auto simp: count_ok_def registered_def)
    show "cln_ok ?st" by (rule cln_ok_frame [OF i(7)]) simp_all
  qed
qed

lemma pinv_free:
  assumes "pinv None E st" "registry st k = Some p" "members st p = {}"
  shows "pinv None E (st\<lparr>registry := (registry st)(k := None)\<rparr>)"
proof -
  note i = pinvD [OF assms(1)]
  let ?st = "st\<lparr>registry := (registry st)(k := None)\<rparr>"
  have only: "k' = k" if "registry st k' = Some p" for k'
    using reg_okD(2) [OF i(1) that] reg_okD(2) [OF i(1) assms(2)] by auto
  have lent: "socket_pool u \<noteq> Some p" if "usocks st ob = Some u" "peer_conn u = Some c" "reused u \<noteq> 0" for ob u c
  proof
    assume "socket_pool u = Some p"
    then have "c \<in> members st p" using that use_okD(1) [OF i(4) that(1,2)] by (simp add: members_def member_of_def)
    then show False using assms(3) by simp
  qed
  show ?thesis
    unfolding pinv_def
  proof (intro conjI)
    show "reg_ok ?st"
      by (intro reg_okI) (auto intro: reg_okD(2,3) [OF i(1)] dest: reg_okD(1) [OF i(1)] split: if_splits)
    show "wf_ok ?st" by (rule wf_ok_frame [OF i(2)]) simp_all
    show "own_ok ?st" by (rule own_ok_frame [OF i(3)]) simp_all
    show "use_ok ?st" by (rule use_ok_frame [OF i(4)]) simp_all
    show "lend_ok E ?st"
    proof (rule lend_okI)
      fix ob u c assume u: "usocks ?st ob = Some u" "peer_conn u = Some c" "reused u \<noteq> 0"
      then obtain k' p' where "socket_pool u = Some p'" "registry st k' = Some p'" "ob \<in> E \<or> skeys st ob = Some k'"
        using lend_okD [OF i(5), of ob u c] by auto
      moreover have "p' \<noteq> p" using lent u calculation(1) by auto
      then have "k' \<noteq> k" using assms(2) calculation(2) by auto
      ultimately show "\<exists>k p. socket_pool u = Some p \<and> registry ?st k = Some p \<and> (ob \<in> E \<or> skeys ?st ob = Some k)" by auto
    qed
    have "registered ?st q \<or> members st q = {}" if "pmem st q = Some sq" for q sq
    proof (cases "q = p")
      case False
      have "registered ?st q" if r: "registered st q"
      proof -
        obtain k' where "registry st k' = Some q" using r by (auto simp: registered_def)
        then have "registry ?st k' = Some q" using False assms(2) by auto
        then show ?thesis unfolding registered_def by blast
      qed
      then show ?thesis using i(6) that by (auto simp: count_ok_def)
    qed (use assms(3) in simp)
    then show "count_ok None ?st" using i(6) by (simp add: count_ok_def)
    show "cln_ok ?st" by (rule cln_ok_frame [OF i(7)]) simp_all
  qed
qed

lemma dec_active_ok:
  assumes "pinv (Some p) E st"
  shows "\<exists>st'. dec_active p st = Some st' \<and> pinv None E st' \<and> usocks st' = usocks st \<and> conns st' = conns st \<and> skeys st' = skeys st"
proof -
  note i = pinvD [OF assms]
  obtain k where k: "registry st k = Some p" using i(6) by (auto simp: count_ok_def registered_def)
  obtain sp where sp: "pmem st p = Some sp" "pkey sp = k" using reg_okD(2) [OF i(1) k] by blast
  let ?sp = "sp\<lparr>active_connections := active_connections sp - 1\<rparr>"
  have d: "pinv None E (put_pool p ?sp st)" by (rule pinv_dec [OF assms sp(1)])
  have key: "takeWhile (\<lambda>x. x \<noteq> CHR 0x00) k = k"
    using reg_okD(1) [OF i(1) k] by (induction k) auto
  have z: "active_connections ?sp = 0 \<longleftrightarrow> members st p = {}"
    using i(6) sp(1) by (simp add: count_ok_def count_zero)
  show ?thesis
  proof (cases "members st p = {}")
    case True
    have "pinv None E ((put_pool p ?sp st)\<lparr>registry := (registry (put_pool p ?sp st))(k := None)\<rparr>)"
      by (rule pinv_free [OF d]) (use k True in simp_all)
    then show ?thesis using z True sp unfolding dec_active_def free_pool_def by (simp add: key)
  next
    case False
    then show ?thesis using z d sp by (simp add: dec_active_def)
  qed
qed

text \<open>A connection leaves the cache and is closed; its item is free again.\<close>

lemma registered_pool [simp]:
  "registered (st\<lparr>pmem := f\<rparr>) = registered st" "registered (st\<lparr>conns := g\<rparr>) = registered st"
  "registered (st\<lparr>usocks := h\<rparr>) = registered st" "registered (st\<lparr>ka_timer := k\<rparr>) = registered st"
  "registered (st\<lparr>cleanups := l\<rparr>) = registered st" "registered (st\<lparr>skeys := m\<rparr>) = registered st"
  by (simp_all add: registered_def fun_eq_iff)

lemma pinv_drop:
  assumes "pinv None E st" "pmem st p = Some sp" "i \<in> set (cache sp)" "c = item_conn (items sp ! i)"
    "sp' = sp\<lparr>cache := remove1 i (cache sp), free_items := i # free_items sp\<rparr>"
    "st' = put_pool p sp' (st\<lparr>conns := (conns st)(c := None), ka_timer := (ka_timer st)(c := None)\<rparr>)"
  shows "pinv (Some p) E st' \<and> conns st c = Some (InPool p i)"
proof -
  note v = pinvD [OF assms(1)]
  have c: "conns st c = Some (InPool p i)" using own_okD(1) [OF v(3) assms(2,3)] assms(4) by simp
  have dist: "distinct (cache sp @ free_items sp)" "set (cache sp @ free_items sp) = {..<length (items sp)}" "items sp \<noteq> []"
    using wf_okD(1-3) [OF v(2) assms(2)] by auto
  have mem: "member_of st' = (member_of st)(c := None)"
    by (auto simp: assms(6) member_of_def fun_eq_iff split: option.splits cdata.splits)
  have mc: "member_of st c = Some p" by (simp add: member_of_def c)
  have conn_ne: "item_conn (items sp ! j) \<noteq> c" if "j \<in> set (cache sp)" "j \<noteq> i" for j
    using own_okD(1) [OF v(3) assms(2) that(1)] c that(2) by auto
  have "pinv (Some p) E st'"
    unfolding pinv_def
  proof (intro conjI)
    have "reg_ok (st\<lparr>pmem := (pmem st)(p \<mapsto> sp')\<rparr>)" by (rule reg_ok_pool [OF v(1) assms(2)]) (simp add: assms(5))
    then show "reg_ok st'" by (rule reg_ok_frame) (simp_all add: assms(6))
    have "distinct (cache sp' @ free_items sp')" "set (cache sp' @ free_items sp') = {..<length (items sp')}" "items sp' \<noteq> []"
      using dist assms(3) by (auto simp: assms(5))
    then show "wf_ok st'" using v(2) by (auto simp: wf_ok_def assms(6))
    show "own_ok st'"
    proof (rule own_okI)
      fix q sq j assume q: "pmem st' q = Some sq" "j \<in> set (cache sq)"
      show "conns st' (item_conn (items sq ! j)) = Some (InPool q j)"
      proof (cases "q = p")
        case True
        then have "j \<in> set (cache sp)" "j \<noteq> i" "items sq = items sp" using q dist(1) by (auto simp: assms(5,6))
        then show ?thesis using own_okD(1) [OF v(3) assms(2)] conn_ne True by (simp add: assms(6))
      next
        case False
        then have "pmem st q = Some sq" using q(1) by (simp add: assms(6))
        from own_okD(1) [OF v(3) this q(2)] show ?thesis using c False by (auto simp: assms(6))
      qed
    next
      fix d q j assume "conns st' d = Some (InPool q j)"
      then have "conns st d = Some (InPool q j)" by (simp add: assms(6) split: if_splits)
      from own_okD(2) [OF v(3) this] show "pmem st' q \<noteq> None" by (auto simp: assms(6))
    next
      fix d q j sq assume d: "conns st' d = Some (InPool q j)" and sq: "pmem st' q = Some sq"
      then have d': "conns st d = Some (InPool q j)" "d \<noteq> c" by (auto simp: assms(6) split: if_splits)
      show "j \<in> set (cache sq) \<and> item_conn (items sq ! j) = d"
      proof (cases "q = p")
        case True
        with own_okD(3) [OF v(3) d'(1), of sp] assms(2) have j: "j \<in> set (cache sp)" "item_conn (items sp ! j) = d" by auto
        then have "j \<noteq> i" using d'(2) assms(4) by auto
        then show ?thesis using j sq True by (auto simp: assms(5,6))
      next
        case False
        then show ?thesis using own_okD(3) [OF v(3) d'(1)] sq by (simp add: assms(6))
      qed
    qed
    have same: "conns st' d = Some (InUse ob) \<longleftrightarrow> conns st d = Some (InUse ob)" for d ob using c by (simp add: assms(6))
    then show "use_ok st'"
      by (intro use_okI) (auto simp: same assms(6) intro: use_okD(1,2,3) [OF v(4)] dest: use_okD(4,5) [OF v(4)] split: if_splits)
    show "lend_ok E st'" by (rule lend_ok_frame [OF v(5)]) (simp_all add: assms(6))
    have n: "card (members st q) = card (members st' q) + (if q = p then 1 else 0)" for q
      using card_members_upd [OF mem, of q] mc by (simp split: if_splits)
    have reg: "registered st' q = registered st q" for q by (simp add: assms(6))
    have old: "\<exists>sq'. pmem st q = Some sq' \<and> active_connections sq = active_connections sq'" if "pmem st' q = Some sq" for q sq
      using that assms(2) by (auto simp: assms(5,6) split: if_splits)
    show "count_ok (Some p) st'"
    proof (rule count_okI, goal_cases)
      case (1 q sq)
      then obtain sq' where "pmem st q = Some sq'" "active_connections sq = active_connections sq'" using old by blast
      then show ?case using count_okD(1) [OF v(6), of q sq'] by (simp add: n)
    next
      case (2 q sq)
      then obtain sq' where "pmem st q = Some sq'" using old by blast
      then show ?case using count_okD(2) [OF v(6), of q sq'] members_fun_upd [OF mem, of q] by (auto simp: reg)
    next
      case (3 q)
      then show ?case using count_okD(2) [OF v(6) assms(2)] mc by (auto simp: reg members_def)
    qed
    show "cln_ok st'" by (rule cln_ok_frame [OF v(7)]) (simp_all add: assms(6))
  qed
  then show ?thesis using c by simp
qed

text \<open>A socket object lets go of its connection, which is closed, and of its cleanup.\<close>

definition forget :: "('a \<Rightarrow> 'b option) \<Rightarrow> 'a option \<Rightarrow> 'a \<Rightarrow> 'b option" where
  "forget f x = (case x of Some a \<Rightarrow> f(a := None) | None \<Rightarrow> f)"

lemma forget_simps [simp]: "forget f None = f" "forget f (Some a) = f(a := None)"
  by (simp_all add: forget_def)

lemma pinv_release:
  assumes "pinv None E st" "usocks st ob = Some u" "peer_conn u' = None" "u_cleanup u' = None" "\<not> u_raw u'"
    "st' = put_sock ob u' (st\<lparr>cleanups := forget (cleanups st) (u_cleanup u), conns := forget (conns st) (peer_conn u), ka_timer := tm\<rparr>)"
  shows "pinv (case peer_conn u of Some c \<Rightarrow> member_of st c | None \<Rightarrow> None) E st'"
proof -
  note v = pinvD [OF assms(1)]
  let ?X = "case peer_conn u of Some c \<Rightarrow> member_of st c | None \<Rightarrow> None"
  have mine: "conns st d = Some (InUse ob) \<longleftrightarrow> peer_conn u = Some d" for d
    using use_okD(1,4) [OF v(4)] assms(2) by blast
  have pool: "conns st' d = Some (InPool q j) \<longleftrightarrow> conns st d = Some (InPool q j)" for d q j
    using mine [of d] by (cases "peer_conn u") (auto simp: assms(6))
  have others: "conns st' d = Some (InUse b) \<longleftrightarrow> b \<noteq> ob \<and> conns st d = Some (InUse b)" for d b
    using mine [of d] by (cases "peer_conn u") (auto simp: assms(6))
  have us: "usocks st' b = (if b = ob then Some u' else usocks st b)" for b by (simp add: assms(6))
  have mem: "member_of st' d = (if peer_conn u = Some d then None else member_of st d)" for d
  proof (cases "conns st d")
    case None
    then have "peer_conn u \<noteq> Some d" using mine [of d] by auto
    then show ?thesis using None by (cases "peer_conn u") (auto simp: member_of_def assms(6))
  next
    case (Some x)
    show ?thesis
    proof (cases x)
      case (InUse b)
      then show ?thesis using Some mine [of d] us by (cases "peer_conn u") (auto simp: member_of_def assms(6))
    next
      case (InPool q j)
      then show ?thesis using Some mine [of d] by (cases "peer_conn u") (auto simp: member_of_def assms(6))
    qed
  qed
  have reg: "registered st' q = registered st q" for q by (simp add: assms(6))
  show ?thesis
    unfolding pinv_def
  proof (intro conjI)
    show "reg_ok st'" by (rule reg_ok_frame [OF v(1)]) (simp_all add: assms(6))
    show "wf_ok st'" by (rule wf_ok_frame [OF v(2)]) (simp add: assms(6))
    have "pmem st' = pmem st" by (simp add: assms(6))
    then show "own_ok st'" using v(3) unfolding own_ok_def pool by simp
    show "use_ok st'"
      using assms(3,5)
      by (intro use_okI) (auto simp: us others intro: use_okD(1,2,3) [OF v(4)] dest: use_okD(4,5) [OF v(4)] split: if_splits)
    show "lend_ok E st'"
      using assms(3) by (intro lend_okI) (auto simp: us assms(6) dest: lend_okD [OF v(5)] split: if_splits)
    show "count_ok ?X st'"
    proof (cases "peer_conn u")
      case None
      then have "members st' = members st" using mem by (simp add: members_def fun_eq_iff)
      then show ?thesis using None by (intro count_okI) (auto simp: assms(6) members_def dest: count_okD [OF v(6)])
    next
      case (Some c)
      have upd: "member_of st' = (member_of st)(c := None)" using mem Some by auto
      have n: "card (members st q) = card (members st' q) + (if member_of st c = Some q then 1 else 0)" for q
        using card_members_upd [OF upd, of q] by (simp split: if_splits)
      show ?thesis
      proof (rule count_okI, goal_cases)
        case (1 q sq)
        then have "pmem st q = Some sq" by (simp add: assms(6))
        then show ?case using count_okD(1) [OF v(6), of q sq] Some by (simp add: n)
      next
        case (2 q sq)
        then have "pmem st q = Some sq" by (simp add: assms(6))
        then show ?case using count_okD(2) [OF v(6), of q sq] members_fun_upd [OF upd, of q] by (auto simp: reg)
      next
        case (3 q)
        then have "reused u \<noteq> 0" "socket_pool u = Some q"
          using Some mine [of c] assms(2) by (auto simp: member_of_def split: if_splits)
        then show ?case using lend_okD [OF v(5) assms(2) Some] unfolding reg by (auto simp: registered_def)
      qed
    qed
    show "cln_ok st'"
    proof (rule cln_okI, goal_cases)
      case (1 j b)
      then have "cleanups st j = Some b" by (cases "u_cleanup u") (auto simp: assms(6) split: if_splits)
      then show ?case using cln_okD(1) [OF v(7)] by (simp add: assms(6))
    next
      case (2 j b)
      then have "cleanups st j = Some b" by (cases "u_cleanup u") (auto simp: assms(6) split: if_splits)
      from cln_okD(2) [OF v(7) this] show ?case by (auto simp: us)
    next
      case (3 j b w)
      then have c: "cleanups st j = Some b" "u_cleanup u \<noteq> Some j" by (cases "u_cleanup u"; auto simp: assms(6) split: if_splits)+
      then have "b \<noteq> ob" using cln_okD(3) [OF v(7) c(1)] assms(2) by auto
      then show ?case using cln_okD(3) [OF v(7) c(1)] 3(2) by (simp add: us)
    next
      case (4 b w j)
      then have b: "b \<noteq> ob" "usocks st b = Some w" using assms(4) by (auto simp: us split: if_splits)
      have c: "cleanups st j = Some b" by (rule cln_okD(4) [OF v(7) b(2) 4(2)])
      moreover have "u_cleanup u \<noteq> Some j" using cln_okD(4) [OF v(7) assms(2)] c b(1) by auto
      ultimately show ?case by (cases "u_cleanup u") (auto simp: assms(6))
    qed
  qed
qed

text \<open>What an operation on object \<open>ob\<close> leaves of the others.\<close>

definition only_sock :: "nat \<Rightarrow> pools \<Rightarrow> pools \<Rightarrow> bool" where
  "only_sock ob st st' \<longleftrightarrow> skeys st' = skeys st \<and> (\<forall>b. b \<noteq> ob \<longrightarrow> usocks st' b = usocks st b)"

lemma finalize_ok:
  assumes "pinv None E st" "usocks st ob = Some u"
  shows "\<exists>st' u'. tcp_finalize ob st = Some st' \<and> pinv None E st' \<and> only_sock ob st st' \<and>
    usocks st' ob = Some u' \<and> peer_conn u' = None \<and> u_cleanup u' = None \<and> conns st' = forget (conns st) (peer_conn u)"
proof -
  note v = pinvD [OF assms(1)]
  let ?u = "u\<lparr>u_cleanup := None, u_read_closed := True, u_write_closed := True, peer_conn := None\<rparr>"
  let ?st = "\<lambda>tm. put_sock ob ?u (st\<lparr>cleanups := forget (cleanups st) (u_cleanup u), conns := forget (conns st) (peer_conn u), ka_timer := tm\<rparr>)"
  have raw: "\<not> u_raw u" by (rule use_okD(5) [OF v(4) assms(2)])
  have cl: "(case u_cleanup u of Some i \<Rightarrow> st\<lparr>cleanups := (cleanups st)(i := None)\<rparr> | None \<Rightarrow> st) = st\<lparr>cleanups := forget (cleanups st) (u_cleanup u)\<rparr>"
    by (cases "u_cleanup u") simp_all
  have inv: "pinv (case peer_conn u of Some c \<Rightarrow> member_of st c | None \<Rightarrow> None) E (?st tm)" for tm
    by (rule pinv_release [OF assms, of ?u]) (use raw in simp_all)
  show ?thesis
  proof (cases "peer_conn u")
    case None
    let ?u1 = "u\<lparr>u_cleanup := None, u_read_closed := True, u_write_closed := True\<rparr>"
    let ?st1 = "put_sock ob ?u1 (st\<lparr>cleanups := forget (cleanups st) (u_cleanup u), conns := forget (conns st) (peer_conn u), ka_timer := ka_timer st\<rparr>)"
    have "pinv (case peer_conn u of Some c \<Rightarrow> member_of st c | None \<Rightarrow> None) E ?st1"
      by (rule pinv_release [OF assms, of ?u1 _ "ka_timer st"]) (use raw None in simp_all)
    moreover have "tcp_finalize ob st = Some ?st1" using assms(2) raw None by (simp add: tcp_finalize_def cl Let_def)
    ultimately show ?thesis using None by (simp add: only_sock_def)
  next
    case (Some c)
    have c: "conns st c = Some (InUse ob)" by (rule use_okD(1) [OF v(4) assms(2) Some])
    let ?st1 = "?st ((ka_timer st)(c := None))"
    have m: "member_of st c = (if reused u \<noteq> 0 then socket_pool u else None)" using c assms(2) by (simp add: member_of_def)
    have e: "tcp_finalize ob st = (if reused u = 0 then Some ?st1 else case socket_pool u of None \<Rightarrow> Some ?st1 | Some p \<Rightarrow> dec_active p ?st1)"
      using assms(2) raw Some c by (simp add: tcp_finalize_def cl Let_def close_connection_def split: option.splits)
    show ?thesis
    proof (cases "member_of st c")
      case None
      then have "tcp_finalize ob st = Some ?st1" unfolding e using m by (auto split: option.splits)
      then show ?thesis using inv [of "(ka_timer st)(c := None)"] Some None by (simp add: only_sock_def)
    next
      case (Some p)
      then have "reused u \<noteq> 0" "socket_pool u = Some p" using m by (auto split: if_splits)
      moreover obtain st' where "dec_active p ?st1 = Some st'" "pinv None E st'" "usocks st' = usocks ?st1" "conns st' = conns ?st1" "skeys st' = skeys ?st1"
        using dec_active_ok [of p E ?st1] inv [of "(ka_timer st)(c := None)"] Some \<open>peer_conn u = Some c\<close> by auto
      ultimately show ?thesis unfolding e by (simp add: only_sock_def)
    qed
  qed
qed

lemma close_handler_ok:
  assumes "pinv None E st" "conns st c = Some (InPool p i)"
  shows "\<exists>rc st'. keepalive_close_handler env c st = Some (rc, st') \<and> pinv None E st' \<and> skeys st' = skeys st \<and> usocks st' = usocks st \<and>
    (rc = NGX_OK \<and> st' = st \<or> rc = NGX_DECLINED \<and> conns st' = (conns st)(c := None))"
proof -
  note v = pinvD [OF assms(1)]
  obtain sp where sp: "pmem st p = Some sp" using own_okD(2) [OF v(3) assms(2)] by blast
  then have i: "i \<in> set (cache sp)" "c = item_conn (items sp ! i)" using own_okD(3) [OF v(3) assms(2) sp] by auto
  let ?st = "put_pool p (sp\<lparr>cache := remove1 i (cache sp), free_items := i # free_items sp\<rparr>)
    (st\<lparr>conns := (conns st)(c := None), ka_timer := (ka_timer st)(c := None)\<rparr>)"
  have "pinv (Some p) E ?st" using pinv_drop [OF assms(1) sp i refl refl] by blast
  then obtain st' where d: "dec_active p ?st = Some st'" "pinv None E st'" "usocks st' = usocks ?st" "conns st' = conns ?st" "skeys st' = skeys ?st"
    using dec_active_ok by blast
  show ?thesis
  proof (cases "\<not> conn_close env \<and> \<not> rev_timedout env \<and> peek_again env \<and> read_event_ok env")
    case True
    then show ?thesis using assms by (simp add: keepalive_close_handler_def)
  next
    case False
    then have "keepalive_close_handler env c st = Some (NGX_DECLINED, st')"
      using assms(2) sp d(1) by (simp add: keepalive_close_handler_def close_connection_def)
    then show ?thesis using d by simp
  qed
qed

text \<open>An upstream without connection and cleanup may be replaced.\<close>

lemma pinv_reset:
  assumes "pinv None E st" "\<And>u. usocks st ob = Some u \<Longrightarrow> peer_conn u = None \<and> u_cleanup u = None"
    "peer_conn u' = None" "u_cleanup u' = None" "\<not> u_raw u'"
  shows "pinv None E (put_sock ob u' st)"
proof -
  note v = pinvD [OF assms(1)]
  have mine: "conns st d \<noteq> Some (InUse ob)" for d using use_okD(3,4) [OF v(4)] assms(2) by fastforce
  have nocln: "cleanups st j \<noteq> Some ob" for j using cln_okD(2,3) [OF v(7)] assms(2) by fastforce
  have mem: "member_of (put_sock ob u' st) = member_of st"
    using mine by (auto simp: member_of_def fun_eq_iff split: option.splits cdata.splits)
  then have m: "members (put_sock ob u' st) = members st" by (simp add: members_def fun_eq_iff)
  show ?thesis
    unfolding pinv_def
  proof (intro conjI)
    show "reg_ok (put_sock ob u' st)" by (rule reg_ok_frame [OF v(1)]) simp_all
    show "wf_ok (put_sock ob u' st)" by (rule wf_ok_frame [OF v(2)]) simp_all
    show "own_ok (put_sock ob u' st)" by (rule own_ok_frame [OF v(3)]) simp_all
    show "use_ok (put_sock ob u' st)"
      using assms(3,5) mine
      by (intro use_okI) (auto intro: use_okD(1,2,3) [OF v(4)] dest: use_okD(4,5) [OF v(4)] split: if_splits)
    show "lend_ok E (put_sock ob u' st)"
      using assms(3) by (intro lend_okI) (auto dest: lend_okD [OF v(5)] split: if_splits)
    show "count_ok None (put_sock ob u' st)"
      by (rule count_ok_frame [OF v(6) _ m]) simp_all
    show "cln_ok (put_sock ob u' st)"
      using assms(4) nocln
      by (intro cln_okI) (auto intro: cln_okD(2,4) [OF v(7)] dest: cln_okD(1,3) [OF v(7)] split: if_splits)
  qed
qed

text \<open>An upstream without connection gets one, and a cleanup if it has none.\<close>

lemma add_cleanup_ok:
  assumes "cleanup_ok env" "usocks st ob = Some u"
  shows "add_cleanup env ob st = Some (True,
    if u_cleanup u \<noteq> None then st
    else put_sock ob (u\<lparr>u_cleanup := Some (next_cln st)\<rparr>) (st\<lparr>cleanups := (cleanups st)(next_cln st \<mapsto> ob), next_cln := next_cln st + 1\<rparr>))"
  using assms by (auto simp: add_cleanup_def)

lemma pinv_attach:
  assumes "pinv X E st" "usocks st ob = Some u" "peer_conn u = None" "conns st c = None"
    "peer_conn u' = Some c" "\<not> u_raw u'" "X = (if reused u' = 0 then None else socket_pool u')"
    "\<And>p. X = Some p \<Longrightarrow> \<exists>k. registry st k = Some p \<and> (ob \<in> E \<or> skeys st ob = Some k)" "reused u' \<noteq> 0 \<Longrightarrow> X \<noteq> None"
    "u_cleanup u = None" "u_cleanup u' = Some (next_cln st)"
    "st' = put_sock ob u' (st\<lparr>conns := (conns st)(c \<mapsto> InUse ob), cleanups := (cleanups st)(next_cln st \<mapsto> ob),
       next_cln := next_cln st + 1, ka_timer := tm\<rparr>)"
  shows "pinv None E st'"
proof -
  note v = pinvD [OF assms(1)]
  have none: "conns st d \<noteq> Some (InUse ob)" for d using use_okD(3,4) [OF v(4), of d ob] assms(2,3) by fastforce
  have nocln: "cleanups st j \<noteq> Some ob" "j < next_cln st \<or> cleanups st j = None" for j
    using cln_okD(1-3) [OF v(7), of j] assms(2,10) by (fastforce, cases "cleanups st j") auto
  have us: "usocks st' b = (if b = ob then Some u' else usocks st b)" for b by (simp add: assms(12))
  have cs: "conns st' d = (if d = c then Some (InUse ob) else conns st d)" for d by (simp add: assms(12))
  have mem: "member_of st' = (member_of st)(c := X)"
    using none by (auto simp: member_of_def us cs fun_eq_iff assms(7) split: option.splits cdata.splits)
  show ?thesis
    unfolding pinv_def
  proof (intro conjI)
    show "reg_ok st'" by (rule reg_ok_frame [OF v(1)]) (simp_all add: assms(12))
    show "wf_ok st'" by (rule wf_ok_frame [OF v(2)]) (simp add: assms(12))
    have pm: "pmem st' = pmem st" by (simp add: assms(12))
    show "own_ok st'"
    proof (rule own_okI, goal_cases)
      case (1 p sp i)
      then have "conns st (item_conn (items sp ! i)) = Some (InPool p i)" using own_okD(1) [OF v(3)] pm by simp
      then show ?case using assms(4) by (auto simp: cs)
    qed (auto simp: cs pm dest: own_okD(2,3) [OF v(3)] split: if_splits)
    show "use_ok st'"
    proof (rule use_okI, goal_cases)
      case (1 b w d)
      then show ?case using use_okD(1,2) [OF v(4), of b w d] assms(4,5,11) by (auto simp: us cs split: if_splits)
    next
      case (2 d b)
      then show ?case using use_okD(3) [OF v(4), of d b] by (auto simp: us cs split: if_splits)
    next
      case (3 d b w)
      then show ?case using use_okD(4) [OF v(4), of d b w] none assms(5) by (auto simp: us cs split: if_splits)
    next
      case (4 b w)
      then show ?case using use_okD(5) [OF v(4), of b w] assms(6) by (auto simp: us split: if_splits)
    qed
    show "lend_ok E st'"
    proof (rule lend_okI, goal_cases)
      case (1 b w d)
      then show ?case
        using lend_okD [OF v(5), of b w d] assms(7-9) by (auto simp: us assms(12) split: if_splits)
    qed
    have n: "card (members st' q) = card (members st q) + (if X = Some q then 1 else 0)" for q
      using card_members_upd [OF mem, of q] assms(4) by (simp add: member_of_def)
    show "count_ok None st'"
    proof (rule count_okI, goal_cases)
      case (1 q sq)
      then show ?case using count_okD(1) [OF v(6), of q sq] pm by (simp add: n)
    next
      case (2 q sq)
      then have sq: "pmem st q = Some sq" using pm by simp
      have r: "registered st' q = registered st q" by (simp add: assms(12) registered_def)
      show ?case
      proof (cases "X = Some q")
        case True
        then show ?thesis using count_okD(3) [OF v(6) True] r by simp
      next
        case False
        then show ?thesis using count_okD(2) [OF v(6) sq] members_fun_upd [OF mem, of q] r by auto
      qed
    qed simp
    show "cln_ok st'"
    proof (rule cln_okI, goal_cases)
      case (1 j b)
      then show ?case using cln_okD(1) [OF v(7), of j b] by (auto simp: assms(12) split: if_splits)
    next
      case (2 j b)
      then show ?case using cln_okD(2) [OF v(7), of j b] by (auto simp: assms(12) split: if_splits)
    next
      case (3 j b w)
      then show ?case using cln_okD(3) [OF v(7), of j b w] nocln [of j] assms(11) by (auto simp: assms(12) split: if_splits)
    next
      case (4 b w j)
      show ?case
      proof (cases "b = ob")
        case True
        then show ?thesis using 4 assms(11) by (simp add: assms(12))
      next
        case False
        then have c: "cleanups st j = Some b" using 4 by (intro cln_okD(4) [OF v(7)]) (simp_all add: us)
        then show ?thesis using cln_okD(1) [OF v(7) c] by (simp add: assms(12))
      qed
    qed
  qed
qed

lemma get_keepalive_ok:
  assumes "pinv None E st" "usocks st ob = Some u" "peer_conn u = None" "u_cleanup u = None" "cleanup_ok env"
    "reused u = 0" "\<not> u_raw u" "ob \<in> E \<or> skeys st ob = Some key"
  shows "\<exists>rc st'. get_keepalive_peer env key ob st = Some (rc, st') \<and> pinv None E st' \<and> only_sock ob st st' \<and>
    (rc = NGX_OK
     \<or> rc = NGX_DECLINED \<and> conns st' = conns st \<and>
       (\<exists>u'. usocks st' ob = Some u' \<and> peer_conn u' = None \<and> u_cleanup u' = None \<and> reused u' = 0 \<and> \<not> u_raw u'))"
proof (cases "registry st key")
  case None
  then show ?thesis using assms by (simp add: get_keepalive_peer_def only_sock_def)
next
  case (Some p)
  note v = pinvD [OF assms(1)]
  obtain sp where sp: "pmem st p = Some sp" using reg_okD(2) [OF v(1) Some] by blast
  let ?u = "u\<lparr>socket_pool := Some p\<rparr>"
  show ?thesis
  proof (cases "cache sp")
    case Nil
    have "pinv None E (put_sock ob ?u st)" by (rule pinv_reset [OF assms(1)]) (use assms in auto)
    then show ?thesis using Some sp Nil assms by (simp add: get_keepalive_peer_def only_sock_def Let_def)
  next
    case (Cons i "is")
    then have i: "i \<in> set (cache sp)" by simp
    let ?it = "items sp ! i"
    let ?c = "item_conn ?it"
    let ?st = "put_pool p (sp\<lparr>cache := remove1 i (cache sp), free_items := i # free_items sp\<rparr>)
      (st\<lparr>conns := (conns st)(?c := None), ka_timer := (ka_timer st)(?c := None)\<rparr>)"
    have d: "pinv (Some p) E ?st" "conns st ?c = Some (InPool p i)" using pinv_drop [OF assms(1) sp i refl refl refl] by blast+
    let ?u' = "u\<lparr>socket_pool := Some p, peer_conn := Some ?c, reused := item_reused ?it + 1, u_cleanup := Some (next_cln st)\<rparr>"
    let ?st' = "put_sock ob ?u' (?st\<lparr>conns := (conns ?st)(?c \<mapsto> InUse ob), cleanups := (cleanups ?st)(next_cln ?st \<mapsto> ob),
       next_cln := next_cln ?st + 1, ka_timer := (ka_timer st)(?c := None)\<rparr>)"
    have inv: "pinv None E ?st'"
      by (rule pinv_attach [OF d(1), of ob u ?c ?u' _ "(ka_timer st)(?c := None)"]) (use assms Some in auto)
    have "i < length (items sp)" by (rule wf_okD(4) [OF v(2) sp i])
    then have "get_keepalive_peer env key ob st = Some (NGX_OK, ?st')"
      using Some sp Cons d(2) assms(2,4,5) by (simp add: get_keepalive_peer_def Let_def add_cleanup_def)
    then show ?thesis using inv by (simp add: only_sock_def)
  qed
qed

text \<open>The key of an object may change; with no connection to give back its key does not matter.\<close>

lemma pinv_skey:
  assumes "pinv X E st"
  shows "pinv X (insert ob E) (st\<lparr>skeys := (skeys st)(ob := x)\<rparr>)"
proof -
  note v = pinvD [OF assms]
  let ?st = "st\<lparr>skeys := (skeys st)(ob := x)\<rparr>"
  have m: "members ?st = members st" by (rule members_frame) simp_all
  show ?thesis
    unfolding pinv_def
  proof (intro conjI)
    show "reg_ok ?st" by (rule reg_ok_frame [OF v(1)]) simp_all
    show "wf_ok ?st" by (rule wf_ok_frame [OF v(2)]) simp_all
    show "own_ok ?st" by (rule own_ok_frame [OF v(3)]) simp_all
    show "use_ok ?st" by (rule use_ok_frame [OF v(4)]) simp_all
    show "lend_ok (insert ob E) ?st"
    proof (rule lend_okI, goal_cases)
      case (1 b u c)
      then show ?case using lend_okD [OF v(5), of b u c] by auto
    qed
    show "count_ok X ?st" by (rule count_ok_frame [OF v(6) _ m]) simp_all
    show "cln_ok ?st" by (rule cln_ok_frame [OF v(7)]) simp_all
  qed
qed

lemma pinv_unskey:
  assumes "pinv X (insert ob E) st" "\<And>u c. usocks st ob = Some u \<Longrightarrow> peer_conn u = Some c \<Longrightarrow> False"
  shows "pinv X E st"
proof -
  note v = pinvD [OF assms(1)]
  have "lend_ok E st"
  proof (rule lend_okI, goal_cases)
    case (1 b u c)
    then have "b \<noteq> ob" using assms(2) by auto
    then show ?case using lend_okD [OF v(5) 1] by auto
  qed
  then show ?thesis using v by (simp add: pinv_def)
qed

text \<open>A cleanup handler for an object that has none.\<close>

lemma pinv_add_cleanup:
  assumes "pinv X E st" "usocks st ob = Some u" "u_cleanup u = None"
    "st' = put_sock ob (u\<lparr>u_cleanup := Some (next_cln st)\<rparr>) (st\<lparr>cleanups := (cleanups st)(next_cln st \<mapsto> ob), next_cln := next_cln st + 1\<rparr>)"
  shows "pinv X E st'"
proof -
  note v = pinvD [OF assms(1)]
  have us: "usocks st' b = (if b = ob then Some (u\<lparr>u_cleanup := Some (next_cln st)\<rparr>) else usocks st b)" for b by (simp add: assms(4))
  have cl: "cleanups st' i = (if i = next_cln st then Some ob else cleanups st i)" "next_cln st' = next_cln st + 1" for i
    by (simp_all add: assms(4))
  have "member_of st' c = member_of st c" for c
    using assms(2) by (auto simp: member_of_def us assms(4) split: option.splits cdata.splits)
  then have m: "members st' = members st" by (simp add: members_def fun_eq_iff)
  show ?thesis
    unfolding pinv_def
  proof (intro conjI)
    show "reg_ok st'" by (rule reg_ok_frame [OF v(1)]) (simp_all add: assms(4))
    show "wf_ok st'" by (rule wf_ok_frame [OF v(2)]) (simp add: assms(4))
    show "own_ok st'" by (rule own_ok_frame [OF v(3)]) (simp_all add: assms(4))
    show "use_ok st'"
    proof (rule use_okI, goal_cases)
      case (1 b x c)
      then show ?case using use_okD(1,2) [OF v(4), of b _ c] assms(2) by (auto simp: us assms(4) split: if_splits)
    next
      case (2 c b)
      then show ?case using use_okD(3) [OF v(4), of c b] by (auto simp: us assms(4))
    next
      case (3 c b x)
      then show ?case using use_okD(4) [OF v(4), of c b] assms(2) by (auto simp: us assms(4) split: if_splits)
    next
      case (4 b x)
      then show ?case using use_okD(5) [OF v(4), of b] assms(2) by (auto simp: us split: if_splits)
    qed
    show "lend_ok E st'"
    proof (rule lend_okI, goal_cases)
      case (1 b x c)
      then show ?case using lend_okD [OF v(5), of b _ c] assms(2) by (auto simp: us assms(4) split: if_splits)
    qed
    show "count_ok X st'" by (rule count_ok_frame [OF v(6) _ m]) (simp_all add: assms(4))
    show "cln_ok st'"
    proof (rule cln_okI, goal_cases)
      case (1 i b)
      then show ?case using cln_okD(1) [OF v(7), of i b] by (auto simp: cl split: if_splits)
    next
      case (2 i b)
      then show ?case using cln_okD(2) [OF v(7), of i b] by (auto simp: us cl split: if_splits)
    next
      case (3 i b x)
      then show ?case using cln_okD(3) [OF v(7), of i b] assms(2,3) by (auto simp: us cl split: if_splits)
    next
      case (4 b x i)
      then show ?case using cln_okD(4) [OF v(7), of b x i] cln_okD(1) [OF v(7), of "next_cln st" b] by (auto simp: us cl split: if_splits)
    qed
  qed
qed

text \<open>A new connection has a descriptor that is not open.\<close>

definition fresh_ok :: "pools \<Rightarrow> outcome \<Rightarrow> bool" where
  "fresh_ok st fresh \<longleftrightarrow> (case fresh of Opened c _ _ \<Rightarrow> conns st c = None | _ \<Rightarrow> True)"

lemma conn_error_ok:
  assumes "pinv None E st" "usocks st ob = Some u"
  shows "\<exists>st'. handle_conn_error ob st = Some st' \<and> pinv None E st' \<and> only_sock ob st st'"
proof -
  obtain st1 u1 where f: "tcp_finalize ob st = Some st1" "pinv None E st1" "only_sock ob st st1" "usocks st1 ob = Some u1"
    using finalize_ok [OF assms] by blast
  have "pinv None E (put_sock ob (u1\<lparr>u_conn_waiting := False\<rparr>) st1)"
    by (rule pinv_flags [OF f(2,4)]) (use use_okD(5) [OF pinvD(4) [OF f(2)] f(4)] in simp_all)
  then show ?thesis using f by (simp add: handle_conn_error_def only_sock_def)
qed

lemma connect_fresh_ok:
  assumes "pinv None {} st" "usocks st ob = Some u" "peer_conn u = None" "u_cleanup u = None" "reused u = 0" "cleanup_ok env" "fresh_ok st fresh"
  shows "\<exists>r st'. connect_fresh env fresh ob st = Some (r, st') \<and> pinv None {} st' \<and> only_sock ob st st'"
proof -
  have raw: "\<not> u_raw u" by (rule use_okD(5) [OF pinvD(4) [OF assms(1)] assms(2)])
  show ?thesis
  proof (cases fresh)
    case (Unresolved msg)
    then show ?thesis using assms(1) by (simp add: connect_fresh_def only_sock_def)
  next
    case Resolving
    have "pinv None {} (put_sock ob (u\<lparr>u_conn_waiting := True\<rparr>) st)" by (rule pinv_flags [OF assms(1,2)]) (use raw in simp_all)
    then show ?thesis using Resolving assms(2) by (simp add: connect_fresh_def only_sock_def)
  next
    case (Refused msg)
    let ?st = "put_sock ob (u\<lparr>u_cleanup := Some (next_cln st)\<rparr>) (st\<lparr>cleanups := (cleanups st)(next_cln st \<mapsto> ob), next_cln := next_cln st + 1\<rparr>)"
    have "pinv None {} ?st" by (rule pinv_add_cleanup [OF assms(1,2,4) refl])
    then obtain st' where "tcp_finalize ob ?st = Some st'" "pinv None {} st'" "only_sock ob ?st st'"
      using finalize_ok [where ob = ob and u = "u\<lparr>u_cleanup := Some (next_cln st)\<rparr>"] by fastforce
    then show ?thesis using Refused add_cleanup_ok [OF assms(6,2)] assms(4) by (simp add: connect_fresh_def only_sock_def)
  next
    case (Opened c a prog)
    let ?u = "u\<lparr>peer_conn := Some c, peer_sockaddr := a, u_cleanup := Some (next_cln st)\<rparr>"
    let ?st = "put_sock ob ?u (st\<lparr>conns := (conns st)(c \<mapsto> InUse ob), cleanups := (cleanups st)(next_cln st \<mapsto> ob),
       next_cln := next_cln st + 1, ka_timer := ka_timer st\<rparr>)"
    have "conns st c = None" using assms(7) Opened by (simp add: fresh_ok_def)
    then have inv: "pinv None {} ?st"
      by (intro pinv_attach [OF assms(1-3), of c ?u _ "ka_timer st"]) (use assms raw in auto)
    have wait: "pinv None {} (put_sock ob (?u\<lparr>u_conn_waiting := True\<rparr>) ?st)"
      by (rule pinv_flags [OF inv, of ob ?u]) (use raw in simp_all)
    obtain st' where err: "handle_conn_error ob ?st = Some st'" "pinv None {} st'" "only_sock ob ?st st'"
      using conn_error_ok [OF inv, of ob ?u] by auto
    have "connect_fresh env fresh ob st = (case prog of
        Connected \<Rightarrow> Some (CallRet [LNumber (num_of_int 1)], ?st)
      | Connecting \<Rightarrow> Some (CallYield, put_sock ob (?u\<lparr>u_conn_waiting := True\<rparr>) ?st)
      | NoPool \<Rightarrow> Some (CallRet [LNil, LString ''no memory''], ?st)
      | NoEvent msg \<Rightarrow> Some (CallRet [LNil, LString msg], st'))"
      using Opened assms(2,4,6) err(1) by (cases prog) (simp_all add: connect_fresh_def add_cleanup_def Let_def)
    then show ?thesis using inv wait err(2,3) by (cases prog) (simp_all add: only_sock_def)
  qed
qed

lemma connect_peer_ok:
  assumes "pinv None {} st" "\<And>u. usocks st ob = Some u \<Longrightarrow> peer_conn u = None \<and> u_cleanup u = None" "skeys st ob = Some key"
    "cleanup_ok env" "fresh_ok st fresh"
  shows "\<exists>r st'. connect_peer env s ob key fresh st = Some (r, st') \<and> pinv None {} st' \<and> only_sock ob st st'"
proof -
  let ?st = "put_sock ob (blank_usock s) st"
  have b: "pinv None {} ?st" by (rule pinv_reset [OF assms(1,2)]) (auto simp: blank_usock_def)
  have "\<exists>rc st'. get_keepalive_peer env key ob ?st = Some (rc, st') \<and> pinv None {} st' \<and> only_sock ob ?st st' \<and>
    (rc = NGX_OK
     \<or> rc = NGX_DECLINED \<and> conns st' = conns ?st \<and>
       (\<exists>u'. usocks st' ob = Some u' \<and> peer_conn u' = None \<and> u_cleanup u' = None \<and> reused u' = 0 \<and> \<not> u_raw u'))"
    by (rule get_keepalive_ok [OF b]) (use assms(3,4) in \<open>auto simp: blank_usock_def\<close>)
  then obtain rc st1 where g: "get_keepalive_peer env key ob ?st = Some (rc, st1)" "pinv None {} st1" "only_sock ob ?st st1"
    "rc = NGX_OK \<or> rc = NGX_DECLINED \<and> conns st1 = conns ?st \<and>
       (\<exists>u'. usocks st1 ob = Some u' \<and> peer_conn u' = None \<and> u_cleanup u' = None \<and> reused u' = 0 \<and> \<not> u_raw u')"
    by blast
  have only: "only_sock ob st st1" using g(3) by (simp add: only_sock_def)
  from g(4) show ?thesis
  proof (elim disjE conjE exE)
    assume "rc = NGX_OK"
    then show ?thesis using g only by (simp add: connect_peer_def)
  next
    fix u assume d: "rc = NGX_DECLINED" "conns st1 = conns ?st" "usocks st1 ob = Some u" "peer_conn u = None" "u_cleanup u = None" "reused u = 0" "\<not> u_raw u"
    have "fresh_ok st1 fresh" using assms(5) d(2) by (simp add: fresh_ok_def split: outcome.splits)
    from connect_fresh_ok [OF g(2) d(3-6) assms(4) this] show ?thesis
      using g(1) only d(1) by (auto simp: connect_peer_def only_sock_def)
  qed
qed

lemma connect_again_ok:
  assumes "pinv None {ob} st" "\<And>u. usocks st ob = Some u \<Longrightarrow> peer_conn u = None \<Longrightarrow> u_cleanup u = None" "skeys st ob = Some key"
    "cleanup_ok env" "fresh_ok st fresh"
  shows "\<exists>r st'. connect_again env s ob key fresh st = Some (r, st') \<and> only_sock ob st st' \<and> (pinv None {} st' \<or> st' = st)"
proof (cases "usocks st ob")
  case None
  have "pinv None {} st" by (rule pinv_unskey [OF assms(1)]) (simp add: None)
  from connect_peer_ok [where s = s, OF this _ assms(3,4,5)] None show ?thesis by (auto simp: connect_again_def)
next
  case (Some u)
  consider "u_session u \<noteq> s \<or> busy env u \<noteq> None \<or> u_raw u" | "u_session u = s" "busy env u = None" "\<not> u_raw u" "peer_conn u = None"
    | c where "u_session u = s" "busy env u = None" "\<not> u_raw u" "peer_conn u = Some c"
    by (cases "peer_conn u") auto
  then show ?thesis
  proof cases
    case 1
    then show ?thesis using Some by (auto simp: connect_again_def only_sock_def split: option.splits)
  next
    case 2
    have "pinv None {} st" by (rule pinv_unskey [OF assms(1)]) (use Some 2 in auto)
    from connect_peer_ok [where s = s, OF this _ assms(3,4,5)] assms(2) [OF Some] Some 2 show ?thesis by (auto simp: connect_again_def)
  next
    case (3 c)
    obtain st1 u1 where f: "tcp_finalize ob st = Some st1" "pinv None {ob} st1" "only_sock ob st st1" "usocks st1 ob = Some u1"
      "peer_conn u1 = None" "u_cleanup u1 = None" "conns st1 = forget (conns st) (peer_conn u)"
      using finalize_ok [OF assms(1) Some] by blast
    have p: "pinv None {} st1" by (rule pinv_unskey [OF f(2)]) (use f in auto)
    have k: "skeys st1 ob = Some key" using assms(3) f(3) by (simp add: only_sock_def)
    have fr: "fresh_ok st1 fresh" using assms(5) by (auto simp: fresh_ok_def f(7) 3 split: outcome.splits)
    obtain r st' where "connect_peer env s ob key fresh st1 = Some (r, st')" "pinv None {} st'" "only_sock ob st1 st'"
      using connect_peer_ok [where s = s, OF p _ k assms(4) fr] f(4-6) by auto
    then show ?thesis using Some 3 f(1,3) by (auto simp: connect_again_def only_sock_def)
  qed
qed

text \<open>
  A connect succeeds, fails without a connection, or is rejected: a rejected one leaves the upstream but may have
  changed the object's key.
\<close>

lemma pinv_rekey: "pinv X E st \<Longrightarrow> pinv X (insert ob E) st"
  using pinv_skey [of X E st ob "skeys st ob"] by simp

lemma tcp_connect_ok:
  assumes "pinv None {} st" "\<And>u. usocks st ob = Some u \<Longrightarrow> peer_conn u = None \<Longrightarrow> u_cleanup u = None"
    "cleanup_ok env" "fresh_ok st fresh"
  shows "\<exists>r st'. tcp_connect rt toint field env ob fresh args st = Some (r, st') \<and>
    (\<forall>b. b \<noteq> ob \<longrightarrow> skeys st' b = skeys st b \<and> usocks st' b = usocks st b) \<and>
    (pinv None {} st' \<or> (\<exists>k. st' = st\<lparr>skeys := (skeys st)(ob := k)\<rparr>))"
proof -
  have same: "\<exists>k. st = st\<lparr>skeys := (skeys st)(ob := k)\<rparr>" by (rule exI [of _ "skeys st ob"]) simp
  have again: "\<exists>r st'. connect_again env s ob key fresh (st\<lparr>skeys := (skeys st)(ob \<mapsto> key)\<rparr>) = Some (r, st') \<and>
      (\<forall>b. b \<noteq> ob \<longrightarrow> skeys st' b = skeys st b \<and> usocks st' b = usocks st b) \<and>
      (pinv None {} st' \<or> (\<exists>k. st' = st\<lparr>skeys := (skeys st)(ob := k)\<rparr>))" for s key
  proof -
    let ?st = "st\<lparr>skeys := (skeys st)(ob \<mapsto> key)\<rparr>"
    have "pinv None {ob} ?st" by (rule pinv_skey [OF assms(1)])
    then have "\<exists>r st'. connect_again env s ob key fresh ?st = Some (r, st') \<and> only_sock ob ?st st' \<and> (pinv None {} st' \<or> st' = ?st)"
      by (rule connect_again_ok) (use assms(2-4) in \<open>auto simp: fresh_ok_def split: outcome.splits\<close>)
    then show ?thesis by (fastforce simp: only_sock_def)
  qed
  show ?thesis
    unfolding tcp_connect_def using same again
    by (auto simp: Let_def assms(1) split: option.splits sum.splits)
qed

end
