(* ===== verification/Socket_Pool_Ops.thy ===== *)
theory Socket_Pool_Ops
  imports Socket_Pool_Inv
begin

section \<open>Keepalive pools: the operations keep the invariant\<close>

text \<open>A pool for the key: found, or created empty.\<close>

lemma pinv_new_pool:
  assumes "pinv None E st" "registry st key = None" "CHR 0x00 \<notin> set key" "n \<noteq> 0"
    "st' = put_pool (next_pool st) (new_spool key n) (st\<lparr>registry := (registry st)(key \<mapsto> next_pool st), next_pool := next_pool st + 1\<rparr>)"
  shows "pinv None E st'"
proof -
  note v = pinvD [OF assms(1)]
  let ?p = "next_pool st"
  have new: "pmem st ?p = None" using reg_okD(3) [OF v(1)] by (cases "pmem st ?p") auto
  have unreg: "registry st k \<noteq> Some ?p" for k using reg_okD(2) [OF v(1)] new by fastforce
  have m: "members st' = members st" by (rule members_frame) (simp_all add: assms(5))
  have empty: "members st ?p = {}"
  proof (rule ccontr)
    assume "members st ?p \<noteq> {}"
    then obtain c where c: "member_of st c = Some ?p" by (auto simp: members_def)
    then obtain x where x: "conns st c = Some x" by (cases "conns st c") (auto simp: member_of_def)
    show False
    proof (cases x)
      case (InUse b)
      then obtain u where u: "usocks st b = Some u" using use_okD(3) [OF v(4)] x by blast
      then have "peer_conn u = Some c" using use_okD(4) [OF v(4)] x InUse by blast
      moreover have "reused u \<noteq> 0" "socket_pool u = Some ?p" using c x InUse u by (auto simp: member_of_def split: if_splits)
      ultimately show False using lend_okD [OF v(5) u] unreg by auto
    next
      case (InPool q i)
      then show False using own_okD(2) [OF v(3), of c q i] x c new by (auto simp: member_of_def)
    qed
  qed
  show ?thesis
    unfolding pinv_def
  proof (intro conjI)
    show "reg_ok st'"
    proof (rule reg_okI, goal_cases)
      case (1 k p)
      then show ?case using reg_okD(1) [OF v(1), of k p] assms(3) by (auto simp: assms(5) split: if_splits)
    next
      case (2 k p)
      then show ?case using reg_okD(2) [OF v(1), of k p] unreg [of k] by (auto simp: assms(5) new_spool_def split: if_splits)
    next
      case (3 p sp)
      then show ?case using reg_okD(3) [OF v(1), of p sp] by (auto simp: assms(5) split: if_splits)
    qed
    have "distinct (cache (new_spool key n) @ free_items (new_spool key n))" "items (new_spool key n) \<noteq> []"
      "set (cache (new_spool key n) @ free_items (new_spool key n)) = {..<length (items (new_spool key n))}"
      using assms(4) by (auto simp: new_spool_def)
    then show "wf_ok st'" using v(2) unfolding wf_ok_def assms(5) by auto
    show "own_ok st'"
    proof (rule own_okI, goal_cases)
      case (1 p sp i)
      then show ?case using own_okD(1) [OF v(3), of p sp i] by (auto simp: assms(5) new_spool_def split: if_splits)
    next
      case (2 c p i)
      then show ?case using own_okD(2) [OF v(3), of c p i] by (auto simp: assms(5))
    next
      case (3 c p i sp)
      then show ?case using own_okD(2,3) [OF v(3), of c p i] new by (auto simp: assms(5) split: if_splits)
    qed
    show "use_ok st'" by (rule use_ok_frame [OF v(4)]) (simp_all add: assms(5))
    show "lend_ok E st'"
    proof (rule lend_okI, goal_cases)
      case (1 b u c)
      then obtain k p where "socket_pool u = Some p" "registry st k = Some p" "b \<in> E \<or> skeys st b = Some k"
        using lend_okD [OF v(5), of b u c] by (auto simp: assms(5))
      then show ?case using assms(2) by (intro exI [of _ k] exI [of _ p]) (auto simp: assms(5))
    qed
    show "count_ok None st'"
    proof (rule count_okI, goal_cases)
      case (1 p sp)
      then show ?case using count_okD(1) [OF v(6), of p sp] empty unfolding m by (auto simp: assms(5) new_spool_def split: if_splits)
    next
      case (2 p sp)
      have "registered st' p" if "registered st p"
        using that assms(2) by (auto simp: registered_def assms(5)) (metis option.distinct(1))
      then show ?case using 2 count_okD(2) [OF v(6), of p sp] empty unfolding m by (auto simp: assms(5) split: if_splits)
    qed simp
    show "cln_ok st'" by (rule cln_ok_frame [OF v(7)]) (simp_all add: assms(5))
  qed
qed

text \<open>An item for the connection: afterwards the pool is as if the item had been taken from the free queue.\<close>

lemma claim_item_ok:
  assumes "pinv None E st" "registry st key = Some p"
  shows "\<exists>i st2 sp is. claim_item p st = Some (i, put_pool p (sp\<lparr>free_items := is\<rparr>) st2) \<and> pinv None E st2 \<and>
    pmem st2 p = Some sp \<and> free_items sp = i # is \<and> usocks st2 = usocks st \<and> skeys st2 = skeys st \<and> registry st2 = registry st"
proof -
  note v = pinvD [OF assms(1)]
  obtain sp where sp: "pmem st p = Some sp" using reg_okD(2) [OF v(1) assms(2)] by blast
  note w = wf_okD [OF v(2) sp]
  show ?thesis
  proof (cases "free_items sp")
    case (Cons i "is")
    then have "claim_item p st = Some (i, put_pool p (sp\<lparr>free_items := is\<rparr>) st)" using sp by (simp add: claim_item_def)
    with Cons sp assms(1) show ?thesis by (intro exI conjI) simp_all
  next
    case Nil
    have "0 \<in> set (cache sp @ free_items sp)" unfolding w(2) using w(3) by simp
    then have ne: "cache sp \<noteq> []" using Nil by (cases "cache sp") simp_all
    define i where "i = last (cache sp)"
    have i: "i \<in> set (cache sp)" using ne by (simp add: i_def)
    let ?c = "item_conn (items sp ! i)"
    have rem: "remove1 i (cache sp) = butlast (cache sp)"
    proof -
      have "distinct (butlast (cache sp) @ [i])" using w(1) ne append_butlast_last_id [OF ne] by (simp add: i_def)
      then have "remove1 i (butlast (cache sp) @ [i]) = butlast (cache sp)" by (simp add: remove1_append)
      then show ?thesis using append_butlast_last_id [OF ne] by (simp add: i_def)
    qed
    let ?sp = "sp\<lparr>cache := butlast (cache sp), free_items := [i]\<rparr>"
    let ?st = "put_pool p ?sp (st\<lparr>conns := (conns st)(?c := None), ka_timer := (ka_timer st)(?c := None)\<rparr>)"
    have "sp\<lparr>cache := remove1 i (cache sp), free_items := i # free_items sp\<rparr> = ?sp" using rem Nil by simp
    then have d: "pinv (Some p) E ?st" "conns st ?c = Some (InPool p i)" using pinv_drop [OF assms(1) sp i refl refl refl] by simp_all
    let ?sp2 = "?sp\<lparr>active_connections := active_connections ?sp - 1\<rparr>"
    have "pinv None E (put_pool p ?sp2 ?st)" by (rule pinv_dec [OF d(1)]) simp
    moreover have "claim_item p st = Some (i, put_pool p (?sp2\<lparr>free_items := []\<rparr>) (put_pool p ?sp2 ?st))"
    proof -
      let ?sp3 = "sp\<lparr>cache := butlast (cache sp), active_connections := active_connections sp - 1\<rparr>"
      have "claim_item p st = Some (i, put_pool p ?sp3 (put_pool p ?sp2 ?st))"
        using sp Nil ne d(2) by (simp add: claim_item_def i_def [symmetric] close_connection_def Let_def)
      moreover have "?sp2\<lparr>free_items := []\<rparr> = ?sp3" using Nil by (cases sp) simp
      ultimately show ?thesis by (simp only:)
    qed
    moreover have "pmem (put_pool p ?sp2 ?st) p = Some ?sp2" "free_items ?sp2 = i # []" by simp_all
    moreover have "usocks (put_pool p ?sp2 ?st) = usocks st" "skeys (put_pool p ?sp2 ?st) = skeys st" "registry (put_pool p ?sp2 ?st) = registry st"
      by simp_all
    ultimately show ?thesis by blast
  qed
qed

text \<open>The connection of an object moves into an item of the pool.\<close>

lemma pinv_give:
  assumes "pinv None E st" "pmem st p = Some sp" "free_items sp = i # is" "usocks st ob = Some u" "peer_conn u = Some c"
    "registry st key = Some p" "reused u \<noteq> 0 \<Longrightarrow> socket_pool u = Some p"
    "sp' = sp\<lparr>free_items := is, cache := i # cache sp,
       items := (items sp)[i := \<lparr>item_conn = c, item_sockaddr = peer_sockaddr u, item_reused = reused u\<rparr>],
       active_connections := (if reused u = 0 then active_connections sp + 1 else active_connections sp)\<rparr>"
    "st' = put_sock ob (u\<lparr>peer_conn := None\<rparr>) (put_pool p sp' (st\<lparr>conns := (conns st)(c \<mapsto> InPool p i), ka_timer := tm\<rparr>))"
  shows "pinv None E st'"
proof -
  note v = pinvD [OF assms(1)]
  note w = wf_okD [OF v(2) assms(2)]
  have il: "i < length (items sp)" "i \<notin> set (cache sp)" using w(5) [of i] w(1) assms(3) by auto
  have c: "conns st c = Some (InUse ob)" by (rule use_okD(1) [OF v(4) assms(4,5)])
  have mine: "conns st d = Some (InUse ob) \<longleftrightarrow> d = c" for d
    using c use_okD(4) [OF v(4) _ assms(4), of d] assms(5) by auto
  have us: "usocks st' b = (if b = ob then Some (u\<lparr>peer_conn := None\<rparr>) else usocks st b)" for b by (simp add: assms(9))
  have cs: "conns st' d = (if d = c then Some (InPool p i) else conns st d)" for d by (simp add: assms(9))
  have pm: "pmem st' q = (if q = p then Some sp' else pmem st q)" for q by (simp add: assms(9))
  have it: "items sp' ! j = (if j = i then \<lparr>item_conn = c, item_sockaddr = peer_sockaddr u, item_reused = reused u\<rparr> else items sp ! j)" for j
    using il(1) by (simp add: assms(8))
  have mem: "member_of st' = (member_of st)(c := Some p)"
    using mine by (auto simp: member_of_def us cs fun_eq_iff split: option.splits cdata.splits)
  have mc: "member_of st c = (if reused u = 0 then None else Some p)" using c assms(4,7) by (simp add: member_of_def)
  show ?thesis
    unfolding pinv_def
  proof (intro conjI)
    have "reg_ok (st\<lparr>pmem := (pmem st)(p \<mapsto> sp')\<rparr>)" by (rule reg_ok_pool [OF v(1) assms(2)]) (simp add: assms(8))
    then show "reg_ok st'" by (rule reg_ok_frame) (simp_all add: assms(9))
    have "distinct (cache sp' @ free_items sp')" "set (cache sp' @ free_items sp') = {..<length (items sp')}" "items sp' \<noteq> []"
      using w(1-3) assms(3) by (auto simp: assms(8))
    then show "wf_ok st'" using v(2) unfolding wf_ok_def pm by (metis option.inject)
    show "own_ok st'"
    proof (rule own_okI, goal_cases)
      case (1 q sq j)
      show ?case
      proof (cases "q = p")
        case True
        then have sq: "sq = sp'" using 1 by (simp add: pm)
        show ?thesis
        proof (cases "j = i")
          case False
          then have "j \<in> set (cache sp)" using 1(2) sq by (simp add: assms(8))
          from own_okD(1) [OF v(3) assms(2) this] show ?thesis using c False True by (auto simp: cs it sq)
        qed (simp add: sq it cs True)
      next
        case False
        then show ?thesis using own_okD(1) [OF v(3), of q sq j] 1 c by (auto simp: pm cs)
      qed
    next
      case (2 d q j)
      then show ?case using own_okD(2) [OF v(3), of d q j] by (auto simp: cs pm split: if_splits)
    next
      case (3 d q j sq)
      show ?case
      proof (cases "d = c")
        case True
        then have "q = p" "j = i" "sq = sp'" using 3 by (simp_all add: cs pm)
        moreover have "i \<in> set (cache sp')" by (simp add: assms(8))
        ultimately show ?thesis using True by (simp add: it)
      next
        case False
        then have "conns st d = Some (InPool q j)" using 3 by (simp add: cs)
        moreover obtain sq0 where s0: "pmem st q = Some sq0" using own_okD(2) [OF v(3) calculation] by blast
        ultimately have "j \<in> set (cache sq0) \<and> item_conn (items sq0 ! j) = d" by (rule own_okD(3) [OF v(3)])
        note own = this
        show ?thesis
        proof (cases "q = p")
          case True
          then have "sq = sp'" "sq0 = sp" using 3(2) s0 assms(2) by (simp_all add: pm)
          moreover from this own il(2) have "j \<noteq> i" by auto
          ultimately show ?thesis using own by (simp add: it) (simp add: assms(8))
        next
          case False
          then show ?thesis using own s0 3(2) by (simp add: pm)
        qed
      qed
    qed
    show "use_ok st'"
    proof (rule use_okI, goal_cases)
      case (1 b x d)
      then show ?case using use_okD(1,2) [OF v(4), of b x d] c by (auto simp: us cs split: if_splits)
    next
      case (2 d b)
      then show ?case using use_okD(3) [OF v(4), of d b] by (auto simp: us cs split: if_splits)
    next
      case (3 d b x)
      then show ?case using use_okD(4) [OF v(4), of d b x] mine by (auto simp: us cs split: if_splits)
    next
      case (4 b x)
      then show ?case using use_okD(5) [OF v(4)] assms(4) by (auto simp: us split: if_splits)
    qed
    show "lend_ok E st'"
    proof (rule lend_okI, goal_cases)
      case (1 b x d)
      then show ?case using lend_okD [OF v(5), of b x d] by (auto simp: us assms(9) split: if_splits)
    qed
    have n: "card (members st' q) = card (members st q) + (if q = p \<and> reused u = 0 then 1 else 0)" for q
      using card_members_upd [OF mem, of q] by (auto simp: mc split: if_splits)
    have rg: "registered st' q = registered st q" for q by (simp add: assms(9) registered_def)
    show "count_ok None st'"
    proof (rule count_okI, goal_cases)
      case (1 q sq)
      then show ?case
        using count_okD(1) [OF v(6), of q] assms(2) by (cases "q = p") (auto simp: pm n assms(8))
    next
      case (2 q sq)
      show ?case
      proof (cases "q = p")
        case True
        then show ?thesis using assms(6) by (auto simp: rg) (auto simp: registered_def)
      next
        case False
        then show ?thesis using 2 count_okD(2) [OF v(6), of q sq] members_fun_upd [OF mem, of q] by (auto simp: pm rg)
      qed
    qed simp
    show "cln_ok st'"
      using assms(4)
      by (intro cln_okI) (auto simp: us assms(9) intro: cln_okD(2,4) [OF v(7)] dest: cln_okD(1,3) [OF v(7)] split: if_splits)
  qed
qed

lemma item_full: "it\<lparr>item_conn := c, item_sockaddr := a, item_reused := n\<rparr> = \<lparr>item_conn = c, item_sockaddr = a, item_reused = n\<rparr>"
  by (cases it) simp

lemma give_ok:
  assumes "pinv None E st" "registry st key = Some p" "usocks st ob = Some u" "peer_conn u = Some c"
    "reused u \<noteq> 0 \<Longrightarrow> socket_pool u = Some p"
  shows "\<exists>i st1 st2 st3. claim_item p st = Some (i, st1) \<and> store_conn p i c ob u st1 = Some st2 \<and>
    label_conn p i c u timeout st2 = Some st3 \<and> pinv None E st3 \<and> conns st3 c = Some (InPool p i) \<and>
    usocks st3 = (usocks st)(ob \<mapsto> u\<lparr>peer_conn := None\<rparr>) \<and> skeys st3 = skeys st \<and> registry st3 = registry st \<and>
    (\<exists>sp is. pmem st3 p = Some sp \<and> cache sp = i # is \<and>
       items sp ! i = \<lparr>item_conn = c, item_sockaddr = peer_sockaddr u, item_reused = reused u\<rparr>)"
proof -
  obtain i st2 sp "is" where cl: "claim_item p st = Some (i, put_pool p (sp\<lparr>free_items := is\<rparr>) st2)" and v: "pinv None E st2"
    and sp: "pmem st2 p = Some sp" "free_items sp = i # is" and eq: "usocks st2 = usocks st" "skeys st2 = skeys st" "registry st2 = registry st"
    using claim_item_ok [OF assms(1,2)] by blast
  have il: "i < length (items sp)" using wf_okD(5) [OF pinvD(2) [OF v] sp(1), of i] sp(2) by simp
  let ?n = "if reused u = 0 then active_connections sp + 1 else active_connections sp"
  let ?sp' = "sp\<lparr>free_items := is, cache := i # cache sp,
       items := (items sp)[i := \<lparr>item_conn = c, item_sockaddr = peer_sockaddr u, item_reused = reused u\<rparr>], active_connections := ?n\<rparr>"
  let ?sp1 = "sp\<lparr>free_items := is, items := (items sp)[i := (items sp ! i)\<lparr>item_conn := c\<rparr>], cache := i # cache sp,
       active_connections := ?n\<rparr>"
  let ?st3 = "put_sock ob (u\<lparr>peer_conn := None\<rparr>) (put_pool p ?sp1 (st2\<lparr>ka_timer := (ka_timer st2)(c := None)\<rparr>))"
  let ?tm = "(ka_timer st2)(c := if timeout = 0 then None else Some timeout)"
  let ?st4 = "put_sock ob (u\<lparr>peer_conn := None\<rparr>) (put_pool p ?sp' (st2\<lparr>conns := (conns st2)(c \<mapsto> InPool p i), ka_timer := ?tm\<rparr>))"
  have st: "store_conn p i c ob u (put_pool p (sp\<lparr>free_items := is\<rparr>) st2) = Some ?st3"
    using il by (simp add: store_conn_def Let_def)
  have la: "label_conn p i c u timeout ?st3 = Some ?st4"
    using il by (cases st2; cases sp) (simp add: label_conn_def item_full)
  have "pinv None E ?st4"
    by (rule pinv_give [OF v sp _ assms(4) _ assms(5) refl refl]) (use assms(2,3) eq in simp_all)
  moreover have "conns ?st4 c = Some (InPool p i)" "usocks ?st4 = (usocks st)(ob \<mapsto> u\<lparr>peer_conn := None\<rparr>)" "skeys ?st4 = skeys st" "registry ?st4 = registry st"
    using eq by simp_all
  moreover have "\<exists>sp is. pmem ?st4 p = Some sp \<and> cache sp = i # is \<and>
       items sp ! i = \<lparr>item_conn = c, item_sockaddr = peer_sockaddr u, item_reused = reused u\<rparr>"
    by (rule exI [of _ ?sp']) (use il in simp)
  ultimately show ?thesis using cl st la by blast
qed

text \<open>The items of a pool of reasonable size lie inside its memory.\<close>

lemma items_inside_small:
  assumes "klen < 2 ^ 32" "n < 2 ^ 32"
  shows "items_inside klen n"
proof -
  have "key_space klen \<le> klen + 8" unfolding key_space_def by presburger
  then have "56 + key_space klen - 1 + 176 * n < 2 ^ 64" using assms by simp
  then show ?thesis by (simp add: items_inside_def pool_bytes_def)
qed

definition size_fits :: "lua_rt \<Rightarrow> (lua_number \<Rightarrow> int) \<Rightarrow> penv \<Rightarrow> lua_value list \<Rightarrow> bytes \<Rightarrow> bool" where
  "size_fits rt toint env args key \<longleftrightarrow> (case pool_size rt toint env args of Some n \<Rightarrow> items_inside (length key) n | None \<Rightarrow> True)"

lemma find_pool_ok:
  assumes "pinv None E st" "CHR 0x00 \<notin> set key" "size_fits rt toint env args key"
  shows "(\<exists>r. find_pool rt toint env key args st = Some (Inl r)) \<or>
    (\<exists>p st'. find_pool rt toint env key args st = Some (Inr (p, st')) \<and> pinv None E st' \<and> registry st' key = Some p \<and>
       usocks st' = usocks st \<and> skeys st' = skeys st \<and> conns st' = conns st)"
proof (cases "registry st key")
  case (Some p)
  then show ?thesis using assms(1) by (simp add: find_pool_def)
next
  case None
  show ?thesis
  proof (cases "pool_size rt toint env args")
    case (Some n)
    let ?st = "put_pool (next_pool st) (new_spool key n) (st\<lparr>registry := (registry st)(key \<mapsto> next_pool st), next_pool := next_pool st + 1\<rparr>)"
    have "pinv None E ?st" if "n \<noteq> 0" by (rule pinv_new_pool [OF assms(1) None assms(2) that refl])
    then show ?thesis using None Some assms(3) by (simp add: find_pool_def size_fits_def Let_def)
  qed (simp add: find_pool_def None)
qed

text \<open>An object's reused connection came from the pool its key names.\<close>

lemma lent_pool:
  assumes "pinv X {} st" "usocks st ob = Some u" "peer_conn u = Some c" "reused u \<noteq> 0" "skeys st ob = Some key" "registry st key = Some p"
  shows "socket_pool u = Some p"
  using lend_okD [OF pinvD(5) [OF assms(1)] assms(2-4)] assms(5,6) by auto

lemma keep_conn_ok:
  assumes "pinv None {} st" "registry st key = Some p" "skeys st ob = Some key" "usocks st ob = Some u" "peer_conn u = Some c"
    "args = [] \<or> check_number rt (args ! 0) \<noteq> None"
  shows "\<exists>r st'. keep_conn rt toint env ob u c args p st = Some (r, st') \<and> pinv None {} st' \<and> only_sock ob st st'"
proof -
  obtain timeout where t: "(if args = [] then Some (conf_keepalive_timeout env) else map_option (\<lambda>x. toint x mod 2 ^ 64) (check_number rt (args ! 0))) = Some timeout"
    using assms(6) by (cases "args = []") auto
  have "socket_pool u = Some p" if "reused u \<noteq> 0" by (rule lent_pool [OF assms(1,4,5) that assms(3,2)])
  then obtain i st2 st3 st4 where g: "claim_item p st = Some (i, st2)" "store_conn p i c ob u st2 = Some st3"
      "label_conn p i c u timeout st3 = Some st4" "pinv None {} st4" "conns st4 c = Some (InPool p i)"
      "usocks st4 = (usocks st)(ob \<mapsto> u\<lparr>peer_conn := None\<rparr>)" "skeys st4 = skeys st"
    using give_ok [OF assms(1,2,4,5), of timeout] by blast
  obtain rc st5 where h: "keepalive_close_handler env c st4 = Some (rc, st5)" "pinv None {} st5" "skeys st5 = skeys st4" "usocks st5 = usocks st4"
    using close_handler_ok [OF g(4,5)] by blast
  define st6 where "st6 = (if rev_ready env then st5 else st4)"
  have st6: "pinv None {} st6" "skeys st6 = skeys st" "usocks st6 = (usocks st)(ob \<mapsto> u\<lparr>peer_conn := None\<rparr>)"
    using g h by (simp_all add: st6_def)
  obtain st7 where f: "tcp_finalize ob st6 = Some st7" "pinv None {} st7" "only_sock ob st6 st7"
    using finalize_ok [OF st6(1), of ob] st6(3) by auto
  have "only_sock ob st st6" "only_sock ob st st7" using st6 f(3) by (simp_all add: only_sock_def)
  then show ?thesis unfolding keep_conn_def t using g(1-3) h(1) st6(1) f(1,2) by (auto simp: st6_def split: if_splits)
qed

lemma setkeepalive_ok:
  assumes "pinv None {} st" "\<And>key. skeys st ob = Some key \<Longrightarrow> CHR 0x00 \<notin> set key \<and> size_fits rt toint env args key"
    "args = [] \<or> check_number rt (args ! 0) \<noteq> None"
  shows "\<exists>r st'. tcp_setkeepalive rt toint env ob args st = Some (r, st') \<and> pinv None {} st' \<and> only_sock ob st st'"
proof (cases "\<exists>r. tcp_setkeepalive rt toint env ob args st = Some (r, st)")
  case True
  then show ?thesis using assms(1) by (auto simp: only_sock_def)
next
  case False
  then obtain key u c where k: "skeys st ob = Some key" "usocks st ob = Some u" "peer_conn u = Some c"
    by (auto simp: tcp_setkeepalive_def split: option.splits if_splits)
  from False k have find: "tcp_setkeepalive rt toint env ob args st =
      (case find_pool rt toint env key args st of
         None \<Rightarrow> None | Some (Inl r) \<Rightarrow> Some (r, st) | Some (Inr (p, st)) \<Rightarrow> keep_conn rt toint env ob u c args p st)"
    by (auto simp: tcp_setkeepalive_def split: option.splits if_splits)
  then obtain p st1 where p: "find_pool rt toint env key args st = Some (Inr (p, st1))" "pinv None {} st1" "registry st1 key = Some p"
      "usocks st1 = usocks st" "skeys st1 = skeys st"
    using find_pool_ok [OF assms(1), of key rt toint env args] assms(2) [OF k(1)] False by auto
  show ?thesis
    using keep_conn_ok [OF p(2,3) _ _ k(3) assms(3), of ob toint env] k(1,2) p(4,5) by (simp add: find p(1) only_sock_def)
qed

text \<open>Closing, the end of a session, the collection of an object or of a pool.\<close>

lemma close_ok:
  assumes "pinv None {} st"
  shows "\<exists>r st'. tcp_close env ob st = Some (r, st') \<and> pinv None {} st'"
proof (cases "usocks st ob")
  case (Some u)
  obtain st' where "tcp_finalize ob st = Some st'" "pinv None {} st'" using finalize_ok [OF assms Some] by blast
  then show ?thesis using assms Some by (auto simp: tcp_close_def split: option.splits)
qed (use assms in \<open>auto simp: tcp_close_def split: option.splits\<close>)

lemma resolve_ok:
  assumes "pinv None {} st" "usocks st ob = Some u" "peer_conn u = None" "u_cleanup u = None" "reused u = 0" "cleanup_ok env" "fresh_ok st fresh"
  shows "\<exists>r st'. resolve_done env fresh ob st = Some (r, st') \<and> pinv None {} st'"
proof -
  let ?u = "u\<lparr>u_conn_waiting := False\<rparr>" and ?st = "put_sock ob (u\<lparr>u_conn_waiting := False\<rparr>) st"
  have v: "pinv None {} ?st" by (rule pinv_flags [OF assms(1,2)]) (use use_okD(5) [OF pinvD(4) [OF assms(1)] assms(2)] in simp_all)
  have "fresh_ok ?st fresh" using assms(7) by (simp add: fresh_ok_def split: outcome.splits)
  then obtain r st1 where "connect_fresh env fresh ob ?st = Some (r, st1)" "pinv None {} st1"
    using connect_fresh_ok [OF v, of ob ?u env fresh] assms(3-6) by auto
  moreover obtain st2 where "tcp_finalize ob ?st = Some st2" "pinv None {} st2" using finalize_ok [OF v, of ob ?u] by auto
  ultimately show ?thesis using assms(2) by (cases fresh) (simp_all add: resolve_done_def Let_def)
qed

lemma cleanup_handler_ok:
  assumes "pinv None {} st"
  shows "\<exists>st'. tcp_cleanup cln st = Some st' \<and> pinv None {} st'"
proof (cases "cleanups st cln")
  case (Some ob)
  then obtain u where "usocks st ob = Some u" using cln_okD(2) [OF pinvD(7) [OF assms]] by blast
  from finalize_ok [OF assms this] show ?thesis using Some by (auto simp: tcp_cleanup_def)
qed (use assms in \<open>simp add: tcp_cleanup_def\<close>)

lemma pinv_forget_sock:
  assumes "pinv None {} st" "usocks st ob = Some u" "peer_conn u = None" "u_cleanup u = None"
    "st' = st\<lparr>usocks := (usocks st)(ob := None), skeys := (skeys st)(ob := None)\<rparr>"
  shows "pinv None {} st'"
proof -
  note v = pinvD [OF assms(1)]
  have us: "usocks st' b = (if b = ob then None else usocks st b)" for b by (simp add: assms(5))
  have no: "conns st c \<noteq> Some (InUse ob)" for c using use_okD(4) [OF v(4) _ assms(2), of c] assms(3) by auto
  have "member_of st' c = member_of st c" for c
    using no [of c] by (auto simp: member_of_def us assms(5) split: option.splits cdata.splits)
  then have m: "members st' = members st" by (simp add: members_def fun_eq_iff)
  show ?thesis
    unfolding pinv_def
  proof (intro conjI)
    show "reg_ok st'" by (rule reg_ok_frame [OF v(1)]) (simp_all add: assms(5))
    show "wf_ok st'" by (rule wf_ok_frame [OF v(2)]) (simp add: assms(5))
    show "own_ok st'" by (rule own_ok_frame [OF v(3)]) (simp_all add: assms(5))
    show "use_ok st'"
    proof (rule use_okI, goal_cases)
      case (1 b u c)
      then show ?case using use_okD(1,2) [OF v(4), of b u c] by (auto simp: us assms(5) split: if_splits)
    next
      case (2 c b)
      then show ?case using use_okD(3) [OF v(4), of c b] no [of c] by (auto simp: us assms(5))
    next
      case (3 c b u)
      then show ?case using use_okD(4) [OF v(4), of c b u] by (simp add: us assms(5) split: if_splits)
    next
      case (4 b u)
      then show ?case using use_okD(5) [OF v(4), of b u] by (simp add: us split: if_splits)
    qed
    show "lend_ok {} st'"
    proof (rule lend_okI, goal_cases)
      case (1 b u c)
      then show ?case using lend_okD [OF v(5), of b u c] by (auto simp: us assms(5) split: if_splits)
    qed
    show "count_ok None st'" by (rule count_ok_frame [OF v(6) _ m]) (simp_all add: assms(5))
    show "cln_ok st'"
    proof (rule cln_okI, goal_cases)
      case (1 i b)
      then show ?case using cln_okD(1) [OF v(7), of i b] by (simp add: assms(5))
    next
      case (2 i b)
      then show ?case using cln_okD(2) [OF v(7), of i b] cln_okD(3) [OF v(7), of i ob u] assms(2,4) by (auto simp: us assms(5))
    next
      case (3 i b u)
      then show ?case using cln_okD(3) [OF v(7), of i b u] by (simp add: us assms(5) split: if_splits)
    next
      case (4 b u i)
      then show ?case using cln_okD(4) [OF v(7), of b u i] by (simp add: us assms(5) split: if_splits)
    qed
  qed
qed

lemma destroy_ok:
  assumes "pinv None {} st" "usocks st ob = Some u"
  shows "\<exists>st'. upstream_destroy ob st = Some st' \<and> pinv None {} st'"
proof (cases "u_cleanup u")
  case None
  then have "peer_conn u = None" using use_okD(2) [OF pinvD(4) [OF assms(1)] assms(2)] by (cases "peer_conn u") auto
  from pinv_forget_sock [OF assms this None refl] show ?thesis using assms(2) None by (simp add: upstream_destroy_def)
next
  case (Some cln)
  obtain st1 u' where f: "tcp_finalize ob st = Some st1" "pinv None {} st1" "usocks st1 ob = Some u'" "peer_conn u' = None" "u_cleanup u' = None"
    using finalize_ok [OF assms] by blast
  from pinv_forget_sock [OF f(2-5) refl] show ?thesis using assms(2) Some f(1) by (simp add: upstream_destroy_def)
qed

lemma pinv_unpool:
  assumes "pinv None {} st" "pmem st p = Some sp" "\<not> registered st p" "st' = st\<lparr>pmem := (pmem st)(p := None)\<rparr>"
  shows "pinv None {} st' \<and> cache sp = []"
proof
  note v = pinvD [OF assms(1)]
  have pm: "pmem st' q = (if q = p then None else pmem st q)" for q by (simp add: assms(4))
  have "members st p = {}" using count_okD(2) [OF v(6) assms(2)] assms(3) by simp
  then have mem: "member_of st c \<noteq> Some p" for c by (auto simp: members_def)
  have no: "conns st c \<noteq> Some (InPool p i)" for c i
  proof
    assume "conns st c = Some (InPool p i)"
    then have "member_of st c = Some p" by (simp add: member_of_def)
    then show False using mem by simp
  qed
  have unreg: "registry st k \<noteq> Some p" for k using assms(3) by (auto simp: registered_def)
  show "cache sp = []"
  proof (cases "cache sp")
    case (Cons i "is")
    then show ?thesis using own_okD(1) [OF v(3) assms(2), of i] no by simp
  qed
  show "pinv None {} st'"
    unfolding pinv_def
  proof (intro conjI)
    show "reg_ok st'"
    proof (rule reg_okI, goal_cases)
      case (1 k q)
      then show ?case using reg_okD(1) [OF v(1), of k q] by (simp add: assms(4))
    next
      case (2 k q)
      then show ?case using reg_okD(2) [OF v(1), of k q] unreg by (auto simp: assms(4))
    next
      case (3 q sq)
      then show ?case using reg_okD(3) [OF v(1), of q sq] by (simp add: assms(4) split: if_splits)
    qed
    show "wf_ok st'" using v(2) unfolding wf_ok_def pm by simp
    show "own_ok st'"
    proof (rule own_okI, goal_cases)
      case (1 q sq i)
      then show ?case using own_okD(1) [OF v(3), of q sq i] by (simp add: assms(4) split: if_splits)
    next
      case (2 c q i)
      then show ?case using own_okD(2) [OF v(3), of c q i] no [of c i] by (auto simp: assms(4))
    next
      case (3 c q i sq)
      then show ?case using own_okD(3) [OF v(3), of c q i sq] by (simp add: assms(4) split: if_splits)
    qed
    show "use_ok st'" by (rule use_ok_frame [OF v(4)]) (simp_all add: assms(4))
    show "lend_ok {} st'" by (rule lend_ok_frame [OF v(5)]) (simp_all add: assms(4))
    show "count_ok None st'"
    proof (rule count_okI, goal_cases)
      case (1 q sq)
      then show ?case using count_okD(1) [OF v(6), of q sq] by (simp add: assms(4) split: if_splits)
    next
      case (2 q sq)
      then show ?case using count_okD(2) [OF v(6), of q sq] by (simp add: assms(4) registered_def split: if_splits)
    qed simp
    show "cln_ok st'" by (rule cln_ok_frame [OF v(7)]) (simp_all add: assms(4))
  qed
qed

lemma gc_ok:
  assumes "pinv None {} st" "pmem st p = Some sp" "\<not> registered st p"
  shows "gc_pool p st = Some (st\<lparr>pmem := (pmem st)(p := None)\<rparr>) \<and> pinv None {} (st\<lparr>pmem := (pmem st)(p := None)\<rparr>)"
  using pinv_unpool [OF assms refl] assms(2) by (simp add: gc_pool_def shutdown_pool_def)

subsection \<open>Runs of a worker\<close>

text \<open>
  The operations of a worker on its pools: the calls of Lua programs, events of waiting connections and of those being established, the failure of a connection
  in use, answers of the resolver, ends of sessions, and the collection of objects and pools. \<open>OFlags\<close> stands for the other operations of a socket
  object, which set its flags and buffers only.
\<close>

datatype pool_op =
    OConnect penv nat outcome "lua_value list"
  | OSetKeepalive penv nat "lua_value list"
  | OClose penv nat
  | OResolved penv outcome nat
  | OConnected bool bool bool bool nat
  | OFail nat
  | OFlags nat bool bool bool bool bool bool
  | OConnEvent penv conn
  | OCleanup nat
  | ODestroy nat
  | OGc nat

definition set_flags :: "nat \<Rightarrow> bool \<Rightarrow> bool \<Rightarrow> bool \<Rightarrow> bool \<Rightarrow> bool \<Rightarrow> bool \<Rightarrow> pools \<Rightarrow> pools option" where
  "set_flags ob rc wc cw rw ww ur st = do {
     u \<leftarrow> usocks st ob;
     Some (put_sock ob (u\<lparr>u_read_closed := rc, u_write_closed := wc, u_conn_waiting := cw, u_read_waiting := rw,
       u_write_waiting := ww, u_unread := ur\<rparr>) st)
   }"

fun run_op :: "lua_rt \<Rightarrow> (lua_number \<Rightarrow> int) \<Rightarrow> (lua_value \<Rightarrow> lua_value) \<Rightarrow> pool_op \<Rightarrow> pools \<Rightarrow> pools option" where
  "run_op rt toint field (OConnect env ob fresh args) st = map_option snd (tcp_connect rt toint field env ob fresh args st)"
| "run_op rt toint field (OSetKeepalive env ob args) st = map_option snd (tcp_setkeepalive rt toint env ob args st)"
| "run_op rt toint field (OClose env ob) st = map_option snd (tcp_close env ob st)"
| "run_op rt toint field (OResolved env fresh ob) st = map_option snd (resolve_done env fresh ob st)"
| "run_op rt toint field (OConnected timedout test_ok wev_ok rev_ok ob) st = connected_handler timedout test_ok wev_ok rev_ok ob st"
| "run_op rt toint field (OFail ob) st = tcp_finalize ob st"
| "run_op rt toint field (OFlags ob rc wc cw rw ww ur) st = set_flags ob rc wc cw rw ww ur st"
| "run_op rt toint field (OConnEvent env c) st = map_option snd (keepalive_close_handler env c st)"
| "run_op rt toint field (OCleanup cln) st = tcp_cleanup cln st"
| "run_op rt toint field (ODestroy ob) st = upstream_destroy ob st"
| "run_op rt toint field (OGc p) st = gc_pool p st"

text \<open>
  What the calls have to keep to: the system gives a new connection a descriptor that is not open; cleanup handlers are
  allocated; an object is not connected again after \<open>setkeepalive\<close> found its connection in a dubious state; a rejected \<open>connect\<close> on a connected
  object does not rename its pool; pool names have no NUL, the timeout is a number and the pool's items fit into its memory. The event loop delivers events
  of open connections, and the collector takes what is not referenced.
\<close>

definition keeps_name :: "lua_rt \<Rightarrow> (lua_number \<Rightarrow> int) \<Rightarrow> (lua_value \<Rightarrow> lua_value) \<Rightarrow> penv \<Rightarrow> nat \<Rightarrow> outcome \<Rightarrow> lua_value list \<Rightarrow> pools \<Rightarrow> bool" where
  "keeps_name rt toint field env ob fresh args st \<longleftrightarrow>
     (case tcp_connect rt toint field env ob fresh args st of
        None \<Rightarrow> True
      | Some (r, st') \<Rightarrow> usocks st' ob \<noteq> usocks st ob \<or> skeys st' ob = skeys st ob)"

fun allowed :: "lua_rt \<Rightarrow> (lua_number \<Rightarrow> int) \<Rightarrow> (lua_value \<Rightarrow> lua_value) \<Rightarrow> pool_op \<Rightarrow> pools \<Rightarrow> bool" where
  "allowed rt toint field (OConnect env ob fresh args) st \<longleftrightarrow> cleanup_ok env \<and> fresh_ok st fresh \<and>
     (case usocks st ob of
        None \<Rightarrow> True
      | Some u \<Rightarrow> (if peer_conn u = None then u_cleanup u = None else keeps_name rt toint field env ob fresh args st))"
| "allowed rt toint field (OSetKeepalive env ob args) st \<longleftrightarrow>
     (case skeys st ob of None \<Rightarrow> True | Some key \<Rightarrow> CHR 0x00 \<notin> set key \<and> size_fits rt toint env args key) \<and>
     (args = [] \<or> check_number rt (args ! 0) \<noteq> None)"
| "allowed rt toint field (OClose env ob) st \<longleftrightarrow> True"
| "allowed rt toint field (OResolved env fresh ob) st \<longleftrightarrow> cleanup_ok env \<and> fresh_ok st fresh \<and>
     (case usocks st ob of
        None \<Rightarrow> False
      | Some u \<Rightarrow> u_conn_waiting u \<and> peer_conn u = None \<and> u_cleanup u = None \<and> reused u = 0)"
| "allowed rt toint field (OConnected timedout test_ok wev_ok rev_ok ob) st \<longleftrightarrow>
     (case usocks st ob of None \<Rightarrow> False | Some u \<Rightarrow> peer_conn u \<noteq> None)"
| "allowed rt toint field (OFail ob) st \<longleftrightarrow> usocks st ob \<noteq> None"
| "allowed rt toint field (OFlags ob rc wc cw rw ww ur) st \<longleftrightarrow> usocks st ob \<noteq> None"
| "allowed rt toint field (OConnEvent env c) st \<longleftrightarrow> (case conns st c of Some (InPool p i) \<Rightarrow> True | _ \<Rightarrow> False)"
| "allowed rt toint field (OCleanup cln) st \<longleftrightarrow> True"
| "allowed rt toint field (ODestroy ob) st \<longleftrightarrow> usocks st ob \<noteq> None"
| "allowed rt toint field (OGc p) st \<longleftrightarrow> pmem st p \<noteq> None \<and> \<not> registered st p"

lemma run_op_ok:
  assumes "pinv None {} st" "allowed rt toint field x st"
  shows "\<exists>st'. run_op rt toint field x st = Some st' \<and> pinv None {} st'"
proof (cases x)
  case (OConnect env ob fresh args)
  have clean: "u_cleanup u = None" if "usocks st ob = Some u" "peer_conn u = None" for u
    using assms(2) OConnect that by simp
  obtain r st' where t: "tcp_connect rt toint field env ob fresh args st = Some (r, st')"
      "pinv None {} st' \<or> (\<exists>k. st' = st\<lparr>skeys := (skeys st)(ob := k)\<rparr>)"
    using tcp_connect_ok [where ob = ob and env = env and fresh = fresh, OF assms(1) clean] assms(2) OConnect by fastforce
  have "pinv None {} st'" if st': "st' = st\<lparr>skeys := (skeys st)(ob := k)\<rparr>" for k
  proof (cases "\<exists>u. usocks st ob = Some u \<and> peer_conn u \<noteq> None")
    case True
    then have "keeps_name rt toint field env ob fresh args st" using assms(2) OConnect by auto
    then have "k = skeys st ob" using t(1) st' by (simp add: keeps_name_def)
    then show ?thesis using assms(1) st' by simp
  next
    case False
    show ?thesis by (rule pinv_unskey [of _ ob]) (use pinv_skey [OF assms(1), of ob k] False st' in auto)
  qed
  then have "pinv None {} st'" using t(2) by blast
  then show ?thesis using t(1) OConnect by simp
next
  case (OSetKeepalive env ob args)
  have "CHR 0x00 \<notin> set key \<and> size_fits rt toint env args key" if "skeys st ob = Some key" for key
    using assms(2) OSetKeepalive that by simp
  from setkeepalive_ok [OF assms(1) this] show ?thesis using assms(2) OSetKeepalive by fastforce
next
  case (OClose env ob)
  then show ?thesis using close_ok [OF assms(1), of env ob] by auto
next
  case (OResolved env fresh ob)
  then obtain u where u: "usocks st ob = Some u" "cleanup_ok env" "fresh_ok st fresh" "peer_conn u = None" "u_cleanup u = None" "reused u = 0"
    using assms(2) by (auto split: option.splits)
  then show ?thesis using resolve_ok [OF assms(1) u(1,4-6,2,3)] OResolved by auto
next
  case (OConnected timedout test_ok wev_ok rev_ok ob)
  then obtain u c where u: "usocks st ob = Some u" "peer_conn u = Some c" using assms(2) by (auto split: option.splits)
  have "pinv None {} (put_sock ob (u\<lparr>u_conn_waiting := False\<rparr>) st)"
    by (rule pinv_flags [OF assms(1) u(1)]) (use use_okD(5) [OF pinvD(4) [OF assms(1)] u(1)] in simp_all)
  then show ?thesis using conn_error_ok [OF assms(1) u(1)] OConnected u by (auto simp: connected_handler_def)
next
  case (OFail ob)
  then obtain u where "usocks st ob = Some u" using assms(2) by auto
  from finalize_ok [OF assms(1) this] show ?thesis using OFail by auto
next
  case (OFlags ob rc wc cw rw ww ur)
  then obtain u where u: "usocks st ob = Some u" using assms(2) by auto
  let ?u = "u\<lparr>u_read_closed := rc, u_write_closed := wc, u_conn_waiting := cw, u_read_waiting := rw, u_write_waiting := ww, u_unread := ur\<rparr>"
  have "pinv None {} (put_sock ob ?u st)"
    by (rule pinv_flags [OF assms(1) u]) (use use_okD(5) [OF pinvD(4) [OF assms(1)] u] in simp_all)
  then show ?thesis using OFlags u by (simp add: set_flags_def)
next
  case (OConnEvent env c)
  then obtain p i where "conns st c = Some (InPool p i)" using assms(2) by (auto split: option.splits cdata.splits)
  from close_handler_ok [OF assms(1) this, of env] show ?thesis using OConnEvent by auto
next
  case (OCleanup cln)
  then show ?thesis using cleanup_handler_ok [OF assms(1), of cln] by simp
next
  case (ODestroy ob)
  then obtain u where "usocks st ob = Some u" using assms(2) by auto
  from destroy_ok [OF assms(1) this] show ?thesis using ODestroy by simp
next
  case (OGc p)
  then obtain sp where "pmem st p = Some sp" using assms(2) by auto
  from gc_ok [OF assms(1) this] show ?thesis using OGc assms(2) by simp
qed

text \<open>A run executes a sequence of operations, each allowed in the state it finds.\<close>

inductive pool_run :: "lua_rt \<Rightarrow> (lua_number \<Rightarrow> int) \<Rightarrow> (lua_value \<Rightarrow> lua_value) \<Rightarrow> pools \<Rightarrow> bool"
  for rt toint field where
  start: "pool_run rt toint field init_pools"
| step: "pool_run rt toint field st \<Longrightarrow> allowed rt toint field x st \<Longrightarrow> run_op rt toint field x st = Some st' \<Longrightarrow> pool_run rt toint field st'"

lemma pool_run_inv: "pool_run rt toint field st \<Longrightarrow> pinv None {} st"
proof (induction rule: pool_run.induct)
  case start
  show ?case by (rule pinv_init)
next
  case (step st x st')
  then show ?case using run_op_ok by fastforce
qed

text \<open>Who refers to a connection: the upstream of a socket object, or an item in a pool's cache.\<close>

definition holders :: "pools \<Rightarrow> conn \<Rightarrow> cdata set" where
  "holders st c = {InUse ob |ob u. usocks st ob = Some u \<and> peer_conn u = Some c} \<union>
     {InPool p i |p i sp. pmem st p = Some sp \<and> i \<in> set (cache sp) \<and> item_conn (items sp ! i) = c}"

lemma holders_open:
  assumes "pinv X E st"
  shows "holders st c = set_option (conns st c)"
proof -
  note v = pinvD [OF assms]
  have "x \<in> holders st c \<longleftrightarrow> conns st c = Some x" for x
  proof (cases x)
    case (InUse ob)
    have "x \<in> holders st c \<longleftrightarrow> (\<exists>u. usocks st ob = Some u \<and> peer_conn u = Some c)" by (simp add: holders_def InUse)
    then show ?thesis using use_okD(1,3,4) [OF v(4)] InUse by blast
  next
    case (InPool p i)
    have "x \<in> holders st c \<longleftrightarrow> (\<exists>sp. pmem st p = Some sp \<and> i \<in> set (cache sp) \<and> item_conn (items sp ! i) = c)"
      by (simp add: holders_def InPool)
    then show ?thesis using own_okD [OF v(3)] InPool by blast
  qed
  then show ?thesis by auto
qed

text \<open>A successful \<open>setkeepalive\<close> leaves the connection at the head of the cache of the pool of its key.\<close>

lemma keep_conn_stored:
  assumes "pinv None {} st" "registry st key = Some p" "skeys st ob = Some key" "usocks st ob = Some u" "peer_conn u = Some c"
    "keep_conn rt toint env ob u c args p st = Some (LRet [LNumber x], st')"
  shows "\<exists>sp i is. registry st' key = Some p \<and> pmem st' p = Some sp \<and> cache sp = i # is \<and>
       items sp ! i = \<lparr>item_conn = c, item_sockaddr = peer_sockaddr u, item_reused = reused u\<rparr> \<and> conns st' c = Some (InPool p i)"
proof -
  let ?t = "if args = [] then Some (conf_keepalive_timeout env) else map_option (\<lambda>x. toint x mod 2 ^ 64) (check_number rt (args ! 0))"
  obtain timeout where t: "?t = Some timeout"
    using assms(6) by (cases ?t) (auto simp: keep_conn_def bind_eq_Some_conv simp del: not_None_eq)
  have "socket_pool u = Some p" if "reused u \<noteq> 0" by (rule lent_pool [OF assms(1,4,5) that assms(3,2)])
  then obtain i st2 st3 st4 sp "is" where g: "claim_item p st = Some (i, st2)" "store_conn p i c ob u st2 = Some st3"
      "label_conn p i c u timeout st3 = Some st4" "pinv None {} st4" "conns st4 c = Some (InPool p i)"
      "usocks st4 = (usocks st)(ob \<mapsto> u\<lparr>peer_conn := None\<rparr>)" "registry st4 = registry st"
      "pmem st4 p = Some sp" "cache sp = i # is" "items sp ! i = \<lparr>item_conn = c, item_sockaddr = peer_sockaddr u, item_reused = reused u\<rparr>"
    using give_ok [OF assms(1,2,4,5), of timeout] by blast
  have "tcp_finalize ob st4 = Some st'"
    using assms(6) g(1-3) close_handler_ok [OF g(4,5), of env]
    unfolding keep_conn_def t by (auto simp: bind_eq_Some_conv split: if_splits)
  then have "registry st' = registry st4" "pmem st' = pmem st4" "conns st' = conns st4"
    using g(6) by (auto simp: tcp_finalize_def Let_def split: if_splits option.splits)
  then show ?thesis using g(5,7-) assms(2) by auto
qed

lemma setkeepalive_stored:
  assumes "pinv None {} st" "skeys st ob = Some key" "CHR 0x00 \<notin> set key" "size_fits rt toint env args key"
    "usocks st ob = Some u" "peer_conn u = Some c" "tcp_setkeepalive rt toint env ob args st = Some (LRet [LNumber x], st')"
  shows "\<exists>p sp i is. registry st' key = Some p \<and> pmem st' p = Some sp \<and> cache sp = i # is \<and>
       items sp ! i = \<lparr>item_conn = c, item_sockaddr = peer_sockaddr u, item_reused = reused u\<rparr> \<and> conns st' c = Some (InPool p i)"
proof -
  have find: "(case find_pool rt toint env key args st of
      None \<Rightarrow> None | Some (Inl r) \<Rightarrow> Some (r, st) | Some (Inr (p, st)) \<Rightarrow> keep_conn rt toint env ob u c args p st) = Some (LRet [LNumber x], st')"
    using assms(2,5-7) by (auto simp: tcp_setkeepalive_def split: option.splits if_splits)
  moreover have "find_pool rt toint env key args st \<noteq> Some (Inl (LRet [LNumber x]))"
    by (auto simp: find_pool_def Let_def split: option.splits)
  ultimately obtain p st1 where p: "find_pool rt toint env key args st = Some (Inr (p, st1))" "pinv None {} st1" "registry st1 key = Some p"
      "usocks st1 = usocks st" "skeys st1 = skeys st"
    using find_pool_ok [OF assms(1,3,4)] by auto
  show ?thesis
    using keep_conn_stored [OF p(2,3) _ _ assms(6), of ob rt toint env args x st'] find assms(2,5) p(1,4,5) by auto
qed

end
