(* ===== verification/Socket_Pool_Props.thy ===== *)
theory Socket_Pool_Props
  imports Socket_Pool_Ops
begin

section \<open>Keepalive pools: properties\<close>

text \<open>What holds in every run of a worker, the way of a connection through a pool, and a run that breaks the rules.\<close>

fun run_ops :: "lua_rt \<Rightarrow> (lua_number \<Rightarrow> int) \<Rightarrow> (lua_value \<Rightarrow> lua_value) \<Rightarrow> pool_op list \<Rightarrow> pools \<Rightarrow> pools option" where
  "run_ops rt toint field [] st = Some st"
| "run_ops rt toint field (x # xs) st = do { st \<leftarrow> run_op rt toint field x st; run_ops rt toint field xs st }"

text \<open>A connection that waits in the pool of its key goes to the next object that connects with the key.\<close>

lemma connect_takes:
  assumes "registry st key = Some p" "pmem st p = Some sp" "cache sp = i # is" "i < length (items sp)"
    "items sp ! i = \<lparr>item_conn = c, item_sockaddr = a, item_reused = n\<rparr>" "conns st c \<noteq> None" "cleanup_ok env" "usocks st ob = None"
  shows "\<exists>st'. connect_again env s ob key fresh st = Some (CallRet [LNumber (num_of_int 1)], st') \<and> conns st' c = Some (InUse ob) \<and>
    ka_timer st' c = None \<and> (\<exists>u. usocks st' ob = Some u \<and> peer_conn u = Some c \<and> reused u = n + 1 \<and> \<not> u_read_closed u \<and> \<not> u_write_closed u)"
  using assms by (auto simp: connect_again_def connect_peer_def get_keepalive_peer_def blank_usock_def add_cleanup_def Let_def)

text \<open>A run for the examples: an object connects, gives the connection back, and its pool is found in the registry.\<close>

definition demo_env :: penv where
  "demo_env = \<lparr>e_session = Some 1, e_buffered = False, conf_pool_size = 1, conf_keepalive_timeout = 60000, conn_broken = False,
     rev_ready = False, rev_timedout = False, conn_close = False, peek_again = True, read_event_ok = True, udata_ok = (\<lambda>_. True),
     cleanup_ok = True\<rparr>"

definition demo_connect :: pool_op where
  "demo_connect = OConnect demo_env 0 (Opened 5 ''a'' Connected) [LString ''h'', LNumber 80]"

definition demo_st1 :: pools where
  "demo_st1 = the (run_op demo_rt uint id demo_connect init_pools)"

definition demo_st2 :: pools where
  "demo_st2 = the (run_op demo_rt uint id (OSetKeepalive demo_env 0 []) demo_st1)"

lemmas demo_defs = demo_env_def demo_connect_def demo_rt_def init_pools_def

lemmas connect_defs = tcp_connect_def pool_option_def connect_again_def connect_peer_def get_keepalive_peer_def connect_fresh_def
  add_cleanup_def blank_usock_def

lemmas keep_defs = tcp_setkeepalive_def busy_def find_pool_def pool_size_def items_inside_def pool_bytes_def key_space_def new_spool_def
  keep_conn_def claim_item_def store_conn_def label_conn_def tcp_finalize_def

lemma demo_st1: "run_op demo_rt uint id demo_connect init_pools = Some demo_st1"
  unfolding demo_st1_def by (simp add: demo_defs connect_defs int32_def)

lemma demo_run1: "pool_run demo_rt uint id demo_st1"
  by (rule pool_run.step [OF pool_run.start _ demo_st1]) (simp add: demo_defs fresh_ok_def)

lemma demo_st2: "run_op demo_rt uint id (OSetKeepalive demo_env 0 []) demo_st1 = Some demo_st2"
  unfolding demo_st2_def demo_st1_def by (simp add: demo_defs connect_defs keep_defs int32_def)

lemma demo_allowed: "allowed demo_rt uint id (OSetKeepalive demo_env 0 []) demo_st1"
  unfolding demo_st1_def by (simp add: demo_defs connect_defs size_fits_def keep_defs int32_def)

lemma demo_run2: "pool_run demo_rt uint id demo_st2"
  by (rule pool_run.step [OF demo_run1 demo_allowed demo_st2])

text \<open>C2: in every run, each operation that keeps to the rules is carried out: no pool, object or connection is used after it was freed,
  none is closed twice, and no item outside a pool is touched.\<close>

theorem keepalive_pool_safe:
  assumes "pool_run rt toint field st" "allowed rt toint field x st"
  shows "\<exists>st'. run_op rt toint field x st = Some st' \<and> pool_run rt toint field st'"
  using run_op_ok [OF pool_run_inv [OF assms(1)] assms(2)] pool_run.step [OF assms] by blast

theorem keepalive_pool_safe_witness:
  "\<exists>st'. run_op demo_rt uint id (OSetKeepalive demo_env 0 []) demo_st1 = Some st' \<and> pool_run demo_rt uint id st'"
  by (rule keepalive_pool_safe [OF demo_run1 demo_allowed])

text \<open>C20: in a run whose operations keep to the rules of \<open>allowed\<close>, an open connection is held by exactly one socket object or pool item, the one its data points to; a closed one by
  none. Among the rules: the timeout given to \<open>setkeepalive\<close> is a number (after \<open>setkeepalive(nil)\<close> the item of the pool and the data of the connection disagree), an object is not
  connected again after \<open>setkeepalive\<close> has found its connection in a dubious state, and pool names have no NUL byte.\<close>

theorem keepalive_one_holder:
  assumes "pool_run rt toint field st"
  shows "holders st c = set_option (conns st c)"
  by (rule holders_open [OF pool_run_inv [OF assms]])

theorem keepalive_one_holder_witness: "holders demo_st2 5 = {InPool 0 0} \<and> holders demo_st2 6 = {}"
proof -
  have "conns demo_st2 5 = Some (InPool 0 0)" "conns demo_st2 6 = None"
    unfolding demo_st2_def demo_st1_def by (simp_all add: demo_defs connect_defs keep_defs int32_def)
  then show ?thesis using keepalive_one_holder [OF demo_run2] by simp
qed

text \<open>The count of active connections of a pool is the number of connections that wait in it or were taken from it, the items are divided
  between its two queues, and a pool that is no longer in the registry has no connection.\<close>

theorem keepalive_count_exact:
  assumes "pool_run rt toint field st" "pmem st p = Some sp"
  shows "unat (active_connections sp) = card (members st p) \<and> length (cache sp) + length (free_items sp) = length (items sp) \<and>
    (registry st (pkey sp) = Some p \<or> members st p = {} \<and> cache sp = [])"
proof (intro conjI)
  note v = pinvD [OF pool_run_inv [OF assms(1)]]
  have "card (members st p) < 2 ^ LENGTH(64)" using card_members_bound [of st p] by simp
  then show "unat (active_connections sp) = card (members st p)"
    using count_okD(1) [OF v(6) assms(2)] by (simp add: unsigned_of_nat take_bit_nat_eq_self)
  note w = wf_okD [OF v(2) assms(2)]
  show "length (cache sp) + length (free_items sp) = length (items sp)"
    using distinct_card [OF w(1)] unfolding w(2) by simp
  show "registry st (pkey sp) = Some p \<or> members st p = {} \<and> cache sp = []"
  proof (cases "registered st p")
    case True
    then show ?thesis using reg_okD(4) [OF v(1) _ assms(2)] by (auto simp: registered_def)
  next
    case False
    then show ?thesis using pinv_unpool [OF pool_run_inv [OF assms(1)] assms(2) _ refl] count_okD(2) [OF v(6) assms(2)] by simp
  qed
qed

text \<open>C21: a connection given back with \<open>setkeepalive\<close> under a host and port is what the next \<open>connect\<close> of a new object to that host and
  port returns, with its idle timer stopped and its number of uses increased by one.\<close>

theorem keepalive_roundtrip:
  assumes "pool_run rt toint field st" "allowed rt toint field (OSetKeepalive env ob args) st"
    "usocks st ob = Some u" "peer_conn u = Some c" "skeys st ob = Some (host @ '':'' @ rt_tostring rt port)"
    "tcp_setkeepalive rt toint env ob args st = Some (LRet [LNumber x], st1)"
    "usocks st ob2 = None" "e_session env2 = Some s2" "cleanup_ok env2" "0 \<le> int32 (toint port)" "int32 (toint port) \<le> 65536"
  shows "\<exists>st2. tcp_connect rt toint field env2 ob2 fresh [LString host, LNumber port] st1 = Some (CallRet [LNumber (num_of_int 1)], st2) \<and>
    conns st2 c = Some (InUse ob2) \<and> ka_timer st2 c = None \<and>
    tcp_getreusedtimes ob2 st2 = LRet [LNumber (num_of_int (int (reused u) + 1))]"
proof -
  let ?key = "host @ '':'' @ rt_tostring rt port"
  note v = pool_run_inv [OF assms(1)]
  have k: "CHR 0x00 \<notin> set ?key" "size_fits rt toint env args ?key" "args = [] \<or> check_number rt (args ! 0) \<noteq> None"
    using assms(2,5) by auto
  obtain p sp i "is" where st1: "registry st1 ?key = Some p" "pmem st1 p = Some sp" "cache sp = i # is"
      "items sp ! i = \<lparr>item_conn = c, item_sockaddr = peer_sockaddr u, item_reused = reused u\<rparr>" "conns st1 c = Some (InPool p i)"
    using setkeepalive_stored [OF v assms(5) k(1,2) assms(3,4,6)] by blast
  have one: "pinv None {} st1" "only_sock ob st st1" using setkeepalive_ok [OF v _ k(3), of ob toint env] k(1,2) assms(5,6) by auto
  have "i < length (items sp)" using wf_okD(4) [OF pinvD(2) [OF one(1)] st1(2), of i] st1(3) by simp
  moreover have "usocks st1 ob2 = None" using one(2) assms(3,7) by (cases "ob2 = ob") (auto simp: only_sock_def)
  ultimately have "\<exists>st'. connect_again env2 s2 ob2 ?key fresh (st1\<lparr>skeys := (skeys st1)(ob2 \<mapsto> ?key)\<rparr>) = Some (CallRet [LNumber (num_of_int 1)], st') \<and>
      conns st' c = Some (InUse ob2) \<and> ka_timer st' c = None \<and>
      (\<exists>u'. usocks st' ob2 = Some u' \<and> peer_conn u' = Some c \<and> reused u' = reused u + 1 \<and> \<not> u_read_closed u' \<and> \<not> u_write_closed u')"
    using st1 assms(9) by (intro connect_takes [of _ _ p sp i "is"]) simp_all
  then show ?thesis using assms(8,10,11) by (auto simp: tcp_connect_def pool_option_def tcp_getreusedtimes_def Let_def add.commute)
qed

theorem keepalive_roundtrip_witness:
  "\<exists>st2. tcp_connect demo_rt uint id demo_env 1 Resolving [LString ''h'', LNumber 80] demo_st2 = Some (CallRet [LNumber (num_of_int 1)], st2) \<and>
    conns st2 5 = Some (InUse 1) \<and> ka_timer st2 5 = None \<and> tcp_getreusedtimes 1 st2 = LRet [LNumber (num_of_int 1)]"
proof -
  obtain u where u: "usocks demo_st1 0 = Some u" "peer_conn u = Some 5" "reused u = 0"
    unfolding demo_st1_def by (simp add: demo_defs connect_defs int32_def)
  have "skeys demo_st1 0 = Some (''h'' @ '':'' @ rt_tostring demo_rt 80)" "usocks demo_st1 1 = None"
    unfolding demo_st1_def by (simp_all add: demo_defs connect_defs int32_def)
  moreover have "tcp_setkeepalive demo_rt uint demo_env 0 [] demo_st1 = Some (LRet [LNumber (num_of_int 1)], demo_st2)"
    unfolding demo_st2_def demo_st1_def by (simp add: demo_defs connect_defs keep_defs int32_def)
  moreover have "e_session demo_env = Some 1" "cleanup_ok demo_env" by (simp_all add: demo_env_def)
  moreover have "0 \<le> int32 (uint (80 :: lua_number))" "int32 (uint (80 :: lua_number)) \<le> 65536" by (simp_all add: int32_def)
  ultimately show ?thesis
    using keepalive_roundtrip [OF demo_run1 demo_allowed u(1,2), where ?ob2.0 = 1 and ?env2.0 = demo_env and host = "''h''" and port = 80 and fresh = Resolving]
    by (simp add: u(3))
qed

text \<open>A connection found in a dubious state by \<open>setkeepalive\<close> leaves the cleanup handler of its upstream registered. When the object connects again, the
  upstream is zeroed and the handler is no longer known to it; once the object has been collected, the handler at the end of the session uses the
  freed upstream. Without the second \<open>connect\<close> the same steps are safe.\<close>

theorem dubious_reconnect_dangles:
  "run_ops demo_rt uint id [demo_connect, OSetKeepalive (demo_env\<lparr>rev_ready := True, conn_close := True\<rparr>) 0 [], demo_connect, ODestroy 0] init_pools \<noteq> None \<and>
   run_ops demo_rt uint id [demo_connect, OSetKeepalive (demo_env\<lparr>rev_ready := True, conn_close := True\<rparr>) 0 [], demo_connect, ODestroy 0, OCleanup 0] init_pools = None \<and>
   run_ops demo_rt uint id [demo_connect, OSetKeepalive (demo_env\<lparr>rev_ready := True, conn_close := True\<rparr>) 0 [], ODestroy 0, OCleanup 0] init_pools \<noteq> None"
  by (intro conjI) (simp_all add: demo_defs connect_defs keep_defs int32_def keepalive_close_handler_def close_connection_def dec_active_def
      free_pool_def upstream_destroy_def tcp_cleanup_def)

end
