(* ===== verification/Coroutine.thy ===== *)
theory Coroutine
  imports Prelude "HOL-Library.Monad_Syntax"
begin

section \<open>Coroutines and light threads (ngx\_stream\_lua\_coroutine.c, ngx\_stream\_lua\_uthread.c, ngx\_stream\_lua\_util.c)\<close>

text \<open>
  The scheduler of a session: the Lua API for coroutines and light threads, the loop of
  \<open>ngx_stream_lua_run_thread\<close> that resumes them, the queue of posted threads, and the release of threads when a session ends. A context
  is named by the number of its creation, the entry thread is 0.
\<close>

subsection \<open>Lua programs\<close>

text \<open>
  What a coroutine does is up to its Lua program. A program is a tree: it finishes with values, raises an error, or calls a
  function of the API and goes on with what the call returns or with the error it raised. \<open>Block\<close> stands for the functions that wait for
  an event: sleep, sockets, semaphores.
\<close>

datatype lval = LV lua_value | LThread nat

datatype 'p api =
    Create "lval list \<Rightarrow> 'p"
  | Resume nat "lval list"
  | Yield "lval list"
  | Status nat
  | Spawn "lval list \<Rightarrow> 'p" "lval list"
  | Wait "nat list"
  | Kill nat
  | Exit int
  | Block

codatatype prog =
    Finish "lval list"
  | Raise lval
  | Call "prog api" "string + lval list \<Rightarrow> prog"

subsection \<open>State\<close>

datatype co_status = CO_RUNNING | CO_SUSPENDED | CO_NORMAL | CO_DEAD | CO_ZOMBIE

datatype coro_op = OP_NOP | OP_CORO_RESUME | OP_CORO_YIELD | OP_THREAD_RESUME

text \<open>
  The context of a coroutine with its Lua thread: the values on its stack, the rest of its program, and the API function in which
  it yielded. \<open>co_ref\<close> tells whether the thread is anchored in the registry, \<open>cleanup\<close> whether an operation is pending.
\<close>

record co_ctx =
  co_status :: co_status
  parent_co_ctx :: "nat option"
  zombie_child_threads :: "nat list"
  cleanup :: bool
  co_ref :: bool
  waited_by_parent :: bool
  is_uthread :: bool
  thread_spawn_yielded :: bool
  co_stack :: "lval list"
  co_cont :: "(lval list \<Rightarrow> prog) option"
  co_at :: "prog api option"

text \<open>
  The state of a session. \<open>reused_co\<close> is what the garbage collector and the allocator have in store for the next \<open>lua_newthread\<close>: the address of a coroutine that was
  collected, given as the context that still has this address, or one that no context has.
\<close>

record sched =
  coctx :: "nat \<Rightarrow> co_ctx"
  next_co :: nat
  reused_co :: "nat option"
  cur_co_ctx :: "nat option"
  co_op :: coro_op
  posted_threads :: "nat list"
  uthreads :: int
  exited :: bool
  exit_code :: int

text \<open>
  Where the program is: about to resume the current coroutine with the top values of its stack, in the Lua code of a coroutine, in the loop of
  \<open>run_posted_threads\<close>, waiting for events, or done with a return code.
\<close>

datatype mode = MResume nat | MLua nat prog | MPosted | MIdle | MOver int

definition upd :: "nat \<Rightarrow> (co_ctx \<Rightarrow> co_ctx) \<Rightarrow> sched \<Rightarrow> sched" where
  "upd c f s = s\<lparr>coctx := (coctx s)(c := f (coctx s c))\<rparr>"

definition co_alive :: "co_ctx \<Rightarrow> bool" where
  "co_alive x \<longleftrightarrow> co_status x \<noteq> CO_DEAD \<and> co_status x \<noteq> CO_ZOMBIE"

definition co_status_name :: "co_status \<Rightarrow> string" where
  "co_status_name t = (case t of CO_RUNNING \<Rightarrow> ''running'' | CO_SUSPENDED \<Rightarrow> ''suspended'' | CO_NORMAL \<Rightarrow> ''normal''
     | CO_DEAD \<Rightarrow> ''dead'' | CO_ZOMBIE \<Rightarrow> ''zombie'')"

subsection \<open>Threads and queues\<close>

definition fresh_co :: "(lval list \<Rightarrow> prog) \<Rightarrow> co_ctx" where
  "fresh_co f = \<lparr>co_status = CO_SUSPENDED, parent_co_ctx = None, zombie_child_threads = [], cleanup = False, co_ref = False,
     waited_by_parent = False, is_uthread = False, thread_spawn_yielded = False, co_stack = [], co_cont = Some f, co_at = None\<rparr>"

text \<open>
  A context that has the address of the new coroutine is zeroed and used again, whatever still points to it; otherwise a new one is allocated.
\<close>

definition create_helper :: "(nat \<Rightarrow> bool) \<Rightarrow> (lval list \<Rightarrow> prog) \<Rightarrow> sched \<Rightarrow> (nat \<times> sched) option" where
  "create_helper mem f s =
     (case reused_co s of
        Some c \<Rightarrow> Some (c, s\<lparr>coctx := (coctx s)(c := fresh_co f), reused_co := None\<rparr>)
      | None \<Rightarrow>
          (if \<not> mem 0 then None
           else Some (next_co s, s\<lparr>coctx := (coctx s)(next_co s := fresh_co f), next_co := next_co s + 1\<rparr>)))"

definition get_co_ctx :: "nat \<Rightarrow> sched \<Rightarrow> co_ctx option" where
  "get_co_ctx c s = (if c < next_co s then Some (coctx s c) else None)"

definition del_thread :: "nat \<Rightarrow> sched \<Rightarrow> sched" where
  "del_thread c = upd c (\<lambda>x. if co_ref x then x\<lparr>co_ref := False, co_status := CO_DEAD\<rparr> else x)"

definition cleanup_pending :: "nat \<Rightarrow> sched \<Rightarrow> sched" where
  "cleanup_pending c = upd c (\<lambda>x. x\<lparr>cleanup := False\<rparr>)"

definition post_thread :: "nat \<Rightarrow> sched \<Rightarrow> sched" where
  "post_thread c s = s\<lparr>posted_threads := posted_threads s @ [c]\<rparr>"

definition drop_thread :: "nat \<Rightarrow> sched \<Rightarrow> sched" where
  "drop_thread c s = (del_thread c s)\<lparr>uthreads := uthreads s - 1\<rparr>"

fun cleanup_zombies :: "nat list \<Rightarrow> sched \<Rightarrow> sched" where
  "cleanup_zombies [] s = s"
| "cleanup_zombies (y # ys) s = cleanup_zombies ys (if co_ref (coctx s y) then drop_thread y s else s)"

definition cleanup_zombie_child_uthreads :: "nat \<Rightarrow> sched \<Rightarrow> sched" where
  "cleanup_zombie_child_uthreads c s = upd c (\<lambda>x. x\<lparr>zombie_child_threads := []\<rparr>) (cleanup_zombies (zombie_child_threads (coctx s c)) s)"

text \<open>Finalization of the threads of a session, in the order of their contexts, the entry thread last.\<close>

fun finalize_users :: "nat list \<Rightarrow> sched \<Rightarrow> sched" where
  "finalize_users [] s = s"
| "finalize_users (y # ys) s = finalize_users ys (if co_ref (coctx s y) then drop_thread y (cleanup_pending y s) else s)"

definition finalize_threads :: "sched \<Rightarrow> sched" where
  "finalize_threads s =
     (let s = finalize_users [1..<next_co s] s
      in if co_ref (coctx s 0) then del_thread 0 (cleanup_pending 0 s) else s)"

subsection \<open>The API\<close>

text \<open>An API function raises an error, returns values, or yields with values on the stack. \<open>mem\<close> tells which allocations
  of the call succeed.\<close>

datatype api_out = AErr string | ARet "lval list" | AYield "lval list"

abbreviation lbool :: "bool \<Rightarrow> lval" where
  "lbool b \<equiv> LV (LBool b)"

abbreviation lstr :: "string \<Rightarrow> lval" where
  "lstr e \<equiv> LV (LString e)"

abbreviation lnil :: lval where
  "lnil \<equiv> LV LNil"

definition co_create :: "(nat \<Rightarrow> bool) \<Rightarrow> (lval list \<Rightarrow> prog) \<Rightarrow> sched \<Rightarrow> api_out \<times> sched" where
  "co_create mem f s = (case create_helper mem f s of None \<Rightarrow> (AErr ''no memory'', s) | Some (c, s) \<Rightarrow> (ARet [LThread c], s))"

definition co_resume :: "nat \<Rightarrow> lval list \<Rightarrow> sched \<Rightarrow> api_out \<times> sched" where
  "co_resume y args s =
     (case cur_co_ctx s of
        None \<Rightarrow> (AErr ''no parent co ctx found'', s)
      | Some p \<Rightarrow>
     (case get_co_ctx y s of
        None \<Rightarrow> (AErr ''no co ctx found'', s)
      | Some x \<Rightarrow>
          (if co_status x \<noteq> CO_SUSPENDED then
             (ARet [lbool False, lstr (''cannot resume '' @ co_status_name (co_status x) @ '' coroutine'')], s)
           else
             (AYield args,
              (upd y (\<lambda>x. x\<lparr>parent_co_ctx := Some p, co_status := CO_RUNNING\<rparr>) (upd p (\<lambda>x. x\<lparr>co_status := CO_NORMAL\<rparr>) s))
                \<lparr>co_op := OP_CORO_RESUME, cur_co_ctx := Some y\<rparr>))))"

definition co_yield :: "lval list \<Rightarrow> sched \<Rightarrow> (api_out \<times> sched) option" where
  "co_yield args s = do {
     c \<leftarrow> cur_co_ctx s;
     let s = (upd c (\<lambda>x. x\<lparr>co_status := CO_SUSPENDED\<rparr>) s)\<lparr>co_op := OP_CORO_YIELD\<rparr>;
     let x = coctx s c;
     Some (AYield args,
       (case parent_co_ctx x of
          Some p \<Rightarrow> (if \<not> is_uthread x then upd p (\<lambda>x. x\<lparr>co_status := CO_RUNNING\<rparr>) s else s)
        | None \<Rightarrow> s))
   }"

definition co_get_status :: "nat \<Rightarrow> sched \<Rightarrow> api_out" where
  "co_get_status y s = ARet [lstr (co_status_name (case get_co_ctx y s of None \<Rightarrow> CO_DEAD | Some x \<Rightarrow> co_status x))]"

definition uthread_spawn :: "(nat \<Rightarrow> bool) \<Rightarrow> (lval list \<Rightarrow> prog) \<Rightarrow> lval list \<Rightarrow> sched \<Rightarrow> (api_out \<times> sched) option" where
  "uthread_spawn mem f args s =
     (case create_helper mem f s of
        None \<Rightarrow> Some (AErr ''no memory'', s)
      | Some (y, s) \<Rightarrow> do {
        c \<leftarrow> cur_co_ctx s;
        let s = upd y (\<lambda>x. x\<lparr>co_ref := True, co_stack := args, is_uthread := True, co_status := CO_RUNNING\<rparr>) s;
        let s = upd c (\<lambda>x. x\<lparr>thread_spawn_yielded := True\<rparr>) (s\<lparr>uthreads := uthreads s + 1, co_op := OP_THREAD_RESUME\<rparr>);
        Some (if \<not> mem 1 then (AErr ''no memory'', s)
              else (AYield [LThread y], (upd y (\<lambda>x. x\<lparr>parent_co_ctx := Some c\<rparr>) (post_thread c s))\<lparr>cur_co_ctx := Some y\<rparr>))
      })"

fun wait_loop :: "nat \<Rightarrow> nat list \<Rightarrow> sched \<Rightarrow> api_out \<times> sched" where
  "wait_loop c [] s = (AYield [], s)"
| "wait_loop c (y # ys) s =
     (case get_co_ctx y s of
        None \<Rightarrow> (AErr ''no co ctx found'', s)
      | Some x \<Rightarrow>
          (if \<not> is_uthread x then (AErr ''attempt to wait on a coroutine that is not a user thread'', s)
           else if parent_co_ctx x \<noteq> Some c then (AErr ''only the parent coroutine can wait on the thread'', s)
           else if co_status x = CO_ZOMBIE then (ARet (co_stack x), drop_thread y (upd y (\<lambda>x. x\<lparr>co_stack := []\<rparr>) s))
           else if co_status x = CO_DEAD then
             (if ys \<noteq> [] then wait_loop c ys s else (ARet [lnil, lstr ''already waited or killed''], s))
           else wait_loop c ys (upd y (\<lambda>x. x\<lparr>waited_by_parent := True\<rparr>) s)))"

definition uthread_wait :: "nat list \<Rightarrow> sched \<Rightarrow> (api_out \<times> sched) option" where
  "uthread_wait ys s = do { c \<leftarrow> cur_co_ctx s; Some (wait_loop c ys s) }"

definition uthread_kill :: "nat \<Rightarrow> sched \<Rightarrow> (api_out \<times> sched) option" where
  "uthread_kill y s = do {
     c \<leftarrow> cur_co_ctx s;
     Some (case get_co_ctx y s of
       None \<Rightarrow> (AErr ''no co ctx found'', s)
     | Some x \<Rightarrow>
         (if \<not> is_uthread x then (ARet [lnil, lstr ''not user thread''], s)
          else if parent_co_ctx x \<noteq> Some c then (ARet [lnil, lstr ''killer not parent''], s)
          else if co_status x = CO_ZOMBIE then (ARet [lnil, lstr ''already terminated''], drop_thread y s)
          else if co_status x = CO_DEAD then (ARet [lnil, lstr ''already waited or killed''], s)
          else (ARet [LV (LNumber (num_of_int 1))], drop_thread y (cleanup_pending y s))))
   }"

definition session_exit :: "int \<Rightarrow> sched \<Rightarrow> api_out \<times> sched" where
  "session_exit rc s = (AYield [], s\<lparr>exit_code := rc, exited := True\<rparr>)"

text \<open>A function that waits for an event drops what is pending, registers its cleanup handler and yields.\<close>

definition block :: "sched \<Rightarrow> api_out \<times> sched" where
  "block s =
     (case cur_co_ctx s of
        None \<Rightarrow> (AErr ''no co ctx found'', s)
      | Some c \<Rightarrow> (AYield [], upd c (\<lambda>x. x\<lparr>cleanup := True\<rparr>) (cleanup_pending c s)))"

definition api_call :: "(nat \<Rightarrow> bool) \<Rightarrow> prog api \<Rightarrow> sched \<Rightarrow> (api_out \<times> sched) option" where
  "api_call mem a s =
     (case a of
        Create f \<Rightarrow> Some (co_create mem f s)
      | Resume y args \<Rightarrow> Some (co_resume y args s)
      | Yield args \<Rightarrow> co_yield args s
      | Status y \<Rightarrow> Some (co_get_status y s, s)
      | Spawn f args \<Rightarrow> uthread_spawn mem f args s
      | Wait ys \<Rightarrow> uthread_wait ys s
      | Kill y \<Rightarrow> uthread_kill y s
      | Exit rc \<Rightarrow> Some (session_exit rc s)
      | Block \<Rightarrow> Some (block s))"

subsection \<open>The loop of run\_thread\<close>

definition NGX_OK_rc :: int where
  "NGX_OK_rc = 0"

definition NGX_ERROR_rc :: int where
  "NGX_ERROR_rc = - 1"

definition is_thread :: "nat \<Rightarrow> sched \<Rightarrow> bool" where
  "is_thread c s \<longleftrightarrow> is_uthread (coctx s c) \<or> c = 0"

definition push :: "nat \<Rightarrow> lval list \<Rightarrow> sched \<Rightarrow> sched" where
  "push c vs = upd c (\<lambda>x. x\<lparr>co_stack := co_stack x @ vs\<rparr>)"

definition clear_stack :: "nat \<Rightarrow> sched \<Rightarrow> sched" where
  "clear_stack c = upd c (\<lambda>x. x\<lparr>co_stack := []\<rparr>)"

definition set_status :: "nat \<Rightarrow> co_status \<Rightarrow> sched \<Rightarrow> sched" where
  "set_status c t = upd c (\<lambda>x. x\<lparr>co_status := t\<rparr>)"

text \<open>\<open>return NGX_AGAIN\<close>: the caller goes on with the posted threads.\<close>

definition again :: "sched \<Rightarrow> mode \<times> sched" where
  "again s = (MPosted, s\<lparr>cur_co_ctx := None\<rparr>)"

definition handle_exit :: "sched \<Rightarrow> (mode \<times> sched) option" where
  "handle_exit s = do {
     c \<leftarrow> cur_co_ctx s;
     Some (MOver (exit_code s), finalize_threads (set_status c CO_DEAD (cleanup_pending c s)))
   }"

definition no_parent :: "nat \<Rightarrow> sched \<Rightarrow> mode \<times> sched" where
  "no_parent c s = (MOver NGX_ERROR_rc, finalize_threads (set_status c CO_DEAD s))"

text \<open>The number of values on the stack of a coroutine, with the function that has not been called yet.\<close>

definition co_gettop :: "co_ctx \<Rightarrow> nat" where
  "co_gettop x = length (co_stack x) + (if co_at x = None then 1 else 0)"

text \<open>\<open>LUA_YIELD\<close>: what was asked for by the function that yielded. The new thread is resumed with all its values but the function; a count below zero is \<open>None\<close>.\<close>

definition after_yield :: "(nat \<Rightarrow> bool) \<Rightarrow> sched \<Rightarrow> (mode \<times> sched) option" where
  "after_yield mem s =
     (if exited s then handle_exit s
      else case co_op s of
        OP_NOP \<Rightarrow> Some (again s)
      | OP_THREAD_RESUME \<Rightarrow> do {
          c \<leftarrow> cur_co_ctx s;
          if co_gettop (coctx s c) = 0 then None else Some (MResume (co_gettop (coctx s c) - 1), s\<lparr>co_op := OP_NOP\<rparr>)
        }
      | OP_CORO_RESUME \<Rightarrow> do {
          c \<leftarrow> cur_co_ctx s;
          p \<leftarrow> parent_co_ctx (coctx s c);
          let vs = co_stack (coctx s p);
          Some (MResume (length vs), clear_stack p (push c vs (s\<lparr>co_op := OP_NOP\<rparr>)))
        }
      | OP_CORO_YIELD \<Rightarrow> do {
          c \<leftarrow> cur_co_ctx s;
          let s = s\<lparr>co_op := OP_NOP\<rparr>;
          if is_thread c s then
            (let s = set_status c CO_RUNNING (clear_stack c s)
             in Some (if posted_threads s \<noteq> [] then again (if mem 1 then post_thread c s else s) else (MResume 0, s)))
          else do {
            p \<leftarrow> parent_co_ctx (coctx s c);
            let vs = co_stack (coctx s c);
            Some (MResume (length vs + 1), (clear_stack c (push p (lbool True # vs) s))\<lparr>cur_co_ctx := Some p\<rparr>)
          }
        })"

text \<open>A coroutine hands its values to its parent, with a flag in front.\<close>

definition user_co_done :: "nat \<Rightarrow> bool \<Rightarrow> sched \<Rightarrow> mode \<times> sched" where
  "user_co_done c ok s =
     (let vs = co_stack (coctx s c)
      in case parent_co_ctx (coctx s c) of
           None \<Rightarrow> no_parent c s
         | Some p \<Rightarrow>
             (let s = clear_stack c (push p (lbool ok # vs) s);
                  s = (if is_uthread (coctx s c) then drop_thread c s else s)
              in (MResume (length vs + 1), set_status p CO_RUNNING (s\<lparr>cur_co_ctx := Some p\<rparr>))))"

text \<open>The end of a light thread whose parent is gone; the end of one whose parent is alive.\<close>

definition thread_gone :: "nat \<Rightarrow> sched \<Rightarrow> mode \<times> sched" where
  "thread_gone c s =
     (let s = drop_thread c s
      in if uthreads s = 0 then (if co_ref (coctx s 0) then again s else (MOver NGX_OK_rc, s)) else again s)"

definition uthread_end :: "(nat \<Rightarrow> bool) \<Rightarrow> nat \<Rightarrow> bool \<Rightarrow> sched \<Rightarrow> (mode \<times> sched) option" where
  "uthread_end mem c ok s = do {
     p \<leftarrow> parent_co_ctx (coctx s c);
     Some (if co_alive (coctx s p) then
             (if waited_by_parent (coctx s c) then user_co_done c ok (upd c (\<lambda>x. x\<lparr>waited_by_parent := False\<rparr>) s)
              else if \<not> mem 2 then (MOver NGX_ERROR_rc, s)
              else again (upd c (\<lambda>x. x\<lparr>co_stack := lbool ok # co_stack x, co_status := CO_ZOMBIE\<rparr>)
                     (upd p (\<lambda>x. x\<lparr>zombie_child_threads := zombie_child_threads x @ [c]\<rparr>) s)))
           else thread_gone c s)
   }"

text \<open>\<open>lua_resume\<close> returned 0.\<close>

definition after_finish :: "(nat \<Rightarrow> bool) \<Rightarrow> sched \<Rightarrow> (mode \<times> sched) option" where
  "after_finish mem s = do {
     c \<leftarrow> cur_co_ctx s;
     let s = cleanup_zombie_child_uthreads c (set_status c CO_DEAD (cleanup_pending c s));
     if c = 0 then (let s = del_thread 0 s in Some (if uthreads s \<noteq> 0 then again s else (MOver NGX_OK_rc, s)))
     else if is_uthread (coctx s c) then uthread_end mem c True s
     else Some (user_co_done c True s)
   }"

text \<open>\<open>lua_resume\<close> returned an error; the error value is on the stack.\<close>

definition after_error :: "(nat \<Rightarrow> bool) \<Rightarrow> nat \<Rightarrow> sched \<Rightarrow> (mode \<times> sched) option" where
  "after_error mem c s =
     (let s = set_status c CO_DEAD (cleanup_pending c (s\<lparr>cur_co_ctx := Some c\<rparr>))
      in if is_uthread (coctx s c) then uthread_end mem c False s
         else if c = 0 then Some (MOver NGX_ERROR_rc, finalize_threads s)
         else case parent_co_ctx (coctx s c) of
                None \<Rightarrow> Some (no_parent c s)
              | Some p \<Rightarrow>
                  Some (MResume 2, (clear_stack c (push p [lbool False, last (co_stack (coctx s c))] (set_status p CO_RUNNING s)))\<lparr>cur_co_ctx := Some p\<rparr>))"

text \<open>
  One round of the virtual machine: \<open>lua_resume\<close> passes the top values of the stack to the function that yielded; the program runs up to its
  next call of the API.
\<close>

definition lua_resume :: "nat \<Rightarrow> sched \<Rightarrow> (mode \<times> sched) option" where
  "lua_resume nrets s = do {
     c \<leftarrow> cur_co_ctx s;
     let x = coctx s c;
     if nrets > length (co_stack x) then None
     else Some (case co_cont x of
       None \<Rightarrow> (MLua c (Raise (lstr ''cannot resume dead coroutine'')), s)
     | Some k \<Rightarrow> (MLua c (k (drop (length (co_stack x) - nrets) (co_stack x))), upd c (\<lambda>x. x\<lparr>co_stack := [], co_cont := None, co_at := None\<rparr>) s))
   }"

definition lua_step :: "(nat \<Rightarrow> bool) \<Rightarrow> nat \<Rightarrow> prog \<Rightarrow> sched \<Rightarrow> (mode \<times> sched) option" where
  "lua_step mem c p s =
     (case p of
        Finish vs \<Rightarrow> after_finish mem (upd c (\<lambda>x. x\<lparr>co_stack := vs\<rparr>) s)
      | Raise v \<Rightarrow> after_error mem c (upd c (\<lambda>x. x\<lparr>co_stack := [v]\<rparr>) s)
      | Call a k \<Rightarrow> do {
          (r, s) \<leftarrow> api_call mem a s;
          case r of
            AErr e \<Rightarrow> Some (MLua c (k (Inl e)), s)
          | ARet vs \<Rightarrow> Some (MLua c (k (Inr vs)), s)
          | AYield vs \<Rightarrow> after_yield mem (upd c (\<lambda>x. x\<lparr>co_stack := vs, co_cont := Some (\<lambda>ws. k (Inr ws)), co_at := Some a\<rparr>) s)
        })"

text \<open>The start of \<open>run_thread\<close>, and the loop over the posted threads.\<close>

definition start_thread :: "nat \<Rightarrow> sched \<Rightarrow> (mode \<times> sched) option" where
  "start_thread nrets s = do {
     c \<leftarrow> cur_co_ctx s;
     Some (if thread_spawn_yielded (coctx s c) then (MResume 1, upd c (\<lambda>x. x\<lparr>thread_spawn_yielded := False\<rparr>) s) else (MResume nrets, s))
   }"

definition run_posted_threads :: "sched \<Rightarrow> (mode \<times> sched) option" where
  "run_posted_threads s =
     (case posted_threads s of
        [] \<Rightarrow> Some (MIdle, s)
      | c # cs \<Rightarrow>
          (let s = s\<lparr>posted_threads := cs\<rparr>
           in if co_status (coctx s c) \<noteq> CO_RUNNING then Some (MPosted, s) else start_thread 0 (s\<lparr>cur_co_ctx := Some c\<rparr>)))"

definition tick :: "(nat \<Rightarrow> bool) \<Rightarrow> mode \<times> sched \<Rightarrow> (mode \<times> sched) option" where
  "tick mem st =
     (case st of
        (MResume n, s) \<Rightarrow> lua_resume n s
      | (MLua c p, s) \<Rightarrow> lua_step mem c p s
      | (MPosted, s) \<Rightarrow> run_posted_threads s
      | (MIdle, s) \<Rightarrow> Some (MIdle, s)
      | (MOver rc, s) \<Rightarrow> Some (MOver rc, s))"

text \<open>The event a coroutine waits for: its handler pushes the results and runs the thread.\<close>

definition wake :: "nat \<Rightarrow> lval list \<Rightarrow> sched \<Rightarrow> (mode \<times> sched) option" where
  "wake c vs s = start_thread (length vs) ((push c vs (upd c (\<lambda>x. x\<lparr>cleanup := False\<rparr>) s))\<lparr>cur_co_ctx := Some c\<rparr>)"

text \<open>A session starts with its entry thread.\<close>

definition start_session :: "prog \<Rightarrow> mode \<times> sched" where
  "start_session p = (MResume 0,
     \<lparr>coctx = (\<lambda>_. (fresh_co (\<lambda>_. p))\<lparr>co_status := CO_RUNNING\<rparr>)(0 := (fresh_co (\<lambda>_. p))\<lparr>co_status := CO_RUNNING, co_ref := True\<rparr>), next_co = 1, reused_co = None, cur_co_ctx = Some 0, co_op = OP_NOP,
       posted_threads = [], uthreads = 0, exited = False, exit_code = 0\<rparr>)"

end
