(* ===== verification/Coroutine_Inv.thy ===== *)
theory Coroutine_Inv
  imports Coroutine
begin

section \<open>The invariant of the scheduler\<close>

text \<open>
  At most one coroutine executes (\<open>e\<close>). Every other live coroutine is in an API function that fits its status: in \<open>resume\<close>
  of a coroutine that is active and has it as parent, in \<open>yield\<close>, in \<open>spawn\<close> with a posted thread, in \<open>wait\<close>, or in a
  function that waits for an event. The count of light threads is the number of anchored ones.
\<close>

abbreviation "stat s c \<equiv> co_status (coctx s c)"

abbreviation "parent s c \<equiv> parent_co_ctx (coctx s c)"

abbreviation "alive s c \<equiv> co_alive (coctx s c)"

abbreviation "at s c \<equiv> co_at (coctx s c)"

definition active :: "co_status \<Rightarrow> bool" where
  "active t \<longleftrightarrow> t = CO_RUNNING \<or> t = CO_NORMAL"

definition kinds_ok :: "sched \<Rightarrow> bool" where
  "kinds_ok s \<longleftrightarrow> 0 < next_co s \<and> \<not> is_uthread (coctx s 0) \<and> parent s 0 = None \<and>
     (\<forall>c<next_co s.
        (is_uthread (coctx s c) \<longrightarrow> (\<exists>p. p \<noteq> c \<and> parent s c = Some p)) \<and>
        (stat s c = CO_ZOMBIE \<longrightarrow> is_uthread (coctx s c)) \<and>
        (co_ref (coctx s c) \<longleftrightarrow> is_thread c s \<and> stat s c \<noteq> CO_DEAD) \<and>
        (\<forall>p. parent s c = Some p \<longrightarrow> p < next_co s) \<and>
        (\<forall>y\<in>set (zombie_child_threads (coctx s c)). y < next_co s \<and> is_uthread (coctx s y) \<and> \<not> alive s y))"

definition frame_ok :: "sched \<Rightarrow> nat \<Rightarrow> bool" where
  "frame_ok s c \<longleftrightarrow>
     (case at s c of
        None \<Rightarrow> stat s c = CO_SUSPENDED \<and> \<not> is_thread c s
      | Some (Resume y a) \<Rightarrow> stat s c = CO_NORMAL \<and> y < next_co s \<and> parent s y = Some c \<and> \<not> is_thread y s \<and> active (stat s y)
      | Some (Yield a) \<Rightarrow> (if is_thread c s then stat s c = CO_RUNNING \<and> c \<in> set (posted_threads s) else stat s c = CO_SUSPENDED)
      | Some (Spawn f a) \<Rightarrow> stat s c = CO_RUNNING \<and> c \<in> set (posted_threads s) \<and> co_stack (coctx s c) \<noteq> []
      | Some (Wait ys) \<Rightarrow> stat s c = CO_RUNNING \<and> length ys \<le> 1
      | Some Block \<Rightarrow> stat s c = CO_RUNNING \<and> cleanup (coctx s c)
      | _ \<Rightarrow> False)"

definition frames_ok :: "nat option \<Rightarrow> sched \<Rightarrow> bool" where
  "frames_ok e s \<longleftrightarrow> (\<forall>c<next_co s. alive s c \<longrightarrow> Some c \<noteq> e \<longrightarrow> frame_ok s c \<and> co_cont (coctx s c) \<noteq> None \<and>
     (thread_spawn_yielded (coctx s c) \<longleftrightarrow> (\<exists>f a. at s c = Some (Spawn f a))))"

definition nest_ok :: "nat option \<Rightarrow> sched \<Rightarrow> bool" where
  "nest_ok e s \<longleftrightarrow> (\<forall>c<next_co s. \<not> is_thread c s \<longrightarrow> active (stat s c) \<longrightarrow>
     (\<exists>p a. parent s c = Some p \<and> Some p \<noteq> e \<and> alive s p \<and> at s p = Some (Resume c a)))"

definition waits_ok :: "nat option \<Rightarrow> sched \<Rightarrow> bool" where
  "waits_ok e s \<longleftrightarrow> (\<forall>c<next_co s. waited_by_parent (coctx s c) \<longrightarrow> is_uthread (coctx s c)) \<and> (\<forall>c<next_co s. \<forall>p. waited_by_parent (coctx s c) \<longrightarrow> alive s c \<longrightarrow> parent s c = Some p \<longrightarrow> alive s p \<longrightarrow>
     Some p \<noteq> e \<and> at s p = Some (Wait [c]))"

definition pend_ok :: "nat option \<Rightarrow> sched \<Rightarrow> bool" where
  "pend_ok e s \<longleftrightarrow> (\<forall>c<next_co s. cleanup (coctx s c) \<longrightarrow> alive s c \<and> at s c = Some Block \<and> Some c \<noteq> e)"

definition posted_ok :: "nat option \<Rightarrow> sched \<Rightarrow> bool" where
  "posted_ok e s \<longleftrightarrow> distinct (posted_threads s) \<and>
     (\<forall>c\<in>set (posted_threads s). c < next_co s \<and> (alive s c \<longrightarrow> Some c \<noteq> e \<and>
        ((\<exists>f a. at s c = Some (Spawn f a)) \<or> is_thread c s \<and> (\<exists>a. at s c = Some (Yield a)))))"

definition exec_ok :: "nat option \<Rightarrow> sched \<Rightarrow> bool" where
  "exec_ok e s \<longleftrightarrow> (\<forall>c. e = Some c \<longrightarrow> c < next_co s \<and> stat s c = CO_RUNNING \<and> \<not> thread_spawn_yielded (coctx s c))"

definition anchored :: "sched \<Rightarrow> nat set" where
  "anchored s = {c. c < next_co s \<and> is_uthread (coctx s c) \<and> co_ref (coctx s c)}"

definition count_exact :: "sched \<Rightarrow> bool" where
  "count_exact s \<longleftrightarrow> uthreads s = int (card (anchored s))"

definition sinv :: "nat option \<Rightarrow> sched \<Rightarrow> bool" where
  "sinv e s \<longleftrightarrow> kinds_ok s \<and> frames_ok e s \<and> nest_ok e s \<and> waits_ok e s \<and> pend_ok e s \<and> posted_ok e s \<and> exec_ok e s \<and> count_exact s"

lemma sinvD:
  assumes "sinv e s"
  shows "kinds_ok s" "frames_ok e s" "nest_ok e s" "waits_ok e s" "pend_ok e s" "posted_ok e s" "exec_ok e s" "count_exact s"
  using assms by (simp_all add: sinv_def)

text \<open>The parts as rules.\<close>

lemma kinds_okI:
  assumes "0 < next_co s" "\<not> is_uthread (coctx s 0)" "parent s 0 = None"
    "\<And>c. c < next_co s \<Longrightarrow> is_uthread (coctx s c) \<Longrightarrow> \<exists>p. p \<noteq> c \<and> parent s c = Some p"
    "\<And>c. c < next_co s \<Longrightarrow> stat s c = CO_ZOMBIE \<Longrightarrow> is_uthread (coctx s c)"
    "\<And>c. c < next_co s \<Longrightarrow> co_ref (coctx s c) \<longleftrightarrow> is_thread c s \<and> stat s c \<noteq> CO_DEAD"
    "\<And>c p. c < next_co s \<Longrightarrow> parent s c = Some p \<Longrightarrow> p < next_co s"
    "\<And>c y. c < next_co s \<Longrightarrow> y \<in> set (zombie_child_threads (coctx s c)) \<Longrightarrow> y < next_co s \<and> is_uthread (coctx s y) \<and> \<not> alive s y"
  shows "kinds_ok s"
  unfolding kinds_ok_def
  by (intro conjI allI impI ballI assms(1-3)) (auto intro: assms(4,5,7) simp: assms(6) dest: assms(8))

lemma kinds_okD:
  assumes "kinds_ok s"
  shows "0 < next_co s" "\<not> is_uthread (coctx s 0)" "parent s 0 = None"
    "c < next_co s \<Longrightarrow> is_uthread (coctx s c) \<Longrightarrow> \<exists>p. p \<noteq> c \<and> parent s c = Some p"
    "c < next_co s \<Longrightarrow> stat s c = CO_ZOMBIE \<Longrightarrow> is_uthread (coctx s c)"
    "c < next_co s \<Longrightarrow> co_ref (coctx s c) \<longleftrightarrow> is_thread c s \<and> stat s c \<noteq> CO_DEAD"
    "c < next_co s \<Longrightarrow> parent s c = Some p \<Longrightarrow> p < next_co s"
    "c < next_co s \<Longrightarrow> y \<in> set (zombie_child_threads (coctx s c)) \<Longrightarrow> y < next_co s \<and> is_uthread (coctx s y) \<and> \<not> alive s y"
  using assms unfolding kinds_ok_def by blast+

lemma frames_okI:
  assumes "\<And>c. c < next_co s \<Longrightarrow> alive s c \<Longrightarrow> Some c \<noteq> e \<Longrightarrow> frame_ok s c"
    "\<And>c. c < next_co s \<Longrightarrow> alive s c \<Longrightarrow> Some c \<noteq> e \<Longrightarrow> co_cont (coctx s c) \<noteq> None"
    "\<And>c. c < next_co s \<Longrightarrow> alive s c \<Longrightarrow> Some c \<noteq> e \<Longrightarrow> thread_spawn_yielded (coctx s c) \<longleftrightarrow> (\<exists>f a. at s c = Some (Spawn f a))"
  shows "frames_ok e s"
  using assms unfolding frames_ok_def by blast

lemma frames_okD:
  assumes "frames_ok e s" "c < next_co s" "alive s c" "Some c \<noteq> e"
  shows "frame_ok s c" "co_cont (coctx s c) \<noteq> None" "thread_spawn_yielded (coctx s c) \<longleftrightarrow> (\<exists>f a. at s c = Some (Spawn f a))"
  using assms unfolding frames_ok_def by blast+

lemma nest_okI:
  assumes "\<And>c. c < next_co s \<Longrightarrow> \<not> is_thread c s \<Longrightarrow> active (stat s c) \<Longrightarrow>
     \<exists>p a. parent s c = Some p \<and> Some p \<noteq> e \<and> alive s p \<and> at s p = Some (Resume c a)"
  shows "nest_ok e s"
  using assms unfolding nest_ok_def by blast

lemma nest_okD:
  assumes "nest_ok e s" "c < next_co s" "\<not> is_thread c s" "active (stat s c)"
  shows "\<exists>p a. parent s c = Some p \<and> Some p \<noteq> e \<and> alive s p \<and> at s p = Some (Resume c a)"
  using assms unfolding nest_ok_def by blast

lemma waits_okI:
  assumes "\<And>c. c < next_co s \<Longrightarrow> waited_by_parent (coctx s c) \<Longrightarrow> is_uthread (coctx s c)"
    "\<And>c p. c < next_co s \<Longrightarrow> waited_by_parent (coctx s c) \<Longrightarrow> alive s c \<Longrightarrow> parent s c = Some p \<Longrightarrow> alive s p \<Longrightarrow>
     Some p \<noteq> e \<and> at s p = Some (Wait [c])"
  shows "waits_ok e s"
  using assms unfolding waits_ok_def by blast

lemma waits_okD:
  assumes "waits_ok e s" "c < next_co s" "waited_by_parent (coctx s c)" "alive s c" "parent s c = Some p" "alive s p"
  shows "Some p \<noteq> e" "at s p = Some (Wait [c])"
  using assms unfolding waits_ok_def by blast+

lemma waits_thread: "waits_ok e s \<Longrightarrow> c < next_co s \<Longrightarrow> waited_by_parent (coctx s c) \<Longrightarrow> is_uthread (coctx s c)"
  unfolding waits_ok_def by blast

lemma pend_okI:
  assumes "\<And>c. c < next_co s \<Longrightarrow> cleanup (coctx s c) \<Longrightarrow> alive s c \<and> at s c = Some Block \<and> Some c \<noteq> e"
  shows "pend_ok e s"
  using assms unfolding pend_ok_def by blast

lemma pend_okD:
  assumes "pend_ok e s" "c < next_co s" "cleanup (coctx s c)"
  shows "alive s c" "at s c = Some Block" "Some c \<noteq> e"
  using assms unfolding pend_ok_def by blast+

lemma posted_okI:
  assumes "distinct (posted_threads s)" "\<And>c. c \<in> set (posted_threads s) \<Longrightarrow> c < next_co s"
    "\<And>c. c \<in> set (posted_threads s) \<Longrightarrow> alive s c \<Longrightarrow> Some c \<noteq> e"
    "\<And>c. c \<in> set (posted_threads s) \<Longrightarrow> alive s c \<Longrightarrow> (\<exists>f a. at s c = Some (Spawn f a)) \<or> is_thread c s \<and> (\<exists>a. at s c = Some (Yield a))"
  shows "posted_ok e s"
  using assms unfolding posted_ok_def by blast

lemma posted_okD:
  assumes "posted_ok e s"
  shows "distinct (posted_threads s)" "c \<in> set (posted_threads s) \<Longrightarrow> c < next_co s"
    "c \<in> set (posted_threads s) \<Longrightarrow> alive s c \<Longrightarrow> Some c \<noteq> e"
    "c \<in> set (posted_threads s) \<Longrightarrow> alive s c \<Longrightarrow> (\<exists>f a. at s c = Some (Spawn f a)) \<or> is_thread c s \<and> (\<exists>a. at s c = Some (Yield a))"
  using assms unfolding posted_ok_def by blast+

lemma exec_okD:
  assumes "exec_ok (Some c) s"
  shows "c < next_co s" "stat s c = CO_RUNNING" "\<not> thread_spawn_yielded (coctx s c)" "alive s c" "active (stat s c)"
  using assms by (simp_all add: exec_ok_def co_alive_def active_def)

text \<open>The status determines the API function, and the other way round.\<close>

lemma frame_resume:
  assumes "frame_ok s c" "at s c = Some (Resume y a)"
  shows "stat s c = CO_NORMAL" "y < next_co s" "parent s y = Some c" "\<not> is_thread y s" "active (stat s y)"
  using assms by (simp_all add: frame_ok_def)

lemma frame_suspended:
  assumes "frame_ok s c" "stat s c = CO_SUSPENDED"
  shows "\<not> is_thread c s" "at s c = None \<or> (\<exists>a. at s c = Some (Yield a))"
  using assms by (auto simp: frame_ok_def split: option.splits api.splits if_splits)

lemma frame_normal:
  assumes "frame_ok s c" "stat s c = CO_NORMAL"
  shows "\<exists>y a. at s c = Some (Resume y a)"
  using assms by (auto simp: frame_ok_def split: option.splits api.splits if_splits)

lemma sinv_start: "sinv (Some 0) (snd (start_session p))"
proof -
  have "anchored (snd (start_session p)) = {}" by (auto simp: anchored_def start_session_def fresh_co_def)
  then show ?thesis
    by (auto simp: sinv_def kinds_ok_def frames_ok_def nest_ok_def waits_ok_def pend_ok_def posted_ok_def exec_ok_def count_exact_def
        start_session_def fresh_co_def is_thread_def)
qed

lemma sinv_cong:
  assumes "sinv e s" "coctx s' = coctx s" "next_co s' = next_co s" "posted_threads s' = posted_threads s" "uthreads s' = uthreads s"
  shows "sinv e s'"
  using assms(1) unfolding sinv_def kinds_ok_def frames_ok_def frame_ok_def nest_ok_def waits_ok_def pend_ok_def posted_ok_def exec_ok_def
    count_exact_def anchored_def is_thread_def assms(2-5) .

lemma is_thread_upd: "is_thread d s' \<longleftrightarrow> is_thread d s" if "is_uthread (coctx s' d) = is_uthread (coctx s d)"
  using that by (simp add: is_thread_def)

text \<open>
  A context that may be used again: its coroutine is neither anchored nor active, and no posted entry, no list of ended threads and no live light thread refers to it. A new
  coroutine gets such a context or one that did not exist.
\<close>

definition reusable :: "nat \<Rightarrow> sched \<Rightarrow> bool" where
  "reusable n s \<longleftrightarrow> n \<noteq> 0 \<and> n < next_co s \<and> \<not> co_ref (coctx s n) \<and> \<not> active (stat s n) \<and> n \<notin> set (posted_threads s) \<and>
     (\<forall>d<next_co s. n \<notin> set (zombie_child_threads (coctx s d)) \<and> (is_uthread (coctx s d) \<longrightarrow> alive s d \<longrightarrow> parent s d \<noteq> Some n))"

definition slot :: "nat \<Rightarrow> sched \<Rightarrow> bool" where
  "slot n s \<longleftrightarrow> n = next_co s \<or> reusable n s"

definition reuse_ok :: "sched \<Rightarrow> bool" where
  "reuse_ok s \<longleftrightarrow> (case reused_co s of None \<Rightarrow> True | Some n \<Rightarrow> reusable n s)"

definition placed :: "nat \<Rightarrow> co_ctx \<Rightarrow> sched \<Rightarrow> sched \<Rightarrow> bool" where
  "placed n x s s' \<longleftrightarrow> coctx s' = (coctx s)(n := x) \<and> next_co s' = (if n = next_co s then n + 1 else next_co s) \<and> posted_threads s' = posted_threads s"

lemma create_helper_placed:
  assumes "create_helper mem f s = Some (n, s')" "reuse_ok s"
  shows "slot n s" "placed n (fresh_co f) s s'" "uthreads s' = uthreads s" "cur_co_ctx s' = cur_co_ctx s" "co_op s' = co_op s" "exited s' = exited s"
  using assms by (auto simp: create_helper_def reuse_ok_def slot_def placed_def reusable_def split: option.splits if_splits)

lemma slot_facts:
  assumes "sinv e s" "slot n s"
  shows "n \<noteq> 0" "d < next_co s \<Longrightarrow> co_ref (coctx s d) \<Longrightarrow> d \<noteq> n" "d < next_co s \<Longrightarrow> active (stat s d) \<Longrightarrow> d \<noteq> n"
    "d < next_co s \<Longrightarrow> is_uthread (coctx s d) \<Longrightarrow> alive s d \<Longrightarrow> parent s d \<noteq> Some n" "n \<notin> set (posted_threads s)"
    "d < next_co s \<Longrightarrow> n \<notin> set (zombie_child_threads (coctx s d))"
  using assms(2) kinds_okD(1) [OF sinvD(1) [OF assms(1)]] kinds_okD(7,8) [OF sinvD(1) [OF assms(1)], of d n] posted_okD(2) [OF sinvD(6) [OF assms(1)], of n]
  by (auto simp: slot_def reusable_def)

lemma placed_facts:
  assumes "placed n x s s'"
  shows "coctx s' d = (if d = n then x else coctx s d)" "posted_threads s' = posted_threads s" "next_co s \<le> next_co s'"
    "d < next_co s' \<Longrightarrow> d \<noteq> n \<Longrightarrow> d < next_co s" "slot n s \<Longrightarrow> n < next_co s'"
  using assms by (auto simp: placed_def slot_def reusable_def split: if_splits)

text \<open>A new coroutine.\<close>

lemma sinv_create:
  assumes "sinv e s" "slot n s" "placed n (fresh_co f) s s'" "uthreads s' = uthreads s"
  shows "sinv e s'"
proof -
  note v = sinvD [OF assms(1)]
  note sl = slot_facts [OF assms(1,2)]
  note co = placed_facts(1) [OF assms(3)] and nx = placed_facts(2) [OF assms(3)] and le = placed_facts(3) [OF assms(3)]
  have th: "is_thread d s' \<longleftrightarrow> d \<noteq> n \<and> is_thread d s" for d
    using sl(1) by (simp add: is_thread_def co fresh_co_def)
  note old = placed_facts(4) [OF assms(3)]
  have other: "coctx s' d = coctx s d" if "d \<noteq> n" for d using that by (simp add: co)
  have new: "co_status (fresh_co f) = CO_SUSPENDED" "\<not> is_uthread (fresh_co f)" "\<not> co_ref (fresh_co f)" "parent_co_ctx (fresh_co f) = None"
    "zombie_child_threads (fresh_co f) = []" "\<not> waited_by_parent (fresh_co f)" "\<not> cleanup (fresh_co f)" "\<not> thread_spawn_yielded (fresh_co f)"
    "co_at (fresh_co f) = None" "co_cont (fresh_co f) \<noteq> None"
    by (simp_all add: fresh_co_def)
  show ?thesis
    unfolding sinv_def
  proof (intro conjI)
    show "kinds_ok s'"
    proof (rule kinds_okI, goal_cases)
      case (4 c)
      then show ?case using kinds_okD(4) [OF v(1), of c] old [of c] by (cases "c = n") (auto simp: co new)
    next
      case (5 c)
      then show ?case using kinds_okD(5) [OF v(1), of c] old [of c] by (cases "c = n") (auto simp: co new)
    next
      case (6 c)
      then show ?case using kinds_okD(6) [OF v(1), of c] old [of c] by (cases "c = n") (auto simp: co new th)
    next
      case (7 c p)
      then show ?case using kinds_okD(7) [OF v(1), of c p] old [of c] le by (cases "c = n") (auto simp: co new)
    next
      case (8 c y)
      then have c: "c < next_co s" "y \<in> set (zombie_child_threads (coctx s c))" using old [of c] by (auto simp: co new split: if_splits)
      then have "y \<noteq> n" using sl(6) by auto
      then show ?case using kinds_okD(8) [OF v(1) c] le by (simp add: co)
    qed (use kinds_okD(1-3) [OF v(1)] sl(1) le in \<open>simp_all add: co\<close>)
    have fr: "frame_ok s' c" if f: "frame_ok s c" and c: "c \<noteq> n" for c
    proof (cases "\<exists>y a. at s c = Some (Resume y a)")
      case True
      then obtain y a where y: "at s c = Some (Resume y a)" by blast
      note fy = frame_resume [OF f y]
      have "y \<noteq> n" using sl(3) [OF fy(2,5)] .
      then show ?thesis using fy y c le unfolding frame_ok_def by (simp add: co th)
    next
      case False
      then show ?thesis using f c unfolding frame_ok_def by (auto simp: co nx th split: option.splits api.splits)
    qed
    show "frames_ok e s'"
    proof (rule frames_okI, goal_cases)
      case (1 c)
      then show ?case using frames_okD(1) [OF v(2), of c] fr [of c] old [of c] by (cases "c = n") (auto simp: co frame_ok_def th new)
    next
      case (2 c)
      then show ?case using frames_okD(2) [OF v(2), of c] old [of c] new(10) by (cases "c = n") (auto simp: co)
    next
      case (3 c)
      then show ?case using frames_okD(3) [OF v(2), of c] old [of c] by (cases "c = n") (auto simp: co new)
    qed
    show "nest_ok e s'"
    proof (rule nest_okI, goal_cases)
      case (1 c)
      then have c: "c \<noteq> n" by (auto simp: co new active_def)
      note c' = old [OF 1(1) c]
      then obtain p a where p: "parent s c = Some p" "Some p \<noteq> e" "alive s p" "at s p = Some (Resume c a)"
        using nest_okD [OF v(3) c'] 1 c by (auto simp: co th)
      have pn: "p < next_co s" using kinds_okD(7) [OF v(1) c' p(1)] .
      have "stat s p = CO_NORMAL" using frame_resume(1) [OF frames_okD(1) [OF v(2) pn p(3,2)] p(4)] .
      then have "p \<noteq> n" using sl(3) [OF pn] by (simp add: active_def)
      then show ?case using p c by (intro exI [of _ p] exI [of _ a]) (simp add: co)
    qed
    show "waits_ok e s'"
    proof (rule waits_okI, goal_cases)
      case (1 c)
      then show ?case using waits_thread [OF v(4), of c] old [of c] by (cases "c = n") (auto simp: co new)
    next
      case (2 c p)
      then have c: "c \<noteq> n" by (auto simp: co new)
      note c' = old [OF 2(1) c]
      have "parent s c \<noteq> Some n" using sl(4) [OF c' waits_thread [OF v(4) c']] 2(2,3) c by (simp add: co)
      then have "p \<noteq> n" using 2(4) c by (auto simp: co)
      then show ?case using waits_okD [OF v(4) c'] 2 c by (simp add: co)
    qed
    show "pend_ok e s'"
    proof (rule pend_okI, goal_cases)
      case (1 c)
      then have "c \<noteq> n" by (auto simp: co new)
      then show ?case using pend_okD [OF v(5), of c] 1 old [of c] by (simp add: co)
    qed
    show "posted_ok e s'"
    proof (rule posted_okI, goal_cases)
      case (2 c)
      then show ?case using posted_okD(2) [OF v(6), of c] le by (simp add: nx)
    next
      case (3 c)
      then show ?case using posted_okD(3) [OF v(6), of c] sl(5) by (cases "c = n") (simp_all add: nx co)
    next
      case (4 c)
      then show ?case using posted_okD(4) [OF v(6), of c] sl(5) by (cases "c = n") (simp_all add: nx co th)
    qed (use posted_okD(1) [OF v(6)] in \<open>simp add: nx\<close>)
    show "exec_ok e s'"
      unfolding exec_ok_def
    proof (intro allI impI)
      fix c assume "e = Some c"
      then have x: "exec_ok (Some c) s" using v(7) by simp
      have "c \<noteq> n" using sl(3) [OF exec_okD(1,5) [OF x]] .
      then show "c < next_co s' \<and> stat s' c = CO_RUNNING \<and> \<not> thread_spawn_yielded (coctx s' c)" using exec_okD [OF x] le by (simp add: co)
    qed
    have "c \<in> anchored s' \<longleftrightarrow> c \<in> anchored s" for c
      using old [of c] sl(2) [of c] le by (cases "c = n") (auto simp: anchored_def co new)
    then have "anchored s' = anchored s" by blast
    then show "count_exact s'" using v(8) by (simp add: count_exact_def assms(4))
  qed
qed

text \<open>What executes may change its stack, its continuation and its place.\<close>

lemma sinv_exec:
  assumes "sinv (Some c) s" "coctx s' = (coctx s)(c := x')" "x' = (coctx s c)\<lparr>co_stack := vs, co_cont := k, co_at := a\<rparr>"
    "next_co s' = next_co s" "posted_threads s' = posted_threads s" "uthreads s' = uthreads s"
  shows "sinv (Some c) s'"
proof -
  note v = sinvD [OF assms(1)]
  have co: "coctx s' d = (if d = c then x' else coctx s d)" for d by (simp add: assms(2))
  have th: "is_thread d s' \<longleftrightarrow> is_thread d s" for d by (simp add: is_thread_def co assms(3))
  have st: "stat s' d = stat s d" "parent s' d = parent s d" "alive s' d = alive s d" "is_uthread (coctx s' d) = is_uthread (coctx s d)"
    "co_ref (coctx s' d) = co_ref (coctx s d)" "zombie_child_threads (coctx s' d) = zombie_child_threads (coctx s d)"
    "waited_by_parent (coctx s' d) = waited_by_parent (coctx s d)" "cleanup (coctx s' d) = cleanup (coctx s d)"
    "thread_spawn_yielded (coctx s' d) = thread_spawn_yielded (coctx s d)" for d
    by (simp_all add: co assms(3) co_alive_def)
  have other: "at s' d = at s d" "co_cont (coctx s' d) = co_cont (coctx s d)" "co_stack (coctx s' d) = co_stack (coctx s d)" if "Some d \<noteq> Some c" for d
    using that by (simp_all add: co)
  show ?thesis
    unfolding sinv_def
  proof (intro conjI)
    show "kinds_ok s'" using v(1) unfolding kinds_ok_def st assms(4) th .
    have "frame_ok s' d = frame_ok s d" if "Some d \<noteq> Some c" for d
      unfolding frame_ok_def other [OF that] st th assms(4,5) ..
    then show "frames_ok (Some c) s'" using v(2) unfolding frames_ok_def st assms(4) by (simp add: other)
    show "nest_ok (Some c) s'"
    proof (rule nest_okI, goal_cases)
      case (1 d)
      then obtain p b where "parent s d = Some p" "Some p \<noteq> Some c" "alive s p" "at s p = Some (Resume d b)"
        using nest_okD [OF v(3), of d] by (auto simp: st th assms(4))
      then show ?case using other(1) [of p] by (auto simp: st)
    qed
    show "waits_ok (Some c) s'"
    proof (rule waits_okI, goal_cases)
      case (1 d)
      then show ?case using waits_thread [OF v(4), of d] by (simp add: st assms(4))
    next
      case (2 d p)
      then show ?case using waits_okD [OF v(4), of d p] other(1) [of p] by (simp add: st assms(4))
    qed
    show "pend_ok (Some c) s'"
    proof (rule pend_okI, goal_cases)
      case (1 d)
      then show ?case using pend_okD [OF v(5), of d] other(1) [of d] by (simp add: st assms(4))
    qed
    show "posted_ok (Some c) s'"
    proof (rule posted_okI, goal_cases)
      case (4 d)
      then show ?case using posted_okD(3,4) [OF v(6), of d] other(1) [of d] by (simp add: st th assms(5))
    qed (use posted_okD(1-3) [OF v(6)] in \<open>simp_all add: st assms(4,5)\<close>)
    show "exec_ok (Some c) s'" using v(7) unfolding exec_ok_def st assms(4) .
    have "anchored s' = anchored s" by (simp add: anchored_def st assms(4))
    then show "count_exact s'" using v(8) by (simp add: count_exact_def assms(6))
  qed
qed

text \<open>
  The executing coroutine stops in a function that waits: for an event, for a thread, or for its turn as a posted
  thread.
\<close>

definition parks :: "prog api \<Rightarrow> bool" where
  "parks a \<longleftrightarrow> (case a of Yield _ \<Rightarrow> True | Spawn _ _ \<Rightarrow> True | Wait ys \<Rightarrow> length ys \<le> 1 | Block \<Rightarrow> True | _ \<Rightarrow> False)"

definition posts :: "prog api \<Rightarrow> bool" where
  "posts a \<longleftrightarrow> (case a of Yield _ \<Rightarrow> True | Spawn _ _ \<Rightarrow> True | _ \<Rightarrow> False)"

lemma sinv_park:
  assumes "sinv (Some c) s" "coctx s' = (coctx s)(c := x')"
    "x' = (coctx s c)\<lparr>co_stack := vs, co_cont := Some k, co_at := Some a, cleanup := (a = Block), thread_spawn_yielded := (\<exists>f b. a = Spawn f b)\<rparr>"
    "next_co s' = next_co s" "posted_threads s' = posted_threads s @ (if posts a then [c] else [])" "uthreads s' = uthreads s"
    "parks a" "(\<exists>f b. a = Spawn f b) \<Longrightarrow> vs \<noteq> []" "(\<exists>b. a = Yield b) \<Longrightarrow> is_thread c s"
  shows "sinv None s'"
proof -
  note v = sinvD [OF assms(1)]
  note x = exec_okD [OF v(7)]
  have co: "coctx s' d = (if d = c then x' else coctx s d)" for d by (simp add: assms(2))
  have th: "is_thread d s' \<longleftrightarrow> is_thread d s" for d by (simp add: is_thread_def co assms(3))
  have st: "stat s' d = stat s d" "parent s' d = parent s d" "alive s' d = alive s d" "is_uthread (coctx s' d) = is_uthread (coctx s d)"
    "co_ref (coctx s' d) = co_ref (coctx s d)" "zombie_child_threads (coctx s' d) = zombie_child_threads (coctx s d)"
    "waited_by_parent (coctx s' d) = waited_by_parent (coctx s d)" for d
    by (simp_all add: co assms(3) co_alive_def)
  have at': "at s' d = (if d = c then Some a else at s d)" for d by (simp add: co assms(3))
  show ?thesis
    unfolding sinv_def
  proof (intro conjI)
    show "kinds_ok s'" using v(1) unfolding kinds_ok_def st assms(4) th .
    have fr: "frame_ok s' d" if "frame_ok s d" "d \<noteq> c" for d
      using that unfolding frame_ok_def by (auto simp: at' st th co assms(3-5) split: option.splits api.splits if_splits)
    have fc: "frame_ok s' c"
      using assms(7-9) x(2) unfolding frame_ok_def parks_def posts_def
      by (cases a) (auto simp: at' st th assms(3,5) co posts_def)
    show "frames_ok None s'"
    proof (rule frames_okI, goal_cases)
      case (1 d)
      then show ?case using fc fr [of d] frames_okD(1) [OF v(2), of d] by (cases "d = c") (simp_all add: st assms(4))
    next
      case (2 d)
      then show ?case using frames_okD(2) [OF v(2), of d] by (cases "d = c") (simp_all add: st assms(3,4) co)
    next
      case (3 d)
      then show ?case using frames_okD(3) [OF v(2), of d] by (cases "d = c") (simp_all add: st assms(3,4) co)
    qed
    show "nest_ok None s'"
    proof (rule nest_okI, goal_cases)
      case (1 d)
      then obtain p b where "parent s d = Some p" "Some p \<noteq> Some c" "alive s p" "at s p = Some (Resume d b)"
        using nest_okD [OF v(3), of d] by (auto simp: st th assms(4))
      then show ?case by (auto simp: st at')
    qed
    show "waits_ok None s'"
    proof (rule waits_okI, goal_cases)
      case (1 d)
      then show ?case using waits_thread [OF v(4), of d] by (simp add: st assms(4))
    next
      case (2 d p)
      then show ?case using waits_okD [OF v(4), of d p] by (simp add: st assms(4) at')
    qed
    show "pend_ok None s'"
    proof (rule pend_okI, goal_cases)
      case (1 d)
      then show ?case using pend_okD [OF v(5), of d] x(4) by (cases "d = c") (auto simp: st assms(3,4) co co_alive_def)
    qed
    have "c \<notin> set (posted_threads s)" using posted_okD(3) [OF v(6), of c] x(4) by auto
    then show "posted_ok None s'"
    proof (intro posted_okI, goal_cases)
      case (4 d)
      then show ?case
        using posted_okD(4) [OF v(6), of d] assms(9)
        by (cases "d = c") (auto simp: st th at' assms(5) posts_def split: api.splits if_splits)
    qed (use posted_okD(1,2) [OF v(6)] x(1) in \<open>auto simp: assms(4,5)\<close>)
    show "exec_ok None s'" by (simp add: exec_ok_def)
    have "anchored s' = anchored s" by (simp add: anchored_def st assms(4))
    then show "count_exact s'" using v(8) by (simp add: count_exact_def assms(6))
  qed
qed

text \<open>A coroutine that waits for a thread is marked in the thread.\<close>

lemma sinv_mark:
  assumes "sinv None s" "y < next_co s" "is_uthread (coctx s y)" "parent s y = Some p" "at s p = Some (Wait [y])"
    "coctx s' = (coctx s)(y := (coctx s y)\<lparr>waited_by_parent := True\<rparr>)"
    "next_co s' = next_co s" "posted_threads s' = posted_threads s" "uthreads s' = uthreads s"
  shows "sinv None s'"
proof -
  note v = sinvD [OF assms(1)]
  have th: "is_thread d s' \<longleftrightarrow> is_thread d s" for d by (simp add: is_thread_def assms(6))
  have st: "stat s' d = stat s d" "parent s' d = parent s d" "alive s' d = alive s d" "is_uthread (coctx s' d) = is_uthread (coctx s d)"
    "co_ref (coctx s' d) = co_ref (coctx s d)" "zombie_child_threads (coctx s' d) = zombie_child_threads (coctx s d)"
    "cleanup (coctx s' d) = cleanup (coctx s d)" "thread_spawn_yielded (coctx s' d) = thread_spawn_yielded (coctx s d)"
    "at s' d = at s d" "co_cont (coctx s' d) = co_cont (coctx s d)" "co_stack (coctx s' d) = co_stack (coctx s d)" for d
    by (simp_all add: assms(6) co_alive_def)
  have fr: "frame_ok s' d = frame_ok s d" for d unfolding frame_ok_def st th assms(7,8) ..
  show ?thesis
    unfolding sinv_def
  proof (intro conjI)
    show "kinds_ok s'" using v(1) unfolding kinds_ok_def st th assms(7) .
    show "frames_ok None s'" using v(2) unfolding frames_ok_def st fr assms(7) .
    show "nest_ok None s'" using v(3) unfolding nest_ok_def st th assms(7) .
    show "pend_ok None s'" using v(5) unfolding pend_ok_def st assms(7) .
    show "posted_ok None s'" using v(6) unfolding posted_ok_def st th assms(7,8) .
    show "exec_ok None s'" by (simp add: exec_ok_def)
    show "waits_ok None s'"
    proof (rule waits_okI, goal_cases)
      case (1 d)
      then show ?case using waits_thread [OF v(4), of d] assms(3) by (cases "d = y") (simp_all add: assms(6,7))
    next
      case (2 d q)
      have "waited_by_parent (coctx s d)" if "d \<noteq> y" using 2(2) that by (simp add: assms(6))
      then show ?case
        using waits_okD(2) [OF v(4), of d q] 2(1,3-5) assms(4,5) unfolding st assms(7) by (cases "d = y") simp_all
    qed
    show "count_exact s'" using v(8) unfolding count_exact_def anchored_def st assms(7,9) .
  qed
qed

text \<open>A coroutine that was stopped in such a function goes on.\<close>

lemma sinv_activate:
  assumes "sinv None s" "p < next_co s" "stat s p = CO_RUNNING"
    "\<And>d. d < next_co s \<Longrightarrow> waited_by_parent (coctx s d) \<Longrightarrow> parent s d = Some p \<Longrightarrow> alive s d \<Longrightarrow> False"
    "coctx s' = (coctx s)(p := x')" "x' = (coctx s p)\<lparr>cleanup := False, thread_spawn_yielded := False, co_stack := vs\<rparr>"
    "next_co s' = next_co s" "posted_threads s' = filter (\<lambda>d. d \<noteq> p) (posted_threads s)" "uthreads s' = uthreads s"
  shows "sinv (Some p) s'"
proof -
  note v = sinvD [OF assms(1)]
  have co: "coctx s' d = (if d = p then x' else coctx s d)" for d by (simp add: assms(5))
  have th: "is_thread d s' \<longleftrightarrow> is_thread d s" for d by (simp add: is_thread_def co assms(6))
  have st: "stat s' d = stat s d" "parent s' d = parent s d" "alive s' d = alive s d" "is_uthread (coctx s' d) = is_uthread (coctx s d)"
    "co_ref (coctx s' d) = co_ref (coctx s d)" "zombie_child_threads (coctx s' d) = zombie_child_threads (coctx s d)"
    "waited_by_parent (coctx s' d) = waited_by_parent (coctx s d)" "at s' d = at s d" for d
    by (simp_all add: co assms(6) co_alive_def)
  have other: "coctx s' d = coctx s d" if "d \<noteq> p" for d using that by (simp add: co)
  have ap: "alive s p" using assms(3) by (simp add: co_alive_def)
  have norm: "at s p \<noteq> Some (Resume d b)" for d b using frame_resume(1) [OF frames_okD(1) [OF v(2) assms(2) ap]] assms(3) by auto
  show ?thesis
    unfolding sinv_def
  proof (intro conjI)
    show "kinds_ok s'" using v(1) unfolding kinds_ok_def st assms(7) th .
    have fr: "frame_ok s' d" if "frame_ok s d" "d \<noteq> p" for d
      using that unfolding frame_ok_def st th assms(7,8) other [OF that(2)] by (auto split: option.splits api.splits)
    show "frames_ok (Some p) s'"
    proof (rule frames_okI, goal_cases)
      case (1 d)
      then show ?case using fr [of d] frames_okD(1) [OF v(2), of d] by (simp add: st assms(7))
    next
      case (2 d)
      then show ?case using frames_okD(2) [OF v(2), of d] other [of d] by (simp add: assms(7))
    next
      case (3 d)
      then show ?case using frames_okD(3) [OF v(2), of d] other [of d] by (simp add: assms(7))
    qed
    show "nest_ok (Some p) s'"
    proof (rule nest_okI, goal_cases)
      case (1 d)
      then obtain q b where "parent s d = Some q" "alive s q" "at s q = Some (Resume d b)"
        using nest_okD [OF v(3), of d] by (auto simp: st th assms(7))
      then show ?case using norm by (auto simp: st)
    qed
    show "waits_ok (Some p) s'"
    proof (rule waits_okI, goal_cases)
      case (1 d)
      then show ?case using waits_thread [OF v(4), of d] by (simp add: st assms(7))
    next
      case (2 d q)
      then show ?case using waits_okD(2) [OF v(4), of d q] assms(4) [of d] by (auto simp: st assms(7))
    qed
    show "pend_ok (Some p) s'"
    proof (rule pend_okI, goal_cases)
      case (1 d)
      then show ?case using pend_okD(1,2) [OF v(5), of d] by (cases "d = p") (simp_all add: st assms(6,7) co)
    qed
    show "posted_ok (Some p) s'"
    proof (rule posted_okI, goal_cases)
      case (4 d)
      then show ?case using posted_okD(4) [OF v(6), of d] by (simp add: st th assms(8))
    qed (use posted_okD(1,2) [OF v(6)] in \<open>auto simp: assms(7,8)\<close>)
    show "exec_ok (Some p) s'" using assms(2,3) by (simp add: exec_ok_def st assms(6,7) co)
    have "anchored s' = anchored s" by (simp add: anchored_def st assms(7))
    then show "count_exact s'" using v(8) by (simp add: count_exact_def assms(9))
  qed
qed

text \<open>\<open>resume\<close>: the executing coroutine hands over to a suspended one.\<close>

lemma sinv_resume:
  assumes "sinv (Some c) s" "y < next_co s" "stat s y = CO_SUSPENDED"
    "coctx s' = (coctx s)(c := xc, y := xy)" "xc = (coctx s c)\<lparr>co_status := CO_NORMAL, co_stack := vs, co_cont := Some k, co_at := Some (Resume y a)\<rparr>"
    "xy = (coctx s y)\<lparr>parent_co_ctx := Some c, co_status := CO_RUNNING, co_stack := ws\<rparr>"
    "next_co s' = next_co s" "posted_threads s' = posted_threads s" "uthreads s' = uthreads s"
  shows "sinv (Some y) s' \<and> co_cont (coctx s y) \<noteq> None \<and> y \<noteq> c"
proof -
  note v = sinvD [OF assms(1)]
  note x = exec_okD [OF v(7)]
  have ne: "y \<noteq> c" using x(2) assms(3) by auto
  have ay: "alive s y" using assms(3) by (simp add: co_alive_def)
  have fy: "frame_ok s y" "co_cont (coctx s y) \<noteq> None" "thread_spawn_yielded (coctx s y) \<longleftrightarrow> (\<exists>f a. at s y = Some (Spawn f a))"
    using frames_okD [OF v(2) assms(2) ay] ne by auto
  note sy = frame_suspended [OF fy(1) assms(3)]
  have noty: "at s y \<noteq> Some (Resume d b)" "at s y \<noteq> Some (Spawn f b)" "at s y \<noteq> Some (Wait ys)" "at s y \<noteq> Some Block" for d b f ys using sy(2) by auto
  have co: "coctx s' d = (if d = y then xy else if d = c then xc else coctx s d)" for d using ne by (simp add: assms(4))
  have th: "is_thread d s' \<longleftrightarrow> is_thread d s" for d by (simp add: is_thread_def co assms(5,6))
  have st: "alive s' d = alive s d" "is_uthread (coctx s' d) = is_uthread (coctx s d)"
    "co_ref (coctx s' d) = co_ref (coctx s d)" "zombie_child_threads (coctx s' d) = zombie_child_threads (coctx s d)"
    "waited_by_parent (coctx s' d) = waited_by_parent (coctx s d)" "cleanup (coctx s' d) = cleanup (coctx s d)"
    "thread_spawn_yielded (coctx s' d) = thread_spawn_yielded (coctx s d)" for d
    using ay x(4) by (auto simp: co assms(5,6) co_alive_def)
  have chg: "at s' d = (if d = c then Some (Resume y a) else at s d)" "parent s' d = (if d = y then Some c else parent s d)"
    "stat s' d = (if d = y then CO_RUNNING else if d = c then CO_NORMAL else stat s d)" for d
    using ne by (simp_all add: co assms(5,6))
  have other: "coctx s' d = coctx s d" if "d \<noteq> c" "d \<noteq> y" for d using that by (simp add: co)
  have uy: "\<not> is_uthread (coctx s y)" "y \<noteq> 0" using sy(1) by (simp_all add: is_thread_def)
  have "sinv (Some y) s'"
    unfolding sinv_def
  proof (intro conjI)
    show "kinds_ok s'"
    proof (rule kinds_okI, goal_cases)
      case (4 d)
      then show ?case using kinds_okD(4) [OF v(1), of d] uy by (auto simp: st chg assms(7))
    next
      case (5 d)
      then show ?case using kinds_okD(5) [OF v(1), of d] by (auto simp: st chg assms(7) split: if_splits)
    next
      case (6 d)
      then show ?case using kinds_okD(6) [OF v(1), of d] x(2) assms(3) by (auto simp: st chg th assms(7))
    next
      case (7 d q)
      then show ?case using kinds_okD(7) [OF v(1), of d q] x(1) by (auto simp: chg assms(7) split: if_splits)
    next
      case (8 d z)
      then show ?case using kinds_okD(8) [OF v(1), of d z] by (simp add: st assms(7))
    qed (use kinds_okD(1-3) [OF v(1)] uy(2) in \<open>simp_all add: st chg assms(7)\<close>)
    have fr: "frame_ok s' d" if f: "frame_ok s d" and d: "d \<noteq> c" "d \<noteq> y" for d
    proof (cases "\<exists>z b. at s d = Some (Resume z b)")
      case True
      then obtain z b where z: "at s d = Some (Resume z b)" by blast
      note fz = frame_resume [OF f z]
      have "z \<noteq> y" using fz(5) assms(3) by (auto simp: active_def)
      then show ?thesis using fz z d unfolding frame_ok_def by (auto simp: chg th assms(7) active_def)
    next
      case False
      then show ?thesis using f d unfolding frame_ok_def by (auto simp: chg th assms(7,8) other st split: option.splits api.splits)
    qed
    have fc: "frame_ok s' c" using ne assms(2) sy(1) unfolding frame_ok_def by (simp add: chg th assms(7) active_def)
    show "frames_ok (Some y) s'"
    proof (rule frames_okI, goal_cases)
      case (1 d)
      then show ?case using fr [of d] fc frames_okD(1) [OF v(2), of d] by (cases "d = c") (simp_all add: st assms(7))
    next
      case (2 d)
      then show ?case using frames_okD(2) [OF v(2), of d] other [of d] ne by (cases "d = c") (simp_all add: co assms(5,7))
    next
      case (3 d)
      then show ?case using frames_okD(3) [OF v(2), of d] x(3) by (cases "d = c") (simp_all add: st chg assms(7))
    qed
    show "nest_ok (Some y) s'"
    proof (rule nest_okI, goal_cases)
      case (1 d)
      show ?case
      proof (cases "d = y")
        case True
        then show ?thesis using ne x(4) by (auto simp: chg st)
      next
        case False
        then have "active (stat s d)" using 1(3) x(5) by (auto simp: chg split: if_splits)
        then obtain q b where "parent s d = Some q" "Some q \<noteq> Some c" "alive s q" "at s q = Some (Resume d b)"
          using nest_okD [OF v(3), of d] 1 by (auto simp: th assms(7))
        then show ?thesis using False noty(1) by (auto simp: chg st)
      qed
    qed
    show "waits_ok (Some y) s'"
    proof (rule waits_okI, goal_cases)
      case (1 d)
      then show ?case using waits_thread [OF v(4), of d] by (simp add: st assms(7))
    next
      case (2 d q)
      then have "d \<noteq> y" using waits_thread [OF v(4), of d] uy(1) by (auto simp: st assms(7))
      then show ?case using waits_okD [OF v(4), of d q] 2 noty(3) by (auto simp: st chg assms(7))
    qed
    show "pend_ok (Some y) s'"
    proof (rule pend_okI, goal_cases)
      case (1 d)
      then show ?case using pend_okD [OF v(5), of d] noty(4) by (auto simp: st chg assms(7))
    qed
    show "posted_ok (Some y) s'"
    proof (rule posted_okI, goal_cases)
      case (3 d)
      then show ?case using posted_okD(4) [OF v(6), of d] noty(2) sy(1) by (auto simp: st assms(8))
    next
      case (4 d)
      then show ?case using posted_okD(3,4) [OF v(6), of d] by (simp add: st th chg assms(8))
    qed (use posted_okD(1,2) [OF v(6)] in \<open>simp_all add: assms(7,8)\<close>)
    show "exec_ok (Some y) s'" using assms(2) fy(3) noty(2) by (simp add: exec_ok_def chg st assms(7))
    have "anchored s' = anchored s" by (simp add: anchored_def st assms(7))
    then show "count_exact s'" using v(8) by (simp add: count_exact_def assms(9))
  qed
  then show ?thesis using fy(2) ne by simp
qed

text \<open>A coroutine that is not a light thread yields or ends: its parent, which resumed it, goes on.\<close>

lemma exec_parent:
  assumes "sinv (Some c) s" "\<not> is_thread c s"
  shows "\<exists>p a. parent s c = Some p \<and> p \<noteq> c \<and> p < next_co s \<and> alive s p \<and> at s p = Some (Resume c a) \<and> co_cont (coctx s p) \<noteq> None"
proof -
  note v = sinvD [OF assms(1)]
  note x = exec_okD [OF v(7)]
  obtain p a where p: "parent s c = Some p" "Some p \<noteq> Some c" "alive s p" "at s p = Some (Resume c a)"
    using nest_okD [OF v(3) x(1) assms(2) x(5)] by blast
  have "p < next_co s" by (rule kinds_okD(7) [OF v(1) x(1) p(1)])
  then show ?thesis using p frames_okD(2) [OF v(2), of p] by auto
qed

lemma sinv_return:
  assumes "sinv (Some c) s" "\<not> is_thread c s" "parent s c = Some p"
    "coctx s' = (coctx s)(c := xc, p := xp)"
    "xc = (coctx s c)\<lparr>co_status := t, co_stack := vs, co_cont := k, co_at := b, zombie_child_threads := zs\<rparr>"
    "t = CO_DEAD \<or> t = CO_SUSPENDED \<and> k \<noteq> None \<and> (\<exists>a. b = Some (Yield a))"
    "xp = (coctx s p)\<lparr>co_status := CO_RUNNING, co_stack := ws\<rparr>"
    "next_co s' = next_co s" "posted_threads s' = posted_threads s" "uthreads s' = uthreads s"
    "set zs \<subseteq> set (zombie_child_threads (coctx s c))"
  shows "sinv (Some p) s'"
proof -
  note v = sinvD [OF assms(1)]
  note x = exec_okD [OF v(7)]
  obtain a where p: "p \<noteq> c" "p < next_co s" "alive s p" "at s p = Some (Resume c a)" using exec_parent [OF assms(1,2)] assms(3) by auto
  have fp: "frame_ok s p" "thread_spawn_yielded (coctx s p) \<longleftrightarrow> (\<exists>f a. at s p = Some (Spawn f a))" using frames_okD(1,3) [OF v(2) p(2,3)] p(1) by auto
  have co: "coctx s' d = (if d = p then xp else if d = c then xc else coctx s d)" for d using p(1) by (simp add: assms(4))
  have th: "is_thread d s' \<longleftrightarrow> is_thread d s" for d by (simp add: is_thread_def co assms(5,7))
  have st: "parent s' d = parent s d" "is_uthread (coctx s' d) = is_uthread (coctx s d)"
    "co_ref (coctx s' d) = co_ref (coctx s d)" "cleanup (coctx s' d) = cleanup (coctx s d)"
    "thread_spawn_yielded (coctx s' d) = thread_spawn_yielded (coctx s d)" for d
    by (auto simp: co assms(5,7))
  have chg: "at s' d = (if d = c then b else at s d)" "stat s' d = (if d = p then CO_RUNNING else if d = c then t else stat s d)" for d
    using p(1) by (simp_all add: co assms(5,7))
  have al: "alive s' d \<Longrightarrow> alive s d" for d using p(3) x(4) assms(6) by (auto simp: co_alive_def chg(2) split: if_splits)
  have ap: "alive s' d" if "alive s d" "d \<noteq> c" for d using that by (simp add: co_alive_def chg(2))
  have other: "coctx s' d = coctx s d" if "d \<noteq> c" "d \<noteq> p" for d using that by (simp add: co)
  have uc: "\<not> is_uthread (coctx s c)" "c \<noteq> 0" using assms(2) by (simp_all add: is_thread_def)
  have np: "stat s p = CO_NORMAL" by (rule frame_resume(1) [OF fp(1) p(4)])
  show ?thesis
    unfolding sinv_def
  proof (intro conjI)
    show "kinds_ok s'"
    proof (rule kinds_okI, goal_cases)
      case (4 d)
      then show ?case using kinds_okD(4) [OF v(1), of d] by (auto simp: st assms(8))
    next
      case (5 d)
      then show ?case using kinds_okD(5) [OF v(1), of d] assms(6) by (auto simp: st chg assms(8) split: if_splits)
    next
      case (6 d)
      then show ?case using kinds_okD(6) [OF v(1), of d] np assms(2) by (auto simp: st chg th assms(8))
    next
      case (7 d q)
      then show ?case using kinds_okD(7) [OF v(1), of d q] by (auto simp: st assms(8))
    next
      case (8 d z)
      then have "z \<in> set (zombie_child_threads (coctx s d))" using assms(11) by (auto simp: co assms(5,7) split: if_splits)
      then show ?case using kinds_okD(8) [OF v(1), of d z] 8(1) al [of z] by (auto simp: st assms(8))
    qed (use kinds_okD(1-3) [OF v(1)] in \<open>simp_all add: st assms(8)\<close>)
    have fr: "frame_ok s' d" if f: "frame_ok s d" and d: "d \<noteq> c" "d \<noteq> p" for d
    proof (cases "\<exists>z b. at s d = Some (Resume z b)")
      case True
      then obtain z e where z: "at s d = Some (Resume z e)" by blast
      note fz = frame_resume [OF f z]
      have "z \<noteq> c" using fz(3) assms(3) d by auto
      then show ?thesis using fz z d unfolding frame_ok_def by (auto simp: chg st th assms(8) active_def)
    next
      case False
      then show ?thesis using f d unfolding frame_ok_def by (auto simp: chg th assms(8,9) other st split: option.splits api.splits)
    qed
    have fc: "frame_ok s' c" if "alive s' c" using that assms(2,6) p(1) unfolding frame_ok_def by (auto simp: chg th co_alive_def)
    show "frames_ok (Some p) s'"
    proof (rule frames_okI, goal_cases)
      case (1 d)
      then show ?case using fr [of d] fc frames_okD(1) [OF v(2), of d] al [of d] by (cases "d = c") (simp_all add: assms(8))
    next
      case (2 d)
      show ?case
      proof (cases "d = c")
        case True
        then show ?thesis using 2(2) assms(6) p(1) by (auto simp: co assms(5) co_alive_def)
      next
        case False
        then show ?thesis using 2 frames_okD(2) [OF v(2), of d] al [of d] other [of d] by (simp add: assms(8))
      qed
    next
      case (3 d)
      show ?case
      proof (cases "d = c")
        case True
        then show ?thesis using 3(2) x(3) assms(6) p(1) by (auto simp: st chg co_alive_def)
      next
        case False
        then show ?thesis using 3 frames_okD(3) [OF v(2), of d] al [of d] by (simp add: st chg assms(8))
      qed
    qed
    show "nest_ok (Some p) s'"
    proof (rule nest_okI, goal_cases)
      case (1 d)
      have "d \<noteq> c" using 1(3) assms(6) p(1) by (auto simp: chg active_def)
      moreover have "active (stat s d)" using 1(3) calculation np by (auto simp: chg active_def split: if_splits)
      ultimately obtain q e where q: "parent s d = Some q" "Some q \<noteq> Some c" "alive s q" "at s q = Some (Resume d e)"
        using nest_okD [OF v(3), of d] 1 by (auto simp: th assms(8))
      have "q \<noteq> p" using q(4) p(4) \<open>d \<noteq> c\<close> by auto
      then show ?case using q ap [of q] by (auto simp: chg st)
    qed
    show "waits_ok (Some p) s'"
    proof (rule waits_okI, goal_cases)
      case (1 d)
      then have "waited_by_parent (coctx s d)" by (auto simp: co assms(5,7) split: if_splits)
      then show ?case using waits_thread [OF v(4), of d] 1(1) by (simp add: st assms(8))
    next
      case (2 d q)
      then have "waited_by_parent (coctx s d)" by (auto simp: co assms(5,7) split: if_splits)
      then show ?case using waits_okD [OF v(4), of d q] 2(1,4) al [OF 2(3)] al [OF 2(5)] p(4) by (auto simp: st chg assms(8))
    qed
    show "pend_ok (Some p) s'"
    proof (rule pend_okI, goal_cases)
      case (1 d)
      then show ?case using pend_okD [OF v(5), of d] p(4) ap [of d] by (auto simp: st chg assms(8))
    qed
    show "posted_ok (Some p) s'"
    proof (rule posted_okI, goal_cases)
      case (3 d)
      then show ?case using posted_okD(4) [OF v(6), of d] al [of d] p(4) by (auto simp: assms(9))
    next
      case (4 d)
      then show ?case using posted_okD(3,4) [OF v(6), of d] al [of d] by (simp add: st th chg assms(9))
    qed (use posted_okD(1,2) [OF v(6)] in \<open>simp_all add: assms(8,9)\<close>)
    show "exec_ok (Some p) s'" using p fp(2) by (simp add: exec_ok_def chg st assms(8))
    have "anchored s' = anchored s" by (simp add: anchored_def st assms(8))
    then show "count_exact s'" using v(8) by (simp add: count_exact_def assms(10))
  qed
qed

text \<open>The executing light thread ends: it is released, or kept for its parent as a zombie.\<close>

lemma card_anchored_remove:
  assumes "c \<in> anchored s" "anchored s' = anchored s - {c}"
  shows "int (card (anchored s')) = int (card (anchored s)) - 1"
proof -
  have "finite (anchored s)" by (simp add: anchored_def)
  then show ?thesis using card.remove [of "anchored s" c] assms by simp
qed

lemma sinv_end:
  assumes "sinv (Some c) s" "is_thread c s" "coctx s' = (coctx s)(c := xc)"
    "xc = (coctx s c)\<lparr>co_status := t, co_ref := r, co_stack := vs, co_cont := k, co_at := b, waited_by_parent := w, zombie_child_threads := zs\<rparr>"
    "w \<Longrightarrow> is_uthread (coctx s c)"
    "t = CO_DEAD \<and> \<not> r \<and> uthreads s' = uthreads s - (if is_uthread (coctx s c) then 1 else 0) \<or>
     t = CO_ZOMBIE \<and> r \<and> is_uthread (coctx s c) \<and> uthreads s' = uthreads s"
    "next_co s' = next_co s" "posted_threads s' = posted_threads s" "set zs \<subseteq> set (zombie_child_threads (coctx s c))"
  shows "sinv None s'"
proof -
  note v = sinvD [OF assms(1)]
  note x = exec_okD [OF v(7)]
  have rc: "co_ref (coctx s c)" using kinds_okD(6) [OF v(1) x(1)] assms(2) x(2) by simp
  have co: "coctx s' d = (if d = c then xc else coctx s d)" for d by (simp add: assms(3))
  have th: "is_thread d s' \<longleftrightarrow> is_thread d s" for d by (simp add: is_thread_def co assms(4))
  have st: "parent s' d = parent s d" "is_uthread (coctx s' d) = is_uthread (coctx s d)" for d by (auto simp: co assms(4))
  have dc: "\<not> alive s' c" "\<not> active (stat s' c)" using assms(6) by (auto simp: co assms(4) co_alive_def active_def)
  have ne: "d \<noteq> c" if "alive s' d" for d using dc(1) that by auto
  have other: "coctx s' d = coctx s d" if "d \<noteq> c" for d using that by (simp add: co)
  show ?thesis
    unfolding sinv_def
  proof (intro conjI)
    show "kinds_ok s'"
    proof (rule kinds_okI, goal_cases)
      case (4 d)
      then show ?case using kinds_okD(4) [OF v(1), of d] by (auto simp: st assms(7))
    next
      case (5 d)
      then show ?case using kinds_okD(5) [OF v(1), of d] assms(6) by (cases "d = c") (auto simp: co assms(4,7))
    next
      case (6 d)
      then show ?case using kinds_okD(6) [OF v(1), of d] assms(2,6) by (cases "d = c") (auto simp: co th assms(4,7))
    next
      case (7 d q)
      then show ?case using kinds_okD(7) [OF v(1), of d q] by (auto simp: st assms(7))
    next
      case (8 d z)
      then have "z \<in> set (zombie_child_threads (coctx s d))" using assms(9) by (auto simp: co assms(4) split: if_splits)
      then show ?case using 8(1) kinds_okD(8) [OF v(1), of d z] dc(1) by (cases "z = c") (auto simp: st other assms(7))
    qed (use kinds_okD(1-3) [OF v(1)] in \<open>simp_all add: st assms(7)\<close>)
    have fr: "frame_ok s' d" if f: "frame_ok s d" and d: "d \<noteq> c" for d
    proof (cases "\<exists>z b. at s d = Some (Resume z b)")
      case True
      then obtain z e where z: "at s d = Some (Resume z e)" by blast
      note fz = frame_resume [OF f z]
      have "z \<noteq> c" using fz(4) assms(2) by auto
      then show ?thesis using fz z d unfolding frame_ok_def by (auto simp: other st th assms(7))
    next
      case False
      then show ?thesis using f d unfolding frame_ok_def by (auto simp: th assms(7,8) other st split: option.splits api.splits)
    qed
    show "frames_ok None s'"
    proof (rule frames_okI, goal_cases)
      case (1 d)
      then show ?case using fr [of d] frames_okD(1) [OF v(2), of d] ne [of d] other [of d] by (simp add: assms(7))
    next
      case (2 d)
      then show ?case using frames_okD(2) [OF v(2), of d] ne [of d] other [of d] by (simp add: assms(7))
    next
      case (3 d)
      then show ?case using frames_okD(3) [OF v(2), of d] ne [of d] other [of d] by (simp add: assms(7))
    qed
    show "nest_ok None s'"
    proof (rule nest_okI, goal_cases)
      case (1 d)
      then have d: "d \<noteq> c" using dc(2) by auto
      then obtain q e where "parent s d = Some q" "Some q \<noteq> Some c" "alive s q" "at s q = Some (Resume d e)"
        using nest_okD [OF v(3), of d] 1 other [OF d] by (auto simp: th assms(7))
      then show ?case using d other [of q] by (auto simp: st)
    qed
    show "waits_ok None s'"
    proof (rule waits_okI, goal_cases)
      case (1 d)
      then show ?case using waits_thread [OF v(4), of d] assms(5) by (cases "d = c") (auto simp: st co assms(4,7))
    next
      case (2 d q)
      then show ?case using waits_okD [OF v(4), of d q] ne [of d] ne [of q] other [of d] other [of q] by (simp add: assms(7))
    qed
    show "pend_ok None s'"
    proof (rule pend_okI, goal_cases)
      case (1 d)
      then show ?case using pend_okD [OF v(5), of d] other [of d] by (cases "d = c") (auto simp: co assms(4,7))
    qed
    show "posted_ok None s'"
    proof (rule posted_okI, goal_cases)
      case (4 d)
      then show ?case using posted_okD(4) [OF v(6), of d] ne [of d] other [of d] by (simp add: th assms(8))
    qed (use posted_okD(1,2) [OF v(6)] in \<open>simp_all add: assms(7,8)\<close>)
    show "exec_ok None s'" by (simp add: exec_ok_def)
    show "count_exact s'"
    proof (cases "t = CO_DEAD \<and> is_uthread (coctx s c)")
      case True
      then have "anchored s' = anchored s - {c}" "c \<in> anchored s" using assms(6) x(1) rc by (auto simp: anchored_def co assms(4,7))
      then show ?thesis using card_anchored_remove v(8) assms(6) True by (auto simp: count_exact_def)
    next
      case False
      then have "anchored s' = anchored s" using assms(6) rc by (auto simp: anchored_def co assms(4,7))
      then show ?thesis using v(8) assms(6) False by (auto simp: count_exact_def)
    qed
  qed
qed

text \<open>A light thread that does not execute is released: a zombie, or one that is killed.\<close>

lemma sinv_drop:
  assumes "sinv e s" "y < next_co s" "is_uthread (coctx s y)" "stat s y \<noteq> CO_DEAD" "stat s y \<noteq> CO_NORMAL" "Some y \<noteq> e"
    "coctx s' = (coctx s)(y := xy)" "xy = (coctx s y)\<lparr>co_status := CO_DEAD, co_ref := False, cleanup := False, co_stack := vs\<rparr>"
    "next_co s' = next_co s" "posted_threads s' = posted_threads s" "uthreads s' = uthreads s - 1"
  shows "sinv e s'"
proof -
  note v = sinvD [OF assms(1)]
  have ry: "co_ref (coctx s y)" using kinds_okD(6) [OF v(1) assms(2)] assms(3,4) by (simp add: is_thread_def)
  have co: "coctx s' d = (if d = y then xy else coctx s d)" for d by (simp add: assms(7))
  have th: "is_thread d s' \<longleftrightarrow> is_thread d s" for d by (simp add: is_thread_def co assms(8))
  have st: "parent s' d = parent s d" "is_uthread (coctx s' d) = is_uthread (coctx s d)" "at s' d = at s d"
    "waited_by_parent (coctx s' d) = waited_by_parent (coctx s d)" "zombie_child_threads (coctx s' d) = zombie_child_threads (coctx s d)" for d
    by (auto simp: co assms(8))
  have dy: "\<not> alive s' y" "\<not> active (stat s' y)" by (auto simp: co assms(8) co_alive_def active_def)
  have ne: "d \<noteq> y" if "alive s' d" for d using dy(1) that by auto
  have other: "coctx s' d = coctx s d" if "d \<noteq> y" for d using that by (simp add: co)
  show ?thesis
    unfolding sinv_def
  proof (intro conjI)
    show "kinds_ok s'"
    proof (rule kinds_okI, goal_cases)
      case (4 d)
      then show ?case using kinds_okD(4) [OF v(1), of d] by (auto simp: st assms(9))
    next
      case (5 d)
      then show ?case using kinds_okD(5) [OF v(1), of d] by (cases "d = y") (auto simp: co assms(8,9))
    next
      case (6 d)
      then show ?case using kinds_okD(6) [OF v(1), of d] by (cases "d = y") (auto simp: co th assms(8,9))
    next
      case (7 d q)
      then show ?case using kinds_okD(7) [OF v(1), of d q] by (auto simp: st assms(9))
    next
      case (8 d z)
      then show ?case using kinds_okD(8) [OF v(1), of d z] ne [of z] other [of z] by (auto simp: st assms(9))
    qed (use kinds_okD(1-3) [OF v(1)] in \<open>simp_all add: st assms(9)\<close>)
    have fr: "frame_ok s' d" if f: "frame_ok s d" and d: "d \<noteq> y" for d
    proof (cases "\<exists>z b. at s d = Some (Resume z b)")
      case True
      then obtain z b where z: "at s d = Some (Resume z b)" by blast
      note fz = frame_resume [OF f z]
      have "z \<noteq> y" using fz(4) assms(3) by (auto simp: is_thread_def)
      then show ?thesis using fz z d unfolding frame_ok_def by (auto simp: other st th assms(9))
    next
      case False
      then show ?thesis using f d unfolding frame_ok_def by (auto simp: th assms(9,10) other st split: option.splits api.splits)
    qed
    show "frames_ok e s'"
    proof (rule frames_okI, goal_cases)
      case (1 d)
      then show ?case using fr [of d] frames_okD(1) [OF v(2), of d] ne [of d] other [of d] by (simp add: assms(9))
    next
      case (2 d)
      then show ?case using frames_okD(2) [OF v(2), of d] ne [of d] other [of d] by (simp add: assms(9))
    next
      case (3 d)
      then show ?case using frames_okD(3) [OF v(2), of d] ne [of d] other [of d] by (simp add: assms(9))
    qed
    show "nest_ok e s'"
    proof (rule nest_okI, goal_cases)
      case (1 d)
      then have d: "d \<noteq> y" using dy(2) by auto
      then obtain q b where q: "parent s d = Some q" "Some q \<noteq> e" "alive s q" "at s q = Some (Resume d b)"
        using nest_okD [OF v(3), of d] 1 other [OF d] by (auto simp: th assms(9))
      have "q < next_co s" using kinds_okD(7) [OF v(1) _ q(1)] 1(1) by (simp add: assms(9))
      then have "stat s q = CO_NORMAL" using frame_resume(1) [OF frames_okD(1) [OF v(2)] q(4)] q(2,3) by simp
      then have "q \<noteq> y" using assms(5) by auto
      then show ?case using q d other [of q] by (auto simp: st)
    qed
    show "waits_ok e s'"
    proof (rule waits_okI, goal_cases)
      case (1 d)
      then show ?case using waits_thread [OF v(4), of d] by (simp add: st assms(9))
    next
      case (2 d q)
      then show ?case using waits_okD [OF v(4), of d q] ne [of d] ne [of q] other [of d] other [of q] by (simp add: assms(9))
    qed
    show "pend_ok e s'"
    proof (rule pend_okI, goal_cases)
      case (1 d)
      then show ?case using pend_okD [OF v(5), of d] other [of d] by (cases "d = y") (auto simp: co assms(8,9))
    qed
    show "posted_ok e s'"
    proof (rule posted_okI, goal_cases)
      case (3 d)
      then show ?case using posted_okD(3) [OF v(6), of d] ne [of d] other [of d] by (simp add: assms(10))
    next
      case (4 d)
      then show ?case using posted_okD(4) [OF v(6), of d] ne [of d] other [of d] by (simp add: th assms(10))
    qed (use posted_okD(1,2) [OF v(6)] in \<open>simp_all add: assms(9,10)\<close>)
    show "exec_ok e s'"
      unfolding exec_ok_def
    proof (intro allI impI)
      fix d assume e: "e = Some d"
      then have "d \<noteq> y" using assms(6) by auto
      then show "d < next_co s' \<and> stat s' d = CO_RUNNING \<and> \<not> thread_spawn_yielded (coctx s' d)"
        using v(7) e other [of d] by (simp add: exec_ok_def assms(9))
    qed
    have "anchored s' = anchored s - {y}" "y \<in> anchored s" using assms(2,3) ry by (auto simp: anchored_def co assms(8,9))
    then show "count_exact s'" using card_anchored_remove v(8) by (auto simp: count_exact_def assms(11))
  qed
qed

lemma sinv_zombies:
  assumes "sinv e s" "p < next_co s" "\<And>y. y \<in> set zs \<Longrightarrow> y < next_co s \<and> is_uthread (coctx s y) \<and> \<not> alive s y"
    "coctx s' = (coctx s)(p := (coctx s p)\<lparr>zombie_child_threads := zs\<rparr>)"
    "next_co s' = next_co s" "posted_threads s' = posted_threads s" "uthreads s' = uthreads s"
  shows "sinv e s'"
proof -
  note v = sinvD [OF assms(1)]
  have th: "is_thread d s' \<longleftrightarrow> is_thread d s" for d by (simp add: is_thread_def assms(4))
  have st: "stat s' d = stat s d" "parent s' d = parent s d" "alive s' d = alive s d" "is_uthread (coctx s' d) = is_uthread (coctx s d)"
    "co_ref (coctx s' d) = co_ref (coctx s d)" "waited_by_parent (coctx s' d) = waited_by_parent (coctx s d)"
    "cleanup (coctx s' d) = cleanup (coctx s d)" "thread_spawn_yielded (coctx s' d) = thread_spawn_yielded (coctx s d)"
    "at s' d = at s d" "co_cont (coctx s' d) = co_cont (coctx s d)" "co_stack (coctx s' d) = co_stack (coctx s d)" for d
    by (simp_all add: assms(4) co_alive_def)
  have zs: "zombie_child_threads (coctx s' d) = (if d = p then zs else zombie_child_threads (coctx s d))" for d by (simp add: assms(4))
  have fr: "frame_ok s' d = frame_ok s d" for d unfolding frame_ok_def st th assms(5,6) ..
  show ?thesis
    unfolding sinv_def
  proof (intro conjI)
    show "kinds_ok s'"
    proof (rule kinds_okI, goal_cases)
      case (6 d)
      then show ?case using kinds_okD(6) [OF v(1), of d] unfolding st th assms(5) by simp
    next
      case (8 d z)
      then show ?case using kinds_okD(8) [OF v(1), of d z] assms(3) [of z] by (cases "d = p") (simp_all add: st zs assms(5))
    qed (use kinds_okD(1-5,7) [OF v(1)] in \<open>simp_all add: st assms(5)\<close>)
    show "frames_ok e s'" using v(2) unfolding frames_ok_def st fr assms(5) .
    show "nest_ok e s'" using v(3) unfolding nest_ok_def st th assms(5) .
    show "waits_ok e s'" using v(4) unfolding waits_ok_def st assms(5) .
    show "pend_ok e s'" using v(5) unfolding pend_ok_def st assms(5) .
    show "posted_ok e s'" using v(6) unfolding posted_ok_def st th assms(5,6) .
    show "exec_ok e s'" using v(7) unfolding exec_ok_def st assms(5) .
    show "count_exact s'" using v(8) unfolding count_exact_def anchored_def st assms(5,7) .
  qed
qed

text \<open>A new light thread starts to execute.\<close>

lemma sinv_thread:
  assumes "sinv None s" "c < next_co s" "c \<noteq> n" "slot n s"
    "placed n ((fresh_co f)\<lparr>co_ref := True, co_stack := vs, is_uthread := True, co_status := CO_RUNNING, parent_co_ctx := Some c\<rparr>) s s'"
    "uthreads s' = uthreads s + 1"
  shows "sinv (Some n) s'"
proof -
  let ?s1 = "s\<lparr>coctx := (coctx s)(n := fresh_co f), next_co := next_co s'\<rparr>"
  have pl: "placed n (fresh_co f) s ?s1" using assms(5) by (simp add: placed_def)
  have s1: "sinv None ?s1" by (rule sinv_create [OF assms(1,4) pl]) simp
  note v = sinvD [OF s1] and w = sinvD [OF assms(1)]
  note sl = slot_facts [OF assms(1,4)]
  define x' where "x' = (fresh_co f)\<lparr>co_ref := True, co_stack := vs, is_uthread := True, co_status := CO_RUNNING, parent_co_ctx := Some c\<rparr>"
  note x' = x'_def [unfolded fresh_co_def]
  have nx: "next_co ?s1 = next_co s'" "posted_threads s' = posted_threads ?s1" using assms(5) by (simp_all add: placed_def)
  have co: "coctx s' d = (if d = n then x' else coctx ?s1 d)" for d using assms(5) by (simp add: placed_def x'_def)
  note old = placed_facts(4) [OF pl] and lt = placed_facts(5) [OF pl assms(4)] and le = placed_facts(3) [OF pl]
  have other: "coctx s' d = coctx ?s1 d" if "d \<noteq> n" for d using that by (simp add: co)
  have was: "coctx ?s1 n = fresh_co f" by simp
  have same: "coctx ?s1 d = coctx s d" if "d \<noteq> n" for d using that by simp
  have th: "is_thread d s' \<longleftrightarrow> d = n \<or> is_thread d ?s1" for d by (auto simp: is_thread_def co x')
  have al: "alive s' d \<longleftrightarrow> alive ?s1 d" for d by (simp add: co x' co_alive_def fresh_co_def)
  show ?thesis
    unfolding sinv_def
  proof (intro conjI)
    show "kinds_ok s'"
    proof (rule kinds_okI, goal_cases)
      case (4 d)
      then show ?case using kinds_okD(4) [OF v(1), of d] assms(3) by (cases "d = n") (simp_all add: co x')
    next
      case (5 d)
      then show ?case using kinds_okD(5) [OF v(1), of d] by (cases "d = n") (simp_all add: co x')
    next
      case (6 d)
      then show ?case using kinds_okD(6) [OF v(1), of d] by (cases "d = n") (simp_all add: co x' th)
    next
      case (7 d q)
      then show ?case using kinds_okD(7) [OF v(1), of d q] assms(2) le by (cases "d = n") (simp_all add: co x')
    next
      case (8 d z)
      then have d: "d \<noteq> n" by (auto simp: co x')
      then have z: "z < next_co ?s1" "is_uthread (coctx ?s1 z)" "\<not> alive ?s1 z" using kinds_okD(8) [OF v(1), of d z] 8 other [OF d] by (simp_all add: nx(1))
      then have "z \<noteq> n" using was by (auto simp: fresh_co_def)
      then show ?case using z other [of z] by simp
    qed (use kinds_okD(1-3) [OF w(1)] sl(1) le in \<open>simp_all add: co\<close>)
    have fr: "frame_ok s' d" if f: "frame_ok ?s1 d" and d: "d \<noteq> n" for d
    proof (cases "\<exists>z b. at ?s1 d = Some (Resume z b)")
      case True
      then obtain z b where z: "at ?s1 d = Some (Resume z b)" by blast
      note fz = frame_resume [OF f z]
      have "z \<noteq> n" using fz(5) was by (auto simp: fresh_co_def active_def)
      then show ?thesis using fz z d other [OF d] other [of z] unfolding frame_ok_def by (simp add: th nx(1))
    next
      case False
      then show ?thesis using f d other [OF d] unfolding frame_ok_def by (auto simp: th nx simp del: fun_upd_apply split: option.splits api.splits)
    qed
    show "frames_ok (Some n) s'"
    proof (rule frames_okI, goal_cases)
      case (1 d)
      then show ?case using fr [of d] frames_okD(1) [OF v(2), of d] by (simp add: al nx(1))
    next
      case (2 d)
      then show ?case using frames_okD(2) [OF v(2), of d] other [of d] by (simp add: nx(1))
    next
      case (3 d)
      then show ?case using frames_okD(3) [OF v(2), of d] other [of d] by (simp add: nx(1))
    qed
    show "nest_ok (Some n) s'"
    proof (rule nest_okI, goal_cases)
      case (1 d)
      then have d: "d \<noteq> n" by (simp add: th)
      then obtain q b where q: "parent ?s1 d = Some q" "alive ?s1 q" "at ?s1 q = Some (Resume d b)"
        using nest_okD [OF v(3), of d] 1 other [OF d] by (auto simp: th nx(1))
      then have "q \<noteq> n" using was by (auto simp: fresh_co_def)
      then show ?case using q other [OF d] other [of q] by (auto simp: al)
    qed
    show "waits_ok (Some n) s'"
    proof (rule waits_okI, goal_cases)
      case (1 d)
      then show ?case using waits_thread [OF v(4), of d] by (cases "d = n") (simp_all add: co x')
    next
      case (2 d q)
      then have d: "d \<noteq> n" by (auto simp: co x')
      note d' = old [of d, unfolded nx(1), OF 2(1) d]
      have "parent s d \<noteq> Some n" using sl(4) [OF d' waits_thread [OF w(4) d']] 2(2,3) other [OF d] same [OF d] by (simp add: al)
      then have "q \<noteq> n" using 2(4) other [OF d] same [OF d] by auto
      then show ?case using waits_okD [OF v(4), of d q] 2 d other [OF d] other [of q] by (simp add: nx(1))
    qed
    show "pend_ok (Some n) s'"
    proof (rule pend_okI, goal_cases)
      case (1 d)
      then have d: "d \<noteq> n" by (auto simp: co x')
      then show ?case using pend_okD [OF v(5), of d] 1 other [OF d] by (simp add: nx(1))
    qed
    show "posted_ok (Some n) s'"
    proof (rule posted_okI, goal_cases)
      case (2 d)
      then show ?case using posted_okD(2) [OF v(6), of d] by (simp add: nx)
    next
      case (3 d)
      then show ?case using sl(5) by (auto simp: nx)
    next
      case (4 d)
      then have d: "d \<noteq> n" using sl(5) by (auto simp: nx)
      then show ?case using posted_okD(4) [OF v(6), of d] 4 other [OF d] by (simp add: th nx)
    qed (use posted_okD(1) [OF v(6)] in \<open>simp add: nx\<close>)
    show "exec_ok (Some n) s'" using lt by (simp add: exec_ok_def co x')
    have "anchored s' = insert n (anchored ?s1)" "n \<notin> anchored ?s1" "finite (anchored ?s1)"
      using lt by (auto simp: anchored_def co x' fresh_co_def)
    then show "count_exact s'" using v(8) by (simp add: count_exact_def assms(6))
  qed
qed

text \<open>A posted thread that was killed is skipped.\<close>

lemma posted_running:
  assumes "sinv None s" "c \<in> set (posted_threads s)" "alive s c"
  shows "stat s c = CO_RUNNING"
  using posted_okD(2,4) [OF sinvD(6) [OF assms(1)] assms(2)] frames_okD(1) [OF sinvD(2) [OF assms(1)], of c] assms(3)
  by (auto simp: frame_ok_def)

lemma sinv_pop:
  assumes "sinv None s" "posted_threads s = c # cs" "stat s c \<noteq> CO_RUNNING"
    "coctx s' = coctx s" "next_co s' = next_co s" "posted_threads s' = cs" "uthreads s' = uthreads s"
  shows "sinv None s'"
proof -
  note v = sinvD [OF assms(1)]
  have dead: "\<not> alive s c" using posted_running [OF assms(1), of c] assms(2,3) by auto
  have th: "is_thread d s' \<longleftrightarrow> is_thread d s" for d by (simp add: is_thread_def assms(4))
  have fr: "frame_ok s' d" if "frame_ok s d" "alive s d" for d
    using that dead unfolding frame_ok_def th assms(4-6) by (auto simp: assms(2) split: option.splits api.splits)
  show ?thesis
    unfolding sinv_def
  proof (intro conjI)
    show "kinds_ok s'" using v(1) unfolding kinds_ok_def th assms(4,5) .
    show "frames_ok None s'" using v(2) fr unfolding frames_ok_def assms(4,5) by blast
    show "nest_ok None s'" using v(3) unfolding nest_ok_def th assms(4,5) .
    show "waits_ok None s'" using v(4) unfolding waits_ok_def assms(4,5) .
    show "pend_ok None s'" using v(5) unfolding pend_ok_def assms(4,5) .
    show "posted_ok None s'" using v(6) unfolding posted_ok_def th assms(2,4-6) by auto
    show "exec_ok None s'" by (simp add: exec_ok_def)
    show "count_exact s'" using v(8) unfolding count_exact_def anchored_def assms(4,5,7) .
  qed
qed

end
