(* ===== verification/Coroutine_Run.thy ===== *)
theory Coroutine_Run
  imports Coroutine_Inv
begin

section \<open>Runs of the scheduler\<close>

text \<open>Every step of the loop of \<open>run_thread\<close> and of the API keeps the invariant, in every state a session reaches.\<close>

lemmas upd_defs [simp] = upd_def push_def clear_stack_def set_status_def post_thread_def cleanup_pending_def

definition quiet :: "sched \<Rightarrow> bool" where
  "quiet s \<longleftrightarrow> co_op s = OP_NOP \<and> \<not> exited s"

text \<open>What is left to say when a session is over: the count fits the anchored threads, and there are none after a normal end.\<close>

definition refs_ok :: "sched \<Rightarrow> bool" where
  "refs_ok s \<longleftrightarrow> 0 < next_co s \<and> \<not> is_uthread (coctx s 0) \<and> (\<forall>c<next_co s. co_ref (coctx s c) \<longrightarrow> is_thread c s) \<and> count_exact s"

definition released :: "sched \<Rightarrow> bool" where
  "released s \<longleftrightarrow> uthreads s = 0 \<and> (\<forall>c<next_co s. \<not> co_ref (coctx s c))"

fun mode_inv :: "mode \<times> sched \<Rightarrow> bool" where
  "mode_inv (MResume n, s) \<longleftrightarrow> quiet s \<and> (\<exists>c. cur_co_ctx s = Some c \<and> sinv (Some c) s \<and> co_cont (coctx s c) \<noteq> None \<and> n \<le> length (co_stack (coctx s c)))"
| "mode_inv (MLua c p, s) \<longleftrightarrow> quiet s \<and> cur_co_ctx s = Some c \<and> sinv (Some c) s"
| "mode_inv (MPosted, s) \<longleftrightarrow> quiet s \<and> cur_co_ctx s = None \<and> sinv None s"
| "mode_inv (MIdle, s) \<longleftrightarrow> quiet s \<and> cur_co_ctx s = None \<and> sinv None s"
| "mode_inv (MOver rc, s) \<longleftrightarrow> refs_ok s \<and> (rc = NGX_OK_rc \<longrightarrow> released s)"

lemma refs_ok_sinv: "sinv e s \<Longrightarrow> refs_ok s"
  using sinvD(1,8) [of e s] kinds_okD(1,2,6) [of s] by (auto simp: refs_ok_def)

lemma refs_ok_cong:
  assumes "refs_ok s" "next_co s' = next_co s" "uthreads s' = uthreads s"
    "\<And>d. is_uthread (coctx s' d) = is_uthread (coctx s d)" "\<And>d. co_ref (coctx s' d) = co_ref (coctx s d)"
  shows "refs_ok s'"
  using assms(1) unfolding refs_ok_def count_exact_def anchored_def is_thread_def assms(2-5) .

lemma sinv_released:
  assumes "sinv None s" "uthreads s = 0" "stat s 0 = CO_DEAD"
  shows "released s"
proof -
  note v = sinvD [OF assms(1)]
  have "finite (anchored s)" by (simp add: anchored_def)
  then have "anchored s = {}" using v(8) assms(2) by (simp add: count_exact_def)
  then have "\<not> co_ref (coctx s c)" if "c < next_co s" for c
    using kinds_okD(6) [OF v(1) that] that assms(3) by (auto simp: anchored_def is_thread_def)
  then show ?thesis using assms(2) by (simp add: released_def)
qed

text \<open>Releasing all threads of a session.\<close>

lemma drop_thread_simps [simp]:
  "next_co (drop_thread y s) = next_co s" "uthreads (drop_thread y s) = uthreads s - 1"
  "is_uthread (coctx (drop_thread y s) d) = is_uthread (coctx s d)"
  "co_ref (coctx (drop_thread y s) d) = (d \<noteq> y \<and> co_ref (coctx s d))"
  by (simp_all add: drop_thread_def del_thread_def)

lemma finalize_users_frame:
  "next_co (finalize_users ys s) = next_co s" "is_uthread (coctx (finalize_users ys s) d) = is_uthread (coctx s d)"
  "co_ref (coctx (finalize_users ys s) d) = (d \<notin> set ys \<and> co_ref (coctx s d))"
  by (induction ys arbitrary: s) auto

lemma finalize_users_count:
  assumes "distinct ys"
  shows "uthreads (finalize_users ys s) = uthreads s - int (card {y \<in> set ys. co_ref (coctx s y)})"
  using assms
proof (induction ys arbitrary: s)
  case (Cons y ys)
  have same: "{z \<in> set ys. co_ref (coctx (drop_thread y (cleanup_pending y s)) z)} = {z \<in> set ys. co_ref (coctx s z)}"
    using Cons.prems by auto
  have "{z \<in> set (y # ys). co_ref (coctx s z)} = (if co_ref (coctx s y) then insert y else id) {z \<in> set ys. co_ref (coctx s z)}" by auto
  then show ?case using Cons same by auto
qed simp

lemma finalize_releases:
  assumes "refs_ok s"
  shows "released (finalize_threads s) \<and> refs_ok (finalize_threads s)"
proof -
  let ?ys = "[1..<next_co s]"
  have r: "0 < next_co s" "\<not> is_uthread (coctx s 0)" "\<And>c. c < next_co s \<Longrightarrow> co_ref (coctx s c) \<Longrightarrow> is_thread c s" "uthreads s = int (card (anchored s))"
    using assms by (auto simp: refs_ok_def count_exact_def)
  have "{y \<in> set ?ys. co_ref (coctx s y)} = anchored s"
  proof -
    have "1 \<le> c \<and> c < next_co s \<and> co_ref (coctx s c) \<longleftrightarrow> c \<in> anchored s" for c
      using r(2) r(3) [of c] by (cases "c = 0") (auto simp: anchored_def is_thread_def)
    then show ?thesis by auto
  qed
  then have u: "uthreads (finalize_users ?ys s) = 0" using finalize_users_count [of ?ys s] r(4) by simp
  have ref: "\<not> co_ref (coctx (finalize_threads s) c)" if "c < next_co s" for c
    using that by (cases "c = 0") (auto simp: finalize_threads_def Let_def finalize_users_frame del_thread_def)
  have fr: "next_co (finalize_threads s) = next_co s" "uthreads (finalize_threads s) = 0" "\<not> is_uthread (coctx (finalize_threads s) 0)"
    using u r(2) by (auto simp: finalize_threads_def Let_def finalize_users_frame del_thread_def)
  have "anchored (finalize_threads s) = {}" using ref fr(1) by (auto simp: anchored_def)
  then show ?thesis using ref fr r(1) by (auto simp: released_def refs_ok_def count_exact_def)
qed

text \<open>What executes has no operation pending.\<close>

lemma exec_cleanup:
  assumes "sinv (Some c) s"
  shows "\<not> cleanup (coctx s c)" "cleanup_pending c s = s"
proof -
  show n: "\<not> cleanup (coctx s c)" using pend_okD(3) [OF sinvD(5) [OF assms]] exec_okD(1) [OF sinvD(7) [OF assms]] by auto
  then have "(coctx s c)\<lparr>cleanup := False\<rparr> = coctx s c" by simp
  then show "cleanup_pending c s = s" by simp
qed

text \<open>The zombies of the executing coroutine are released.\<close>

lemma cleanup_zombies_commute:
  "c \<notin> set ys \<Longrightarrow> cleanup_zombies ys (upd c f s) = upd c f (cleanup_zombies ys s)"
proof (induction ys arbitrary: s)
  case (Cons y ys)
  have "drop_thread y (upd c f s) = upd c f (drop_thread y s)"
    using Cons.prems by (auto simp: drop_thread_def del_thread_def fun_upd_twist)
  moreover have "co_ref (coctx (upd c f s) y) = co_ref (coctx s y)" using Cons.prems by simp
  ultimately show ?case using Cons by simp
qed simp

lemma cleanup_zombies_ok:
  assumes "sinv (Some c) s" "\<And>y. y \<in> set ys \<Longrightarrow> y < next_co s \<and> is_uthread (coctx s y) \<and> \<not> alive s y"
  shows "sinv (Some c) (cleanup_zombies ys s) \<and> coctx (cleanup_zombies ys s) c = coctx s c \<and> cur_co_ctx (cleanup_zombies ys s) = cur_co_ctx s \<and>
    co_op (cleanup_zombies ys s) = co_op s \<and> exited (cleanup_zombies ys s) = exited s"
  using assms
proof (induction ys arbitrary: s)
  case (Cons y ys)
  have y: "y < next_co s" "is_uthread (coctx s y)" "\<not> alive s y" using Cons.prems(2) [of y] by simp_all
  have ne: "y \<noteq> c" using y(3) exec_okD(4) [OF sinvD(7) [OF Cons.prems(1)]] by auto
  let ?s = "if co_ref (coctx s y) then drop_thread y s else s"
  have "sinv (Some c) ?s"
  proof (cases "co_ref (coctx s y)")
    case True
    then have "stat s y \<noteq> CO_DEAD" using kinds_okD(6) [OF sinvD(1) [OF Cons.prems(1)] y(1)] by simp
    moreover have "stat s y \<noteq> CO_NORMAL" using y(3) by (auto simp: co_alive_def)
    moreover have "\<not> cleanup (coctx s y)" using pend_okD(1) [OF sinvD(5) [OF Cons.prems(1)] y(1)] y(3) by auto
    ultimately have "sinv (Some c) (drop_thread y s)"
      using ne True by (intro sinv_drop [OF Cons.prems(1) y(1,2), of _ _ "co_stack (coctx s y)"]) (auto intro!: ext co_ctx.equality simp: drop_thread_def del_thread_def)
    then show ?thesis using True by simp
  qed (use Cons.prems(1) in simp)
  moreover have "z < next_co ?s \<and> is_uthread (coctx ?s z) \<and> \<not> alive ?s z" if "z \<in> set ys" for z
    using Cons.prems(2) [of z] that by (auto simp: drop_thread_def del_thread_def co_alive_def)
  ultimately have "sinv (Some c) (cleanup_zombies ys ?s) \<and> coctx (cleanup_zombies ys ?s) c = coctx ?s c \<and> cur_co_ctx (cleanup_zombies ys ?s) = cur_co_ctx ?s \<and>
    co_op (cleanup_zombies ys ?s) = co_op ?s \<and> exited (cleanup_zombies ys ?s) = exited ?s"
    by (rule Cons.IH)
  then show ?case using ne by (simp add: drop_thread_def del_thread_def)
qed simp

text \<open>The end of a light thread.\<close>

lemma sinv_none_cur: "sinv None s \<Longrightarrow> sinv None (s\<lparr>cur_co_ctx := x\<rparr>)"
  by (rule sinv_cong) simp_all

lemma again_ok: "sinv None s \<Longrightarrow> quiet s \<Longrightarrow> mode_inv (again s)"
  by (simp add: again_def sinv_none_cur quiet_def)

lemma thread_gone_ok:
  assumes "sinv (Some c) s" "is_uthread (coctx s c)" "quiet s" "set zs \<subseteq> set (zombie_child_threads (coctx s c))"
    "s2 = upd c (\<lambda>x. x\<lparr>co_status := CO_DEAD, zombie_child_threads := zs\<rparr>) s"
  shows "mode_inv (thread_gone c s2)"
proof -
  note v = sinvD [OF assms(1)]
  have r: "co_ref (coctx s c)"
    using kinds_okD(6) [OF v(1) exec_okD(1) [OF v(7)]] exec_okD(2) [OF v(7)] assms(2) by (simp add: is_thread_def)
  have i: "sinv None (drop_thread c s2)"
    by (rule sinv_end [OF assms(1), where t = CO_DEAD and r = False and zs = zs and vs = "co_stack (coctx s c)" and k = "co_cont (coctx s c)" and b = "at s c"
          and w = "waited_by_parent (coctx s c)"])
      (use assms(2,4) r in \<open>auto intro!: ext co_ctx.equality simp: is_thread_def drop_thread_def del_thread_def assms(5)\<close>)
  have q: "quiet (drop_thread c s2)" using assms(3) by (simp add: quiet_def drop_thread_def del_thread_def assms(5))
  have "refs_ok (drop_thread c s2)" by (rule refs_ok_sinv [OF i])
  moreover have "released (drop_thread c s2)" if "uthreads (drop_thread c s2) = 0" "\<not> co_ref (coctx (drop_thread c s2) 0)"
  proof -
    have "stat (drop_thread c s2) 0 = CO_DEAD"
      using kinds_okD(1) [OF sinvD(1) [OF i]] kinds_okD(6) [OF sinvD(1) [OF i], of 0] that(2) by (simp add: is_thread_def)
    then show ?thesis using sinv_released [OF i that(1)] by simp
  qed
  ultimately show ?thesis using again_ok [OF i q] by (simp add: thread_gone_def Let_def)
qed

lemma uthread_end_ok:
  assumes "sinv (Some c) s" "is_uthread (coctx s c)" "quiet s" "set zs \<subseteq> set (zombie_child_threads (coctx s c))"
    "s2 = upd c (\<lambda>x. x\<lparr>co_status := CO_DEAD, zombie_child_threads := zs\<rparr>) s"
  shows "\<exists>st'. uthread_end mem c ok s2 = Some st' \<and> mode_inv st'"
proof -
  note v = sinvD [OF assms(1)]
  note x = exec_okD [OF v(7)]
  obtain p where p: "p \<noteq> c" "parent s c = Some p" using kinds_okD(4) [OF v(1) x(1) assms(2)] by blast
  have r: "co_ref (coctx s c)" using kinds_okD(6) [OF v(1) x(1)] x(2) assms(2) by (simp add: is_thread_def)
  have ne: "p \<noteq> c" and pn: "p < next_co s" using p kinds_okD(7) [OF v(1) x(1) p(2)] by simp_all
  have par: "parent s2 c = Some p" "alive s2 p = alive s p" "waited_by_parent (coctx s2 c) = waited_by_parent (coctx s c)"
    using p ne by (simp_all add: assms(5))
  consider "\<not> alive s p" | "alive s p" "waited_by_parent (coctx s c)" | "alive s p" "\<not> waited_by_parent (coctx s c)" by blast
  then show ?thesis
  proof cases
    case 1
    then show ?thesis using thread_gone_ok [OF assms] par by (simp add: uthread_end_def)
  next
    case 2
    have w: "at s p = Some (Wait [c])" using waits_okD(2) [OF v(4) x(1) 2(2) x(4) p(2) 2(1)] .
    define s3 where "s3 = s\<lparr>coctx := (coctx s)(c := (coctx s c)\<lparr>co_status := CO_DEAD, co_ref := False, co_stack := [], waited_by_parent := False,
      zombie_child_threads := zs\<rparr>), uthreads := uthreads s - 1\<rparr>"
    have i3: "sinv None s3"
      by (rule sinv_end [OF assms(1), where t = CO_DEAD and r = False and zs = zs and vs = "[]" and k = "co_cont (coctx s c)" and b = "at s c" and w = False])
        (use assms(2,4) in \<open>auto intro!: ext co_ctx.equality simp: is_thread_def s3_def\<close>)
    note v3 = sinvD [OF i3]
    have cp: "coctx s3 p = coctx s p" "next_co s3 = next_co s" using ne by (simp_all add: s3_def)
    have f: "frame_ok s3 p" "co_cont (coctx s p) \<noteq> None" "\<not> thread_spawn_yielded (coctx s p)"
      using frames_okD [OF v3(2), of p] pn 2(1) w by (simp_all add: cp)
    have rp: "stat s p = CO_RUNNING" using f(1) w by (simp add: frame_ok_def cp)
    have cl: "\<not> cleanup (coctx s p)" using pend_okD(2) [OF v(5) pn] w by auto
    have np: "p \<notin> set (posted_threads s)" using posted_okD(4) [OF v(6), of p] 2(1) w by auto
    let ?vs = "lbool ok # co_stack (coctx s c)"
    let ?s' = "s3\<lparr>coctx := (coctx s3)(p := (coctx s3 p)\<lparr>cleanup := False, thread_spawn_yielded := False, co_stack := co_stack (coctx s p) @ ?vs\<rparr>)\<rparr>"
    have nw: "False" if "d < next_co s3" "waited_by_parent (coctx s3 d)" "parent s3 d = Some p" "alive s3 d" for d
    proof -
      have "at s3 p = Some (Wait [d])" using waits_okD(2) [OF v3(4) that(1,2,4,3)] 2(1) by (simp add: cp)
      then have "d = c" using w by (simp add: cp)
      then show False using that(4) by (simp add: s3_def co_alive_def)
    qed
    have "sinv (Some p) ?s'"
      by (rule sinv_activate [OF i3, of p, where vs = "co_stack (coctx s p) @ ?vs"])
        (use pn rp nw np in \<open>auto simp: cp s3_def ne\<close>)
    then have i': "sinv (Some p) (?s'\<lparr>cur_co_ctx := Some p\<rparr>)" by (rule sinv_cong) simp_all
    have "uthread_end mem c ok s2 = Some (user_co_done c ok (upd c (\<lambda>x. x\<lparr>waited_by_parent := False\<rparr>) s2))"
      using 2 par by (simp add: uthread_end_def)
    moreover have "user_co_done c ok (upd c (\<lambda>x. x\<lparr>waited_by_parent := False\<rparr>) s2) = (MResume (length (co_stack (coctx s c)) + 1), ?s'\<lparr>cur_co_ctx := Some p\<rparr>)"
      using p ne assms(2) r rp cl f(3)
      by (auto intro!: sched.equality ext co_ctx.equality simp: user_co_done_def Let_def assms(5) s3_def drop_thread_def del_thread_def)
    ultimately show ?thesis using i' f(2) assms(3) by (auto simp: quiet_def cp s3_def ne)
  next
    case 3
    let ?x = "(coctx s c)\<lparr>co_status := CO_ZOMBIE, co_stack := lbool ok # co_stack (coctx s c), zombie_child_threads := zs\<rparr>"
    let ?s3 = "s\<lparr>coctx := (coctx s)(c := ?x)\<rparr>"
    have i3: "sinv None ?s3"
      by (rule sinv_end [OF assms(1), where t = CO_ZOMBIE and r = True and zs = zs and vs = "lbool ok # co_stack (coctx s c)" and k = "co_cont (coctx s c)"
            and b = "at s c" and w = "waited_by_parent (coctx s c)"])
        (use assms(2,4) r in \<open>auto intro!: ext co_ctx.equality simp: is_thread_def\<close>)
    let ?s4 = "?s3\<lparr>coctx := (coctx ?s3)(p := (coctx ?s3 p)\<lparr>zombie_child_threads := zombie_child_threads (coctx s p) @ [c]\<rparr>)\<rparr>"
    have zp: "y < next_co ?s3 \<and> is_uthread (coctx ?s3 y) \<and> \<not> alive ?s3 y" if "y \<in> set (zombie_child_threads (coctx s p) @ [c])" for y
      using kinds_okD(8) [OF v(1) pn, of y] that x(1) assms(2) by (auto simp: co_alive_def)
    have i4: "sinv None ?s4"
      by (rule sinv_zombies [OF i3 _ zp, where p = p and zs = "zombie_child_threads (coctx s p) @ [c]"]) (use pn ne in simp_all)
    have "refs_ok s2" by (rule refs_ok_cong [OF refs_ok_sinv [OF assms(1)]]) (simp_all add: assms(5))
    moreover have "upd c (\<lambda>x. x\<lparr>co_stack := lbool ok # co_stack x, co_status := CO_ZOMBIE\<rparr>)
        (upd p (\<lambda>x. x\<lparr>zombie_child_threads := zombie_child_threads x @ [c]\<rparr>) s2) = ?s4"
      using ne by (auto intro!: sched.equality ext co_ctx.equality simp: assms(5))
    moreover have "quiet ?s4" using assms(3) by (simp add: quiet_def)
    ultimately show ?thesis using 3 par again_ok [OF i4] by (simp add: uthread_end_def NGX_OK_rc_def NGX_ERROR_rc_def)
  qed
qed

text \<open>The end of a coroutine that is not a light thread: its parent goes on with the values and a flag.\<close>

lemma user_end_ok:
  assumes "sinv (Some c) s" "\<not> is_thread c s" "quiet s" "set zs \<subseteq> set (zombie_child_threads (coctx s c))" "parent s c = Some p"
    "coctx s' = (coctx s)(c := (coctx s c)\<lparr>co_status := CO_DEAD, co_stack := ws, zombie_child_threads := zs\<rparr>,
       p := (coctx s p)\<lparr>co_status := CO_RUNNING, co_stack := co_stack (coctx s p) @ vs\<rparr>)"
    "next_co s' = next_co s" "posted_threads s' = posted_threads s" "uthreads s' = uthreads s" "cur_co_ctx s' = Some p"
    "co_op s' = co_op s" "exited s' = exited s" "n \<le> length vs"
  shows "mode_inv (MResume n, s')"
proof -
  have "\<exists>a. p \<noteq> c \<and> co_cont (coctx s p) \<noteq> None" using exec_parent [OF assms(1,2)] assms(5) by auto
  then have ne: "p \<noteq> c" "co_cont (coctx s p) \<noteq> None" by auto
  have "sinv (Some p) s'"
    by (rule sinv_return [OF assms(1,2,5,6), where t = CO_DEAD and vs = ws and k = "co_cont (coctx s c)" and b = "at s c" and zs = zs
          and ws = "co_stack (coctx s p) @ vs"]) (use assms(4,7-9) in \<open>auto intro!: co_ctx.equality\<close>)
  then show ?thesis using ne assms(3,10-13) by (auto simp: quiet_def assms(6))
qed

lemma after_finish_ok:
  assumes "sinv (Some c) s" "quiet s" "cur_co_ctx s = Some c"
  shows "\<exists>st'. after_finish mem s = Some st' \<and> mode_inv st'"
proof -
  note v = sinvD [OF assms(1)]
  note x = exec_okD [OF v(7)]
  define zs where "zs = zombie_child_threads (coctx s c)"
  define s1 where "s1 = cleanup_zombies zs s"
  have z: "y < next_co s \<and> is_uthread (coctx s y) \<and> \<not> alive s y" if "y \<in> set zs" for y using kinds_okD(8) [OF v(1) x(1)] that by (simp add: zs_def)
  have s1: "sinv (Some c) s1" "coctx s1 c = coctx s c" "cur_co_ctx s1 = Some c" "quiet s1"
    using cleanup_zombies_ok [OF assms(1) z] assms(2,3) by (simp_all add: s1_def quiet_def)
  have nc: "c \<notin> set zs" using z [of c] x(4) by blast
  let ?s2 = "upd c (\<lambda>x. x\<lparr>co_status := CO_DEAD, zombie_child_threads := []\<rparr>) s1"
  have eq: "cleanup_zombie_child_uthreads c (set_status c CO_DEAD (cleanup_pending c s)) = ?s2"
  proof -
    have "zombie_child_threads (coctx (set_status c CO_DEAD s) c) = zs" by (simp add: zs_def)
    then show ?thesis
      unfolding exec_cleanup(2) [OF assms(1)] cleanup_zombie_child_uthreads_def
      using cleanup_zombies_commute [OF nc, of "\<lambda>x. x\<lparr>co_status := CO_DEAD\<rparr>" s]
      by (auto intro!: sched.equality ext co_ctx.equality simp: s1_def)
  qed
  have step: "after_finish mem s = (if c = 0 then Some (if uthreads s1 \<noteq> 0 then again (del_thread 0 ?s2) else (MOver NGX_OK_rc, del_thread 0 ?s2))
      else if is_uthread (coctx s c) then uthread_end mem c True ?s2 else Some (user_co_done c True ?s2))"
  proof -
    have "uthreads (del_thread 0 ?s2) = uthreads s1" "is_uthread (coctx ?s2 c) = is_uthread (coctx s c)" by (simp_all add: del_thread_def s1(2))
    then show ?thesis by (simp only: after_finish_def assms(3) bind.bind_lunit Let_def eq)
  qed
  show ?thesis
  proof (cases "c = 0")
    case True
    have t0: "is_thread 0 s1" by (simp add: is_thread_def)
    have u0: "\<not> is_uthread (coctx s1 0)" using kinds_okD(2) [OF sinvD(1) [OF s1(1)]] .
    have r0: "co_ref (coctx s1 0)" using kinds_okD(6) [OF sinvD(1) [OF s1(1)] exec_okD(1) [OF sinvD(7) [OF s1(1)]]] exec_okD(2) [OF sinvD(7) [OF s1(1)]] t0 True by simp
    have i: "sinv None (del_thread 0 ?s2)"
      by (rule sinv_end [OF s1(1), where t = CO_DEAD and r = False and zs = "[]" and vs = "co_stack (coctx s1 0)" and k = "co_cont (coctx s1 0)" and b = "at s1 0"
            and w = "waited_by_parent (coctx s1 0)"])
        (use u0 r0 t0 True waits_thread [OF sinvD(4) [OF s1(1)], of 0] exec_okD(1) [OF sinvD(7) [OF s1(1)]] in
          \<open>auto intro!: ext co_ctx.equality simp: del_thread_def split: if_splits\<close>)
    have q: "quiet (del_thread 0 ?s2)" using s1(4) by (simp add: quiet_def del_thread_def)
    have "released (del_thread 0 ?s2)" if "uthreads s1 = 0"
      using sinv_released [OF i] that by (simp add: del_thread_def True)
    then show ?thesis using step True again_ok [OF i q] refs_ok_sinv [OF i] by (simp del: upd_defs)
  next
    case ne: False
    show ?thesis
    proof (cases "is_uthread (coctx s c)")
      case True
      then show ?thesis using step ne uthread_end_ok [OF s1(1) _ s1(4), of "[]" ?s2 mem True] by (simp add: s1(2))
    next
      case False
      then have nt: "\<not> is_thread c s1" using ne by (simp add: is_thread_def s1(2))
      obtain p where p: "parent s1 c = Some p" "p \<noteq> c" using exec_parent [OF s1(1) nt] by blast
      let ?vs = "lbool True # co_stack (coctx s c)"
      let ?s' = "set_status p CO_RUNNING ((clear_stack c (push p ?vs ?s2))\<lparr>cur_co_ctx := Some p\<rparr>)"
      have "mode_inv (MResume (length (co_stack (coctx s c)) + 1), ?s')"
        by (rule user_end_ok [OF s1(1) nt s1(4), where zs = "[]" and p = p and ws = "[]" and vs = ?vs])
          (use p s1(2) in \<open>auto intro!: ext co_ctx.equality\<close>)
      moreover have "user_co_done c True ?s2 = (MResume (length (co_stack (coctx s c)) + 1), ?s')"
        using p False by (simp add: user_co_done_def Let_def s1(2))
      ultimately show ?thesis using step ne False by (simp del: upd_defs)
    qed
  qed
qed

text \<open>The end of a coroutine with an error.\<close>

lemma finalize_over:
  assumes "sinv e s" "next_co s' = next_co s" "uthreads s' = uthreads s" "\<And>d. is_uthread (coctx s' d) = is_uthread (coctx s d)"
    "\<And>d. co_ref (coctx s' d) = co_ref (coctx s d)"
  shows "mode_inv (MOver rc, finalize_threads s')"
  using finalize_releases [OF refs_ok_cong [OF refs_ok_sinv [OF assms(1)] assms(2-5)]] by simp

lemma after_error_ok:
  assumes "sinv (Some c) s" "quiet s" "cur_co_ctx s = Some c" "co_stack (coctx s c) \<noteq> []"
  shows "\<exists>st'. after_error mem c s = Some st' \<and> mode_inv st'"
proof -
  let ?s2 = "upd c (\<lambda>x. x\<lparr>co_status := CO_DEAD, zombie_child_threads := zombie_child_threads (coctx s c)\<rparr>) s"
  have s2: "set_status c CO_DEAD (cleanup_pending c (s\<lparr>cur_co_ctx := Some c\<rparr>)) = ?s2"
    using exec_cleanup(1) [OF assms(1)] assms(3) by (auto intro!: sched.equality ext co_ctx.equality)
  consider "is_uthread (coctx s c)" | "\<not> is_uthread (coctx s c)" "c = 0" | "\<not> is_thread c s" "\<not> is_uthread (coctx s c)" "c \<noteq> 0" by (auto simp: is_thread_def)
  then show ?thesis
  proof cases
    case 1
    then have "after_error mem c s = uthread_end mem c False ?s2" unfolding after_error_def s2 by (simp add: Let_def)
    then show ?thesis using uthread_end_ok [OF assms(1) 1 assms(2) subset_refl, of ?s2 mem False] by (simp del: upd_defs)
  next
    case 2
    have "mode_inv (MOver NGX_ERROR_rc, finalize_threads ?s2)" by (rule finalize_over [OF assms(1)]) simp_all
    then show ?thesis using 2 unfolding after_error_def s2 by (simp add: Let_def)
  next
    case 3
    obtain p where p: "parent s c = Some p" "p \<noteq> c" using exec_parent [OF assms(1) 3(1)] by blast
    let ?vs = "[lbool False, last (co_stack (coctx s c))]"
    let ?s' = "(clear_stack c (push p ?vs (set_status p CO_RUNNING ?s2)))\<lparr>cur_co_ctx := Some p\<rparr>"
    have "mode_inv (MResume 2, ?s')"
      by (rule user_end_ok [OF assms(1) 3(1) assms(2) subset_refl p(1), where ws = "[]" and vs = ?vs]) (use p(2) in \<open>auto intro!: ext co_ctx.equality\<close>)
    moreover have "after_error mem c s = Some (MResume 2, ?s')"
      using 3 p unfolding after_error_def s2 by (simp add: Let_def)
    ultimately show ?thesis by blast
  qed
qed

text \<open>The functions of the API.\<close>

lemma again_eq: "after_yield mem s = Some (again s)" if "quiet s"
  using that by (simp add: after_yield_def quiet_def)

lemma block_ok:
  assumes "sinv (Some c) s" "cur_co_ctx s = Some c" "quiet s"
  shows "\<exists>st'. lua_step mem c (Call Block k) s = Some st' \<and> mode_inv st'"
proof -
  let ?s' = "upd c (\<lambda>x. x\<lparr>cleanup := True, co_stack := [], co_cont := Some (\<lambda>ws. k (Inr ws)), co_at := Some Block\<rparr>) s"
  have i: "sinv None ?s'"
    by (rule sinv_park [OF assms(1), where vs = "[]" and k = "\<lambda>ws. k (Inr ws)" and a = Block])
      (use exec_okD(3) [OF sinvD(7) [OF assms(1)]] in \<open>auto intro!: ext co_ctx.equality simp: parks_def posts_def\<close>)
  have q: "quiet ?s'" using assms(3) by (simp add: quiet_def)
  have "lua_step mem c (Call Block k) s = after_yield mem ?s'"
    using assms(2) by (simp add: lua_step_def api_call_def block_def)
  then show ?thesis using again_eq [OF q] again_ok [OF i q] by (simp del: upd_defs)
qed

lemma wait_ok:
  assumes "sinv (Some c) s" "cur_co_ctx s = Some c" "quiet s" "length ys \<le> 1"
  shows "\<exists>st'. lua_step mem c (Call (Wait ys) k) s = Some st' \<and> mode_inv st'"
proof -
  note v = sinvD [OF assms(1)]
  let ?s' = "upd c (\<lambda>x. x\<lparr>co_stack := [], co_cont := Some (\<lambda>ws. k (Inr ws)), co_at := Some (Wait ys)\<rparr>) s"
  have i: "sinv None ?s'"
    by (rule sinv_park [OF assms(1), where vs = "[]" and k = "\<lambda>ws. k (Inr ws)" and a = "Wait ys"])
      (use exec_okD(3) [OF v(7)] exec_cleanup(1) [OF assms(1)] assms(4) in \<open>auto intro!: ext co_ctx.equality simp: parks_def posts_def\<close>)
  have q: "quiet ?s'" using assms(3) by (simp add: quiet_def)
  have eq: "lua_step mem c (Call (Wait ys) k) s = (case wait_loop c ys s of
      (AErr e, s) \<Rightarrow> Some (MLua c (k (Inl e)), s) | (ARet vs, s) \<Rightarrow> Some (MLua c (k (Inr vs)), s)
    | (AYield vs, s) \<Rightarrow> after_yield mem (upd c (\<lambda>x. x\<lparr>co_stack := vs, co_cont := Some (\<lambda>ws. k (Inr ws)), co_at := Some (Wait ys)\<rparr>) s))"
    using assms(2) by (simp add: lua_step_def api_call_def uthread_wait_def split: prod.splits api_out.splits)
  show ?thesis
  proof (cases ys)
    case Nil
    then show ?thesis using eq again_eq [OF q] again_ok [OF i q] by (simp del: upd_defs)
  next
    case (Cons y zs)
    then have ys: "ys = [y]" using assms(4) by simp
    let ?x = "coctx s y"
    consider "\<not> (y < next_co s \<and> is_uthread ?x \<and> parent s y = Some c)" | "y < next_co s" "is_uthread ?x" "parent s y = Some c" "stat s y = CO_DEAD"
      | "y < next_co s" "is_uthread ?x" "parent s y = Some c" "stat s y = CO_ZOMBIE"
      | "y < next_co s" "is_uthread ?x" "parent s y = Some c" "alive s y" by (auto simp: co_alive_def)
    then show ?thesis
    proof cases
      case 1
      then have "\<exists>e. wait_loop c ys s = (AErr e, s)" by (auto simp: ys get_co_ctx_def)
      then show ?thesis using eq assms by auto
    next
      case 2
      then have "wait_loop c ys s = (ARet [lnil, lstr ''already waited or killed''], s)" by (simp add: ys get_co_ctx_def)
      then show ?thesis using eq assms by simp
    next
      case 3
      let ?s3 = "drop_thread y (upd y (\<lambda>x. x\<lparr>co_stack := []\<rparr>) s)"
      have r: "co_ref ?x" using kinds_okD(6) [OF v(1) 3(1)] 3(2,4) by (simp add: is_thread_def)
      have ne: "y \<noteq> c" using exec_okD(2) [OF v(7)] 3(4) by auto
      have cl: "\<not> cleanup ?x" using pend_okD(1) [OF v(5) 3(1)] 3(4) by (auto simp: co_alive_def)
      have "sinv (Some c) ?s3"
        by (rule sinv_drop [OF assms(1) 3(1,2), where vs = "[]"])
          (use 3(4) ne r cl in \<open>auto intro!: ext co_ctx.equality simp: drop_thread_def del_thread_def\<close>)
      moreover have "wait_loop c ys s = (ARet (co_stack ?x), ?s3)" using 3 by (simp add: ys get_co_ctx_def)
      moreover have "quiet ?s3" "cur_co_ctx ?s3 = Some c" using assms(2,3) by (simp_all add: quiet_def drop_thread_def del_thread_def)
      ultimately show ?thesis using eq by (simp del: upd_defs)
    next
      case 4
      have ne: "y \<noteq> c" using kinds_okD(4) [OF v(1) 4(1,2)] 4(3) by auto
      let ?s4 = "upd y (\<lambda>x. x\<lparr>waited_by_parent := True\<rparr>) ?s'"
      have i4: "sinv None ?s4"
        by (rule sinv_mark [OF i, where p = c and y = y]) (use 4 ne ys in simp_all)
      have q4: "quiet ?s4" using assms(3) by (simp add: quiet_def)
      have "wait_loop c ys s = (AYield [], upd y (\<lambda>x. x\<lparr>waited_by_parent := True\<rparr>) s)"
        using 4 by (auto simp: ys get_co_ctx_def co_alive_def)
      then have "lua_step mem c (Call (Wait ys) k) s = after_yield mem ?s4"
        using eq ne by (simp add: fun_upd_twist)
      then show ?thesis using again_eq [OF q4] again_ok [OF i4 q4] by (simp del: upd_defs)
    qed
  qed
qed

lemma kill_ok:
  assumes "sinv (Some c) s" "cur_co_ctx s = Some c" "quiet s" "stat s y \<noteq> CO_NORMAL"
  shows "\<exists>st'. lua_step mem c (Call (Kill y) k) s = Some st' \<and> mode_inv st'"
proof -
  note v = sinvD [OF assms(1)]
  let ?x = "coctx s y"
  consider "\<not> (y < next_co s \<and> is_uthread ?x \<and> parent s y = Some c) \<or> stat s y = CO_DEAD"
    | "y < next_co s" "is_uthread ?x" "parent s y = Some c" "stat s y \<noteq> CO_DEAD" by blast
  then show ?thesis
  proof cases
    case 1
    then have "\<exists>r. uthread_kill y s = Some (r, s) \<and> (\<forall>vs. r \<noteq> AYield vs)"
      using assms(2) by (auto simp: uthread_kill_def get_co_ctx_def)
    then show ?thesis using assms by (auto simp: lua_step_def api_call_def split: api_out.splits)
  next
    case 2
    have ne: "y \<noteq> c" using kinds_okD(4) [OF v(1) 2(1,2)] 2(3) by auto
    have r: "co_ref ?x" using kinds_okD(6) [OF v(1) 2(1)] 2(2,4) by (simp add: is_thread_def)
    let ?s' = "drop_thread y (cleanup_pending y s)"
    have i: "sinv (Some c) ?s'"
      by (rule sinv_drop [OF assms(1) 2(1,2), where vs = "co_stack ?x"])
        (use 2(4) assms(4) ne r in \<open>auto intro!: ext co_ctx.equality simp: drop_thread_def del_thread_def\<close>)
    have q: "quiet ?s'" "cur_co_ctx ?s' = Some c" using assms(2,3) by (simp_all add: quiet_def drop_thread_def del_thread_def)
    have "cleanup_pending y s = s" if "stat s y = CO_ZOMBIE"
    proof -
      have "\<not> cleanup ?x" using pend_okD(1) [OF v(5) 2(1)] that by (auto simp: co_alive_def)
      then have "?x\<lparr>cleanup := False\<rparr> = ?x" by simp
      then show ?thesis by simp
    qed
    then have "uthread_kill y s = Some (ARet (if stat s y = CO_ZOMBIE then [lnil, lstr ''already terminated''] else [LV (LNumber (num_of_int 1))]), ?s')"
      using assms(2) 2 by (auto simp: uthread_kill_def get_co_ctx_def simp del: upd_defs)
    then show ?thesis using i q by (simp add: lua_step_def api_call_def del: upd_defs)
  qed
qed

lemma resume_ok:
  assumes "sinv (Some c) s" "cur_co_ctx s = Some c" "quiet s"
  shows "\<exists>st'. lua_step mem c (Call (Resume y args) k) s = Some st' \<and> mode_inv st'"
proof (cases "y < next_co s \<and> stat s y = CO_SUSPENDED")
  case False
  then have "\<exists>r. co_resume y args s = (r, s) \<and> (\<forall>vs. r \<noteq> AYield vs)"
    using assms(2) by (auto simp: co_resume_def get_co_ctx_def)
  then show ?thesis using assms by (auto simp: lua_step_def api_call_def split: api_out.splits)
next
  case True
  let ?s' = "s\<lparr>coctx := (coctx s)(c := (coctx s c)\<lparr>co_status := CO_NORMAL, co_stack := [], co_cont := Some (\<lambda>ws. k (Inr ws)), co_at := Some (Resume y args)\<rparr>,
      y := (coctx s y)\<lparr>parent_co_ctx := Some c, co_status := CO_RUNNING, co_stack := co_stack (coctx s y) @ args\<rparr>)\<rparr>"
  have "sinv (Some y) ?s' \<and> co_cont (coctx s y) \<noteq> None \<and> y \<noteq> c"
    by (rule sinv_resume [OF assms(1), where vs = "[]" and ws = "co_stack (coctx s y) @ args"]) (use True in simp_all)
  then have i: "sinv (Some y) (?s'\<lparr>cur_co_ctx := Some y\<rparr>)" "co_cont (coctx s y) \<noteq> None" "y \<noteq> c" by (auto intro: sinv_cong)
  have "lua_step mem c (Call (Resume y args) k) s = Some (MResume (length args), ?s'\<lparr>cur_co_ctx := Some y\<rparr>)"
    using assms(2,3) True i(3)
    by (auto intro!: sched.equality ext co_ctx.equality
        simp: lua_step_def api_call_def co_resume_def get_co_ctx_def after_yield_def quiet_def Let_def)
  then show ?thesis using i assms(3) by (simp add: quiet_def)
qed

lemma yield_ok:
  assumes "sinv (Some c) s" "cur_co_ctx s = Some c" "quiet s" "mem 1"
  shows "\<exists>st'. lua_step mem c (Call (Yield args) k) s = Some st' \<and> mode_inv st'"
proof (cases "is_thread c s")
  case True
  note v = sinvD [OF assms(1)]
  let ?s' = "s\<lparr>coctx := (coctx s)(c := (coctx s c)\<lparr>co_stack := [], co_cont := Some (\<lambda>ws. k (Inr ws)), co_at := Some (Yield args)\<rparr>)\<rparr>"
  have par: "\<not> is_uthread (coctx s c) \<Longrightarrow> parent s c = None" using True kinds_okD(3) [OF v(1)] by (auto simp: is_thread_def)
  have eq: "lua_step mem c (Call (Yield args) k) s =
      Some (if posted_threads s \<noteq> [] then again (post_thread c ?s') else (MResume 0, ?s'))"
  proof -
    let ?s1 = "(upd c (\<lambda>x. x\<lparr>co_status := CO_SUSPENDED\<rparr>) s)\<lparr>co_op := OP_CORO_YIELD\<rparr>"
    let ?s2 = "upd c (\<lambda>x. x\<lparr>co_stack := args, co_cont := Some (\<lambda>ws. k (Inr ws)), co_at := Some (Yield args)\<rparr>) ?s1"
    have "co_yield args s = Some (AYield args, ?s1)" using assms(2) par by (cases "parent s c") (auto simp: co_yield_def Let_def)
    then have "lua_step mem c (Call (Yield args) k) s = after_yield mem ?s2" by (simp add: lua_step_def api_call_def)
    moreover have "set_status c CO_RUNNING (clear_stack c (?s2\<lparr>co_op := OP_NOP\<rparr>)) = ?s'"
      using exec_okD(2) [OF v(7)] assms(3) by (auto intro!: sched.equality ext co_ctx.equality simp: quiet_def)
    moreover have "is_thread c (?s2\<lparr>co_op := OP_NOP\<rparr>)" "cur_co_ctx ?s2 = Some c" "\<not> exited ?s2" "co_op ?s2 = OP_CORO_YIELD"
      "posted_threads ?s' = posted_threads s"
      using True assms(2,3) by (simp_all add: is_thread_def quiet_def)
    ultimately show ?thesis using assms(4) by (simp add: after_yield_def Let_def del: upd_defs)
  qed
  have i: "sinv None (post_thread c ?s')"
    by (rule sinv_park [OF assms(1), where vs = "[]" and k = "\<lambda>ws. k (Inr ws)" and a = "Yield args"])
      (use exec_okD(3) [OF v(7)] exec_cleanup(1) [OF assms(1)] True in \<open>auto intro!: ext co_ctx.equality simp: parks_def posts_def\<close>)
  have i2: "sinv (Some c) ?s'" by (rule sinv_exec [OF assms(1) _ refl]) simp_all
  show ?thesis using eq again_ok [OF i] i2 assms(2,3) by (auto simp: quiet_def)
next
  case False
  obtain p where p: "parent s c = Some p" "p \<noteq> c" "co_cont (coctx s p) \<noteq> None" using exec_parent [OF assms(1) False] by blast
  let ?s' = "s\<lparr>coctx := (coctx s)(c := (coctx s c)\<lparr>co_status := CO_SUSPENDED, co_stack := [], co_cont := Some (\<lambda>ws. k (Inr ws)), co_at := Some (Yield args)\<rparr>,
      p := (coctx s p)\<lparr>co_status := CO_RUNNING, co_stack := co_stack (coctx s p) @ lbool True # args\<rparr>)\<rparr>"
  have "sinv (Some p) ?s'"
    by (rule sinv_return [OF assms(1) False p(1), where t = CO_SUSPENDED and vs = "[]" and k = "Some (\<lambda>ws. k (Inr ws))" and b = "Some (Yield args)"
          and zs = "zombie_child_threads (coctx s c)" and ws = "co_stack (coctx s p) @ lbool True # args"])
      (auto intro!: co_ctx.equality)
  then have i: "sinv (Some p) (?s'\<lparr>cur_co_ctx := Some p\<rparr>)" by (rule sinv_cong) simp_all
  have "lua_step mem c (Call (Yield args) k) s = Some (MResume (length args + 1), ?s'\<lparr>cur_co_ctx := Some p\<rparr>)"
    using assms(2,3) False p
    by (auto intro!: sched.equality ext co_ctx.equality
        simp: lua_step_def api_call_def co_yield_def after_yield_def quiet_def Let_def is_thread_def)
  then show ?thesis using i p assms(3) by (simp add: quiet_def)
qed

lemma reusable_parked:
  assumes "sinv (Some c) s" "reusable n s" "next_co s' = next_co s" "posted_threads s' = posted_threads s @ [c]"
    "coctx s' = (coctx s)(c := x)" "x = (coctx s c)\<lparr>co_stack := vs, co_cont := k, co_at := a, thread_spawn_yielded := b\<rparr>"
  shows "reusable n s'"
proof -
  have "n \<noteq> c" using assms(2) exec_okD(5) [OF sinvD(7) [OF assms(1)]] by (auto simp: reusable_def)
  moreover from this have "coctx s' n = coctx s n" by (simp add: assms(5))
  moreover have "zombie_child_threads (coctx s' d) = zombie_child_threads (coctx s d)" "is_uthread (coctx s' d) = is_uthread (coctx s d)"
    "alive s' d = alive s d" "parent s' d = parent s d" for d
    by (simp_all add: assms(5,6) co_alive_def)
  ultimately show ?thesis using assms(2) by (simp add: reusable_def assms(3,4))
qed

lemma spawn_ok:
  assumes "sinv (Some c) s" "cur_co_ctx s = Some c" "quiet s" "mem 1" "reuse_ok s"
  shows "\<exists>st'. lua_step mem c (Call (Spawn f args) k) s = Some st' \<and> mode_inv st'"
proof (cases "create_helper mem f s")
  case None
  then show ?thesis using assms by (simp add: lua_step_def api_call_def uthread_spawn_def)
next
  case (Some ns)
  obtain n s1 where ns: "ns = (n, s1)" by (cases ns)
  note h = create_helper_placed [OF Some [unfolded ns] assms(5)]
  note v = sinvD [OF assms(1)]
  have c: "c < next_co s" "c \<noteq> n" using exec_okD(1,5) [OF v(7)] slot_facts(3) [OF assms(1) h(1)] by blast+
  let ?x = "(coctx s c)\<lparr>co_stack := [LThread n], co_cont := Some (\<lambda>ws. k (Inr ws)), co_at := Some (Spawn f args), thread_spawn_yielded := True\<rparr>"
  let ?sp = "post_thread c (upd c (\<lambda>_. ?x) s)"
  have i: "sinv None ?sp"
    by (rule sinv_park [OF assms(1), where vs = "[LThread n]" and k = "\<lambda>ws. k (Inr ws)" and a = "Spawn f args"])
      (use exec_cleanup(1) [OF assms(1)] in \<open>auto intro!: ext co_ctx.equality simp: parks_def posts_def\<close>)
  have sl: "slot n ?sp"
  proof (cases "n = next_co s")
    case False
    then have "reusable n s" using h(1) by (simp add: slot_def)
    then have "reusable n ?sp" by (rule reusable_parked [OF assms(1)]) simp_all
    then show ?thesis unfolding slot_def by (rule disjI2)
  qed (simp add: slot_def)
  let ?y = "(fresh_co f)\<lparr>co_ref := True, co_stack := args, is_uthread := True, co_status := CO_RUNNING, parent_co_ctx := Some c\<rparr>"
  let ?s' = "s1\<lparr>coctx := (coctx s)(c := ?x, n := ?y), uthreads := uthreads s + 1, posted_threads := posted_threads s @ [c], cur_co_ctx := Some n\<rparr>"
  have pl: "placed n ?y ?sp ?s'" using h(2) by (simp add: placed_def)
  have "sinv (Some n) ?s'" by (rule sinv_thread [OF i _ c(2) sl pl]) (use c in simp_all)
  moreover have "lua_step mem c (Call (Spawn f args) k) s = Some (MResume (length args), ?s')"
    using assms(2-4) Some ns c h(2-6)
    by (auto intro!: sched.equality ext co_ctx.equality
        simp: lua_step_def api_call_def uthread_spawn_def after_yield_def co_gettop_def quiet_def Let_def placed_def fresh_co_def)
  ultimately show ?thesis using assms(3) h(5,6) by (auto simp: quiet_def fresh_co_def)
qed

lemma exit_ok:
  assumes "sinv (Some c) s" "cur_co_ctx s = Some c"
  shows "\<exists>st'. lua_step mem c (Call (Exit rc) k) s = Some st' \<and> mode_inv st'"
proof -
  let ?s1 = "upd c (\<lambda>x. x\<lparr>co_stack := [], co_cont := Some (\<lambda>ws. k (Inr ws)), co_at := Some (Exit rc)\<rparr>) (s\<lparr>exit_code := rc, exited := True\<rparr>)"
  have "mode_inv (MOver rc, finalize_threads (set_status c CO_DEAD (cleanup_pending c ?s1)))"
    by (rule finalize_over [OF assms(1)]) simp_all
  then show ?thesis using assms(2) by (simp add: lua_step_def api_call_def session_exit_def after_yield_def handle_exit_def)
qed

lemma create_ok:
  assumes "sinv (Some c) s" "cur_co_ctx s = Some c" "quiet s" "reuse_ok s"
  shows "\<exists>st'. lua_step mem c (Call (Create f) k) s = Some st' \<and> mode_inv st'"
proof (cases "create_helper mem f s")
  case None
  then show ?thesis using assms by (simp add: lua_step_def api_call_def co_create_def)
next
  case (Some ns)
  obtain n s1 where ns: "ns = (n, s1)" by (cases ns)
  note h = create_helper_placed [OF Some [unfolded ns] assms(4)]
  have "sinv (Some c) s1" by (rule sinv_create [OF assms(1) h(1-3)])
  then show ?thesis using assms(2,3) h(4-6) Some ns by (simp add: lua_step_def api_call_def co_create_def quiet_def)
qed

subsection \<open>Sessions\<close>

text \<open>
  What a session has to keep to: \<open>wait\<close> is called for one thread at a time, a thread is not killed while a coroutine runs inside it, there is memory for the queue of posted
  threads, and a new coroutine does not get the address of a collected one whose context something still refers to.
\<close>

fun keeps_rules :: "(nat \<Rightarrow> bool) \<Rightarrow> mode \<times> sched \<Rightarrow> bool" where
  "keeps_rules mem (MLua c (Call a k), s) \<longleftrightarrow>
     (case a of
        Wait ys \<Rightarrow> length ys \<le> 1
      | Kill y \<Rightarrow> stat s y \<noteq> CO_NORMAL
      | Create f \<Rightarrow> reuse_ok s
      | Spawn f args \<Rightarrow> mem 1 \<and> reuse_ok s
      | Yield args \<Rightarrow> mem 1
      | _ \<Rightarrow> True)"
| "keeps_rules mem st \<longleftrightarrow> True"

lemma lua_step_ok:
  assumes "mode_inv (MLua c p, s)" "keeps_rules mem (MLua c p, s)"
  shows "\<exists>st'. lua_step mem c p s = Some st' \<and> mode_inv st'"
proof -
  have i: "sinv (Some c) s" "cur_co_ctx s = Some c" "quiet s" using assms(1) by simp_all
  have up: "sinv (Some c) (upd c (\<lambda>x. x\<lparr>co_stack := vs\<rparr>) s)" "quiet (upd c (\<lambda>x. x\<lparr>co_stack := vs\<rparr>) s)"
    "cur_co_ctx (upd c (\<lambda>x. x\<lparr>co_stack := vs\<rparr>) s) = Some c" for vs
  proof -
    show "sinv (Some c) (upd c (\<lambda>x. x\<lparr>co_stack := vs\<rparr>) s)"
      by (rule sinv_exec [OF i(1), where vs = vs and k = "co_cont (coctx s c)" and a = "at s c"]) simp_all
  qed (use i in \<open>simp_all add: quiet_def\<close>)
  show ?thesis
  proof (cases p)
    case (Finish vs)
    then show ?thesis using after_finish_ok [OF up, of mem vs] by (simp add: lua_step_def)
  next
    case (Raise v)
    have "co_stack (coctx (upd c (\<lambda>x. x\<lparr>co_stack := [v]\<rparr>) s) c) \<noteq> []" by simp
    then show ?thesis using after_error_ok [OF up, of "[v]" mem] Raise by (simp add: lua_step_def)
  next
    case (Call a k)
    show ?thesis
      using assms(2) create_ok [OF i] resume_ok [OF i] yield_ok [OF i] spawn_ok [OF i] wait_ok [OF i] kill_ok [OF i] exit_ok [OF i(1,2)] block_ok [OF i] i
      unfolding Call by (cases a) (simp_all add: lua_step_def [of mem c "Call (Status _) k"] api_call_def co_get_status_def)
  qed
qed

lemma lua_resume_ok:
  assumes "mode_inv (MResume n, s)"
  shows "\<exists>c p s'. lua_resume n s = Some (MLua c p, s') \<and> mode_inv (MLua c p, s') \<and> cur_co_ctx s = Some c"
proof -
  obtain c k where c: "cur_co_ctx s = Some c" "sinv (Some c) s" "co_cont (coctx s c) = Some k" "n \<le> length (co_stack (coctx s c))" "quiet s"
    using assms by auto
  have "sinv (Some c) (upd c (\<lambda>x. x\<lparr>co_stack := [], co_cont := None, co_at := None\<rparr>) s)"
    by (rule sinv_exec [OF c(2) _ refl]) simp_all
  then show ?thesis using c by (simp add: lua_resume_def Let_def quiet_def)
qed

lemma start_ok:
  assumes "sinv (Some c) (upd c (\<lambda>x. x\<lparr>thread_spawn_yielded := False\<rparr>) s)" "cur_co_ctx s = Some c" "quiet s" "co_cont (coctx s c) \<noteq> None"
    "(if thread_spawn_yielded (coctx s c) then 1 else n) \<le> length (co_stack (coctx s c))"
  shows "\<exists>st'. start_thread n s = Some st' \<and> mode_inv st'"
proof (cases "thread_spawn_yielded (coctx s c)")
  case True
  then show ?thesis using assms by (simp add: start_thread_def quiet_def)
next
  case False
  then have "(coctx s c)\<lparr>thread_spawn_yielded := False\<rparr> = coctx s c" by simp
  then have "upd c (\<lambda>x. x\<lparr>thread_spawn_yielded := False\<rparr>) s = s" by simp
  then have "sinv (Some c) s" using assms(1) by (simp only:)
  then show ?thesis using assms(2-5) False by (simp add: start_thread_def)
qed

lemma run_posted_ok:
  assumes "mode_inv (MPosted, s)"
  shows "\<exists>st'. run_posted_threads s = Some st' \<and> mode_inv st'"
proof (cases "posted_threads s")
  case Nil
  then show ?thesis using assms by (simp add: run_posted_threads_def)
next
  case (Cons c cs)
  have i: "sinv None s" "quiet s" using assms by simp_all
  note v = sinvD [OF i(1)]
  let ?s = "s\<lparr>posted_threads := cs\<rparr>"
  show ?thesis
  proof (cases "stat s c = CO_RUNNING")
    case False
    have "sinv None ?s" by (rule sinv_pop [OF i(1) Cons False]) simp_all
    then show ?thesis using Cons False assms by (simp add: run_posted_threads_def Let_def quiet_def)
  next
    case True
    have c: "c < next_co s" "alive s c" using posted_okD(2) [OF v(6), of c] Cons True by (simp_all add: co_alive_def)
    have place: "(\<exists>f a. at s c = Some (Spawn f a)) \<or> (\<exists>a. at s c = Some (Yield a))" using posted_okD(4) [OF v(6), of c] Cons c(2) by auto
    have f: "frame_ok s c" "co_cont (coctx s c) \<noteq> None" "thread_spawn_yielded (coctx s c) \<longleftrightarrow> (\<exists>f a. at s c = Some (Spawn f a))"
      using frames_okD [OF v(2) c] by simp_all
    have nw: False if "d < next_co s" "waited_by_parent (coctx s d)" "parent s d = Some c" "alive s d" for d
      using waits_okD(2) [OF v(4) that(1,2,4,3) c(2)] place by auto
    have cl: "\<not> cleanup (coctx s c)" using pend_okD(2) [OF v(5) c(1)] place by auto
    have cs: "cs = filter (\<lambda>d. d \<noteq> c) (posted_threads s)" using posted_okD(1) [OF v(6)] Cons by (auto simp: filter_id_conv)
    have "sinv (Some c) (upd c (\<lambda>x. x\<lparr>thread_spawn_yielded := False\<rparr>) (?s\<lparr>cur_co_ctx := Some c\<rparr>))"
      by (rule sinv_activate [OF i(1) c(1) True nw, where vs = "co_stack (coctx s c)"])
        (use cl cs in \<open>auto intro!: ext co_ctx.equality\<close>)
    then have "\<exists>st'. start_thread 0 (?s\<lparr>cur_co_ctx := Some c\<rparr>) = Some st' \<and> mode_inv st'"
      by (rule start_ok) (use i(2) f in \<open>auto simp: quiet_def frame_ok_def Suc_le_eq\<close>)
    then show ?thesis using Cons True by (simp add: run_posted_threads_def Let_def)
  qed
qed

lemma tick_ok:
  assumes "mode_inv st" "keeps_rules mem st"
  shows "\<exists>st'. tick mem st = Some st' \<and> mode_inv st'"
proof (cases st)
  case (Pair m s)
  show ?thesis
  proof (cases m)
    case (MResume n)
    then show ?thesis using lua_resume_ok [of n s] assms(1) Pair by (auto simp: tick_def)
  next
    case (MLua c p)
    then show ?thesis using lua_step_ok [of c p s mem] assms Pair by (simp add: tick_def)
  next
    case MPosted
    then show ?thesis using run_posted_ok [of s] assms(1) Pair by (simp add: tick_def)
  qed (use assms(1) Pair in \<open>simp_all add: tick_def\<close>)
qed

lemma wake_ok:
  assumes "mode_inv (MIdle, s)" "c < next_co s" "cleanup (coctx s c)"
  shows "\<exists>st'. wake c vs s = Some st' \<and> mode_inv st'"
proof -
  have i: "sinv None s" "quiet s" using assms(1) by simp_all
  note v = sinvD [OF i(1)]
  have c: "alive s c" "at s c = Some Block" using pend_okD(1,2) [OF v(5) assms(2,3)] .
  have f: "frame_ok s c" "co_cont (coctx s c) \<noteq> None" "\<not> thread_spawn_yielded (coctx s c)" using frames_okD [OF v(2) assms(2) c(1)] c(2) by simp_all
  have nw: False if "d < next_co s" "waited_by_parent (coctx s d)" "parent s d = Some c" "alive s d" for d
    using waits_okD(2) [OF v(4) that(1,2,4,3) c(1)] c(2) by auto
  have np: "c \<notin> set (posted_threads s)" using posted_okD(4) [OF v(6), of c] c by auto
  let ?s = "(push c vs (upd c (\<lambda>x. x\<lparr>cleanup := False\<rparr>) s))\<lparr>cur_co_ctx := Some c\<rparr>"
  have "sinv (Some c) (upd c (\<lambda>x. x\<lparr>thread_spawn_yielded := False\<rparr>) ?s)"
    by (rule sinv_activate [OF i(1) assms(2) _ nw, where vs = "co_stack (coctx s c) @ vs"])
      (use f(1) c(2) np in \<open>auto intro!: ext co_ctx.equality simp: frame_ok_def\<close>)
  then show ?thesis unfolding wake_def by (rule start_ok) (use i(2) f in \<open>simp_all add: quiet_def\<close>)
qed

text \<open>The states a session reaches: by steps of the scheduler, by what the collector of garbage does, by events of coroutines that wait for one, and by its end.\<close>

lemma mode_inv_reused: "mode_inv (m, s\<lparr>reused_co := r\<rparr>) = mode_inv (m, s)"
proof -
  have "sinv e (s\<lparr>reused_co := r\<rparr>) = sinv e s" for e using sinv_cong [of e s "s\<lparr>reused_co := r\<rparr>"] sinv_cong [of e "s\<lparr>reused_co := r\<rparr>" s] by auto
  moreover have "refs_ok (s\<lparr>reused_co := r\<rparr>) = refs_ok s" by (simp add: refs_ok_def is_thread_def count_exact_def anchored_def)
  ultimately show ?thesis by (cases m) (simp_all add: quiet_def released_def)
qed

inductive session_run :: "prog \<Rightarrow> mode \<times> sched \<Rightarrow> bool" for p where
  start: "session_run p (start_session p)"
| step: "session_run p st \<Longrightarrow> keeps_rules mem st \<Longrightarrow> tick mem st = Some st' \<Longrightarrow> session_run p st'"
| collect: "session_run p (m, s) \<Longrightarrow> session_run p (m, s\<lparr>reused_co := r\<rparr>)"
| event: "session_run p (MIdle, s) \<Longrightarrow> c < next_co s \<Longrightarrow> cleanup (coctx s c) \<Longrightarrow> wake c vs s = Some st' \<Longrightarrow> session_run p st'"
| close: "session_run p (MIdle, s) \<Longrightarrow> session_run p (MOver NGX_ERROR_rc, finalize_threads s)"

lemma session_inv: "session_run p st \<Longrightarrow> mode_inv st"
proof (induction rule: session_run.induct)
  case start
  then show ?case using sinv_start [of p] by (simp add: start_session_def quiet_def fresh_co_def)
next
  case (step st mem st')
  then show ?case using tick_ok by fastforce
next
  case (collect m s r)
  then show ?case by (simp add: mode_inv_reused)
next
  case (event s c vs st')
  then show ?case using wake_ok [OF event.IH event.hyps(2,3), of vs] by simp
next
  case (close s)
  then have "sinv None s" by simp
  then show ?case by (rule finalize_over) simp_all
qed

end
