(* ===== verification/Coroutine_Live.thy ===== *)
theory Coroutine_Live
  imports Coroutine_Run
begin

section \<open>No thread is forgotten\<close>

text \<open>
  A coroutine that waits for a thread is woken by it: the thread is alive, its parent is the one that waits, and it is
  marked as waited for. When nothing is left to run, the queue of posted threads is empty.
\<close>

definition heard :: "nat option \<Rightarrow> sched \<Rightarrow> bool" where
  "heard e s \<longleftrightarrow> (\<forall>p<next_co s. \<forall>y. alive s p \<longrightarrow> Some p \<noteq> e \<longrightarrow> at s p = Some (Wait [y]) \<longrightarrow>
     y < next_co s \<and> parent s y = Some p \<and> alive s y \<and> waited_by_parent (coctx s y))"

fun live :: "mode \<times> sched \<Rightarrow> bool" where
  "live (MResume n, s) \<longleftrightarrow> heard (cur_co_ctx s) s"
| "live (MLua c p, s) \<longleftrightarrow> heard (Some c) s"
| "live (MPosted, s) \<longleftrightarrow> heard None s"
| "live (MIdle, s) \<longleftrightarrow> heard None s \<and> posted_threads s = []"
| "live (MOver rc, s) \<longleftrightarrow> True"

lemma heardD:
  assumes "heard e s" "p < next_co s" "alive s p" "Some p \<noteq> e" "at s p = Some (Wait [y])"
  shows "y < next_co s" "parent s y = Some p" "alive s y" "waited_by_parent (coctx s y)"
  using assms unfolding heard_def by blast+

text \<open>Nobody begins to wait, and what is waited for stays as it is.\<close>

lemma heard_step:
  assumes "heard e s" "next_co s \<le> next_co s'"
    "\<And>p y. p < next_co s' \<Longrightarrow> alive s' p \<Longrightarrow> Some p \<noteq> e' \<Longrightarrow> at s' p = Some (Wait [y]) \<Longrightarrow>
       p < next_co s \<and> alive s p \<and> Some p \<noteq> e \<and> at s p = Some (Wait [y])"
    "\<And>p y. p < next_co s \<Longrightarrow> alive s p \<Longrightarrow> Some p \<noteq> e \<Longrightarrow> Some p \<noteq> e' \<Longrightarrow> at s p = Some (Wait [y]) \<Longrightarrow> y < next_co s \<Longrightarrow>
       parent s y = Some p \<Longrightarrow> alive s y \<Longrightarrow> waited_by_parent (coctx s y) \<Longrightarrow>
       parent s' y = Some p \<and> alive s' y \<and> waited_by_parent (coctx s' y)"
  shows "heard e' s'"
  unfolding heard_def
proof (intro allI impI)
  fix p y assume a: "p < next_co s'" "alive s' p" "Some p \<noteq> e'" "at s' p = Some (Wait [y])"
  have p: "p < next_co s" "alive s p" "Some p \<noteq> e" "at s p = Some (Wait [y])" using assms(3) [OF a] by simp_all
  note y = heardD [OF assms(1) p]
  show "y < next_co s' \<and> parent s' y = Some p \<and> alive s' y \<and> waited_by_parent (coctx s' y)"
    using assms(4) [OF p(1-3) a(3) p(4) y] y(1) assms(2) by simp
qed

lemma heard_cong:
  assumes "heard e s" "next_co s' = next_co s" "\<And>d. co_at (coctx s' d) = co_at (coctx s d)" "\<And>d. co_status (coctx s' d) = co_status (coctx s d)"
    "\<And>d. parent_co_ctx (coctx s' d) = parent_co_ctx (coctx s d)" "\<And>d. waited_by_parent (coctx s' d) = waited_by_parent (coctx s d)"
  shows "heard e s'"
  using assms(1) unfolding heard_def co_alive_def assms(2-6) .

lemma live_again: "heard None s \<Longrightarrow> live (again s)"
  by (simp add: again_def) (rule heard_cong, simp_all)

text \<open>The calls of the API.\<close>

lemma waited_not_slot:
  assumes "sinv e s" "slot n s" "y < next_co s" "alive s y" "waited_by_parent (coctx s y)"
  shows "y \<noteq> n"
proof -
  note v = sinvD [OF assms(1)]
  have "is_thread y s" using waits_thread [OF v(4) assms(3,5)] by (simp add: is_thread_def)
  then have "co_ref (coctx s y)" using kinds_okD(6) [OF v(1) assms(3)] assms(4) by (simp add: co_alive_def)
  then show ?thesis by (rule slot_facts(2) [OF assms(1-3)])
qed

lemma live_create:
  assumes "sinv (Some c) s" "heard (Some c) s" "reuse_ok s" "lua_step mem c (Call (Create f) k) s = Some st'"
  shows "live st'"
proof (cases "create_helper mem f s")
  case None
  then show ?thesis using assms(2,4) by (auto simp: lua_step_def api_call_def co_create_def)
next
  case (Some ns)
  obtain n s1 where ns: "ns = (n, s1)" by (cases ns)
  note h = create_helper_placed [OF Some [unfolded ns] assms(3)]
  note pl = placed_facts [OF h(2)]
  have "heard (Some c) s1"
  proof (rule heard_step [OF assms(2) pl(3)])
    show "p < next_co s \<and> alive s p \<and> Some p \<noteq> Some c \<and> at s p = Some (Wait [y])"
      if "p < next_co s1" "alive s1 p" "Some p \<noteq> Some c" "at s1 p = Some (Wait [y])" for p y
      using that pl(4) [of p] by (auto simp: pl(1) fresh_co_def split: if_splits)
    show "parent s1 y = Some p \<and> alive s1 y \<and> waited_by_parent (coctx s1 y)"
      if "parent s y = Some p" "y < next_co s" "alive s y" "waited_by_parent (coctx s y)" for p y
      using that waited_not_slot [OF assms(1) h(1) that(2-4)] by (simp add: pl(1))
  qed
  then show ?thesis using assms(4) Some ns by (auto simp: lua_step_def api_call_def co_create_def)
qed

lemma live_block:
  assumes "heard (Some c) s" "cur_co_ctx s = Some c" "quiet s" "lua_step mem c (Call Block k) s = Some st'"
  shows "live st'"
proof -
  let ?s' = "upd c (\<lambda>x. x\<lparr>cleanup := True, co_stack := [], co_cont := Some (\<lambda>ws. k (Inr ws)), co_at := Some Block\<rparr>) s"
  have "lua_step mem c (Call Block k) s = Some (again ?s')"
    using assms(2,3) by (simp add: lua_step_def api_call_def block_def after_yield_def quiet_def)
  moreover have "heard None ?s'"
    by (rule heard_step [OF assms(1)]) (auto simp: co_alive_def split: if_splits)
  ultimately show ?thesis using live_again assms(4) by (auto simp del: upd_defs)
qed

lemma live_kill:
  assumes "heard (Some c) s" "cur_co_ctx s = Some c" "lua_step mem c (Call (Kill y) k) s = Some st'"
  shows "live st'"
proof -
  have st: "\<exists>r s'. st' = (MLua c r, s') \<and> (s' = s \<or> (\<exists>t. (t = s \<or> t = cleanup_pending y s) \<and> parent s y = Some c \<and> s' = drop_thread y t))"
    using assms(2,3) by (auto simp: lua_step_def api_call_def uthread_kill_def get_co_ctx_def simp del: upd_defs split: if_splits)
  have "heard (Some c) (drop_thread y t)" if "t = s \<or> t = cleanup_pending y s" "parent s y = Some c" for t
    by (rule heard_step [OF assms(1)])
      (use that in \<open>auto simp: drop_thread_def del_thread_def co_alive_def split: if_splits\<close>)
  then show ?thesis using st assms(1) by auto
qed

lemma live_resume:
  assumes "sinv (Some c) s" "heard (Some c) s" "cur_co_ctx s = Some c" "quiet s" "lua_step mem c (Call (Resume y args) k) s = Some st'"
  shows "live st'"
proof (cases "y < next_co s \<and> stat s y = CO_SUSPENDED")
  case False
  then have "\<exists>r. co_resume y args s = (r, s) \<and> (\<forall>vs. r \<noteq> AYield vs)"
    using assms(3) by (auto simp: co_resume_def get_co_ctx_def)
  then show ?thesis using assms(2,5) by (auto simp: lua_step_def api_call_def split: api_out.splits)
next
  case True
  note v = sinvD [OF assms(1)]
  have ne: "y \<noteq> c" using True exec_okD(2) [OF v(7)] by auto
  have ay: "alive s y" using True by (simp add: co_alive_def)
  have "\<not> is_thread y s" using frame_suspended(1) [OF frames_okD(1) [OF v(2), of y]] True ay ne by auto
  then have "\<not> waited_by_parent (coctx s y)" using waits_thread [OF v(4), of y] True by (auto simp: is_thread_def)
  moreover obtain s' where s': "st' = (MResume (length args), s')" "cur_co_ctx s' = Some y" "next_co s' = next_co s"
    "\<And>d. d \<noteq> y \<Longrightarrow> parent s' d = parent s d" "\<And>d. waited_by_parent (coctx s' d) = waited_by_parent (coctx s d)"
    "\<And>d. d \<noteq> y \<Longrightarrow> d \<noteq> c \<Longrightarrow> at s' d = at s d \<and> alive s' d = alive s d" "at s' c = Some (Resume y args)" "alive s' c"
    using assms(3-5) True ne
    by (auto simp: lua_step_def api_call_def co_resume_def get_co_ctx_def after_yield_def quiet_def Let_def co_alive_def)
  moreover have "heard (Some y) s'"
  proof (rule heard_step [OF assms(2)])
    show "p < next_co s \<and> alive s p \<and> Some p \<noteq> Some c \<and> at s p = Some (Wait [z])"
      if "p < next_co s'" "alive s' p" "Some p \<noteq> Some y" "at s' p = Some (Wait [z])" for p z
      using that s'(3,6,7) by (cases "p = c") auto
    show "parent s' z = Some p \<and> alive s' z \<and> waited_by_parent (coctx s' z)"
      if "parent s z = Some p" "alive s z" "waited_by_parent (coctx s z)" for p z
      using that s' calculation(1) by (cases "z = y"; cases "z = c") auto
  qed (simp add: s')
  ultimately show ?thesis by simp
qed

lemma live_yield:
  assumes "sinv (Some c) s" "heard (Some c) s" "cur_co_ctx s = Some c" "quiet s" "mem 1" "lua_step mem c (Call (Yield args) k) s = Some st'"
  shows "live st'"
proof (cases "is_thread c s")
  case True
  note v = sinvD [OF assms(1)]
  note x = exec_okD [OF v(7)]
  have par: "\<not> is_uthread (coctx s c) \<Longrightarrow> parent s c = None" using True kinds_okD(3) [OF v(1)] by (auto simp: is_thread_def)
  obtain m s' where s': "st' = (m, s')" "m = MPosted \<or> m = MResume 0 \<and> cur_co_ctx s' = Some c" "next_co s' = next_co s"
    "\<And>d. parent s' d = parent s d" "\<And>d. waited_by_parent (coctx s' d) = waited_by_parent (coctx s d)"
    "\<And>d. at s' d = (if d = c then Some (Yield args) else at s d)" "\<And>d. alive s' d = alive s d"
    using assms(3-6) True par x(2)
    by (cases "parent s c")
      (auto simp: lua_step_def api_call_def co_yield_def is_thread_def after_yield_def again_def quiet_def Let_def co_alive_def split: if_splits)
  have h: "heard e s'" for e
    by (rule heard_step [OF assms(2)]) (use s' in \<open>auto split: if_splits\<close>)
  show ?thesis using s'(1,2) h by auto
next
  case False
  obtain p a where p: "parent s c = Some p" "p \<noteq> c" "at s p = Some (Resume c a)" using exec_parent [OF assms(1) False] by blast
  obtain s' where s': "st' = (MResume (length args + 1), s')" "cur_co_ctx s' = Some p" "next_co s' = next_co s"
    "\<And>d. parent s' d = parent s d" "\<And>d. waited_by_parent (coctx s' d) = waited_by_parent (coctx s d)"
    "\<And>d. d \<noteq> c \<Longrightarrow> at s' d = at s d" "at s' c = Some (Yield args)" "\<And>d. d \<noteq> c \<Longrightarrow> d \<noteq> p \<Longrightarrow> alive s' d = alive s d" "alive s' c" "alive s' p"
    using assms(3,4,6) False p(1,2)
    by (auto simp: lua_step_def api_call_def co_yield_def after_yield_def quiet_def Let_def is_thread_def co_alive_def)
  have "heard (Some p) s'"
  proof (rule heard_step [OF assms(2)])
    show "q < next_co s \<and> alive s q \<and> Some q \<noteq> Some c \<and> at s q = Some (Wait [z])"
      if "q < next_co s'" "alive s' q" "Some q \<noteq> Some p" "at s' q = Some (Wait [z])" for q z
      using that s'(3,6-8) by (cases "q = c") auto
    show "parent s' z = Some q \<and> alive s' z \<and> waited_by_parent (coctx s' z)"
      if "parent s z = Some q" "alive s z" "waited_by_parent (coctx s z)" for q z
      using that s' by (cases "z = p"; cases "z = c") auto
  qed (simp add: s')
  then show ?thesis using s' by simp
qed

lemma live_spawn:
  assumes "sinv (Some c) s" "heard (Some c) s" "cur_co_ctx s = Some c" "quiet s" "mem 1" "reuse_ok s" "lua_step mem c (Call (Spawn f args) k) s = Some st'"
  shows "live st'"
proof (cases "create_helper mem f s")
  case None
  then show ?thesis using assms(2,7) by (auto simp: lua_step_def api_call_def uthread_spawn_def)
next
  case (Some ns)
  obtain n s1 where ns: "ns = (n, s1)" by (cases ns)
  note h = create_helper_placed [OF Some [unfolded ns] assms(6)]
  note pl = placed_facts [OF h(2)]
  note x = exec_okD [OF sinvD(7) [OF assms(1)]]
  have c: "c \<noteq> n" using slot_facts(3) [OF assms(1) h(1) x(1,5)] .
  obtain m s' where s': "st' = (MResume m, s')" "cur_co_ctx s' = Some n" "next_co s' = next_co s1"
    "\<And>d. d \<noteq> n \<Longrightarrow> parent s' d = parent s d \<and> waited_by_parent (coctx s' d) = waited_by_parent (coctx s d) \<and> alive s' d = alive s d"
    "\<And>d. d \<noteq> n \<Longrightarrow> d \<noteq> c \<Longrightarrow> at s' d = at s d" "at s' c = Some (Spawn f args)"
    using assms(3-5,7) Some ns c h(4-6)
    by (auto simp: lua_step_def api_call_def uthread_spawn_def after_yield_def quiet_def Let_def co_alive_def pl(1) split: if_splits)
  have "heard (Some n) s'"
  proof (rule heard_step [OF assms(2)])
    show "next_co s \<le> next_co s'" using pl(3) s'(3) by simp
    show "q < next_co s \<and> alive s q \<and> Some q \<noteq> Some c \<and> at s q = Some (Wait [z])"
      if "q < next_co s'" "alive s' q" "Some q \<noteq> Some n" "at s' q = Some (Wait [z])" for q z
      using that s'(3-6) pl(4) [of q] by (cases "q = c") auto
    show "parent s' y = Some q \<and> alive s' y \<and> waited_by_parent (coctx s' y)"
      if "parent s y = Some q" "y < next_co s" "alive s y" "waited_by_parent (coctx s y)" for q y
      using that waited_not_slot [OF assms(1) h(1) that(2-4)] s'(4) by simp
  qed
  then show ?thesis using s' by simp
qed

lemma live_wait:
  assumes "sinv (Some c) s" "heard (Some c) s" "cur_co_ctx s = Some c" "quiet s" "length ys \<le> 1" "lua_step mem c (Call (Wait ys) k) s = Some st'"
  shows "live st'"
proof (cases ys)
  case Nil
  let ?s' = "upd c (\<lambda>x. x\<lparr>co_stack := [], co_cont := Some (\<lambda>ws. k (Inr ws)), co_at := Some (Wait [])\<rparr>) s"
  have "heard None ?s'" by (rule heard_step [OF assms(2)]) (auto simp: co_alive_def split: if_splits)
  then have "live (again ?s')" by (rule live_again)
  then show ?thesis using assms(3,4,6) Nil by (auto simp: lua_step_def api_call_def uthread_wait_def after_yield_def quiet_def)
next
  case (Cons y zs)
  then have ys: "ys = [y]" using assms(5) by simp
  note v = sinvD [OF assms(1)]
  let ?m = "y < next_co s \<and> is_uthread (coctx s y) \<and> parent s y = Some c \<and> alive s y"
  show ?thesis
  proof (cases ?m)
    case True
    have ne: "y \<noteq> c" using kinds_okD(4) [OF v(1), of y] True by auto
    let ?s' = "upd c (\<lambda>x. x\<lparr>co_stack := [], co_cont := Some (\<lambda>ws. k (Inr ws)), co_at := Some (Wait ys)\<rparr>) (upd y (\<lambda>x. x\<lparr>waited_by_parent := True\<rparr>) s)"
    have "lua_step mem c (Call (Wait ys) k) s = Some (again ?s')"
      using assms(3,4) True by (auto simp: lua_step_def api_call_def uthread_wait_def after_yield_def quiet_def ys get_co_ctx_def co_alive_def)
    moreover have "heard None ?s'"
      unfolding heard_def
    proof (intro allI impI)
      fix p z assume a: "p < next_co ?s'" "alive ?s' p" "Some p \<noteq> None" "at ?s' p = Some (Wait [z])"
      show "z < next_co ?s' \<and> parent ?s' z = Some p \<and> alive ?s' z \<and> waited_by_parent (coctx ?s' z)"
      proof (cases "p = c")
        case p: True
        then have "z = y" using a(4) ys by simp
        then show ?thesis using True ne p by (simp add: co_alive_def)
      next
        case False
        then have "p < next_co s" "alive s p" "at s p = Some (Wait [z])" using a by (auto simp: co_alive_def split: if_splits)
        note z = heardD [OF assms(2) this(1,2) _ this(3)]
        show ?thesis using z False by (auto simp: co_alive_def)
      qed
    qed
    ultimately show ?thesis using live_again assms(6) by (auto simp del: upd_defs)
  next
    case False
    have h: "heard (Some c) (drop_thread y (upd y (\<lambda>x. x\<lparr>co_stack := []\<rparr>) s))" if "parent s y = Some c"
      by (rule heard_step [OF assms(2)]) (use that in \<open>auto simp: drop_thread_def del_thread_def co_alive_def split: if_splits\<close>)
    show ?thesis
      using assms(2,3,6) False h
      by (auto simp: lua_step_def api_call_def uthread_wait_def ys get_co_ctx_def co_alive_def simp del: upd_defs split: if_splits)
  qed
qed

text \<open>The end of a coroutine wakes the one that waits for it.\<close>

lemma heard_end:
  assumes "heard (Some c) s" "next_co s' = next_co s" "\<not> alive s' c"
    "\<And>d. d \<noteq> c \<Longrightarrow> at s' d = at s d \<and> alive s' d = alive s d \<and> waited_by_parent (coctx s' d) = waited_by_parent (coctx s d)"
    "\<And>d. parent s' d = parent s d"
    "\<And>p. parent s c = Some p \<Longrightarrow> alive s p \<Longrightarrow> waited_by_parent (coctx s c) \<Longrightarrow> e = Some p"
  shows "heard e s'"
proof (rule heard_step [OF assms(1)])
  show "next_co s \<le> next_co s'" by (simp add: assms(2))
  fix p y
  show "p < next_co s \<and> alive s p \<and> Some p \<noteq> Some c \<and> at s p = Some (Wait [y])"
    if "p < next_co s'" "alive s' p" "at s' p = Some (Wait [y])"
    using that assms(2,3) assms(4) [of p] by (cases "p = c") auto
  show "parent s' y = Some p \<and> alive s' y \<and> waited_by_parent (coctx s' y)"
    if "alive s p" "Some p \<noteq> e" "parent s y = Some p" "alive s y" "waited_by_parent (coctx s y)"
    using that assms(4) [of y] assms(5,6) by (cases "y = c") auto
qed

lemma cleanup_zombies_frame:
  assumes "\<And>y. y \<in> set ys \<Longrightarrow> \<not> alive s y"
  shows "next_co (cleanup_zombies ys s) = next_co s \<and> (\<forall>d. at (cleanup_zombies ys s) d = at s d \<and> parent (cleanup_zombies ys s) d = parent s d \<and>
    waited_by_parent (coctx (cleanup_zombies ys s) d) = waited_by_parent (coctx s d) \<and> alive (cleanup_zombies ys s) d = alive s d \<and>
    is_uthread (coctx (cleanup_zombies ys s) d) = is_uthread (coctx s d))"
  using assms
proof (induction ys arbitrary: s)
  case (Cons y ys)
  let ?s = "if co_ref (coctx s y) then drop_thread y s else s"
  have al: "alive ?s z = alive s z" for z
    using Cons.prems [of y] by (auto simp: drop_thread_def del_thread_def co_alive_def)
  have "next_co ?s = next_co s" "at ?s d = at s d" "parent ?s d = parent s d" "waited_by_parent (coctx ?s d) = waited_by_parent (coctx s d)"
    "is_uthread (coctx ?s d) = is_uthread (coctx s d)" for d
    by (simp_all add: drop_thread_def del_thread_def)
  moreover have "\<not> alive ?s z" if "z \<in> set ys" for z using Cons.prems [of z] that by (simp add: al)
  ultimately show ?case using Cons.IH [of ?s] al by simp
qed simp

text \<open>\<open>s2\<close> is the state after the coroutine was marked dead.\<close>

definition stopped :: "nat \<Rightarrow> sched \<Rightarrow> sched \<Rightarrow> bool" where
  "stopped c s s2 \<longleftrightarrow> next_co s2 = next_co s \<and> \<not> alive s2 c \<and>
     (\<forall>d. parent s2 d = parent s d \<and> is_uthread (coctx s2 d) = is_uthread (coctx s d) \<and> waited_by_parent (coctx s2 d) = waited_by_parent (coctx s d) \<and>
        (d \<noteq> c \<longrightarrow> at s2 d = at s d \<and> alive s2 d = alive s d))"

lemma stoppedD:
  assumes "stopped c s s2"
  shows "next_co s2 = next_co s" "\<not> alive s2 c" "parent s2 d = parent s d" "waited_by_parent (coctx s2 d) = waited_by_parent (coctx s d)"
    "d \<noteq> c \<Longrightarrow> at s2 d = at s d" "d \<noteq> c \<Longrightarrow> alive s2 d = alive s d" "is_uthread (coctx s2 d) = is_uthread (coctx s d)"
  using assms unfolding stopped_def by blast+

text \<open>The parent goes on with the values of the coroutine.\<close>

lemma live_user_co_done:
  assumes "heard (Some c) s" "stopped c s s2" "parent s c = Some p" "p \<noteq> c" "alive s p"
    "s3 = s2 \<or> s3 = upd c (\<lambda>x. x\<lparr>waited_by_parent := False\<rparr>) s2" "user_co_done c ok s3 = st'"
  shows "live st'"
proof -
  note f = stoppedD [OF assms(2)]
  obtain m s' where st: "st' = (m, s')" by (cases st')
  have s3: "parent s3 d = parent s2 d" "next_co s3 = next_co s2" "at s3 d = at s2 d" "alive s3 d = alive s2 d"
    "d \<noteq> c \<Longrightarrow> waited_by_parent (coctx s3 d) = waited_by_parent (coctx s2 d)" for d
    using assms(6) by (auto simp: co_alive_def split: if_splits)
  have s': "next_co s' = next_co s3" "parent s' d = parent s3 d" "at s' d = at s3 d" "d \<noteq> c \<Longrightarrow> waited_by_parent (coctx s' d) = waited_by_parent (coctx s3 d)"
    "d \<noteq> p \<Longrightarrow> d \<noteq> c \<Longrightarrow> alive s' d = alive s3 d" "alive s' p" "\<not> alive s' c" "cur_co_ctx s' = Some p \<and> (\<exists>n. m = MResume n)" for d
    using assms(4,7) s3(1,4) [of c] f(2) f(3) [of c] unfolding st assms(3)
    by (auto simp: user_co_done_def Let_def drop_thread_def del_thread_def co_alive_def split: if_splits)
  have "heard (Some p) s'"
  proof (rule heard_end [OF assms(1)])
    fix d assume "d \<noteq> c"
    then show "at s' d = at s d \<and> alive s' d = alive s d \<and> waited_by_parent (coctx s' d) = waited_by_parent (coctx s d)"
      using s'(3-6) s3(3-5) f(4-6) assms(5) by (cases "d = p") simp_all
  qed (use s' s3 f assms(3) in simp_all)
  then show ?thesis using st s'(8) by auto
qed

lemma live_uthread_end:
  assumes "heard (Some c) s" "stopped c s s2" "parent s c \<noteq> Some c" "uthread_end mem c ok s2 = Some st'"
  shows "live st'"
proof -
  note f = stoppedD [OF assms(2)]
  obtain p where p: "parent s c = Some p" "p \<noteq> c" using assms(3,4) f(3) [of c] by (cases "parent s c") (auto simp: uthread_end_def)
  have ap: "alive s2 p = alive s p" "parent s2 c = Some p" using f(3,6) p by auto
  consider "\<not> alive s p" | "alive s p" "waited_by_parent (coctx s c)" | "alive s p" "\<not> waited_by_parent (coctx s c)" by blast
  then show ?thesis
  proof cases
    case 1
    let ?s3 = "drop_thread c s2"
    have s3: "next_co ?s3 = next_co s2" "parent ?s3 d = parent s2 d" "at ?s3 d = at s2 d" "waited_by_parent (coctx ?s3 d) = waited_by_parent (coctx s2 d)"
      "d \<noteq> c \<Longrightarrow> alive ?s3 d = alive s2 d" "\<not> alive ?s3 c" for d
      using f(2) by (auto simp: drop_thread_def del_thread_def co_alive_def)
    have "heard None ?s3" by (rule heard_end [OF assms(1)]) (use p 1 in \<open>simp_all add: s3 f\<close>)
    then show ?thesis using assms(4) 1 ap live_again by (auto simp: uthread_end_def thread_gone_def Let_def split: if_splits)
  next
    case 2
    then have "user_co_done c ok (upd c (\<lambda>x. x\<lparr>waited_by_parent := False\<rparr>) s2) = st'"
      using assms(4) ap f(4) [of c] by (simp add: uthread_end_def)
    then show ?thesis using live_user_co_done [OF assms(1,2) p 2(1)] by blast
  next
    case 3
    let ?s3 = "upd c (\<lambda>x. x\<lparr>co_stack := lbool ok # co_stack x, co_status := CO_ZOMBIE\<rparr>) (upd p (\<lambda>x. x\<lparr>zombie_child_threads := zombie_child_threads x @ [c]\<rparr>) s2)"
    have s3: "next_co ?s3 = next_co s2" "parent ?s3 d = parent s2 d" "at ?s3 d = at s2 d" "waited_by_parent (coctx ?s3 d) = waited_by_parent (coctx s2 d)"
      "d \<noteq> c \<Longrightarrow> alive ?s3 d = alive s2 d" "\<not> alive ?s3 c" for d
      by (auto simp: co_alive_def)
    have "heard None ?s3" by (rule heard_end [OF assms(1)]) (use 3 in \<open>simp_all add: s3 f del: upd_defs\<close>)
    then show ?thesis using assms(4) 3 ap f(4) [of c] live_again by (auto simp: uthread_end_def simp del: upd_defs split: if_splits)
  qed
qed

lemma live_finish:
  assumes "sinv (Some c) s" "heard (Some c) s" "cur_co_ctx s = Some c" "after_finish mem s = Some st'"
  shows "live st'"
proof -
  note v = sinvD [OF assms(1)]
  note x = exec_okD [OF v(7)]
  let ?s1 = "set_status c CO_DEAD (cleanup_pending c s)"
  let ?zs = "zombie_child_threads (coctx ?s1 c)"
  let ?s2 = "cleanup_zombie_child_uthreads c ?s1"
  have z: "\<not> alive ?s1 y" if "y \<in> set ?zs" for y
    using kinds_okD(8) [OF v(1) x(1), of y] that x(4) by (cases "y = c") (simp_all add: co_alive_def)
  note fr = cleanup_zombies_frame [of ?zs ?s1, OF z]
  have st: "stopped c s ?s2"
  proof -
    have a: "alive ?s2 d = alive ?s1 d" "at ?s2 d = at ?s1 d" "parent ?s2 d = parent ?s1 d" "waited_by_parent (coctx ?s2 d) = waited_by_parent (coctx ?s1 d)"
      "is_uthread (coctx ?s2 d) = is_uthread (coctx ?s1 d)" "next_co ?s2 = next_co ?s1" for d
      using fr unfolding cleanup_zombie_child_uthreads_def by (simp_all add: co_alive_def)
    show ?thesis unfolding stopped_def a by (simp add: co_alive_def)
  qed
  consider "c = 0" | "c \<noteq> 0" "is_uthread (coctx ?s2 c)" | "c \<noteq> 0" "\<not> is_uthread (coctx ?s2 c)" by blast
  then show ?thesis
  proof cases
    case 1
    have "heard None (del_thread 0 ?s2)"
      by (rule heard_end [OF assms(2)])
        (use stoppedD [OF st] kinds_okD(3) [OF v(1)] 1 in \<open>simp_all add: del_thread_def co_alive_def del: upd_defs(4,6)\<close>)
    then show ?thesis using assms(3,4) 1 live_again by (auto simp: after_finish_def Let_def simp del: upd_defs split: if_splits)
  next
    case 2
    then have "uthread_end mem c True ?s2 = Some st'" using assms(3,4) by (simp add: after_finish_def Let_def del: upd_defs)
    moreover have "parent s c \<noteq> Some c" using kinds_okD(4) [OF v(1) x(1)] 2(2) stoppedD(7) [OF st, of c] by auto
    ultimately show ?thesis using live_uthread_end [OF assms(2) st] by blast
  next
    case 3
    then have "user_co_done c True ?s2 = st'" using assms(3,4) by (simp add: after_finish_def Let_def del: upd_defs)
    moreover have "\<not> is_thread c s" using 3 stoppedD(7) [OF st, of c] by (simp add: is_thread_def)
    ultimately show ?thesis using live_user_co_done [OF assms(2) st] exec_parent [OF assms(1)] by blast
  qed
qed

lemma live_error:
  assumes "sinv (Some c) s" "heard (Some c) s" "after_error mem c s = Some st'"
  shows "live st'"
proof -
  note v = sinvD [OF assms(1)]
  note x = exec_okD [OF v(7)]
  let ?s2 = "set_status c CO_DEAD (cleanup_pending c (s\<lparr>cur_co_ctx := Some c\<rparr>))"
  have st: "stopped c s ?s2" by (simp add: stopped_def co_alive_def)
  consider "is_uthread (coctx s c)" | "\<not> is_uthread (coctx s c)" "c = 0" | "\<not> is_uthread (coctx s c)" "c \<noteq> 0" by blast
  then show ?thesis
  proof cases
    case 1
    then have "uthread_end mem c False ?s2 = Some st'" using assms(3) by (simp add: after_error_def Let_def)
    moreover have "parent s c \<noteq> Some c" using kinds_okD(4) [OF v(1) x(1) 1] by auto
    ultimately show ?thesis using live_uthread_end [OF assms(2) st] by blast
  next
    case 2
    then show ?thesis using assms(3) by (auto simp: after_error_def)
  next
    case 3
    then have "\<not> is_thread c s" by (simp add: is_thread_def)
    then obtain p where p: "parent s c = Some p" "p \<noteq> c" "alive s p" using exec_parent [OF assms(1)] by blast
    then obtain s' where s': "st' = (MResume 2, s')" "cur_co_ctx s' = Some p" "next_co s' = next_co s" "\<not> alive s' c"
      "\<And>d. parent s' d = parent s d" "\<And>d. waited_by_parent (coctx s' d) = waited_by_parent (coctx s d)" "\<And>d. at s' d = at s d"
      "\<And>d. d \<noteq> c \<Longrightarrow> d \<noteq> p \<Longrightarrow> alive s' d = alive s d" "alive s' p"
      using assms(3) 3 by (auto simp: after_error_def Let_def co_alive_def)
    have "heard (Some p) s'"
    proof (rule heard_end [OF assms(2)])
      fix d assume "d \<noteq> c"
      then show "at s' d = at s d \<and> alive s' d = alive s d \<and> waited_by_parent (coctx s' d) = waited_by_parent (coctx s d)"
        using s'(6-9) p(3) by (cases "d = p") simp_all
    qed (use s' p in simp_all)
    then show ?thesis using s' by simp
  qed
qed

text \<open>Every step.\<close>

lemma live_lua_step:
  assumes "mode_inv (MLua c p, s)" "heard (Some c) s" "keeps_rules mem (MLua c p, s)" "lua_step mem c p s = Some st'"
  shows "live st'"
proof -
  have i: "sinv (Some c) s" "cur_co_ctx s = Some c" "quiet s" using assms(1) by simp_all
  have up: "sinv (Some c) (upd c (\<lambda>x. x\<lparr>co_stack := vs\<rparr>) s)" "heard (Some c) (upd c (\<lambda>x. x\<lparr>co_stack := vs\<rparr>) s)" for vs
  proof -
    show "sinv (Some c) (upd c (\<lambda>x. x\<lparr>co_stack := vs\<rparr>) s)"
      by (rule sinv_exec [OF i(1), where vs = vs and k = "co_cont (coctx s c)" and a = "at s c"]) simp_all
    show "heard (Some c) (upd c (\<lambda>x. x\<lparr>co_stack := vs\<rparr>) s)" by (rule heard_cong [OF assms(2)]) simp_all
  qed
  show ?thesis
  proof (cases p)
    case (Finish vs)
    then show ?thesis using live_finish [OF up(1,2) [of vs]] assms(4) i(2) by (simp add: lua_step_def)
  next
    case (Raise v)
    then show ?thesis using live_error [OF up(1,2) [of "[v]"]] assms(4) by (simp add: lua_step_def)
  next
    case (Call a k)
    note r = assms(3) [unfolded Call] and e = assms(4) [unfolded Call]
    show ?thesis
    proof (cases a)
      case (Create f)
      then show ?thesis using live_create [OF i(1) assms(2)] e r by simp
    next
      case (Resume y args)
      then show ?thesis using live_resume [OF i(1) assms(2) i(2,3)] e by blast
    next
      case (Yield args)
      then show ?thesis using live_yield [OF i(1) assms(2) i(2,3)] e r by simp
    next
      case (Status y)
      then show ?thesis using assms(2) e by (auto simp: lua_step_def api_call_def co_get_status_def)
    next
      case (Spawn f args)
      then show ?thesis using live_spawn [OF i(1) assms(2) i(2,3)] e r by simp
    next
      case (Wait ys)
      then show ?thesis using live_wait [OF i(1) assms(2) i(2,3)] e r by simp
    next
      case (Kill y)
      then show ?thesis using live_kill [OF assms(2) i(2)] e by blast
    next
      case (Exit rc)
      then show ?thesis using e i(2) by (auto simp: lua_step_def api_call_def session_exit_def after_yield_def handle_exit_def)
    next
      case Block
      then show ?thesis using live_block [OF assms(2) i(2,3)] e by blast
    qed
  qed
qed

lemma live_start:
  assumes "heard None s" "start_thread n s = Some st'" "cur_co_ctx s = Some c"
  shows "live st'"
proof -
  note c = assms(3)
  obtain m s' where s': "st' = (MResume m, s')" "cur_co_ctx s' = Some c" "next_co s' = next_co s" "\<And>d. at s' d = at s d" "\<And>d. stat s' d = stat s d"
    "\<And>d. parent s' d = parent s d" "\<And>d. waited_by_parent (coctx s' d) = waited_by_parent (coctx s d)"
    using assms(2) c by (auto simp: start_thread_def split: if_splits)
  have "heard None s'" by (rule heard_cong [OF assms(1) s'(3-7)])
  then have "heard (Some c) s'" unfolding heard_def by blast
  then show ?thesis using s' by simp
qed

lemma live_tick:
  assumes "mode_inv st" "live st" "keeps_rules mem st" "tick mem st = Some st'"
  shows "live st'"
proof (cases st)
  case (Pair m s)
  show ?thesis
  proof (cases m)
    case (MResume n)
    obtain c p s' where s': "lua_resume n s = Some (MLua c p, s')" "cur_co_ctx s = Some c" using lua_resume_ok [of n s] assms(1) Pair MResume by auto
    then have f: "next_co s' = next_co s" "\<And>d. d \<noteq> c \<Longrightarrow> at s' d = at s d" "\<And>d. alive s' d = alive s d" "\<And>d. parent s' d = parent s d"
      "\<And>d. waited_by_parent (coctx s' d) = waited_by_parent (coctx s d)"
      by (auto simp: lua_resume_def Let_def co_alive_def split: if_splits option.splits)
    have "heard (Some c) s" using assms(2) Pair MResume s'(2) by simp
    then have "heard (Some c) s'"
      by (rule heard_step) (use f in \<open>auto split: if_splits\<close>)
    then show ?thesis using assms(4) Pair MResume s'(1) by (auto simp: tick_def)
  next
    case (MLua c p)
    then show ?thesis using live_lua_step [of c p s mem st'] assms Pair by (simp add: tick_def)
  next
    case MPosted
    have h: "heard None s" using assms(2) Pair MPosted by simp_all
    have e: "run_posted_threads s = Some st'" using assms(4) Pair MPosted by (simp add: tick_def)
    show ?thesis
    proof (cases "posted_threads s")
      case Nil
      then show ?thesis using e h by (auto simp: run_posted_threads_def)
    next
      case (Cons c cs)
      let ?s = "s\<lparr>posted_threads := cs, cur_co_ctx := Some c\<rparr>"
      have h': "heard None (s\<lparr>posted_threads := cs\<rparr>)" "heard None ?s" by (rule heard_cong [OF h]; simp)+
      show ?thesis
      proof (cases "stat s c = CO_RUNNING")
        case True
        then show ?thesis using live_start [OF h'(2), of 0 st'] e Cons True by (simp add: run_posted_threads_def Let_def)
      next
        case False
        then show ?thesis using e Cons h'(1) by (auto simp: run_posted_threads_def Let_def)
      qed
    qed
  qed (use assms(2,4) Pair in \<open>auto simp: tick_def\<close>)
qed

lemma live_wake:
  assumes "live (MIdle, s)" "wake c vs s = Some st'"
  shows "live st'"
proof -
  let ?s = "(push c vs (upd c (\<lambda>x. x\<lparr>cleanup := False\<rparr>) s))\<lparr>cur_co_ctx := Some c\<rparr>"
  have "heard None ?s" by (rule heard_cong [of None s]) (use assms(1) in simp_all)
  then show ?thesis using live_start [of ?s "length vs" st'] assms(2) by (simp add: wake_def)
qed

lemma session_live: "session_run p st \<Longrightarrow> live st"
proof (induction rule: session_run.induct)
  case start
  show ?case by (auto simp: start_session_def heard_def)
next
  case (step st mem st')
  then show ?case using live_tick [OF session_inv [OF step.hyps(1)] step.IH step.hyps(2,3)] by simp
next
  case (collect m s r)
  then show ?case by (cases m) (auto intro: heard_cong)
next
  case (event s c vs st')
  then show ?case using live_wake [OF event.IH event.hyps(4)] by simp
qed simp

text \<open>
  The chain of coroutines from the entry thread, each in \<open>resume\<close> of the next or waiting for it, ends in one that
  waits for an event.
\<close>

definition succ_co :: "sched \<Rightarrow> nat \<Rightarrow> nat" where
  "succ_co s c = (case at s c of Some (Resume y a) \<Rightarrow> y | Some (Wait (y # ys)) \<Rightarrow> y | _ \<Rightarrow> c)"

lemma chain_distinct:
  assumes "\<And>i. parent s (f (Suc i)) = Some (f i)" "parent s (f 0) = None"
  shows "inj f"
proof -
  have "f i \<noteq> f j" if "i < j" for i j
    using that
  proof (induction i arbitrary: j)
    case 0
    then obtain k where "j = Suc k" by (cases j) auto
    then show ?case using assms(1) [of k] assms(2) by auto
  next
    case (Suc i)
    then obtain k where "j = Suc k" "i < k" by (cases j) auto
    then show ?case using Suc.IH [of k] assms(1) [of i] assms(1) [of k] by auto
  qed
  then show ?thesis by (metis injI linorder_neqE_nat)
qed

lemma idle_frame:
  assumes "sinv None s" "heard None s" "posted_threads s = []" "c < next_co s" "active (stat s c)" "\<not> cleanup (coctx s c)" "at s c \<noteq> Some (Wait [])"
  shows "succ_co s c < next_co s" "active (stat s (succ_co s c))" "parent s (succ_co s c) = Some c"
proof -
  note v = sinvD [OF assms(1)]
  have al: "alive s c" using assms(5) by (auto simp: active_def co_alive_def)
  have f: "frame_ok s c" using frames_okD(1) [OF v(2) assms(4) al] by simp
  consider y a where "at s c = Some (Resume y a)" | y where "at s c = Some (Wait [y])"
    using f assms(3,5-7) by (auto simp: frame_ok_def active_def length_Suc_conv le_Suc_eq split: option.splits api.splits if_splits)
  then have "succ_co s c < next_co s \<and> active (stat s (succ_co s c)) \<and> parent s (succ_co s c) = Some c"
  proof cases
    case (1 y a)
    then show ?thesis using frame_resume [OF f 1] by (simp add: succ_co_def)
  next
    case (2 y)
    note y = heardD [OF assms(2,4) al _ 2]
    have "is_uthread (coctx s y)" using waits_thread [OF v(4)] y by simp
    moreover have "frame_ok s y" using frames_okD(1) [OF v(2)] y by simp
    ultimately have "active (stat s y)" using frame_suspended(1) [of s y] y(3) by (cases "stat s y") (auto simp: is_thread_def active_def co_alive_def)
    then show ?thesis using 2 y by (simp add: succ_co_def)
  qed
  then show "succ_co s c < next_co s" "active (stat s (succ_co s c))" "parent s (succ_co s c) = Some c" by simp_all
qed

lemma idle_pending:
  assumes "sinv None s" "heard None s" "posted_threads s = []" "alive s 0" "\<And>c. c < next_co s \<Longrightarrow> alive s c \<Longrightarrow> at s c \<noteq> Some (Wait [])"
  shows "\<exists>c<next_co s. cleanup (coctx s c)"
proof (rule ccontr)
  assume none: "\<not> ?thesis"
  note v = sinvD [OF assms(1)]
  define f where "f i = (succ_co s ^^ i) 0" for i
  have a0: "active (stat s 0)"
    using frame_suspended(1) [OF frames_okD(1) [OF v(2) kinds_okD(1) [OF v(1)] assms(4)]] assms(4)
    by (cases "stat s 0") (auto simp: is_thread_def active_def co_alive_def)
  have step: "f i < next_co s \<and> active (stat s (f i))" for i
  proof (induction i)
    case 0
    then show ?case using kinds_okD(1) [OF v(1)] a0 by (simp add: f_def)
  next
    case (Suc i)
    have "at s (f i) \<noteq> Some (Wait [])" using assms(5) [of "f i"] Suc by (auto simp: active_def co_alive_def)
    then show ?case using idle_frame(1,2) [OF assms(1-3), of "f i"] none Suc by (auto simp: f_def)
  qed
  have "parent s (f (Suc i)) = Some (f i)" for i
  proof -
    have "at s (f i) \<noteq> Some (Wait [])" using assms(5) [of "f i"] step [of i] by (auto simp: active_def co_alive_def)
    then show ?thesis using idle_frame(3) [OF assms(1-3), of "f i"] none step [of i] by (auto simp: f_def)
  qed
  then have "inj f" by (rule chain_distinct) (simp add: f_def kinds_okD(3) [OF v(1)])
  moreover have "finite (range f)" by (rule finite_subset [of _ "{..<next_co s}"]) (use step in auto)
  ultimately show False using finite_imageD infinite_UNIV_nat by blast
qed

end
