(* ===== verification/Coroutine_Props.thy ===== *)
theory Coroutine_Props
  imports Coroutine_Live
begin

section \<open>Properties of the scheduler\<close>

text \<open>
  The properties of the sessions of \<open>session_run\<close>, and runs of small programs: the instances at which the properties are applied, and
  the ways in which a Lua program brings the scheduler out of step.
\<close>

subsection \<open>Runs of small programs\<close>

text \<open>\<open>None\<close> is a step of the scheduler, \<open>Some (c, vs)\<close> the event that coroutine \<open>c\<close> waits for. With \<open>rules\<close>, a step that breaks the
  rules of \<open>keeps_rules\<close> is refused.\<close>

fun drive :: "bool \<Rightarrow> (nat \<times> lval list) option list \<Rightarrow> mode \<times> sched \<Rightarrow> (mode \<times> sched) option" where
  "drive rules [] st = Some st"
| "drive rules (None # es) st =
     (if rules \<and> \<not> keeps_rules (\<lambda>_. True) st then None
      else case tick (\<lambda>_. True) st of None \<Rightarrow> None | Some st \<Rightarrow> drive rules es st)"
| "drive rules (Some (c, vs) # es) st =
     (case st of
        (MIdle, s) \<Rightarrow> (if c < next_co s \<and> cleanup (coctx s c) then (case wake c vs s of None \<Rightarrow> None | Some st \<Rightarrow> drive rules es st) else None)
      | _ \<Rightarrow> None)"

lemma drive_run: "drive True es st = Some st' \<Longrightarrow> session_run p st \<Longrightarrow> session_run p st'"
proof (induction es arbitrary: st)
  case (Cons e es)
  show ?case
  proof (cases e)
    case None
    then obtain st1 where "keeps_rules (\<lambda>_. True) st" "tick (\<lambda>_. True) st = Some st1" "drive True es st1 = Some st'"
      using Cons.prems(1) by (auto split: if_splits option.splits)
    then show ?thesis using Cons.IH session_run.step [OF Cons.prems(2)] by blast
  next
    case (Some ev)
    obtain c vs m s where "ev = (c, vs)" "st = (m, s)" by (cases ev, cases st)
    then obtain st1 where "m = MIdle" "c < next_co s" "cleanup (coctx s c)" "wake c vs s = Some st1" "drive True es st1 = Some st'"
      using Cons.prems(1) Some by (auto split: if_splits option.splits mode.splits)
    then show ?thesis using Cons.IH session_run.event [of p s c vs st1] Cons.prems(2) \<open>st = (m, s)\<close> by blast
  qed
qed simp

definition ticks :: "nat \<Rightarrow> (nat \<times> lval list) option list" where
  "ticks n = replicate n None"

definition with_thread :: "(nat \<Rightarrow> prog) \<Rightarrow> string + lval list \<Rightarrow> prog" where
  "with_thread f r = (case r of Inr [LThread y] \<Rightarrow> f y | _ \<Rightarrow> Finish [])"

definition worker :: "string \<Rightarrow> lval list \<Rightarrow> prog" where
  "worker v _ = Call Block (\<lambda>_. Finish [lstr v])"

text \<open>The entry thread waits for one thread; waits for two, then for an event; ends after a thread that failed; kills a thread in which a coroutine runs; resumes a
  coroutine.\<close>

definition wait_prog :: prog where
  "wait_prog = Call (Spawn (worker ''a'') []) (with_thread (\<lambda>y. Call (Wait [y]) (\<lambda>_. Finish [])))"

definition two_prog :: prog where
  "two_prog = Call (Spawn (worker ''a'') []) (with_thread (\<lambda>y. Call (Spawn (worker ''b'') []) (with_thread (\<lambda>z.
     Call (Wait [y, z]) (\<lambda>_. Call Block (\<lambda>r. case r of Inr vs \<Rightarrow> Finish vs | Inl e \<Rightarrow> Raise (lstr e)))))))"

definition failing_prog :: prog where
  "failing_prog = Call (Spawn (\<lambda>_. Call (Spawn (\<lambda>_. Finish []) []) (\<lambda>_. Raise (lstr ''error''))) []) (\<lambda>_. Finish [])"

definition kill_prog :: prog where
  "kill_prog = Call (Spawn (\<lambda>_. Call (Create (worker ''k'')) (with_thread (\<lambda>k. Call (Resume k []) (\<lambda>_. Finish [])))) [])
     (with_thread (\<lambda>y. Call (Kill y) (\<lambda>_. Call Block (\<lambda>_. Call (Wait [y]) (\<lambda>_. Finish [])))))"

definition again_prog :: prog where
  "again_prog = Call (Spawn (\<lambda>_. Finish []) []) (with_thread (\<lambda>y. Call (Wait [y]) (\<lambda>_. Call (Spawn (worker ''b'') []) (\<lambda>_. Finish []))))"

definition resume_prog :: prog where
  "resume_prog = Call (Create (\<lambda>vs. Call (Yield vs) (\<lambda>_. Finish []))) (with_thread (\<lambda>k. Call (Resume k [lstr ''v'']) (\<lambda>_. Finish [])))"

lemma tick_simps:
  "tick mem (MResume n, s) = lua_resume n s" "tick mem (MLua c p, s) = lua_step mem c p s" "tick mem (MPosted, s) = run_posted_threads s"
  "tick mem (MIdle, s) = Some (MIdle, s)" "tick mem (MOver rc, s) = Some (MOver rc, s)"
  by (simp_all add: tick_def)

lemmas eval_rules = tick_simps ticks_def start_session_def with_thread_def worker_def lua_resume_def lua_step_def api_call_def co_create_def co_resume_def co_yield_def
  uthread_spawn_def uthread_wait_def uthread_kill_def session_exit_def block_def create_helper_def fresh_co_def get_co_ctx_def del_thread_def drop_thread_def
  cleanup_zombie_child_uthreads_def after_yield_def after_finish_def after_error_def uthread_end_def user_co_done_def thread_gone_def again_def
  co_gettop_def reuse_ok_def run_posted_threads_def start_thread_def wake_def is_thread_def co_alive_def Let_def numeral_eq_Suc

lemma wait_prog_idle:
  "\<exists>s. session_run wait_prog (MIdle, s) \<and> uthreads s = 1 \<and> next_co s = 2 \<and> co_alive (coctx s 0) \<and> co_at (coctx s 0) = Some (Wait [1]) \<and> co_at (coctx s 1) = Some Block \<and>
    cleanup (coctx s 1) \<and> co_ref (coctx s 1)"
proof -
  have "\<exists>s. drive True (ticks 8) (start_session wait_prog) = Some (MIdle, s) \<and> uthreads s = 1 \<and> next_co s = 2 \<and> co_alive (coctx s 0) \<and>
      co_at (coctx s 0) = Some (Wait [1]) \<and> co_at (coctx s 1) = Some Block \<and> cleanup (coctx s 1) \<and> co_ref (coctx s 1)"
    by (simp add: eval_rules wait_prog_def)
  then show ?thesis using drive_run [OF _ session_run.start] by blast
qed

lemma wait_prog_ends:
  "\<exists>s. session_run wait_prog (MLua 1 (Finish [lstr ''a'']), s) \<and> is_uthread (coctx s 1) \<and> waited_by_parent (coctx s 1) \<and>
    parent_co_ctx (coctx s 1) = Some 0 \<and> co_alive (coctx s 0) \<and> co_cont (coctx s 0) = Some (\<lambda>_. Finish [])"
proof -
  have "\<exists>s. drive True (ticks 8 @ [Some (1, []), None]) (start_session wait_prog) = Some (MLua 1 (Finish [lstr ''a'']), s) \<and> is_uthread (coctx s 1) \<and>
      waited_by_parent (coctx s 1) \<and> parent_co_ctx (coctx s 1) = Some 0 \<and> co_alive (coctx s 0) \<and> co_cont (coctx s 0) = Some (\<lambda>_. Finish [])"
    by (simp add: eval_rules wait_prog_def)
  then show ?thesis using drive_run [OF _ session_run.start] by blast
qed

lemma resume_prog_yields:
  "\<exists>s. session_run resume_prog (MLua 1 (Call (Yield [lstr ''v'']) (\<lambda>_. Finish [])), s) \<and> \<not> is_thread 1 s \<and> parent_co_ctx (coctx s 1) = Some 0 \<and>
    co_cont (coctx s 0) = Some (\<lambda>_. Finish [])"
proof -
  have "\<exists>s. drive True (ticks 4) (start_session resume_prog) = Some (MLua 1 (Call (Yield [lstr ''v'']) (\<lambda>_. Finish [])), s) \<and> \<not> is_thread 1 s \<and>
      parent_co_ctx (coctx s 1) = Some 0 \<and> co_cont (coctx s 0) = Some (\<lambda>_. Finish [])"
    by (simp add: eval_rules resume_prog_def)
  then show ?thesis using drive_run [OF _ session_run.start] by blast
qed

text \<open>The values of an ended coroutine reach its parent.\<close>

lemma cleanup_zombies_fields:
  "co_stack (coctx (cleanup_zombies ys s) d) = co_stack (coctx s d)" "co_cont (coctx (cleanup_zombies ys s) d) = co_cont (coctx s d)"
  "waited_by_parent (coctx (cleanup_zombies ys s) d) = waited_by_parent (coctx s d)"
  "parent_co_ctx (coctx (cleanup_zombies ys s) d) = parent_co_ctx (coctx s d)" "is_uthread (coctx (cleanup_zombies ys s) d) = is_uthread (coctx s d)"
  "cur_co_ctx (cleanup_zombies ys s) = cur_co_ctx s"
  by (induction ys arbitrary: s) (auto simp: drop_thread_def del_thread_def)

lemma user_co_done_delivers:
  assumes "parent_co_ctx (coctx s c) = Some p" "p \<noteq> c" "co_cont (coctx s p) = Some k" "st = user_co_done c ok s"
  shows "\<exists>s'. tick mem st = Some (MLua p (k (lbool ok # co_stack (coctx s c))), s')"
  using assms(1-3) unfolding assms(4)
  by (auto simp: user_co_done_def Let_def tick_def lua_resume_def drop_thread_def del_thread_def)

definition dead_state :: "nat \<Rightarrow> lval list \<Rightarrow> sched \<Rightarrow> sched" where
  "dead_state c vs s = cleanup_zombie_child_uthreads c (set_status c CO_DEAD (cleanup_pending c (upd c (\<lambda>x. x\<lparr>co_stack := vs\<rparr>) s)))"

lemma dead_state_fields:
  "co_stack (coctx (dead_state c vs s) d) = (if d = c then vs else co_stack (coctx s d))" "co_cont (coctx (dead_state c vs s) d) = co_cont (coctx s d)"
  "waited_by_parent (coctx (dead_state c vs s) d) = waited_by_parent (coctx s d)"
  "parent_co_ctx (coctx (dead_state c vs s) d) = parent_co_ctx (coctx s d)" "is_uthread (coctx (dead_state c vs s) d) = is_uthread (coctx s d)"
  by (auto simp: dead_state_def cleanup_zombie_child_uthreads_def cleanup_zombies_fields)

lemma dead_state_alive:
  assumes "sinv (Some c) s" "alive s p" "p \<noteq> c"
  shows "alive (dead_state c vs s) p"
proof -
  note v = sinvD [OF assms(1)]
  let ?s1 = "set_status c CO_DEAD (cleanup_pending c (upd c (\<lambda>x. x\<lparr>co_stack := vs\<rparr>) s))"
  let ?zs = "zombie_child_threads (coctx ?s1 c)"
  have z: "\<not> alive ?s1 y" if "y \<in> set ?zs" for y
    using kinds_okD(8) [OF v(1) exec_okD(1) [OF v(7)], of y] that exec_okD(4) [OF v(7)] by (cases "y = c") (simp_all add: co_alive_def)
  have "alive (cleanup_zombies ?zs ?s1) p = alive ?s1 p" using cleanup_zombies_frame [of ?zs ?s1, OF z] by blast
  moreover have "alive ?s1 p" using assms(2,3) by simp
  ultimately show ?thesis using assms(3) by (simp add: dead_state_def cleanup_zombie_child_uthreads_def)
qed

lemma dead_state_dead:
  assumes "sinv (Some c) s"
  shows "\<not> alive (dead_state c vs s) c"
proof -
  note v = sinvD [OF assms]
  let ?s1 = "set_status c CO_DEAD (cleanup_pending c (upd c (\<lambda>x. x\<lparr>co_stack := vs\<rparr>) s))"
  let ?zs = "zombie_child_threads (coctx ?s1 c)"
  have z: "\<not> alive ?s1 y" if "y \<in> set ?zs" for y
    using kinds_okD(8) [OF v(1) exec_okD(1) [OF v(7)], of y] that by (cases "y = c") (simp_all add: co_alive_def)
  have "alive (cleanup_zombies ?zs ?s1) c = alive ?s1 c" using cleanup_zombies_frame [of ?zs ?s1, OF z] by blast
  moreover have "\<not> alive ?s1 c" by (simp add: co_alive_def)
  ultimately show ?thesis by (simp add: dead_state_def cleanup_zombie_child_uthreads_def co_alive_def)
qed

lemma failing_prog_fails:
  "\<exists>s. session_run failing_prog (MLua 1 (Raise (lstr ''error'')), s) \<and> is_uthread (coctx s 1) \<and> 2 \<in> set (zombie_child_threads (coctx s 1)) \<and> co_ref (coctx s 2)"
proof -
  have "\<exists>s. drive True (ticks 11) (start_session failing_prog) = Some (MLua 1 (Raise (lstr ''error'')), s) \<and> is_uthread (coctx s 1) \<and>
      2 \<in> set (zombie_child_threads (coctx s 1)) \<and> co_ref (coctx s 2)"
    by (simp add: eval_rules failing_prog_def)
  then show ?thesis using drive_run [OF _ session_run.start] by blast
qed


subsection \<open>Sessions\<close>







text \<open>C19: consider a session that has kept to the rules of \<open>keeps_rules\<close>, so that no \<open>wait\<close> was for more than one thread, and in which no live coroutine is in a \<open>wait\<close>
  without a thread. If its entry thread has not ended and there is nothing to run, some coroutine waits for an event: no coroutine waits for one that cannot wake it.\<close>

theorem idle_no_deadlock:
  assumes "session_run p (MIdle, s)" "co_alive (coctx s 0)" "\<forall>c<next_co s. co_alive (coctx s c) \<longrightarrow> co_at (coctx s c) \<noteq> Some (Wait [])"
  shows "\<exists>c<next_co s. cleanup (coctx s c)"
  by (rule idle_pending) (use session_inv [OF assms(1)] session_live [OF assms(1)] assms(2,3) in simp_all)

theorem idle_no_deadlock_witness:
  "\<exists>s. session_run wait_prog (MIdle, s) \<and> (\<exists>c<next_co s. cleanup (coctx s c))"
proof -
  obtain s where s: "session_run wait_prog (MIdle, s)" "next_co s = 2" "co_alive (coctx s 0)" "co_at (coctx s 0) = Some (Wait [1])" "co_at (coctx s 1) = Some Block"
    using wait_prog_idle by blast
  then have "\<forall>c<next_co s. co_alive (coctx s c) \<longrightarrow> co_at (coctx s c) \<noteq> Some (Wait [])" by (simp add: numeral_2_eq_2 less_Suc_eq)
  then show ?thesis using idle_no_deadlock [OF s(1,3)] s(1) by blast
qed

text \<open>When a light thread that its parent waits for ends, the parent goes on with the values of the thread, after \<open>true\<close> when it returned, after
  \<open>false\<close> when it raised an error.\<close>

theorem wait_returns_values:
  assumes "session_run p0 (MLua c q, s)" "q = Finish vs \<and> ok \<or> q = Raise v \<and> vs = [v] \<and> \<not> ok" "is_uthread (coctx s c)" "waited_by_parent (coctx s c)"
    "parent_co_ctx (coctx s c) = Some p" "co_alive (coctx s p)"
  shows "\<exists>k st' s'. co_cont (coctx s p) = Some k \<and> tick mem (MLua c q, s) = Some st' \<and> tick mem' st' = Some (MLua p (k (lbool ok # vs)), s')"
proof -
  have i: "sinv (Some c) s" "cur_co_ctx s = Some c" using session_inv [OF assms(1)] by simp_all
  note v = sinvD [OF i(1)]
  have c: "c < next_co s" by (rule exec_okD(1) [OF v(7)])
  have p: "p \<noteq> c" using kinds_okD(4) [OF v(1) c assms(3)] assms(5) by auto
  then obtain k where k: "co_cont (coctx s p) = Some k" using frames_okD(2) [OF v(2), of p] assms(6) kinds_okD(7) [OF v(1) c assms(5)] by auto
  have c0: "c \<noteq> 0" using assms(3) kinds_okD(2) [OF v(1)] by metis
  have "\<exists>t. tick mem (MLua c q, s) = Some (user_co_done c ok t) \<and> parent_co_ctx (coctx t c) = Some p \<and> co_cont (coctx t p) = Some k \<and> co_stack (coctx t c) = vs"
  proof (cases ok)
    case True
    let ?s2 = "dead_state c vs s"
    have "tick mem (MLua c q, s) = uthread_end mem c True ?s2"
      using assms(2,3) True i(2) c0 dead_state_fields(5) [of c vs s c]
      by (auto simp: tick_def lua_step_def after_finish_def Let_def dead_state_def simp del: upd_defs)
        (simp_all add: upd_def)
    moreover have "uthread_end mem c True ?s2 = Some (user_co_done c True (upd c (\<lambda>x. x\<lparr>waited_by_parent := False\<rparr>) ?s2))"
      using dead_state_alive [OF i(1) assms(6), of vs] p assms(4,5) by (simp add: uthread_end_def dead_state_fields)
    ultimately show ?thesis using True p assms(5) k by (auto simp: dead_state_fields)
  next
    case False
    let ?s2 = "set_status c CO_DEAD (cleanup_pending c ((upd c (\<lambda>x. x\<lparr>co_stack := vs\<rparr>) s)\<lparr>cur_co_ctx := Some c\<rparr>))"
    have "tick mem (MLua c q, s) = uthread_end mem c False ?s2" using assms(2,3) False by (auto simp: tick_def lua_step_def after_error_def Let_def)
    moreover have "uthread_end mem c False ?s2 = Some (user_co_done c False (upd c (\<lambda>x. x\<lparr>waited_by_parent := False\<rparr>) ?s2))"
      using p assms(4-6) by (simp add: uthread_end_def)
    ultimately show ?thesis using False p assms(5) k by auto
  qed
  then show ?thesis using user_co_done_delivers [of _ c p k _ ok mem'] p k by fastforce
qed

text \<open>What a coroutine yields or returns is what the call that resumed it returns, after \<open>true\<close>; an error it raises comes after \<open>false\<close>.\<close>

theorem resume_returns_values:
  assumes "session_run p0 (MLua c q, s)" "\<not> is_thread c s" "parent_co_ctx (coctx s c) = Some p"
    "q = Finish vs \<and> ok \<or> q = Raise v \<and> vs = [v] \<and> \<not> ok \<or> q = Call (Yield vs) g \<and> ok"
  shows "\<exists>k st' s'. co_cont (coctx s p) = Some k \<and> tick mem (MLua c q, s) = Some st' \<and> tick mem' st' = Some (MLua p (k (lbool ok # vs)), s')"
proof -
  have i: "sinv (Some c) s" "cur_co_ctx s = Some c" "quiet s" using session_inv [OF assms(1)] by simp_all
  obtain k where k: "p \<noteq> c" "co_cont (coctx s p) = Some k" using exec_parent [OF i(1) assms(2)] assms(3) by auto
  have n: "\<not> is_uthread (coctx s c)" "c \<noteq> 0" using assms(2) by (simp_all add: is_thread_def)
  consider "q = Finish vs" "ok" | "q = Raise v" "vs = [v]" "\<not> ok" | "q = Call (Yield vs) g" "ok" using assms(4) by blast
  then show ?thesis
  proof cases
    case 1
    have "tick mem (MLua c q, s) = Some (user_co_done c True (dead_state c vs s))"
      using 1 n i(2) dead_state_fields(5) [of c vs s c]
      by (auto simp: tick_def lua_step_def after_finish_def Let_def dead_state_def simp del: upd_defs) (simp_all add: upd_def)
    then show ?thesis
      using user_co_done_delivers [of "dead_state c vs s" c p k _ True mem'] k assms(3) 1 by (fastforce simp: dead_state_fields)
  next
    case 2
    then show ?thesis
      using n k assms(3) by (auto simp: tick_def lua_step_def after_error_def Let_def lua_resume_def)
  next
    case 3
    then show ?thesis
      using n k assms(3) i(2,3)
      by (auto simp: tick_def lua_step_def api_call_def co_yield_def after_yield_def is_thread_def quiet_def Let_def lua_resume_def)
  qed
qed

subsection \<open>Programs that bring the scheduler out of step\<close>

lemma cleanup_zombies_refs: "co_ref (coctx (cleanup_zombies ys s) d) = (d \<notin> set ys \<and> co_ref (coctx s d))"
  by (induction ys arbitrary: s) auto

lemma uthread_end_fields:
  assumes "uthread_end mem c ok s = Some (m, s')" "parent_co_ctx (coctx s c) \<noteq> Some c" "\<not> co_alive (coctx s c)"
  shows "\<not> co_alive (coctx s' c)" "d \<noteq> c \<Longrightarrow> co_ref (coctx s' d) = co_ref (coctx s d)"
  using assms
  by (auto simp: uthread_end_def user_co_done_def thread_gone_def again_def drop_thread_def del_thread_def co_alive_def Let_def split: if_splits bind_splits)

text \<open>C34: a light thread that raises an error does not release the threads that ended before it as its children: each of them is still anchored after the step, and counted, although
  the thread that could wait for it has ended. When it returns, they are released.\<close>

theorem failed_thread_keeps_children:
  assumes "session_run p (MLua c q, s)" "is_uthread (coctx s c)" "y \<in> set (zombie_child_threads (coctx s c))" "co_ref (coctx s y)"
    "tick mem (MLua c q, s) = Some (m, s')"
  shows "(\<forall>v. q = Raise v \<longrightarrow> co_ref (coctx s' y) \<and> \<not> co_alive (coctx s' c)) \<and> (\<forall>vs. q = Finish vs \<longrightarrow> \<not> co_ref (coctx s' y) \<and> \<not> co_alive (coctx s' c))"
proof -
  have i: "sinv (Some c) s" "cur_co_ctx s = Some c" using session_inv [OF assms(1)] by simp_all
  note v = sinvD [OF i(1)]
  note x = exec_okD [OF v(7)]
  have y: "y \<noteq> c" using kinds_okD(8) [OF v(1) x(1) assms(3)] x(4) by auto
  have par: "parent s c \<noteq> Some c" using kinds_okD(4) [OF v(1) x(1) assms(2)] by auto
  have c0: "c \<noteq> 0" using assms(2) kinds_okD(2) [OF v(1)] by metis
  have "co_ref (coctx s' y) \<and> \<not> co_alive (coctx s' c)" if "q = Raise w" for w
  proof -
    let ?s2 = "set_status c CO_DEAD (cleanup_pending c ((upd c (\<lambda>x. x\<lparr>co_stack := [w]\<rparr>) s)\<lparr>cur_co_ctx := Some c\<rparr>))"
    have e: "uthread_end mem c False ?s2 = Some (m, s')" using assms(2,5) that by (simp add: tick_def lua_step_def after_error_def Let_def)
    have "parent_co_ctx (coctx ?s2 c) \<noteq> Some c" "\<not> co_alive (coctx ?s2 c)" using par by (simp_all add: co_alive_def)
    then show ?thesis using uthread_end_fields [OF e] y assms(4) by simp
  qed
  moreover have "\<not> co_ref (coctx s' y) \<and> \<not> co_alive (coctx s' c)" if "q = Finish vs" for vs
  proof -
    let ?s2 = "dead_state c vs s"
    have e: "uthread_end mem c True ?s2 = Some (m, s')"
      using assms(2,5) that i(2) c0 dead_state_fields(5) [of c vs s c]
      by (auto simp: tick_def lua_step_def after_finish_def Let_def dead_state_def simp del: upd_defs) (simp_all add: upd_def)
    have r: "\<not> co_ref (coctx ?s2 y)" using assms(3) y by (simp add: dead_state_def cleanup_zombie_child_uthreads_def cleanup_zombies_refs)
    have d: "\<not> co_alive (coctx ?s2 c)" using dead_state_dead [OF i(1)] .
    have "parent_co_ctx (coctx ?s2 c) \<noteq> Some c" using par by (simp add: dead_state_fields)
    then show ?thesis using uthread_end_fields [OF e _ d] y r by simp
  qed
  ultimately show ?thesis by blast
qed

theorem failed_thread_keeps_children_witness:
  "\<exists>s m s'. session_run failing_prog (MLua 1 (Raise (lstr ''error'')), s) \<and> tick (\<lambda>_. True) (MLua 1 (Raise (lstr ''error'')), s) = Some (m, s') \<and> co_ref (coctx s' 2)"
proof -
  obtain s where s: "session_run failing_prog (MLua 1 (Raise (lstr ''error'')), s)" "is_uthread (coctx s 1)" "2 \<in> set (zombie_child_threads (coctx s 1))" "co_ref (coctx s 2)"
    using failing_prog_fails by blast
  obtain m s' where t: "tick (\<lambda>_. True) (MLua 1 (Raise (lstr ''error'')), s) = Some (m, s')"
    using tick_ok [OF session_inv [OF s(1)], of "\<lambda>_. True"] by auto
  then show ?thesis using failed_thread_keeps_children [OF s t] s(1) by blast
qed

text \<open>Such a thread stays counted for ever: when all threads and the entry thread have ended, the session still waits, and no event is left that could end it.\<close>

lemma failed_parent_hangs_session:
  "\<exists>s. session_run failing_prog (MIdle, s) \<and> uthreads s = 1 \<and> list_all (\<lambda>c. \<not> co_alive (coctx s c) \<and> \<not> cleanup (coctx s c)) [0..<next_co s]"
proof -
  have "\<exists>s. drive True (ticks 16) (start_session failing_prog) = Some (MIdle, s) \<and> uthreads s = 1 \<and> list_all (\<lambda>c. \<not> co_alive (coctx s c) \<and> \<not> cleanup (coctx s c)) [0..<next_co s]"
    by (simp add: eval_rules failing_prog_def less_Suc_eq)
  then show ?thesis using drive_run [OF _ session_run.start] by blast
qed

text \<open>A call of \<open>wait\<close> for two threads leaves the mark in the one that has not ended. When that one ends later, its values are given to whatever call the parent
  is in by then, here one that waits for an event, which is still pending.\<close>

lemma wait_many_disturbs_parent:
  "\<exists>s. drive False (ticks 16 @ Some (1, []) # ticks 6 @ Some (2, []) # ticks 3) (start_session two_prog) =
     Some (MLua 0 (Finish [lbool True, lstr ''b'']), s) \<and> cleanup (coctx s 0)"
  by (simp add: eval_rules two_prog_def)

text \<open>A thread that is killed while a coroutine runs inside it is resumed when that coroutine ends. It ends a second time, and \<open>wait\<close> subtracts it from the count
  again.\<close>

lemma killed_thread_counted_twice:
  "\<exists>s. drive False (ticks 12 @ Some (2, []) # ticks 6 @ Some (0, []) # ticks 6) (start_session kill_prog) = Some (MIdle, s) \<and> uthreads s = - 1 \<and>
     (\<forall>c<next_co s. \<not> co_alive (coctx s c))"
  by (simp add: eval_rules kill_prog_def less_Suc_eq)

text \<open>The list of ended threads is not shortened by \<open>wait\<close>. When the coroutine of a thread that was waited for is collected and a new thread gets its context, the end of the
  parent takes the new thread for an ended one: it is released while it waits for an event, and the session ends.\<close>

lemma reused_context_is_killed:
  "\<exists>s st. drive False (ticks 7) (start_session again_prog) = Some (MLua 0 (Call (Spawn (worker ''b'') []) (\<lambda>_. Finish [])), s) \<and> co_status (coctx s 1) = CO_DEAD \<and>
     drive False (ticks 6) (MLua 0 (Call (Spawn (worker ''b'') []) (\<lambda>_. Finish [])), s\<lparr>reused_co := Some 1\<rparr>) = Some st \<and>
     fst st = MOver NGX_OK_rc \<and> co_at (coctx (snd st) 1) = Some Block \<and> cleanup (coctx (snd st) 1) \<and> co_status (coctx (snd st) 1) = CO_DEAD"
  by (simp add: eval_rules again_prog_def)

text \<open>A \<open>spawn\<close> that finds no memory for its queue entry raises an error, but the thread is counted, and the operation that is left behind makes the next call
  that waits for an event resume the coroutine with a count of $-1$ values.\<close>

lemma spawn_no_memory_leaves_operation:
  assumes "cur_co_ctx s = Some c" "reused_co s = None" "mem 0" "\<not> mem 1" "\<not> exited s"
  shows "\<exists>s1. uthread_spawn mem f args s = Some (AErr ''no memory'', s1) \<and> uthreads s1 = uthreads s + 1 \<and> lua_step mem' c (Call Block k) s1 = None"
  using assms by (auto simp: uthread_spawn_def create_helper_def Let_def lua_step_def api_call_def block_def after_yield_def co_gettop_def)

end
