(* ===== verification/Output.thy ===== *)
theory Output
  imports Prelude "HOL-Library.Sublist"
begin

section \<open>Output to the client (ngx\_stream\_lua\_output.c)\<close>

text \<open>
  \<open>ngx.print\<close> and \<open>ngx.say\<close> convert their arguments in two passes: the first adds up the sizes, the second writes into a
  buffer of that size. Here are the Lua values they take, the two passes, and that the second stays in the buffer unless
  a light userdata other than \<open>ngx.null\<close> is among the arguments.
\<close>

subsection \<open>Values\<close>

text \<open>
  A key of a table is a number with an integer value, another number, or something else. A table is the list of its entries in the order of
  \<open>lua_next\<close>. A light userdata is \<open>ngx.null\<close> (\<open>VNull\<close>) or another pointer; \<open>VOther\<close> has the name of its type.
\<close>

datatype okey = KNum int | KFrac | KOther

datatype oval =
    VNil
  | VBool bool
  | VNum lua_number
  | VStr bytes
  | VTable "(okey \<times> oval) list"
  | VNull
  | VUdata
  | VOther string

definition bool_text :: "bool \<Rightarrow> bytes" where
  "bool_text b = (if b then ''true'' else ''false'')"

text \<open>\<open>lua_rawgeti\<close>.\<close>

definition rawgeti :: "(okey \<times> oval) list \<Rightarrow> int \<Rightarrow> oval" where
  "rawgeti es i = (case map_of es (KNum i) of None \<Rightarrow> VNil | Some v \<Rightarrow> v)"

definition elems :: "(okey \<times> oval) list \<Rightarrow> int \<Rightarrow> oval list" where
  "elems es m = map (rawgeti es) [1..m]"

lemma size_rawgeti: "size (rawgeti es i) < size (VTable es)"
proof (cases "map_of es (KNum i)")
  case (Some v)
  then have "(KNum i, v) \<in> set es" by (rule map_of_SomeD)
  then have "size_prod (\<lambda>_. 0) size (KNum i, v) \<le> size_list (size_prod (\<lambda>_. 0) size) es"
    by (intro size_list_estimation') auto
  then show ?thesis using Some by (simp add: rawgeti_def)
qed (simp add: rawgeti_def)

lemma size_elems: "v \<in> set (elems es m) \<Longrightarrow> size v < size (VTable es)"
  using size_rawgeti by (auto simp: elems_def)

subsection \<open>The sizes\<close>

text \<open>\<open>None\<close> is undefined behaviour: a key that does not fit an \<open>int\<close> is converted to one, or the counter of a loop overflows. \<open>Inl\<close> is an
  error raised through \<open>luaL_argerror\<close>.\<close>

definition INT_MAX :: int where
  "INT_MAX = 2147483647"

definition to_int :: "int \<Rightarrow> int option" where
  "to_int k = (if k \<le> INT_MAX then Some k else None)"

fun scan_keys :: "int \<Rightarrow> (okey \<times> oval) list \<Rightarrow> (string + int) option" where
  "scan_keys m [] = Some (Inr m)"
| "scan_keys m ((k, v) # es) =
     (case k of
        KNum i \<Rightarrow>
          (if i \<ge> 1 then (if i > m then (case to_int i of None \<Rightarrow> None | Some j \<Rightarrow> scan_keys j es) else scan_keys m es)
           else Some (Inl ''non-array table found''))
      | _ \<Rightarrow> Some (Inl ''non-array table found''))"

fun sum_sizes :: "64 word \<Rightarrow> (string + 64 word) option list \<Rightarrow> (string + 64 word) option" where
  "sum_sizes n [] = Some (Inr n)"
| "sum_sizes n (None # rs) = None"
| "sum_sizes n (Some (Inl e) # rs) = Some (Inl e)"
| "sum_sizes n (Some (Inr k) # rs) = sum_sizes (n + k) rs"

definition len64 :: "bytes \<Rightarrow> 64 word" where
  "len64 s = word_of_nat (length s)"

definition bad_type :: "(string + 64 word) option" where
  "bad_type = Some (Inl ''bad data type %s found'')"

function elem_size :: "lua_rt \<Rightarrow> bool \<Rightarrow> oval \<Rightarrow> (string + 64 word) option" where
  "elem_size rt strict v =
     (case v of
        VNum x \<Rightarrow> Some (Inr (len64 (rt_tostring rt x)))
      | VStr s \<Rightarrow> Some (Inr (len64 s))
      | VNil \<Rightarrow> (if strict then bad_type else Some (Inr 3))
      | VBool b \<Rightarrow> (if strict then bad_type else Some (Inr (if b then 4 else 5)))
      | VTable es \<Rightarrow>
          (case scan_keys 0 es of
             None \<Rightarrow> None
           | Some (Inl e) \<Rightarrow> Some (Inl e)
           | Some (Inr m) \<Rightarrow> (if m = INT_MAX then None else sum_sizes 0 (map (elem_size rt strict) (elems es m))))
      | VNull \<Rightarrow> (if strict then bad_type else Some (Inr 4))
      | VUdata \<Rightarrow> (if strict then bad_type else Some (Inr 0))
      | VOther t \<Rightarrow> bad_type)"
  by pat_completeness auto
termination by (relation "measure (\<lambda>(rt, strict, v). size v)") (auto dest: size_elems)

declare elem_size.simps [simp del]

definition calc_strlen_in_table :: "lua_rt \<Rightarrow> bool \<Rightarrow> (okey \<times> oval) list \<Rightarrow> (string + 64 word) option" where
  "calc_strlen_in_table rt strict es = elem_size rt strict (VTable es)"

subsection \<open>The text\<close>

text \<open>The second pass looks for the greatest key again, without checks; a key that is not an integer does not get here.\<close>

fun copy_max :: "int \<Rightarrow> (okey \<times> oval) list \<Rightarrow> int option" where
  "copy_max m [] = Some m"
| "copy_max m ((k, v) # es) =
     (case k of
        KNum i \<Rightarrow> (if i > m then (case to_int i of None \<Rightarrow> None | Some j \<Rightarrow> copy_max j es) else copy_max m es)
      | KFrac \<Rightarrow> None
      | KOther \<Rightarrow> copy_max m es)"

fun join_texts :: "bytes \<Rightarrow> (string + bytes) option list \<Rightarrow> (string + bytes) option" where
  "join_texts t [] = Some (Inr t)"
| "join_texts t (None # rs) = None"
| "join_texts t (Some (Inl e) # rs) = Some (Inl e)"
| "join_texts t (Some (Inr s) # rs) = join_texts (t @ s) rs"

function elem_text :: "lua_rt \<Rightarrow> oval \<Rightarrow> (string + bytes) option" where
  "elem_text rt v =
     (case v of
        VNum x \<Rightarrow> Some (Inr (rt_tostring rt x))
      | VStr s \<Rightarrow> Some (Inr s)
      | VNil \<Rightarrow> Some (Inr ''nil'')
      | VBool b \<Rightarrow> Some (Inr (bool_text b))
      | VTable es \<Rightarrow>
          (case copy_max 0 es of None \<Rightarrow> None | Some m \<Rightarrow> (if m = INT_MAX then None else join_texts [] (map (elem_text rt) (elems es m))))
      | VNull \<Rightarrow> Some (Inr ''null'')
      | VUdata \<Rightarrow> Some (Inr ''null'')
      | VOther t \<Rightarrow> Some (Inl ''impossible to reach here''))"
  by pat_completeness auto
termination by (relation "measure (\<lambda>(rt, v). size v)") (auto dest: size_elems)

declare elem_text.simps [simp del]

definition copy_str_in_table :: "lua_rt \<Rightarrow> (okey \<times> oval) list \<Rightarrow> (string + bytes) option" where
  "copy_str_in_table rt es = elem_text rt (VTable es)"

subsection \<open>The arguments of print and say\<close>

definition arg_size :: "lua_rt \<Rightarrow> oval \<Rightarrow> (string + 64 word) option" where
  "arg_size rt v =
     (case v of
        VNum x \<Rightarrow> Some (Inr (len64 (rt_tostring rt x)))
      | VStr s \<Rightarrow> Some (Inr (len64 s))
      | VNil \<Rightarrow> Some (Inr 3)
      | VBool b \<Rightarrow> Some (Inr (if b then 4 else 5))
      | VTable es \<Rightarrow> calc_strlen_in_table rt False es
      | VNull \<Rightarrow> Some (Inr 4)
      | VUdata \<Rightarrow> Some (Inr 0)
      | VOther t \<Rightarrow> Some (Inl ''string, number, boolean, nil, ngx.null, or array table expected, but got %s''))"

definition arg_text :: "lua_rt \<Rightarrow> oval \<Rightarrow> (string + bytes) option" where
  "arg_text rt v =
     (case v of
        VNum x \<Rightarrow> Some (Inr (rt_tostring rt x))
      | VStr s \<Rightarrow> Some (Inr s)
      | VNil \<Rightarrow> Some (Inr ''nil'')
      | VBool b \<Rightarrow> Some (Inr (bool_text b))
      | VTable es \<Rightarrow> copy_str_in_table rt es
      | VNull \<Rightarrow> Some (Inr ''null'')
      | VUdata \<Rightarrow> Some (Inr ''null'')
      | VOther t \<Rightarrow> Some (Inl ''impossible to reach here''))"

definition newline_text :: "bool \<Rightarrow> bytes" where
  "newline_text newline = (if newline then [CHR 0x0A] else [])"

definition echo_size :: "lua_rt \<Rightarrow> bool \<Rightarrow> oval list \<Rightarrow> (string + 64 word) option" where
  "echo_size rt newline args =
     (case sum_sizes 0 (map (arg_size rt) args) of
        Some (Inr n) \<Rightarrow> Some (Inr (if newline then n + 1 else n))
      | r \<Rightarrow> r)"

definition echo_text :: "lua_rt \<Rightarrow> bool \<Rightarrow> oval list \<Rightarrow> (string + bytes) option" where
  "echo_text rt newline args =
     (case join_texts [] (map (arg_text rt) args) of
        Some (Inr t) \<Rightarrow> Some (Inr (t @ newline_text newline))
      | r \<Rightarrow> r)"

text \<open>The argument of \<open>send\<close> of a socket.\<close>

definition send_size :: "lua_rt \<Rightarrow> oval \<Rightarrow> (string + 64 word) option" where
  "send_size rt v =
     (case v of
        VNum x \<Rightarrow> Some (Inr (len64 (rt_tostring rt x)))
      | VStr s \<Rightarrow> Some (Inr (len64 s))
      | VTable es \<Rightarrow> calc_strlen_in_table rt True es
      | _ \<Rightarrow> Some (Inl ''string, number, boolean, nil, or array table expected, got %s''))"

definition send_text :: "lua_rt \<Rightarrow> oval \<Rightarrow> (string + bytes) option" where
  "send_text rt v =
     (case v of
        VNum x \<Rightarrow> Some (Inr (rt_tostring rt x))
      | VStr s \<Rightarrow> Some (Inr s)
      | VTable es \<Rightarrow> copy_str_in_table rt es
      | _ \<Rightarrow> Some (Inl ''impossible to reach here''))"

subsection \<open>The passes agree\<close>

text \<open>No light userdata other than \<open>ngx.null\<close> is in the value.\<close>

fun clean :: "oval \<Rightarrow> bool" where
  "clean VUdata \<longleftrightarrow> False"
| "clean (VTable es) \<longleftrightarrow> list_all (\<lambda>(k, v). clean v) es"
| "clean v \<longleftrightarrow> True"

lemma clean_elems: "clean (VTable es) \<Longrightarrow> v \<in> set (elems es m) \<Longrightarrow> clean v"
  by (auto simp: elems_def rawgeti_def list_all_iff split: option.splits dest!: map_of_SomeD)

lemma len64_append [simp]: "len64 (s @ t) = len64 s + len64 t"
  by (simp add: len64_def)

lemma len64_Nil [simp]: "len64 [] = 0"
  by (simp add: len64_def)

lemma scan_copy: "scan_keys m es = Some (Inr k) \<Longrightarrow> copy_max m es = Some k"
proof (induction es arbitrary: m)
  case (Cons e es)
  obtain y v where e: "e = (y, v)" by (cases e)
  then obtain i where "y = KNum i" "i \<ge> 1" using Cons.prems by (auto split: okey.splits if_splits)
  then show ?case using Cons e by (auto split: if_splits option.splits)
qed simp

lemma join_texts_sizes:
  assumes "sum_sizes n (map f vs) = Some (Inr k)"
    "\<And>v a. v \<in> set vs \<Longrightarrow> f v = Some (Inr a) \<Longrightarrow> \<exists>t. g v = Some (Inr t) \<and> len64 t = a"
  shows "\<exists>t. join_texts s (map g vs) = Some (Inr t) \<and> len64 t = len64 s + (k - n)"
  using assms
proof (induction vs arbitrary: n s)
  case (Cons v vs)
  obtain a where a: "f v = Some (Inr a)" using Cons.prems(1) by (cases "f v") (auto split: sum.splits elim!: sum_sizes.elims)
  then obtain t where t: "g v = Some (Inr t)" "len64 t = a" using Cons.prems(2) by auto
  have "sum_sizes (n + a) (map f vs) = Some (Inr k)" using Cons.prems(1) a by simp
  then obtain u where "join_texts (s @ t) (map g vs) = Some (Inr u)" "len64 u = len64 (s @ t) + (k - (n + a))"
    using Cons.IH [of "n + a" "s @ t"] Cons.prems(2) by auto
  then show ?case using t by simp
qed simp

lemma elem_text_size:
  assumes "elem_size rt strict v = Some (Inr n)" "strict \<or> clean v"
  shows "\<exists>t. elem_text rt v = Some (Inr t) \<and> len64 t = n"
  using assms
proof (induction v arbitrary: n rule: measure_induct_rule [of size])
  case (less v)
  show ?case
  proof (cases v)
    case (VTable es)
    obtain m where m: "scan_keys 0 es = Some (Inr m)" "m \<noteq> INT_MAX" "sum_sizes 0 (map (elem_size rt strict) (elems es m)) = Some (Inr n)"
      using less.prems(1) VTable by (auto simp: elem_size.simps [of rt strict "VTable es"] split: option.splits sum.splits if_splits)
    have "\<exists>t. join_texts [] (map (elem_text rt) (elems es m)) = Some (Inr t) \<and> len64 t = len64 [] + (n - 0)"
      by (rule join_texts_sizes [OF m(3)]) (use less.IH VTable less.prems(2) size_elems clean_elems in blast)
    then show ?thesis using VTable scan_copy [OF m(1)] m(2) by (simp add: elem_text.simps [of rt "VTable es"])
  qed (use less.prems in \<open>auto simp: elem_size.simps [of _ _ VNil] elem_size.simps [of _ _ "VBool _"] elem_size.simps [of _ _ "VNum _"] elem_size.simps [of _ _ "VStr _"]
      elem_size.simps [of _ _ VNull] elem_size.simps [of _ _ VUdata] elem_size.simps [of _ _ "VOther _"] elem_text.simps bad_type_def bool_text_def len64_def split: if_splits\<close>)
qed

lemma arg_text_size:
  assumes "arg_size rt v = Some (Inr n)" "clean v"
  shows "\<exists>t. arg_text rt v = Some (Inr t) \<and> len64 t = n"
  using assms elem_text_size [of rt False v n]
  by (cases v) (auto simp: arg_size_def arg_text_def calc_strlen_in_table_def copy_str_in_table_def bool_text_def len64_def)

lemma echo_text_size:
  assumes "echo_size rt newline args = Some (Inr n)" "list_all clean args"
  shows "\<exists>t. echo_text rt newline args = Some (Inr t) \<and> len64 t = n"
proof -
  obtain k where k: "sum_sizes 0 (map (arg_size rt) args) = Some (Inr k)" "n = (if newline then k + 1 else k)"
    using assms(1) by (auto simp: echo_size_def split: option.splits sum.splits if_splits)
  have "\<exists>t. join_texts [] (map (arg_text rt) args) = Some (Inr t) \<and> len64 t = len64 [] + (k - 0)"
    by (rule join_texts_sizes [OF k(1)]) (use assms(2) arg_text_size in \<open>auto simp: list_all_iff\<close>)
  then show ?thesis using k(2) by (auto simp: echo_text_def newline_text_def len64_def)
qed

lemma send_text_size:
  assumes "send_size rt v = Some (Inr n)"
  shows "\<exists>t. send_text rt v = Some (Inr t) \<and> len64 t = n"
  using assms elem_text_size [of rt True v n]
  by (cases v) (auto simp: send_size_def send_text_def calc_strlen_in_table_def copy_str_in_table_def)

end
