(* ===== verification/Output_Chain.thy ===== *)
theory Output_Chain
  imports Output
begin

section \<open>Output buffers (ngx\_stream\_lua\_output.c, ngx\_stream\_lua\_socket\_tcp.c, nginx)\<close>

text \<open>
  What \<open>print\<close> writes goes into a buffer that is put on two chains: the one the writer sends from (\<open>out_chain\<close>) and the busy
  chain of the session. Buffers whose bytes have all been sent go from the front of the busy chain to the free list, from which \<open>print\<close> and
  \<open>send\<close> take the next one. \<open>wire\<close> is what the kernel has taken for the client, \<open>swire\<close> what it has taken for each socket.
\<close>

subsection \<open>State\<close>

record obuf =
  odata :: bytes
  opos :: nat
  ocap :: nat

text \<open>The sending side of a cosocket.\<close>

record wsock =
  w_conn :: bool
  w_closed :: bool
  w_conn_waiting :: bool
  w_waiting :: bool
  w_raw :: bool
  w_req :: "nat option"
  w_len :: "64 word"
  w_handler :: bool
  w_ft :: "16 word"
  w_errno :: "bytes option"

record ostate =
  obufs :: "nat \<Rightarrow> obuf"
  next_buf :: nat
  o_free_bufs :: "nat list"
  downstream_busy_bufs :: "nat list"
  upstream_busy_bufs :: "nat list"
  out_chain :: "nat list"
  wsocks :: "nat \<Rightarrow> wsock option"
  wire :: bytes
  swire :: "nat \<Rightarrow> bytes"
  c_error :: bool
  c_timedout :: bool
  write_error :: bool
  seen_eof :: bool
  acquired_raw_req_socket :: bool
  downstream :: "nat option"
  writing_raw_req_socket :: bool
  flushing :: "nat \<Rightarrow> bool"
  flushing_coros :: int

text \<open>
  The environment of a call: whether the session and its context are there, whether it is the one of \<open>content_by_lua\<close>, which allocations succeed, what the kernel does with the chain (an error takes
  nothing of it) and with single sends, the text of the error code, whether the connection has data in an outer layer, and whether the event calls succeed.
\<close>

datatype send_res = SendErr | Sent nat

datatype send_item = SOk nat | SAgain | SErr

record oenv =
  o_session :: bool
  o_ctx :: bool
  o_content :: bool
  o_mem :: "nat \<Rightarrow> bool"
  o_chain :: send_res
  o_send :: "send_item list"
  o_errno :: "bytes option"
  o_buffered :: bool
  o_delayed :: bool
  o_event :: bool

abbreviation one :: lua_value where
  "one \<equiv> LNumber (num_of_int 1)"

definition bufsize :: "ostate \<Rightarrow> nat \<Rightarrow> nat" where
  "bufsize st b = length (odata (obufs st b)) - opos (obufs st b)"

definition remaining :: "ostate \<Rightarrow> nat \<Rightarrow> bytes" where
  "remaining st b = drop (opos (obufs st b)) (odata (obufs st b))"

definition put_buf :: "nat \<Rightarrow> obuf \<Rightarrow> ostate \<Rightarrow> ostate" where
  "put_buf b x st = st\<lparr>obufs := (obufs st)(b := x)\<rparr>"

definition advance :: "nat \<Rightarrow> nat \<Rightarrow> ostate \<Rightarrow> ostate" where
  "advance b n st = put_buf b ((obufs st b)\<lparr>opos := opos (obufs st b) + n\<rparr>) st"

subsection \<open>Buffers\<close>

definition get_free_buf :: "(nat \<Rightarrow> bool) \<Rightarrow> nat \<Rightarrow> ostate \<Rightarrow> nat option \<times> ostate" where
  "get_free_buf mem len st =
     (case o_free_bufs st of
        b # bs \<Rightarrow>
          (let st = st\<lparr>o_free_bufs := bs\<rparr>
           in if ocap (obufs st b) \<ge> len then (Some b, put_buf b \<lparr>odata = [], opos = 0, ocap = ocap (obufs st b)\<rparr> st)
              else if mem 0 then (Some b, put_buf b \<lparr>odata = [], opos = 0, ocap = len\<rparr> st)
              else (None, st))
      | [] \<Rightarrow>
          (if \<not> mem 0 \<or> \<not> mem 1 then (None, st)
           else (Some (next_buf st), put_buf (next_buf st) \<lparr>odata = [], opos = 0, ocap = len\<rparr> (st\<lparr>next_buf := next_buf st + 1\<rparr>))))"

text \<open>\<open>ngx_copy\<close> to the end of the data; \<open>None\<close> is a write past the end of the buffer.\<close>

definition write_buf :: "nat \<Rightarrow> bytes \<Rightarrow> ostate \<Rightarrow> ostate option" where
  "write_buf b t st =
     (let x = obufs st b
      in if length (odata x) + length t \<le> ocap x then Some (put_buf b (x\<lparr>odata := odata x @ t\<rparr>) st) else None)"

fun reap :: "nat list \<Rightarrow> ostate \<Rightarrow> nat list \<times> ostate" where
  "reap [] st = ([], st)"
| "reap (b # bs) st =
     (if bufsize st b \<noteq> 0 then (b # bs, st)
      else reap bs ((put_buf b ((obufs st b)\<lparr>odata := [], opos := 0\<rparr>) st)\<lparr>o_free_bufs := b # o_free_bufs st\<rparr>))"

text \<open>\<open>ngx_chain_update_chains\<close> with the busy chain of the client or the one of the sockets; all buffers carry the tag of the module.\<close>

definition update_downstream :: "nat list \<Rightarrow> ostate \<Rightarrow> ostate" where
  "update_downstream ins st = (let (busy, st) = reap (downstream_busy_bufs st @ ins) st in st\<lparr>downstream_busy_bufs := busy\<rparr>)"

definition update_upstream :: "nat list \<Rightarrow> ostate \<Rightarrow> ostate" where
  "update_upstream ins st = (let (busy, st) = reap (upstream_busy_bufs st @ ins) st in st\<lparr>upstream_busy_bufs := busy\<rparr>)"

text \<open>\<open>ngx_chain_update_sent\<close>.\<close>

fun update_sent :: "nat \<Rightarrow> nat list \<Rightarrow> ostate \<Rightarrow> nat list \<times> ostate" where
  "update_sent n [] st = ([], st)"
| "update_sent n (b # bs) st =
     (if n = 0 then (b # bs, st)
      else if n \<ge> bufsize st b then update_sent (n - bufsize st b) bs (advance b (bufsize st b) st)
      else (b # bs, advance b n st))"

text \<open>\<open>ngx_chain_writer\<close>: the links for the new buffers, then one call of \<open>send_chain\<close>.\<close>

fun add_links :: "(nat \<Rightarrow> bool) \<Rightarrow> nat \<Rightarrow> nat list \<Rightarrow> ostate \<Rightarrow> bool \<times> ostate" where
  "add_links mem i [] st = (True, st)"
| "add_links mem i (b # bs) st =
     (if bufsize st b = 0 then add_links mem i bs st
      else if \<not> mem i then (False, st)
      else add_links mem (i + 1) bs (st\<lparr>out_chain := out_chain st @ [b]\<rparr>))"

definition chain_writer :: "oenv \<Rightarrow> nat list \<Rightarrow> ostate \<Rightarrow> ngx_rc \<times> ostate" where
  "chain_writer env ins st =
     (case add_links (o_mem env) 2 ins st of
        (False, st) \<Rightarrow> (NGX_ERROR, st)
      | (True, st) \<Rightarrow>
          (if (\<Sum>b\<leftarrow>out_chain st. bufsize st b) = 0 \<and> \<not> o_buffered env then (NGX_OK, st)
           else case o_chain env of
             SendErr \<Rightarrow> (NGX_ERROR, st)
           | Sent n \<Rightarrow>
               (let taken = take n (concat (map (remaining st) (out_chain st)));
                    (out, st) = update_sent n (out_chain st) (st\<lparr>wire := wire st @ taken\<rparr>)
                in (if out = [] \<and> \<not> o_buffered env then NGX_OK else NGX_AGAIN, st\<lparr>out_chain := out\<rparr>))))"

definition send_chain_link :: "oenv \<Rightarrow> nat list \<Rightarrow> ostate \<Rightarrow> ngx_rc \<times> ostate" where
  "send_chain_link env ins st =
     (let (rc, st) = chain_writer env ins st;
          st = (if rc = NGX_ERROR then st\<lparr>c_error := True\<rparr> else st)
      in (rc, update_downstream ins st))"

subsection \<open>print, say, eof and flush\<close>

text \<open>\<open>ngx_stream_lua_check_context\<close> with the flag of \<open>content_by_lua\<close>.\<close>

definition api_disabled :: lua_result where
  "api_disabled = LErr ''API disabled in the context of %s''"

definition echo :: "lua_rt \<Rightarrow> oenv \<Rightarrow> bool \<Rightarrow> oval list \<Rightarrow> ostate \<Rightarrow> (lua_result \<times> ostate) option" where
  "echo rt env newline args st =
     (if \<not> o_session env then Some (LErr ''no session object found'', st)
      else if \<not> o_ctx env then Some (LErr ''no session ctx found'', st)
      else if \<not> o_content env then Some (api_disabled, st)
      else if seen_eof st then Some (LRet [LNil, LString ''seen eof''], st)
      else case echo_size rt newline args of
        None \<Rightarrow> None
      | Some (Inl e) \<Rightarrow> Some (LErr e, st)
      | Some (Inr n) \<Rightarrow>
          (if n = 0 then Some (LRet [one], st)
           else case get_free_buf (o_mem env) (unat n) st of
             (None, st) \<Rightarrow> Some (LErr ''no memory'', st)
           | (Some b, st) \<Rightarrow>
               (case echo_text rt newline args of
                  None \<Rightarrow> None
                | Some (Inl e) \<Rightarrow> Some (LErr e, st)
                | Some (Inr t) \<Rightarrow>
                    (case write_buf b t st of
                       None \<Rightarrow> None
                     | Some st \<Rightarrow>
                         (case send_chain_link env [b] st of
                            (NGX_ERROR, st) \<Rightarrow> Some (LRet [LNil, LString (case o_errno env of Some e \<Rightarrow> e | None \<Rightarrow> ''unknown'')], st)
                          | (_, st) \<Rightarrow> Some (LRet [one], st))))))"

definition ngx_print :: "lua_rt \<Rightarrow> oenv \<Rightarrow> oval list \<Rightarrow> ostate \<Rightarrow> (lua_result \<times> ostate) option" where
  "ngx_print rt env args = echo rt env False args"

definition ngx_say :: "lua_rt \<Rightarrow> oenv \<Rightarrow> oval list \<Rightarrow> ostate \<Rightarrow> (lua_result \<times> ostate) option" where
  "ngx_say rt env args = echo rt env True args"

definition ngx_eof :: "oenv \<Rightarrow> nat \<Rightarrow> ostate \<Rightarrow> lua_result \<times> ostate" where
  "ngx_eof env nargs st =
     (if \<not> o_session env then (LErr ''no session object found'', st)
      else if nargs \<noteq> 0 then (LErr ''no argument is expected'', st)
      else if \<not> o_ctx env then (LErr ''no ctx found'', st)
      else if seen_eof st then (LRet [LNil, LString ''seen eof''], st)
      else (if o_content env then LRet [one] else api_disabled, st\<lparr>seen_eof := True\<rparr>))"

text \<open>\<open>flush\<close> returns or waits; \<open>cur\<close> is the current coroutine. Without a session a null pointer is used (\<open>None\<close>).\<close>

datatype flush_out = FlushRet lua_result | FlushWait

definition ngx_flush :: "oenv \<Rightarrow> nat \<Rightarrow> nat option \<Rightarrow> ostate \<Rightarrow> (flush_out \<times> ostate) option" where
  "ngx_flush env nargs cur st =
     (if nargs > 1 then Some (FlushRet (LErr ''attempt to pass %d arguments, but accepted 0 or 1''), st)
      else if \<not> o_session env then None
      else if \<not> o_ctx env then Some (FlushRet (LErr ''no session ctx found''), st)
      else if \<not> o_content env then Some (FlushRet api_disabled, st)
      else case cur of
        None \<Rightarrow> Some (FlushRet (LErr ''no co ctx found''), st)
      | Some c \<Rightarrow>
          (if seen_eof st then Some (FlushRet (LRet [LNil, LString ''seen eof'']), st)
           else if downstream_busy_bufs st \<noteq> [] \<or> o_delayed env then
             (let st = st\<lparr>flushing := (flushing st)(c := True), flushing_coros := flushing_coros st + 1\<rparr>
              in Some (if \<not> o_event env then (FlushRet (LRet [LNil, LString ''connection broken'']), st) else (FlushWait, st)))
           else Some (FlushRet (LRet [one]), st)))"

text \<open>What a flushing coroutine is resumed with, and the cleanup of one that is killed.\<close>

definition flush_retvals :: "ostate \<Rightarrow> lua_value list" where
  "flush_retvals st =
     (if c_timedout st then [LNil, LString ''timeout'']
      else if c_error st then [LNil, LString ''client aborted'']
      else [one])"

definition flush_cleanup :: "oenv \<Rightarrow> nat \<Rightarrow> ostate \<Rightarrow> ostate" where
  "flush_cleanup env c st =
     (let st = st\<lparr>flushing := (flushing st)(c := False)\<rparr>
      in if \<not> o_session env \<or> \<not> o_ctx env then st else st\<lparr>flushing_coros := flushing_coros st - 1\<rparr>)"

definition flush_pending_output :: "oenv \<Rightarrow> ostate \<Rightarrow> ngx_rc \<times> ostate" where
  "flush_pending_output env st = (if downstream_busy_bufs st \<noteq> [] then send_chain_link env [] st else (NGX_OK, st))"

end
