(* ===== verification/Socket_Send.thy ===== *)
theory Socket_Send
  imports Output_Chain Socket_Read
begin

section \<open>Sending on a TCP cosocket (ngx\_stream\_lua\_socket\_tcp.c)\<close>

text \<open>
  \<open>send\<close> copies its argument into one buffer and hands it to the kernel until all of it is taken; when the kernel takes no more, the
  coroutine waits and the write handler goes on. A call returns (\<open>SRet\<close>) or waits (\<open>SYield\<close>).
\<close>

datatype send_out = SRet lua_result | SYield

definition set_wsock :: "nat \<Rightarrow> wsock \<Rightarrow> ostate \<Rightarrow> ostate" where
  "set_wsock u w st = st\<lparr>wsocks := (wsocks st)(u := Some w)\<rparr>"

text \<open>The bytes the kernel takes for a socket; those of a raw socket go to the client.\<close>

definition put_wire :: "nat \<Rightarrow> wsock \<Rightarrow> bytes \<Rightarrow> ostate \<Rightarrow> ostate" where
  "put_wire u w t st = (if w_raw w then st\<lparr>wire := wire st @ t\<rparr> else st\<lparr>swire := (swire st)(u := swire st u @ t)\<rparr>)"

fun send_loop :: "nat \<Rightarrow> wsock \<Rightarrow> nat \<Rightarrow> send_item list \<Rightarrow> ostate \<Rightarrow> ngx_rc \<times> ostate" where
  "send_loop u w b [] st = (NGX_AGAIN, st)"
| "send_loop u w b (SAgain # io) st = (NGX_AGAIN, st)"
| "send_loop u w b (SErr # io) st = (NGX_ERROR, st)"
| "send_loop u w b (SOk n # io) st =
     (let n = min n (bufsize st b); t = take n (remaining st b); st = advance b n (put_wire u w t st)
      in if bufsize st b = 0 then (NGX_OK, st) else send_loop u w b io st)"

text \<open>The flag tells whether the waiting coroutine is resumed; \<open>None\<close> is the use of a context that is not there.\<close>

definition handle_write_success :: "wsock \<Rightarrow> bool \<times> wsock" where
  "handle_write_success w = (w_waiting w, w\<lparr>w_handler := False, w_waiting := False\<rparr>)"

definition handle_write_error :: "oenv \<Rightarrow> 16 word \<Rightarrow> wsock \<Rightarrow> (bool \<times> wsock) option" where
  "handle_write_error env ft w =
     (if w_waiting w \<and> \<not> o_ctx env then None else Some (w_waiting w, w\<lparr>w_ft := w_ft w OR ft, w_handler := False, w_waiting := False\<rparr>))"

text \<open>\<open>send_failed\<close> is the return after a write error.\<close>

definition send_failed :: "oenv \<Rightarrow> nat \<Rightarrow> wsock \<Rightarrow> ostate \<Rightarrow> (ngx_rc \<times> bool \<times> ostate) option" where
  "send_failed env u w st =
     (case handle_write_error env FT_ERROR w of None \<Rightarrow> None | Some (wk, w) \<Rightarrow> Some (NGX_ERROR, wk, set_wsock u w st))"

text \<open>\<open>None\<close> is also the use of \<open>request_bufs\<close> or of a socket that is not there.\<close>

definition socket_send :: "oenv \<Rightarrow> nat \<Rightarrow> ostate \<Rightarrow> (ngx_rc \<times> bool \<times> ostate) option" where
  "socket_send env u st =
     (case wsocks st u of
        None \<Rightarrow> None
      | Some w \<Rightarrow>
     (if \<not> o_ctx env then send_failed env u w st
      else case w_req w of
        None \<Rightarrow> None
      | Some b \<Rightarrow>
          (case send_loop u w b (o_send env) st of
             (rc, st) \<Rightarrow>
               (if rc = NGX_OK then
                  (let w = w\<lparr>w_req := None, w_handler := False\<rparr>;
                       st = (if w_raw w then update_downstream [b] st else update_upstream [b] st)
                   in if \<not> o_event env then send_failed env u w st
                      else (let (wk, w) = handle_write_success w in Some (NGX_OK, wk, set_wsock u w st)))
                else if rc = NGX_ERROR then
                  send_failed env u (w\<lparr>w_errno := o_errno env\<rparr>) (if w_raw w then st\<lparr>c_error := True\<rparr> else st)
                else
                  (let w = w\<lparr>w_handler := True\<rparr>;
                       st = (if w_raw w then st\<lparr>writing_raw_req_socket := True\<rparr> else st)
                   in if \<not> o_event env then send_failed env u w st
                      else Some (NGX_AGAIN, False, set_wsock u w st))))))"

definition finalize_write_part :: "oenv \<Rightarrow> nat \<Rightarrow> wsock \<Rightarrow> ostate \<Rightarrow> wsock \<times> ostate" where
  "finalize_write_part env u w st =
     (if w_closed w then (w, st)
      else (w\<lparr>w_closed := True\<rparr>,
            if w_raw w \<and> o_ctx env \<and> writing_raw_req_socket st then st\<lparr>writing_raw_req_socket := False, write_error := True\<rparr> else st))"

definition write_error_retval :: "oenv \<Rightarrow> nat \<Rightarrow> wsock \<Rightarrow> ostate \<Rightarrow> lua_result \<times> ostate" where
  "write_error_retval env u w st =
     (let (w, st) = finalize_write_part env u w st
      in (LRet (prepare_error_retvals (w_errno w) (w_ft w)), set_wsock u (w\<lparr>w_ft := 0\<rparr>) st))"

definition send_retval :: "oenv \<Rightarrow> nat \<Rightarrow> ostate \<Rightarrow> (lua_result \<times> ostate) option" where
  "send_retval env u st =
     (case wsocks st u of
        None \<Rightarrow> None
      | Some w \<Rightarrow> Some (if w_ft w \<noteq> 0 then write_error_retval env u w st else (LRet [LNumber (num_of_int (uint (w_len w)))], st)))"

text \<open>The rest of \<open>send\<close> once the text is in the buffer of the request.\<close>

definition send_written :: "oenv \<Rightarrow> bool \<Rightarrow> nat \<Rightarrow> wsock \<Rightarrow> ostate \<Rightarrow> (send_out \<times> ostate) option" where
  "send_written env nodelay u w st =
     (if \<not> nodelay then Some (SRet (LRet [LNil, LString ''setsocketopt tcp_nodelay failed'']), set_wsock u w st)
      else case socket_send env u (set_wsock u (w\<lparr>w_waiting := False\<rparr>) st) of
        None \<Rightarrow> None
      | Some (rc, wk, st) \<Rightarrow>
          (case wsocks st u of
             None \<Rightarrow> None
           | Some w \<Rightarrow>
               Some (if rc = NGX_ERROR then (case write_error_retval env u w st of (r, st) \<Rightarrow> (SRet r, st))
                     else if rc = NGX_OK then (SRet (LRet [LNumber (num_of_int (uint (w_len w)))]), st)
                     else (SYield, set_wsock u (w\<lparr>w_waiting := True\<rparr>) (if w_raw w then st\<lparr>writing_raw_req_socket := True\<rparr> else st)))))"

text \<open>The method \<open>send\<close>: \<open>same_request\<close> tells whether the socket belongs to the session, \<open>nodelay\<close> whether \<open>TCP_NODELAY\<close> is set or could be
  set.\<close>

definition tcp_send :: "lua_rt \<Rightarrow> oenv \<Rightarrow> bool \<Rightarrow> bool \<Rightarrow> nat \<Rightarrow> nat \<Rightarrow> oval \<Rightarrow> ostate \<Rightarrow> (send_out \<times> ostate) option" where
  "tcp_send rt env same_request nodelay nargs u v st =
     (if nargs \<noteq> 2 then Some (SRet (LErr ''expecting 2 arguments (including the object), but got %d''), st)
      else if \<not> o_session env then Some (SRet (LErr ''no request found''), st)
      else case wsocks st u of
        None \<Rightarrow> Some (SRet (LRet [LNil, LString ''closed'']), st)
      | Some w \<Rightarrow>
     (if \<not> w_conn w \<or> w_closed w then Some (SRet (LRet [LNil, LString ''closed'']), st)
      else if \<not> same_request then Some (SRet (LErr ''bad request''), st)
      else if w_conn_waiting w then Some (SRet (LRet [LNil, LString ''socket busy connecting'']), st)
      else if w_waiting w then Some (SRet (LRet [LNil, LString ''socket busy writing'']), st)
      else if w_raw w \<and> o_buffered env then Some (SRet (LRet [LNil, LString ''socket busy writing'']), st)
      else case send_size rt v of
        None \<Rightarrow> None
      | Some (Inl e) \<Rightarrow> Some (SRet (LErr e), st)
      | Some (Inr len) \<Rightarrow>
          (if len = 0 then Some (SRet (LRet [LNumber (num_of_int 0)]), st)
           else if \<not> o_ctx env then None
           else case get_free_buf (o_mem env) (unat len) st of
             (None, st) \<Rightarrow> Some (SRet (LErr ''no memory''), st)
           | (Some b, st) \<Rightarrow>
               (case send_text rt v of
                  None \<Rightarrow> None
                | Some (Inl e) \<Rightarrow> Some (SRet (LErr e), st)
                | Some (Inr t) \<Rightarrow>
                    (case write_buf b t st of
                       None \<Rightarrow> None
                     | Some st \<Rightarrow> send_written env nodelay u (w\<lparr>w_req := Some b, w_len := len\<rparr>) st)))))"

text \<open>The write event of a socket: the value the waiting call returns, if it returns.\<close>

definition resume_send :: "oenv \<Rightarrow> nat \<Rightarrow> bool \<Rightarrow> ostate \<Rightarrow> (lua_result option \<times> ostate) option" where
  "resume_send env u wk st = (if wk then map_option (\<lambda>(r, st). (Some r, st)) (send_retval env u st) else Some (None, st))"

definition send_handler :: "oenv \<Rightarrow> bool \<Rightarrow> nat \<Rightarrow> wsock \<Rightarrow> ostate \<Rightarrow> (lua_result option \<times> ostate) option" where
  "send_handler env timeout u w st =
     (if timeout then
        (case handle_write_error env FT_TIMEOUT w of None \<Rightarrow> None | Some (wk, w) \<Rightarrow> resume_send env u wk (set_wsock u w st))
      else if w_req w = None then Some (None, st)
      else case socket_send env u st of None \<Rightarrow> None | Some (rc, wk, st) \<Rightarrow> resume_send env u wk st)"

definition write_event :: "oenv \<Rightarrow> bool \<Rightarrow> nat \<Rightarrow> ostate \<Rightarrow> (lua_result option \<times> ostate) option" where
  "write_event env timeout u st =
     (case wsocks st u of None \<Rightarrow> None | Some w \<Rightarrow> (if w_handler w then send_handler env timeout u w st else Some (None, st)))"

subsection \<open>The raw request socket\<close>

definition raw_sock :: wsock where
  "raw_sock = \<lparr>w_conn = True, w_closed = False, w_conn_waiting = False, w_waiting = False, w_raw = True, w_req = None, w_len = 0,
     w_handler = False, w_ft = 0, w_errno = None\<rparr>"

text \<open>\<open>u\<close> is the new socket; the allocations are the socket and its cleanup. Without a session a null pointer is used.\<close>

definition req_socket :: "oenv \<Rightarrow> nat \<Rightarrow> nat \<Rightarrow> ostate \<Rightarrow> (lua_result \<times> ostate) option" where
  "req_socket env nargs u st =
     (if nargs > 1 then Some (LErr ''expecting zero arguments, but got %d'', st)
      else if \<not> o_session env then None
      else if \<not> o_ctx env then Some (LErr ''no ctx found'', st)
      else if \<not> o_content env then Some (api_disabled, st)
      else if downstream_busy_bufs st \<noteq> [] then Some (LRet [LNil, LString ''pending data to write''], st)
      else if acquired_raw_req_socket st then Some (LRet [LNil, LString ''duplicate call''], st)
      else
        (let st = st\<lparr>acquired_raw_req_socket := True\<rparr>
         in if \<not> o_mem env 0 then Some (LErr ''no memory'', st)
            else if \<not> o_mem env 1 then
              Some (LRet [LNil, LString ''no memory''], set_wsock u (raw_sock\<lparr>w_conn := False, w_ft := FT_ERROR\<rparr>) st)
            else Some (LRet [LTable False], set_wsock u raw_sock (st\<lparr>downstream := Some u\<rparr>))))"

subsection \<open>The write event of the client (ngx\_stream\_lua\_util.c)\<close>

text \<open>
  What is pending is sent, and when it is out, or the connection failed or timed out, the coroutines in \<open>flush\<close> are resumed (\<open>WFlush\<close>). The event has
  its flags \<open>timedout\<close>, \<open>ready\<close> and \<open>delayed\<close>; \<open>session_done\<close> tells that the session is being finalized, \<open>entered\<close> that it
  is in the content phase. \<open>WFinalize a b\<close> finalizes the session with \<open>a\<close> and returns \<open>b\<close>; \<open>WRaw\<close> is the event of the raw socket.
\<close>

record wevent =
  timedout :: bool
  ready :: bool
  delayed :: bool
  session_done :: bool
  entered :: bool

datatype wev_out = WReturn ngx_rc | WFinalize ngx_rc ngx_rc | WRaw "lua_result option" | WFlush

definition wev_useless :: "wevent \<Rightarrow> ostate \<Rightarrow> wev_out" where
  "wev_useless ev st =
     (if entered ev then
        (if (c_timedout st \<or> c_error st) \<and> session_done ev then WFinalize NGX_DONE NGX_OK else WReturn NGX_OK)
      else WReturn NGX_DONE)"

definition flush_coros :: "wevent \<Rightarrow> ostate \<Rightarrow> wev_out" where
  "flush_coros ev st = (if flushing_coros st \<noteq> 0 then WFlush else wev_useless ev st)"

definition wev_handler :: "oenv \<Rightarrow> wevent \<Rightarrow> ostate \<Rightarrow> (wev_out \<times> ostate) option" where
  "wev_handler env ev st =
     (let raw = writing_raw_req_socket st; tout = timedout ev \<and> raw
      in if timedout ev \<and> \<not> raw \<and> \<not> delayed ev then
           (let st = st\<lparr>c_timedout := True\<rparr>
            in Some (if session_done ev then WFinalize NGX_DONE NGX_OK else flush_coros ev st, st))
         else if timedout ev \<and> \<not> raw \<and> \<not> ready ev \<and> \<not> o_event env then
           Some (if entered ev then WFinalize NGX_ERROR NGX_ERROR else WReturn NGX_ERROR, st)
         else if \<not> ready ev \<and> \<not> tout then Some (wev_useless ev st, st)
         else if raw then
           (let st = st\<lparr>writing_raw_req_socket := False\<rparr>
            in case downstream st of
                 None \<Rightarrow> Some (WReturn NGX_ERROR, st)
               | Some u \<Rightarrow> (case write_event env tout u st of None \<Rightarrow> None | Some (r, st) \<Rightarrow> Some (WRaw r, st)))
         else if downstream_busy_bufs st \<noteq> [] then
           (case flush_pending_output env st of
              (rc, st) \<Rightarrow>
                Some (if rc \<noteq> NGX_ERROR \<and> rc \<noteq> NGX_OK then wev_useless ev st
                      else if downstream_busy_bufs st = [] \<and> session_done ev then WFinalize NGX_DONE NGX_DONE
                      else flush_coros ev st, st))
         else Some (flush_coros ev st, st))"

end
