(* ===== verification/Output_Inv.thy ===== *)
theory Output_Inv
  imports Socket_Send
begin

section \<open>The invariant of the output buffers\<close>

text \<open>
  A buffer is in one place: free, busy, or the request of one socket. The writer's chain is a part of the busy chain in its order and has only buffers with
  bytes to send, so no buffer is reused before its bytes are out.
\<close>

definition bufs_ok :: "ostate \<Rightarrow> bool" where
  "bufs_ok st \<longleftrightarrow> (\<forall>b. opos (obufs st b) \<le> length (odata (obufs st b)) \<and> length (odata (obufs st b)) \<le> ocap (obufs st b))"

definition lists_ok :: "ostate \<Rightarrow> bool" where
  "lists_ok st \<longleftrightarrow> distinct (o_free_bufs st @ downstream_busy_bufs st @ upstream_busy_bufs st) \<and>
     (\<forall>b\<in>set (o_free_bufs st @ downstream_busy_bufs st @ upstream_busy_bufs st). b < next_buf st)"

definition reqs_ok :: "ostate \<Rightarrow> bool" where
  "reqs_ok st \<longleftrightarrow> (\<forall>u w b. wsocks st u = Some w \<longrightarrow> w_req w = Some b \<longrightarrow>
     b < next_buf st \<and> b \<notin> set (o_free_bufs st @ downstream_busy_bufs st @ upstream_busy_bufs st) \<and>
     (\<forall>u' w'. wsocks st u' = Some w' \<longrightarrow> w_req w' = Some b \<longrightarrow> u' = u))"

definition chain_ok :: "ostate \<Rightarrow> bool" where
  "chain_ok st \<longleftrightarrow> subseq (out_chain st) (downstream_busy_bufs st) \<and> (\<forall>b\<in>set (out_chain st). bufsize st b > 0)"

definition oinv :: "ostate \<Rightarrow> bool" where
  "oinv st \<longleftrightarrow> bufs_ok st \<and> lists_ok st \<and> reqs_ok st \<and> chain_ok st"

definition unsent :: "ostate \<Rightarrow> bytes" where
  "unsent st = concat (map (remaining st) (out_chain st))"

lemma length_remaining [simp]: "length (remaining st b) = bufsize st b"
  by (simp add: remaining_def bufsize_def)

lemma bufsize_cong: "obufs st' b = obufs st b \<Longrightarrow> bufsize st' b = bufsize st b"
  by (simp add: bufsize_def)

lemma remaining_cong: "obufs st' b = obufs st b \<Longrightarrow> remaining st' b = remaining st b"
  by (simp add: remaining_def)

lemma obufs_frame [simp]:
  "remaining (st\<lparr>out_chain := x\<rparr>) = remaining st" "remaining (st\<lparr>wire := y\<rparr>) = remaining st" "remaining (st\<lparr>wsocks := z\<rparr>) = remaining st"
  "remaining (st\<lparr>c_error := e\<rparr>) = remaining st" "remaining (st\<lparr>swire := f\<rparr>) = remaining st"
  "bufsize (st\<lparr>out_chain := x\<rparr>) = bufsize st" "bufsize (st\<lparr>wire := y\<rparr>) = bufsize st" "bufsize (st\<lparr>wsocks := z\<rparr>) = bufsize st"
  "bufsize (st\<lparr>c_error := e\<rparr>) = bufsize st" "bufsize (st\<lparr>swire := f\<rparr>) = bufsize st"
  "remaining (st\<lparr>c_timedout := e\<rparr>) = remaining st" "bufsize (st\<lparr>c_timedout := e\<rparr>) = bufsize st"
  "remaining (st\<lparr>write_error := e\<rparr>) = remaining st" "bufsize (st\<lparr>write_error := e\<rparr>) = bufsize st"
  "remaining (st\<lparr>seen_eof := e\<rparr>) = remaining st" "bufsize (st\<lparr>seen_eof := e\<rparr>) = bufsize st"
  "remaining (st\<lparr>writing_raw_req_socket := e\<rparr>) = remaining st" "bufsize (st\<lparr>writing_raw_req_socket := e\<rparr>) = bufsize st"
  "remaining (st\<lparr>flushing := g\<rparr>) = remaining st" "bufsize (st\<lparr>flushing := g\<rparr>) = bufsize st"
  "remaining (st\<lparr>flushing_coros := h\<rparr>) = remaining st" "bufsize (st\<lparr>flushing_coros := h\<rparr>) = bufsize st"
  "remaining (st\<lparr>acquired_raw_req_socket := e\<rparr>) = remaining st" "bufsize (st\<lparr>acquired_raw_req_socket := e\<rparr>) = bufsize st"
  "remaining (st\<lparr>downstream := k\<rparr>) = remaining st" "bufsize (st\<lparr>downstream := k\<rparr>) = bufsize st"
  by (simp_all add: fun_eq_iff remaining_def bufsize_def)

lemma obufs_swap [simp]: "remaining (st\<lparr>obufs := obufs st'\<rparr>) = remaining st'" "bufsize (st\<lparr>obufs := obufs st'\<rparr>) = bufsize st'"
  by (simp_all add: fun_eq_iff remaining_def bufsize_def)

lemmas obuf_defs = put_buf_def advance_def bufsize_def remaining_def

text \<open>What the two passes over a chain do.\<close>

lemma reap_spec:
  assumes "reap bs st = (bs', st')" "distinct bs"
  shows "\<exists>gone. bs = gone @ bs' \<and> (\<forall>b\<in>set gone. bufsize st b = 0) \<and> o_free_bufs st' = rev gone @ o_free_bufs st \<and>
    (\<forall>b. obufs st' b = (if b \<in> set gone then (obufs st b)\<lparr>odata := [], opos := 0\<rparr> else obufs st b)) \<and>
    (bs' = [] \<or> bufsize st (hd bs') \<noteq> 0) \<and> st' = st\<lparr>obufs := obufs st', o_free_bufs := o_free_bufs st'\<rparr>"
  using assms
proof (induction bs arbitrary: st)
  case (Cons b bs)
  show ?case
  proof (cases "bufsize st b = 0")
    case True
    let ?s = "(put_buf b ((obufs st b)\<lparr>odata := [], opos := 0\<rparr>) st)\<lparr>o_free_bufs := b # o_free_bufs st\<rparr>"
    obtain ds where d: "bs = ds @ bs'" "\<forall>d\<in>set ds. bufsize ?s d = 0" "o_free_bufs st' = rev ds @ o_free_bufs ?s"
      "\<forall>d. obufs st' d = (if d \<in> set ds then (obufs ?s d)\<lparr>odata := [], opos := 0\<rparr> else obufs ?s d)"
      "bs' = [] \<or> bufsize ?s (hd bs') \<noteq> 0" "st' = ?s\<lparr>obufs := obufs st', o_free_bufs := o_free_bufs st'\<rparr>"
      using Cons True by fastforce
    have same: "bufsize ?s d = bufsize st d" if "d \<in> set bs" for d using that Cons.prems(2) by (auto simp: obuf_defs)
    have front: "bs' = [] \<or> bufsize st (hd bs') \<noteq> 0" using d(1,5) same by (cases bs') auto
    have zero: "\<forall>d\<in>set (b # ds). bufsize st d = 0" using d(1,2) same True by auto
    have mem: "\<forall>d. obufs st' d = (if d \<in> set (b # ds) then (obufs st d)\<lparr>odata := [], opos := 0\<rparr> else obufs st d)"
      using d(4) Cons.prems(2) d(1) by (auto simp: obuf_defs)
    have rest: "st' = st\<lparr>obufs := obufs st', o_free_bufs := o_free_bufs st'\<rparr>" using d(6) by (simp add: put_buf_def)
    have "b # bs = (b # ds) @ bs'" "o_free_bufs st' = rev (b # ds) @ o_free_bufs st" using d(1,3) by simp_all
    then show ?thesis using zero mem front rest by blast
  next
    case False
    then show ?thesis using Cons.prems(1) by auto
  qed
qed auto

lemma update_sent_spec:
  assumes "update_sent n bs st = (bs', st')" "distinct bs" "\<forall>b\<in>set bs. bufsize st b > 0"
  shows "\<exists>gone. bs = gone @ bs' \<and> (\<forall>b\<in>set gone. bufsize st' b = 0) \<and> (\<forall>b\<in>set bs'. bufsize st' b > 0) \<and>
    concat (map (remaining st') bs') = drop n (concat (map (remaining st) bs)) \<and>
    (\<forall>b. odata (obufs st' b) = odata (obufs st b) \<and> ocap (obufs st' b) = ocap (obufs st b)) \<and> (\<forall>b. b \<notin> set bs \<longrightarrow> obufs st' b = obufs st b) \<and>
    (\<forall>b. opos (obufs st b) \<le> length (odata (obufs st b)) \<longrightarrow> opos (obufs st' b) \<le> length (odata (obufs st b))) \<and> st' = st\<lparr>obufs := obufs st'\<rparr>"
  using assms
proof (induction bs arbitrary: n st)
  case (Cons b bs)
  consider "n = 0" | "n \<noteq> 0" "n < bufsize st b" | "n \<noteq> 0" "n \<ge> bufsize st b" by linarith
  then show ?case
  proof cases
    case 1
    then show ?thesis using Cons.prems by auto
  next
    case 2
    let ?s = "advance b n st"
    have e: "bs' = b # bs" "st' = ?s" using 2 Cons.prems(1) by auto
    have o: "obufs ?s d = obufs st d" if "d \<noteq> b" for d using that by (simp add: obuf_defs)
    have mp: "map (remaining ?s) bs = map (remaining st) bs" using Cons.prems(2) by (intro list.map_cong0 remaining_cong o) auto
    have rm: "remaining ?s b = drop n (remaining st b)" by (simp add: obuf_defs add.commute)
    have cat: "concat (map (remaining ?s) (b # bs)) = drop n (concat (map (remaining st) (b # bs)))"
      unfolding list.map concat.simps mp rm using 2 by simp
    have pos: "bufsize ?s d > 0" if "d \<in> set (b # bs)" for d
    proof (cases "d = b")
      case True
      then show ?thesis using 2 by (simp add: obuf_defs)
    next
      case False
      then show ?thesis using Cons.prems(3) that by (simp add: bufsize_cong [OF o])
    qed
    have le: "opos (obufs ?s d) \<le> length (odata (obufs st d))" if "opos (obufs st d) \<le> length (odata (obufs st d))" for d
      using that 2 by (cases "d = b") (simp_all add: obuf_defs)
    have mem: "odata (obufs ?s d) = odata (obufs st d) \<and> ocap (obufs ?s d) = ocap (obufs st d)" for d by (simp add: obuf_defs)
    have rest: "?s = st\<lparr>obufs := obufs ?s\<rparr>" by (simp add: obuf_defs)
    show ?thesis unfolding e by (rule exI [of _ "[]"]) (use cat pos le mem o rest in auto)
  next
    case 3
    let ?m = "bufsize st b" let ?s = "advance b ?m st"
    have o: "obufs ?s d = obufs st d" if "d \<noteq> b" for d using that by (simp add: obuf_defs)
    have bn: "b \<notin> set bs" using Cons.prems(2) by simp
    have "\<forall>d\<in>set bs. bufsize ?s d > 0" using Cons.prems(3) o bn bufsize_cong by (metis list.set_intros(2))
    moreover have "update_sent (n - ?m) bs ?s = (bs', st')" using 3 Cons.prems(1) by simp
    ultimately obtain ds where d: "bs = ds @ bs'" "\<forall>d\<in>set ds. bufsize st' d = 0" "\<forall>d\<in>set bs'. bufsize st' d > 0"
      "concat (map (remaining st') bs') = drop (n - ?m) (concat (map (remaining ?s) bs))"
      "\<forall>d. odata (obufs st' d) = odata (obufs ?s d) \<and> ocap (obufs st' d) = ocap (obufs ?s d)" "\<forall>d. d \<notin> set bs \<longrightarrow> obufs st' d = obufs ?s d"
      "\<forall>d. opos (obufs ?s d) \<le> length (odata (obufs ?s d)) \<longrightarrow> opos (obufs st' d) \<le> length (odata (obufs ?s d))" "st' = ?s\<lparr>obufs := obufs st'\<rparr>"
      using Cons.IH [of "n - ?m" ?s] Cons.prems(2) by fastforce
    have "obufs st' b = obufs ?s b" using d(6) bn by blast
    then have zb: "bufsize st' b = 0" by (simp add: obuf_defs)
    have mp: "map (remaining ?s) bs = map (remaining st) bs" using bn by (intro list.map_cong0 remaining_cong o) auto
    have "concat (map (remaining st') bs') = drop n (concat (map (remaining st) (b # bs)))" using d(4) [unfolded mp] 3(2) by simp
    moreover have "opos (obufs st' d) \<le> length (odata (obufs st d))" if "opos (obufs st d) \<le> length (odata (obufs st d))" for d
      using spec [OF d(7), of d] that by (cases "d = b") (simp_all add: obuf_defs)
    moreover have "\<forall>d. odata (obufs st' d) = odata (obufs st d) \<and> ocap (obufs st' d) = ocap (obufs st d)" using d(5) by (simp add: obuf_defs)
    moreover have "\<forall>d. d \<notin> set (b # bs) \<longrightarrow> obufs st' d = obufs st d" using d(6) o by simp
    moreover have "st' = st\<lparr>obufs := obufs st'\<rparr>" using d(8) by (simp add: obuf_defs)
    ultimately show ?thesis using d(1-3) zb by (intro exI [of _ "b # ds"]) simp
  qed
qed auto

text \<open>Buffers without bytes leave a chain of buffers that have some.\<close>

lemma subseq_skip:
  assumes "subseq xs (ds @ ys)" "set xs \<inter> set ds = {}"
  shows "subseq xs ys"
  using assms
proof (induction ds)
  case (Cons d ds)
  then have "subseq xs (ds @ ys)" by (cases xs) (auto split: if_splits)
  then show ?case using Cons by simp
qed simp

lemma subseq_imp_distinct: "subseq xs ys \<Longrightarrow> distinct ys \<Longrightarrow> distinct xs"
  by (induction rule: list_emb.induct) (auto dest: list_emb_set)

lemma unsent_cong: "out_chain st' = out_chain st \<Longrightarrow> (\<And>b. b \<in> set (out_chain st) \<Longrightarrow> remaining st' b = remaining st b) \<Longrightarrow> unsent st' = unsent st"
  unfolding unsent_def by (metis map_eq_conv)

text \<open>\<open>ins\<close> are buffers that are in no list yet.\<close>

definition entering :: "nat list \<Rightarrow> ostate \<Rightarrow> bool" where
  "entering ins st \<longleftrightarrow> bufs_ok st \<and> distinct (o_free_bufs st @ downstream_busy_bufs st @ ins @ upstream_busy_bufs st) \<and>
     (\<forall>b\<in>set (o_free_bufs st @ downstream_busy_bufs st @ ins @ upstream_busy_bufs st). b < next_buf st) \<and>
     (\<forall>u w b. wsocks st u = Some w \<longrightarrow> w_req w = Some b \<longrightarrow>
        b < next_buf st \<and> b \<notin> set (o_free_bufs st @ downstream_busy_bufs st @ ins @ upstream_busy_bufs st) \<and>
        (\<forall>u' w'. wsocks st u' = Some w' \<longrightarrow> w_req w' = Some b \<longrightarrow> u' = u)) \<and>
     subseq (out_chain st) (downstream_busy_bufs st @ ins) \<and> (\<forall>b\<in>set (out_chain st). bufsize st b > 0)"

lemma entering_Nil: "entering [] st \<longleftrightarrow> oinv st"
  by (simp add: entering_def oinv_def lists_ok_def reqs_ok_def chain_ok_def)

lemma enteringD:
  assumes "entering ins st"
  shows "bufs_ok st" "distinct (o_free_bufs st @ downstream_busy_bufs st @ ins @ upstream_busy_bufs st)"
    "b \<in> set (o_free_bufs st @ downstream_busy_bufs st @ ins @ upstream_busy_bufs st) \<Longrightarrow> b < next_buf st"
    "wsocks st u = Some w \<Longrightarrow> w_req w = Some b \<Longrightarrow> b < next_buf st"
    "wsocks st u = Some w \<Longrightarrow> w_req w = Some b \<Longrightarrow> b \<notin> set (o_free_bufs st @ downstream_busy_bufs st @ ins @ upstream_busy_bufs st)"
    "wsocks st u = Some w \<Longrightarrow> w_req w = Some b \<Longrightarrow> wsocks st u' = Some w' \<Longrightarrow> w_req w' = Some b \<Longrightarrow> u' = u"
    "subseq (out_chain st) (downstream_busy_bufs st @ ins)" "b \<in> set (out_chain st) \<Longrightarrow> bufsize st b > 0"
  using assms unfolding entering_def by blast+

lemma enteringI:
  assumes "bufs_ok st" "distinct (o_free_bufs st @ downstream_busy_bufs st @ ins @ upstream_busy_bufs st)"
    "\<And>b. b \<in> set (o_free_bufs st @ downstream_busy_bufs st @ ins @ upstream_busy_bufs st) \<Longrightarrow> b < next_buf st"
    "\<And>u w b. wsocks st u = Some w \<Longrightarrow> w_req w = Some b \<Longrightarrow> b < next_buf st"
    "\<And>u w b. wsocks st u = Some w \<Longrightarrow> w_req w = Some b \<Longrightarrow> b \<notin> set (o_free_bufs st @ downstream_busy_bufs st @ ins @ upstream_busy_bufs st)"
    "\<And>u w u' w' b. wsocks st u = Some w \<Longrightarrow> w_req w = Some b \<Longrightarrow> wsocks st u' = Some w' \<Longrightarrow> w_req w' = Some b \<Longrightarrow> u' = u"
    "subseq (out_chain st) (downstream_busy_bufs st @ ins)" "\<And>b. b \<in> set (out_chain st) \<Longrightarrow> bufsize st b > 0"
  shows "entering ins st"
  using assms unfolding entering_def by blast

lemma entering_out:
  assumes "entering ins st" "o_free_bufs st' = o_free_bufs st" "downstream_busy_bufs st' = downstream_busy_bufs st" "upstream_busy_bufs st' = upstream_busy_bufs st"
    "next_buf st' = next_buf st" "wsocks st' = wsocks st" "bufs_ok st'" "subseq (out_chain st') (downstream_busy_bufs st @ ins)"
    "\<And>b. b \<in> set (out_chain st') \<Longrightarrow> bufsize st' b > 0"
  shows "entering ins st'"
  by (rule enteringI, unfold assms(2-6))
    (fact assms(7) | fact enteringD(2) [OF assms(1)] | erule enteringD(3) [OF assms(1)] | erule (1) enteringD(4) [OF assms(1)]
      | erule (1) enteringD(5) [OF assms(1)] | erule (3) enteringD(6) [OF assms(1)] | fact assms(8) | erule assms(9))+

lemma update_downstream_ok:
  assumes "entering ins st" "st' = update_downstream ins st"
  shows "oinv st' \<and> unsent st' = unsent st \<and> st' = st\<lparr>obufs := obufs st', o_free_bufs := o_free_bufs st', downstream_busy_bufs := downstream_busy_bufs st'\<rparr>"
proof -
  note e = enteringD [OF assms(1)]
  obtain bs st1 where r: "reap (downstream_busy_bufs st @ ins) st = (bs, st1)" by (cases "reap (downstream_busy_bufs st @ ins) st")
  have di: "distinct (downstream_busy_bufs st @ ins)" using e(2) by auto
  from reap_spec [OF r this] obtain ds where d: "downstream_busy_bufs st @ ins = ds @ bs" "\<forall>b\<in>set ds. bufsize st b = 0" "o_free_bufs st1 = rev ds @ o_free_bufs st"
    "\<forall>b. obufs st1 b = (if b \<in> set ds then (obufs st b)\<lparr>odata := [], opos := 0\<rparr> else obufs st b)"
    "st1 = st\<lparr>obufs := obufs st1, o_free_bufs := o_free_bufs st1\<rparr>" by blast
  have st': "st' = st\<lparr>obufs := obufs st1, o_free_bufs := rev ds @ o_free_bufs st, downstream_busy_bufs := bs\<rparr>"
    using assms(2) r d(3,5) by (simp add: update_downstream_def)
  have out: "b \<notin> set ds" if "b \<in> set (out_chain st)" for b using e(8) [OF that] d(2) by auto
  have same: "obufs st' b = obufs st b" if "b \<in> set (out_chain st)" for b using out [OF that] d(4) by (simp add: st')
  have "set (ds @ bs) = set (downstream_busy_bufs st @ ins)" "distinct (ds @ bs)" using di unfolding d(1) by simp_all
  then have sets: "set ds \<union> set bs = set (downstream_busy_bufs st) \<union> set ins" "distinct (ds @ bs)" by simp_all
  have eq: "set (o_free_bufs st' @ downstream_busy_bufs st' @ [] @ upstream_busy_bufs st') = set (o_free_bufs st @ downstream_busy_bufs st @ ins @ upstream_busy_bufs st)"
    using sets(1) by (auto simp: st')
  have "entering [] st'"
  proof (rule enteringI, unfold eq, goal_cases)
    case 1
    show ?case using e(1) d(4) by (simp add: bufs_ok_def st')
  next
    case 2
    show ?case using e(2) sets by (auto simp: st')
  next
    case (3 b)
    then show ?case using e(3) [of b] by (simp add: st')
  next
    case (4 u w b)
    then show ?case using e(4) [of u w b] by (simp add: st')
  next
    case (5 u w b)
    then show ?case using e(5) [of u w b] by (simp add: st')
  next
    case (6 u w u' w' b)
    then show ?case using e(6) [of u w b u' w'] by (simp add: st')
  next
    case 7
    have "subseq (out_chain st) bs" by (rule subseq_skip [of _ ds]) (use e(7) d(1) out in auto)
    then show ?case by (simp add: st')
  next
    case (8 b)
    then show ?case using e(8) [of b] bufsize_cong [OF same, of b] by (simp add: st')
  qed
  then have "oinv st'" by (simp add: entering_Nil)
  moreover have "unsent st' = unsent st" by (rule unsent_cong) (use remaining_cong [OF same] in \<open>simp_all add: st'\<close>)
  ultimately show ?thesis by (simp add: st')
qed

text \<open>The writer: what was there comes first, then the new buffer, if there is a link for it.\<close>

definition linked :: "oenv \<Rightarrow> nat list \<Rightarrow> ostate \<Rightarrow> nat list" where
  "linked env ins st = (if o_mem env 2 then filter (\<lambda>b. bufsize st b \<noteq> 0) ins else [])"

lemma chain_writer_ok:
  assumes "entering ins st" "subseq (out_chain st) (downstream_busy_bufs st)" "length ins \<le> 1" "chain_writer env ins st = (rc, st')"
  shows "entering ins st'" "wire st' @ unsent st' = wire st @ unsent st @ concat (map (remaining st) (linked env ins st))"
    "st' = st\<lparr>obufs := obufs st', out_chain := out_chain st', wire := wire st'\<rparr>" "rc = NGX_OK \<Longrightarrow> unsent st' = []"
proof -
  note e = enteringD [OF assms(1)]
  define out where "out = out_chain st @ linked env ins st"
  let ?s1 = "st\<lparr>out_chain := out\<rparr>"
  have ins: "ins = [] \<or> (\<exists>b. ins = [b])" using assms(3) by (cases ins) auto
  then have links: "\<exists>ok. add_links (o_mem env) 2 ins st = (ok, ?s1)" by (auto simp: linked_def out_def)
  have sub: "subseq out (downstream_busy_bufs st @ ins)"
    unfolding out_def using assms(2) ins by (auto simp: linked_def intro!: list_emb_append_mono)
  have pos: "b \<in> set out \<Longrightarrow> bufsize st b > 0" for b using e(8) [of b] by (auto simp: out_def linked_def split: if_splits)
  have i1: "entering ins ?s1" by (rule entering_out [OF assms(1)]) (use e(1) sub pos in \<open>simp_all add: bufs_ok_def bufsize_def\<close>)
  have u1: "wire ?s1 @ unsent ?s1 = wire st @ unsent st @ concat (map (remaining st) (linked env ins st))"
    by (simp add: unsent_def out_def)
  have z1: "unsent ?s1 = []" if "(\<Sum>b\<leftarrow>out. bufsize st b) = 0"
    using that pos by (auto simp: unsent_def sum_list_eq_0_iff remaining_def bufsize_def)
  have goal: "entering ins st' \<and> wire st' @ unsent st' = wire st @ unsent st @ concat (map (remaining st) (linked env ins st)) \<and>
      st' = st\<lparr>obufs := obufs st', out_chain := out_chain st', wire := wire st'\<rparr> \<and> (rc = NGX_OK \<longrightarrow> unsent st' = [])"
  proof -
    let ?sw = "\<lambda>n. ?s1\<lparr>wire := wire st @ take n (unsent ?s1)\<rparr>"
    consider "rc = NGX_ERROR" "st' = ?s1" | "rc = NGX_OK" "st' = ?s1" "(\<Sum>b\<leftarrow>out. bufsize st b) = 0"
      | n out' s2 where "update_sent n out (?sw n) = (out', s2)" "st' = s2\<lparr>out_chain := out'\<rparr>" "rc = (if out' = [] \<and> \<not> o_buffered env then NGX_OK else NGX_AGAIN)"
      using assms(4) links by (auto simp: chain_writer_def unsent_def bufsize_def remaining_def split: if_splits send_res.splits bool.splits prod.splits)
    then show ?thesis
    proof cases
      case 1
      then show ?thesis using i1 u1 by simp
    next
      case 2
      then show ?thesis using i1 u1 z1 by simp
    next
      case (3 n out' s2)
      have "distinct out" using subseq_imp_distinct [OF sub] e(2) by auto
      moreover have "\<forall>b\<in>set out. bufsize (?sw n) b > 0" using pos by (simp add: bufsize_def)
      ultimately obtain ds where d: "out = ds @ out'" "\<forall>b\<in>set out'. bufsize s2 b > 0"
        "concat (map (remaining s2) out') = drop n (concat (map (remaining (?sw n)) out))"
        "\<forall>b. odata (obufs s2 b) = odata (obufs st b) \<and> ocap (obufs s2 b) = ocap (obufs st b)"
        "\<forall>b. opos (obufs st b) \<le> length (odata (obufs st b)) \<longrightarrow> opos (obufs s2 b) \<le> length (odata (obufs st b))" "s2 = (?sw n)\<lparr>obufs := obufs s2\<rparr>"
        using update_sent_spec [OF 3(1)] by fastforce
      define f where "f = obufs s2"
      have s2: "s2 = (?sw n)\<lparr>obufs := f\<rparr>" unfolding f_def by (rule d(6))
      have st': "st' = st\<lparr>obufs := obufs s2, out_chain := out', wire := wire st @ take n (unsent ?s1)\<rparr>" unfolding 3(2) s2 by simp
      have un: "unsent st' = drop n (unsent ?s1)" using d(3) by (simp add: unsent_def st' remaining_def)
      have "bufs_ok st'" using e(1) d(4,5) by (simp add: bufs_ok_def st')
      moreover have "subseq out' (downstream_busy_bufs st @ ins)" using sub unfolding d(1) by (rule subseq_order.trans [rotated]) (simp add: list_emb_append2)
      moreover have "bufsize st' b > 0" if "b \<in> set out'" for b using d(2) that by (simp add: st' bufsize_def)
      ultimately have "entering ins st'" by (intro entering_out [OF assms(1)]) (simp_all add: st')
      moreover have "wire st' @ unsent st' = wire ?s1 @ unsent ?s1"
      proof -
        have "wire st' = wire st @ take n (unsent ?s1)" by (simp add: st')
        then show ?thesis by (simp add: un)
      qed
      moreover have "unsent st' = []" if "rc = NGX_OK" using that 3(3) by (auto simp: unsent_def st' split: if_splits)
      ultimately show ?thesis using u1 by (simp add: st')
    qed
  qed
  then show "entering ins st'" "wire st' @ unsent st' = wire st @ unsent st @ concat (map (remaining st) (linked env ins st))"
    "st' = st\<lparr>obufs := obufs st', out_chain := out_chain st', wire := wire st'\<rparr>" "rc = NGX_OK \<Longrightarrow> unsent st' = []"
    by blast+
qed

lemma send_chain_link_ok:
  assumes "entering ins st" "subseq (out_chain st) (downstream_busy_bufs st)" "length ins \<le> 1" "send_chain_link env ins st = (rc, st')"
  shows "oinv st'" "wire st' @ unsent st' = wire st @ unsent st @ concat (map (remaining st) (linked env ins st))"
    "next_buf st' = next_buf st \<and> upstream_busy_bufs st' = upstream_busy_bufs st \<and> wsocks st' = wsocks st \<and> swire st' = swire st \<and> seen_eof st' = seen_eof st \<and>
     writing_raw_req_socket st' = writing_raw_req_socket st \<and> flushing_coros st' = flushing_coros st"
    "rc = NGX_OK \<Longrightarrow> unsent st' = []"
proof -
  obtain st1 where c: "chain_writer env ins st = (rc, st1)" using assms(4) by (auto simp: send_chain_link_def split: prod.splits)
  note w = chain_writer_ok [OF assms(1-3) c]
  define st2 where "st2 = (if rc = NGX_ERROR then st1\<lparr>c_error := True\<rparr> else st1)"
  have f: "obufs st2 = obufs st1" "o_free_bufs st2 = o_free_bufs st1" "downstream_busy_bufs st2 = downstream_busy_bufs st1"
    "upstream_busy_bufs st2 = upstream_busy_bufs st1" "next_buf st2 = next_buf st1" "wsocks st2 = wsocks st1" "out_chain st2 = out_chain st1"
    "wire st2 = wire st1" "swire st2 = swire st1" "unsent st2 = unsent st1" "seen_eof st2 = seen_eof st1"
    "writing_raw_req_socket st2 = writing_raw_req_socket st1" "flushing_coros st2 = flushing_coros st1"
    by (simp_all add: st2_def unsent_def)
  have f1: "upstream_busy_bufs st1 = upstream_busy_bufs st" "next_buf st1 = next_buf st" "wsocks st1 = wsocks st" "swire st1 = swire st" "seen_eof st1 = seen_eof st"
    "writing_raw_req_socket st1 = writing_raw_req_socket st" "flushing_coros st1 = flushing_coros st"
    using arg_cong [OF w(3), of upstream_busy_bufs] arg_cong [OF w(3), of next_buf] arg_cong [OF w(3), of wsocks] arg_cong [OF w(3), of swire]
      arg_cong [OF w(3), of seen_eof] arg_cong [OF w(3), of writing_raw_req_socket] arg_cong [OF w(3), of flushing_coros] by simp_all
  note e1 = enteringD [OF w(1)]
  have e2: "entering ins st2"
    by (rule entering_out [OF w(1)]) (use e1(1,7) e1(8) f in \<open>simp_all add: bufs_ok_def bufsize_def\<close>)
  have st': "st' = update_downstream ins st2" using assms(4) c by (simp add: send_chain_link_def st2_def Let_def)
  note u = update_downstream_ok [OF e2 st']
  then have v: "st' = st2\<lparr>obufs := obufs st', o_free_bufs := o_free_bufs st', downstream_busy_bufs := downstream_busy_bufs st'\<rparr>" by (elim conjE)
  have g: "next_buf st' = next_buf st2" "upstream_busy_bufs st' = upstream_busy_bufs st2" "wsocks st' = wsocks st2" "swire st' = swire st2" "wire st' = wire st2"
    "seen_eof st' = seen_eof st2" "writing_raw_req_socket st' = writing_raw_req_socket st2" "flushing_coros st' = flushing_coros st2"
    using arg_cong [OF v, of next_buf] arg_cong [OF v, of upstream_busy_bufs] arg_cong [OF v, of wsocks] arg_cong [OF v, of swire] arg_cong [OF v, of wire]
      arg_cong [OF v, of seen_eof] arg_cong [OF v, of writing_raw_req_socket] arg_cong [OF v, of flushing_coros] by simp_all
  show "oinv st'" using u by blast
  show "wire st' @ unsent st' = wire st @ unsent st @ concat (map (remaining st) (linked env ins st))" using u w(2) g(5) f(8,10) by simp
  show "next_buf st' = next_buf st \<and> upstream_busy_bufs st' = upstream_busy_bufs st \<and> wsocks st' = wsocks st \<and> swire st' = swire st \<and> seen_eof st' = seen_eof st \<and>
     writing_raw_req_socket st' = writing_raw_req_socket st \<and> flushing_coros st' = flushing_coros st"
    using g f f1 by simp
  show "unsent st' = []" if "rc = NGX_OK" using u w(4) [OF that] f(10) by simp
qed


lemma send_chain_link_error: "fst (send_chain_link env ins st) = NGX_ERROR \<Longrightarrow> c_error (snd (send_chain_link env ins st))"
proof -
  have r: "c_error (snd (reap bs s)) = c_error s" for bs s by (induction bs arbitrary: s) (simp_all add: put_buf_def)
  assume "fst (send_chain_link env ins st) = NGX_ERROR"
  then show ?thesis by (simp add: send_chain_link_def update_downstream_def case_prod_beta Let_def r)
qed

end
