(* ===== verification/Output_Props.thy ===== *)
theory Output_Props
  imports Output_Inv
begin

section \<open>Printing\<close>

lemma oinv_subseq: "oinv st \<Longrightarrow> subseq (out_chain st) (downstream_busy_bufs st)"
  by (simp add: oinv_def chain_ok_def)

lemma oinv_entering: "oinv st \<Longrightarrow> entering [] st"
  by (simp add: entering_Nil)

text \<open>A buffer between the lists: taken from the free list, or new; written; or given up.\<close>

lemma entering_free:
  assumes "oinv st" "o_free_bufs st = b # bs"
  shows "entering [b] (st\<lparr>o_free_bufs := bs\<rparr>)"
proof -
  note e = enteringD [OF oinv_entering [OF assms(1)]]
  have eq: "set (o_free_bufs (st\<lparr>o_free_bufs := bs\<rparr>) @ downstream_busy_bufs (st\<lparr>o_free_bufs := bs\<rparr>) @ [b] @ upstream_busy_bufs (st\<lparr>o_free_bufs := bs\<rparr>)) =
    set (o_free_bufs st @ downstream_busy_bufs st @ [] @ upstream_busy_bufs st)" using assms(2) by auto
  show ?thesis
  proof (rule enteringI, unfold eq, goal_cases)
    case 2
    show ?case using e(2) assms(2) by auto
  next
    case (3 b)
    then show ?case using e(3) [of b] by simp
  next
    case (4 u w b)
    then show ?case using e(4) [of u w b] by simp
  next
    case (5 u w b)
    then show ?case using e(5) [of u w b] by simp
  next
    case (6 u w u' w' b)
    then show ?case using e(6) [of u w b u' w'] by simp
  next
    case 7
    show ?case using oinv_subseq [OF assms(1)] by (simp add: list_emb_prefix)
  qed (use e(1,8) in \<open>simp_all add: bufs_ok_def bufsize_def\<close>)
qed

lemma entering_fresh:
  assumes "oinv st"
  shows "entering [next_buf st] (st\<lparr>next_buf := next_buf st + 1\<rparr>)"
proof -
  note e = enteringD [OF oinv_entering [OF assms(1)]]
  have new: "next_buf st \<notin> set (o_free_bufs st @ downstream_busy_bufs st @ [] @ upstream_busy_bufs st)" using e(3) by blast
  show ?thesis
  proof (rule enteringI, goal_cases)
    case 2
    show ?case using e(2) new by auto
  next
    case (3 b)
    then show ?case using e(3) [of b] by auto
  next
    case (4 u w b)
    then show ?case using e(4) [of u w b] by auto
  next
    case (5 u w b)
    then show ?case using e(4) [of u w b] e(5) [of u w b] by auto
  next
    case (6 u w u' w' b)
    then show ?case using e(6) [of u w b u' w'] by simp
  next
    case 7
    show ?case using oinv_subseq [OF assms(1)] by (simp add: list_emb_prefix)
  qed (use e(1,8) in \<open>simp_all add: bufs_ok_def bufsize_def\<close>)
qed

lemma entering_put_buf:
  assumes "entering ins st" "b \<notin> set (out_chain st)" "opos x \<le> length (odata x)" "length (odata x) \<le> ocap x"
  shows "entering ins (put_buf b x st)" "unsent (put_buf b x st) = unsent st"
proof -
  note e = enteringD [OF assms(1)]
  have same: "bufsize (put_buf b x st) d = bufsize st d" "remaining (put_buf b x st) d = remaining st d" if "d \<in> set (out_chain st)" for d
    using that assms(2) by (auto simp: obuf_defs)
  show "entering ins (put_buf b x st)"
    by (rule entering_out [OF assms(1)]) (use e(1,7,8) same assms(3,4) in \<open>auto simp: bufs_ok_def put_buf_def\<close>)
  show "unsent (put_buf b x st) = unsent st" by (rule unsent_cong) (use same in \<open>auto simp: put_buf_def\<close>)
qed

lemma entering_give_up:
  assumes "entering [b] st" "subseq (out_chain st) (downstream_busy_bufs st)"
  shows "oinv st"
proof -
  note e = enteringD [OF assms(1)]
  have "entering [] st"
  proof (rule enteringI, goal_cases)
    case 2
    show ?case using e(2) by auto
  next
    case (3 d)
    then show ?case using e(3) [of d] by auto
  next
    case (5 u w d)
    then show ?case using e(5) [of u w d] by auto
  next
    case 7
    show ?case using assms(2) by simp
  qed (fact e(1) | erule (1) e(4) | erule (3) e(6) | erule e(8))+
  then show ?thesis by (simp add: entering_Nil)
qed

lemma entering_not_out:
  assumes "entering [b] st" "subseq (out_chain st) (downstream_busy_bufs st)"
  shows "b \<notin> set (out_chain st)"
  using enteringD(2) [OF assms(1)] list_emb_set [OF assms(2), of b] by auto


lemma get_free_buf_cases:
  assumes "get_free_buf mem len st = (r, st1)"
  obtains (reuse) b bs c where "o_free_bufs st = b # bs" "r = Some b" "len \<le> c" "st1 = put_buf b \<lparr>odata = [], opos = 0, ocap = c\<rparr> (st\<lparr>o_free_bufs := bs\<rparr>)"
    | (lost) b bs where "o_free_bufs st = b # bs" "r = None" "st1 = st\<lparr>o_free_bufs := bs\<rparr>"
    | (no_memory) "r = None" "st1 = st"
    | (fresh) "r = Some (next_buf st)" "st1 = put_buf (next_buf st) \<lparr>odata = [], opos = 0, ocap = len\<rparr> (st\<lparr>next_buf := next_buf st + 1\<rparr>)"
proof (cases "o_free_bufs st")
  case Nil
  show thesis
  proof (cases "mem 0 \<and> mem 1")
    case True
    then show thesis using assms Nil fresh by (simp add: get_free_buf_def)
  next
    case False
    then show thesis using assms Nil no_memory by (simp add: get_free_buf_def)
  qed
next
  case (Cons b bs)
  consider "len \<le> ocap (obufs st b)" | "\<not> len \<le> ocap (obufs st b)" "mem 0" | "\<not> len \<le> ocap (obufs st b)" "\<not> mem 0" by blast
  then show thesis
  proof cases
    case 1
    show thesis by (rule reuse [OF Cons, of "ocap (obufs st b)"]) (use assms Cons 1 in \<open>simp_all add: get_free_buf_def\<close>)
  next
    case 2
    show thesis by (rule reuse [OF Cons, of len]) (use assms Cons 2 in \<open>simp_all add: get_free_buf_def\<close>)
  next
    case 3
    show thesis by (rule lost [OF Cons]) (use assms Cons 3 in \<open>simp_all add: get_free_buf_def\<close>)
  qed
qed

definition only_bufs :: "ostate \<Rightarrow> ostate \<Rightarrow> bool" where
  "only_bufs st st1 \<longleftrightarrow> (\<exists>f fs n. st1 = st\<lparr>obufs := f, o_free_bufs := fs, next_buf := n\<rparr>)"

lemma only_bufsI: "st1 = st\<lparr>obufs := f, o_free_bufs := fs, next_buf := n\<rparr> \<Longrightarrow> only_bufs st st1"
  unfolding only_bufs_def by blast

lemma only_bufs_refl [simp]: "only_bufs st st"
  by (rule only_bufsI [where f = "obufs st" and fs = "o_free_bufs st" and n = "next_buf st"]) simp

lemma only_bufs_put_buf: "only_bufs st st1 \<Longrightarrow> only_bufs st (put_buf b x st1)"
  by (rule only_bufsI [where f = "(obufs st1)(b := x)" and fs = "o_free_bufs st1" and n = "next_buf st1"]) (auto simp: only_bufs_def put_buf_def)

lemma only_bufsD:
  assumes "only_bufs st st1"
  shows "out_chain st1 = out_chain st" "downstream_busy_bufs st1 = downstream_busy_bufs st" "upstream_busy_bufs st1 = upstream_busy_bufs st"
    "wsocks st1 = wsocks st" "wire st1 = wire st" "swire st1 = swire st" "seen_eof st1 = seen_eof st"
    "flushing st1 = flushing st" "flushing_coros st1 = flushing_coros st" "c_error st1 = c_error st" "writing_raw_req_socket st1 = writing_raw_req_socket st"
  using assms by (auto simp: only_bufs_def)

lemma get_free_buf_ok:
  assumes "oinv st" "get_free_buf mem len st = (r, st1)"
  shows "only_bufs st st1" "unsent st1 = unsent st"
    "r = None \<Longrightarrow> oinv st1"
    "\<And>b. r = Some b \<Longrightarrow> entering [b] st1 \<and> odata (obufs st1 b) = [] \<and> opos (obufs st1 b) = 0 \<and> len \<le> ocap (obufs st1 b) \<and>
       (\<forall>d. d \<noteq> b \<longrightarrow> obufs st1 d = obufs st d)"
proof -
  note sub = oinv_subseq [OF assms(1)]
  have take: "only_bufs st st1 \<and> unsent st1 = unsent st \<and>
      entering [b] st1 \<and> odata (obufs st1 b) = [] \<and> opos (obufs st1 b) = 0 \<and> len \<le> ocap (obufs st1 b) \<and> (\<forall>d. d \<noteq> b \<longrightarrow> obufs st1 d = obufs st d)"
    if h: "entering [b] s" "s = st\<lparr>o_free_bufs := o_free_bufs s, next_buf := next_buf s\<rparr>" "st1 = put_buf b \<lparr>odata = [], opos = 0, ocap = c\<rparr> s" "len \<le> c" for b s c
  proof -
    obtain f n where s: "s = st\<lparr>o_free_bufs := f, next_buf := n\<rparr>" using h(2) by blast
    have "b \<notin> set (out_chain s)" by (rule entering_not_out [OF h(1)]) (use sub in \<open>simp add: s\<close>)
    note p = entering_put_buf [OF h(1) this, of "\<lparr>odata = [], opos = 0, ocap = c\<rparr>"]
    have "unsent s = unsent st" by (rule unsent_cong) (simp_all add: s remaining_def)
    moreover have "only_bufs st st1" unfolding h(3) by (rule only_bufs_put_buf, rule only_bufsI [where f = "obufs st" and fs = f and n = n]) (simp add: s)
    ultimately show ?thesis using p h(3,4) by (simp add: s put_buf_def)
  qed
  from assms(2) have "only_bufs st st1 \<and> unsent st1 = unsent st \<and> (r = None \<longrightarrow> oinv st1) \<and>
    (\<forall>b. r = Some b \<longrightarrow> entering [b] st1 \<and> odata (obufs st1 b) = [] \<and> opos (obufs st1 b) = 0 \<and> len \<le> ocap (obufs st1 b) \<and>
       (\<forall>d. d \<noteq> b \<longrightarrow> obufs st1 d = obufs st d))"
  proof (cases rule: get_free_buf_cases)
    case 1: (reuse b bs c)
    have "st\<lparr>o_free_bufs := bs\<rparr> = st\<lparr>o_free_bufs := o_free_bufs (st\<lparr>o_free_bufs := bs\<rparr>), next_buf := next_buf (st\<lparr>o_free_bufs := bs\<rparr>)\<rparr>" by simp
    from take [OF entering_free [OF assms(1) 1(1)] this 1(4,3)] show ?thesis unfolding 1(2) by simp
  next
    case 2: (lost b bs)
    have "oinv st1" unfolding 2(3) by (rule entering_give_up [OF entering_free [OF assms(1) 2(1)]]) (use sub in simp)
    moreover have "unsent st1 = unsent st" by (rule unsent_cong) (simp_all add: 2(3) remaining_def)
    moreover have "only_bufs st st1" by (rule only_bufsI [where f = "obufs st" and fs = bs and n = "next_buf st"]) (simp add: 2(3))
    ultimately show ?thesis using 2(2) by simp
  next
    case no_memory
    then show ?thesis using assms(1) by simp
  next
    case 4: fresh
    let ?s = "st\<lparr>next_buf := next_buf st + 1\<rparr>"
    have "?s = st\<lparr>o_free_bufs := o_free_bufs ?s, next_buf := next_buf ?s\<rparr>" by simp
    from take [OF entering_fresh [OF assms(1)] this 4(2) order_refl] show ?thesis unfolding 4(1) by simp
  qed
  then show "only_bufs st st1" "unsent st1 = unsent st"
    "r = None \<Longrightarrow> oinv st1"
    "\<And>b. r = Some b \<Longrightarrow> entering [b] st1 \<and> odata (obufs st1 b) = [] \<and> opos (obufs st1 b) = 0 \<and> len \<le> ocap (obufs st1 b) \<and>
       (\<forall>d. d \<noteq> b \<longrightarrow> obufs st1 d = obufs st d)" by simp_all
qed


lemma write_buf_ok:
  assumes "entering [b] st" "subseq (out_chain st) (downstream_busy_bufs st)" "odata (obufs st b) = []" "opos (obufs st b) = 0" "length t \<le> ocap (obufs st b)"
  shows "\<exists>st'. write_buf b t st = Some st' \<and> entering [b] st' \<and> unsent st' = unsent st \<and> remaining st' b = t \<and> st' = put_buf b ((obufs st b)\<lparr>odata := t\<rparr>) st"
proof -
  note p = entering_put_buf [OF assms(1) entering_not_out [OF assms(1,2)], of "(obufs st b)\<lparr>odata := t\<rparr>"]
  show ?thesis using p assms(3-5) by (auto simp: write_buf_def obuf_defs)
qed

text \<open>A buffer with a text of the computed size.\<close>

lemma take_and_write:
  assumes "oinv st" "get_free_buf mem (unat (len64 t)) st = (Some b, st1)" "length t < 2 ^ 64"
  shows "\<exists>st2. write_buf b t st1 = Some st2 \<and> entering [b] st2 \<and> unsent st2 = unsent st \<and> remaining st2 b = t \<and> only_bufs st st2 \<and>
    (\<forall>d. d \<noteq> b \<longrightarrow> obufs st2 d = obufs st d)"
proof -
  note g = get_free_buf_ok [OF assms(1,2)]
  note k = g(4) [OF refl]
  have len: "unat (len64 t) = length t" using assms(3) by (simp add: len64_def unat_word_of_nat)
  obtain st2 where w: "write_buf b t st1 = Some st2" "entering [b] st2" "unsent st2 = unsent st1" "remaining st2 b = t" "st2 = put_buf b ((obufs st1 b)\<lparr>odata := t\<rparr>) st1"
    using write_buf_ok [of b st1 t] k oinv_subseq [OF assms(1)] len only_bufsD(1,2) [OF g(1)] by auto
  have "only_bufs st st2" unfolding w(5) by (rule only_bufs_put_buf [OF g(1)])
  then show ?thesis using w k g(2) by (auto simp: put_buf_def)
qed


text \<open>The writer touches only the buffers of its chains.\<close>

lemma reap_other: "d \<notin> set bs \<Longrightarrow> obufs (snd (reap bs st)) d = obufs st d"
  by (induction bs arbitrary: st) (simp_all add: put_buf_def)

lemma update_sent_other: "d \<notin> set bs \<Longrightarrow> obufs (snd (update_sent n bs st)) d = obufs st d"
  by (induction bs arbitrary: n st) (simp_all add: advance_def put_buf_def)

lemma update_sent_busy [simp]: "downstream_busy_bufs (snd (update_sent n bs st)) = downstream_busy_bufs st"
  by (induction bs arbitrary: n st) (simp_all add: advance_def put_buf_def)

lemma add_links_other:
  "obufs (snd (add_links mem i bs st)) = obufs st \<and> downstream_busy_bufs (snd (add_links mem i bs st)) = downstream_busy_bufs st \<and>
   set (out_chain (snd (add_links mem i bs st))) \<subseteq> set (out_chain st) \<union> set bs"
proof (induction bs arbitrary: i st)
  case (Cons b bs)
  then show ?case using Cons [of "i + 1" "st\<lparr>out_chain := out_chain st @ [b]\<rparr>"] Cons [of i st] by auto
qed simp

lemma chain_writer_other:
  assumes "d \<notin> set (out_chain st) \<union> set ins"
  shows "obufs (snd (chain_writer env ins st)) d = obufs st d" "downstream_busy_bufs (snd (chain_writer env ins st)) = downstream_busy_bufs st"
proof -
  obtain ok s where s: "add_links (o_mem env) 2 ins st = (ok, s)" by (cases "add_links (o_mem env) 2 ins st")
  have a: "obufs s = obufs st" "downstream_busy_bufs s = downstream_busy_bufs st" "d \<notin> set (out_chain s)"
    using add_links_other [of "o_mem env" 2 ins st] assms s by auto
  show "obufs (snd (chain_writer env ins st)) d = obufs st d" 
    by (simp add: chain_writer_def s Let_def case_prod_beta a(1) update_sent_other [OF a(3)] split: bool.splits send_res.splits)
  show "downstream_busy_bufs (snd (chain_writer env ins st)) = downstream_busy_bufs st"
    by (simp add: chain_writer_def s Let_def case_prod_beta a(2) split: bool.splits send_res.splits)
qed


lemma send_chain_link_other:
  assumes "oinv st \<or> entering ins st \<and> subseq (out_chain st) (downstream_busy_bufs st)" "d \<notin> set (downstream_busy_bufs st) \<union> set ins"
  shows "obufs (snd (send_chain_link env ins st)) d = obufs st d"
proof -
  have "set (out_chain st) \<subseteq> set (downstream_busy_bufs st)" using assms(1) oinv_subseq by (auto dest: list_emb_set)
  then have n: "d \<notin> set (out_chain st) \<union> set ins" using assms(2) by auto
  obtain rc s where s: "chain_writer env ins st = (rc, s)" by (cases "chain_writer env ins st")
  have c: "obufs s d = obufs st d" "downstream_busy_bufs s = downstream_busy_bufs st" using chain_writer_other [OF n, of env] s by simp_all
  show ?thesis using assms(2) c by (simp add: send_chain_link_def s update_downstream_def case_prod_beta reap_other Let_def)
qed


subsection \<open>print and say\<close>

text \<open>A request of a socket is not touched.\<close>

definition reqs_kept :: "ostate \<Rightarrow> ostate \<Rightarrow> bool" where
  "reqs_kept st st' \<longleftrightarrow> wsocks st' = wsocks st \<and> swire st' = swire st \<and> (\<forall>u w d. wsocks st u = Some w \<longrightarrow> w_req w = Some d \<longrightarrow> obufs st' d = obufs st d)"

lemma reqs_kept_refl [simp]: "reqs_kept st st"
  by (simp add: reqs_kept_def)

lemma reqs_keptI:
  assumes "wsocks st' = wsocks st" "swire st' = swire st" "\<And>u w d. wsocks st u = Some w \<Longrightarrow> w_req w = Some d \<Longrightarrow> obufs st' d = obufs st d"
  shows "reqs_kept st st'"
  unfolding reqs_kept_def using assms by simp

lemma req_not_entering:
  assumes "entering [b] st1" "wsocks st1 u = Some w" "w_req w = Some d"
  shows "d \<noteq> b" "d \<notin> set (downstream_busy_bufs st1) \<union> set [b]"
  using enteringD(5) [OF assms] by auto

lemma get_free_buf_reqs:
  assumes "oinv st" "get_free_buf mem len st = (r, st1)"
  shows "reqs_kept st st1"
proof (rule reqs_keptI)
  note g = get_free_buf_ok [OF assms]
  show "wsocks st1 = wsocks st" "swire st1 = swire st" using only_bufsD [OF g(1)] by simp_all
  show "obufs st1 d = obufs st d" if h: "wsocks st u = Some w" "w_req w = Some d" for u w d
  proof (cases r)
    case None
    with assms(2) show ?thesis by (cases rule: get_free_buf_cases) auto
  next
    case (Some b)
    have "d \<noteq> b" using req_not_entering(1) [of b st1 u w d] g(4) [OF Some] h only_bufsD(4) [OF g(1)] by simp
    then show ?thesis using g(4) [OF Some] by simp
  qed
qed

text \<open>What a call of \<open>print\<close> or \<open>say\<close> does: it ends, and the bytes on the wire and those still to send grow by nothing or by the text, by the text if the call succeeds.\<close>

definition echo_post :: "lua_rt \<Rightarrow> bool \<Rightarrow> oval list \<Rightarrow> ostate \<Rightarrow> lua_result \<Rightarrow> ostate \<Rightarrow> bool" where
  "echo_post rt newline args st r st' \<longleftrightarrow> oinv st' \<and> reqs_kept st st' \<and> seen_eof st' = seen_eof st \<and> upstream_busy_bufs st' = upstream_busy_bufs st \<and>
     writing_raw_req_socket st' = writing_raw_req_socket st \<and>
     (wire st' @ unsent st' = wire st @ unsent st \<and> (r = LRet [one] \<longrightarrow> echo_text rt newline args = Some (Inr [])) \<or>
      (\<exists>t. echo_text rt newline args = Some (Inr t) \<and> wire st' @ unsent st' = wire st @ unsent st @ t))"

lemma echo_sends:
  assumes "oinv st" "get_free_buf mem (unat (len64 t)) st = (Some b, st1)" "length t < 2 ^ 64" "t \<noteq> []" "write_buf b t st1 = Some st2"
    "send_chain_link env [b] st2 = (rc, st')"
  shows "oinv st'" "reqs_kept st st'" "seen_eof st' = seen_eof st" "upstream_busy_bufs st' = upstream_busy_bufs st" "writing_raw_req_socket st' = writing_raw_req_socket st"
    "wire st' @ unsent st' = wire st @ unsent st \<and> rc = NGX_ERROR \<or> wire st' @ unsent st' = wire st @ unsent st @ t"
proof -
  have w: "entering [b] st2" "unsent st2 = unsent st" "remaining st2 b = t" "only_bufs st st2" "\<forall>d. d \<noteq> b \<longrightarrow> obufs st2 d = obufs st d"
    using take_and_write [OF assms(1-3)] assms(5) by auto
  note o = only_bufsD [OF w(4)]
  have sub: "subseq (out_chain st2) (downstream_busy_bufs st2)" using oinv_subseq [OF assms(1)] o by simp
  note c = send_chain_link_ok [OF w(1) sub _ assms(6)]
  show "oinv st'" "seen_eof st' = seen_eof st" "upstream_busy_bufs st' = upstream_busy_bufs st" "writing_raw_req_socket st' = writing_raw_req_socket st" using c o by simp_all
  show "reqs_kept st st'"
  proof (rule reqs_keptI)
    show "wsocks st' = wsocks st" "swire st' = swire st" using c o by simp_all
    show "obufs st' d = obufs st d" if h: "wsocks st u = Some x" "w_req x = Some d" for u x d
    proof -
      have n: "d \<noteq> b" "d \<notin> set (downstream_busy_bufs st2) \<union> set [b]" using req_not_entering [OF w(1), of u x d] h o by simp_all
      then have "obufs st' d = obufs st2 d" using send_chain_link_other [of st2 "[b]" d env] w(1) sub assms(6) by simp
      then show ?thesis using w(5) n(1) by simp
    qed
  qed
  have "bufsize st2 b \<noteq> 0" using w(3) assms(4) by (metis length_0_conv length_remaining)
  then have l: "concat (map (remaining st2) (linked env [b] st2)) = (if o_mem env 2 then t else [])" using w(3) by (simp add: linked_def)
  have "\<not> o_mem env 2 \<Longrightarrow> rc = NGX_ERROR"
    using assms(6) \<open>bufsize st2 b \<noteq> 0\<close> by (auto simp: send_chain_link_def chain_writer_def)
  then show "wire st' @ unsent st' = wire st @ unsent st \<and> rc = NGX_ERROR \<or> wire st' @ unsent st' = wire st @ unsent st @ t"
    using c(2) l o w(2) by (cases "o_mem env 2") simp_all
qed


lemma echo_postI: "oinv st' \<Longrightarrow> reqs_kept st st' \<Longrightarrow> seen_eof st' = seen_eof st \<Longrightarrow> upstream_busy_bufs st' = upstream_busy_bufs st \<Longrightarrow>
    writing_raw_req_socket st' = writing_raw_req_socket st \<Longrightarrow> wire st' @ unsent st' = wire st @ unsent st \<Longrightarrow>
    (r = LRet [one] \<Longrightarrow> echo_text rt newline args = Some (Inr [])) \<Longrightarrow> echo_post rt newline args st r st'"
  by (simp add: echo_post_def)

lemma echo_ok:
  assumes "oinv st" "list_all clean args" "echo_size rt newline args \<noteq> None" "\<And>t. echo_text rt newline args = Some (Inr t) \<Longrightarrow> length t < 2 ^ 64"
  shows "\<exists>r st'. echo rt env newline args st = Some (r, st') \<and> echo_post rt newline args st r st'"
proof -
  consider "\<not> (o_session env \<and> o_ctx env \<and> o_content env)" | "o_session env \<and> o_ctx env \<and> o_content env" "seen_eof st"
    | e where "o_session env \<and> o_ctx env \<and> o_content env" "\<not> seen_eof st" "echo_size rt newline args = Some (Inl e)"
    | n where "o_session env \<and> o_ctx env \<and> o_content env" "\<not> seen_eof st" "echo_size rt newline args = Some (Inr n)"
    using assms(3) by (cases "echo_size rt newline args") (auto split: sum.splits, metis sum.exhaust)
  then show ?thesis
  proof cases
    case (4 n)
    obtain t where t: "echo_text rt newline args = Some (Inr t)" "len64 t = n" using echo_text_size [OF 4(3) assms(2)] by blast
    note small = assms(4) [OF t(1)]
    have len: "unat n = length t" using small t(2) by (auto simp: len64_def unat_word_of_nat)
    show ?thesis
    proof (cases "n = 0")
      case True
      then have "t = []" using len by simp
      then show ?thesis using 4 True t(1) assms(1) by (auto simp: echo_def intro: echo_postI)
    next
      case False
      then have "t \<noteq> []" using t(2) by auto
      obtain r1 st1 where g: "get_free_buf (o_mem env) (unat n) st = (r1, st1)" by (cases "get_free_buf (o_mem env) (unat n) st")
      show ?thesis
      proof (cases r1)
        case None
        note k = get_free_buf_ok [OF assms(1) g]
        have "echo_post rt newline args st (LErr ''no memory'') st1"
          by (rule echo_postI) (use k(2,3) None only_bufsD [OF k(1)] get_free_buf_reqs [OF assms(1) g] in simp_all)
        then show ?thesis using 4 False g None by (simp add: echo_def)
      next
        case (Some b)
        have g': "get_free_buf (o_mem env) (unat (len64 t)) st = (Some b, st1)" using g Some t(2) by simp
        obtain st2 where w: "write_buf b t st1 = Some st2" using take_and_write [OF assms(1) g' small] by blast
        obtain rc st3 where c: "send_chain_link env [b] st2 = (rc, st3)" by (cases "send_chain_link env [b] st2")
        note d = echo_sends [OF assms(1) g' small \<open>t \<noteq> []\<close> w c]
        define r where "r = (if rc = NGX_ERROR then LRet [LNil, LString (case o_errno env of Some e \<Rightarrow> e | None \<Rightarrow> ''unknown'')] else LRet [one])"
        have "echo rt env newline args st = Some (r, st3)"
          using 4 False g Some t(1) w c by (cases rc) (simp_all add: echo_def r_def)
        moreover have "echo_post rt newline args st r st3" using d t(1) by (auto simp: echo_post_def r_def)
        ultimately show ?thesis by blast
      qed
    qed
  qed (use assms(1) in \<open>auto simp: echo_def api_disabled_def intro: echo_postI\<close>)
qed

end
