(* ===== verification/Socket_Send_Inv.thy ===== *)
theory Socket_Send_Inv
  imports Output_Props
begin

section \<open>Sending on a cosocket keeps the buffers apart\<close>

text \<open>
  The request of a socket is its own until all of it is sent; then the buffer is free again. The busy chain of the sockets is
  always empty, because a buffer gets there only when nothing of it is left.
\<close>

subsection \<open>The loop over \<open>send\<close>\<close>

text \<open>What went out on the socket, on whichever connection it is.\<close>

definition sock_wire :: "nat \<Rightarrow> wsock \<Rightarrow> ostate \<Rightarrow> bytes" where
  "sock_wire u w st = (if w_raw w then wire st else swire st u)"

lemma advance_remaining: "remaining (advance b n st) b = drop n (remaining st b)"
  by (simp add: obuf_defs add.commute)

text \<open>Of the state only the position of the buffer and the bytes that went out change.\<close>

definition sent_frame :: "nat \<Rightarrow> wsock \<Rightarrow> nat \<Rightarrow> ostate \<Rightarrow> ostate \<Rightarrow> bool" where
  "sent_frame u w b st st' \<longleftrightarrow>
     (\<exists>p f g. st' = st\<lparr>obufs := (obufs st)(b := (obufs st b)\<lparr>opos := p\<rparr>), wire := f, swire := g\<rparr> \<and>
        (\<not> w_raw w \<longrightarrow> f = wire st) \<and> (w_raw w \<longrightarrow> g = swire st) \<and> (\<forall>v. v \<noteq> u \<longrightarrow> g v = swire st v))"

lemma sent_frameI:
  assumes "st' = st\<lparr>obufs := (obufs st)(b := (obufs st b)\<lparr>opos := p\<rparr>), wire := f, swire := g\<rparr>"
    "\<not> w_raw w \<Longrightarrow> f = wire st" "w_raw w \<Longrightarrow> g = swire st" "\<And>v. v \<noteq> u \<Longrightarrow> g v = swire st v"
  shows "sent_frame u w b st st'"
  unfolding sent_frame_def using assms by blast

lemma sent_frame_refl [simp]: "sent_frame u w b st st"
  by (rule sent_frameI [where p = "opos (obufs st b)" and f = "wire st" and g = "swire st"]) simp_all

lemma sent_frame_trans: "sent_frame u w b st s \<Longrightarrow> sent_frame u w b s st' \<Longrightarrow> sent_frame u w b st st'"
proof -
  assume "sent_frame u w b st s" "sent_frame u w b s st'"
  then obtain p f g p' f' g' where s: "s = st\<lparr>obufs := (obufs st)(b := (obufs st b)\<lparr>opos := p\<rparr>), wire := f, swire := g\<rparr>"
    "\<not> w_raw w \<longrightarrow> f = wire st" "w_raw w \<longrightarrow> g = swire st" "\<forall>v. v \<noteq> u \<longrightarrow> g v = swire st v"
    "st' = s\<lparr>obufs := (obufs s)(b := (obufs s b)\<lparr>opos := p'\<rparr>), wire := f', swire := g'\<rparr>"
    "\<not> w_raw w \<longrightarrow> f' = wire s" "w_raw w \<longrightarrow> g' = swire s" "\<forall>v. v \<noteq> u \<longrightarrow> g' v = swire s v"
    unfolding sent_frame_def by blast
  show ?thesis by (rule sent_frameI [where p = p' and f = f' and g = g']) (use s in simp_all)
qed

lemma sent_frame_step: "sent_frame u w b st (advance b n (put_wire u w t st))"
  by (rule sent_frameI [where p = "opos (obufs st b) + n" and f = "if w_raw w then wire st @ t else wire st"
        and g = "if w_raw w then swire st else (swire st)(u := swire st u @ t)"])
    (simp_all add: advance_def put_buf_def put_wire_def)

lemma sent_frameD:
  assumes "sent_frame u w b st st'"
  shows "o_free_bufs st' = o_free_bufs st" "downstream_busy_bufs st' = downstream_busy_bufs st" "upstream_busy_bufs st' = upstream_busy_bufs st"
    "next_buf st' = next_buf st" "wsocks st' = wsocks st" "out_chain st' = out_chain st" "seen_eof st' = seen_eof st"
    "d \<noteq> b \<Longrightarrow> obufs st' d = obufs st d" "odata (obufs st' b) = odata (obufs st b)" "ocap (obufs st' b) = ocap (obufs st b)"
    "\<not> w_raw w \<Longrightarrow> wire st' = wire st" "w_raw w \<or> v \<noteq> u \<Longrightarrow> swire st' v = swire st v"
    "writing_raw_req_socket st' = writing_raw_req_socket st"
  using assms by (auto simp: sent_frame_def)

lemma send_loop_spec:
  assumes "send_loop u w b io st = (rc, st')" "opos (obufs st b) \<le> length (odata (obufs st b))"
  shows "sock_wire u w st' @ remaining st' b = sock_wire u w st @ remaining st b \<and> (rc = NGX_OK \<longrightarrow> remaining st' b = []) \<and>
    rc \<in> {NGX_OK, NGX_AGAIN, NGX_ERROR} \<and> opos (obufs st' b) \<le> length (odata (obufs st' b)) \<and> sent_frame u w b st st'"
  using assms
proof (induction u w b io st rule: send_loop.induct)
  case (4 u w b n io st)
  define m where "m = min n (bufsize st b)"
  define s where "s = advance b m (put_wire u w (take m (remaining st b)) st)"
  have sw: "sock_wire u w s @ remaining s b = sock_wire u w st @ remaining st b"
  proof -
    have "remaining s b = drop m (remaining st b)" unfolding s_def advance_remaining by (simp add: put_wire_def)
    moreover have "sock_wire u w s = sock_wire u w st @ take m (remaining st b)" by (simp add: s_def sock_wire_def put_wire_def advance_def put_buf_def)
    ultimately show ?thesis by simp
  qed
  have pos: "opos (obufs s b) \<le> length (odata (obufs s b))"
    using "4.prems"(2) by (auto simp: s_def m_def put_wire_def obuf_defs)
  have fr: "sent_frame u w b st s" unfolding s_def by (rule sent_frame_step)
  show ?case
  proof (cases "bufsize s b = 0")
    case True
    then have e: "rc = NGX_OK" "st' = s" using "4.prems"(1) by (simp_all add: s_def m_def Let_def)
    have "remaining s b = []" using True by (metis length_0_conv length_remaining)
    then show ?thesis using sw pos fr unfolding e by simp
  next
    case False
    then have r: "send_loop u w b io s = (rc, st')" using "4.prems"(1) by (simp add: s_def m_def Let_def)
    have "sock_wire u w st' @ remaining st' b = sock_wire u w s @ remaining s b \<and> (rc = NGX_OK \<longrightarrow> remaining st' b = []) \<and>
      rc \<in> {NGX_OK, NGX_AGAIN, NGX_ERROR} \<and> opos (obufs st' b) \<le> length (odata (obufs st' b)) \<and> sent_frame u w b s st'"
      by (rule "4.IH" [of m "take m (remaining st b)" s]) (use False r pos in \<open>simp_all add: s_def m_def\<close>)
    then show ?thesis using sw sent_frame_trans [OF fr] by simp
  qed
qed auto

subsection \<open>Requests\<close>

text \<open>What a change of a socket needs: its request is the one it had, none, or a buffer that is in no list.\<close>

lemma entering_put_sock:
  assumes "entering ins st" "wsocks st u = Some w" "w_req w' = w_req w \<or> w_req w' = None"
  shows "entering ins (set_wsock u w' st)"
proof -
  note e = enteringD [OF assms(1)]
  have lift: "\<exists>x'. wsocks st v = Some x' \<and> w_req x' = Some d" if "wsocks (set_wsock u w' st) v = Some x" "w_req x = Some d" for v x d
    using that assms(2,3) by (auto simp: set_wsock_def split: if_splits)
  show ?thesis
  proof (rule enteringI, goal_cases)
    case (4 v x d)
    then show ?case using lift [OF 4] e(4) [of v _ d] by (auto simp: set_wsock_def)
  next
    case (5 v x d)
    then show ?case using lift [OF 5] e(5) [of v _ d] by (auto simp: set_wsock_def)
  next
    case (6 v x v' x' d)
    then show ?case using lift [OF 6(1,2)] lift [OF 6(3,4)] e(6) [of v _ d v'] by auto
  next
    case (3 d)
    then show ?case using e(3) [of d] by (simp add: set_wsock_def)
  qed (use e(1,2,7,8) in \<open>simp_all add: set_wsock_def bufs_ok_def bufsize_def\<close>)
qed

lemma oinv_put_sock: "oinv st \<Longrightarrow> wsocks st u = Some w \<Longrightarrow> w_req w' = w_req w \<or> w_req w' = None \<Longrightarrow> oinv (set_wsock u w' st)"
  using entering_put_sock [of "[]" st u w w'] by (simp add: entering_Nil)

text \<open>A request that ends leaves its buffer between the lists; a buffer between the lists becomes a request.\<close>

lemma release_request:
  assumes "oinv st" "wsocks st u = Some w" "w_req w = Some b" "w_req w' = None"
  shows "entering [b] (set_wsock u w' st)"
proof -
  note e = enteringD [OF oinv_entering [OF assms(1)]]
  have other: "wsocks st v = Some x \<and> v \<noteq> u" if "wsocks (set_wsock u w' st) v = Some x" "w_req x = Some d" for v x d
    using that assms(4) by (auto simp: set_wsock_def split: if_splits)
  have n: "b \<notin> set (o_free_bufs st @ downstream_busy_bufs st @ [] @ upstream_busy_bufs st)" "b < next_buf st" using e(4,5) [OF assms(2,3)] by simp_all
  show ?thesis
  proof (rule enteringI, goal_cases)
    case 2
    show ?case using e(2) n by (auto simp: set_wsock_def)
  next
    case (3 d)
    then show ?case using e(3) [of d] n(2) by (auto simp: set_wsock_def)
  next
    case (4 v x d)
    then show ?case using other [OF 4] e(4) [of v x d] by (simp add: set_wsock_def)
  next
    case (5 v x d)
    have "d \<noteq> b" using other [OF 5] e(6) [OF assms(2,3), of v x] 5(2) by auto
    then show ?case using other [OF 5] e(5) [of v x d] 5(2) by (auto simp: set_wsock_def)
  next
    case (6 v x v' x' d)
    then show ?case using other [OF 6(1,2)] other [OF 6(3,4)] e(6) [of v x d v' x'] by simp
  next
    case 7
    show ?case using oinv_subseq [OF assms(1)] by (simp add: set_wsock_def list_emb_prefix)
  qed (use e(1,8) in \<open>simp_all add: set_wsock_def bufs_ok_def bufsize_def\<close>)
qed

lemma start_request:
  assumes "entering [b] st" "subseq (out_chain st) (downstream_busy_bufs st)" "w_req w' = Some b"
  shows "oinv (set_wsock u w' st)"
proof -
  note e = enteringD [OF assms(1)]
  have other: "wsocks st v = Some x \<and> v \<noteq> u \<or> v = u \<and> d = b" if "wsocks (set_wsock u w' st) v = Some x" "w_req x = Some d" for v x d
    using that assms(3) by (auto simp: set_wsock_def split: if_splits)
  have "entering [] (set_wsock u w' st)"
  proof (rule enteringI, goal_cases)
    case 2
    show ?case using e(2) by (auto simp: set_wsock_def)
  next
    case (3 d)
    then show ?case using e(3) [of d] by (auto simp: set_wsock_def)
  next
    case (4 v x d)
    then show ?case using other [OF 4] e(4) [of v x d] e(3) [of b] by (auto simp: set_wsock_def)
  next
    case (5 v x d)
    then show ?case using other [OF 5] e(5) [of v x d] e(2) by (auto simp: set_wsock_def)
  next
    case (6 v x v' x' d)
    have "v = u \<longleftrightarrow> d = b" "v' = u \<longleftrightarrow> d = b"
      using other [OF 6(1,2)] other [OF 6(3,4)] e(5) [of v x d] e(5) [of v' x' d] 6 assms(3) by (auto simp: set_wsock_def)
    then show ?case using other [OF 6(1,2)] other [OF 6(3,4)] e(6) [of v x d v' x'] 6 by auto
  next
    case 7
    show ?case using assms(2) by (simp add: set_wsock_def)
  qed (use e(1,8) in \<open>simp_all add: set_wsock_def bufs_ok_def bufsize_def\<close>)
  then show ?thesis by (simp add: entering_Nil)
qed


subsection \<open>The end of a request\<close>

definition send_inv :: "ostate \<Rightarrow> bool" where
  "send_inv st \<longleftrightarrow> oinv st \<and> upstream_busy_bufs st = []"

text \<open>The other sockets: they, what went out on them and their requests stay.\<close>

definition others_kept :: "nat \<Rightarrow> ostate \<Rightarrow> ostate \<Rightarrow> bool" where
  "others_kept u st st' \<longleftrightarrow> (\<forall>v. v \<noteq> u \<longrightarrow> wsocks st' v = wsocks st v \<and> swire st' v = swire st v \<and>
     (\<forall>w d. wsocks st v = Some w \<longrightarrow> w_req w = Some d \<longrightarrow> obufs st' d = obufs st d))"

lemma others_keptI:
  assumes "\<And>v. v \<noteq> u \<Longrightarrow> wsocks st' v = wsocks st v" "\<And>v. v \<noteq> u \<Longrightarrow> swire st' v = swire st v"
    "\<And>v w d. v \<noteq> u \<Longrightarrow> wsocks st v = Some w \<Longrightarrow> w_req w = Some d \<Longrightarrow> obufs st' d = obufs st d"
  shows "others_kept u st st'"
  unfolding others_kept_def using assms by simp

lemma others_kept_trans: "others_kept u st s \<Longrightarrow> others_kept u s st' \<Longrightarrow> others_kept u st st'"
  by (simp add: others_kept_def)

lemma reqs_kept_others: "reqs_kept st st' \<Longrightarrow> others_kept u st st'"
  by (simp add: reqs_kept_def others_kept_def)

lemma others_kept_put_sock [simp]: "others_kept u st (set_wsock u w st') = others_kept u st st'"
  by (simp add: others_kept_def set_wsock_def)

lemma others_kept_refl [simp]: "others_kept u st st"
  by (simp add: others_kept_def)

lemma reap_put_sock: "reap bs (set_wsock u w st) = map_prod id (set_wsock u w) (reap bs st)"
proof (induction bs arbitrary: st)
  case (Cons b bs)
  let ?f = "\<lambda>st. (put_buf b ((obufs st b)\<lparr>odata := [], opos := 0\<rparr>) st)\<lparr>o_free_bufs := b # o_free_bufs st\<rparr>"
  have "?f (set_wsock u w st) = set_wsock u w (?f st)" "bufsize (set_wsock u w st) b = bufsize st b"
    by (simp_all add: set_wsock_def put_buf_def bufsize_def)
  then show ?case using Cons [of "?f st"] by simp
qed simp

lemma update_put_sock:
  "set_wsock u w (update_downstream ins st) = update_downstream ins (set_wsock u w st)"
  "set_wsock u w (update_upstream ins st) = update_upstream ins (set_wsock u w st)"
proof -
  have "downstream_busy_bufs (set_wsock u w st) = downstream_busy_bufs st" "upstream_busy_bufs (set_wsock u w st) = upstream_busy_bufs st"
    by (simp_all add: set_wsock_def)
  then show "set_wsock u w (update_downstream ins st) = update_downstream ins (set_wsock u w st)"
    "set_wsock u w (update_upstream ins st) = update_upstream ins (set_wsock u w st)"
    by (simp_all add: update_downstream_def update_upstream_def reap_put_sock case_prod_beta) (simp_all add: set_wsock_def)
qed

lemma update_upstream_ok:
  assumes "entering [b] st" "subseq (out_chain st) (downstream_busy_bufs st)" "upstream_busy_bufs st = []" "bufsize st b = 0"
  shows "send_inv (update_upstream [b] st)" "unsent (update_upstream [b] st) = unsent st"
    "update_upstream [b] st = st\<lparr>obufs := (obufs st)(b := (obufs st b)\<lparr>odata := [], opos := 0\<rparr>), o_free_bufs := b # o_free_bufs st\<rparr>"
proof -
  show eq: "update_upstream [b] st = st\<lparr>obufs := (obufs st)(b := (obufs st b)\<lparr>odata := [], opos := 0\<rparr>), o_free_bufs := b # o_free_bufs st\<rparr>" (is "_ = ?s")
    using assms(3,4) by (simp add: update_upstream_def put_buf_def)
  note e = enteringD [OF assms(1)]
  have "b \<notin> set (out_chain st)" by (rule entering_not_out [OF assms(1,2)])
  then have same: "bufsize ?s d = bufsize st d" "remaining ?s d = remaining st d" if "d \<in> set (out_chain st)" for d
    using that by (auto simp: bufsize_def remaining_def)
  have set: "set (o_free_bufs ?s @ downstream_busy_bufs ?s @ [] @ upstream_busy_bufs ?s) = set (o_free_bufs st @ downstream_busy_bufs st @ [b] @ upstream_busy_bufs st)"
    by auto
  have "entering [] ?s"
  proof (rule enteringI, unfold set, goal_cases)
    case 2
    show ?case using e(2) by auto
  next
    case (3 d)
    then show ?case using e(3) [of d] by simp
  next
    case (4 v x d)
    then show ?case using e(4) [of v x d] by simp
  next
    case (5 v x d)
    then show ?case using e(5) [of v x d] by simp
  next
    case (6 v x v' x' d)
    then show ?case using e(6) [of v x d v' x'] by simp
  next
    case 7
    show ?case using assms(2) by simp
  next
    case (8 d)
    then show ?case using e(8) [of d] same(1) [of d] by simp
  qed (use e(1) in \<open>simp add: bufs_ok_def\<close>)
  then show "send_inv (update_upstream [b] st)" unfolding eq by (simp add: send_inv_def entering_Nil assms(3))
  show "unsent (update_upstream [b] st) = unsent st" unfolding eq by (rule unsent_cong) (use same in simp_all)
qed


text \<open>All of a request is sent: its buffer goes to the free list, or behind what the client still has to get.\<close>

definition end_request :: "wsock \<Rightarrow> nat \<Rightarrow> ostate \<Rightarrow> ostate" where
  "end_request w b st = (if w_raw w then update_downstream [b] st else update_upstream [b] st)"

lemma end_request_ok:
  assumes "send_inv st" "wsocks st u = Some w" "w_req w = Some b" "bufsize st b = 0" "w_req w' = None"
  shows "send_inv (set_wsock u w' (end_request w b st))" "unsent (set_wsock u w' (end_request w b st)) = unsent st" "wire (end_request w b st) = wire st"
    "swire (end_request w b st) = swire st" "seen_eof (end_request w b st) = seen_eof st" "others_kept u st (end_request w b st)"
    "writing_raw_req_socket (end_request w b st) = writing_raw_req_socket st"
proof -
  let ?s = "set_wsock u w' st"
  have r: "entering [b] ?s" by (rule release_request) (use assms in \<open>simp_all add: send_inv_def\<close>)
  have sub: "subseq (out_chain ?s) (downstream_busy_bufs ?s)" using assms(1) oinv_subseq by (simp add: send_inv_def set_wsock_def)
  have un: "unsent ?s = unsent st" by (rule unsent_cong) (simp_all add: set_wsock_def remaining_def)
  have up: "upstream_busy_bufs ?s = []" using assms(1) by (simp add: send_inv_def set_wsock_def)
  have zero: "bufsize ?s b = 0" using assms(4) by (simp add: set_wsock_def)
  obtain f fs ds where e: "end_request w b st = st\<lparr>obufs := f, o_free_bufs := fs, downstream_busy_bufs := ds\<rparr>"
  proof (cases "w_raw w")
    case True
    obtain bs s where d: "reap (downstream_busy_bufs st @ [b]) st = (bs, s)" by (cases "reap (downstream_busy_bufs st @ [b]) st")
    have "distinct (downstream_busy_bufs st @ [b])" using enteringD(2) [OF r] by (auto simp: set_wsock_def)
    from reap_spec [OF d this] have "s = st\<lparr>obufs := obufs s, o_free_bufs := o_free_bufs s\<rparr>" by blast
    then have "end_request w b st = st\<lparr>obufs := obufs s, o_free_bufs := o_free_bufs s, downstream_busy_bufs := bs\<rparr>"
      using True d by (simp add: end_request_def update_downstream_def)
    then show thesis by (rule that)
  next
    case False
    have "end_request w b st = st\<lparr>obufs := (obufs st)(b := (obufs st b)\<lparr>odata := [], opos := 0\<rparr>), o_free_bufs := b # o_free_bufs st,
        downstream_busy_bufs := downstream_busy_bufs st\<rparr>"
      using False assms(1,4) by (simp add: end_request_def update_upstream_def put_buf_def send_inv_def)
    then show thesis by (rule that)
  qed
  show "wire (end_request w b st) = wire st" "swire (end_request w b st) = swire st" "seen_eof (end_request w b st) = seen_eof st"
    "writing_raw_req_socket (end_request w b st) = writing_raw_req_socket st"
    by (simp_all add: e)
  show "send_inv (set_wsock u w' (end_request w b st))" "unsent (set_wsock u w' (end_request w b st)) = unsent st"
  proof -
    have "send_inv (set_wsock u w' (end_request w b st)) \<and> unsent (set_wsock u w' (end_request w b st)) = unsent st"
    proof (cases "w_raw w")
      case True
      have c: "set_wsock u w' (end_request w b st) = update_downstream [b] ?s" using True by (simp add: end_request_def update_put_sock)
      have "upstream_busy_bufs (set_wsock u w' (end_request w b st)) = []" using up by (simp add: e set_wsock_def)
      then show ?thesis using update_downstream_ok [OF r c] un by (simp add: send_inv_def)
    next
      case False
      have c: "set_wsock u w' (end_request w b st) = update_upstream [b] ?s" using False by (simp add: end_request_def update_put_sock)
      show ?thesis unfolding c using update_upstream_ok [OF r sub up zero] un by simp
    qed
    then show "send_inv (set_wsock u w' (end_request w b st))" "unsent (set_wsock u w' (end_request w b st)) = unsent st" by simp_all
  qed
  show "others_kept u st (end_request w b st)"
  proof (rule others_keptI)
    fix v x d assume h: "v \<noteq> u" "wsocks st v = Some x" "w_req x = Some d"
    have "d \<notin> set (downstream_busy_bufs st @ [b])" "d \<notin> set (upstream_busy_bufs st @ [b])"
      using enteringD(5) [OF r, of v x d] h by (auto simp: set_wsock_def)
    then show "obufs (end_request w b st) d = obufs st d"
      by (simp add: end_request_def update_downstream_def update_upstream_def case_prod_beta reap_other)
  qed (simp_all add: e)
qed


subsection \<open>One call of the sender\<close>

lemma flags_frame [simp]:
  "send_inv (st\<lparr>c_error := x\<rparr>) = send_inv st" "send_inv (st\<lparr>writing_raw_req_socket := x\<rparr>) = send_inv st" "send_inv (st\<lparr>write_error := x\<rparr>) = send_inv st"
  "send_inv (st\<lparr>c_timedout := x\<rparr>) = send_inv st" "send_inv (st\<lparr>seen_eof := x\<rparr>) = send_inv st" "send_inv (st\<lparr>flushing := y\<rparr>) = send_inv st" "send_inv (st\<lparr>flushing_coros := z\<rparr>) = send_inv st"
  "unsent (st\<lparr>c_error := x\<rparr>) = unsent st" "unsent (st\<lparr>writing_raw_req_socket := x\<rparr>) = unsent st" "unsent (st\<lparr>write_error := x\<rparr>) = unsent st"
  "unsent (st\<lparr>c_timedout := x\<rparr>) = unsent st" "unsent (st\<lparr>seen_eof := x\<rparr>) = unsent st" "unsent (st\<lparr>flushing := y\<rparr>) = unsent st"
  "unsent (st\<lparr>flushing_coros := z\<rparr>) = unsent st" "unsent (set_wsock u w st) = unsent st"
  by (simp_all add: send_inv_def oinv_def bufs_ok_def lists_ok_def reqs_ok_def chain_ok_def bufsize_def unsent_def remaining_def set_wsock_def)

lemma others_flags [simp]:
  "others_kept u st (st'\<lparr>c_error := x\<rparr>) = others_kept u st st'" "others_kept u st (st'\<lparr>writing_raw_req_socket := x\<rparr>) = others_kept u st st'"
  "others_kept u st (st'\<lparr>write_error := x\<rparr>) = others_kept u st st'"
  by (simp_all add: others_kept_def)

lemma req_apart:
  assumes "oinv st" "wsocks st u = Some w" "w_req w = Some b"
  shows "b \<notin> set (out_chain st)" "\<And>v x. wsocks st v = Some x \<Longrightarrow> w_req x = Some b \<Longrightarrow> v = u"
proof -
  note e = enteringD [OF oinv_entering [OF assms(1)]]
  have "set (out_chain st) \<subseteq> set (downstream_busy_bufs st)" using oinv_subseq [OF assms(1)] by (auto dest: list_emb_set)
  then show "b \<notin> set (out_chain st)" using e(5) [OF assms(2,3)] by auto
  show "v = u" if "wsocks st v = Some x" "w_req x = Some b" for v x using e(6) [OF assms(2,3) that] by simp
qed

lemma sent_frame_ok:
  assumes "send_inv st" "wsocks st u = Some w" "w_req w = Some b" "sent_frame u w b st s" "opos (obufs s b) \<le> length (odata (obufs s b))"
  shows "send_inv s" "unsent s = unsent st" "others_kept u st s"
proof -
  have i: "oinv st" using assms(1) by (simp add: send_inv_def)
  note e = enteringD [OF oinv_entering [OF i]] and a = req_apart [OF i assms(2,3)] and f = sent_frameD [OF assms(4)]
  have same: "obufs s d = obufs st d" if "d \<in> set (out_chain st)" for d using f(8) [of d] a(1) that by auto
  have bufs: "bufs_ok s"
    unfolding bufs_ok_def
  proof
    fix d
    show "opos (obufs s d) \<le> length (odata (obufs s d)) \<and> length (odata (obufs s d)) \<le> ocap (obufs s d)"
      using e(1) assms(5) f(8) [of d] f(9,10) by (cases "d = b") (simp_all add: bufs_ok_def)
  qed
  have "entering [] s"
    by (rule entering_out [OF oinv_entering [OF i]]) (use f bufs oinv_subseq [OF i] bufsize_cong [OF same] e(8) in simp_all)
  then show "send_inv s" using assms(1) f(3) by (simp add: send_inv_def entering_Nil)
  show "unsent s = unsent st" by (rule unsent_cong) (use f(6) remaining_cong [OF same] in simp_all)
  show "others_kept u st s"
  proof (rule others_keptI)
    fix v x d assume h: "v \<noteq> u" "wsocks st v = Some x" "w_req x = Some d"
    then have "d \<noteq> b" using a(2) [of v x] by auto
    then show "obufs s d = obufs st d" by (rule f(8))
  qed (use f in simp_all)
qed

text \<open>
  The result of the sender: everything went out and the request is over; or the kernel takes no more, and the rest waits in the buffer of the request;
  or an error, and an initial part of the text went out. \<open>k\<close> is what is left.
\<close>

definition send_post :: "nat \<Rightarrow> wsock \<Rightarrow> nat \<Rightarrow> ostate \<Rightarrow> ngx_rc \<Rightarrow> bool \<Rightarrow> wsock \<Rightarrow> ostate \<Rightarrow> bytes \<Rightarrow> bool" where
  "send_post u w b st rc wk w' st' k \<longleftrightarrow> send_inv st' \<and> unsent st' = unsent st \<and> others_kept u st st' \<and> seen_eof st' = seen_eof st \<and>
     (\<not> w_raw w \<longrightarrow> wire st' = wire st \<and> writing_raw_req_socket st' = writing_raw_req_socket st) \<and>
     wsocks st' u = Some w' \<and> w_raw w' = w_raw w \<and> w_len w' = w_len w \<and> w_conn w' = w_conn w \<and> w_closed w' = w_closed w \<and>
     sock_wire u w st' @ k = sock_wire u w st @ remaining st b \<and>
     (rc = NGX_OK \<and> k = [] \<and> wk = w_waiting w \<and> w_req w' = None \<and> w_ft w' = w_ft w \<and> \<not> w_waiting w' \<and> \<not> w_handler w' \<or>
      rc = NGX_AGAIN \<and> \<not> wk \<and> w' = w\<lparr>w_handler := True\<rparr> \<and> remaining st' b = k \<or>
      rc = NGX_ERROR \<and> wk = w_waiting w \<and> \<not> w_waiting w' \<and> \<not> w_handler w' \<and> w_ft w' AND FT_ERROR \<noteq> 0)"

lemma send_failed_eq:
  "o_ctx env \<Longrightarrow> send_failed env u w st =
     Some (NGX_ERROR, w_waiting w, set_wsock u (w\<lparr>w_ft := w_ft w OR FT_ERROR, w_handler := False, w_waiting := False\<rparr>) st)"
  by (simp add: send_failed_def handle_write_error_def)

lemma ft_error_set: "(x OR FT_ERROR) AND FT_ERROR \<noteq> 0"
proof
  assume "(x OR FT_ERROR) AND FT_ERROR = 0"
  then have "bit ((x OR FT_ERROR) AND FT_ERROR) n = bit 0 n" for n by simp
  from this [of 0] show False by (simp add: bit_simps FT_ERROR_def)
qed


lemma socket_send_ok:
  assumes "send_inv st" "wsocks st u = Some w" "w_req w = Some b" "o_ctx env"
  shows "\<exists>rc wk w' st' k. socket_send env u st = Some (rc, wk, st') \<and> send_post u w b st rc wk w' st' k"
proof -
  obtain rc s where l: "send_loop u w b (o_send env) st = (rc, s)" by (cases "send_loop u w b (o_send env) st")
  have "opos (obufs st b) \<le> length (odata (obufs st b))" using assms(1) by (simp add: send_inv_def oinv_def bufs_ok_def)
  note p = send_loop_spec [OF l this]
  then have fr: "sent_frame u w b st s" "opos (obufs s b) \<le> length (odata (obufs s b))" by simp_all
  note k = sent_frame_ok [OF assms(1-3) fr] and f = sent_frameD [OF fr(1)]
  have su: "wsocks s u = Some w" using f(5) assms(2) by simp
  have wires: "sock_wire u w s @ remaining s b = sock_wire u w st @ remaining st b" using p by simp
  have oi: "oinv s" using k(1) by (simp add: send_inv_def)
  consider "rc = NGX_OK" "remaining s b = []" | "rc = NGX_AGAIN" | "rc = NGX_ERROR" using p by auto
  then show ?thesis
  proof cases
    case 1
    then have z: "bufsize s b = 0" by (metis length_remaining list.size(3))
    define x where "x = (if o_event env then w\<lparr>w_req := None, w_handler := False, w_waiting := False\<rparr>
      else w\<lparr>w_req := None, w_ft := w_ft w OR FT_ERROR, w_handler := False, w_waiting := False\<rparr>)"
    have x: "w_req x = None" "w_raw x = w_raw w" "w_len x = w_len w" "w_conn x = w_conn w" "w_closed x = w_closed w" "\<not> w_waiting x" "\<not> w_handler x"
      "o_event env \<Longrightarrow> w_ft x = w_ft w" "\<not> o_event env \<Longrightarrow> w_ft x = w_ft w OR FT_ERROR" by (simp_all add: x_def)
    note e = end_request_ok [OF k(1) su assms(3) z x(1)]
    let ?st' = "set_wsock u x (end_request w b s)"
    have "socket_send env u st = Some (if o_event env then NGX_OK else NGX_ERROR, w_waiting w, ?st')"
      using assms 1 l by (simp add: socket_send_def end_request_def handle_write_success_def send_failed_eq x_def Let_def)
    moreover have "send_post u w b st (if o_event env then NGX_OK else NGX_ERROR) (w_waiting w) x ?st' []"
    proof -
      have "sock_wire u w ?st' = sock_wire u w s" using e(3,4) by (simp add: sock_wire_def set_wsock_def)
      moreover have "others_kept u st ?st'" using others_kept_trans [OF k(3) e(6)] by simp
      moreover have "wire ?st' = wire s" "seen_eof ?st' = seen_eof s" "wsocks ?st' u = Some x" "writing_raw_req_socket ?st' = writing_raw_req_socket s" using e by (simp_all add: set_wsock_def)
      ultimately show ?thesis using e(1,2) k(2) f(7,11,13) wires 1(2) x ft_error_set by (simp add: send_post_def)
    qed
    ultimately show ?thesis by blast
  next
    case 2
    define s1 where "s1 = (if w_raw w then s\<lparr>writing_raw_req_socket := True\<rparr> else s)"
    define x where "x = (if o_event env then w\<lparr>w_handler := True\<rparr> else w\<lparr>w_ft := w_ft w OR FT_ERROR, w_handler := False, w_waiting := False\<rparr>)"
    have x: "w_req x = w_req w" "w_raw x = w_raw w" "w_len x = w_len w" "w_conn x = w_conn w" "w_closed x = w_closed w" by (simp_all add: x_def)
    let ?st' = "set_wsock u x s1"
    have s1: "send_inv s1" "unsent s1 = unsent st" "others_kept u st s1" "seen_eof s1 = seen_eof st" "\<not> w_raw w \<Longrightarrow> writing_raw_req_socket s1 = writing_raw_req_socket st" "wire s1 = wire s" "swire s1 = swire s" "remaining s1 = remaining s"
      "wsocks s1 u = Some w" using k f(7,13) su by (simp_all add: s1_def)
    have "send_inv ?st'" using oinv_put_sock [of s1 u w x] s1(1,9) x(1) by (simp add: send_inv_def set_wsock_def)
    moreover have ret: "socket_send env u st = Some (if o_event env then NGX_AGAIN else NGX_ERROR, \<not> o_event env \<and> w_waiting w, ?st')"
      using assms 2 l by (simp add: socket_send_def send_failed_eq x_def s1_def Let_def)
    moreover have "sock_wire u w ?st' = sock_wire u w s" "remaining ?st' b = remaining s b" "wsocks ?st' u = Some x" "others_kept u st ?st'" "wire ?st' = wire s"
      "unsent ?st' = unsent st" "seen_eof ?st' = seen_eof st" "\<not> w_raw w \<Longrightarrow> writing_raw_req_socket ?st' = writing_raw_req_socket st" using s1 by (simp_all add: sock_wire_def) (simp_all add: set_wsock_def)
    moreover have "o_event env \<Longrightarrow> x = w\<lparr>w_handler := True\<rparr>" "\<not> o_event env \<Longrightarrow> w_ft x AND FT_ERROR \<noteq> 0 \<and> \<not> w_waiting x \<and> \<not> w_handler x" using ft_error_set by (simp_all add: x_def)
    ultimately have "send_post u w b st (if o_event env then NGX_AGAIN else NGX_ERROR) (\<not> o_event env \<and> w_waiting w) x ?st' (remaining s b)"
      using f(11) wires x by (cases "o_event env") (simp_all add: send_post_def)
    then show ?thesis using ret by blast
  next
    case 3
    define s1 where "s1 = (if w_raw w then s\<lparr>c_error := True\<rparr> else s)"
    define x where "x = w\<lparr>w_errno := o_errno env, w_ft := w_ft w OR FT_ERROR, w_handler := False, w_waiting := False\<rparr>"
    let ?st' = "set_wsock u x s1"
    have s1: "send_inv s1" "unsent s1 = unsent st" "others_kept u st s1" "seen_eof s1 = seen_eof st" "\<not> w_raw w \<Longrightarrow> writing_raw_req_socket s1 = writing_raw_req_socket st" "wire s1 = wire s" "swire s1 = swire s"
      "wsocks s1 u = Some w" using k f(7,13) su by (simp_all add: s1_def)
    have "send_inv ?st'" using oinv_put_sock [of s1 u w x] s1(1,8) by (simp add: send_inv_def set_wsock_def x_def)
    moreover have ret: "socket_send env u st = Some (NGX_ERROR, w_waiting w, ?st')"
      using assms 3 l by (simp add: socket_send_def send_failed_eq x_def s1_def Let_def)
    moreover have "sock_wire u w ?st' = sock_wire u w s" "wsocks ?st' u = Some x" "others_kept u st ?st'" "wire ?st' = wire s"
      "unsent ?st' = unsent st" "seen_eof ?st' = seen_eof st" "\<not> w_raw w \<Longrightarrow> writing_raw_req_socket ?st' = writing_raw_req_socket st" using s1 by (simp_all add: sock_wire_def) (simp_all add: set_wsock_def)
    ultimately have "send_post u w b st NGX_ERROR (w_waiting w) x ?st' (remaining s b)"
      using f(11) wires ft_error_set by (simp add: send_post_def x_def)
    then show ?thesis using ret by blast
  qed
qed

end
