(* ===== verification/Output_Run.thy ===== *)
theory Output_Run
  imports Socket_Send_Inv
begin

section \<open>Runs of the output\<close>

text \<open>
  Sequences of calls of \<open>print\<close>, \<open>say\<close>, \<open>eof\<close>, \<open>flush\<close> and \<open>send\<close> of several coroutines, and of write events. A step gives whether the
  text of a call was taken: \<open>Done True\<close> is a return without an error or a wait.
\<close>

datatype oop =
    Echo oenv bool "oval list"
  | Eof oenv nat
  | Flush oenv nat "nat option"
  | Send oenv bool bool nat nat oval
  | SockEvent oenv bool nat
  | ClientEvent oenv wevent

definition taken :: "send_out \<Rightarrow> bool" where
  "taken r = (case r of SYield \<Rightarrow> True | SRet (LRet [LNumber n]) \<Rightarrow> True | _ \<Rightarrow> False)"

fun ostep :: "lua_rt \<Rightarrow> oop \<Rightarrow> ostate \<Rightarrow> (bool \<times> ostate) option" where
  "ostep rt (Echo env nl args) st = map_option (\<lambda>(r, st). (r = LRet [one], st)) (echo rt env nl args st)"
| "ostep rt (Eof env n) st = (case ngx_eof env n st of (r, st) \<Rightarrow> Some (True, st))"
| "ostep rt (Flush env n c) st = map_option (\<lambda>(r, st). (True, st)) (ngx_flush env n c st)"
| "ostep rt (Send env same nodelay n u v) st = map_option (\<lambda>(r, st). (taken r, st)) (tcp_send rt env same nodelay n u v st)"
| "ostep rt (SockEvent env tout u) st = map_option (\<lambda>(r, st). (True, st)) (write_event env tout u st)"
| "ostep rt (ClientEvent env ev) st = map_option (\<lambda>(r, st). (True, st)) (wev_handler env ev st)"

fun orun :: "lua_rt \<Rightarrow> oop list \<Rightarrow> ostate \<Rightarrow> (bool list \<times> ostate) option" where
  "orun rt [] st = Some ([], st)"
| "orun rt (op # ops) st =
     (case ostep rt op st of None \<Rightarrow> None | Some (ok, st) \<Rightarrow> map_option (\<lambda>(oks, st). (ok # oks, st)) (orun rt ops st))"

text \<open>The text a call hands to the client or to a socket.\<close>

definition text_of :: "(string + bytes) option \<Rightarrow> bytes" where
  "text_of r = (case r of Some (Inr t) \<Rightarrow> t | _ \<Rightarrow> [])"

fun client_text :: "lua_rt \<Rightarrow> oop \<Rightarrow> bytes" where
  "client_text rt (Echo env nl args) = text_of (echo_text rt nl args)"
| "client_text rt op = []"

fun sock_text :: "lua_rt \<Rightarrow> nat \<Rightarrow> oop \<Rightarrow> bytes" where
  "sock_text rt u (Send env same nodelay n v x) = (if v = u then text_of (send_text rt x) else [])"
| "sock_text rt u op = []"

text \<open>The conditions: the arguments have no foreign light userdata and fit the memory, and there are a context and a socket.\<close>

fun op_fine :: "lua_rt \<Rightarrow> ostate \<Rightarrow> oop \<Rightarrow> bool" where
  "op_fine rt st (Echo env nl args) \<longleftrightarrow> list_all clean args \<and> echo_size rt nl args \<noteq> None \<and> length (text_of (echo_text rt nl args)) < 2 ^ 64"
| "op_fine rt st (Eof env n) \<longleftrightarrow> True"
| "op_fine rt st (Flush env n c) \<longleftrightarrow> o_session env"
| "op_fine rt st (Send env same nodelay n u v) \<longleftrightarrow> o_ctx env \<and> send_size rt v \<noteq> None \<and> length (text_of (send_text rt v)) < 2 ^ 64"
| "op_fine rt st (SockEvent env tout u) \<longleftrightarrow> o_ctx env \<and> wsocks st u \<noteq> None"
| "op_fine rt st (ClientEvent env ev) \<longleftrightarrow> True"

subsection \<open>Sockets\<close>

definition wsock_ok :: "wsock \<Rightarrow> bool" where
  "wsock_ok w \<longleftrightarrow> \<not> w_raw w \<and> w_ft w = 0 \<and> w_handler w = w_waiting w \<and> (w_handler w \<longrightarrow> w_req w \<noteq> None \<and> \<not> w_closed w)"

definition sock_pending :: "ostate \<Rightarrow> nat \<Rightarrow> bytes" where
  "sock_pending st u =
     (case wsocks st u of
        None \<Rightarrow> []
      | Some w \<Rightarrow> (if w_handler w then (case w_req w of None \<Rightarrow> [] | Some b \<Rightarrow> remaining st b) else []))"

definition wclosed :: "ostate \<Rightarrow> nat \<Rightarrow> bool" where
  "wclosed st u = (case wsocks st u of None \<Rightarrow> True | Some w \<Rightarrow> w_closed w)"

definition rinv :: "ostate \<Rightarrow> bool" where
  "rinv st \<longleftrightarrow> send_inv st \<and> \<not> writing_raw_req_socket st \<and> (\<forall>u w. wsocks st u = Some w \<longrightarrow> wsock_ok w)"

text \<open>What a step does to the stream of a socket: the text is appended, or nothing is; bytes are lost only when the socket is closed.\<close>

definition sock_step :: "bool \<Rightarrow> bytes \<Rightarrow> nat \<Rightarrow> ostate \<Rightarrow> ostate \<Rightarrow> bool" where
  "sock_step ok t u st st' \<longleftrightarrow> (wsocks st u = None \<longleftrightarrow> wsocks st' u = None) \<and>
     (if wclosed st u then wclosed st' u \<and> swire st' u = swire st u \<and> (ok \<longrightarrow> t = [])
      else \<exists>s l. swire st' u @ sock_pending st' u @ l = swire st u @ sock_pending st u @ s \<and> (l = [] \<or> wclosed st' u) \<and> (s = t \<or> s = [] \<and> (ok \<longrightarrow> t = [])))"

definition client_step :: "bool \<Rightarrow> bytes \<Rightarrow> ostate \<Rightarrow> ostate \<Rightarrow> bool" where
  "client_step ok t st st' \<longleftrightarrow> (\<exists>s. wire st' @ unsent st' = wire st @ unsent st @ s \<and> (s = t \<or> s = [] \<and> (ok \<longrightarrow> t = [])))"

lemma pending_closed: "rinv st \<Longrightarrow> wclosed st u \<Longrightarrow> sock_pending st u = []"
  by (auto simp: rinv_def wclosed_def sock_pending_def wsock_ok_def split: option.splits)

text \<open>A socket whose part of the state stays.\<close>

lemma sock_step_kept:
  assumes "wsocks st' u = wsocks st u" "swire st' u = swire st u" "\<And>w d. wsocks st u = Some w \<Longrightarrow> w_req w = Some d \<Longrightarrow> obufs st' d = obufs st d" "ok \<Longrightarrow> t = []"
  shows "sock_step ok t u st st'"
proof -
  have "sock_pending st' u = sock_pending st u" using assms(1,3) by (auto simp: sock_pending_def remaining_def split: option.splits)
  moreover have "wclosed st' u = wclosed st u" using assms(1) by (simp add: wclosed_def)
  ultimately show ?thesis using assms(1,2,4) by (auto simp: sock_step_def)
qed

lemma sock_step_reqs: "reqs_kept st st' \<Longrightarrow> (ok \<Longrightarrow> t = []) \<Longrightarrow> sock_step ok t u st st'"
  by (rule sock_step_kept) (auto simp: reqs_kept_def)

lemma sock_step_others: "others_kept u st st' \<Longrightarrow> v \<noteq> u \<Longrightarrow> sock_step ok [] v st st'"
  by (rule sock_step_kept) (auto simp: others_kept_def)


subsection \<open>Steps\<close>

definition good_step :: "lua_rt \<Rightarrow> oop \<Rightarrow> bool \<Rightarrow> ostate \<Rightarrow> ostate \<Rightarrow> bool" where
  "good_step rt op ok st st' \<longleftrightarrow> rinv st' \<and> client_step ok (client_text rt op) st st' \<and> (\<forall>u. sock_step ok (sock_text rt u op) u st st')"

lemma rinv_kept:
  assumes "rinv st" "oinv st'" "upstream_busy_bufs st' = upstream_busy_bufs st" "writing_raw_req_socket st' = writing_raw_req_socket st" "wsocks st' = wsocks st"
  shows "rinv st'"
  using assms by (simp add: rinv_def send_inv_def)

lemma text_small: "length (text_of r) < n \<Longrightarrow> r = Some (Inr t) \<Longrightarrow> length t < n"
  by (simp add: text_of_def)

lemma echo_step:
  assumes "rinv st" "op_fine rt st (Echo env nl args)"
  shows "\<exists>ok st'. ostep rt (Echo env nl args) st = Some (ok, st') \<and> good_step rt (Echo env nl args) ok st st'"
proof -
  have i: "oinv st" using assms(1) by (simp add: rinv_def send_inv_def)
  have fine: "list_all clean args" "echo_size rt nl args \<noteq> None" "length (text_of (echo_text rt nl args)) < 2 ^ 64" using assms(2) by simp_all
  obtain r st' where e: "echo rt env nl args st = Some (r, st')" "echo_post rt nl args st r st'"
    using echo_ok [OF i fine(1,2) text_small [OF fine(3)], of env] by blast
  have "rinv st'" by (rule rinv_kept [OF assms(1)]) (use e(2) in \<open>simp_all add: echo_post_def reqs_kept_def\<close>)
  moreover have "sock_step (r = LRet [one]) [] u st st'" for u by (rule sock_step_reqs) (use e(2) in \<open>simp_all add: echo_post_def\<close>)
  moreover have "client_step (r = LRet [one]) (text_of (echo_text rt nl args)) st st'"
    using e(2) by (auto simp: echo_post_def client_step_def text_of_def)
  ultimately show ?thesis using e(1) by (simp add: good_step_def)
qed

lemma same_step:
  assumes "rinv st" "oinv st'" "upstream_busy_bufs st' = upstream_busy_bufs st" "writing_raw_req_socket st' = writing_raw_req_socket st" "reqs_kept st st'"
    "wire st' @ unsent st' = wire st @ unsent st" "client_text rt op = []" "\<And>u. sock_text rt u op = []"
  shows "good_step rt op ok st st'"
proof -
  have "rinv st'" by (rule rinv_kept [OF assms(1-4)]) (use assms(5) in \<open>simp add: reqs_kept_def\<close>)
  then show ?thesis using assms(6-8) sock_step_reqs [OF assms(5)] by (simp add: good_step_def client_step_def)
qed

lemma rinv_oinv: "rinv st \<Longrightarrow> oinv st"
  by (simp add: rinv_def send_inv_def)

lemma oinv_flags [simp]: "oinv (st\<lparr>seen_eof := x\<rparr>) = oinv st" "oinv (st\<lparr>flushing := y, flushing_coros := z\<rparr>) = oinv st" "oinv (st\<lparr>c_timedout := x\<rparr>) = oinv st"
  by (simp_all add: oinv_def bufs_ok_def lists_ok_def reqs_ok_def chain_ok_def)

lemma flag_step:
  assumes "rinv st" "st' = st \<or> (\<exists>x. st' = st\<lparr>seen_eof := x\<rparr>) \<or> (\<exists>x. st' = st\<lparr>c_timedout := x\<rparr>) \<or> (\<exists>x y. st' = st\<lparr>flushing := x, flushing_coros := y\<rparr>)"
    "client_text rt op = []" "\<And>u. sock_text rt u op = []"
  shows "good_step rt op ok st st'"
  using assms(2) by (intro same_step [OF assms(1)]) (use rinv_oinv [OF assms(1)] assms(3,4) in \<open>auto simp: reqs_kept_def\<close>)

lemma eof_step:
  assumes "rinv st"
  shows "\<exists>ok st'. ostep rt (Eof env n) st = Some (ok, st') \<and> good_step rt (Eof env n) ok st st'"
proof -
  obtain r st' where e: "ngx_eof env n st = (r, st')" by (cases "ngx_eof env n st")
  then have "st' = st \<or> (\<exists>x. st' = st\<lparr>seen_eof := x\<rparr>)" by (auto simp: ngx_eof_def split: if_splits)
  then show ?thesis using flag_step [OF assms, of st' rt "Eof env n" True] e by auto
qed

lemma flush_step:
  assumes "rinv st" "o_session env"
  shows "\<exists>ok st'. ostep rt (Flush env n c) st = Some (ok, st') \<and> good_step rt (Flush env n c) ok st st'"
proof -
  have "\<exists>r st'. ngx_flush env n c st = Some (r, st') \<and> (st' = st \<or> (\<exists>x y. st' = st\<lparr>flushing := x, flushing_coros := y\<rparr>))"
    using assms(2) by (cases c) (auto simp: ngx_flush_def Let_def)
  then obtain r st' where e: "ngx_flush env n c st = Some (r, st')" "st' = st \<or> (\<exists>x y. st' = st\<lparr>flushing := x, flushing_coros := y\<rparr>)" by blast
  show ?thesis using flag_step [OF assms(1), of st' rt "Flush env n c" True] e by auto
qed

lemma send_chain_link_step:
  assumes "rinv st" "send_chain_link env [] st = (rc, st')"
  shows "oinv st'" "upstream_busy_bufs st' = upstream_busy_bufs st" "writing_raw_req_socket st' = writing_raw_req_socket st" "reqs_kept st st'"
    "wire st' @ unsent st' = wire st @ unsent st"
proof -
  note i = rinv_oinv [OF assms(1)]
  note c = send_chain_link_ok [OF oinv_entering [OF i] oinv_subseq [OF i] _ assms(2)]
  show "oinv st'" "upstream_busy_bufs st' = upstream_busy_bufs st" "writing_raw_req_socket st' = writing_raw_req_socket st"
    "wire st' @ unsent st' = wire st @ unsent st" using c by (simp_all add: linked_def)
  show "reqs_kept st st'"
  proof (rule reqs_keptI)
    fix u w d assume h: "wsocks st u = Some w" "w_req w = Some d"
    have "d \<notin> set (downstream_busy_bufs st) \<union> set []" using enteringD(5) [OF oinv_entering [OF i] h] by simp
    then show "obufs st' d = obufs st d" using send_chain_link_other [of st "[]" d env] i assms(2) by simp
  qed (use c in simp_all)
qed

lemma client_event_step:
  assumes "rinv st"
  shows "\<exists>ok st'. ostep rt (ClientEvent env ev) st = Some (ok, st') \<and> good_step rt (ClientEvent env ev) ok st st'"
proof -
  have raw: "\<not> writing_raw_req_socket st" using assms by (simp add: rinv_def)
  obtain rc s where f: "send_chain_link env [] st = (rc, s)" by (cases "send_chain_link env [] st")
  have "\<exists>r st'. wev_handler env ev st = Some (r, st') \<and> (st' = st \<or> st' = st\<lparr>c_timedout := True\<rparr> \<or> st' = s)"
    using raw f by (auto simp: wev_handler_def Let_def flush_pending_output_def)
  then obtain r st' where e: "wev_handler env ev st = Some (r, st')" "st' = st \<or> st' = st\<lparr>c_timedout := True\<rparr> \<or> st' = s" by blast
  have "good_step rt (ClientEvent env ev) True st st'"
  proof (cases "st' = s")
    case True
    then show ?thesis using same_step [OF assms send_chain_link_step [OF assms f]] by simp
  next
    case False
    then show ?thesis by (intro flag_step [OF assms]) (use e(2) in auto)
  qed
  then show ?thesis using e(1) by auto
qed


text \<open>Sending: the text is in the buffer of the request before anything is handed to the kernel.\<close>

lemma take_and_write_reqs:
  assumes "oinv st" "get_free_buf mem (unat (len64 t)) st = (Some b, st1)" "length t < 2 ^ 64" "write_buf b t st1 = Some st2"
  shows "entering [b] st2" "subseq (out_chain st2) (downstream_busy_bufs st2)" "remaining st2 b = t" "reqs_kept st st2" "wire st2 @ unsent st2 = wire st @ unsent st"
    "upstream_busy_bufs st2 = upstream_busy_bufs st" "writing_raw_req_socket st2 = writing_raw_req_socket st"
proof -
  have w: "entering [b] st2" "unsent st2 = unsent st" "remaining st2 b = t" "only_bufs st st2" "\<forall>d. d \<noteq> b \<longrightarrow> obufs st2 d = obufs st d"
    using take_and_write [OF assms(1-3)] assms(4) by auto
  note o = only_bufsD [OF w(4)]
  show "entering [b] st2" "remaining st2 b = t" by (fact w)+
  show "subseq (out_chain st2) (downstream_busy_bufs st2)" "wire st2 @ unsent st2 = wire st @ unsent st" "upstream_busy_bufs st2 = upstream_busy_bufs st"
    "writing_raw_req_socket st2 = writing_raw_req_socket st" using oinv_subseq [OF assms(1)] o w(2) by simp_all
  show "reqs_kept st st2"
  proof (rule reqs_keptI)
    fix u x d assume h: "wsocks st u = Some x" "w_req x = Some d"
    have "d \<noteq> b" using req_not_entering(1) [OF w(1), of u x d] h o by simp
    then show "obufs st2 d = obufs st d" using w(5) by simp
  qed (use o in simp_all)
qed

lemma error_not_number: "taken (SRet (LRet (prepare_error_retvals e ft))) = False"
  by (simp add: taken_def prepare_error_retvals_def)

lemma not_number: "prepare_error_retvals e ft \<noteq> [LNumber n]"
  by (simp add: prepare_error_retvals_def)

text \<open>A state after the sender ran for a socket.\<close>

lemma rinv_socks:
  assumes "rinv st" "others_kept u st st'" "send_inv st'" "\<not> writing_raw_req_socket st'" "wsocks st' u = Some w'" "wsock_ok w'"
  shows "rinv st'"
proof -
  have "wsock_ok x" if "wsocks st' v = Some x" for v x
  proof (cases "v = u")
    case False
    then have "wsocks st v = Some x" using that assms(2) by (simp add: others_kept_def)
    then show ?thesis using assms(1) by (simp add: rinv_def)
  qed (use that assms(5,6) in simp)
  then show ?thesis using assms(3,4) by (simp add: rinv_def)
qed

lemma good_send:
  assumes "rinv st" "others_kept u st st'" "send_inv st'" "\<not> writing_raw_req_socket st'" "wsocks st' u = Some w'" "wsock_ok w'" "wire st' @ unsent st' = wire st @ unsent st"
    "client_text rt op = []" "\<And>v. v \<noteq> u \<Longrightarrow> sock_text rt v op = []" "sock_step ok (sock_text rt u op) u st st'"
  shows "good_step rt op ok st st'"
proof -
  have "sock_step ok (sock_text rt v op) v st st'" for v
    using sock_step_others [OF assms(2), of v ok] assms(9) [of v] assms(10) by (cases "v = u") simp_all
  then show ?thesis using rinv_socks [OF assms(1-6)] assms(7,8) by (simp add: good_step_def client_step_def)
qed


text \<open>An error closes the socket for writing.\<close>

lemma write_error_retval_eq:
  assumes "\<not> w_raw w" "\<not> w_closed w"
  shows "write_error_retval env u w st = (LRet (prepare_error_retvals (w_errno w) (w_ft w)), set_wsock u (w\<lparr>w_closed := True, w_ft := 0\<rparr>) st)"
  using assms by (simp add: write_error_retval_def finalize_write_part_def)

lemma sinv_put_sock: "send_inv st \<Longrightarrow> wsocks st u = Some w \<Longrightarrow> w_req w' = w_req w \<or> w_req w' = None \<Longrightarrow> send_inv (set_wsock u w' st)"
  using oinv_put_sock [of st u w w'] by (simp add: send_inv_def set_wsock_def)

lemma set_wsock_sel [simp]: "wire (set_wsock u w st) = wire st" "swire (set_wsock u w st) = swire st" "wsocks (set_wsock u w st) = (wsocks st)(u \<mapsto> w)"
  "writing_raw_req_socket (set_wsock u w st) = writing_raw_req_socket st" "remaining (set_wsock u w st) = remaining st" "upstream_busy_bufs (set_wsock u w st) = upstream_busy_bufs st"
  "set_wsock u w (set_wsock u w' st) = set_wsock u w st"
  by (simp_all add: set_wsock_def)

text \<open>The step for a socket, from the result of the sender: \<open>r\<close> is the state it leaves, \<open>t\<close> the text it was to send.\<close>

lemma sock_step_sent:
  assumes "wsocks st u = Some w" "\<not> w_closed w" "wsocks st' u = Some w'" "swire st' u @ sock_pending st' u @ l = swire st u @ sock_pending st u @ t" "l = [] \<or> w_closed w'"
  shows "sock_step ok t u st st'"
  using assms by (auto simp: sock_step_def wclosed_def)

lemma send_written_step:
  assumes "rinv st" "wsocks st u = Some w" "\<not> w_closed w" "\<not> w_waiting w" "oinv st" "o_ctx env"
    "entering [b] st2" "subseq (out_chain st2) (downstream_busy_bufs st2)" "remaining st2 b = t" "reqs_kept st st2" "wire st2 @ unsent st2 = wire st @ unsent st"
    "upstream_busy_bufs st2 = upstream_busy_bufs st" "writing_raw_req_socket st2 = writing_raw_req_socket st"
    "client_text rt op = []" "\<And>v. v \<noteq> u \<Longrightarrow> sock_text rt v op = []" "sock_text rt u op = t"
  shows "\<exists>r st'. send_written env nodelay u (w\<lparr>w_req := Some b, w_len := n\<rparr>) st2 = Some (r, st') \<and> good_step rt op (taken r) st st' \<and>
    (taken r \<longrightarrow> r = SYield \<or> r = SRet (LRet [LNumber (num_of_int (uint n))]) \<and> swire st' u = swire st u @ t)"
proof -
  let ?w = "w\<lparr>w_req := Some b, w_len := n\<rparr>"
  have ok: "\<not> w_raw w" "w_ft w = 0" "\<not> w_handler w" "\<not> writing_raw_req_socket st" "upstream_busy_bufs st = []" using assms(1-4) by (auto simp: rinv_def wsock_ok_def send_inv_def)
  have kept: "others_kept u st st2" "swire st2 = swire st" by (rule reqs_kept_others [OF assms(10)]) (use assms(10) in \<open>simp add: reqs_kept_def\<close>)
  have pend: "sock_pending st u = []" using assms(2) ok(3) by (simp add: sock_pending_def)
  have req: "send_inv (set_wsock u x st2)" if "w_req x = Some b" for x
    using start_request [OF assms(7,8) that] assms(12) ok(5) by (simp add: send_inv_def)
  show ?thesis
  proof (cases nodelay)
    case False
    let ?st' = "set_wsock u ?w st2"
    have "good_step rt op False st ?st'"
    proof (rule good_send [OF assms(1), where w' = ?w])
      show "sock_step False (sock_text rt u op) u st ?st'"
        using assms(2,3) ok(3) kept(2) pend by (auto simp: sock_step_def wclosed_def sock_pending_def)
    qed (use req kept(1) assms(11,13-15) ok in \<open>simp_all add: wsock_ok_def assms(4)\<close>)
    then show ?thesis using False by (simp add: send_written_def taken_def)
  next
    case True
    let ?x = "?w\<lparr>w_waiting := False\<rparr>" and ?s = "set_wsock u (?w\<lparr>w_waiting := False\<rparr>) st2"
    obtain rc wk w' s k where p: "socket_send env u ?s = Some (rc, wk, s)" "send_post u ?x b ?s rc wk w' s k"
      using socket_send_ok [of ?s u ?x b env] req assms(6) by auto
    have c: "send_inv s" "unsent s = unsent st2" "others_kept u st s" "wire s = wire st2" "\<not> writing_raw_req_socket s" "wsocks s u = Some w'" "\<not> w_raw w'" "w_len w' = n"
      "\<not> w_closed w'" "swire s u @ k = swire st u @ t"
    proof -
      show "send_inv s" "unsent s = unsent st2" "wire s = wire st2" "wsocks s u = Some w'" "\<not> w_raw w'" "w_len w' = n" "\<not> w_closed w'"
        using p(2) ok(1) assms(3) by (simp_all add: send_post_def)
      have "others_kept u st ?s" using kept(1) by simp
      moreover have "others_kept u ?s s" using p(2) unfolding send_post_def by (elim conjE)
      ultimately show "others_kept u st s" by (rule others_kept_trans)
      show "\<not> writing_raw_req_socket s" using p(2) ok(1,4) assms(13) by (simp add: send_post_def)
      show "swire s u @ k = swire st u @ t" using p(2) ok(1) kept(2) assms(9) by (simp add: send_post_def sock_wire_def)
    qed
    have wires: "wire s @ unsent s = wire st @ unsent st" using c(2,4) assms(11) by simp
    consider (sent) "rc = NGX_OK" "k = []" "w_req w' = None" "w_ft w' = 0" "\<not> w_waiting w'" "\<not> w_handler w'"
      | (again) "rc = NGX_AGAIN" "w' = ?x\<lparr>w_handler := True\<rparr>" "remaining s b = k"
      | (err) "rc = NGX_ERROR" "\<not> w_waiting w'" "\<not> w_handler w'" using p(2) ok(2) by (auto simp: send_post_def)
    then show ?thesis
    proof cases
      case sent
      have "good_step rt op True st s"
      proof (rule good_send [OF assms(1) c(3,1,5,6)])
        show "sock_step True (sock_text rt u op) u st s" unfolding assms(16)
          by (rule sock_step_sent [OF assms(2,3) c(6), where l = "[]"]) (use c(6,10) sent pend in \<open>simp_all add: sock_pending_def\<close>)
      qed (use sent c(7) wires assms(14,15) in \<open>simp_all add: wsock_ok_def\<close>)
      then show ?thesis using True p(1) sent(1,2) c(6,8,10) by (simp add: send_written_def taken_def)
    next
      case again
      let ?st' = "set_wsock u (w'\<lparr>w_waiting := True\<rparr>) s"
      have "good_step rt op True st ?st'"
      proof (rule good_send [OF assms(1), where w' = "w'\<lparr>w_waiting := True\<rparr>"])
        show "sock_step True (sock_text rt u op) u st ?st'" unfolding assms(16)
          by (rule sock_step_sent [OF assms(2,3), where l = "[]" and w' = "w'\<lparr>w_waiting := True\<rparr>"]) (use c(10) again pend in \<open>simp_all add: sock_pending_def\<close>)
        show "send_inv ?st'" by (rule sinv_put_sock [OF c(1,6)]) simp
      qed (use c wires again(2) assms(14,15) ok(2) in \<open>simp_all add: wsock_ok_def assms(3)\<close>)
      then show ?thesis using True p(1) again(1) c(6,7) by (simp add: send_written_def taken_def)
    next
      case err
      let ?st' = "set_wsock u (w'\<lparr>w_closed := True, w_ft := 0\<rparr>) s"
      have "good_step rt op False st ?st'"
      proof (rule good_send [OF assms(1), where w' = "w'\<lparr>w_closed := True, w_ft := 0\<rparr>"])
        show "sock_step False (sock_text rt u op) u st ?st'" unfolding assms(16)
          by (rule sock_step_sent [OF assms(2,3), where l = k and w' = "w'\<lparr>w_closed := True, w_ft := 0\<rparr>"]) (use c(10) err pend in \<open>simp_all add: sock_pending_def\<close>)
        show "send_inv ?st'" by (rule sinv_put_sock [OF c(1,6)]) simp
      qed (use c wires err assms(14,15) in \<open>simp_all add: wsock_ok_def\<close>)
      then show ?thesis using True p(1) err(1) c(6,7,9) error_not_number by (simp add: send_written_def write_error_retval_eq)
    qed
  qed
qed


lemma tcp_send_step:
  assumes "rinv st" "op_fine rt st (Send env same nodelay n u v)"
  shows "\<exists>ok st'. ostep rt (Send env same nodelay n u v) st = Some (ok, st') \<and> good_step rt (Send env same nodelay n u v) ok st st'"
proof -
  let ?op = "Send env same nodelay n u v"
  have i: "oinv st" by (rule rinv_oinv [OF assms(1)])
  have fine: "o_ctx env" "send_size rt v \<noteq> None" "length (text_of (send_text rt v)) < 2 ^ 64" using assms(2) by simp_all
  have stay: ?thesis if "tcp_send rt env same nodelay n u v st = Some (r, st)" "taken r \<Longrightarrow> text_of (send_text rt v) = []" for r
  proof -
    have "good_step rt ?op (taken r) st st"
      using assms(1) that(2) sock_step_reqs [OF reqs_kept_refl, of "taken r"] by (simp add: good_step_def client_step_def)
    then show ?thesis using that(1) by auto
  qed
  have no: "\<not> taken (SRet (LErr e))" "\<not> taken (SRet (LRet [LNil, x]))" for e x by (simp_all add: taken_def)
  show ?thesis
  proof (cases "wsocks st u")
    case None
    then have "\<exists>r. tcp_send rt env same nodelay n u v st = Some (r, st) \<and> \<not> taken r"
      using no by (cases "n = 2"; cases "o_session env") (simp_all add: tcp_send_def)
    then obtain r where "tcp_send rt env same nodelay n u v st = Some (r, st)" "\<not> taken r" by blast
    then show ?thesis using stay by blast
  next
    case (Some w)
    consider (early) r where "tcp_send rt env same nodelay n u v st = Some (r, st)" "\<not> taken r"
      | (go) len where "n = 2" "o_session env" "w_conn w" "\<not> w_closed w" "same" "\<not> w_conn_waiting w" "\<not> w_waiting w" "\<not> (w_raw w \<and> o_buffered env)" "send_size rt v = Some (Inr len)"
    proof -
      obtain z where z: "send_size rt v = Some z" using fine(2) by blast
      show thesis
      proof (cases "n = 2 \<and> o_session env \<and> w_conn w \<and> \<not> w_closed w \<and> same \<and> \<not> w_conn_waiting w \<and> \<not> w_waiting w \<and> \<not> (w_raw w \<and> o_buffered env) \<and> \<not> isl z")
        case True
        then show thesis using go z by (cases z) auto
      next
        case False
        have "\<exists>r. tcp_send rt env same nodelay n u v st = Some (r, st) \<and> \<not> taken r"
          using False z Some no by (cases z) (auto simp: tcp_send_def)
        then show thesis using early by blast
      qed
    qed
    then show ?thesis
    proof cases
      case early
      then show ?thesis using stay by blast
    next
      case (go len)
      obtain t where t: "send_text rt v = Some (Inr t)" "len64 t = len" using send_text_size [OF go(9)] by blast
      have small: "length t < 2 ^ 64" by (rule text_small [OF fine(3) t(1)])
      have len: "unat len = length t" using small t(2) by (auto simp: len64_def unat_word_of_nat)
      obtain r1 st1 where g: "get_free_buf (o_mem env) (unat len) st = (r1, st1)" by (cases "get_free_buf (o_mem env) (unat len) st")
      consider "len = 0" | "len \<noteq> 0" "r1 = None" | b where "len \<noteq> 0" "r1 = Some b" by blast
      then show ?thesis
      proof cases
        case 1
        then have "t = []" using len by simp
        moreover have "tcp_send rt env same nodelay n u v st = Some (SRet (LRet [LNumber (num_of_int 0)]), st)" using 1 go Some by (auto simp: tcp_send_def)
        ultimately show ?thesis using stay t(1) by (simp add: text_of_def)
      next
        case 2
        note k = get_free_buf_ok [OF i g]
        have "good_step rt ?op False st st1"
        proof -
          have "rinv st1" by (rule rinv_kept [OF assms(1)]) (use k(3) 2(2) only_bufsD [OF k(1)] in simp_all)
          then show ?thesis using sock_step_reqs [OF get_free_buf_reqs [OF i g], of False] only_bufsD [OF k(1)] k(2) by (simp add: good_step_def client_step_def)
        qed
        moreover have "tcp_send rt env same nodelay n u v st = Some (SRet (LErr ''no memory''), st1)" using 2 go g Some fine(1) by (auto simp: tcp_send_def)
        ultimately show ?thesis using no(1) by auto
      next
        case (3 b)
        have g': "get_free_buf (o_mem env) (unat (len64 t)) st = (Some b, st1)" using g 3(2) t(2) by simp
        obtain st2 where w: "write_buf b t st1 = Some st2" using take_and_write [OF i g' small] by blast
        have "\<exists>r st'. send_written env nodelay u (w\<lparr>w_req := Some b, w_len := len\<rparr>) st2 = Some (r, st') \<and> good_step rt ?op (taken r) st st' \<and>
            (taken r \<longrightarrow> r = SYield \<or> r = SRet (LRet [LNumber (num_of_int (uint len))]) \<and> swire st' u = swire st u @ t)"
          by (rule send_written_step [OF assms(1) Some go(4,7) i fine(1) take_and_write_reqs [OF i g' small w]]) (simp_all add: t(1) text_of_def)
        then show ?thesis using 3 go g Some fine(1) t(1) w by (auto simp: tcp_send_def)
      qed
    qed
  qed
qed


lemma sock_event_step:
  assumes "rinv st" "op_fine rt st (SockEvent env tout u)"
  shows "\<exists>r st'. write_event env tout u st = Some (r, st') \<and> good_step rt (SockEvent env tout u) True st st' \<and>
    (\<forall>n. r = Some (LRet [LNumber n]) \<longrightarrow> sock_pending st' u = [] \<and> swire st' u = swire st u @ sock_pending st u)"
proof -
  let ?op = "SockEvent env tout u"
  obtain w where w: "wsocks st u = Some w" using assms(2) by auto
  have ctx: "o_ctx env" using assms(2) by simp
  have ok: "wsock_ok w" "send_inv st" "\<not> writing_raw_req_socket st" using assms(1) w by (simp_all add: rinv_def)
  have same: "good_step rt ?op True st st" using assms(1) sock_step_reqs [OF reqs_kept_refl] by (simp add: good_step_def client_step_def)
  show ?thesis
  proof (cases "w_handler w")
    case False
    then have "write_event env tout u st = Some (None, st)" using w by (simp add: write_event_def)
    then show ?thesis using same by simp
  next
    case True
    obtain b where b: "w_req w = Some b" using ok(1) True by (auto simp: wsock_ok_def)
    have d: "\<not> w_raw w" "w_ft w = 0" "w_waiting w" "\<not> w_closed w" using ok(1) True by (simp_all add: wsock_ok_def)
    have pend: "sock_pending st u = remaining st b" using w True b by (simp add: sock_pending_def)
    have closing: "good_step rt ?op True st (set_wsock u (x\<lparr>w_closed := True, w_ft := 0\<rparr>) s)"
      if h: "send_inv s" "wsocks s u = Some x" "\<not> w_raw x" "\<not> w_waiting x" "\<not> w_handler x" "others_kept u st s" "wire s @ unsent s = wire st @ unsent st"
        "\<not> writing_raw_req_socket s" "\<exists>k. swire s u @ k = swire st u @ remaining st b" for x s
    proof (rule good_send [OF assms(1), where w' = "x\<lparr>w_closed := True, w_ft := 0\<rparr>"])
      obtain k where k: "swire s u @ k = swire st u @ remaining st b" using h(9) by blast
      show "sock_step True (sock_text rt u ?op) u st (set_wsock u (x\<lparr>w_closed := True, w_ft := 0\<rparr>) s)"
        by (simp, rule sock_step_sent [OF w d(4), where l = k and w' = "x\<lparr>w_closed := True, w_ft := 0\<rparr>"]) (use k pend h(5) in \<open>simp_all add: sock_pending_def\<close>)
      show "send_inv (set_wsock u (x\<lparr>w_closed := True, w_ft := 0\<rparr>) s)" by (rule sinv_put_sock [OF h(1,2)]) simp
    qed (use h in \<open>simp_all add: wsock_ok_def\<close>)
    show ?thesis
    proof (cases tout)
      case True
      define x where "x = w\<lparr>w_ft := FT_TIMEOUT, w_handler := False, w_waiting := False\<rparr>"
      let ?s = "set_wsock u x st"
      have "send_inv ?s" by (rule sinv_put_sock [OF ok(2) w]) (simp add: x_def)
      then have "good_step rt ?op True st (set_wsock u (x\<lparr>w_closed := True, w_ft := 0\<rparr>) ?s)" by (rule closing) (use d ok(3) in \<open>simp_all add: x_def\<close>)
      moreover have "write_event env tout u st = Some (Some (LRet (prepare_error_retvals (w_errno x) (w_ft x))), set_wsock u (x\<lparr>w_closed := True, w_ft := 0\<rparr>) ?s)"
      proof -
        have h: "handle_write_error env FT_TIMEOUT w = Some (True, x)" using ctx d by (simp add: handle_write_error_def x_def)
        have "w_ft x \<noteq> 0" "\<not> w_raw x" "\<not> w_closed x" using d by (simp_all add: x_def FT_TIMEOUT_def)
        then have r: "send_retval env u ?s = Some (LRet (prepare_error_retvals (w_errno x) (w_ft x)), set_wsock u (x\<lparr>w_closed := True, w_ft := 0\<rparr>) ?s)"
          by (simp add: send_retval_def write_error_retval_eq)
        show ?thesis using w \<open>w_handler w\<close> True h r by (simp add: write_event_def send_handler_def resume_send_def del: set_wsock_sel)
      qed
      ultimately show ?thesis using not_number [of "w_errno x" "w_ft x"] by simp
    next
      case False
      obtain rc wk w' s k where p: "socket_send env u st = Some (rc, wk, s)" "send_post u w b st rc wk w' s k"
        using socket_send_ok [OF ok(2) w b ctx] by blast
      have c: "send_inv s" "unsent s = unsent st" "others_kept u st s" "wire s = wire st" "\<not> writing_raw_req_socket s" "wsocks s u = Some w'" "\<not> w_raw w'" "w_len w' = w_len w"
        "\<not> w_closed w'" "swire s u @ k = swire st u @ remaining st b"
        using p(2) d(1,4) ok(3) by (simp_all add: send_post_def sock_wire_def)
      have ev: "write_event env tout u st = resume_send env u wk s" using w \<open>w_handler w\<close> False b p(1) by (simp add: write_event_def send_handler_def)
      have nz: "w_ft w' AND FT_ERROR \<noteq> 0 \<Longrightarrow> w_ft w' \<noteq> 0" by auto
      have q: "rc = NGX_OK \<and> k = [] \<and> wk \<and> w_req w' = None \<and> w_ft w' = 0 \<and> \<not> w_waiting w' \<and> \<not> w_handler w' \<or>
          rc = NGX_AGAIN \<and> \<not> wk \<and> w' = w\<lparr>w_handler := True\<rparr> \<and> remaining s b = k \<or>
          rc = NGX_ERROR \<and> wk \<and> \<not> w_waiting w' \<and> \<not> w_handler w' \<and> w_ft w' \<noteq> 0"
        using p(2) d(2,3) nz unfolding send_post_def by (elim conjE disjE) simp_all
      consider (sent) "rc = NGX_OK" "k = []" "wk" "w_req w' = None" "w_ft w' = 0" "\<not> w_waiting w'" "\<not> w_handler w'"
        | (again) "rc = NGX_AGAIN" "\<not> wk" "w' = w\<lparr>w_handler := True\<rparr>" "remaining s b = k"
        | (err) "rc = NGX_ERROR" "wk" "\<not> w_waiting w'" "\<not> w_handler w'" "w_ft w' \<noteq> 0"
        using q by (elim disjE conjE) simp_all
      then show ?thesis
      proof cases
        case sent
        have pe: "sock_pending s u = []" using c(6) sent(7) by (simp add: sock_pending_def)
        have "good_step rt ?op True st s"
        proof (rule good_send [OF assms(1) c(3,1,5,6)])
          show "sock_step True (sock_text rt u ?op) u st s"
            by (simp, rule sock_step_sent [OF w d(4) c(6), where l = "[]"]) (use c(10) sent(2) pend pe in simp_all)
        qed (use sent c in \<open>simp_all add: wsock_ok_def\<close>)
        then show ?thesis using ev sent c(6,10) pe pend by (auto simp: resume_send_def send_retval_def)
      next
        case again
        have "sock_pending s u = k" using c(6) again b by (simp add: sock_pending_def)
        then have "good_step rt ?op True st s"
          using c again d ok(1) b pend
          by (intro good_send [OF assms(1) c(3,1,5,6)]) (auto simp: wsock_ok_def intro!: sock_step_sent [OF w d(4) c(6), where l = "[]"])
        then show ?thesis using ev again by (auto simp: resume_send_def)
      next
        case err
        have "good_step rt ?op True st (set_wsock u (w'\<lparr>w_closed := True, w_ft := 0\<rparr>) s)" by (rule closing) (use c err in auto)
        moreover have "write_event env tout u st = Some (Some (LRet (prepare_error_retvals (w_errno w') (w_ft w'))), set_wsock u (w'\<lparr>w_closed := True, w_ft := 0\<rparr>) s)"
          using ev err c(6,7,9) by (simp add: resume_send_def send_retval_def write_error_retval_eq)
        ultimately show ?thesis using not_number [of "w_errno w'" "w_ft w'"] by simp
      qed
    qed
  qed
qed


subsection \<open>The run\<close>

lemma ostep_good:
  assumes "rinv st" "op_fine rt st op"
  shows "\<exists>ok st'. ostep rt op st = Some (ok, st') \<and> good_step rt op ok st st'"
proof (cases op)
  case (SockEvent env tout u)
  then show ?thesis using sock_event_step [OF assms(1), of rt env tout u] assms(2) by auto
qed (use assms echo_step eof_step flush_step tcp_send_step client_event_step in auto)

text \<open>The texts of the calls that were not refused.\<close>

definition accepted :: "bool list \<Rightarrow> bytes list \<Rightarrow> bytes list" where
  "accepted oks ts = map snd (filter fst (zip oks ts))"

lemma accepted_Cons [simp]: "accepted (ok # oks) (t # ts) = (if ok then t # accepted oks ts else accepted oks ts)"
  by (simp add: accepted_def)

lemma accepted_Nil [simp]: "accepted [] ts = []"
  by (simp add: accepted_def)

text \<open>A stream that has become \<open>b\<close> from \<open>a\<close>: it got texts in the order of the calls, all that were accepted and no others.\<close>

definition stream_of :: "bool list \<Rightarrow> bytes list \<Rightarrow> bytes \<Rightarrow> bytes \<Rightarrow> bool" where
  "stream_of oks ts a b \<longleftrightarrow> (\<exists>us. b = a @ concat us \<and> subseq us ts \<and> subseq (accepted oks ts) us)"

lemma stream_of_Nil: "stream_of [] [] a a"
  unfolding stream_of_def by (rule exI [of _ "[]"]) simp

lemma stream_of_Cons:
  assumes "stream_of oks ts (a @ s) b" "s = t \<or> s = [] \<and> (ok \<longrightarrow> t = [])"
  shows "stream_of (ok # oks) (t # ts) a b"
proof -
  obtain us where us: "b = (a @ s) @ concat us" "subseq us ts" "subseq (accepted oks ts) us" using assms(1) unfolding stream_of_def by blast
  show ?thesis
  proof (cases "s = t")
    case True
    have "b = a @ concat (t # us)" "subseq (t # us) (t # ts)" "subseq (accepted (ok # oks) (t # ts)) (t # us)"
      using us True by auto
    then show ?thesis unfolding stream_of_def by blast
  next
    case False
    then have "s = []" "\<not> ok" using assms(2) by auto
    then have "b = a @ concat us" "subseq us (t # ts)" "subseq (accepted (ok # oks) (t # ts)) us" using us by auto
    then show ?thesis unfolding stream_of_def by blast
  qed
qed

lemma orun_Cons:
  assumes "rinv st" "list_all (op_fine rt st) (op # ops)"
  shows "\<exists>ok st1. ostep rt op st = Some (ok, st1) \<and> good_step rt op ok st st1 \<and> rinv st1 \<and> list_all (op_fine rt st1) ops"
proof -
  obtain ok st1 where e: "ostep rt op st = Some (ok, st1)" "good_step rt op ok st st1" using ostep_good [OF assms(1), of rt op] assms(2) by auto
  have dom: "(wsocks st1 u = None) = (wsocks st u = None)" for u using e(2) by (auto simp: good_step_def sock_step_def)
  have "op_fine rt st1 = op_fine rt st"
  proof
    show "op_fine rt st1 x = op_fine rt st x" for x using dom by (cases x) auto
  qed
  then show ?thesis using e assms(2) by (simp add: good_step_def)
qed

lemma orun_client:
  assumes "rinv st" "list_all (op_fine rt st) ops"
  shows "\<exists>oks st'. orun rt ops st = Some (oks, st') \<and> rinv st' \<and> stream_of oks (map (client_text rt) ops) (wire st @ unsent st) (wire st' @ unsent st')"
  using assms
proof (induction ops arbitrary: st)
  case (Cons op ops)
  obtain ok st1 where e: "ostep rt op st = Some (ok, st1)" "good_step rt op ok st st1" "rinv st1" "list_all (op_fine rt st1) ops"
    using orun_Cons [OF Cons.prems] by blast
  obtain oks st' where i: "orun rt ops st1 = Some (oks, st')" "rinv st'" "stream_of oks (map (client_text rt) ops) (wire st1 @ unsent st1) (wire st' @ unsent st')"
    using Cons.IH [OF e(3,4)] by blast
  obtain s where s: "wire st1 @ unsent st1 = (wire st @ unsent st) @ s" "s = client_text rt op \<or> s = [] \<and> (ok \<longrightarrow> client_text rt op = [])"
    using e(2) unfolding good_step_def client_step_def by auto
  show ?case using e(1) i(1,2) stream_of_Cons [OF i(3) [unfolded s(1)] s(2)] by simp
qed (simp add: stream_of_Nil)

lemma sock_step_closed: "rinv st \<Longrightarrow> rinv st' \<Longrightarrow> sock_step ok t u st st' \<Longrightarrow> wclosed st u \<Longrightarrow> wclosed st' u \<and> swire st' u = swire st u \<and> (ok \<longrightarrow> t = [])"
  by (simp add: sock_step_def)

lemma orun_socket:
  assumes "rinv st" "list_all (op_fine rt st) ops"
  shows "\<exists>oks st' l. orun rt ops st = Some (oks, st') \<and> rinv st' \<and> (wclosed st u \<longrightarrow> wclosed st' u \<and> swire st' u = swire st u) \<and> (l = [] \<or> wclosed st' u) \<and>
    stream_of oks (map (sock_text rt u) ops) (swire st u @ sock_pending st u) (swire st' u @ sock_pending st' u @ l)"
  using assms
proof (induction ops arbitrary: st)
  case Nil
  then show ?case by (intro exI [of _ "[]"] exI [of _ st]) (simp add: stream_of_Nil)
next
  case (Cons op ops)
  obtain ok st1 where e: "ostep rt op st = Some (ok, st1)" "good_step rt op ok st st1" "rinv st1" "list_all (op_fine rt st1) ops"
    using orun_Cons [OF Cons.prems] by blast
  obtain oks st' l where i: "orun rt ops st1 = Some (oks, st')" "rinv st'" "wclosed st1 u \<longrightarrow> wclosed st' u \<and> swire st' u = swire st1 u" "l = [] \<or> wclosed st' u"
    "stream_of oks (map (sock_text rt u) ops) (swire st1 u @ sock_pending st1 u) (swire st' u @ sock_pending st' u @ l)"
    using Cons.IH [OF e(3,4)] by blast
  let ?t = "sock_text rt u op"
  have st: "sock_step ok ?t u st st1" using e(2) by (simp add: good_step_def)
  have run: "orun rt (op # ops) st = Some (ok # oks, st')" using e(1) i(1) by simp
  show ?case
  proof (cases "wclosed st u")
    case True
    then have c: "wclosed st1 u" "swire st1 u = swire st u" "ok \<longrightarrow> ?t = []" using sock_step_closed [OF Cons.prems(1) e(3) st] by simp_all
    have p: "sock_pending st u = []" "sock_pending st1 u = []" using pending_closed Cons.prems(1) e(3) True c(1) by simp_all
    have "stream_of (ok # oks) (?t # map (sock_text rt u) ops) (swire st u @ sock_pending st u) (swire st' u @ sock_pending st' u @ l)"
      by (rule stream_of_Cons [where s = "[]"]) (use i(5) p c in simp_all)
    then show ?thesis using run i(2-4) c by auto
  next
    case False
    then obtain s l1 where s: "swire st1 u @ sock_pending st1 u @ l1 = swire st u @ sock_pending st u @ s" "l1 = [] \<or> wclosed st1 u" "s = ?t \<or> s = [] \<and> (ok \<longrightarrow> ?t = [])"
      using st by (auto simp: sock_step_def)
    obtain us where us: "swire st' u @ sock_pending st' u @ l = (swire st1 u @ sock_pending st1 u) @ concat us" "subseq us (map (sock_text rt u) ops)"
      "subseq (accepted oks (map (sock_text rt u) ops)) us" using i(5) unfolding stream_of_def by blast
    have "\<exists>l'. swire st' u @ sock_pending st' u @ l' = (swire st u @ sock_pending st u @ s) @ concat us \<and> (l' = [] \<or> wclosed st' u)"
    proof (cases "wclosed st1 u")
      case True
      then have "swire st' u = swire st1 u" "wclosed st' u" "sock_pending st' u = []" "sock_pending st1 u = []" using i(3) pending_closed i(2) e(3) by simp_all
      then show ?thesis using s(1) by (intro exI [of _ "l1 @ concat us"]) simp
    next
      case False
      then have "l1 = []" using s(2) by simp
      then show ?thesis using us(1) s(1) i(4) by (intro exI [of _ l]) simp
    qed
    then obtain l' where l': "swire st' u @ sock_pending st' u @ l' = (swire st u @ sock_pending st u @ s) @ concat us" "l' = [] \<or> wclosed st' u" by blast
    have "stream_of oks (map (sock_text rt u) ops) ((swire st u @ sock_pending st u) @ s) (swire st' u @ sock_pending st' u @ l')"
      unfolding stream_of_def using l'(1) us(2,3) by auto
    from stream_of_Cons [OF this s(3)] show ?thesis using run i(2) l'(2) False by auto
  qed
qed

end
