(* ===== verification/Output_Spec.thy ===== *)
theory Output_Spec
  imports Output_Run
begin

section \<open>What the output guarantees\<close>

text \<open>
  The properties of printing and sending: nothing is written outside a buffer, no buffer has two owners, the client and each socket get the texts in the
  order of the calls, \<open>flush\<close> reports success only when all is out, and a waiting \<open>send\<close> ends when the kernel takes bytes; and the two ways
  in which the code falls short of this: light userdata, and the raw request socket beside \<open>print\<close>.
\<close>

subsection \<open>A state to start from\<close>

definition plain_sock :: wsock where
  "plain_sock = raw_sock\<lparr>w_raw := False\<rparr>"

definition start :: ostate where
  "start = \<lparr>obufs = (\<lambda>_. \<lparr>odata = [], opos = 0, ocap = 0\<rparr>), next_buf = 0, o_free_bufs = [], downstream_busy_bufs = [], upstream_busy_bufs = [],
     out_chain = [], wsocks = [7 \<mapsto> plain_sock], wire = [], swire = (\<lambda>_. []), c_error = False, c_timedout = False, write_error = False, seen_eof = False,
     acquired_raw_req_socket = False, downstream = None, writing_raw_req_socket = False, flushing = (\<lambda>_. False), flushing_coros = 0\<rparr>"

definition quiet :: oenv where
  "quiet = \<lparr>o_session = True, o_ctx = True, o_content = True, o_mem = (\<lambda>_. True), o_chain = Sent 0, o_send = [], o_errno = None, o_buffered = False,
     o_delayed = False, o_event = True\<rparr>"

lemma start_oinv: "oinv start"
  by (simp add: start_def plain_sock_def raw_sock_def oinv_def bufs_ok_def lists_ok_def reqs_ok_def chain_ok_def)

lemma start_rinv: "rinv start"
  using start_oinv by (simp add: rinv_def send_inv_def) (simp add: start_def plain_sock_def raw_sock_def wsock_ok_def)

subsection \<open>Runs\<close>

text \<open>C10: every run of calls of print, say, eof, flush and send and of write events that keeps to the rules of \<open>op_fine\<close> is carried out, without a write outside a buffer and without
  a null pointer, and keeps the invariant: each buffer is free, on the busy chain, or the request of one socket, and only there. The rules: no light userdata but \<open>ngx.null\<close> is
  printed (see \<open>userdata_overflows\<close>), the sizes of tables can be computed and a text is shorter than $2^{64}$ bytes, \<open>flush\<close> is called in a session (see \<open>flush_without_session\<close>), and sends and
  socket events find their context and the socket. The raw request socket is not used.\<close>

theorem output_state_ok:
  assumes "rinv st" "list_all (op_fine rt st) ops"
  shows "\<exists>oks st'. orun rt ops st = Some (oks, st') \<and> rinv st'"
  using orun_client [OF assms] by blast

theorem output_state_ok_witness:
  "\<exists>oks st'. orun demo_rt [Echo quiet True [VStr ''a''], Send quiet True True 2 7 (VStr ''bc'')] start = Some (oks, st') \<and> rinv st'"
  by (rule output_state_ok [OF start_rinv]) (simp add: quiet_def echo_size_def arg_size_def echo_text_def arg_text_def send_size_def send_text_def text_of_def newline_text_def)

text \<open>C9: what the kernel has taken for the client, followed by what is still to be sent, is what was there before followed by the texts of the calls of print and
  say in their order: the texts of all calls that succeeded, none of a call that was not made.\<close>

theorem output_in_order:
  assumes "rinv st" "list_all (op_fine rt st) ops"
  shows "\<exists>oks st'. orun rt ops st = Some (oks, st') \<and> stream_of oks (map (client_text rt) ops) (wire st @ unsent st) (wire st' @ unsent st')"
  using orun_client [OF assms] by blast

theorem output_in_order_witness:
  "\<exists>oks st'. orun demo_rt [Echo quiet True [VStr ''a''], Echo quiet False [VStr ''b'', VNull]] start = Some (oks, st') \<and>
     stream_of oks [''a'' @ [CHR 0x0A], ''bnull''] [] (wire st' @ unsent st')"
  using output_in_order [OF start_rinv, of demo_rt "[Echo quiet True [VStr ''a''], Echo quiet False [VStr ''b'', VNull]]"]
  by (simp add: quiet_def echo_size_def arg_size_def echo_text_def arg_text_def text_of_def newline_text_def) (simp add: start_def unsent_def)

text \<open>C11: on each socket, what the kernel has taken, followed by what waits in its request, is what was there before followed by the texts of the calls of send
  in their order, those that were not refused all among them; bytes are lost only when the socket has been closed for writing.\<close>

theorem sent_in_order:
  assumes "rinv st" "list_all (op_fine rt st) ops"
  shows "\<exists>oks st' l. orun rt ops st = Some (oks, st') \<and> (l = [] \<or> wclosed st' u) \<and>
    stream_of oks (map (sock_text rt u) ops) (swire st u @ sock_pending st u) (swire st' u @ sock_pending st' u @ l)"
  using orun_socket [OF assms, of u] by blast

theorem sent_in_order_witness:
  "\<exists>oks st' l. orun demo_rt [Send quiet True True 2 7 (VStr ''bc''), Echo quiet False [VStr ''x'']] start = Some (oks, st') \<and> (l = [] \<or> wclosed st' 7) \<and>
     stream_of oks [''bc'', []] [] (swire st' 7 @ sock_pending st' 7 @ l)"
  using sent_in_order [OF start_rinv, of demo_rt "[Send quiet True True 2 7 (VStr ''bc''), Echo quiet False [VStr ''x'']]" 7]
  by (simp add: quiet_def echo_size_def arg_size_def echo_text_def arg_text_def send_size_def send_text_def text_of_def newline_text_def)
    (simp add: start_def sock_pending_def plain_sock_def raw_sock_def)


subsection \<open>Sizes\<close>

text \<open>C35: the two passes over the arguments of print and say agree: when the first gives a size and no light userdata but \<open>ngx.null\<close> is among the
  arguments and their elements, the second succeeds and writes exactly that many bytes (modulo the size of a word).\<close>

theorem echo_fits:
  assumes "echo_size rt newline args = Some (Inr n)" "list_all clean args"
  shows "\<exists>t. echo_text rt newline args = Some (Inr t) \<and> word_of_nat (length t) = n"
  using echo_text_size [OF assms] by (simp add: len64_def)

lemmas elem_evals = elem_size.simps elem_text.simps elems_def rawgeti_def upto.simps INT_MAX_def to_int_def bad_type_def bool_text_def len64_def
  calc_strlen_in_table_def copy_str_in_table_def

lemmas echo_evals = echo_size_def echo_text_def arg_size_def arg_text_def newline_text_def elem_evals

theorem echo_fits_witness:
  "echo_size demo_rt True [VStr ''ab'', VTable [(KNum 2, VNull), (KNum 1, VTable [(KNum 1, VBool True)])]] = Some (Inr 11) \<and>
   (\<exists>t. echo_text demo_rt True [VStr ''ab'', VTable [(KNum 2, VNull), (KNum 1, VTable [(KNum 1, VBool True)])]] = Some (Inr t) \<and> word_of_nat (length t) = (11 :: 64 word))"
proof -
  have n: "echo_size demo_rt True [VStr ''ab'', VTable [(KNum 2, VNull), (KNum 1, VTable [(KNum 1, VBool True)])]] = Some (Inr 11)"
    by (simp add: echo_evals)
  from echo_fits [OF this] show ?thesis using n by simp
qed

text \<open>A light userdata that is not \<open>ngx.null\<close> gets no space in the first pass and four bytes in the second, so that printing it after a text
  writes past the end of a buffer that was allocated for the call.\<close>

theorem userdata_overflows:
  assumes "o_session env" "o_ctx env" "o_content env" "o_mem env 0" "o_mem env 1" "\<not> seen_eof st" "o_free_bufs st = []" "s \<noteq> []" "length s < 2 ^ 64"
  shows "echo rt env False [VStr s, VUdata] st = None"
proof -
  have len: "unat (len64 s) = length s" using assms(9) by (simp add: len64_def unat_word_of_nat)
  have "echo_size rt False [VStr s, VUdata] = Some (Inr (len64 s))" by (simp add: echo_size_def arg_size_def)
  moreover have "len64 s \<noteq> 0" using len assms(8) by auto
  moreover have "echo_text rt False [VStr s, VUdata] = Some (Inr (s @ ''null''))" by (simp add: echo_text_def arg_text_def newline_text_def)
  ultimately show ?thesis using assms(1-7) len by (simp add: echo_def get_free_buf_def put_buf_def write_buf_def Let_def)
qed

subsection \<open>flush\<close>

lemma wev_useless_not_flush [simp]: "wev_useless ev st \<noteq> WFlush" "WFlush \<noteq> wev_useless ev st"
  by (simp_all add: wev_useless_def)

lemma wev_flush_cases:
  assumes "wev_handler env ev st = Some (WFlush, st')" "send_chain_link env [] st = (rc, s)"
  shows "downstream_busy_bufs st = [] \<and> st' = st \<or> st' = st\<lparr>c_timedout := True\<rparr> \<or> st' = s \<and> (rc = NGX_ERROR \<or> rc = NGX_OK)"
proof -
  consider (tout) "timedout ev \<and> \<not> writing_raw_req_socket st \<and> \<not> delayed ev" | (raw) "writing_raw_req_socket st"
    | (plain) "\<not> writing_raw_req_socket st" "\<not> (timedout ev \<and> \<not> delayed ev)" by blast
  then show ?thesis
  proof cases
    case tout
    then show ?thesis using assms(1) by (simp add: wev_handler_def Let_def split: if_splits)
  next
    case raw
    then show ?thesis using assms(1) by (simp add: wev_handler_def Let_def split: if_splits option.splits prod.splits)
  next
    case plain
    show ?thesis
    proof (cases "downstream_busy_bufs st = []")
      case True
      then show ?thesis using plain assms(1) by (simp add: wev_handler_def Let_def split: if_splits)
    next
      case False
      then have "flush_pending_output env st = (rc, s)" using assms(2) by (simp add: flush_pending_output_def)
      then show ?thesis using plain False assms(1) by (simp add: wev_handler_def Let_def split: if_splits)
    qed
  qed
qed

text \<open>C12: flush reports success only when nothing is left to send: it returns 1 at once only then, and when a write event resumes the waiting coroutines
  with 1, all has been handed to the kernel.\<close>

theorem flush_means_sent:
  assumes "oinv st"
    "ngx_flush env n c st = Some (FlushRet (LRet [one]), st') \<or> wev_handler env ev st = Some (WFlush, st') \<and> flush_retvals st' = [one]"
  shows "unsent st' = []"
proof -
  have idle: "unsent st = []" if "downstream_busy_bufs st = []" using oinv_subseq [OF assms(1)] that by (cases "out_chain st") (auto simp: unsent_def)
  from assms(2) show ?thesis
  proof
    assume "ngx_flush env n c st = Some (FlushRet (LRet [one]), st')"
    then have "downstream_busy_bufs st = []" "st' = st"
      by (cases c; auto simp: ngx_flush_def Let_def api_disabled_def split: if_splits)+
    then show ?thesis using idle by simp
  next
    assume a: "wev_handler env ev st = Some (WFlush, st') \<and> flush_retvals st' = [one]"
    then have ok: "\<not> c_timedout st'" "\<not> c_error st'" by (auto simp: flush_retvals_def split: if_splits)
    obtain rc s where f: "send_chain_link env [] st = (rc, s)" by (cases "send_chain_link env [] st")
    note c = send_chain_link_ok [OF oinv_entering [OF assms(1)] oinv_subseq [OF assms(1)] _ f]
    have err: "rc = NGX_ERROR \<Longrightarrow> c_error s" using f send_chain_link_error [of env "[]" st] by simp
    from a f have "downstream_busy_bufs st = [] \<and> st' = st \<or> st' = st\<lparr>c_timedout := True\<rparr> \<or> st' = s \<and> (rc = NGX_ERROR \<or> rc = NGX_OK)"
      by (blast dest: wev_flush_cases)
    then consider "downstream_busy_bufs st = []" "st' = st" | "st' = st\<lparr>c_timedout := True\<rparr>" | "st' = s" "rc = NGX_ERROR \<or> rc = NGX_OK" by blast
    then show ?thesis
    proof cases
      case 3
      then have "rc = NGX_OK" using err ok(2) by auto
      then show ?thesis using c(4) 3(1) by simp
    qed (use idle ok in auto)
  qed
qed


text \<open>A state with two bytes to send and a coroutine that waits in \<open>flush\<close>.\<close>

definition flushing_state :: ostate where
  "flushing_state = start\<lparr>obufs := (obufs start)(0 := \<lparr>odata = ''hi'', opos = 0, ocap = 2\<rparr>), next_buf := 1, downstream_busy_bufs := [0], out_chain := [0],
     flushing := (\<lambda>_. False)(4 := True), flushing_coros := 1\<rparr>"

definition flushed_state :: ostate where
  "flushed_state = flushing_state\<lparr>obufs := (obufs start)(0 := \<lparr>odata = [], opos = 0, ocap = 2\<rparr>), o_free_bufs := [0], downstream_busy_bufs := [], out_chain := [], wire := ''hi''\<rparr>"

definition ready_event :: wevent where
  "ready_event = \<lparr>timedout = False, ready = True, delayed = False, session_done = False, entered = True\<rparr>"

lemma flushing_oinv: "oinv flushing_state"
  by (auto simp: flushing_state_def start_def plain_sock_def raw_sock_def oinv_def bufs_ok_def lists_ok_def reqs_ok_def chain_ok_def bufsize_def)

theorem flush_means_sent_witness:
  "ngx_flush quiet 0 (Some 1) start = Some (FlushRet (LRet [one]), start) \<and> unsent flushing_state = ''hi'' \<and>
   wev_handler (quiet\<lparr>o_chain := Sent 2\<rparr>) ready_event flushing_state = Some (WFlush, flushed_state) \<and> flush_retvals flushed_state = [one] \<and>
   unsent start = [] \<and> unsent flushed_state = []"
proof -
  have f: "ngx_flush quiet 0 (Some 1) start = Some (FlushRet (LRet [one]), start)" by (simp add: ngx_flush_def quiet_def start_def)
  have e: "wev_handler (quiet\<lparr>o_chain := Sent 2\<rparr>) ready_event flushing_state = Some (WFlush, flushed_state) \<and> flush_retvals flushed_state = [one]"
    by (simp add: wev_handler_def ready_event_def flushing_state_def flushed_state_def start_def quiet_def flush_pending_output_def send_chain_link_def chain_writer_def update_downstream_def
      bufsize_def remaining_def put_buf_def flush_coros_def flush_retvals_def advance_def)
  have "unsent flushing_state = ''hi''" by (simp add: flushing_state_def unsent_def remaining_def)
  then show ?thesis using f e flush_means_sent [OF start_oinv disjI1 [OF f]] flush_means_sent [OF flushing_oinv disjI2 [OF e]] by blast
qed

text \<open>A flush that cannot wait for the write event reports that the connection is broken, but its coroutine stays marked as flushing, so that the next write event resumes
  it although it does not wait.\<close>

lemma broken_flush_stays_marked:
  assumes "o_session env" "o_ctx env" "o_content env" "\<not> seen_eof st" "downstream_busy_bufs st \<noteq> []" "\<not> o_event env" "n \<le> 1"
  shows "\<exists>st'. ngx_flush env n (Some c) st = Some (FlushRet (LRet [LNil, LString ''connection broken'']), st') \<and> flushing st' c \<and>
    flushing_coros st' = flushing_coros st + 1"
  using assms by (simp add: ngx_flush_def Let_def)

text \<open>Without a session \<open>flush\<close> uses a null pointer.\<close>

lemma flush_without_session: "\<not> o_session env \<Longrightarrow> n \<le> 1 \<Longrightarrow> ngx_flush env n c st = None"
  by (simp add: ngx_flush_def)

subsection \<open>Progress of send\<close>

text \<open>Write events of one socket until the waiting call returns.\<close>

fun write_events :: "oenv list \<Rightarrow> nat \<Rightarrow> ostate \<Rightarrow> (lua_result option \<times> ostate) option" where
  "write_events [] u st = Some (None, st)"
| "write_events (env # envs) u st =
     (case write_event env False u st of
        None \<Rightarrow> None
      | Some (Some r, st) \<Rightarrow> Some (Some r, st)
      | Some (None, st) \<Rightarrow> write_events envs u st)"

text \<open>The kernel takes at least one byte and reports no error.\<close>

definition takes_bytes :: "oenv \<Rightarrow> bool" where
  "takes_bytes env \<longleftrightarrow> o_ctx env \<and> o_event env \<and> SErr \<notin> set (o_send env) \<and> (case o_send env of SOk n # io \<Rightarrow> n > 0 | _ \<Rightarrow> False)"

lemma send_loop_no_error: "SErr \<notin> set io \<Longrightarrow> fst (send_loop u w b io st) \<noteq> NGX_ERROR"
  by (induction u w b io st rule: send_loop.induct) (auto simp: Let_def)

lemma send_loop_rc: "fst (send_loop u w b io st) \<in> {NGX_OK, NGX_AGAIN, NGX_ERROR}"
  by (induction u w b io st rule: send_loop.induct) (auto simp: Let_def)

lemma send_loop_shrinks: "bufsize (snd (send_loop u w b io st)) b \<le> bufsize st b"
proof (induction u w b io st rule: send_loop.induct)
  case (4 u w b n io st)
  define m where "m = min n (bufsize st b)"
  define s where "s = advance b m (put_wire u w (take m (remaining st b)) st)"
  have "bufsize s b \<le> bufsize st b" by (simp add: s_def put_wire_def obuf_defs)
  then show ?case using "4.IH" [of m "take m (remaining st b)" s] by (auto simp: s_def m_def Let_def)
qed simp_all

lemma send_loop_progress:
  assumes "n > 0" "bufsize st b > 0"
  shows "bufsize (snd (send_loop u w b (SOk n # io) st)) b < bufsize st b"
proof -
  define m where "m = min n (bufsize st b)"
  define s where "s = advance b m (put_wire u w (take m (remaining st b)) st)"
  have "m > 0" using assms by (simp add: m_def)
  then have "bufsize s b < bufsize st b" using assms(2) by (simp add: s_def put_wire_def obuf_defs)
  moreover have "bufsize (snd (send_loop u w b (SOk n # io) st)) b \<le> bufsize s b"
    using send_loop_shrinks [of u w b io s] by (auto simp: s_def m_def Let_def)
  ultimately show ?thesis by simp
qed


lemma send_loop_again: "0 < bufsize st b \<Longrightarrow> fst (send_loop u w b io st) = NGX_AGAIN \<Longrightarrow> 0 < bufsize (snd (send_loop u w b io st)) b"
proof (induction u w b io st rule: send_loop.induct)
  case (4 u w b n io st)
  define m where "m = min n (bufsize st b)"
  define s where "s = advance b m (put_wire u w (take m (remaining st b)) st)"
  have e: "send_loop u w b (SOk n # io) st = (if bufsize s b = 0 then (NGX_OK, s) else send_loop u w b io s)" by (simp add: s_def m_def Let_def)
  have ne: "bufsize s b \<noteq> 0" using "4.prems"(2) unfolding e by (auto split: if_splits)
  have "0 < bufsize (snd (send_loop u w b io s)) b"
    by (rule "4.IH" [of m "take m (remaining st b)" s]) (use "4.prems"(2) ne in \<open>simp_all add: s_def m_def Let_def\<close>)
  then show ?case unfolding e using ne by simp
qed simp_all

lemma send_loop_all: "n \<ge> bufsize st b \<Longrightarrow> fst (send_loop u w b (SOk n # io) st) = NGX_OK"
proof -
  assume z: "n \<ge> bufsize st b"
  have "bufsize (advance b m (put_wire u w t st)) b = bufsize st b - m" for m t by (simp add: put_wire_def obuf_defs)
  then show ?thesis using z by (simp add: Let_def)
qed

lemma socket_send_progress:
  assumes "wsocks st u = Some w" "w_req w = Some b" "takes_bytes env" "socket_send env u st = Some (rc, wk, st')"
  shows "rc = NGX_OK \<or> rc = NGX_AGAIN \<and> 0 < bufsize st' b \<and> bufsize st' b < bufsize st b"
proof -
  obtain n io where io: "o_send env = SOk n # io" "n > 0" "SErr \<notin> set io" using assms(3) by (auto simp: takes_bytes_def split: list.splits send_item.splits)
  have env: "o_ctx env" "o_event env" using assms(3) by (simp_all add: takes_bytes_def)
  obtain rc1 s where l: "send_loop u w b (SOk n # io) st = (rc1, s)" by (cases "send_loop u w b (SOk n # io) st")
  have ne: "rc1 \<noteq> NGX_ERROR" using send_loop_no_error [of "SOk n # io" u w b st] io(3) l by simp
  show ?thesis
  proof (cases "rc1 = NGX_OK")
    case True
    then show ?thesis using assms env io l by (auto simp: socket_send_def handle_write_success_def Let_def)
  next
    case False
    have pos: "bufsize st b > 0" using l False send_loop_all [of st b n u w io] by (cases "bufsize st b = 0") simp_all
    then have "bufsize s b < bufsize st b" using send_loop_progress [OF io(2), of st b u w io] l by simp
    moreover have "rc1 = NGX_AGAIN" using send_loop_rc [of u w b "SOk n # io" st] l ne False by simp
    then have "0 < bufsize s b" using send_loop_again [OF pos, of u w "SOk n # io"] l by simp
    moreover have "rc = NGX_AGAIN \<and> bufsize st' b = bufsize s b"
      using assms(1,2,4) env io(1) l ne False by (cases "w_raw w") (auto simp: socket_send_def Let_def set_wsock_def)
    ultimately show ?thesis by simp
  qed
qed

lemma event_progress:
  assumes "rinv st" "wsocks st u = Some w" "w_handler w" "takes_bytes env"
  shows "(\<exists>st'. write_event env False u st = Some (Some (LRet [LNumber (num_of_int (uint (w_len w)))]), st') \<and> swire st' u = swire st u @ sock_pending st u) \<or>
    (\<exists>st'. write_event env False u st = Some (None, st') \<and> rinv st' \<and> wsocks st' u = Some w \<and> swire st' u @ sock_pending st' u = swire st u @ sock_pending st u \<and>
       0 < length (sock_pending st' u) \<and> length (sock_pending st' u) < length (sock_pending st u))"
proof -
  have ctx: "o_ctx env" using assms(4) by (simp add: takes_bytes_def)
  have ok: "wsock_ok w" "send_inv st" "\<not> writing_raw_req_socket st" using assms(1,2) by (simp_all add: rinv_def)
  obtain b where b: "w_req w = Some b" using ok(1) assms(3) by (auto simp: wsock_ok_def)
  have d: "\<not> w_raw w" "w_ft w = 0" "w_waiting w" using ok(1) assms(3) by (simp_all add: wsock_ok_def)
  have pend: "sock_pending st u = remaining st b" using assms(2,3) b by (simp add: sock_pending_def)
  obtain rc wk w' s k where p: "socket_send env u st = Some (rc, wk, s)" "send_post u w b st rc wk w' s k" using socket_send_ok [OF ok(2) assms(2) b ctx] by blast
  have ev: "write_event env False u st = resume_send env u wk s" using assms(2,3) b p(1) by (simp add: write_event_def send_handler_def)
  have c: "send_inv s" "others_kept u st s" "\<not> writing_raw_req_socket s" "wsocks s u = Some w'" "w_len w' = w_len w" "swire s u @ k = swire st u @ remaining st b"
    using p(2) d(1) ok(3) by (simp_all add: send_post_def sock_wire_def)
  from socket_send_progress [OF assms(2) b assms(4) p(1)] show ?thesis
  proof
    assume "rc = NGX_OK"
    then have "k = []" "wk" "w_ft w' = 0" using p(2) d(2,3) by (simp_all add: send_post_def)
    then show ?thesis using ev c(4-6) pend by (simp add: resume_send_def send_retval_def)
  next
    assume a: "rc = NGX_AGAIN \<and> 0 < bufsize s b \<and> bufsize s b < bufsize st b"
    then have e: "\<not> wk" "w' = w\<lparr>w_handler := True\<rparr>" "remaining s b = k" using p(2) by (simp_all add: send_post_def)
    have len: "length k = bufsize s b" using e(3) length_remaining [of s b] by simp
    have w': "w' = w" unfolding e(2) using assms(3) by (cases w) simp
    have "sock_pending s u = remaining s b" using c(4) assms(3) b w' by (simp add: sock_pending_def)
    moreover have "rinv s" by (rule rinv_socks [OF assms(1) c(2,1,3,4)]) (use ok(1) w' in simp)
    ultimately show ?thesis using ev e(1,3) a c(4,6) pend w' len by (auto simp: resume_send_def)
  qed
qed

text \<open>C13: a coroutine that waits in send is resumed after at most as many write events as there are bytes left, when each time the kernel takes a
  byte or more; it gets the length of the text, and all of the text has gone out.\<close>

theorem send_completes:
  assumes "rinv st" "wsocks st u = Some w" "w_handler w" "list_all takes_bytes envs" "length (sock_pending st u) \<le> length envs" "envs \<noteq> []"
  shows "\<exists>st'. write_events envs u st = Some (Some (LRet [LNumber (num_of_int (uint (w_len w)))]), st') \<and> swire st' u = swire st u @ sock_pending st u"
  using assms
proof (induction envs arbitrary: st)
  case (Cons env envs)
  have "takes_bytes env" using Cons.prems(4) by simp
  from event_progress [OF Cons.prems(1-3) this] show ?case
  proof (elim disjE exE conjE)
    fix s assume s: "write_event env False u st = Some (None, s)" "rinv s" "wsocks s u = Some w" "swire s u @ sock_pending s u = swire st u @ sock_pending st u"
      "0 < length (sock_pending s u)" "length (sock_pending s u) < length (sock_pending st u)"
    then have "1 < length (sock_pending st u)" by linarith
    then have "envs \<noteq> []" using Cons.prems(5) by auto
    then show ?thesis using Cons.IH [OF s(2,3) Cons.prems(3)] Cons.prems(4,5) s by simp
  qed simp
qed simp


text \<open>A socket with three bytes to send.\<close>

definition sending :: ostate where
  "sending = put_buf 0 \<lparr>odata = ''abc'', opos = 0, ocap = 3\<rparr>
     (set_wsock 7 (plain_sock\<lparr>w_req := Some 0, w_len := 3, w_handler := True, w_waiting := True\<rparr>) (start\<lparr>next_buf := 1\<rparr>))"

lemma sending_rinv: "rinv sending"
  by (simp add: sending_def start_def put_buf_def set_wsock_def plain_sock_def raw_sock_def rinv_def send_inv_def oinv_def bufs_ok_def lists_ok_def reqs_ok_def chain_ok_def
      wsock_ok_def bufsize_def)

theorem send_completes_witness:
  "\<exists>st'. write_events [quiet\<lparr>o_send := [SOk 2]\<rparr>, quiet\<lparr>o_send := [SOk 1]\<rparr>, quiet\<lparr>o_send := [SOk 9]\<rparr>] 7 sending = Some (Some (LRet [LNumber (num_of_int 3)]), st') \<and>
     swire st' 7 = ''abc''"
proof -
  let ?w = "plain_sock\<lparr>w_req := Some 0, w_len := 3, w_handler := True, w_waiting := True\<rparr>"
  let ?es = "[quiet\<lparr>o_send := [SOk 2]\<rparr>, quiet\<lparr>o_send := [SOk 1]\<rparr>, quiet\<lparr>o_send := [SOk 9]\<rparr>]"
  have w: "wsocks sending 7 = Some ?w" by (simp add: sending_def put_buf_def set_wsock_def)
  have p: "sock_pending sending 7 = ''abc''" "swire sending 7 = []"
    by (simp_all add: sending_def start_def put_buf_def set_wsock_def sock_pending_def remaining_def)
  have "\<exists>st'. write_events ?es 7 sending = Some (Some (LRet [LNumber (num_of_int (uint (w_len ?w)))]), st') \<and> swire st' 7 = swire sending 7 @ sock_pending sending 7"
    by (rule send_completes [OF sending_rinv w]) (simp_all add: p takes_bytes_def quiet_def)
  then show ?thesis by (simp add: p)
qed

subsection \<open>The raw request socket\<close>

text \<open>The raw request socket does not wait for what was printed: when printed bytes are still to be sent, a send on it that the kernel takes puts its
  text on the connection before them.\<close>

theorem raw_send_overtakes:
  assumes "send_inv st" "wsocks st u = Some w" "w_raw w" "w_conn w" "\<not> w_closed w" "\<not> w_conn_waiting w" "\<not> w_waiting w" "o_session env" "o_ctx env" "\<not> o_buffered env"
    "o_event env" "o_mem env 0" "o_mem env 1" "t \<noteq> []" "length t < 2 ^ 64" "o_send env = SOk (length t) # io"
  shows "\<exists>st'. tcp_send rt env True True 2 u (VStr t) st = Some (SRet (LRet [LNumber (num_of_int (int (length t)))]), st') \<and> wire st' = wire st @ t \<and> unsent st' = unsent st"
proof -
  have i: "oinv st" using assms(1) by (simp add: send_inv_def)
  have len: "unat (len64 t) = length t" using assms(15) by (simp add: len64_def unat_word_of_nat)
  have nz: "len64 t \<noteq> 0" using len assms(14) by auto
  obtain r1 st1 where g: "get_free_buf (o_mem env) (unat (len64 t)) st = (r1, st1)" by (cases "get_free_buf (o_mem env) (unat (len64 t)) st")
  have "r1 \<noteq> None" using g assms(12,13) by (auto simp: get_free_buf_def Let_def split: list.splits if_splits)
  then obtain b where b: "r1 = Some b" by blast
  have g': "get_free_buf (o_mem env) (unat (len64 t)) st = (Some b, st1)" using g b by simp
  obtain st2 where w2: "write_buf b t st1 = Some st2" "only_bufs st st2" "unsent st2 = unsent st" using take_and_write [OF i g' assms(15)] by blast
  note q = take_and_write_reqs [OF i g' assms(15) w2(1)]
  let ?x = "w\<lparr>w_req := Some b, w_len := len64 t, w_waiting := False\<rparr>"
  let ?s = "set_wsock u ?x st2"
  have s: "send_inv ?s" using start_request [OF q(1,2), of ?x u] q(6) assms(1) by (simp add: send_inv_def)
  obtain rc wk w' st' k where p: "socket_send env u ?s = Some (rc, wk, st')" "send_post u ?x b ?s rc wk w' st' k"
    using socket_send_ok [OF s, of u ?x b env] assms(9) by auto
  have "rc = NGX_OK"
  proof -
    have z: "bufsize ?s b = length t" using q(3) length_remaining [of ?s b] by simp
    obtain s' where "send_loop u ?x b (SOk (length t) # io) ?s = (NGX_OK, s')"
      using send_loop_all [of ?s b "length t" u ?x io] z by (cases "send_loop u ?x b (SOk (length t) # io) ?s") simp
    then show ?thesis using p(1) assms(3,9,11,16) by (auto simp: socket_send_def handle_write_success_def Let_def)
  qed
  moreover from this have "k = []" using p(2) by (simp add: send_post_def)
  ultimately have f: "wire st' = wire st2 @ t" "unsent st' = unsent st2" "wsocks st' u = Some w'" "w_len w' = len64 t"
    using p(2) assms(3) q(3) by (simp_all add: send_post_def sock_wire_def)
  have v: "uint (len64 t) = int (length t)" using len by (metis uint_nat)
  have "tcp_send rt env True True 2 u (VStr t) st = Some (SRet (LRet [LNumber (num_of_int (int (length t)))]), st')"
    using assms(2-10) nz g' w2(1) p(1) \<open>rc = NGX_OK\<close> f(3,4) v by (simp add: tcp_send_def send_size_def send_text_def send_written_def)
  then show ?thesis using f(1,2) only_bufsD(5) [OF w2(2)] w2(3) by simp
qed


text \<open>The first of two printed bytes has gone out, and there is a raw socket.\<close>

definition half_printed :: ostate where
  "half_printed = put_buf 0 \<lparr>odata = ''ab'', opos = 1, ocap = 2\<rparr>
     (set_wsock 8 raw_sock (start\<lparr>next_buf := 1, downstream_busy_bufs := [0], out_chain := [0], wire := ''a''\<rparr>))"

lemma half_printed_sinv: "send_inv half_printed"
  by (simp add: half_printed_def start_def put_buf_def set_wsock_def plain_sock_def raw_sock_def send_inv_def oinv_def bufs_ok_def lists_ok_def reqs_ok_def chain_ok_def bufsize_def)

end
