(* ===== verification/Timer.thy ===== *)
theory Timer
  imports Rbtree
begin

section \<open>Timers (ngx\_stream\_lua\_timer.c)\<close>

text \<open>
  \<open>ngx.timer.at\<close> anchors a coroutine, makes a pool and puts an event into nginx's tree of timers; when the event expires, its handler
  makes a fake session for the coroutine and runs it. When the worker exits, all pending timers are called at once. The tree is the one of theory
  \<open>Rbtree\<close> with the numbers of the events as nodes. The coroutine reference and the pool of a timer are named by the
  number of its event, and so is its session later. \<open>None\<close> is the use of freed memory.
\<close>

subsection \<open>State\<close>

record tevent =
  te_lua :: bool
  te_key :: "64 word"
  te_premature :: bool
  te_vm :: "nat option"

record tsession =
  ts_premature :: bool
  ts_vm :: "nat option"
  ts_left :: bool

text \<open>\<open>ts_left\<close> tells that the threads of the session have ended and that it was left open.\<close>

text \<open>
  The counters and limits of the main configuration, the tree and the events, the sessions of the running timers, the anchored coroutines, the pools, the
  reference counts of the Lua machines of sessions, the machines that a client session holds, and the process. What can be seen from outside is
  recorded in \<open>called\<close>: the calls of the Lua functions, each with the timer, the argument \<open>premature\<close> and the time that was left until the timer was due; \<open>aborted\<close> is the number of timers
  that were aborted, by an error or by an \<open>ngx.exit\<close> that closes the session.
\<close>

record tstate =
  max_pending_timers :: int
  pending_timers :: int
  max_running_timers :: int
  running_timers :: int
  watcher :: bool
  timer_tree :: "nat rbt"
  tevents :: "nat \<Rightarrow> tevent option"
  next_event :: nat
  tsessions :: "nat \<Rightarrow> tsession option"
  co_refs :: "nat \<Rightarrow> bool"
  tpools :: "nat \<Rightarrow> bool"
  vms :: "nat \<Rightarrow> nat option"
  vm_holders :: "nat \<Rightarrow> bool"
  exiting :: bool
  current_msec :: "64 word"
  called :: "(nat \<times> bool \<times> int) list"
  aborted :: nat

text \<open>What a call of \<open>timer.at\<close> finds: a session, the machine of its context, a connection for the watcher, the allocations.\<close>

record tenv =
  t_session :: bool
  t_vm :: "nat option"
  t_watcher :: bool
  t_mem :: "nat \<Rightarrow> bool"
  t_addr :: bool

text \<open>What the handler finds: a connection, and the allocations of its log, the session, the context, and the two cleanups.\<close>

record henv =
  h_conn :: bool
  h_log :: bool
  h_session :: bool
  h_ctx :: bool
  h_pcln :: bool
  h_cln :: bool

subsection \<open>The timer tree of nginx\<close>

definition event_key :: "tstate \<Rightarrow> nat \<Rightarrow> 64 word" where
  "event_key st e = (case tevents st e of None \<Rightarrow> 0 | Some ev \<Rightarrow> te_key ev)"

text \<open>The descent for a timer compares the keys as signed differences.\<close>

definition timer_goes_left :: "tstate \<Rightarrow> 64 word \<Rightarrow> nat \<Rightarrow> bool" where
  "timer_goes_left st key y \<longleftrightarrow> sint (key - event_key st y) < 0"

text \<open>\<open>ngx_add_timer\<close> of an event that is not set.\<close>

definition add_timer :: "nat \<Rightarrow> tevent \<Rightarrow> 64 word \<Rightarrow> tstate \<Rightarrow> tstate option" where
  "add_timer e ev delay st =
     (let key = current_msec st + delay
      in case rbtree_insert (timer_goes_left st key) e (timer_tree st) of
           None \<Rightarrow> None
         | Some t \<Rightarrow> Some (st\<lparr>timer_tree := t, tevents := (tevents st)(e \<mapsto> ev\<lparr>te_key := key\<rparr>)\<rparr>))"

definition del_timer :: "nat \<Rightarrow> tstate \<Rightarrow> tstate option" where
  "del_timer e st = map_option (\<lambda>t. st\<lparr>timer_tree := t\<rparr>) (rbtree_delete e (timer_tree st))"

subsection \<open>Lua machines and pools\<close>

definition cleanup_vm :: "nat option \<Rightarrow> tstate \<Rightarrow> tstate option" where
  "cleanup_vm v st =
     (case v of
        None \<Rightarrow> Some st
      | Some v \<Rightarrow>
          (case vms st v of
             None \<Rightarrow> None
           | Some n \<Rightarrow> Some (st\<lparr>vms := (vms st)(v := (if n = 1 then None else Some (n - 1)))\<rparr>)))"

text \<open>A coroutine is used: its machine is there.\<close>

definition use_vm :: "nat option \<Rightarrow> tstate \<Rightarrow> tstate option" where
  "use_vm v st = (case v of None \<Rightarrow> Some st | Some v \<Rightarrow> (if vms st v = None then None else Some st))"

definition unref :: "nat \<Rightarrow> nat option \<Rightarrow> tstate \<Rightarrow> tstate option" where
  "unref i v st = map_option (\<lambda>st. st\<lparr>co_refs := (co_refs st)(i := False)\<rparr>) (use_vm v st)"

text \<open>The pool of a timer, with the cleanup of a machine that may be registered in it.\<close>

definition destroy_pool :: "nat \<Rightarrow> nat option \<Rightarrow> tstate \<Rightarrow> tstate option" where
  "destroy_pool i reg st = (if tpools st i then cleanup_vm reg (st\<lparr>tpools := (tpools st)(i := False)\<rparr>) else None)"

subsection \<open>timer.at\<close>

definition make_watcher :: "tenv \<Rightarrow> tstate \<Rightarrow> tstate option" where
  "make_watcher env st = (if watcher st then Some st else if t_watcher env then Some (st\<lparr>watcher := True\<rparr>) else None)"

text \<open>The coroutine is anchored, then the event, the pool and the copy of the address are allocated; a failure undoes what was done.\<close>

definition at_nomem :: "bool \<Rightarrow> nat \<Rightarrow> nat option \<Rightarrow> tstate \<Rightarrow> (lua_result \<times> tstate) option" where
  "at_nomem pool i v st =
     (case (if pool then destroy_pool i None st else Some st) of
        None \<Rightarrow> None
      | Some st \<Rightarrow> map_option (\<lambda>st. (LErr ''no memory'', st)) (unref i v st))"

definition start_timer :: "tenv \<Rightarrow> 64 word \<Rightarrow> tstate \<Rightarrow> (lua_result \<times> tstate) option" where
  "start_timer env delay st =
     (let i = next_event st; v = t_vm env;
          st = st\<lparr>next_event := i + 1, co_refs := (co_refs st)(i := True)\<rparr>
      in if \<not> t_mem env 0 then at_nomem False i v st
         else if \<not> t_mem env 1 then at_nomem False i v st
         else
           (let st = st\<lparr>tpools := (tpools st)(i := True)\<rparr>
            in if t_addr env \<and> \<not> t_mem env 2 then at_nomem True i v st
               else
                 (let st = (case v of None \<Rightarrow> st | Some v \<Rightarrow> st\<lparr>vms := (vms st)(v := map_option Suc (vms st v))\<rparr>);
                      st = st\<lparr>pending_timers := pending_timers st + 1\<rparr>
                  in map_option (\<lambda>st. (LRet [LNumber (num_of_int 1)], st))
                       (add_timer i \<lparr>te_lua = True, te_key = 0, te_premature = False, te_vm = v\<rparr> delay st))))"

definition timer_at :: "lua_rt \<Rightarrow> tenv \<Rightarrow> nat \<Rightarrow> lua_value \<Rightarrow> bool \<Rightarrow> tstate \<Rightarrow> (lua_result \<times> tstate) option" where
  "timer_at rt env nargs d is_function st =
     (if nargs < 2 then Some (LErr ''expecting at least 2 arguments but got %d'', st)
      else case check_number rt d of
        None \<Rightarrow> Some (LErr ''number expected'', st)
      | Some x \<Rightarrow>
          (let delay = rt_ms rt x
           in if \<not> is_function then Some (LErr ''Lua function expected'', st)
              else if \<not> t_session env then Some (LErr ''no session'', st)
              else if exiting st \<and> delay > 0 then Some (LRet [LNil, LString ''process exiting''], st)
              else if pending_timers st \<ge> max_pending_timers st then Some (LRet [LNil, LString ''too many pending timers''], st)
              else case make_watcher env st of
                None \<Rightarrow> Some (LErr ''no memory'', st)
              | Some st \<Rightarrow> (case use_vm (t_vm env) st of None \<Rightarrow> None | Some st \<Rightarrow> start_timer env delay st)))"

definition running_count :: "tenv \<Rightarrow> tstate \<Rightarrow> lua_result" where
  "running_count env st = (if t_session env then LRet [LNumber (num_of_int (running_timers st))] else LErr ''no session'')"

definition pending_count :: "tenv \<Rightarrow> tstate \<Rightarrow> lua_result" where
  "pending_count env st = (if t_session env then LRet [LNumber (num_of_int (pending_timers st))] else LErr ''no session'')"

subsection \<open>The handler\<close>

text \<open>The end of the session of a timer: its cleanup, then the fake connection with the pool.\<close>

definition session_cleanup :: "nat \<Rightarrow> tsession \<Rightarrow> tstate \<Rightarrow> tstate option" where
  "session_cleanup i s st = unref i (ts_vm s) (st\<lparr>running_timers := running_timers st - 1\<rparr>)"

definition close_fake_session :: "nat \<Rightarrow> tstate \<Rightarrow> tstate option" where
  "close_fake_session i st =
     (case tsessions st i of
        None \<Rightarrow> None
      | Some s \<Rightarrow>
          (case session_cleanup i s st of
             None \<Rightarrow> None
           | Some st \<Rightarrow> destroy_pool i (ts_vm s) (st\<lparr>tsessions := (tsessions st)(i := None)\<rparr>)))"

text \<open>
  The outcome of a run of the thread: it waits, it has returned, it was aborted by an error or \<open>ngx.exit\<close>, or it called \<open>ngx.exit\<close> with \<open>ngx.AGAIN\<close> or \<open>ngx.DONE\<close>. In the
  last two cases \<open>run_thread\<close> has already called the cleanup of the session (util.c, 1622 and 2217), which is called again when the session is closed. With the codes
  \<open>ngx.AGAIN\<close> and \<open>ngx.DONE\<close> it is not closed (util.c, 1893): it stays open for ever, without a thread that could go on.
\<close>

datatype lua_end = Waits | Returns | Aborts | Leaves

definition finish_run :: "nat \<Rightarrow> lua_end \<Rightarrow> tstate \<Rightarrow> tstate option" where
  "finish_run i e st =
     (case e of
        Waits \<Rightarrow> Some st
      | Returns \<Rightarrow> close_fake_session i st
      | Aborts \<Rightarrow>
          (case tsessions st i of
             None \<Rightarrow> None
           | Some s \<Rightarrow>
               (case session_cleanup i s st of
                  None \<Rightarrow> None
                | Some st \<Rightarrow> close_fake_session i (st\<lparr>aborted := aborted st + 1\<rparr>)))
      | Leaves \<Rightarrow>
          (case tsessions st i of
             None \<Rightarrow> None
           | Some s \<Rightarrow> map_option (\<lambda>st. st\<lparr>tsessions := (tsessions st)(i \<mapsto> s\<lparr>ts_left := True\<rparr>)\<rparr>) (session_cleanup i s st)))"

text \<open>What the Lua function does until it ends or waits: calls of \<open>timer.at\<close>, and the outcome.\<close>

record at_call =
  a_env :: tenv
  a_nargs :: nat
  a_delay :: lua_value
  a_function :: bool

record lua_run =
  calls :: "at_call list"
  run_end :: lua_end

fun run_calls :: "lua_rt \<Rightarrow> nat option \<Rightarrow> at_call list \<Rightarrow> tstate \<Rightarrow> tstate option" where
  "run_calls rt v [] st = Some st"
| "run_calls rt v (a # as) st =
     (case timer_at rt ((a_env a)\<lparr>t_session := True, t_vm := v\<rparr>) (a_nargs a) (a_delay a) (a_function a) st of
        None \<Rightarrow> None
      | Some (r, st) \<Rightarrow> run_calls rt v as st)"

text \<open>The label \<open>failed\<close>: \<open>conn\<close> tells that the fake connection exists, \<open>reg\<close> which machine has a cleanup in the pool.\<close>

definition handler_failed :: "bool \<Rightarrow> nat option \<Rightarrow> nat \<Rightarrow> tevent \<Rightarrow> tstate \<Rightarrow> tstate option" where
  "handler_failed conn reg i ev st =
     (case unref i (te_vm ev) st of
        None \<Rightarrow> None
      | Some st \<Rightarrow>
          (case cleanup_vm (te_vm ev) st of
             None \<Rightarrow> None
           | Some st \<Rightarrow> destroy_pool i (if conn then reg else None) st))"

text \<open>\<open>ngx_stream_lua_create_fake_connection\<close>: whether there is a connection. It closes the connection, and with it the pool, when its log cannot be allocated.\<close>

definition create_fake_connection :: "henv \<Rightarrow> nat \<Rightarrow> tstate \<Rightarrow> (bool \<times> tstate) option" where
  "create_fake_connection env i st =
     (if \<not> h_conn env then Some (False, st)
      else if \<not> h_log env then map_option (\<lambda>st. (False, st)) (destroy_pool i None st)
      else Some (True, st))"

definition timer_handler :: "lua_rt \<Rightarrow> henv \<Rightarrow> lua_run \<Rightarrow> nat \<Rightarrow> tstate \<Rightarrow> tstate option" where
  "timer_handler rt env lr i st =
     (case tevents st i of
        None \<Rightarrow> None
      | Some ev \<Rightarrow>
          (let st = st\<lparr>tevents := (tevents st)(i := None), pending_timers := pending_timers st - 1\<rparr>
           in if running_timers st \<ge> max_running_timers st then handler_failed False None i ev st
              else case create_fake_connection env i st of
                None \<Rightarrow> None
              | Some (False, st) \<Rightarrow> handler_failed False None i ev st
              | Some (True, st) \<Rightarrow>
                  (if \<not> h_session env \<or> \<not> h_ctx env then handler_failed True None i ev st
                   else if te_vm ev \<noteq> None \<and> \<not> h_pcln env then handler_failed True None i ev st
                   else if \<not> h_cln env then handler_failed True (te_vm ev) i ev st
                   else
                     (case use_vm (te_vm ev) st of
                        None \<Rightarrow> None
                      | Some st \<Rightarrow>
                          (let st = st\<lparr>running_timers := running_timers st + 1,
                                 called := called st @ [(i, te_premature ev, sint (te_key ev - current_msec st))],
                                 tsessions := (tsessions st)(i \<mapsto> \<lparr>ts_premature = te_premature ev, ts_vm = te_vm ev, ts_left = False\<rparr>)\<rparr>
                           in case run_calls rt (te_vm ev) (calls lr) st of
                                None \<Rightarrow> None
                              | Some st \<Rightarrow> finish_run i (run_end lr) st)))))"

subsection \<open>Expiry\<close>

text \<open>
  \<open>ngx_event_expire_timers\<close>: while the first event of the tree is due, it is taken out and its handler called. The handler of an event that is not
  one of Lua does nothing here. The number bounds the rounds; the result tells whether the loop has ended.
\<close>

definition first_event :: "tstate \<Rightarrow> nat option" where
  "first_event st = (case rbtree_min (timer_tree st) [] of (Nd _ _ e _, _) \<Rightarrow> Some e | (Sentinel, _) \<Rightarrow> None)"

definition event_due :: "tstate \<Rightarrow> nat \<Rightarrow> bool" where
  "event_due st e \<longleftrightarrow> sint (event_key st e - current_msec st) \<le> 0"

definition expire_event :: "lua_rt \<Rightarrow> (nat \<Rightarrow> henv \<times> lua_run) \<Rightarrow> nat \<Rightarrow> tstate \<Rightarrow> tstate option" where
  "expire_event rt hs e st =
     (case del_timer e st of
        None \<Rightarrow> None
      | Some st \<Rightarrow>
          (case tevents st e of
             None \<Rightarrow> None
           | Some ev \<Rightarrow> (if te_lua ev then timer_handler rt (fst (hs e)) (snd (hs e)) e st else Some (st\<lparr>tevents := (tevents st)(e := None)\<rparr>))))"

fun expire_timers :: "lua_rt \<Rightarrow> (nat \<Rightarrow> henv \<times> lua_run) \<Rightarrow> nat \<Rightarrow> tstate \<Rightarrow> (bool \<times> tstate) option" where
  "expire_timers rt hs 0 st = Some (False, st)"
| "expire_timers rt hs (Suc n) st =
     (case first_event st of
        None \<Rightarrow> Some (True, st)
      | Some e \<Rightarrow>
          (if \<not> event_due st e then Some (True, st)
           else case expire_event rt hs e st of None \<Rightarrow> None | Some st \<Rightarrow> expire_timers rt hs n st))"

subsection \<open>The end of the process\<close>

text \<open>Pointers to nodes of the tree.\<close>

datatype nptr = Null | Sen | Node nat

fun child_ptr :: "nat rbt \<Rightarrow> nptr" where
  "child_ptr Sentinel = Sen"
| "child_ptr (Nd c l x r) = Node x"

fun parent_ptr :: "nat path \<Rightarrow> nptr" where
  "parent_ptr [] = Null"
| "parent_ptr (f # p) = Node (fval f)"

definition go_up :: "nat rbt \<Rightarrow> nat path \<Rightarrow> (nat rbt \<times> nat path) option" where
  "go_up t p = (case p of [] \<Rightarrow> None | f # q \<Rightarrow> Some (plug1 t f, q))"

text \<open>The walk over the tree with its parent pointers: \<open>prev\<close> tells from where the node \<open>cur\<close> was reached.\<close>

partial_function (option) collect :: "(nat \<Rightarrow> bool) \<Rightarrow> nat \<Rightarrow> nptr \<Rightarrow> (nat rbt \<times> nat path) option \<Rightarrow> nat list \<Rightarrow> nat list option" where
  "collect lua n prev cur found =
     (if length found \<ge> n then Some found
      else case cur of
        None \<Rightarrow> Some found
      | Some (Sentinel, p) \<Rightarrow> Some found
      | Some (Nd c l x r, p) \<Rightarrow>
          (let up = go_up (Nd c l x r) p;
               nxt = (if r \<noteq> Sentinel then Some (r, InRight c l x # p) else up);
               found' = (if lua x then found @ [x] else found)
           in if prev = parent_ptr p then
                (if l = Sentinel then collect lua n (Node x) nxt found'
                 else collect lua n (Node x) (Some (l, InLeft c x r # p)) found)
              else if prev = child_ptr l then collect lua n (Node x) nxt found'
              else if prev = child_ptr r then collect lua n (Node x) up found
              else collect lua n (Node x) None found))"

definition is_lua :: "tstate \<Rightarrow> nat \<Rightarrow> bool" where
  "is_lua st e = (case tevents st e of None \<Rightarrow> False | Some ev \<Rightarrow> te_lua ev)"

fun call_prematurely :: "lua_rt \<Rightarrow> (nat \<Rightarrow> henv \<times> lua_run) \<Rightarrow> nat list \<Rightarrow> tstate \<Rightarrow> tstate option" where
  "call_prematurely rt hs [] st = Some st"
| "call_prematurely rt hs (e # es) st =
     (case del_timer e st of
        None \<Rightarrow> None
      | Some st \<Rightarrow>
          (case tevents st e of
             None \<Rightarrow> None
           | Some ev \<Rightarrow>
               (case timer_handler rt (fst (hs e)) (snd (hs e)) e (st\<lparr>tevents := (tevents st)(e \<mapsto> ev\<lparr>te_premature := True\<rparr>)\<rparr>) of
                  None \<Rightarrow> None
                | Some st \<Rightarrow> call_prematurely rt hs es st)))"

text \<open>The read handler of the watcher: \<open>closing\<close> is the flag of the connection, \<open>mem\<close> the allocation of the array of events.\<close>

definition abort_pending_timers :: "lua_rt \<Rightarrow> (nat \<Rightarrow> henv \<times> lua_run) \<Rightarrow> bool \<Rightarrow> bool \<Rightarrow> tstate \<Rightarrow> tstate option" where
  "abort_pending_timers rt hs closing mem st =
     (if \<not> closing \<or> pending_timers st = 0 \<or> \<not> mem then Some st
      else case collect (is_lua st) (nat (pending_timers st)) Null (Some (timer_tree st, [])) [] of
        None \<Rightarrow> None
      | Some es \<Rightarrow> call_prematurely rt hs es st)"


subsection \<open>A worker\<close>

text \<open>
  What happens in a worker: a client session with a Lua machine of its own (\<open>lua_code_cache off\<close>) begins and ends, \<open>timer.at\<close> is called in a client
  session with machine \<open>w\<close>, the session of a timer goes on, events of other parts of nginx are set and cleared, the clock is read, timers
  expire, the worker is told to exit, and its idle connections are closed.
\<close>

definition begin_session :: "nat \<Rightarrow> tstate \<Rightarrow> tstate" where
  "begin_session v st = (if vms st v = None then st\<lparr>vms := (vms st)(v \<mapsto> 1), vm_holders := (vm_holders st)(v := True)\<rparr> else st)"

definition end_session :: "nat \<Rightarrow> tstate \<Rightarrow> tstate option" where
  "end_session v st = (if vm_holders st v then cleanup_vm (Some v) (st\<lparr>vm_holders := (vm_holders st)(v := False)\<rparr>) else Some st)"

text \<open>An event of the session of a timer. A session that was left has no pending operation, so that no event reaches it.\<close>

definition continue_session :: "lua_rt \<Rightarrow> nat \<Rightarrow> lua_run \<Rightarrow> tstate \<Rightarrow> tstate option" where
  "continue_session rt i lr st =
     (case tsessions st i of
        None \<Rightarrow> Some st
      | Some s \<Rightarrow>
          (if ts_left s then Some st
           else case run_calls rt (ts_vm s) (calls lr) st of
             None \<Rightarrow> None
           | Some st \<Rightarrow> finish_run i (run_end lr) st))"

definition set_event :: "64 word \<Rightarrow> tstate \<Rightarrow> tstate option" where
  "set_event delay st =
     add_timer (next_event st) \<lparr>te_lua = False, te_key = 0, te_premature = False, te_vm = None\<rparr> delay (st\<lparr>next_event := next_event st + 1\<rparr>)"

definition clear_event :: "nat \<Rightarrow> tstate \<Rightarrow> tstate option" where
  "clear_event e st =
     (case tevents st e of
        None \<Rightarrow> Some st
      | Some ev \<Rightarrow> (if te_lua ev then Some st else map_option (\<lambda>st. st\<lparr>tevents := (tevents st)(e := None)\<rparr>) (del_timer e st)))"

datatype worker_op =
  Begin_Session nat | End_Session nat | Call_At "nat option" at_call | Continue nat lua_run | Set_Event "64 word" | Clear_Event nat
  | Clock "64 word" | Expire "nat \<Rightarrow> henv \<times> lua_run" nat | Exit_Worker | Close_Idle "nat \<Rightarrow> henv \<times> lua_run" bool

fun worker_step :: "lua_rt \<Rightarrow> worker_op \<Rightarrow> tstate \<Rightarrow> tstate option" where
  "worker_step rt (Begin_Session v) st = Some (begin_session v st)"
| "worker_step rt (End_Session v) st = end_session v st"
| "worker_step rt (Call_At w a) st =
     (if (case w of None \<Rightarrow> True | Some v \<Rightarrow> vm_holders st v) then map_option snd (timer_at rt ((a_env a)\<lparr>t_vm := w\<rparr>) (a_nargs a) (a_delay a) (a_function a) st)
      else Some st)"
| "worker_step rt (Continue i lr) st = continue_session rt i lr st"
| "worker_step rt (Set_Event d) st = set_event d st"
| "worker_step rt (Clear_Event e) st = clear_event e st"
| "worker_step rt (Clock t) st = Some (st\<lparr>current_msec := t\<rparr>)"
| "worker_step rt (Expire hs n) st = map_option snd (expire_timers rt hs n st)"
| "worker_step rt Exit_Worker st = Some (st\<lparr>exiting := True\<rparr>)"
| "worker_step rt (Close_Idle hs mem) st = abort_pending_timers rt hs (exiting st \<and> watcher st) mem st"

fun worker_run :: "lua_rt \<Rightarrow> worker_op list \<Rightarrow> tstate \<Rightarrow> tstate option" where
  "worker_run rt [] st = Some st"
| "worker_run rt (x # xs) st = (case worker_step rt x st of None \<Rightarrow> None | Some st \<Rightarrow> worker_run rt xs st)"

text \<open>A worker with the limits \<open>lua_max_pending_timers\<close> and \<open>lua_max_running_timers\<close>, at a time of its clock.\<close>

definition new_worker :: "nat \<Rightarrow> nat \<Rightarrow> 64 word \<Rightarrow> tstate" where
  "new_worker pending running now =
     \<lparr>max_pending_timers = int pending, pending_timers = 0, max_running_timers = int running, running_timers = 0, watcher = False,
      timer_tree = Sentinel, tevents = Map.empty, next_event = 0, tsessions = Map.empty, co_refs = (\<lambda>_. False), tpools = (\<lambda>_. False),
      vms = Map.empty, vm_holders = (\<lambda>_. False), exiting = False, current_msec = now, called = [], aborted = 0\<rparr>"

end
