(* ===== verification/Timer_Walk.thy ===== *)
theory Timer_Walk
  imports Timer
begin

section \<open>The walk over the timer tree\<close>

text \<open>
  The walk of \<open>abort_pending_timers\<close> needs no stack: from where a node was reached tells what is left to do at it. It ends, and finds the events
  of Lua in the order of the tree.
\<close>

definition full :: "nat \<Rightarrow> nat list \<Rightarrow> nat list option \<Rightarrow> nat list option" where
  "full n found rest = (if length found \<ge> n then Some found else rest)"

lemma collect_full: "collect lua n prev cur found = full n found (collect lua n prev cur found)"
  by (subst collect.simps) (simp add: full_def collect.simps)

lemma full_full [simp]: "full n f (full n f rest) = full n f rest"
  by (simp add: full_def)

lemma go_up_Cons [simp]: "go_up t (f # p) = Some (plug1 t f, p)"
  by (simp add: go_up_def)

lemma root_in: "t \<noteq> Sentinel \<Longrightarrow> \<exists>x \<in> set (inorder t). child_ptr t = Node x"
  by (cases t) auto

lemma child_apart:
  assumes "t \<noteq> Sentinel" "set (inorder t) \<inter> set (inorder u) = {}"
  shows "child_ptr t \<noteq> child_ptr u"
  using root_in [OF assms(1)] assms(2) by (cases u) auto

text \<open>What is found below a node, and where the walk goes on.\<close>

definition walked :: "(nat \<Rightarrow> bool) \<Rightarrow> nat \<Rightarrow> nat rbt \<Rightarrow> nat path \<Rightarrow> nat list \<Rightarrow> nat list option" where
  "walked lua n t p found =
     (let found' = take n (found @ filter lua (inorder t)) in full n found' (collect lua n (child_ptr t) (go_up t p) found'))"

lemma walked_full: "length found = n \<Longrightarrow> walked lua n t p found = Some found"
  by (simp add: walked_def full_def)

lemma collect_subtree:
  assumes "t \<noteq> Sentinel" "distinct (inorder t)" "\<And>x. x \<in> set (inorder t) \<Longrightarrow> parent_ptr p \<noteq> Node x" "length found \<le> n"
  shows "collect lua n (parent_ptr p) (Some (t, p)) found = walked lua n t p found"
  using assms
proof (induction t arbitrary: p found)
  case (Nd c l x r)
  let ?t = "Nd c l x r"
  have right: "collect lua n (Node x) (if r \<noteq> Sentinel then Some (r, InRight c l x # p) else go_up ?t p) f =
      (let f' = take n (f @ filter lua (inorder r)) in full n f' (collect lua n (Node x) (go_up ?t p) f'))" if "length f \<le> n" for f
  proof (cases "r = Sentinel")
    case True
    then show ?thesis using that collect_full [of lua n "Node x" "go_up ?t p" f] by simp
  next
    case False
    have "collect lua n (parent_ptr (InRight c l x # p)) (Some (r, InRight c l x # p)) f = walked lua n r (InRight c l x # p) f"
      by (rule Nd.IH(2)) (use False Nd.prems(2) that in auto)
    moreover have "collect lua n (child_ptr r) (Some (?t, p)) f' = full n f' (collect lua n (Node x) (go_up ?t p) f')" for f'
    proof -
      obtain y where y: "y \<in> set (inorder r)" "child_ptr r = Node y" using root_in [OF False] by blast
      have "child_ptr r \<noteq> parent_ptr p" using y Nd.prems(3) [of y] by auto
      moreover have "child_ptr r \<noteq> child_ptr l" by (rule child_apart [OF False]) (use Nd.prems(2) in auto)
      ultimately show ?thesis by (subst collect.simps) (simp add: full_def Let_def)
    qed
    ultimately show ?thesis using False by (simp add: walked_def Let_def del: take_append)
  qed
  have visit: "collect lua n (Node x) (if r \<noteq> Sentinel then Some (r, InRight c l x # p) else go_up ?t p) (if lua x then f @ [x] else f) =
      (let f' = take n (f @ filter lua (x # inorder r)) in full n f' (collect lua n (Node x) (go_up ?t p) f'))" if "length f < n" for f
    using right [of "if lua x then f @ [x] else f"] that by (cases "lua x") (simp_all add: Let_def del: take_append)
  show ?case
  proof (cases "length found = n")
    case True
    then show ?thesis using walked_full [OF True] by (subst collect.simps) simp
  next
    case False
    then have lt: "length found < n" using Nd.prems(4) by simp
    show ?thesis
    proof (cases "l = Sentinel")
      case True
      then have "collect lua n (parent_ptr p) (Some (?t, p)) found =
          collect lua n (Node x) (if r \<noteq> Sentinel then Some (r, InRight c l x # p) else go_up ?t p) (if lua x then found @ [x] else found)"
        using lt by (subst collect.simps) (simp add: Let_def)
      then show ?thesis using visit [OF lt] True by (simp add: walked_def Let_def del: take_append)
    next
      case False
      then have "collect lua n (parent_ptr p) (Some (?t, p)) found = collect lua n (Node x) (Some (l, InLeft c x r # p)) found"
        using lt by (subst collect.simps) (simp add: Let_def)
      also have "\<dots> = walked lua n l (InLeft c x r # p) found"
        using Nd.IH(1) [OF False, of "InLeft c x r # p" found] Nd.prems(2) lt by auto
      also have "\<dots> = (let f = take n (found @ filter lua (inorder l)) in full n f (collect lua n (child_ptr l) (Some (?t, p)) f))"
        by (simp add: walked_def)
      finally have e: "collect lua n (parent_ptr p) (Some (?t, p)) found =
          (let f = take n (found @ filter lua (inorder l)) in full n f (collect lua n (child_ptr l) (Some (?t, p)) f))" .
      have return: "collect lua n (child_ptr l) (Some (?t, p)) f =
          collect lua n (Node x) (if r \<noteq> Sentinel then Some (r, InRight c l x # p) else go_up ?t p) (if lua x then f @ [x] else f)" if "length f < n" for f
      proof -
        obtain y where y: "y \<in> set (inorder l)" "child_ptr l = Node y" using root_in [OF False] by blast
        have "child_ptr l \<noteq> parent_ptr p" using y Nd.prems(3) [of y] by auto
        then show ?thesis using that by (subst collect.simps) (simp add: Let_def)
      qed
      show ?thesis
      proof (cases "length (found @ filter lua (inorder l)) < n")
        case True
        then show ?thesis using e return [OF True] visit [OF True] by (simp add: walked_def full_def Let_def)
      next
        case False
        then show ?thesis using e by (simp add: walked_def full_def Let_def)
      qed
    qed
  qed
qed simp

theorem collect_inorder:
  assumes "distinct (inorder t)"
  shows "collect lua n Null (Some (t, [])) [] = Some (take n (filter lua (inorder t)))"
proof (cases "t = Sentinel")
  case True
  then show ?thesis by (subst collect.simps) simp
next
  case False
  have "collect lua n (parent_ptr []) (Some (t, [])) [] = walked lua n t [] []" by (rule collect_subtree) (use False assms in auto)
  moreover have "collect lua n (child_ptr t) None f = Some f" for f by (subst collect.simps) simp
  ultimately show ?thesis by (simp add: walked_def full_def go_up_def Let_def)
qed

end
