(* ===== verification/Timer_Inv.thy ===== *)
theory Timer_Inv
  imports Timer_Walk
begin

section \<open>The invariant of the timers\<close>

text \<open>
  A timer is owned by its pending event, by its session, or for a moment by the handler (\<open>h\<close>); its pool exists exactly as
  long as it has an owner, and its coroutine is anchored until then, or until its session is left open. The counters are exact, except that a timer is subtracted twice when it is aborted, and a Lua machine has as many references as holders.
\<close>

definition owner :: "(nat \<Rightarrow> nat option option) \<Rightarrow> tstate \<Rightarrow> nat \<Rightarrow> nat option option" where
  "owner h st i =
     (case h i of
        Some v \<Rightarrow> Some v
      | None \<Rightarrow>
          (case tevents st i of
             Some ev \<Rightarrow> (if te_lua ev then Some (te_vm ev) else None)
           | None \<Rightarrow> map_option ts_vm (tsessions st i)))"

definition session_runs :: "tstate \<Rightarrow> nat \<Rightarrow> bool" where
  "session_runs st i = (case tsessions st i of None \<Rightarrow> False | Some s \<Rightarrow> \<not> ts_left s)"

definition left_open :: "tstate \<Rightarrow> nat \<Rightarrow> bool" where
  "left_open st i = (case tsessions st i of None \<Rightarrow> False | Some s \<Rightarrow> ts_left s)"

lemma session_frame: "tsessions st' = tsessions st \<Longrightarrow> session_runs st' = session_runs st \<and> left_open st' = left_open st"
  by (simp add: session_runs_def left_open_def fun_eq_iff)

definition vm_refs :: "(nat \<Rightarrow> nat option option) \<Rightarrow> tstate \<Rightarrow> nat \<Rightarrow> nat" where
  "vm_refs h st v = (if vm_holders st v then 1 else 0) + card {i. owner h st i = Some (Some v)}"

definition tree_ok :: "tstate \<Rightarrow> bool" where
  "tree_ok st \<longleftrightarrow> rb_tree (timer_tree st) \<and> distinct (inorder (timer_tree st)) \<and> set (inorder (timer_tree st)) = dom (tevents st)"

definition counts_ok :: "tstate \<Rightarrow> bool" where
  "counts_ok st \<longleftrightarrow> pending_timers st = int (card {e. is_lua st e}) \<and> pending_timers st \<le> max_pending_timers st \<and>
     finite (dom (tsessions st)) \<and> running_timers st = int (card {i. session_runs st i}) - int (aborted st) \<and> running_timers st \<le> max_running_timers st"

definition ids_ok :: "(nat \<Rightarrow> nat option option) \<Rightarrow> tstate \<Rightarrow> bool" where
  "ids_ok h st \<longleftrightarrow> (\<forall>i \<in> dom h \<union> dom (tevents st) \<union> dom (tsessions st). i < next_event st) \<and>
     dom h \<inter> dom (tevents st) = {} \<and> dom h \<inter> dom (tsessions st) = {} \<and> dom (tevents st) \<inter> dom (tsessions st) = {}"

definition owners_ok :: "(nat \<Rightarrow> nat option option) \<Rightarrow> tstate \<Rightarrow> bool" where
  "owners_ok h st \<longleftrightarrow> (\<forall>i. co_refs st i = (owner h st i \<noteq> None \<and> \<not> left_open st i)) \<and> (\<forall>i. tpools st i = (owner h st i \<noteq> None)) \<and>
     (\<forall>v. vms st v = (if vm_refs h st v = 0 then None else Some (vm_refs h st v)))"

definition tinv :: "(nat \<Rightarrow> nat option option) \<Rightarrow> tstate \<Rightarrow> bool" where
  "tinv h st \<longleftrightarrow> tree_ok st \<and> counts_ok st \<and> ids_ok h st \<and> owners_ok h st"

lemma tinvD:
  assumes "tinv h st"
  shows "tree_ok st" "counts_ok st" "ids_ok h st" "owners_ok h st"
  using assms by (simp_all add: tinv_def)

lemma owner_bound:
  assumes "ids_ok h st" "owner h st i \<noteq> None"
  shows "i < next_event st"
proof -
  have "i \<in> dom h \<union> dom (tevents st) \<union> dom (tsessions st)" using assms(2) by (auto simp: owner_def split: option.splits)
  then show ?thesis using assms(1) by (simp add: ids_ok_def)
qed

lemma owners_finite: "ids_ok h st \<Longrightarrow> finite {i. owner h st i = Some x}"
  by (rule finite_subset [of _ "{..<next_event st}"]) (auto dest: owner_bound)

text \<open>How the references change with one owner.\<close>

lemma vm_refs_gain:
  assumes "ids_ok h st" "owner h st i = None" "owner h' st' = (owner h st)(i := Some w)" "vm_holders st' = vm_holders st"
  shows "vm_refs h' st' v = vm_refs h st v + (if w = Some v then 1 else 0)"
proof -
  have "{j. owner h' st' j = Some (Some v)} = (if w = Some v then insert i {j. owner h st j = Some (Some v)} else {j. owner h st j = Some (Some v)})"
    using assms(2) by (auto simp: assms(3))
  moreover have "i \<notin> {j. owner h st j = Some (Some v)}" using assms(2) by simp
  ultimately show ?thesis using owners_finite [OF assms(1), of "Some v"] assms(4) by (simp add: vm_refs_def)
qed

lemma vm_refs_lose:
  assumes "ids_ok h st" "owner h st i = Some w" "owner h' st' = (owner h st)(i := None)" "vm_holders st' = vm_holders st"
  shows "vm_refs h st v = vm_refs h' st' v + (if w = Some v then 1 else 0)"
proof -
  have "{j. owner h st j = Some (Some v)} = (if w = Some v then insert i {j. owner h' st' j = Some (Some v)} else {j. owner h' st' j = Some (Some v)})"
    using assms(2) by (auto simp: assms(3))
  moreover have "i \<notin> {j. owner h' st' j = Some (Some v)}" by (simp add: assms(3))
  moreover have "finite {j. owner h' st' j = Some (Some v)}"
    by (rule finite_subset [OF _ owners_finite [OF assms(1), of "Some v"]]) (auto simp: assms(3))
  ultimately show ?thesis using assms(4) by (simp add: vm_refs_def)
qed

lemma owners_frame:
  assumes "owners_ok h st" "owner h' st' = owner h st" "left_open st' = left_open st" "vm_holders st' = vm_holders st"
    "co_refs st' = co_refs st" "tpools st' = tpools st" "vms st' = vms st"
  shows "owners_ok h' st'"
proof -
  have "vm_refs h' st' v = vm_refs h st v" for v by (simp add: vm_refs_def assms(2,4))
  then show ?thesis using assms(1) by (simp add: owners_ok_def assms(2-3,5-7))
qed

lemma vm_alive:
  assumes "owners_ok h st" "ids_ok h st" "owner h st i = Some (Some v)"
  shows "vms st v \<noteq> None"
proof -
  have "card {j. owner h st j = Some (Some v)} \<noteq> 0" using owners_finite [OF assms(2), of "Some v"] assms(3) by (auto simp: card_eq_0_iff)
  then show ?thesis using assms(1) by (simp add: owners_ok_def vm_refs_def)
qed

subsection \<open>Releasing a timer\<close>

definition drop_vm :: "nat option \<Rightarrow> tstate \<Rightarrow> tstate" where
  "drop_vm w st = (case w of None \<Rightarrow> st | Some v \<Rightarrow> st\<lparr>vms := (vms st)(v := (if vms st v = Some 1 then None else map_option (\<lambda>n. n - 1) (vms st v)))\<rparr>)"

lemma cleanup_vm_eq: "(case w of None \<Rightarrow> True | Some v \<Rightarrow> vms st v \<noteq> None) \<Longrightarrow> cleanup_vm w st = Some (drop_vm w st)"
  by (auto simp: cleanup_vm_def drop_vm_def split: option.splits)

lemma release_owners:
  assumes "owners_ok h st" "ids_ok h st" "owner h st i = Some w" "owner h' st' = (owner h st)(i := None)" "vm_holders st' = vm_holders st"
    "co_refs st' = (co_refs st)(i := False)" "tpools st' = (tpools st)(i := False)" "vms st' = vms (drop_vm w st)" "tsessions st' = tsessions st"
  shows "owners_ok h' st'"
proof -
  note lose = vm_refs_lose [OF assms(2-5)]
  have o: "co_refs st j = (owner h st j \<noteq> None \<and> \<not> left_open st j)" "tpools st j = (owner h st j \<noteq> None)" "vms st v = (if vm_refs h st v = 0 then None else Some (vm_refs h st v))" for j v
    using assms(1) by (simp_all add: owners_ok_def)
  have "vms st' v = (if vm_refs h' st' v = 0 then None else Some (vm_refs h' st' v))" for v
    using o(3) [of v] lose [of v] assms(8) by (cases w) (auto simp: drop_vm_def)
  then show ?thesis using o(1,2) session_frame [OF assms(9)] by (simp add: owners_ok_def assms(4,6,7))
qed

end
