(* ===== verification/Timer_Order.thy ===== *)
theory Timer_Order
  imports Timer_Inv
begin

section \<open>The order of the timers\<close>

text \<open>
  The keys of the tree are times modulo $2^{64}$ that are compared by their signed difference. As long as all times lie within half of the range after some
  time \<open>t0\<close>, this is the order of time, and events of the same time stay in the order in which they were set.
\<close>

definition time_after :: "64 word \<Rightarrow> tstate \<Rightarrow> nat \<Rightarrow> nat" where
  "time_after t0 st e = unat (event_key st e - t0)"

definition earlier :: "64 word \<Rightarrow> tstate \<Rightarrow> nat \<Rightarrow> nat \<Rightarrow> bool" where
  "earlier t0 st a b \<longleftrightarrow> time_after t0 st a < time_after t0 st b \<or> time_after t0 st a = time_after t0 st b \<and> a < b"

definition timely :: "64 word \<Rightarrow> tstate \<Rightarrow> bool" where
  "timely t0 st \<longleftrightarrow> unat (current_msec st - t0) < 2 ^ 62 \<and> (\<forall>e \<in> dom (tevents st). time_after t0 st e < 2 ^ 63) \<and>
     sorted_wrt (earlier t0 st) (inorder (timer_tree st))"

lemma sint_difference:
  fixes a b t0 :: "64 word"
  assumes "unat (a - t0) < 2 ^ 63" "unat (b - t0) < 2 ^ 63"
  shows "sint (a - b) = int (unat (a - t0)) - int (unat (b - t0))"
proof -
  let ?k = "uint (a - t0) - uint (b - t0)"
  have u: "uint (a - t0) < 2 ^ 63" "uint (b - t0) < 2 ^ 63" using assms by (simp_all only: unat_eq_nat_uint nat_less_iff uint_nonnegative) simp_all
  have w: "sint (word_of_int k :: 64 word) = signed_take_bit 63 k" for k by (simp add: signed_of_int)
  have "a - b = word_of_int ?k" by simp
  then have "sint (a - b) = signed_take_bit 63 ?k" by (simp only: w)
  also have "\<dots> = ?k" using u uint_nonnegative [of "a - t0"] uint_nonnegative [of "b - t0"] by (intro signed_take_bit_int_eq_self) linarith+
  finally show ?thesis by simp
qed


lemma timely_frame: "timer_tree st' = timer_tree st \<Longrightarrow> tevents st' = tevents st \<Longrightarrow> current_msec st' = current_msec st \<Longrightarrow> timely t0 st' = timely t0 st"
  by (simp add: timely_def earlier_def [abs_def] time_after_def [abs_def] event_key_def)

lemma timely_insert:
  assumes ok: "tree_ok st" "timely t0 st" and d: "unat d < 2 ^ 62" and new: "\<And>i. i \<in> dom (tevents st) \<Longrightarrow> i < e" and key: "te_key ev = current_msec st + d"
    and t: "rbtree_insert (timer_goes_left st (current_msec st + d)) e (timer_tree st) = Some t"
  shows "timely t0 (st\<lparr>timer_tree := t, tevents := (tevents st)(e \<mapsto> ev)\<rparr>)" (is "timely t0 ?st")
proof -
  let ?xs = "inorder (timer_tree st)" and ?k = "current_msec st + d"
  have tm: "unat (current_msec st - t0) < 2 ^ 62" "\<And>i. i \<in> dom (tevents st) \<Longrightarrow> time_after t0 st i < 2 ^ 63" "sorted_wrt (earlier t0 st) ?xs"
    using ok(2) by (simp_all add: timely_def)
  have set: "set ?xs = dom (tevents st)" "rb_tree (timer_tree st)" using ok(1) by (simp_all add: tree_ok_def)
  have "unat (?k - t0) = unat ((current_msec st - t0) + d)" by (simp add: algebra_simps)
  also have "\<dots> = unat (current_msec st - t0) + unat d" using tm(1) d by (intro unat_add_lem [THEN iffD1]) simp
  finally have k: "unat (?k - t0) < 2 ^ 63" using tm(1) d by simp
  have gl: "timer_goes_left st ?k y \<longleftrightarrow> unat (?k - t0) < time_after t0 st y" if "y \<in> set ?xs" for y
    using that tm(2) [of y] sint_difference [OF k, of "event_key st y"] by (simp only: timer_goes_left_def time_after_def set) linarith
  have "sorted_wrt (\<lambda>y z. timer_goes_left st ?k y \<longrightarrow> timer_goes_left st ?k z) ?xs"
    by (rule sorted_wrt_mono_rel [OF _ tm(3)]) (auto simp: gl earlier_def)
  then have t': "inorder t = filter (\<lambda>y. \<not> timer_goes_left st ?k y) ?xs @ e # filter (timer_goes_left st ?k) ?xs"
    using rbt.ins_law [OF set(2), of "timer_goes_left st ?k" e] t by auto
  have at: "time_after t0 ?st e = unat (?k - t0)" by (simp add: time_after_def event_key_def key)
  have old: "time_after t0 ?st y = time_after t0 st y" "y < e" if "y \<in> set ?xs" for y
    using that new [of y] set(1) by (auto simp: time_after_def event_key_def)
  have "sorted_wrt (earlier t0 ?st) ?xs" using tm(3) by (rule sorted_wrt_mono_rel [rotated]) (simp add: earlier_def old)
  then have "sorted_wrt (earlier t0 ?st) (inorder t)"
    unfolding t' by (auto simp: sorted_wrt_append sorted_wrt_filter gl earlier_def at old)
  moreover have "time_after t0 ?st y < 2 ^ 63" if "y \<in> dom (tevents ?st)" for y
    using that k tm(2) [of y] at old(1) [of y] set(1) by (cases "y = e") auto
  ultimately show ?thesis using tm(1) by (simp add: timely_def)
qed

lemma timely_delete:
  assumes "timely t0 st" "inorder t = filter (\<lambda>x. x \<noteq> e) (inorder (timer_tree st))"
  shows "timely t0 (st\<lparr>timer_tree := t, tevents := (tevents st)(e := None)\<rparr>)" (is "timely t0 ?st")
proof -
  have same: "time_after t0 ?st y = time_after t0 st y" if "y \<noteq> e" for y using that by (simp add: time_after_def event_key_def)
  have "sorted_wrt (earlier t0 st) (inorder t)" using assms by (simp add: timely_def sorted_wrt_filter)
  then have "sorted_wrt (earlier t0 ?st) (inorder t)" by (rule sorted_wrt_mono_rel [rotated]) (auto simp: earlier_def same assms(2))
  then show ?thesis using assms(1) same by (auto simp: timely_def)
qed

end
