(* ===== verification/Timer_Step.thy ===== *)
theory Timer_Step
  imports Timer_Order
begin

section \<open>The operations keep the invariant of the timers\<close>

subsection \<open>The tree and the counters\<close>

lemma tree_insert:
  assumes "tree_ok st" "tevents st e = None"
  shows "\<exists>t. rbtree_insert gl e (timer_tree st) = Some t \<and> tree_ok (st\<lparr>timer_tree := t, tevents := (tevents st)(e \<mapsto> ev)\<rparr>)"
proof -
  obtain t where t: "rbtree_insert gl e (timer_tree st) = Some t" "rb_tree t" using rbtree_insert_rb_tree [of "timer_tree st" gl e] assms(1) by (auto simp: tree_ok_def)
  from rbtree_insert_inorder [OF t(1)] obtain xs ys where "inorder (timer_tree st) = xs @ ys" "inorder t = xs @ e # ys" by blast
  moreover have "e \<notin> set (inorder (timer_tree st))" using assms by (auto simp: tree_ok_def)
  ultimately show ?thesis using assms(1) t by (auto simp: tree_ok_def)
qed

lemma tree_delete:
  assumes "tree_ok st" "tevents st e \<noteq> None"
  shows "\<exists>t. rbtree_delete e (timer_tree st) = Some t \<and> inorder t = filter (\<lambda>x. x \<noteq> e) (inorder (timer_tree st)) \<and>
    tree_ok (st\<lparr>timer_tree := t, tevents := (tevents st)(e := None)\<rparr>)"
proof -
  have "e \<in> set (inorder (timer_tree st))" using assms by (auto simp: tree_ok_def)
  then obtain t where "rbtree_delete e (timer_tree st) = Some t" "rb_tree t" "inorder t = filter (\<lambda>x. x \<noteq> e) (inorder (timer_tree st))"
    using rbt.del_law [of "timer_tree st" e] assms(1) by (auto simp: tree_ok_def)
  then show ?thesis using assms(1) by (auto simp: tree_ok_def)
qed

lemma is_lua_finite: "tree_ok st \<Longrightarrow> finite {e. is_lua st e}"
  by (rule finite_subset [OF _ finite_set [of "inorder (timer_tree st)"]]) (auto simp: tree_ok_def is_lua_def split: option.splits)

lemma is_lua_gain:
  assumes "tree_ok st" "tevents st e = None" "tevents st' = (tevents st)(e \<mapsto> ev)"
  shows "card {e. is_lua st' e} = card {e. is_lua st e} + (if te_lua ev then 1 else 0)"
proof -
  have "{e. is_lua st' e} = (if te_lua ev then insert e {e. is_lua st e} else {e. is_lua st e})"
    using assms(2) by (auto simp: is_lua_def assms(3) split: if_splits option.splits)
  moreover have "\<not> is_lua st e" using assms(2) by (simp add: is_lua_def)
  ultimately show ?thesis using is_lua_finite [OF assms(1)] by simp
qed

lemma is_lua_lose:
  assumes "tree_ok st" "tevents st e = Some ev" "tevents st' = (tevents st)(e := None)"
  shows "card {e. is_lua st e} = card {e. is_lua st' e} + (if te_lua ev then 1 else 0)"
proof -
  have "{e. is_lua st e} = (if te_lua ev then insert e {e. is_lua st' e} else {e. is_lua st' e})"
    using assms(2) by (auto simp: is_lua_def assms(3) split: if_splits option.splits)
  moreover have "\<not> is_lua st' e" by (simp add: is_lua_def assms(3))
  moreover have "finite {e. is_lua st' e}"
    by (rule finite_subset [OF _ is_lua_finite [OF assms(1)]]) (auto simp: is_lua_def assms(3) split: if_splits)
  ultimately show ?thesis by simp
qed

subsection \<open>New timers\<close>

definition vm_ok :: "nat option \<Rightarrow> tstate \<Rightarrow> bool" where
  "vm_ok w st \<longleftrightarrow> (case w of None \<Rightarrow> True | Some v \<Rightarrow> vms st v \<noteq> None)"

definition bump_vm :: "nat option \<Rightarrow> tstate \<Rightarrow> tstate" where
  "bump_vm w st = (case w of None \<Rightarrow> st | Some v \<Rightarrow> st\<lparr>vms := (vms st)(v := map_option Suc (vms st v))\<rparr>)"

lemma use_vm_ok [simp]: "vm_ok w st \<Longrightarrow> use_vm w st = Some st"
  by (auto simp: vm_ok_def use_vm_def split: option.splits)

lemma vm_ok_frame: "vms st' = vms st \<Longrightarrow> vm_ok w st' = vm_ok w st"
  by (cases w) (simp_all add: vm_ok_def)

lemma cleanup_vm_ok: "vm_ok w st \<Longrightarrow> cleanup_vm w st = Some (drop_vm w st)"
  by (rule cleanup_vm_eq) (simp add: vm_ok_def)

lemma vm_ok_owner: "owners_ok h st \<Longrightarrow> ids_ok h st \<Longrightarrow> owner h st i = Some w \<Longrightarrow> vm_ok w st"
  by (cases w) (simp_all add: vm_ok_def vm_alive)

lemma unowned:
  assumes "tinv h st" "next_event st \<le> i"
  shows "owner h st i = None" "\<not> co_refs st i" "\<not> tpools st i" "h i = None" "tevents st i = None" "tsessions st i = None"
proof -
  note inv = tinvD [OF assms(1)]
  show o: "owner h st i = None" using owner_bound [OF inv(3), of i] assms(2) by (meson leD)
  show "\<not> co_refs st i" "\<not> tpools st i" using o inv(4) by (simp_all add: owners_ok_def)
  have b: "i \<notin> dom h \<union> dom (tevents st) \<union> dom (tsessions st)" using inv(3) assms(2) by (metis ids_ok_def leD)
  then show "h i = None" "tevents st i = None" "tsessions st i = None" by auto
qed

lemma new_owners:
  assumes "owners_ok h st" "ids_ok h st" "owner h st i = None" "owner h' st' = (owner h st)(i := Some w)" "vm_holders st' = vm_holders st"
    "co_refs st' = (co_refs st)(i := True)" "tpools st' = (tpools st)(i := True)" "vms st' = vms (bump_vm w st)" "vm_ok w st"
    "tsessions st' = tsessions st" "tsessions st i = None"
  shows "owners_ok h' st'"
proof -
  note gain = vm_refs_gain [OF assms(2-5)]
  have o: "co_refs st j = (owner h st j \<noteq> None \<and> \<not> left_open st j)" "tpools st j = (owner h st j \<noteq> None)" "vms st v = (if vm_refs h st v = 0 then None else Some (vm_refs h st v))" for j v
    using assms(1) by (simp_all add: owners_ok_def)
  have "vms st' v = (if vm_refs h' st' v = 0 then None else Some (vm_refs h' st' v))" for v
    using o(3) [of v] gain [of v] assms(8,9) by (cases w) (auto simp: bump_vm_def vm_ok_def split: if_splits)
  moreover have "\<not> left_open st i" using assms(11) by (simp add: left_open_def)
  ultimately show ?thesis using o(1,2) session_frame [OF assms(10)] by (simp add: owners_ok_def assms(4,6,7))
qed

text \<open>The state after a new timer has been set.\<close>

definition new_timer :: "nat rbt \<Rightarrow> tevent \<Rightarrow> tstate \<Rightarrow> tstate" where
  "new_timer t ev st =
     (let i = next_event st; st = bump_vm (te_vm ev) st
      in st\<lparr>next_event := i + 1, co_refs := (co_refs st)(i := True), tpools := (tpools st)(i := True), pending_timers := pending_timers st + 1,
        timer_tree := t, tevents := (tevents st)(i \<mapsto> ev)\<rparr>)"

lemma bump_vm_sel [simp]:
  "next_event (bump_vm w st) = next_event st" "co_refs (bump_vm w st) = co_refs st" "tpools (bump_vm w st) = tpools st"
  "pending_timers (bump_vm w st) = pending_timers st" "timer_tree (bump_vm w st) = timer_tree st" "tevents (bump_vm w st) = tevents st"
  "tsessions (bump_vm w st) = tsessions st" "vm_holders (bump_vm w st) = vm_holders st" "running_timers (bump_vm w st) = running_timers st"
  "max_running_timers (bump_vm w st) = max_running_timers st" "max_pending_timers (bump_vm w st) = max_pending_timers st"
  "current_msec (bump_vm w st) = current_msec st" "called (bump_vm w st) = called st" "exiting (bump_vm w st) = exiting st" "watcher (bump_vm w st) = watcher st" "aborted (bump_vm w st) = aborted st"
  by (simp_all add: bump_vm_def split: option.split)

lemma new_timer_inv:
  assumes inv: "tinv h st" and ev: "te_lua ev" "vm_ok (te_vm ev) st" and limit: "pending_timers st < max_pending_timers st"
    and tree: "tree_ok (st\<lparr>timer_tree := t, tevents := (tevents st)(next_event st \<mapsto> ev)\<rparr>)"
  shows "tinv h (new_timer t ev st)"
proof -
  let ?st = "new_timer t ev st"
  note i = tinvD [OF inv] and un = unowned [OF inv order_refl]
  have sel: "tevents ?st = (tevents st)(next_event st \<mapsto> ev)" by (simp add: new_timer_def Let_def)
  have "tree_ok ?st" using tree by (simp add: tree_ok_def new_timer_def Let_def)
  moreover have "counts_ok ?st"
    using i(2) is_lua_gain [OF i(1) un(5) sel] ev(1) limit session_frame [of ?st st] by (simp add: counts_ok_def new_timer_def Let_def)
  moreover have "ids_ok h ?st"
    using i(3) un by (auto simp: ids_ok_def new_timer_def Let_def less_Suc_eq)
  moreover have "owner h ?st = (owner h st)(next_event st := Some (te_vm ev))"
    using un ev(1) by (auto simp: owner_def new_timer_def Let_def fun_eq_iff split: option.splits)
  then have "owners_ok h ?st"
    by (rule new_owners [OF i(4,3) un(1)]) (simp_all add: new_timer_def Let_def ev(2) un(6))
  ultimately show ?thesis by (simp add: tinv_def)
qed


subsection \<open>timer.at\<close>

text \<open>What \<open>timer.at\<close> leaves alone, and that the events it adds have a delay in \<open>P\<close>; with short delays the order of time is kept, and so are the limits.\<close>

definition short :: "(64 word \<Rightarrow> bool) \<Rightarrow> bool" where
  "short P \<longleftrightarrow> (\<forall>d. P d \<longrightarrow> unat d < 2 ^ 62)"

definition order_kept :: "(64 word \<Rightarrow> bool) \<Rightarrow> tstate \<Rightarrow> tstate \<Rightarrow> bool" where
  "order_kept P st st' \<longleftrightarrow> max_pending_timers st' = max_pending_timers st \<and> max_running_timers st' = max_running_timers st \<and>
     (\<forall>t0. short P \<longrightarrow> timely t0 st \<longrightarrow> timely t0 st')"

lemma order_keptI:
  assumes "max_pending_timers st' = max_pending_timers st" "max_running_timers st' = max_running_timers st" "\<And>t0. short P \<Longrightarrow> timely t0 st \<Longrightarrow> timely t0 st'"
  shows "order_kept P st st'"
  using assms by (simp add: order_kept_def)

definition events_from :: "(64 word \<Rightarrow> bool) \<Rightarrow> tstate \<Rightarrow> tstate \<Rightarrow> bool" where
  "events_from P st st' \<longleftrightarrow> next_event st \<le> next_event st' \<and> order_kept P st st' \<and>
     (\<forall>i ev. tevents st' i = Some ev \<longrightarrow> tevents st i = Some ev \<or>
       next_event st \<le> i \<and> te_lua ev \<and> \<not> te_premature ev \<and> P (te_key ev - current_msec st))"

lemma order_kept_refl [simp, intro]: "order_kept P st st"
  by (simp add: order_kept_def)

lemma order_kept_trans: "order_kept P st st1 \<Longrightarrow> order_kept P st1 st2 \<Longrightarrow> order_kept P st st2"
  by (simp add: order_kept_def)

lemma order_kept_frame: "timer_tree st' = timer_tree st \<Longrightarrow> tevents st' = tevents st \<Longrightarrow> current_msec st' = current_msec st \<Longrightarrow> 
    max_pending_timers st' = max_pending_timers st \<Longrightarrow> max_running_timers st' = max_running_timers st \<Longrightarrow> order_kept P st st'"
  using timely_frame [of st' st] by (simp add: order_kept_def)

lemma events_from_frame:
  "timer_tree st' = timer_tree st \<Longrightarrow> tevents st' = tevents st \<Longrightarrow> current_msec st' = current_msec st \<Longrightarrow> 
    max_pending_timers st' = max_pending_timers st \<Longrightarrow> max_running_timers st' = max_running_timers st \<Longrightarrow> next_event st \<le> next_event st' \<Longrightarrow> events_from P st st'"
  by (simp add: events_from_def order_kept_frame)

definition kept :: "(64 word \<Rightarrow> bool) \<Rightarrow> tstate \<Rightarrow> tstate \<Rightarrow> bool" where
  "kept P st st' \<longleftrightarrow> tsessions st' = tsessions st \<and> vm_holders st' = vm_holders st \<and> max_running_timers st' = max_running_timers st \<and>
     max_pending_timers st' = max_pending_timers st \<and> current_msec st' = current_msec st \<and> called st' = called st \<and> exiting st' = exiting st \<and> aborted st' = aborted st \<and>
     (\<forall>i < next_event st. tevents st' i = tevents st i) \<and> events_from P st st'"

lemma kept_refl [simp, intro]: "kept P st st"
  by (simp add: kept_def events_from_frame)

lemma events_fromD:
  "events_from P st st' \<Longrightarrow> tevents st' i = Some ev \<Longrightarrow> tevents st i = Some ev \<or> next_event st \<le> i \<and> te_lua ev \<and> \<not> te_premature ev \<and> P (te_key ev - current_msec st)"
  by (simp add: events_from_def)

lemma events_from_None: "events_from P st st' \<Longrightarrow> i < next_event st \<Longrightarrow> tevents st i = None \<Longrightarrow> tevents st' i = None"
  unfolding events_from_def by (metis leD not_None_eq option.distinct(1))

lemma events_from_trans:
  assumes "events_from P st st1" "events_from P st1 st2" "current_msec st1 = current_msec st"
  shows "events_from P st st2"
proof -
  have "tevents st i = Some ev \<or> next_event st \<le> i \<and> te_lua ev \<and> \<not> te_premature ev \<and> P (te_key ev - current_msec st)" if "tevents st2 i = Some ev" for i ev
    using events_fromD [OF assms(2) that] events_fromD [OF assms(1), of i ev] assms by (auto simp: events_from_def)
  moreover have "next_event st \<le> next_event st2" "order_kept P st st2" using assms by (auto simp: events_from_def intro: order_kept_trans)
  ultimately show ?thesis unfolding events_from_def by blast
qed

lemma kept_trans:
  assumes "kept P st st1" "kept P st1 st2"
  shows "kept P st st2"
proof -
  have "events_from P st st2" using assms by (auto simp: kept_def intro: events_from_trans)
  then show ?thesis using assms by (auto simp: kept_def events_from_def)
qed

text \<open>The invariant does not look at the watcher, the clock and the calls, and numbers may be skipped.\<close>

lemma tinv_frame:
  assumes "tinv h st" "timer_tree st' = timer_tree st" "tevents st' = tevents st" "tsessions st' = tsessions st" "co_refs st' = co_refs st"
    "tpools st' = tpools st" "vms st' = vms st" "vm_holders st' = vm_holders st" "pending_timers st' = pending_timers st"
    "running_timers st' = running_timers st" "aborted st' = aborted st" "max_pending_timers st' = max_pending_timers st" "max_running_timers st' = max_running_timers st"
    "next_event st \<le> next_event st'"
  shows "tinv h st'"
proof -
  note i = tinvD [OF assms(1)]
  have o: "owner h st' = owner h st" using assms(3,4) by (simp add: owner_def fun_eq_iff split: option.splits)
  have l: "is_lua st' = is_lua st" using assms(3) by (simp add: is_lua_def fun_eq_iff)
  note f = session_frame [OF assms(4)]
  have "tree_ok st'" "counts_ok st'" using i(1,2) l f assms by (simp_all add: tree_ok_def counts_ok_def)
  moreover have "ids_ok h st'" unfolding ids_ok_def using i(3) [unfolded ids_ok_def] assms(3,4) less_le_trans [OF _ assms(14)] by metis
  moreover have "owners_ok h st'" using i(4) o f assms by (simp add: owners_ok_def vm_refs_def)
  ultimately show ?thesis by (simp add: tinv_def)
qed

lemma at_nomem_eq:
  assumes "tinv h st" "vm_ok w st" "i = next_event st"
  shows "at_nomem False i w (st\<lparr>next_event := i + 1, co_refs := (co_refs st)(i := True)\<rparr>) = Some (LErr ''no memory'', st\<lparr>next_event := Suc i\<rparr>)"
    and "at_nomem True i w (st\<lparr>next_event := i + 1, co_refs := (co_refs st)(i := True), tpools := (tpools st)(i := True)\<rparr>) =
      Some (LErr ''no memory'', st\<lparr>next_event := Suc i\<rparr>)"
proof -
  have un: "(co_refs st)(i := False) = co_refs st" "(tpools st)(i := False) = tpools st"
    using unowned [OF assms(1) order_refl] assms(3) by (auto simp: fun_eq_iff)
  show "at_nomem False i w (st\<lparr>next_event := i + 1, co_refs := (co_refs st)(i := True)\<rparr>) = Some (LErr ''no memory'', st\<lparr>next_event := Suc i\<rparr>)"
    using assms(2) un by (cases w) (simp_all add: at_nomem_def unref_def vm_ok_def use_vm_def)
  show "at_nomem True i w (st\<lparr>next_event := i + 1, co_refs := (co_refs st)(i := True), tpools := (tpools st)(i := True)\<rparr>) =
      Some (LErr ''no memory'', st\<lparr>next_event := Suc i\<rparr>)"
    using assms(2) un by (cases w) (simp_all add: at_nomem_def unref_def destroy_pool_def cleanup_vm_def vm_ok_def use_vm_def)
qed

lemma timer_goes_left_upd [simp]:
  "timer_goes_left (st\<lparr>pending_timers := a\<rparr>) = timer_goes_left st" "timer_goes_left (st\<lparr>vms := b\<rparr>) = timer_goes_left st"
  "timer_goes_left (st\<lparr>tpools := c\<rparr>) = timer_goes_left st" "timer_goes_left (st\<lparr>co_refs := c\<rparr>) = timer_goes_left st"
  "timer_goes_left (st\<lparr>next_event := d\<rparr>) = timer_goes_left st" "timer_goes_left (st\<lparr>watcher := e\<rparr>) = timer_goes_left st"
  by (simp_all add: timer_goes_left_def event_key_def fun_eq_iff)

lemma start_timer_cases:
  assumes inv: "tinv h st" and vm: "vm_ok (t_vm env) st" and limit: "pending_timers st < max_pending_timers st"
  obtains (nomem) "start_timer env delay st = Some (LErr ''no memory'', st\<lparr>next_event := Suc (next_event st)\<rparr>)"
  | (started) t where
      "start_timer env delay st = Some (LRet [LNumber (num_of_int 1)],
         new_timer t \<lparr>te_lua = True, te_key = current_msec st + delay, te_premature = False, te_vm = t_vm env\<rparr> st)"
      "rbtree_insert (timer_goes_left st (current_msec st + delay)) (next_event st) (timer_tree st) = Some t"
proof (cases "t_mem env 0 \<and> t_mem env 1 \<and> (t_addr env \<longrightarrow> t_mem env 2)")
  case False
  then have "start_timer env delay st = Some (LErr ''no memory'', st\<lparr>next_event := Suc (next_event st)\<rparr>)"
    using at_nomem_eq [OF inv vm refl] by (auto simp: start_timer_def Let_def)
  then show ?thesis by (rule nomem)
next
  case True
  note i = tinvD [OF inv] and un = unowned [OF inv order_refl]
  obtain t where t: "rbtree_insert (timer_goes_left st (current_msec st + delay)) (next_event st) (timer_tree st) = Some t"
    using tree_insert [OF i(1) un(5)] by blast
  show ?thesis
    by (rule started [OF _ t]) (use True t in \<open>auto simp: start_timer_def add_timer_def new_timer_def bump_vm_def Let_def split: option.split\<close>)
qed


lemma start_timer_inv:
  assumes inv: "tinv h st" and vm: "vm_ok (t_vm env) st" and limit: "pending_timers st < max_pending_timers st" and P: "P delay"
  shows "\<exists>r st'. start_timer env delay st = Some (r, st') \<and> tinv h st' \<and> kept P st st'"
  using inv vm limit
proof (cases rule: start_timer_cases [where delay = delay])
  case nomem
  moreover have "tinv h (st\<lparr>next_event := Suc (next_event st)\<rparr>)" by (rule tinv_frame [OF inv]) simp_all
  moreover have "kept P st (st\<lparr>next_event := Suc (next_event st)\<rparr>)" by (simp add: kept_def events_from_frame)
  ultimately show ?thesis by blast
next
  case (started t)
  let ?ev = "\<lparr>te_lua = True, te_key = current_msec st + delay, te_premature = False, te_vm = t_vm env\<rparr>"
  note i = tinvD [OF inv] and un = unowned [OF inv order_refl]
  have "tree_ok (st\<lparr>timer_tree := t, tevents := (tevents st)(next_event st \<mapsto> ?ev)\<rparr>)"
    using tree_insert [OF i(1) un(5), of "timer_goes_left st (current_msec st + delay)"] started(2) by auto
  then have "tinv h (new_timer t ?ev st)" using vm limit by (intro new_timer_inv [OF inv]) simp_all
  moreover have "order_kept P st (new_timer t ?ev st)"
  proof (rule order_keptI)
    fix t0
    assume "short P" "timely t0 st"
    then have "timely t0 (st\<lparr>timer_tree := t, tevents := (tevents st)(next_event st \<mapsto> ?ev)\<rparr>)"
      using P i(3) started(2) by (intro timely_insert [OF i(1), of _ delay]) (auto simp: short_def ids_ok_def)
    then show "timely t0 (new_timer t ?ev st)" by (rule timely_frame [THEN iffD1, rotated 3]) (simp_all add: new_timer_def Let_def)
  qed (simp_all add: new_timer_def Let_def)
  then have "kept P st (new_timer t ?ev st)" using P by (simp add: kept_def events_from_def new_timer_def Let_def)
  ultimately show ?thesis using started(1) by blast
qed

lemma timer_at_inv:
  assumes inv: "tinv h st" and vm: "vm_ok (t_vm env) st" and P: "\<And>x. check_number rt d = Some x \<Longrightarrow> P (rt_ms rt x)"
  shows "\<exists>r st'. timer_at rt env n d f st = Some (r, st') \<and> tinv h st' \<and> kept P st st'" (is "?good (timer_at rt env n d f st)")
proof -
  have refused: "?good (Some (r, st))" for r using inv by simp
  have started: "?good (case use_vm (t_vm env) st1 of None \<Rightarrow> None | Some st \<Rightarrow> start_timer env delay st)"
    if limit: "pending_timers st < max_pending_timers st" and w: "make_watcher env st = Some st1" and d: "P delay" for delay st1
  proof -
    have "st1 = st \<or> st1 = st\<lparr>watcher := True\<rparr>" using w by (auto simp: make_watcher_def split: if_splits)
    then have 1: "tinv h st1" "kept P st st1" "vms st1 = vms st" "pending_timers st1 < max_pending_timers st1"
      using inv limit tinv_frame [OF inv, of "st\<lparr>watcher := True\<rparr>"] by (auto simp: kept_def events_from_frame)
    have v1: "vm_ok (t_vm env) st1" using vm vm_ok_frame [OF 1(3)] by simp
    show ?thesis using start_timer_inv [OF 1(1) v1 1(4), of P delay, OF d] use_vm_ok [OF v1] kept_trans [OF 1(2)] by fastforce
  qed
  show ?thesis
  proof (cases "check_number rt d")
    case None
    then show ?thesis using refused by (simp add: timer_at_def)
  next
    case (Some x)
    show ?thesis
    proof (cases "n < 2 \<or> \<not> f \<or> \<not> t_session env \<or> exiting st \<and> rt_ms rt x > 0 \<or> pending_timers st \<ge> max_pending_timers st \<or> make_watcher env st = None")
      case True
      then show ?thesis using Some refused by (auto simp: timer_at_def Let_def)
    next
      case False
      then obtain st1 where "make_watcher env st = Some st1" by blast
      moreover have "?good (case use_vm (t_vm env) st1 of None \<Rightarrow> None | Some st \<Rightarrow> start_timer env (rt_ms rt x) st)"
        by (rule started) (use False calculation P [OF Some] in auto)
      ultimately show ?thesis using False Some by (auto simp: timer_at_def Let_def)
    qed
  qed
qed

end
