(* ===== verification/Timer_Handle.thy ===== *)
theory Timer_Handle
  imports Timer_Step
begin

section \<open>The handler of a timer keeps the invariant\<close>

subsection \<open>Steps of the handler\<close>

text \<open>The event is taken out of the tree and freed: the handler holds the timer.\<close>

lemma detach_inv:
  assumes inv: "tinv h st" and e: "tevents st e = Some ev" "te_lua ev" and t: "rbtree_delete e (timer_tree st) = Some t"
  shows "tinv (h(e \<mapsto> te_vm ev)) (st\<lparr>timer_tree := t, tevents := (tevents st)(e := None), pending_timers := pending_timers st - 1\<rparr>)"
    (is "tinv ?h ?st")
proof -
  note i = tinvD [OF inv]
  have he: "h e = None" "tsessions st e = None" "e < next_event st" using i(3) e(1) by (auto simp: ids_ok_def)
  have "tree_ok (st\<lparr>timer_tree := t, tevents := (tevents st)(e := None)\<rparr>)" using tree_delete [OF i(1), of e] e(1) t by fastforce
  then have "tree_ok ?st" by (simp add: tree_ok_def)
  moreover have "counts_ok ?st"
    using i(2) is_lua_lose [OF i(1) e(1), of ?st] e(2) session_frame [of ?st st] by (simp add: counts_ok_def)
  moreover have "ids_ok ?h ?st" using i(3) he by (auto simp: ids_ok_def)
  moreover have "owner ?h ?st = owner h st" using e he by (auto simp: owner_def fun_eq_iff split: option.splits)
  then have "owners_ok ?h ?st" using i(4) session_frame [of ?st st] by (simp add: owners_ok_def vm_refs_def)
  ultimately show ?thesis by (simp add: tinv_def)
qed

lemma runs_finite: "counts_ok st \<Longrightarrow> finite {i. session_runs st i}"
  by (rule finite_subset [of _ "dom (tsessions st)"]) (auto simp: counts_ok_def session_runs_def split: option.splits)

text \<open>The handler gives the timer to its new session.\<close>

definition new_session :: "nat \<Rightarrow> tevent \<Rightarrow> tstate \<Rightarrow> tstate" where
  "new_session e ev st = st\<lparr>running_timers := running_timers st + 1, called := called st @ [(e, te_premature ev, sint (te_key ev - current_msec st))],
     tsessions := (tsessions st)(e \<mapsto> \<lparr>ts_premature = te_premature ev, ts_vm = te_vm ev, ts_left = False\<rparr>)\<rparr>"

lemma new_session_inv:
  assumes inv: "tinv (h(e \<mapsto> te_vm ev)) st" and h: "h e = None" and limit: "running_timers st < max_running_timers st"
  shows "tinv h (new_session e ev st)" (is "tinv h ?st")
proof -
  note i = tinvD [OF inv]
  have he: "tevents st e = None" "tsessions st e = None" "e < next_event st" using i(3) by (auto simp: ids_ok_def)
  have l: "is_lua ?st = is_lua st" by (simp add: is_lua_def new_session_def fun_eq_iff)
  have "tree_ok ?st" using i(1) by (simp add: tree_ok_def new_session_def)
  moreover have "{i. session_runs ?st i} = insert e {i. session_runs st i}" "e \<notin> {i. session_runs st i}"
    using he(2) by (auto simp: session_runs_def new_session_def split: if_splits)
  then have "counts_ok ?st"
    using i(2) l limit runs_finite [OF i(2)] by (simp add: counts_ok_def) (simp add: new_session_def)
  moreover have "ids_ok h ?st" using i(3) he h by (auto simp: ids_ok_def new_session_def)
  moreover have o: "owner h ?st = owner (h(e \<mapsto> te_vm ev)) st" using h he by (auto simp: owner_def new_session_def fun_eq_iff split: option.splits)
  have lo: "left_open ?st = left_open st" using he(2) by (auto simp: left_open_def new_session_def fun_eq_iff)
  have "owners_ok h ?st" by (rule owners_frame [OF i(4) o lo]) (simp_all add: new_session_def)
  ultimately show ?thesis by (simp add: tinv_def)
qed

text \<open>The end of a session puts the timer into the hands of its cleanup; \<open>k\<close> is one for a timer that is aborted.\<close>

definition ended_session :: "nat \<Rightarrow> nat \<Rightarrow> tstate \<Rightarrow> tstate" where
  "ended_session e k st = st\<lparr>running_timers := running_timers st - 1 - int k, aborted := aborted st + k, tsessions := (tsessions st)(e := None)\<rparr>"

lemma ended_session_inv:
  assumes inv: "tinv h st" and s: "tsessions st e = Some s" "\<not> ts_left s"
  shows "tinv (h(e \<mapsto> ts_vm s)) (ended_session e k st)" (is "tinv ?h ?st")
proof -
  note i = tinvD [OF inv]
  have he: "tevents st e = None" "h e = None" "e < next_event st" using i(3) s by (auto simp: ids_ok_def)
  have l: "is_lua ?st = is_lua st" by (simp add: is_lua_def ended_session_def fun_eq_iff)
  have t: "tree_ok ?st" using i(1) by (simp add: tree_ok_def ended_session_def)
  have "{i. session_runs ?st i} = {i. session_runs st i} - {e}" by (auto simp: session_runs_def ended_session_def)
  moreover have "card {i. session_runs st i} = Suc (card ({i. session_runs st i} - {e}))"
    using runs_finite [OF i(2)] s by (intro card.remove) (simp_all add: session_runs_def)
  ultimately have "counts_ok ?st" using i(2) l by (simp add: counts_ok_def) (simp add: ended_session_def)
  moreover have "ids_ok ?h ?st" using i(3) he by (auto simp: ids_ok_def ended_session_def)
  moreover have o: "owner ?h ?st = owner h st" using s he by (auto simp: owner_def ended_session_def fun_eq_iff split: option.splits)
  have lo: "left_open ?st = left_open st" using s by (auto simp: left_open_def ended_session_def fun_eq_iff)
  have "owners_ok ?h ?st" by (rule owners_frame [OF i(4) o lo]) (simp_all add: ended_session_def)
  ultimately show ?thesis using t by (simp add: tinv_def)
qed

text \<open>A session that is left open keeps its pool and its machine, but not its coroutine.\<close>

definition left_session :: "nat \<Rightarrow> tsession \<Rightarrow> tstate \<Rightarrow> tstate" where
  "left_session e s st = st\<lparr>running_timers := running_timers st - 1, co_refs := (co_refs st)(e := False), tsessions := (tsessions st)(e \<mapsto> s\<lparr>ts_left := True\<rparr>)\<rparr>"

lemma left_session_inv:
  assumes inv: "tinv h st" and s: "tsessions st e = Some s" "\<not> ts_left s"
  shows "tinv h (left_session e s st)" (is "tinv h ?st")
proof -
  note i = tinvD [OF inv]
  have l: "is_lua ?st = is_lua st" by (simp add: is_lua_def left_session_def fun_eq_iff)
  have t: "tree_ok ?st" using i(1) by (simp add: tree_ok_def left_session_def)
  have "{i. session_runs ?st i} = {i. session_runs st i} - {e}" by (auto simp: session_runs_def left_session_def)
  moreover have "card {i. session_runs st i} = Suc (card ({i. session_runs st i} - {e}))"
    using runs_finite [OF i(2)] s by (intro card.remove) (simp_all add: session_runs_def)
  ultimately have "counts_ok ?st" using i(2) l by (simp add: counts_ok_def) (simp add: left_session_def)
  moreover have d: "dom (tsessions ?st) = dom (tsessions st)" using s(1) by (auto simp: left_session_def)
  then have "ids_ok h ?st" using i(3) unfolding ids_ok_def d by (simp add: left_session_def)
  moreover have o: "owner h ?st = owner h st" using s(1) by (auto simp: owner_def left_session_def fun_eq_iff split: option.splits)
  have lo: "left_open ?st = (left_open st)(e := True)" by (auto simp: left_open_def left_session_def fun_eq_iff)
  have "vm_refs h ?st v = vm_refs h st v" for v by (simp add: vm_refs_def o) (simp add: left_session_def)
  then have "owners_ok h ?st" using i(4) by (simp add: owners_ok_def o lo) (simp add: left_session_def)
  ultimately show ?thesis using t by (simp add: tinv_def)
qed

text \<open>The timer is given up: its coroutine, its pool and its reference of the machine.\<close>

definition timer_released :: "nat \<Rightarrow> nat option \<Rightarrow> tstate \<Rightarrow> tstate" where
  "timer_released e w st = st\<lparr>co_refs := (co_refs st)(e := False), tpools := (tpools st)(e := False), vms := vms (drop_vm w st)\<rparr>"

lemma held_facts:
  assumes "tinv (h(e \<mapsto> w)) st"
  shows "tpools st e" "vm_ok w st" "owner (h(e \<mapsto> w)) st e = Some w" "tevents st e = None" "tsessions st e = None" "e < next_event st"
proof -
  note i = tinvD [OF assms]
  show o: "owner (h(e \<mapsto> w)) st e = Some w" by (simp add: owner_def)
  then show "tpools st e" using i(4) by (simp add: owners_ok_def)
  show "vm_ok w st" by (rule vm_ok_owner [OF i(4,3) o])
  show "tevents st e = None" "tsessions st e = None" "e < next_event st" using i(3) by (auto simp: ids_ok_def)
qed

lemma timer_released_inv:
  assumes inv: "tinv (h(e \<mapsto> w)) st" and h: "h e = None"
  shows "tinv h (timer_released e w st)" (is "tinv h ?st")
proof -
  note i = tinvD [OF inv] and he = held_facts [OF inv]
  have l: "is_lua ?st = is_lua st" by (simp add: is_lua_def timer_released_def fun_eq_iff)
  have f: "session_runs ?st = session_runs st" using session_frame [of ?st st] by (simp add: timer_released_def)
  have "tree_ok ?st" "counts_ok ?st" using i(1,2) l f by (simp_all add: tree_ok_def counts_ok_def) (simp_all add: timer_released_def)
  moreover have "ids_ok h ?st" using i(3) by (auto simp: ids_ok_def timer_released_def)
  moreover have "owner h ?st = (owner (h(e \<mapsto> w)) st)(e := None)" using h he(4,5) by (auto simp: owner_def timer_released_def fun_eq_iff split: option.splits)
  then have "owners_ok h ?st" by (rule release_owners [OF i(4,3) he(3)]) (simp_all add: timer_released_def)
  ultimately show ?thesis by (simp add: tinv_def)
qed

lemma handler_failed_eq:
  assumes "tinv (h(e \<mapsto> te_vm ev)) st"
  shows "handler_failed c None e ev st = Some (timer_released e (te_vm ev) st)"
  using held_facts(1,2) [OF assms]
  by (cases "te_vm ev") (auto simp: handler_failed_def unref_def destroy_pool_def timer_released_def cleanup_vm_def drop_vm_def vm_ok_def use_vm_def)

lemma close_fake_session_eq:
  assumes "tinv h st" "tsessions st e = Some s" "\<not> ts_left s"
  shows "close_fake_session e st = Some (timer_released e (ts_vm s) (ended_session e 0 st))"
proof -
  note h = held_facts(1,2) [OF ended_session_inv [OF assms, of 0]]
  show ?thesis using h assms(2)
    by (cases "ts_vm s")
      (auto simp: close_fake_session_def session_cleanup_def unref_def destroy_pool_def timer_released_def ended_session_def cleanup_vm_def drop_vm_def vm_ok_def use_vm_def)
qed

lemma abort_session_eq:
  assumes "tinv h st" "tsessions st e = Some s" "\<not> ts_left s"
  shows "finish_run e Aborts st = Some (timer_released e (ts_vm s) (ended_session e 1 st))"
proof -
  note h = held_facts(1,2) [OF ended_session_inv [OF assms, of 1]]
  show ?thesis using h assms(2)
    by (cases "ts_vm s")
      (auto simp: finish_run_def close_fake_session_def session_cleanup_def unref_def destroy_pool_def timer_released_def ended_session_def cleanup_vm_def drop_vm_def vm_ok_def use_vm_def)
qed

lemma left_session_eq:
  assumes "tinv h st" "tsessions st e = Some s" "\<not> ts_left s"
  shows "finish_run e Leaves st = Some (left_session e s st)"
proof -
  have "vm_ok (ts_vm s) (ended_session e 0 st)" by (rule held_facts(2) [OF ended_session_inv [OF assms]])
  then have "vm_ok (ts_vm s) st" by (auto simp: vm_ok_def ended_session_def split: option.splits)
  then show ?thesis using assms(2)
    by (cases "ts_vm s") (auto simp: finish_run_def session_cleanup_def unref_def left_session_def vm_ok_def use_vm_def)
qed

text \<open>What the end of a run leaves alone.\<close>

lemma finish_run_inv:
  assumes inv: "tinv h st" and s: "tsessions st e = Some s" "\<not> ts_left s"
  obtains st' where "finish_run e x st = Some st'" "tinv h st'" "tevents st' = tevents st" "timer_tree st' = timer_tree st" "next_event st' = next_event st"
    "vm_holders st' = vm_holders st" "max_running_timers st' = max_running_timers st" "max_pending_timers st' = max_pending_timers st"
    "current_msec st' = current_msec st" "called st' = called st" "exiting st' = exiting st" "aborted st \<le> aborted st'" "\<And>i. i \<noteq> e \<Longrightarrow> tsessions st' i = tsessions st i"
proof -
  note found = that
  have h: "h e = None" using tinvD(3) [OF inv] s by (auto simp: ids_ok_def)
  have ended: ?thesis if fin: "finish_run e x st = Some (timer_released e (ts_vm s) (ended_session e k st))" for k
    using timer_released_inv [OF ended_session_inv [OF inv s, of k] h] by (intro found [OF fin]) (simp_all add: timer_released_def ended_session_def)
  show ?thesis
  proof (cases x)
    case Waits
    then show ?thesis using inv found [of st] by (simp add: finish_run_def)
  next
    case Returns
    then show ?thesis using ended [of 0] close_fake_session_eq [OF inv s] by (simp add: finish_run_def)
  next
    case Aborts
    then show ?thesis using ended [of 1] abort_session_eq [OF inv s] by simp
  next
    case Leaves
    then show ?thesis using found [OF _ left_session_inv [OF inv s]] left_session_eq [OF inv s] by (simp add: left_session_def)
  qed
qed

subsection \<open>The Lua function\<close>

text \<open>A machine that is held by a client session or by the session of a timer; \<open>timer.at\<close> does not take it away.\<close>

definition vm_held :: "nat option \<Rightarrow> tstate \<Rightarrow> bool" where
  "vm_held w st \<longleftrightarrow> (case w of None \<Rightarrow> True | Some v \<Rightarrow> vm_holders st v \<or> (\<exists>i s. tsessions st i = Some s \<and> ts_vm s = Some v))"

lemma vm_held_kept: "vm_held w st \<Longrightarrow> kept P st st' \<Longrightarrow> vm_held w st'"
  by (auto simp: vm_held_def kept_def split: option.splits)

lemma vm_held_ok:
  assumes inv: "tinv h st" and w: "vm_held w st"
  shows "vm_ok w st"
proof (cases w)
  case None
  then show ?thesis by (simp add: vm_ok_def)
next
  case (Some v)
  note i = tinvD [OF inv]
  consider "vm_holders st v" | j s where "tsessions st j = Some s" "ts_vm s = Some v" using w Some by (auto simp: vm_held_def)
  then show ?thesis
  proof cases
    case 1
    then show ?thesis using i(4) Some by (simp add: owners_ok_def vm_refs_def vm_ok_def)
  next
    case (2 j s)
    have "owner h st j = Some w" using i(3) 2 Some by (auto simp: ids_ok_def owner_def split: option.splits)
    then show ?thesis by (rule vm_ok_owner [OF i(4,3)])
  qed
qed

text \<open>The delays that a Lua function passes to \<open>timer.at\<close>.\<close>

definition delays :: "lua_rt \<Rightarrow> (64 word \<Rightarrow> bool) \<Rightarrow> at_call list \<Rightarrow> bool" where
  "delays rt P as \<longleftrightarrow> (\<forall>a \<in> set as. \<forall>x. check_number rt (a_delay a) = Some x \<longrightarrow> P (rt_ms rt x))"

lemma run_calls_inv:
  assumes "tinv h st" "vm_held w st" "delays rt P as"
  shows "\<exists>st'. run_calls rt w as st = Some st' \<and> tinv h st' \<and> kept P st st'"
  using assms
proof (induction as arbitrary: st)
  case (Cons a as)
  let ?env = "(a_env a)\<lparr>t_session := True, t_vm := w\<rparr>"
  obtain r st1 where 1: "timer_at rt ?env (a_nargs a) (a_delay a) (a_function a) st = Some (r, st1)" "tinv h st1" "kept P st st1"
    using timer_at_inv [OF Cons.prems(1), of ?env rt "a_delay a" P] vm_held_ok [OF Cons.prems(1,2)] Cons.prems(3) by (fastforce simp: delays_def)
  obtain st2 where "run_calls rt w as st1 = Some st2" "tinv h st2" "kept P st1 st2"
    using Cons.IH [OF 1(2) vm_held_kept [OF Cons.prems(2) 1(3)]] Cons.prems(3) by (auto simp: delays_def)
  then show ?case using 1(1) kept_trans [OF 1(3)] by auto
qed simp

subsection \<open>The handler\<close>

text \<open>
  The two allocations that must not fail alone: the log of the fake connection, and the cleanup of the session after the one of the machine.
\<close>

definition henv_fine :: "henv \<Rightarrow> bool" where
  "henv_fine env \<longleftrightarrow> (h_conn env \<longrightarrow> h_log env) \<and> (h_pcln env \<longrightarrow> h_cln env)"

text \<open>What the handler of a timer leaves alone; \<open>began\<close> tells that the Lua function has been called.\<close>

definition handled :: "(64 word \<Rightarrow> bool) \<Rightarrow> nat \<Rightarrow> tevent \<Rightarrow> bool \<Rightarrow> tstate \<Rightarrow> tstate \<Rightarrow> bool" where
  "handled P e ev began st st' \<longleftrightarrow> vm_holders st' = vm_holders st \<and> max_running_timers st' = max_running_timers st \<and>
     max_pending_timers st' = max_pending_timers st \<and> current_msec st' = current_msec st \<and> exiting st' = exiting st \<and> aborted st \<le> aborted st' \<and>
     (\<forall>i < next_event st. tevents st' i = ((tevents st)(e := None)) i) \<and> events_from P st st' \<and>
     (\<forall>i. i \<noteq> e \<longrightarrow> tsessions st' i = tsessions st i) \<and> called st' = called st @ (if began then [(e, te_premature ev, sint (te_key ev - current_msec st))] else [])"

text \<open>The conditions under which the handler gets to the Lua function.\<close>

definition begins :: "henv \<Rightarrow> tevent \<Rightarrow> tstate \<Rightarrow> bool" where
  "begins env ev st \<longleftrightarrow> running_timers st < max_running_timers st \<and> h_conn env \<and> h_session env \<and> h_ctx env \<and> (te_vm ev \<noteq> None \<longrightarrow> h_pcln env) \<and> h_cln env"


text \<open>The state after the event has been taken out, which the handler starts with.\<close>

definition taken_out :: "nat \<Rightarrow> nat rbt \<Rightarrow> tstate \<Rightarrow> tstate" where
  "taken_out e t st = st\<lparr>timer_tree := t, tevents := (tevents st)(e := None), pending_timers := pending_timers st - 1\<rparr>"

lemma taken_out_from:
  assumes "tree_ok st" "tevents st e \<noteq> None" "rbtree_delete e (timer_tree st) = Some t"
  shows "events_from P st (taken_out e t st)"
proof -
  have "inorder t = filter (\<lambda>x. x \<noteq> e) (inorder (timer_tree st))" using tree_delete [OF assms(1,2)] assms(3) by auto
  then have "timely t0 st \<Longrightarrow> timely t0 (st\<lparr>timer_tree := t, tevents := (tevents st)(e := None)\<rparr>)" for t0 by (rule timely_delete [rotated])
  moreover have "timely t0 (taken_out e t st) = timely t0 (st\<lparr>timer_tree := t, tevents := (tevents st)(e := None)\<rparr>)" for t0
    by (rule timely_frame) (simp_all add: taken_out_def)
  ultimately have "order_kept P st (taken_out e t st)" by (intro order_keptI) (simp_all add: taken_out_def)
  then show ?thesis by (auto simp: events_from_def taken_out_def split: if_splits)
qed

lemma handled_failed:
  assumes "tinv (h(e \<mapsto> te_vm ev)) (taken_out e t st)" "h e = None" "events_from P st (taken_out e t st)"
  shows "\<exists>st'. handler_failed c None e ev (taken_out e t st) = Some st' \<and> tinv h st' \<and> handled P e ev False st st'"
proof -
  let ?st = "timer_released e (te_vm ev) (taken_out e t st)"
  have "events_from P (taken_out e t st) ?st" by (rule events_from_frame) (simp_all add: timer_released_def)
  then have "events_from P st ?st" by (rule events_from_trans [OF assms(3)]) (simp add: taken_out_def)
  then have "handled P e ev False st ?st" by (simp add: handled_def timer_released_def taken_out_def)
  then show ?thesis using handler_failed_eq [OF assms(1)] timer_released_inv [OF assms(1,2)] by simp
qed

lemma handled_began:
  assumes inv: "tinv (h(e \<mapsto> te_vm ev)) (taken_out e t st)" and h: "h e = None" and limit: "running_timers st < max_running_timers st"
    and out: "events_from P st (taken_out e t st)" and d: "delays rt P (calls lr)"
  shows "\<exists>st'. (case run_calls rt (te_vm ev) (calls lr) (new_session e ev (taken_out e t st)) of None \<Rightarrow> None
      | Some st \<Rightarrow> finish_run e (run_end lr) st) = Some st' \<and> tinv h st' \<and> handled P e ev True st st'"
proof -
  let ?st1 = "new_session e ev (taken_out e t st)" and ?s = "\<lparr>ts_premature = te_premature ev, ts_vm = te_vm ev, ts_left = False\<rparr>"
  have i1: "tinv h ?st1" using limit by (intro new_session_inv [OF inv h]) (simp add: taken_out_def)
  have s1: "tsessions ?st1 e = Some ?s" by (simp add: new_session_def)
  then have "vm_held (te_vm ev) ?st1" unfolding vm_held_def by (cases "te_vm ev") (simp_all, use s1 in force)
  then obtain st2 where 2: "run_calls rt (te_vm ev) (calls lr) ?st1 = Some st2" "tinv h st2" "kept P ?st1 st2"
    using run_calls_inv [OF i1 _ d] by blast
  have f1: "events_from P st ?st1"
    by (rule events_from_trans [OF out events_from_frame]) (simp_all add: new_session_def taken_out_def)
  then have f2: "events_from P st st2" by (rule events_from_trans) (use 2(3) in \<open>simp_all add: kept_def new_session_def taken_out_def\<close>)
  have k: "handled P e ev True st st2" using 2(3) f2 by (auto simp: kept_def handled_def new_session_def taken_out_def)
  have s2: "tsessions st2 e = Some ?s" using 2(3) s1 by (simp add: kept_def)
  obtain st3 where 3: "finish_run e (run_end lr) st2 = Some st3" "tinv h st3" "tevents st3 = tevents st2" "timer_tree st3 = timer_tree st2" "next_event st3 = next_event st2"
    "vm_holders st3 = vm_holders st2" "max_running_timers st3 = max_running_timers st2" "max_pending_timers st3 = max_pending_timers st2"
    "current_msec st3 = current_msec st2" "called st3 = called st2" "exiting st3 = exiting st2" "aborted st2 \<le> aborted st3" "\<And>i. i \<noteq> e \<Longrightarrow> tsessions st3 i = tsessions st2 i"
    by (rule finish_run_inv [OF 2(2) s2, of "run_end lr"]) (simp, blast)
  have "events_from P st2 st3" by (rule events_from_frame) (simp_all add: 3)
  then have "events_from P st st3" by (rule events_from_trans [OF f2]) (use k in \<open>simp add: handled_def\<close>)
  then have "handled P e ev True st st3" using k 3(3-13) by (simp add: handled_def)
  then show ?thesis using 2(1) 3(1,2) by simp
qed

lemma timer_handler_inv:
  assumes inv: "tinv h st" and e: "tevents st e = Some ev0" "te_lua ev0" and t: "rbtree_delete e (timer_tree st) = Some t"
    and fine: "henv_fine env" and ev: "te_vm ev = te_vm ev0" and d: "delays rt P (calls lr)"
  shows "\<exists>st'. timer_handler rt env lr e (st\<lparr>timer_tree := t, tevents := (tevents st)(e \<mapsto> ev)\<rparr>) = Some st' \<and> tinv h st' \<and>
    handled P e ev (begins env ev st) st st'"
proof -
  let ?st = "st\<lparr>timer_tree := t, tevents := (tevents st)(e \<mapsto> ev)\<rparr>"
  let ?out = "taken_out e t st"
  have i0: "tinv (h(e \<mapsto> te_vm ev)) ?out" unfolding taken_out_def ev by (rule detach_inv [OF inv e t])
  have out: "events_from P st ?out" using e(1) by (intro taken_out_from [OF tinvD(1) [OF inv] _ t]) simp
  have h: "h e = None" using tinvD(3) [OF inv] e(1) by (auto simp: ids_ok_def)
  have upd: "?st\<lparr>tevents := (tevents ?st)(e := None), pending_timers := pending_timers ?st - 1\<rparr> = ?out" unfolding taken_out_def by simp
  have vm: "use_vm (te_vm ev) ?out = Some ?out" using held_facts(2) [OF i0] by simp
  have same: "running_timers ?out = running_timers st" "max_running_timers ?out = max_running_timers st" by (simp_all add: taken_out_def)
  show ?thesis
  proof (cases "begins env ev st")
    case True
    then have "timer_handler rt env lr e ?st = (case run_calls rt (te_vm ev) (calls lr) (new_session e ev ?out) of None \<Rightarrow> None
        | Some st \<Rightarrow> finish_run e (run_end lr) st)"
      using upd vm same fine
      by (auto simp: timer_handler_def begins_def henv_fine_def create_fake_connection_def new_session_def Let_def)
    then show ?thesis using handled_began [OF i0 h _ out d] True by (simp add: begins_def)
  next
    case False
    have "\<exists>c. timer_handler rt env lr e ?st = handler_failed c None e ev ?out"
      using upd same fine False
      by (auto simp: timer_handler_def begins_def henv_fine_def create_fake_connection_def Let_def)
    then show ?thesis using handled_failed [OF i0 h out] False by auto
  qed
qed

end
