(* ===== verification/Timer_Run.thy ===== *)
theory Timer_Run
  imports Timer_Handle
begin

section \<open>A worker keeps the invariant of its timers\<close>

abbreviation worker_inv :: "tstate \<Rightarrow> bool" where
  "worker_inv st \<equiv> tinv Map.empty st"

subsection \<open>Expiry\<close>

lemma tevents_upd_same: "tevents st e = Some ev \<Longrightarrow> (tevents st)(e \<mapsto> ev) = tevents st"
  by (auto simp: fun_eq_iff)

lemma expire_lua_inv:
  assumes inv: "tinv h st" and e: "tevents st e = Some ev" "te_lua ev" and fine: "henv_fine (fst (hs e))" "delays rt P (calls (snd (hs e)))"
  shows "\<exists>st'. expire_event rt hs e st = Some st' \<and> tinv h st' \<and> handled P e ev (begins (fst (hs e)) ev st) st st'"
proof -
  obtain t where t: "rbtree_delete e (timer_tree st) = Some t" using tree_delete [OF tinvD(1) [OF inv], of e] e(1) by auto
  have same: "st\<lparr>timer_tree := t, tevents := (tevents st)(e \<mapsto> ev)\<rparr> = st\<lparr>timer_tree := t\<rparr>" using tevents_upd_same [OF e(1)] by simp
  have "expire_event rt hs e st = timer_handler rt (fst (hs e)) (snd (hs e)) e (st\<lparr>timer_tree := t\<rparr>)"
    using t e by (simp add: expire_event_def del_timer_def)
  then show ?thesis using timer_handler_inv [OF inv e t fine(1) refl fine(2), unfolded same] by simp
qed

text \<open>An event of another part of nginx.\<close>

lemma drop_event_inv:
  assumes inv: "tinv h st" and e: "tevents st e = Some ev" "\<not> te_lua ev"
  shows "\<exists>st'. map_option (\<lambda>st. st\<lparr>tevents := (tevents st)(e := None)\<rparr>) (del_timer e st) = Some st' \<and> tinv h st' \<and> handled P e ev False st st'"
proof -
  note i = tinvD [OF inv]
  obtain t where t: "rbtree_delete e (timer_tree st) = Some t" "tree_ok (st\<lparr>timer_tree := t, tevents := (tevents st)(e := None)\<rparr>)" (is "tree_ok ?st")
    using tree_delete [OF i(1), of e] e(1) by auto
  have "is_lua ?st = is_lua st" "owner h ?st = owner h st"
    using e i(3) by (auto simp: is_lua_def owner_def ids_ok_def fun_eq_iff split: option.splits)
  moreover have "ids_ok h ?st" using i(3) by (auto simp: ids_ok_def)
  ultimately have "tinv h ?st" using i t(2) session_frame [of ?st st] by (simp add: tinv_def counts_ok_def owners_ok_def vm_refs_def)
  moreover have "events_from P (taken_out e t st) ?st" by (rule events_from_frame) (simp_all add: taken_out_def)
  then have "events_from P st ?st" using e(1) by (intro events_from_trans [OF taken_out_from [OF i(1) _ t(1)]]) (simp_all add: taken_out_def)
  then have "handled P e ev False st ?st" by (auto simp: handled_def)
  ultimately show ?thesis using t(1) by (simp add: del_timer_def)
qed

lemma expire_event_inv:
  assumes inv: "tinv h st" and e: "tevents st e = Some ev" and fine: "henv_fine (fst (hs e))" "delays rt P (calls (snd (hs e)))"
  shows "\<exists>st'. expire_event rt hs e st = Some st' \<and> tinv h st' \<and> handled P e ev (te_lua ev \<and> begins (fst (hs e)) ev st) st st'"
proof (cases "te_lua ev")
  case True
  then show ?thesis using expire_lua_inv [of h st e ev hs rt P, OF inv e True fine] by simp
next
  case False
  have "expire_event rt hs e st = map_option (\<lambda>st. st\<lparr>tevents := (tevents st)(e := None)\<rparr>) (del_timer e st)"
    using e False by (auto simp: expire_event_def del_timer_def split: option.splits)
  then show ?thesis using drop_event_inv [OF inv e False] False by simp
qed

lemma first_event_in:
  assumes "tree_ok st" "first_event st = Some e"
  shows "tevents st e \<noteq> None" "\<exists>xs. inorder (timer_tree st) = e # xs"
proof -
  have "timer_tree st \<noteq> Sentinel" using assms(2) by (auto simp: first_event_def)
  from rbtree_min_spine [OF this, of "[]"] obtain c y r q
    where m: "rbtree_min (timer_tree st) [] = (Nd c Sentinel y r, q)" "plug (Nd c Sentinel y r) q = plug (timer_tree st) []" "before q = before []" by blast
  have "e = y" using assms(2) m(1) by (simp add: first_event_def)
  moreover have "inorder (timer_tree st) = y # inorder r @ after q" using m(2,3) inorder_plug [of "Nd c Sentinel y r" q] by simp
  ultimately show "\<exists>xs. inorder (timer_tree st) = e # xs" by simp
  then have "e \<in> set (inorder (timer_tree st))" by auto
  then show "tevents st e \<noteq> None" using assms(1) by (auto simp: tree_ok_def)
qed

lemma first_event_None: "tree_ok st \<Longrightarrow> first_event st = None \<Longrightarrow> dom (tevents st) = {}"
proof -
  assume t: "tree_ok st" "first_event st = None"
  have "timer_tree st = Sentinel"
  proof (rule ccontr)
    assume "timer_tree st \<noteq> Sentinel"
    from rbtree_min_spine [OF this, of "[]"] show False using t(2) by (auto simp: first_event_def)
  qed
  then show ?thesis using t(1) by (simp add: tree_ok_def)
qed

subsection \<open>The calls of the Lua functions\<close>

text \<open>No timer is called twice, none before its time unless the worker exits.\<close>

definition call_ok :: "tstate \<Rightarrow> nat \<times> bool \<times> int \<Rightarrow> bool" where
  "call_ok st = (\<lambda>(i, p, d). i < next_event st \<and> tevents st i = None \<and> (p \<longrightarrow> exiting st) \<and> (p \<or> d \<le> 0))"

definition called_ok :: "tstate \<Rightarrow> bool" where
  "called_ok st \<longleftrightarrow> distinct (map fst (called st)) \<and> list_all (call_ok st) (called st) \<and>
     (\<forall>i ev. tevents st i = Some ev \<longrightarrow> i < next_event st \<and> \<not> te_premature ev)"

lemma called_ok_more:
  assumes r: "called_ok st" and f: "events_from P st st'" "exiting st \<Longrightarrow> exiting st'" "ids_ok h st'"
    and rn: "called st' = called st @ new" "list_all (call_ok st') new" "distinct (map fst new)" "fst ` set new \<subseteq> dom (tevents st)"
  shows "called_ok st'"
proof -
  have call: "call_ok st' c" if "call_ok st c" for c
  proof -
    obtain i p d where c: "c = (i, p, d)" by (cases c) auto
    have "tevents st' i = None" using that c by (intro events_from_None [OF f(1)]) (auto simp: call_ok_def)
    then show ?thesis using that f(1,2) c by (auto simp: call_ok_def events_from_def)
  qed
  have "list_all (call_ok st') (called st')" using r rn(1,2) call by (auto simp: called_ok_def list_all_iff)
  moreover have "fst ` set (called st) \<inter> dom (tevents st) = {}" using r by (auto simp: called_ok_def list_all_iff call_ok_def)
  then have "fst ` set (called st) \<inter> fst ` set new = {}" using rn(4) by blast
  then have "distinct (map fst (called st'))" using r rn(1,3) by (simp add: called_ok_def)
  moreover have "i < next_event st' \<and> \<not> te_premature ev" if "tevents st' i = Some ev" for i ev
  proof
    show "i < next_event st'" using that f(3) by (auto simp: ids_ok_def)
    show "\<not> te_premature ev" using events_fromD [OF f(1) that] r by (auto simp: called_ok_def)
  qed
  ultimately show ?thesis by (simp add: called_ok_def)
qed

lemma called_ok_kept: "called_ok st \<Longrightarrow> kept P st st' \<Longrightarrow> ids_ok h st' \<Longrightarrow> called_ok st'"
  by (rule called_ok_more [where P = P and new = "[]"]) (auto simp: kept_def)

lemma called_ok_handled:
  assumes r: "called_ok st" and h: "handled P e ev b st st'" "ids_ok h' st'" and e: "tevents st e = Some ev0"
    and b: "b \<Longrightarrow> te_premature ev \<and> exiting st \<or> \<not> te_premature ev \<and> sint (te_key ev - current_msec st) \<le> 0"
  shows "called_ok st'"
proof (rule called_ok_more [OF r])
  show "events_from P st st'" "exiting st \<Longrightarrow> exiting st'" "ids_ok h' st'" using h by (simp_all add: handled_def)
  show "called st' = called st @ (if b then [(e, te_premature ev, sint (te_key ev - current_msec st))] else [])" using h(1) by (simp add: handled_def)
  have "e < next_event st" using r e by (auto simp: called_ok_def)
  then have "e < next_event st'" "tevents st' e = None" using h(1) by (auto simp: handled_def events_from_def)
  then show "list_all (call_ok st') (if b then [(e, te_premature ev, sint (te_key ev - current_msec st))] else [])"
    using b h(1) by (auto simp: call_ok_def handled_def)
qed (use e in auto)


subsection \<open>The loop of expiry\<close>

definition worker_ok :: "tstate \<Rightarrow> bool" where
  "worker_ok st \<longleftrightarrow> worker_inv st \<and> called_ok st"

lemma worker_okD:
  assumes "worker_ok st"
  shows "worker_inv st" "called_ok st" "tree_ok st" "ids_ok Map.empty st"
  using assms by (simp_all add: worker_ok_def tinv_def)

text \<open>The delays in all runs of Lua functions.\<close>

abbreviation runs_delays :: "lua_rt \<Rightarrow> (64 word \<Rightarrow> bool) \<Rightarrow> (nat \<Rightarrow> henv \<times> lua_run) \<Rightarrow> bool" where
  "runs_delays rt P hs \<equiv> \<forall>i. delays rt P (calls (snd (hs i)))"

abbreviation runs_fine :: "(nat \<Rightarrow> henv \<times> lua_run) \<Rightarrow> bool" where
  "runs_fine hs \<equiv> \<forall>i. henv_fine (fst (hs i))"

lemma delays_True [simp]: "delays rt (\<lambda>_. True) as"
  by (simp add: delays_def)

lemma due_event:
  assumes "tevents st e = Some ev" "event_due st e"
  shows "sint (te_key ev - current_msec st) \<le> 0"
  using assms by (simp add: event_due_def event_key_def)

lemma expire_event_ok:
  assumes ok: "worker_ok st" and e: "tevents st e = Some ev" "event_due st e" and fine: "henv_fine (fst (hs e))" "delays rt P (calls (snd (hs e)))"
  shows "\<exists>st'. expire_event rt hs e st = Some st' \<and> worker_ok st' \<and> handled P e ev (te_lua ev \<and> begins (fst (hs e)) ev st) st st'"
proof -
  note w = worker_okD [OF ok]
  obtain st' where 1: "expire_event rt hs e st = Some st'" "worker_inv st'" "handled P e ev (te_lua ev \<and> begins (fst (hs e)) ev st) st st'"
    using expire_event_inv [of Map.empty st e ev hs rt P, OF w(1) e(1) fine] by blast
  have "\<not> te_premature ev" using w(2) e(1) by (auto simp: called_ok_def)
  then have "called_ok st'" using due_event [OF e] by (intro called_ok_handled [OF w(2) 1(3) tinvD(3) [OF 1(2)] e(1)]) simp
  then show ?thesis using 1 by (auto simp: worker_ok_def)
qed

lemma handled_order: "handled P e ev b st st' \<Longrightarrow> order_kept P st st'"
  by (simp add: handled_def events_from_def)

lemma expire_timers_ok:
  assumes "worker_ok st" "runs_fine hs" "runs_delays rt P hs"
  shows "\<exists>b st'. expire_timers rt hs n st = Some (b, st') \<and> worker_ok st' \<and> order_kept P st st'"
  using assms(1)
proof (induction n arbitrary: st)
  case (Suc n)
  show ?case
  proof (cases "first_event st")
    case None
    then have "expire_timers rt hs (Suc n) st = Some (True, st)" by simp
    then show ?thesis using Suc.prems by blast
  next
    case (Some e)
    then obtain ev where e: "tevents st e = Some ev" using first_event_in [OF worker_okD(3) [OF Suc.prems]] by blast
    show ?thesis
    proof (cases "event_due st e")
      case True
      from expire_event_ok [of st e ev hs rt P, OF Suc.prems e True] assms(2,3)
      obtain st1 where 1: "expire_event rt hs e st = Some st1" "worker_ok st1" "order_kept P st st1" by (auto dest: handled_order)
      obtain b st' where "expire_timers rt hs n st1 = Some (b, st')" "worker_ok st'" "order_kept P st1 st'" using Suc.IH [OF 1(2)] by blast
      then show ?thesis using Some True 1(1) order_kept_trans [OF 1(3)] by auto
    next
      case False
      then have "expire_timers rt hs (Suc n) st = Some (True, st)" using Some by simp
      then show ?thesis using Suc.prems by blast
    qed
  qed
qed (rule exI [of _ False], simp)

subsection \<open>The end of the worker\<close>

lemma call_premature_ok:
  assumes ok: "worker_ok st" "exiting st" and e: "tevents st e = Some ev" "te_lua ev" and fine: "henv_fine (fst (hs e))" "delays rt P (calls (snd (hs e)))"
  shows "\<exists>st'. (\<forall>es. call_prematurely rt hs (e # es) st = call_prematurely rt hs es st') \<and> worker_ok st' \<and>
    handled P e (ev\<lparr>te_premature := True\<rparr>) (begins (fst (hs e)) ev st) st st'"
proof -
  note w = worker_okD [OF ok(1)]
  let ?ev = "ev\<lparr>te_premature := True\<rparr>"
  obtain t where t: "rbtree_delete e (timer_tree st) = Some t" using tree_delete [OF w(3), of e] e(1) by auto
  obtain st' where 1: "timer_handler rt (fst (hs e)) (snd (hs e)) e (st\<lparr>timer_tree := t, tevents := (tevents st)(e \<mapsto> ?ev)\<rparr>) = Some st'" "worker_inv st'"
    "handled P e ?ev (begins (fst (hs e)) ?ev st) st st'"
    using timer_handler_inv [OF w(1) e t fine(1), of ?ev rt P "snd (hs e)"] fine(2) by auto
  have "call_prematurely rt hs (e # es) st = call_prematurely rt hs es st'" for es
    using 1(1) t e(1) by (simp add: del_timer_def)
  moreover have "called_ok st'" using ok(2) by (intro called_ok_handled [OF w(2) 1(3) tinvD(3) [OF 1(2)] e(1)]) simp
  ultimately show ?thesis using 1 by (auto simp: worker_ok_def begins_def)
qed


text \<open>The calls of the events in turn; those that are still to be called stay pending.\<close>

lemma call_prematurely_ok:
  assumes "worker_ok st" "exiting st" "runs_fine hs" "distinct es" "\<And>e. e \<in> set es \<Longrightarrow> is_lua st e" "runs_delays rt P hs"
  shows "\<exists>st'. call_prematurely rt hs es st = Some st' \<and> worker_ok st' \<and> exiting st' \<and> order_kept P st st' \<and>
    (\<forall>i < next_event st. tevents st' i = (if i \<in> set es then None else tevents st i))"
  using assms
proof (induction es arbitrary: st)
  case (Cons e es)
  obtain ev where e: "tevents st e = Some ev" "te_lua ev" using Cons.prems(5) [of e] by (auto simp: is_lua_def split: option.splits)
  obtain st1 where 1: "\<And>es. call_prematurely rt hs (e # es) st = call_prematurely rt hs es st1" "worker_ok st1"
    "handled P e (ev\<lparr>te_premature := True\<rparr>) (begins (fst (hs e)) ev st) st st1"
    using call_premature_ok [OF Cons.prems(1,2) e, of hs rt P] Cons.prems(3,6) by blast
  have ev1: "tevents st1 i = ((tevents st)(e := None)) i" "i < next_event st1" if "i < next_event st" for i
    using 1(3) that by (auto simp: handled_def events_from_def)
  have below: "i < next_event st" if "is_lua st i" for i
    using that worker_okD(4) [OF Cons.prems(1)] by (auto simp: is_lua_def ids_ok_def split: option.splits)
  have l1: "is_lua st1 i" if "i \<in> set es" for i
  proof -
    have i: "is_lua st i" "i \<noteq> e" using that Cons.prems(4,5) by auto
    then show ?thesis using ev1 [OF below [OF i(1)]] by (simp add: is_lua_def)
  qed
  have "exiting st1" using 1(3) Cons.prems(2) by (simp add: handled_def)
  then obtain st' where 2: "call_prematurely rt hs es st1 = Some st'" "worker_ok st'" "exiting st'" "order_kept P st1 st'"
    "\<And>i. i < next_event st1 \<Longrightarrow> tevents st' i = (if i \<in> set es then None else tevents st1 i)"
    using Cons.IH [OF 1(2) _ Cons.prems(3) _ l1 Cons.prems(6)] Cons.prems(4) by auto
  have "tevents st' i = (if i \<in> set (e # es) then None else tevents st i)" if "i < next_event st" for i
    using 2(5) [OF ev1(2) [OF that]] ev1(1) [OF that] by auto
  then show ?case using 1(1) 2(1-3) order_kept_trans [OF handled_order [OF 1(3)] 2(4)] by auto
qed simp

lemma pending_list:
  assumes "worker_inv st"
  shows "int (length (filter (is_lua st) (inorder (timer_tree st)))) = pending_timers st" "distinct (inorder (timer_tree st))"
    "set (filter (is_lua st) (inorder (timer_tree st))) = {e. is_lua st e}"
proof -
  note i = tinvD [OF assms]
  show d: "distinct (inorder (timer_tree st))" using i(1) by (simp add: tree_ok_def)
  show s: "set (filter (is_lua st) (inorder (timer_tree st))) = {e. is_lua st e}"
    using i(1) by (auto simp: tree_ok_def is_lua_def split: option.splits)
  have "length (filter (is_lua st) (inorder (timer_tree st))) = card {e. is_lua st e}" using distinct_card [of "filter (is_lua st) (inorder (timer_tree st))"] d s by simp
  then show "int (length (filter (is_lua st) (inorder (timer_tree st)))) = pending_timers st" using i(2) by (simp add: counts_ok_def)
qed

text \<open>The handler of the watcher finds every pending timer.\<close>

lemma abort_eq:
  assumes "worker_inv st"
  shows "abort_pending_timers rt hs closing mem st =
    (if closing \<and> mem then call_prematurely rt hs (filter (is_lua st) (inorder (timer_tree st))) st else Some st)"
proof -
  note p = pending_list [OF assms]
  have "nat (pending_timers st) = length (filter (is_lua st) (inorder (timer_tree st)))" using p(1) by simp
  then have "collect (is_lua st) (nat (pending_timers st)) Null (Some (timer_tree st, [])) [] = Some (filter (is_lua st) (inorder (timer_tree st)))"
    using collect_inorder [OF p(2)] by simp
  moreover have "filter (is_lua st) (inorder (timer_tree st)) = []" if "pending_timers st = 0" using p(1) that by simp
  ultimately show ?thesis by (auto simp: abort_pending_timers_def)
qed

lemma abort_ok:
  assumes "worker_ok st" "exiting st" "runs_fine hs" "mem" "runs_delays rt P hs"
  shows "\<exists>st'. abort_pending_timers rt hs True mem st = Some st' \<and> worker_ok st' \<and> order_kept P st st' \<and> (\<forall>i < next_event st. \<not> is_lua st' i)"
proof -
  note w = worker_okD [OF assms(1)] and p = pending_list [OF worker_okD(1) [OF assms(1)]]
  let ?es = "filter (is_lua st) (inorder (timer_tree st))"
  obtain st' where 1: "call_prematurely rt hs ?es st = Some st'" "worker_ok st'" "order_kept P st st'"
    "\<And>i. i < next_event st \<Longrightarrow> tevents st' i = (if i \<in> set ?es then None else tevents st i)"
    using call_prematurely_ok [OF assms(1-3), of ?es rt P, OF distinct_filter [OF p(2)]] assms(5) by (simp only: p(3) mem_Collect_eq) blast
  have "\<not> is_lua st' i" if "i < next_event st" for i
    using 1(4) [OF that] unfolding p(3) by (auto simp: is_lua_def split: if_splits option.splits)
  moreover have "abort_pending_timers rt hs True mem st = Some st'" using abort_eq [OF w(1), of rt hs True mem] 1(1) assms(4) by simp
  ultimately show ?thesis using 1(2,3) by blast
qed

end
