(* ===== verification/Timer_Worker.thy ===== *)
theory Timer_Worker
  imports Timer_Run
begin

section \<open>Runs of a worker\<close>

subsection \<open>Client sessions\<close>

lemma holders_inv:
  assumes inv: "tinv h st" and st': "st' = st\<lparr>vms := a, vm_holders := b\<rparr>"
    and vms: "\<And>v. a v = (if vm_refs h st' v = 0 then None else Some (vm_refs h st' v))"
  shows "tinv h st'"
proof -
  note i = tinvD [OF inv]
  have o: "owner h st' = owner h st" "is_lua st' = is_lua st" by (simp_all add: owner_def is_lua_def fun_eq_iff st' split: option.splits)
  have f: "session_runs st' = session_runs st" "left_open st' = left_open st" using session_frame [of st' st] by (simp_all add: st')
  have "vms st' = a" by (simp add: st')
  then have "owners_ok h st'" using i(4) vms by (simp add: owners_ok_def o f) (simp add: st')
  moreover have "tree_ok st'" "counts_ok st'" using i(1,2) by (simp_all add: tree_ok_def counts_ok_def o f) (simp_all add: st')
  moreover have "ids_ok h st'" using i(3) by (simp add: ids_ok_def st')
  ultimately show ?thesis by (simp add: tinv_def)
qed

lemma vm_refs_holders:
  assumes "tevents st' = tevents st" "tsessions st' = tsessions st"
  shows "vm_refs h st' v + (if vm_holders st v then 1 else 0) = vm_refs h st v + (if vm_holders st' v then 1 else 0)"
proof -
  have "owner h st' = owner h st" using assms by (simp add: owner_def fun_eq_iff split: option.splits)
  then show ?thesis by (simp add: vm_refs_def)
qed

lemma begin_session_inv:
  assumes inv: "tinv h st"
  shows "tinv h (begin_session v st)"
proof (cases "vms st v")
  case None
  let ?st = "st\<lparr>vms := (vms st)(v \<mapsto> 1), vm_holders := (vm_holders st)(v := True)\<rparr>"
  have o: "vms st u = (if vm_refs h st u = 0 then None else Some (vm_refs h st u))" for u using tinvD(4) [OF inv] by (simp add: owners_ok_def)
  have r: "vm_refs h st v = 0" using o [of v] None by (simp split: if_splits)
  then have "\<not> vm_holders st v" by (simp add: vm_refs_def split: if_splits)
  then have "((vms st)(v \<mapsto> 1)) u = (if vm_refs h ?st u = 0 then None else Some (vm_refs h ?st u))" for u
    using vm_refs_holders [of ?st st h u] o [of u] r by (cases "u = v") simp_all
  then show ?thesis using holders_inv [OF inv refl] None by (simp add: begin_session_def)
qed (simp add: begin_session_def inv)

lemma end_session_ok:
  assumes inv: "tinv h st"
  shows "\<exists>st'. end_session v st = Some st' \<and> tinv h st' \<and> (\<exists>a b. st' = st\<lparr>vms := a, vm_holders := b\<rparr>)"
proof (cases "vm_holders st v")
  case True
  have o: "vms st u = (if vm_refs h st u = 0 then None else Some (vm_refs h st u))" for u using tinvD(4) [OF inv] by (simp add: owners_ok_def)
  have r: "vms st v = Some (vm_refs h st v)" "vm_refs h st v \<noteq> 0" using o [of v] True by (auto simp: vm_refs_def)
  define a where "a = (vms st)(v := (if vm_refs h st v = 1 then None else Some (vm_refs h st v - 1)))"
  let ?st = "st\<lparr>vms := a, vm_holders := (vm_holders st)(v := False)\<rparr>"
  have "end_session v st = Some ?st" using True r by (simp add: end_session_def cleanup_vm_def a_def)
  moreover have "a u = (if vm_refs h ?st u = 0 then None else Some (vm_refs h ?st u))" for u
    using vm_refs_holders [of ?st st h u] o [of u] r True by (cases "u = v") (auto simp: a_def)
  then have "tinv h ?st" by (rule holders_inv [OF inv refl])
  ultimately show ?thesis by blast
next
  case False
  moreover have "st = st\<lparr>vms := vms st, vm_holders := vm_holders st\<rparr>" by simp
  ultimately show ?thesis using inv by (metis end_session_def)
qed

lemma called_ok_frame:
  assumes "called_ok st" "called st' = called st" "tevents st' = tevents st" "next_event st \<le> next_event st'" "exiting st \<Longrightarrow> exiting st'"
  shows "called_ok st'"
proof -
  have "list_all (call_ok st') (called st)"
    using assms(1) by (auto simp: called_ok_def list_all_iff call_ok_def assms(3,5) intro: less_le_trans [OF _ assms(4)])
  then show ?thesis using assms(1) less_le_trans [OF _ assms(4)] by (simp add: called_ok_def assms(2,3))
qed

subsection \<open>Events of other parts\<close>

lemma set_event_ok:
  assumes ok: "worker_ok st" and d: "P d"
  shows "\<exists>st'. set_event d st = Some st' \<and> worker_ok st' \<and> order_kept P st st'"
proof -
  note w = worker_okD [OF ok] and i = tinvD [OF worker_okD(1) [OF ok]] and un = unowned [OF worker_okD(1) [OF ok] order_refl]
  let ?ev = "\<lparr>te_lua = False, te_key = current_msec st + d, te_premature = False, te_vm = None\<rparr>"
  obtain t where t: "rbtree_insert (timer_goes_left st (current_msec st + d)) (next_event st) (timer_tree st) = Some t"
    "tree_ok (st\<lparr>timer_tree := t, tevents := (tevents st)(next_event st \<mapsto> ?ev)\<rparr>)"
    using tree_insert [OF i(1) un(5)] by blast
  let ?st = "st\<lparr>next_event := next_event st + 1, timer_tree := t, tevents := (tevents st)(next_event st \<mapsto> ?ev)\<rparr>"
  have "set_event d st = Some ?st" using t(1) by (simp add: set_event_def add_timer_def Let_def)
  moreover have "is_lua ?st = is_lua st" "owner Map.empty ?st = owner Map.empty st"
    using un by (auto simp: is_lua_def owner_def fun_eq_iff split: option.splits)
  then have "counts_ok ?st" "owners_ok Map.empty ?st" using i(2,4) session_frame [of ?st st] by (simp_all add: counts_ok_def owners_ok_def vm_refs_def)
  moreover have "tree_ok ?st" using t(2) by (simp add: tree_ok_def)
  moreover have "ids_ok Map.empty ?st" using i(3) un by (auto simp: ids_ok_def less_Suc_eq)
  moreover have "call_ok ?st c" if "call_ok st c" for c using that by (auto simp: call_ok_def)
  then have "called_ok ?st" using w(2) by (auto simp: called_ok_def list_all_iff less_Suc_eq)
  moreover have "order_kept P st ?st"
  proof (rule order_keptI)
    fix t0
    assume "short P" "timely t0 st"
    then have "timely t0 (st\<lparr>timer_tree := t, tevents := (tevents st)(next_event st \<mapsto> ?ev)\<rparr>)"
      using d i(3) t(1) by (intro timely_insert [OF i(1), of _ d]) (auto simp: short_def ids_ok_def)
    then show "timely t0 ?st" by (rule timely_frame [THEN iffD1, rotated 3]) simp_all
  qed simp_all
  ultimately show ?thesis by (simp add: worker_ok_def tinv_def)
qed

lemma clear_event_ok:
  assumes ok: "worker_ok st"
  shows "\<exists>st'. clear_event e st = Some st' \<and> worker_ok st' \<and> order_kept P st st'"
proof (cases "tevents st e")
  case None
  then show ?thesis using ok by (simp add: clear_event_def)
next
  case (Some ev)
  note w = worker_okD [OF ok]
  show ?thesis
  proof (cases "te_lua ev")
    case True
    then show ?thesis using Some ok by (simp add: clear_event_def)
  next
    case False
    have "clear_event e st = map_option (\<lambda>st. st\<lparr>tevents := (tevents st)(e := None)\<rparr>) (del_timer e st)"
      using Some False by (simp add: clear_event_def)
    then obtain st' where 1: "clear_event e st = Some st'" "worker_inv st'" "handled P e ev False st st'"
      using drop_event_inv [OF w(1) Some False, of P] by auto
    have "called_ok st'" by (rule called_ok_handled [OF w(2) 1(3) tinvD(3) [OF 1(2)] Some]) simp
    then show ?thesis using 1(1,2) handled_order [OF 1(3)] by (simp add: worker_ok_def)
  qed
qed


subsection \<open>Sessions of timers\<close>

lemma continue_session_ok:
  assumes ok: "worker_ok st" and d: "delays rt P (calls lr)"
  shows "\<exists>st'. continue_session rt i lr st = Some st' \<and> worker_ok st' \<and> order_kept P st st'"
proof (cases "tsessions st i")
  case None
  then show ?thesis using ok by (simp add: continue_session_def)
next
  case (Some s)
  note w = worker_okD [OF ok]
  show ?thesis
  proof (cases "ts_left s")
    case True
    then show ?thesis using Some ok by (simp add: continue_session_def)
  next
    case False
    have "vm_held (ts_vm s) st" using Some by (cases "ts_vm s") (auto simp: vm_held_def)
    then obtain st1 where 1: "run_calls rt (ts_vm s) (calls lr) st = Some st1" "worker_inv st1" "kept P st st1"
      using run_calls_inv [OF w(1) _ d] by blast
    have o1: "order_kept P st st1" using 1(3) by (simp add: kept_def events_from_def)
    have r1: "called_ok st1" by (rule called_ok_kept [OF w(2) 1(3) tinvD(3) [OF 1(2)]])
    have s1: "tsessions st1 i = Some s" using 1(3) Some by (simp add: kept_def)
    obtain st' where 2: "finish_run i (run_end lr) st1 = Some st'" "worker_inv st'" "tevents st' = tevents st1" "timer_tree st' = timer_tree st1"
      "next_event st' = next_event st1" "max_running_timers st' = max_running_timers st1" "max_pending_timers st' = max_pending_timers st1" "current_msec st' = current_msec st1" "called st' = called st1" "exiting st' = exiting st1"
      by (rule finish_run_inv [OF 1(2) s1 False, of "run_end lr"]) blast
    have "called_ok st'" by (rule called_ok_frame [OF r1]) (simp_all add: 2)
    moreover have "order_kept P st st'" by (rule order_kept_trans [OF o1 order_kept_frame]) (simp_all add: 2)
    ultimately show ?thesis using Some False 1(1) 2(1,2) by (simp add: continue_session_def worker_ok_def)
  qed
qed

lemma call_at_ok:
  assumes ok: "worker_ok st" and vm: "case w of None \<Rightarrow> True | Some v \<Rightarrow> vm_holders st v"
    and P: "\<And>x. check_number rt d = Some x \<Longrightarrow> P (rt_ms rt x)"
  shows "\<exists>r st'. timer_at rt ((a_env a)\<lparr>t_vm := w\<rparr>) n d f st = Some (r, st') \<and> worker_ok st' \<and> order_kept P st st'"
proof -
  note wo = worker_okD [OF ok]
  have "vm_held w st" using vm by (auto simp: vm_held_def split: option.splits)
  then obtain r st' where 1: "timer_at rt ((a_env a)\<lparr>t_vm := w\<rparr>) n d f st = Some (r, st')" "worker_inv st'" "kept P st st'"
    using timer_at_inv [OF wo(1), of "(a_env a)\<lparr>t_vm := w\<rparr>" rt d P] vm_held_ok [OF wo(1)] P by fastforce
  then show ?thesis using called_ok_kept [OF wo(2) 1(3) tinvD(3) [OF 1(2)]] by (simp add: worker_ok_def kept_def events_from_def)
qed

subsection \<open>All steps\<close>

text \<open>The rule a run keeps to: the two allocations of the handler that are not guarded do not fail.\<close>

fun worker_op_fine :: "worker_op \<Rightarrow> bool" where
  "worker_op_fine (Expire hs n) = runs_fine hs"
| "worker_op_fine (Close_Idle hs mem) = runs_fine hs"
| "worker_op_fine _ = True"

text \<open>The delays that are set in an operation.\<close>

fun op_delays :: "lua_rt \<Rightarrow> (64 word \<Rightarrow> bool) \<Rightarrow> worker_op \<Rightarrow> bool" where
  "op_delays rt P (Call_At w a) = delays rt P [a]"
| "op_delays rt P (Continue i lr) = delays rt P (calls lr)"
| "op_delays rt P (Set_Event d) = P d"
| "op_delays rt P (Expire hs n) = runs_delays rt P hs"
| "op_delays rt P (Close_Idle hs mem) = runs_delays rt P hs"
| "op_delays rt P _ = True"

fun is_clock :: "worker_op \<Rightarrow> bool" where
  "is_clock (Clock t) = True"
| "is_clock _ = False"

lemma worker_ok_frame:
  assumes ok: "worker_ok st" and "worker_inv st'" "called st' = called st" "tevents st' = tevents st" "next_event st' = next_event st" "exiting st \<Longrightarrow> exiting st'"
  shows "worker_ok st'"
  using called_ok_frame [OF worker_okD(2) [OF ok], of st'] assms by (simp add: worker_ok_def)

lemma end_session_step:
  assumes ok: "worker_ok st"
  shows "\<exists>st'. end_session v st = Some st' \<and> worker_ok st' \<and> order_kept P st st'"
proof -
  obtain st' a b where 1: "end_session v st = Some st'" "worker_inv st'" "st' = st\<lparr>vms := a, vm_holders := b\<rparr>"
    using end_session_ok [OF worker_okD(1) [OF ok]] by blast
  have "worker_ok st'" by (rule worker_ok_frame [OF ok 1(2)]) (simp_all add: 1(3))
  moreover have "order_kept P st st'" by (rule order_kept_frame) (simp_all add: 1(3))
  ultimately show ?thesis using 1(1) by blast
qed

lemma begin_session_step: "worker_ok st \<Longrightarrow> worker_ok (begin_session v st) \<and> order_kept P st (begin_session v st)"
proof -
  assume ok: "worker_ok st"
  have "worker_ok (begin_session v st)"
    by (rule worker_ok_frame [OF ok begin_session_inv [OF worker_okD(1) [OF ok]]]) (simp_all add: begin_session_def)
  moreover have "order_kept P st (begin_session v st)" by (rule order_kept_frame) (simp_all add: begin_session_def)
  ultimately show ?thesis ..
qed

lemma close_idle_step:
  assumes ok: "worker_ok st" and f: "runs_fine hs" "runs_delays rt P hs"
  shows "\<exists>st'. abort_pending_timers rt hs (exiting st \<and> watcher st) mem st = Some st' \<and> worker_ok st' \<and> order_kept P st st'"
proof (cases "exiting st \<and> watcher st \<and> mem")
  case True
  then show ?thesis using abort_ok [OF ok _ f(1) _ f(2), of mem] by auto
next
  case False
  then show ?thesis using ok abort_eq [OF worker_okD(1) [OF ok], of rt hs "exiting st \<and> watcher st" mem] by auto
qed

lemma worker_step_ok:
  assumes ok: "worker_ok st" and fine: "worker_op_fine x" "op_delays rt P x"
  shows "\<exists>st'. worker_step rt x st = Some st' \<and> worker_ok st' \<and> (\<not> is_clock x \<longrightarrow> order_kept P st st')"
proof (cases x)
  case (Call_At w a)
  show ?thesis
  proof (cases "case w of None \<Rightarrow> True | Some v \<Rightarrow> vm_holders st v")
    case True
    then show ?thesis using Call_At fine(2) call_at_ok [OF ok True, of rt "a_delay a" P a "a_nargs a" "a_function a"] by (auto simp: delays_def)
  qed (use Call_At ok in simp)
next
  case (Expire hs n)
  then show ?thesis using expire_timers_ok [OF ok, of hs rt P n] fine by auto
next
  case (Clock t)
  have "worker_inv (st\<lparr>current_msec := t\<rparr>)" by (rule tinv_frame [OF worker_okD(1) [OF ok]]) simp_all
  then show ?thesis using Clock worker_ok_frame [OF ok, of "st\<lparr>current_msec := t\<rparr>"] by simp
next
  case Exit_Worker
  have "worker_inv (st\<lparr>exiting := True\<rparr>)" by (rule tinv_frame [OF worker_okD(1) [OF ok]]) simp_all
  then show ?thesis using Exit_Worker worker_ok_frame [OF ok, of "st\<lparr>exiting := True\<rparr>"] order_kept_frame [of "st\<lparr>exiting := True\<rparr>" st] by simp
qed (use fine in \<open>simp_all add: begin_session_step [OF ok] end_session_step [OF ok] continue_session_ok [OF ok] set_event_ok [OF ok] clear_event_ok [OF ok]
  close_idle_step [OF ok]\<close>)

lemma op_delays_True [simp]: "op_delays rt (\<lambda>_. True) x"
  by (cases x) simp_all

lemma new_worker_ok: "worker_ok (new_worker p r now)"
  by (simp add: worker_ok_def tinv_def new_worker_def tree_ok_def rb_tree_def counts_ok_def is_lua_def ids_ok_def owners_ok_def owner_def session_runs_def vm_refs_def called_ok_def)

lemma worker_step_limits:
  assumes "worker_ok st" "worker_op_fine x"
  shows "\<exists>st'. worker_step rt x st = Some st' \<and> worker_ok st' \<and> max_pending_timers st' = max_pending_timers st \<and> max_running_timers st' = max_running_timers st"
proof (cases "is_clock x")
  case True
  then obtain t where "x = Clock t" by (cases x) auto
  then show ?thesis using worker_step_ok [OF assms, of rt "\<lambda>_. True"] by simp
next
  case False
  then show ?thesis using worker_step_ok [OF assms, of rt "\<lambda>_. True"] by (auto simp: order_kept_def)
qed

lemma worker_run_ok:
  assumes "worker_ok st" "list_all worker_op_fine xs"
  shows "\<exists>st'. worker_run rt xs st = Some st' \<and> worker_ok st' \<and> max_pending_timers st' = max_pending_timers st \<and> max_running_timers st' = max_running_timers st"
  using assms
proof (induction xs arbitrary: st)
  case (Cons x xs)
  then obtain st1 where "worker_step rt x st = Some st1" "worker_ok st1" "max_pending_timers st1 = max_pending_timers st" "max_running_timers st1 = max_running_timers st"
    using worker_step_limits [of st x rt] by auto
  then show ?case using Cons.IH [of st1] Cons.prems(2) by simp
qed simp

subsection \<open>Runs in the range of the clock\<close>

definition soon :: "64 word \<Rightarrow> bool" where
  "soon d \<longleftrightarrow> unat d < 2 ^ 62"

lemma short_soon [simp]: "short soon"
  by (simp add: short_def soon_def)

text \<open>The delays and the time that has passed since \<open>t0\<close> are less than $2^{62}$ milliseconds.\<close>

fun op_soon :: "lua_rt \<Rightarrow> 64 word \<Rightarrow> worker_op \<Rightarrow> bool" where
  "op_soon rt t0 (Clock t) = soon (t - t0)"
| "op_soon rt t0 x = op_delays rt soon x"

lemma worker_run_timely:
  assumes "worker_ok st" "timely t0 st" "list_all worker_op_fine xs" "list_all (op_soon rt t0) xs"
  shows "\<exists>st'. worker_run rt xs st = Some st' \<and> worker_ok st' \<and> timely t0 st'"
  using assms
proof (induction xs arbitrary: st)
  case (Cons x xs)
  have "op_delays rt soon x" using Cons.prems(4) by (cases x) auto
  then obtain st1 where 1: "worker_step rt x st = Some st1" "worker_ok st1" "\<not> is_clock x \<Longrightarrow> order_kept soon st st1"
    using worker_step_ok [of st x rt soon] Cons.prems(1,3) by auto
  have "timely t0 st1"
  proof (cases "is_clock x")
    case True
    then obtain t where "x = Clock t" by (cases x) auto
    moreover have "earlier t0 (st\<lparr>current_msec := t\<rparr>) = earlier t0 st" "time_after t0 (st\<lparr>current_msec := t\<rparr>) = time_after t0 st"
      by (simp_all add: fun_eq_iff earlier_def time_after_def event_key_def)
    ultimately show ?thesis using 1(1) Cons.prems(2,4) by (auto simp: timely_def soon_def)
  qed (use 1(3) Cons.prems(2) in \<open>auto simp: order_kept_def\<close>)
  then show ?case using Cons 1(1,2) by simp
qed simp

end
