(* ===== verification/Timer_Expire.thy ===== *)
theory Timer_Expire
  imports Timer_Worker
begin

section \<open>The loop of expiry and the end of the worker\<close>

subsection \<open>The loop ends\<close>

definition due :: "tstate \<Rightarrow> nat set" where
  "due st = {e. tevents st e \<noteq> None \<and> event_due st e}"

lemma due_time:
  assumes "timely t0 st" "tevents st e \<noteq> None"
  shows "event_due st e \<longleftrightarrow> time_after t0 st e \<le> unat (current_msec st - t0)"
proof -
  have "unat (event_key st e - t0) < 2 ^ 63" "unat (current_msec st - t0) < 2 ^ 63" using assms by (force simp: timely_def time_after_def domIff)+
  from sint_difference [OF this] show ?thesis unfolding event_due_def time_after_def by linarith
qed

text \<open>The first event of the tree is the first one due.\<close>

lemma first_event_first:
  assumes tm: "timely t0 st" and t: "tree_ok st" and e: "first_event st = Some e" "\<not> event_due st e"
  shows "due st = {}"
proof -
  obtain xs where xs: "inorder (timer_tree st) = e # xs" using first_event_in(2) [OF t e(1)] by blast
  have ev: "tevents st e \<noteq> None" by (rule first_event_in(1) [OF t e(1)])
  have "\<not> event_due st i" if i: "tevents st i \<noteq> None" for i
  proof -
    have "i \<in> set (e # xs)" using t i xs by (auto simp: tree_ok_def)
    then have "time_after t0 st e \<le> time_after t0 st i" using tm xs by (auto simp: timely_def earlier_def)
    then show ?thesis using e(2) due_time [OF tm i] due_time [OF tm ev] by simp
  qed
  then show ?thesis by (auto simp: due_def)
qed

definition later :: "64 word \<Rightarrow> bool" where
  "later d \<longleftrightarrow> soon d \<and> d \<noteq> 0"

lemma short_later [simp]: "short later"
  by (simp add: short_def later_def soon_def)

lemma later_pos:
  assumes "later d"
  shows "0 < sint d"
proof -
  have "unat (d - 0) < 2 ^ 63" "unat (0 - 0 :: 64 word) < 2 ^ 63" using assms by (simp_all add: later_def soon_def)
  from sint_difference [OF this] have "sint d = int (unat d)" by simp
  moreover have "0 < unat d" using assms by (simp add: later_def unat_gt_0)
  ultimately show ?thesis by linarith
qed

lemma due_handled:
  assumes h: "handled later e ev b st st'" and ids: "ids_ok h' st" and e: "tevents st e \<noteq> None"
  shows "due st' = due st - {e}"
proof -
  have same: "event_due st' i \<longleftrightarrow> event_due st i" if "tevents st' i = tevents st i" for i
    using that h by (simp add: event_due_def event_key_def handled_def)
  have old: "tevents st' i = ((tevents st)(e := None)) i" if "i < next_event st" for i using that h by (simp add: handled_def)
  have below: "i < next_event st" if "tevents st i \<noteq> None" for i using that ids by (auto simp: ids_ok_def)
  have new: "\<not> event_due st' i" if i: "tevents st' i = Some ev'" "\<not> i < next_event st" for i ev'
  proof -
    have "tevents st i = None" using below [of i] i(2) by blast
    then have "later (te_key ev' - current_msec st)" using events_fromD [of later st st' i ev'] h i(1) by (auto simp: handled_def)
    then show ?thesis using later_pos i(1) h by (fastforce simp: event_due_def event_key_def handled_def)
  qed
  have "i \<in> due st' \<longleftrightarrow> i \<in> due st - {e}" for i
  proof (cases "i < next_event st")
    case True
    then show ?thesis using old [OF True] same [of i] by (auto simp: due_def)
  next
    case False
    then show ?thesis using new [of i] below [of i] by (auto simp: due_def)
  qed
  then show ?thesis by blast
qed

lemma due_finite: "tree_ok st \<Longrightarrow> finite (due st)"
  by (rule finite_subset [OF _ finite_set [of "inorder (timer_tree st)"]]) (auto simp: tree_ok_def due_def)

lemma expire_timers_ends:
  assumes "worker_ok st" "timely t0 st" "runs_fine hs" "runs_delays rt later hs" "card (due st) < n"
  shows "\<exists>st'. expire_timers rt hs n st = Some (True, st') \<and> worker_ok st' \<and> due st' = {} \<and> current_msec st' = current_msec st \<and>
    (\<forall>i < next_event st. tevents st' i = (if i \<in> due st then None else tevents st i))"
  using assms(1,2,5)
proof (induction n arbitrary: st)
  case (Suc n)
  note w = worker_okD [OF Suc.prems(1)]
  show ?case
  proof (cases "first_event st")
    case None
    then have "due st = {}" using first_event_None [OF w(3)] by (auto simp: due_def)
    then show ?thesis using None Suc.prems(1) by simp
  next
    case (Some e)
    show ?thesis
    proof (cases "event_due st e")
      case False
      then show ?thesis using Some Suc.prems(1) first_event_first [OF Suc.prems(2) w(3) Some] by simp
    next
      case True
      obtain ev where e: "tevents st e = Some ev" using first_event_in(1) [OF w(3) Some] by blast
      obtain st1 b where 1: "expire_event rt hs e st = Some st1" "worker_ok st1" "handled later e ev b st st1"
        using expire_event_ok [of st e ev hs rt later, OF Suc.prems(1) e True] assms(3,4) by blast
      have d: "due st1 = due st - {e}" using e by (intro due_handled [OF 1(3) w(4)]) simp
      have in_due: "e \<in> due st" using e True by (simp add: due_def)
      have "card (due st1) < n" using Suc.prems(3) card_Suc_Diff1 [OF due_finite [OF w(3)] in_due] d by simp
      moreover have "timely t0 st1" using handled_order [OF 1(3)] Suc.prems(2) by (simp add: order_kept_def)
      ultimately obtain st' where 2: "expire_timers rt hs n st1 = Some (True, st')" "worker_ok st'" "due st' = {}" "current_msec st' = current_msec st1"
        "\<And>i. i < next_event st1 \<Longrightarrow> tevents st' i = (if i \<in> due st1 then None else tevents st1 i)"
        using Suc.IH [OF 1(2)] by blast
      have "tevents st' i = (if i \<in> due st then None else tevents st i)" if "i < next_event st" for i
      proof -
        have "tevents st1 i = ((tevents st)(e := None)) i" "i < next_event st1" using 1(3) that by (auto simp: handled_def events_from_def)
        then show ?thesis using 2(5) [of i] in_due unfolding d by (cases "i = e") simp_all
      qed
      moreover have "current_msec st' = current_msec st" using 2(4) 1(3) by (simp add: handled_def)
      moreover have "expire_timers rt hs (Suc n) st = Some (True, st')" using Some True 1(1) 2(1) by simp
      ultimately show ?thesis using 2(2,3) by blast
    qed
  qed
qed simp


subsection \<open>All pending timers are called at the end\<close>

lemma handled_running:
  assumes "handled P e ev b st st'" "counts_ok st" "counts_ok st'"
  shows "running_timers st' \<le> running_timers st + 1"
proof -
  have "{i. session_runs st' i} \<subseteq> insert e {i. session_runs st i}" using assms(1) by (auto simp: handled_def session_runs_def)
  then have "card {i. session_runs st' i} \<le> card (insert e {i. session_runs st i})" using runs_finite [OF assms(2)] by (intro card_mono) simp_all
  also have "\<dots> \<le> Suc (card {i. session_runs st i})" by (rule card_insert_le_m1) simp_all
  finally have "card {i. session_runs st' i} \<le> Suc (card {i. session_runs st i})" .
  moreover have "aborted st \<le> aborted st'" using assms(1) by (simp add: handled_def)
  ultimately show ?thesis using assms(2,3) by (simp add: counts_ok_def)
qed

definition henv_all :: "henv \<Rightarrow> bool" where
  "henv_all env \<longleftrightarrow> h_conn env \<and> h_log env \<and> h_session env \<and> h_ctx env \<and> h_pcln env \<and> h_cln env"

lemma henv_all_fine: "henv_all env \<Longrightarrow> henv_fine env"
  by (simp add: henv_all_def henv_fine_def)

definition premature_call :: "tstate \<Rightarrow> nat \<Rightarrow> nat \<times> bool \<times> int" where
  "premature_call st e = (e, True, sint (event_key st e - current_msec st))"

lemma call_prematurely_called:
  assumes "worker_ok st" "exiting st" "\<forall>i. henv_all (fst (hs i))" "distinct es" "\<And>e. e \<in> set es \<Longrightarrow> is_lua st e"
    "running_timers st + int (length es) \<le> max_running_timers st" "call_prematurely rt hs es st = Some st'"
  shows "called st' = called st @ map (premature_call st) es"
  using assms
proof (induction es arbitrary: st)
  case (Cons e es)
  note w = worker_okD [OF Cons.prems(1)]
  obtain ev where e: "tevents st e = Some ev" "te_lua ev" using Cons.prems(5) [of e] by (auto simp: is_lua_def split: option.splits)
  have "begins (fst (hs e)) ev st" using Cons.prems(3,6) by (simp add: begins_def henv_all_def)
  then obtain st1 where 1: "call_prematurely rt hs (e # es) st = call_prematurely rt hs es st1" "worker_ok st1"
    "handled (\<lambda>_. True) e (ev\<lparr>te_premature := True\<rparr>) True st st1"
    using call_premature_ok [OF Cons.prems(1,2) e, of hs rt "\<lambda>_. True"] Cons.prems(3) henv_all_fine by fastforce
  have below: "i < next_event st" if "is_lua st i" for i
    using that w(4) by (auto simp: is_lua_def ids_ok_def split: option.splits)
  have ev1: "tevents st1 i = tevents st i" if "i \<in> set es" for i
    using that 1(3) Cons.prems(4) below [of i] Cons.prems(5) [of i] by (auto simp: handled_def)
  have "running_timers st1 \<le> running_timers st + 1"
    by (rule handled_running [OF 1(3) tinvD(2) [OF w(1)] tinvD(2) [OF worker_okD(1) [OF 1(2)]]])
  moreover have "max_running_timers st1 = max_running_timers st" "exiting st1" "current_msec st1 = current_msec st" using 1(3) Cons.prems(2) by (simp_all add: handled_def)
  ultimately have "called st' = called st1 @ map (premature_call st1) es"
    using Cons.prems(3,4,6,7) 1(1) Cons.prems(5) by (intro Cons.IH [OF 1(2)]) (auto simp: is_lua_def ev1)
  moreover have "map (premature_call st1) es = map (premature_call st) es"
    using \<open>current_msec st1 = current_msec st\<close> by (simp add: premature_call_def event_key_def ev1)
  moreover have "called st1 = called st @ [premature_call st e]" using 1(3) e(1) by (simp add: handled_def premature_call_def event_key_def)
  ultimately show ?case by simp
qed simp

end
