(* ===== verification/Timer_Err.thy ===== *)
theory Timer_Err
  imports Timer_Expire
begin

section \<open>Timers: examples and errors\<close>

text \<open>An environment in which nothing is missing, a call of \<open>timer.at\<close> with a delay, and the runs of functions that do the same in every timer.\<close>

definition good_tenv :: tenv where
  "good_tenv = \<lparr>t_session = True, t_vm = None, t_watcher = True, t_mem = (\<lambda>_. True), t_addr = False\<rparr>"

definition good_henv :: henv where
  "good_henv = \<lparr>h_conn = True, h_log = True, h_session = True, h_ctx = True, h_pcln = True, h_cln = True\<rparr>"

definition at_delay :: "lua_number \<Rightarrow> at_call" where
  "at_delay x = \<lparr>a_env = good_tenv, a_nargs = 2, a_delay = LNumber x, a_function = True\<rparr>"

definition each :: "at_call list \<Rightarrow> lua_end \<Rightarrow> nat \<Rightarrow> henv \<times> lua_run" where
  "each cs x = (\<lambda>_. (good_henv, \<lparr>calls = cs, run_end = x\<rparr>))"

lemmas timer_run_defs = new_worker_def timer_at_def at_delay_def good_tenv_def good_henv_def each_def make_watcher_def use_vm_def start_timer_def add_timer_def
  rbtree_insert_def demo_rt_def timer_goes_left_def event_key_def expire_event_def del_timer_def rbtree_delete_def first_event_def event_due_def timer_handler_def
  create_fake_connection_def finish_run_def close_fake_session_def session_cleanup_def unref_def destroy_pool_def cleanup_vm_def delete_splice_def Let_def

text \<open>A worker after one call of \<open>timer.at\<close> and the command to exit.\<close>

definition exiting_worker :: tstate where
  "exiting_worker = \<lparr>max_pending_timers = 2, pending_timers = 1, max_running_timers = 2, running_timers = 0, watcher = True,
     timer_tree = Nd Black Sentinel 0 Sentinel, tevents = [0 \<mapsto> \<lparr>te_lua = True, te_key = 5, te_premature = False, te_vm = None\<rparr>],
     next_event = 1, tsessions = Map.empty, co_refs = (\<lambda>_. False)(0 := True), tpools = (\<lambda>_. False)(0 := True),
     vms = Map.empty, vm_holders = (\<lambda>_. False), exiting = True, current_msec = 0, called = [], aborted = 0\<rparr>"

lemma exiting_worker_run: "worker_run demo_rt [Call_At None (at_delay 5), Exit_Worker] (new_worker 2 2 0) = Some exiting_worker"
  by (simp add: timer_run_defs exiting_worker_def)

subsection \<open>Allocations that fail\<close>

text \<open>When the log of the fake connection cannot be allocated, the pool is destroyed with the connection and again by the handler.\<close>

lemma log_failure_destroys_pool_twice:
  assumes ok: "worker_ok st" and e: "tevents st e = Some ev" "te_lua ev" and h: "h_conn (fst (hs e))" "\<not> h_log (fst (hs e))"
    and limit: "running_timers st < max_running_timers st"
  shows "expire_event rt hs e st = None"
proof -
  note inv = worker_okD(1) [OF ok]
  obtain t where t: "rbtree_delete e (timer_tree st) = Some t" using tree_delete [OF worker_okD(3) [OF ok], of e] e(1) by auto
  have "owner Map.empty st e = Some (te_vm ev)" using e by (simp add: owner_def)
  then have "tpools st e" using tinvD(4) [OF inv] by (simp add: owners_ok_def)
  then show ?thesis
    using t e h limit
    by (auto simp: expire_event_def del_timer_def timer_handler_def create_fake_connection_def destroy_pool_def cleanup_vm_def handler_failed_def unref_def use_vm_def Let_def
      split: option.split)
qed

text \<open>When the cleanup of the session cannot be allocated, the machine of the session loses two references: here it is closed while its client session still uses it.\<close>

lemma cleanup_failure_drops_machine_twice:
  "worker_run demo_rt [Begin_Session 0, Call_At (Some 0) (at_delay 0), Expire (\<lambda>_. (good_henv\<lparr>h_cln := False\<rparr>, \<lparr>calls = [], run_end = Returns\<rparr>)) 1, End_Session 0] (new_worker 2 1 0) = None"
  by (simp add: timer_run_defs begin_session_def end_session_def handler_failed_def)

subsection \<open>A timer without delay that sets itself again\<close>

definition looping :: "nat \<Rightarrow> tstate \<Rightarrow> bool" where
  "looping k st \<longleftrightarrow> timer_tree st = Nd Black Sentinel k Sentinel \<and>
     tevents st = [k \<mapsto> \<lparr>te_lua = True, te_key = current_msec st, te_premature = False, te_vm = None\<rparr>] \<and> next_event st = Suc k \<and>
     pending_timers st = 1 \<and> running_timers st = 0 \<and> tpools st k \<and> watcher st \<and> \<not> exiting st \<and> max_pending_timers st > 0 \<and> max_running_timers st > 0"

lemma looping_first: "looping k st \<Longrightarrow> first_event st = Some k \<and> event_due st k"
  by (simp add: looping_def first_event_def event_due_def event_key_def)

lemma looping_round:
  assumes "rt_ms rt x = 0" "looping k st"
  shows "\<exists>st'. expire_event rt (each [at_delay x] Returns) k st = Some st' \<and> looping (Suc k) st'"
  using assms by (simp add: timer_run_defs looping_def run_calls.simps)

lemma looping_forever:
  assumes "rt_ms rt x = 0" "looping k st"
  shows "\<exists>st'. expire_timers rt (each [at_delay x] Returns) n st = Some (False, st')"
  using assms(2)
proof (induction n arbitrary: k st)
  case (Suc n)
  obtain st1 where 1: "expire_event rt (each [at_delay x] Returns) k st = Some st1" "looping (Suc k) st1" using looping_round [OF assms(1) Suc.prems] by blast
  then show ?case using Suc.IH [OF 1(2)] looping_first [OF Suc.prems] by simp
qed simp

subsection \<open>Timers one after the other\<close>

text \<open>A timer without delay is set and called; its function waits, or ends with an error.\<close>

definition one_timer :: "lua_number \<Rightarrow> lua_end \<Rightarrow> worker_op list" where
  "one_timer x e = [Call_At None (at_delay x), Expire (each [] e) 1]"

definition calm :: "tstate \<Rightarrow> bool" where
  "calm st \<longleftrightarrow> timer_tree st = Sentinel \<and> tevents st = Map.empty \<and> pending_timers st = 0 \<and> \<not> exiting st \<and> max_pending_timers st > 0"

lemma one_timer_run:
  assumes "rt_ms rt x = 0" "calm st" "running_timers st < max_running_timers st"
  shows "\<exists>st'. worker_run rt (one_timer x Waits) st = Some st' \<and> calm st' \<and> max_running_timers st' = max_running_timers st \<and>
      running_timers st' = running_timers st + 1 \<and> aborted st' = aborted st"
    and "\<exists>st'. worker_run rt (one_timer x Aborts) st = Some st' \<and> calm st' \<and> max_running_timers st' = max_running_timers st \<and>
      running_timers st' = running_timers st - 1 \<and> aborted st' = aborted st + 1"
  using assms by (simp_all add: one_timer_def timer_run_defs calm_def)

lemma worker_run_append: "worker_run rt (xs @ ys) st = (case worker_run rt xs st of None \<Rightarrow> None | Some st \<Rightarrow> worker_run rt ys st)"
  by (induction xs arbitrary: st) (simp_all split: option.split)

lemma failing_timers_run:
  assumes "rt_ms rt x = 0" "calm st" "running_timers st < max_running_timers st"
  shows "\<exists>st'. worker_run rt (concat (replicate k (one_timer x Aborts))) st = Some st' \<and> calm st' \<and> max_running_timers st' = max_running_timers st \<and>
    running_timers st' = running_timers st - int k \<and> aborted st' = aborted st + k"
  using assms(2,3)
proof (induction k arbitrary: st)
  case (Suc k)
  obtain st1 where 1: "worker_run rt (one_timer x Aborts) st = Some st1" "calm st1" "max_running_timers st1 = max_running_timers st"
    "running_timers st1 = running_timers st - 1" "aborted st1 = aborted st + 1"
    using one_timer_run(2) [OF assms(1) Suc.prems] by blast
  then show ?case using Suc.IH [OF 1(2)] Suc.prems(2) by (auto simp: worker_run_append)
qed simp

lemma waiting_timers_run:
  assumes "rt_ms rt x = 0" "calm st" "running_timers st + int n \<le> max_running_timers st"
  shows "\<exists>st'. worker_run rt (concat (replicate n (one_timer x Waits))) st = Some st' \<and> running_timers st' = running_timers st + int n \<and> aborted st' = aborted st"
  using assms(2,3)
proof (induction n arbitrary: st)
  case (Suc n)
  have "running_timers st < max_running_timers st" using Suc.prems(2) by simp
  from one_timer_run(1) [OF assms(1) Suc.prems(1) this] obtain st1 where 1: "worker_run rt (one_timer x Waits) st = Some st1" "calm st1"
    "max_running_timers st1 = max_running_timers st" "running_timers st1 = running_timers st + 1" "aborted st1 = aborted st" by blast
  then show ?case using Suc.IH [OF 1(2)] Suc.prems(2) by (auto simp: worker_run_append)
qed simp

end
