(* ===== verification/Timer_Props.thy ===== *)
theory Timer_Props
  imports Timer_Err
begin

section \<open>Properties of the timers\<close>

lemma worker_runs:
  assumes "list_all worker_op_fine xs"
  obtains st where "worker_run rt xs (new_worker p r now) = Some st" "worker_ok st" "max_pending_timers st = int p" "max_running_timers st = int r"
  using worker_run_ok [OF new_worker_ok assms, of rt p r now] by (auto simp: new_worker_def)





subsection \<open>Safety\<close>


definition demo_ops :: "worker_op list" where
  "demo_ops = [Begin_Session 0, Call_At (Some 0) (at_delay 5), Call_At None (at_delay 7), Set_Event 6, Clock 5, Expire (each [at_delay 1] Waits) 4, End_Session 0, Continue 0 \<lparr>calls = [], run_end = Leaves\<rparr>]"

lemma demo_ops_fine: "list_all worker_op_fine demo_ops" "list_all (op_soon demo_rt 0) demo_ops"
  by (simp_all add: demo_ops_def henv_fine_def each_def good_henv_def delays_def at_delay_def soon_def demo_rt_def)




text \<open>
  C5: In every run each timer is called at most once, no timer is pending any more when it has been called, the argument \<open>premature\<close> is true only when the worker exits,
  and a call that is not premature does not come before the time of the timer.
\<close>

theorem timers_called_once:
  assumes "list_all worker_op_fine xs" "worker_run rt xs (new_worker p r now) = Some st"
  shows "distinct (map fst (called st)) \<and> (\<forall>(i, premature, left) \<in> set (called st). \<not> is_lua st i \<and> (premature \<longrightarrow> exiting st) \<and> (premature \<or> left \<le> 0))"
proof -
  have "worker_ok st" using worker_runs [OF assms(1), of rt p r now] assms(2) by auto
  then have "called_ok st" by (rule worker_okD(2))
  then show ?thesis by (auto simp: called_ok_def list_all_iff call_ok_def is_lua_def)
qed

theorem timers_called_once_witness:
  "list_all worker_op_fine demo_ops \<and> (\<exists>st. worker_run demo_rt demo_ops (new_worker 3 2 0) = Some st \<and>
    distinct (map fst (called st)) \<and> (\<forall>(i, premature, left) \<in> set (called st). \<not> is_lua st i \<and> (premature \<longrightarrow> exiting st) \<and> (premature \<or> left \<le> 0)))"
proof -
  obtain st where st: "worker_run demo_rt demo_ops (new_worker 3 2 0) = Some st" using worker_runs [OF demo_ops_fine(1)] .
  show ?thesis using timers_called_once [OF demo_ops_fine(1) st] st demo_ops_fine(1) by blast
qed



text \<open>
  C7: When the idle connections of an exiting worker are closed, the Lua functions of all pending timers are called, in the order of the tree and with \<open>premature\<close> true,
  if the handlers get all they allocate and the running and the pending timers together are not more than \<open>lua_max_running_timers\<close>; none of them is pending any more. Above
  the limit a timer is dropped without a call.
\<close>

theorem abort_calls_all:
  assumes "list_all worker_op_fine xs" "worker_run rt xs (new_worker p r now) = Some st" "exiting st" "watcher st"
    and "\<forall>i. henv_all (fst (hs i))" "running_timers st + pending_timers st \<le> max_running_timers st"
  shows "\<exists>st'. worker_step rt (Close_Idle hs True) st = Some st' \<and>
    called st' = called st @ map (premature_call st) (filter (is_lua st) (inorder (timer_tree st))) \<and> (\<forall>i. is_lua st i \<longrightarrow> \<not> is_lua st' i)"
proof -
  have ok: "worker_ok st" using worker_runs [OF assms(1), of rt p r now] assms(2) by auto
  note inv = worker_okD(1) [OF ok]
  let ?es = "filter (is_lua st) (inorder (timer_tree st))"
  have fine: "runs_fine hs" using assms(5) henv_all_fine by blast
  obtain st' where 1: "abort_pending_timers rt hs True True st = Some st'" "worker_ok st'" "\<forall>i < next_event st. \<not> is_lua st' i"
    using abort_ok [of st hs True rt "\<lambda>_. True", OF ok assms(3) fine] by auto
  have c: "call_prematurely rt hs ?es st = Some st'" using abort_eq [OF inv, of rt hs True True] 1(1) by simp
  have l: "running_timers st + int (length ?es) \<le> max_running_timers st" using pending_list(1) [OF inv] assms(6) by simp
  have "called st' = called st @ map (premature_call st) ?es"
    using pending_list(2) [OF inv] by (intro call_prematurely_called [OF ok assms(3,5) _ _ l c]) auto
  moreover have "i < next_event st" if "is_lua st i" for i
    using that worker_okD(4) [OF ok] by (auto simp: is_lua_def ids_ok_def split: option.splits)
  moreover have "worker_step rt (Close_Idle hs True) st = Some st'" using 1(1) assms(3,4) by simp
  ultimately show ?thesis using 1(3) by blast
qed

theorem abort_calls_all_witness:
  "list_all worker_op_fine [Call_At None (at_delay 5), Exit_Worker] \<and> worker_run demo_rt [Call_At None (at_delay 5), Exit_Worker] (new_worker 2 2 0) = Some exiting_worker \<and>
   exiting exiting_worker \<and> watcher exiting_worker \<and> (\<forall>i. henv_all (fst (each [] Returns i))) \<and>
   running_timers exiting_worker + pending_timers exiting_worker \<le> max_running_timers exiting_worker \<and>
   (\<exists>st'. worker_step demo_rt (Close_Idle (each [] Returns) True) exiting_worker = Some st' \<and> called st' = [(0, True, 5)])"
proof -
  have h: "list_all worker_op_fine [Call_At None (at_delay 5), Exit_Worker]" "exiting exiting_worker" "watcher exiting_worker" "\<forall>i. henv_all (fst (each [] Returns i))"
    "running_timers exiting_worker + pending_timers exiting_worker \<le> max_running_timers exiting_worker"
    by (simp_all add: exiting_worker_def each_def good_henv_def henv_all_def)
  have "called exiting_worker @ map (premature_call exiting_worker) (filter (is_lua exiting_worker) (inorder (timer_tree exiting_worker))) = [(0, True, 5)]"
    by (simp add: exiting_worker_def is_lua_def premature_call_def event_key_def)
  then show ?thesis using abort_calls_all [OF h(1) exiting_worker_run h(2-5)] h exiting_worker_run by auto
qed


text \<open>
  C36: The walk over the tree of timers without a stack, by the parent pointers and the node visited last, finds the Lua timers of the tree in order, as many as
  are asked for.
\<close>

theorem walk_is_inorder:
  assumes "distinct (inorder t)"
  shows "collect lua n Null (Some (t, [])) [] = Some (take n (filter lua (inorder t)))"
  using assms by (rule collect_inorder)

theorem walk_is_inorder_witness:
  "distinct (inorder (Nd Black (Nd Red Sentinel (4 :: nat) Sentinel) 2 (Nd Red Sentinel 7 Sentinel))) \<and>
   collect even 2 Null (Some (Nd Black (Nd Red Sentinel (4 :: nat) Sentinel) 2 (Nd Red Sentinel 7 Sentinel), [])) [] = Some [4, 2]"
  using walk_is_inorder [of "Nd Black (Nd Red Sentinel (4 :: nat) Sentinel) 2 (Nd Red Sentinel 7 Sentinel)" even 2] by simp

subsection \<open>Errors\<close>

text \<open>
  C37: A timer without delay whose function sets the same timer again keeps the loop of expiry going for ever: after any number of rounds the loop has
  not ended.
\<close>

theorem zero_delay_never_ends:
  assumes "rt_ms rt x = 0"
  shows "\<exists>st. worker_run rt [Call_At None (at_delay x)] (new_worker (Suc p) (Suc r) now) = Some st \<and>
    (\<forall>n. \<exists>st'. expire_timers rt (each [at_delay x] Returns) n st = Some (False, st'))"
proof -
  obtain st where st: "worker_run rt [Call_At None (at_delay x)] (new_worker (Suc p) (Suc r) now) = Some st" "looping 0 st"
    using assms by (simp add: timer_run_defs looping_def)
  then show ?thesis using looping_forever [OF assms st(2)] by blast
qed

theorem zero_delay_never_ends_witness:
  "rt_ms demo_rt 0 = 0 \<and> (\<exists>st. worker_run demo_rt [Call_At None (at_delay 0)] (new_worker 1 1 9) = Some st \<and>
    (\<forall>n. \<exists>st'. expire_timers demo_rt (each [at_delay 0] Returns) n st = Some (False, st')))"
  using zero_delay_never_ends [of demo_rt 0 0 0 9] by (simp add: demo_rt_def)

text \<open>
  C38: A timer that is aborted is subtracted twice from the running timers, so that each one raises the limit by one: after \<open>k\<close> timers without delay whose functions end with an error,
  as many as \<open>lua_max_running_timers\<close> and \<open>k\<close> more timers run at the same time.
\<close>

theorem aborted_timers_raise_limit:
  assumes "rt_ms rt x = 0" "n \<le> Suc r + k"
  shows "\<exists>st. worker_run rt (concat (replicate k (one_timer x Aborts)) @ concat (replicate n (one_timer x Waits))) (new_worker (Suc p) (Suc r) now) = Some st \<and>
    max_running_timers st = int (Suc r) \<and> card {i. session_runs st i} = n"
proof -
  let ?xs = "concat (replicate k (one_timer x Aborts))" and ?ys = "concat (replicate n (one_timer x Waits))"
  have c: "calm (new_worker (Suc p) (Suc r) now)" by (simp add: calm_def new_worker_def)
  obtain st1 where 1: "worker_run rt ?xs (new_worker (Suc p) (Suc r) now) = Some st1" "calm st1" "max_running_timers st1 = int (Suc r)"
    "running_timers st1 = - int k" "aborted st1 = k"
    using failing_timers_run [OF assms(1) c, of k] by (auto simp: new_worker_def)
  obtain st where 2: "worker_run rt ?ys st1 = Some st" "running_timers st = int n - int k" "aborted st = k"
    using waiting_timers_run [OF assms(1) 1(2), of n] assms(2) by (auto simp: 1(3-5))
  have fine: "list_all worker_op_fine (?xs @ ?ys)"
    by (auto simp: list_all_iff one_timer_def each_def henv_fine_def good_henv_def)
  have run: "worker_run rt (?xs @ ?ys) (new_worker (Suc p) (Suc r) now) = Some st" using 1(1) 2(1) by (simp add: worker_run_append)
  obtain st' where "worker_run rt (?xs @ ?ys) (new_worker (Suc p) (Suc r) now) = Some st'" "worker_ok st'" "max_running_timers st' = int (Suc r)"
    using worker_runs [OF fine] .
  then show ?thesis using run tinvD(2) [OF worker_okD(1) [of st]] 2 by (simp add: counts_ok_def)
qed

theorem aborted_timers_raise_limit_witness:
  "rt_ms demo_rt 0 = 0 \<and> (5 :: nat) \<le> Suc 0 + 4 \<and>
   (\<exists>st. worker_run demo_rt (concat (replicate 4 (one_timer 0 Aborts)) @ concat (replicate 5 (one_timer 0 Waits))) (new_worker 2 1 0) = Some st \<and>
    max_running_timers st = 1 \<and> card {i. session_runs st i} = 5)"
  using aborted_timers_raise_limit [of demo_rt 0 5 0 4 1 0] by (simp add: demo_rt_def numeral_2_eq_2)

end
