(* ===== verification/Spec2Isabelle.thy ===== *)
theory Spec2Isabelle
  imports Prelude Redis_Slot Redis_Parser Redis_Proto Rbtree Shdict_Key Shdict Shdict_Api Shdict_Props
    Semaphore_Mm Semaphore Uri Args Script Script_Props
    Socket_Pattern Socket_Buf Socket_Redis Socket_Read Socket_Receive Socket_Until
    Socket_Pool Socket_Pool_Inv Socket_Pool_Ops Socket_Pool_Props
    Coroutine Coroutine_Inv Coroutine_Run Coroutine_Live Coroutine_Props
    Output Output_Chain Output_Inv Output_Props Socket_Send Socket_Send_Inv Output_Run Output_Spec
    Timer Timer_Walk Timer_Inv Timer_Order Timer_Step Timer_Handle Timer_Run Timer_Worker Timer_Expire Timer_Err Timer_Props
begin

text \<open>
  \<^bold>\<open>redis-cluster-ngproxy: a verification library.\<close>

  \<^bold>\<open>The program.\<close> The proxy is nginx with a Lua plugin (src/plugin/module) that reads Redis commands,
  computes the cluster slot of their keys, forwards them to the node that owns the slot and encodes
  the replies. The C code of the program is the module src/stream-lua-nginx-module/src, which runs
  the plugin inside nginx's stream subsystem and gives it its API: the Redis functions
  (ngx\_stream\_lua\_redis.c, ngx\_stream\_lua\_redis\_parser.c), dictionaries in shared memory
  (ngx\_stream\_lua\_shdict.c), semaphores between light threads (ngx\_stream\_lua\_semaphore.c),
  string codecs (ngx\_stream\_lua\_string.c, ngx\_stream\_lua\_util.c, ngx\_stream\_lua\_args.c),
  cosockets, light threads, output and timers. The dictionaries rest on nginx's red-black tree, CRC-32 and string comparison
  (src/bundle/nginx-1.11.2/src/core).

  \<^bold>\<open>Conventions.\<close> A byte is a \<open>char\<close>, a byte array a \<open>string\<close>. C integers are words or an \<open>int\<close>
  with its range or wrap-around written out. Memory errors are values: an operation whose C code
  could follow a bad pointer, read outside a buffer or write past it has type \<open>... option\<close>, and
  \<open>None\<close> is that error; theorems that give \<open>Some\<close> say it does not happen. Values that cross the
  boundary with Lua are \<open>lua_value\<close>, errors raised through \<open>luaL_error\<close> are \<open>LErr\<close> with the format
  string of the source. What the Lua virtual machine, the slab allocator and the clock do is a
  parameter (the records \<open>lua_rt\<close> and \<open>shenv\<close>). Debug logging is left out.

  \<^bold>\<open>Redis functions.\<close>
  \<^item> \<open>Redis_Slot\<close>: \<open>crc16\<close> with its table of 256 words, \<open>key_hash_slot\<close>, \<open>ngx_redis_slot\<close>. The table
    equals bitwise division by the XMODEM polynomial; the slot is the CRC of the hash tag, or of the key
    when there is none, modulo 16384; keys that share a tag share a slot.
  \<^item> \<open>Redis_Parser\<close>: every function of the parser over a buffer with positions as integers, where \<open>rd\<close>
    fails outside the buffer. Lengths wrap as signed 64-bit integers. The parser stays inside the
    buffer when the decimal numbers in it have at most 9 digits, and reads outside it for a bulk
    length of \<open>2 ^ 63 - 1\<close>.
  \<^item> \<open>Redis_Proto\<close>: the plugin's reply encoder (lhlh\_redis\_proto.lua) and the round trip with the parser. The text of
    an integer reply is that of Lua's \<open>tostring\<close>; the round trip needs that it is read back as the number, as Lua's fourteen digits are below \<open>10 ^ 14\<close>.

  \<^bold>\<open>Shared dictionaries.\<close>
  \<^item> \<open>Rbtree\<close>: ngx\_rbtree.c as a tree with paths for the parent pointers. Insertion and deletion return,
    keep the red-black invariant and the in-order contents, and the height is logarithmic. The locale
    \<open>ordered_index\<close> states what the dictionary needs of its index; it is interpreted on the tree.
  \<^item> \<open>Shdict_Key\<close>: \<open>ngx_crc32_short\<close> (equal to bitwise CRC-32) and \<open>ngx_memn2cmp\<close> (lexicographic).
  \<^item> \<open>Shdict\<close>: the zone (tree, LRU queue, heap of nodes), lookup, expiry, eviction, linking; the invariant
    \<open>shd_inv\<close> ties the three together, and \<open>nodes\<close> is the abstraction to the list of entries in LRU
    order.
  \<^item> \<open>Shdict_Api\<close>: all Lua and FFI functions of the file, with their argument checks and error returns.
  \<^item> \<open>Shdict_Props\<close>: every sequence of calls is safe and keeps the invariant; stores refine the list
    specification on every branch; set/get, delete/get, incr, flush\_all, flush\_expired, get\_keys; the
    FFI store does what the Lua store does; an out-of-memory store has lost the old value.

  \<^bold>\<open>Semaphores.\<close>
  \<^item> \<open>Semaphore_Mm\<close>: the block allocator: a free queue across blocks, epochs, blocks given back to
    the system. Held semaphores are never handed out twice nor freed under their holder.
  \<^item> \<open>Semaphore\<close>: post, wait, count, timeout, cleanup and the posted event handler, and their
    interleavings as the step relation \<open>sem_step\<close> (the flag of a state tells that the handler's loop is
    between two rounds). No wakeup is lost, service is first come first served, resources are conserved.
    The handler's loop is a \<open>partial_function\<close> that threads the rest of the worker through its calls of \<open>resume\<close>: it ends when resumed coroutines at most wait
    again, and has resumed each waiter that left the queue, from the front on.

  \<^bold>\<open>Codecs.\<close>
  \<^item> \<open>Uri\<close>: escaping tables, escape and unescape of URIs, SQL quoting, with round trips.
  \<^item> \<open>Args\<close>: \<open>encode_args\<close> (a counting pass and a writing pass over one buffer) and \<open>decode_args\<close>. The writing
    pass stays in the buffer the counting pass sized; decoding gives back the encoded table when its keys are distinct and not empty and its values strings,
    \<open>true\<close> or lists of at least two of these, at most a hundred in all. A key that
    needs escaping and has nothing to write makes the passes disagree, which the code reports as an
    error.
  \<^item> \<open>Script\<close>, \<open>Script_Props\<close>: the replacement templates of \<open>ngx.re.sub\<close> (ngx\_stream\_lua\_script.c), compiled into a program that adds up the length and one that writes
    the text, with \<open>None\<close> for an access outside the program, the captures, the subject or the result. A template compiles exactly if it is well-formed, and expands to what it says.

  \<^bold>\<open>TCP cosockets\<close> (ngx\_stream\_lua\_socket\_tcp.c).
  \<^item> \<open>Socket_Buf\<close>: the receive side of a cosocket: a chain of input buffers with their memory, the free
    list, the operations on them and the filters \<open>read_chunk\<close>, \<open>read_all\<close>, \<open>read_line\<close>. \<open>collected\<close> and
    \<open>unread\<close> abstract the chain to the text read for the call and the bytes not yet read.
  \<^item> \<open>Socket_Redis\<close>: the filter of \<open>receive('*r')\<close>, which decides whether a Redis command is complete.
  \<^item> \<open>Socket_Read\<close>: the read loop over an input filter, the read event handler, the method \<open>receive\<close> and its
    return values. What the kernel delivers is a script of \<open>recv\<close> results, cut to the room in the buffer; a
    call that yields goes on with the events of the socket. The locale \<open>input_filter\<close> states what the loop needs of a
    filter; inside it the loop is shown to end and a call to return the filter's result.
  \<^item> \<open>Socket_Receive\<close>: the interpretations of the locale on \<open>read_chunk\<close> and \<open>read_line\<close>; \<open>receive(n)\<close> and
    \<open>receive()\<close> are exact for every segmentation of the stream.
  \<^item> \<open>Socket_Pattern\<close>: the compilation of a pattern; its edges are those of the Knuth-Morris-Pratt automaton.
  \<^item> \<open>Socket_Until\<close>: the filter \<open>read_until\<close>, \<open>receiveuntil\<close> and its iterator, and the interpretation on the filter:
    the iterator stops at the first occurrence of the pattern, for every segmentation.
  \<^item> \<open>Socket_Pool\<close>: \<open>connect\<close>, \<open>setkeepalive\<close>, \<open>close\<close> and the keepalive pools of a worker: the registry, the pools with their
    items in two queues, the socket objects, the open connections with what their data points to, and the session cleanups. Name
    resolution and the system calls are outcomes, given as arguments.
  \<^item> \<open>Socket_Pool_Inv\<close>, \<open>Socket_Pool_Ops\<close>: the invariant \<open>pinv\<close> in seven parts, with a rule for each elementary change, and that every
    operation keeps it; \<open>pool_run\<close> is the set of states reached by operations that keep to the rules \<open>allowed\<close>.
  \<^item> \<open>Socket_Pool_Props\<close>: no allowed operation uses freed memory or closes a connection twice, an open connection has one holder,
    the counts of the pools are exact, a connection given back is the one the next \<open>connect\<close> gets; and a run outside the rules that ends in
    freed memory.

  \<^bold>\<open>Coroutines and light threads\<close> (ngx\_stream\_lua\_coroutine.c, ngx\_stream\_lua\_uthread.c, ngx\_stream\_lua\_util.c).
  \<^item> \<open>Coroutine\<close>: the contexts of the coroutines of a session, the API \<open>create\<close>, \<open>resume\<close>, \<open>yield\<close>, \<open>status\<close>, \<open>spawn\<close>, \<open>wait\<close>, \<open>kill\<close>, \<open>exit\<close>, and
    one function for each case of the loop of \<open>ngx_stream_lua_run_thread\<close>, the posted threads, zombies and the release of threads. The Lua
    program is a parameter: a tree of API calls (a codatatype, so it may run forever). A new coroutine gets a new context, or that of a collected coroutine (\<open>reused_co\<close>). \<open>Block\<close> stands for the calls that
    wait for an event, as \<open>sleep\<close> does.
  \<^item> \<open>Coroutine_Inv\<close>: the invariant \<open>sinv\<close> in eight parts: which call a coroutine is in fits its status, the coroutines in \<open>resume\<close> are nested, marks of
    waiting point to coroutines in \<open>wait\<close>, the queue has no thread twice, the count of threads is exact. One rule for each elementary change.
  \<^item> \<open>Coroutine_Run\<close>: every step and event keeps the invariant; \<open>session_run\<close> is the set of states a session reaches by steps that keep
    to \<open>keeps_rules\<close>: \<open>wait\<close> for at most one thread, no \<open>kill\<close> of a thread in which a coroutine runs, memory for the posted threads, and no reuse of a context that something
    still points to. All properties of sessions are under these rules.
  \<^item> \<open>Coroutine_Live\<close>: who waits for a thread is woken by it, and a session with a live entry thread and nothing to run has an event pending, unless a coroutine is in a \<open>wait\<close> without a thread.
  \<^item> \<open>Coroutine_Props\<close>: the properties of sessions, and programs that leave the scheduler out of step: a failed thread keeps its ended children and hangs the
    session, \<open>wait\<close> for several threads disturbs a later call, a thread killed under a running coroutine is counted twice, a thread in the context of one that was waited for is
    released with it.

  \<^bold>\<open>Output and sending\<close> (ngx\_stream\_lua\_output.c, ngx\_stream\_lua\_socket\_tcp.c, ngx\_stream\_lua\_util.c, nginx's ngx\_buf.c, ngx\_output\_chain.c).
  \<^item> \<open>Output\<close>: the arguments of \<open>print\<close>, \<open>say\<close> and \<open>send\<close> as Lua values with nested tables, the pass that adds up sizes and the pass that
    writes; they agree unless a light userdata other than \<open>ngx.null\<close> is among the arguments.
  \<^item> \<open>Output_Chain\<close>: the buffers of a session on the free list, the busy chains and the chain of the writer, \<open>print\<close>, \<open>say\<close>, \<open>eof\<close>, \<open>flush\<close>. What the
    kernel takes is part of the environment of a call; the bytes it took for the client are \<open>wire\<close>.
  \<^item> \<open>Socket_Send\<close>: \<open>send\<close> and its write events, the raw request socket, and the write event handler of the client, which calls both.
  \<^item> \<open>Output_Inv\<close>, \<open>Output_Props\<close>, \<open>Socket_Send_Inv\<close>: the invariant \<open>oinv\<close> (a buffer is free, busy or the request of one socket, and the chain of the
    writer is a part of the busy chain in its order), with \<open>entering\<close> for a buffer between the lists, kept by every operation.
  \<^item> \<open>Output_Run\<close>: runs of calls and events (\<open>orun\<close>) under the rules \<open>op_fine\<close> and without the raw request socket; each step appends its text to the stream of the client or of one socket, or nothing.
  \<^item> \<open>Output_Spec\<close>: the streams are the texts in the order of the calls, \<open>flush\<close> reports success only when all is out, a waiting \<open>send\<close> ends; and the
    overflow for light userdata, and the raw socket that overtakes \<open>print\<close>.

  \<^bold>\<open>Timers\<close> (ngx\_stream\_lua\_timer.c, ngx\_stream\_lua\_util.c, nginx's ngx\_event\_timer.c and ngx\_event\_timer.h).
  \<^item> \<open>Timer\<close>: \<open>timer.at\<close>, the tree of events over \<open>Rbtree\<close>, the handler with the fake session and the label \<open>failed\<close>, the end of a session, the loop of
    expiry, and the walk that calls all pending timers when the worker exits. A Lua function is what it does with timers: its calls of \<open>timer.at\<close> and how its
    thread ends. A session whose function calls \<open>ngx.exit\<close> with \<open>ngx.AGAIN\<close> or \<open>ngx.DONE\<close> is left open (\<open>Leaves\<close>). Allocations are parts of the environment; freed pools and Lua machines that are used again are \<open>None\<close>. \<open>worker_run\<close> is a run of a worker.
  \<^item> \<open>Timer_Walk\<close>: the walk by parent pointers is the inorder of the tree.
  \<^item> \<open>Timer_Inv\<close>, \<open>Timer_Step\<close>, \<open>Timer_Handle\<close>, \<open>Timer_Run\<close>, \<open>Timer_Worker\<close>: the invariant \<open>tinv\<close> (every timer has one owner, which has its coroutine, pool
    and reference of a machine, a session that was left open all but the coroutine; the counters count), kept by every operation; \<open>called_ok\<close>, what is known of the calls of Lua functions.
  \<^item> \<open>Timer_Order\<close>, \<open>Timer_Expire\<close>: keys modulo $2^{64}$ compared by signed differences are the order of time within half of the range; the loop of expiry ends.
  \<^item> \<open>Timer_Err\<close>, \<open>Timer_Props\<close>: the failed allocations that release something twice, the timer without delay that never lets the loop end, the aborted timers that raise the limit, and
    the properties. They are under the rule \<open>worker_op_fine\<close>: a handler does not get its connection without the log, nor the cleanup of the machine without that of the session.

  \<^bold>\<open>Bounds.\<close> The loops of the dictionary end by the length of the queue, those of the parser by the
  distance to the end of the buffer; eviction tries at most thirty times, as the code does. The read loop
  of a cosocket is a \<open>partial_function\<close>, shown to return for every filter of the locale, and so is the walk over the timer tree, shown to return for every tree. The
  expiry loop of the timers has a number of rounds as fuel and tells whether it has ended; one round more than there are due
  events is enough when no timer is set without delay. No other fuel is used.

  \<^bold>\<open>Not modelled.\<close> SSL of cosockets, and UDP; which of several flushing coroutines is resumed first, and what a flusher prints before the next one is resumed; a write of a long
  chain that fails after a part of it was taken (an error of the kernel takes nothing here); the thread of \<open>on_abort\<close>
  and phase handlers, which are event loop I/O over the Lua virtual machine; hashes and the matching of regular expressions, which call libraries; the plugin's
  routing code; API injection, configuration parsing and logging.
\<close>

end
